(* ===== verification/Burst_Prelude.thy ===== *)
theory Burst_Prelude
  imports Main "HOL-Library.Word"
begin

text \<open>
  Shared vocabulary of the development: the machine types of the C sources as words, byte
  strings, little-endian layout of integers in packed structs, bounded reads from a buffer,
  the C idiom "return -1 as soon as a callee fails", C strings, and the generic lemmas on
  lists and words that the component theories use.

  \<^item> \<open>uint8_t\<close> \<dots> \<open>uint64_t\<close> are words of that width; \<open>size_t\<close> is the 64-bit word of the
    supported platforms; lengths of HOL lists are \<open>nat\<close>.
  \<^item> a \<open>const uint8_t *\<close> with a length is a list of bytes, so every read outside the buffer is
    explicit: it is \<open>None\<close>, and becomes \<open>Fault\<close> in the parsers.
\<close>

unbundle bit_operations_syntax

section \<open>Machine types\<close>

type_synonym u8 = "8 word"
type_synonym u16 = "16 word"
type_synonym u32 = "32 word"
type_synonym u64 = "64 word"
type_synonym size_t = "64 word"
type_synonym bytes = "8 word list"

text \<open>Facts that evaluate the layout of a packed struct.\<close>

named_theorems layout \<open>lengths and unfolded layouts of packed structs\<close>

section \<open>Results of parsers\<close>

text \<open>
  A parser returns its outputs, returns one of the error codes of its interface, or reads
  outside the buffer it was given (undefined behaviour in C).
\<close>

datatype ('e, 'a) outcome = Ok 'a | Error 'e | Fault

fun bind_outcome :: "('e, 'a) outcome \<Rightarrow> ('a \<Rightarrow> ('e, 'b) outcome) \<Rightarrow> ('e, 'b) outcome" where
  "bind_outcome (Ok x) f = f x"
| "bind_outcome (Error e) f = Error e"
| "bind_outcome Fault f = Fault"

fun of_read :: "'a option \<Rightarrow> ('e, 'a) outcome" where
  "of_read None = Fault"
| "of_read (Some x) = Ok x"

section \<open>Little-endian layout\<close>

text \<open>The C code runs on little-endian targets and copies integers with \<open>memcpy\<close> or through
  packed structs.\<close>

fun le_bytes :: "nat \<Rightarrow> 'a::len word \<Rightarrow> bytes" where
  "le_bytes 0 w = []"
| "le_bytes (Suc n) w = ucast w # le_bytes n (drop_bit 8 w)"

fun le_word :: "bytes \<Rightarrow> 'a::len word" where
  "le_word [] = 0"
| "le_word (b # bs) = ucast b OR push_bit 8 (le_word bs)"

definition le16 :: "u16 \<Rightarrow> bytes" where
  "le16 w = le_bytes 2 w"

definition le32 :: "u32 \<Rightarrow> bytes" where
  "le32 w = le_bytes 4 w"

definition le64 :: "u64 \<Rightarrow> bytes" where
  "le64 w = le_bytes 8 w"

text \<open>\<open>memcpy(&x, buffer + off, n)\<close>: \<open>None\<close> when the read leaves the buffer.\<close>

definition read_le :: "nat \<Rightarrow> bytes \<Rightarrow> nat \<Rightarrow> 'a::len word option" where
  "read_le n buf off =
     (if off + n \<le> length buf then Some (le_word (take n (drop off buf))) else None)"

text \<open>\<open>buffer[off .. off + n)\<close>: \<open>None\<close> when the range leaves the buffer.\<close>

definition read_bytes :: "bytes \<Rightarrow> nat \<Rightarrow> nat \<Rightarrow> bytes option" where
  "read_bytes buf off n =
     (if off + n \<le> length buf then Some (take n (drop off buf)) else None)"

section \<open>C strings and the error idiom\<close>

text \<open>\<open>strndup(p, n)\<close>: at most \<open>n\<close> bytes, and none from the first NUL on.\<close>

definition strndup :: "bytes \<Rightarrow> nat \<Rightarrow> bytes" where
  "strndup p n = takeWhile (\<lambda>b. b \<noteq> 0) (take n p)"

text \<open>Bytes with a NUL appended, as the string functions see them.\<close>

definition c_string :: "bytes \<Rightarrow> bytes" where
  "c_string p = strndup p (length p)"

text \<open>\<open>if (f(s) != 0) return -1; return g(s);\<close>\<close>

definition then_ok :: "('s \<Rightarrow> int \<times> 's) \<Rightarrow> ('s \<Rightarrow> int \<times> 's) \<Rightarrow> 's \<Rightarrow> int \<times> 's" where
  "then_ok f g s = (case f s of (rc, s') \<Rightarrow> if rc \<noteq> 0 then (-1, s') else g s')"

definition ret_ok :: "'s \<Rightarrow> int \<times> 's" where
  "ret_ok s = (0, s)"

section \<open>Allocations\<close>

text \<open>
  Which allocations succeed is a list of answers, and all succeed once it is used up. One
  allocation: did it succeed, and what is left of the plan.
\<close>

fun next_alloc :: "bool list \<Rightarrow> bool \<times> bool list" where
  "next_alloc [] = (True, [])"
| "next_alloc (b # bs) = (b, bs)"

text \<open>The answers to the next \<open>n\<close> allocations.\<close>

definition granted :: "nat \<Rightarrow> bool list \<Rightarrow> bool list" where
  "granted n plan = take n plan @ replicate (n - length plan) True"

section \<open>Lemmas\<close>

lemma bind_outcome_Ok_iff [simp]:
  "bind_outcome r f = Ok y \<longleftrightarrow> (\<exists>x. r = Ok x \<and> f x = Ok y)"
  by (cases r) auto

lemma bind_outcome_not_Fault:
  "r \<noteq> Fault \<Longrightarrow> (\<And>x. r = Ok x \<Longrightarrow> f x \<noteq> Fault) \<Longrightarrow> bind_outcome r f \<noteq> Fault"
  by (cases r) auto

lemma of_read_Ok_iff [simp]: "of_read r = Ok x \<longleftrightarrow> r = Some x"
  by (cases r) auto

lemma of_read_Fault_iff [simp]: "of_read r = Fault \<longleftrightarrow> r = None"
  by (cases r) auto

lemma then_ok_zero_iff:
  "then_ok f g s = (0, s') \<longleftrightarrow> (\<exists>s1. f s = (0, s1) \<and> g s1 = (0, s'))"
  by (auto simp: then_ok_def split: prod.splits if_splits)

lemma then_ok_eq: "f s = (0, s1) \<Longrightarrow> then_ok f g s = g s1"
  by (simp add: then_ok_def)

lemma ret_ok_zero_iff [simp]: "ret_ok s = (0, s') \<longleftrightarrow> s' = s"
  by (auto simp: ret_ok_def)

lemma length_le_bytes [simp]: "length (le_bytes n w) = n"
  by (induction n arbitrary: w) auto

lemma length_le16 [simp, layout]: "length (le16 w) = 2"
  by (simp add: le16_def)

lemma length_le32 [simp, layout]: "length (le32 w) = 4"
  by (simp add: le32_def)

lemma length_le64 [simp, layout]: "length (le64 w) = 8"
  by (simp add: le64_def)

lemma le_word_le_bytes:
  "(le_word (le_bytes n w) :: 'a::len word) = take_bit (8 * n) w"
proof (induction n arbitrary: w)
  case 0
  then show ?case by simp
next
  case (Suc n)
  show ?case
    by (rule bit_word_eqI) (auto simp: Suc bit_simps)
qed

lemma le_word_le16 [simp]: "le_word (le16 w) = w"
  by (simp add: le16_def le_word_le_bytes take_bit_word_eq_self)

lemma le_word_le32 [simp]: "le_word (le32 w) = w"
  by (simp add: le32_def le_word_le_bytes take_bit_word_eq_self)

lemma le_word_le64 [simp]: "le_word (le64 w) = w"
  by (simp add: le64_def le_word_le_bytes take_bit_word_eq_self)

lemma read_le_append_left:
  "off + n \<le> length xs \<Longrightarrow> read_le n (xs @ ys) off = read_le n xs off"
  by (simp add: read_le_def)

lemma read_le_skip:
  "length xs \<le> off \<Longrightarrow> read_le n (xs @ ys) off = read_le n ys (off - length xs)"
  by (auto simp: read_le_def)

lemma read_le_here:
  "read_le n (xs @ ys) 0 = Some (le_word xs)" if "length xs = n"
  using that by (simp add: read_le_def)

lemma read_le_Some_iff: "(\<exists>w. read_le n buf off = Some w) \<longleftrightarrow> off + n \<le> length buf"
  by (simp add: read_le_def)

lemma read_le_None_iff: "read_le n buf off = None \<longleftrightarrow> length buf < off + n"
  by (auto simp: read_le_def)

lemma read_bytes_Some_iff [simp]:
  "read_bytes buf off n = Some bs \<longleftrightarrow> off + n \<le> length buf \<and> bs = take n (drop off buf)"
  by (auto simp: read_bytes_def)

lemma read_bytes_None_iff [simp]: "read_bytes buf off n = None \<longleftrightarrow> length buf < off + n"
  by (auto simp: read_bytes_def)

lemma granted_Nil [simp]: "granted n [] = replicate n True"
  by (simp add: granted_def)

lemma strndup_no_nul: "0 \<notin> set (strndup p n)"
  using set_takeWhileD by (fastforce simp: strndup_def)

lemma length_strndup_le: "length (strndup p n) \<le> n"
  unfolding strndup_def by (rule order.trans[OF length_takeWhile_le]) simp

lemma c_string_exact [simp]: "0 \<notin> set p \<Longrightarrow> c_string p = p"
  by (auto simp: c_string_def strndup_def)

lemma strndup_exact: "0 \<notin> set xs \<Longrightarrow> strndup (xs @ ys) (length xs) = xs"
  by (auto simp: strndup_def)

text \<open>Ranges of the machine types.\<close>

lemma unat_u32_less: "unat (n :: u32) < 4294967296"
proof -
  have "unat n < 2 ^ LENGTH(32)" by (rule unsigned_less)
  then show ?thesis by simp
qed

lemma unat_u64_less: "unat (n :: u64) < 18446744073709551616"
proof -
  have "unat n < 2 ^ LENGTH(64)" by (rule unsigned_less)
  then show ?thesis by simp
qed

end
