(* ===== verification/Writer_Core.thy ===== *)
theory Writer_Core
  imports Burst_Prelude
begin

text \<open>
  The buffered output of the archive writer (\<open>src/writer/burst_writer.c\<close>, lines 1-144, and
  the structs of \<open>include/burst_writer.h\<close>): the writer context, \<open>burst_writer_create\<close>,
  \<open>burst_writer_write\<close> and \<open>burst_writer_flush\<close>.

  What the C library does is part of the state. \<open>fwrite\<close> may write fewer bytes than asked:
  \<open>out_limits\<close> bounds the next calls one by one and the empty list means every later call
  writes all it is given. An allocation may fail: \<open>allocs\<close> lists the results of the next
  allocations and the empty list means that they succeed. \<open>buffer_size\<close> is never assigned
  after \<open>burst_writer_create\<close>, so it is the constant \<open>WRITE_BUFFER_SIZE\<close>; \<open>write_buffer\<close>
  holds the \<open>buffer_used\<close> bytes in use.

  The abstract view is an append-only byte string, \<open>stream\<close>: what is on disk followed by
  what is still buffered. The locale \<open>byte_sink\<close> is that interface; the other components
  of the writer rely on its interpretation \<open>bw\<close> only.
\<close>

section \<open>Files of the C library\<close>

record out_file =
  out_written :: bytes
  out_limits :: "nat list"

definition fwrite :: "bytes \<Rightarrow> out_file \<Rightarrow> nat \<times> out_file" where
  "fwrite d f =
     (case out_limits f of
        [] \<Rightarrow> (length d, f\<lparr>out_written := out_written f @ d\<rparr>)
      | k # ks \<Rightarrow>
          (min k (length d),
           f\<lparr>out_written := out_written f @ take k d, out_limits := ks\<rparr>))"

section \<open>The writer context\<close>

record file_entry =
  fe_filename :: bytes
  fe_local_header_offset :: u64
  fe_compressed_start_offset :: u64
  fe_uncompressed_start_offset :: u64
  fe_compressed_size :: u64
  fe_uncompressed_size :: u64
  fe_crc32 :: u32
  fe_compression_method :: u16
  fe_version_needed :: u16
  fe_general_purpose_flags :: u16
  fe_last_mod_time :: u16
  fe_last_mod_date :: u16
  fe_unix_mode :: u32
  fe_uid :: u32
  fe_gid :: u32
  fe_used_zip64_descriptor :: bool

record burst_writer =
  output_file :: out_file
  current_offset :: u64
  compression_level :: int
  files :: "file_entry list"
  files_capacity :: nat
  write_buffer :: bytes
  total_uncompressed :: u64
  total_compressed :: u64
  padding_bytes :: u64
  current_uncompressed_offset :: u64
  allocs :: "bool list"

definition INITIAL_FILES_CAPACITY :: nat where
  "INITIAL_FILES_CAPACITY = 16"

definition WRITE_BUFFER_SIZE :: nat where
  "WRITE_BUFFER_SIZE = 64 * 1024"

definition BURST_PART_SIZE :: u64 where
  "BURST_PART_SIZE = 8 * 1024 * 1024"

definition BURST_MAGIC_NUMBER :: u32 where
  "BURST_MAGIC_NUMBER = 0x184D2A5B"

definition num_files :: "burst_writer \<Rightarrow> nat" where
  "num_files w = length (files w)"

definition buffer_used :: "burst_writer \<Rightarrow> nat" where
  "buffer_used w = length (write_buffer w)"

text \<open>One allocation (\<open>malloc\<close>, \<open>calloc\<close>, \<open>realloc\<close>, \<open>strndup\<close>): did it succeed?\<close>

definition c_alloc :: "burst_writer \<Rightarrow> bool \<times> burst_writer" where
  "c_alloc w = (case allocs w of [] \<Rightarrow> (True, w) | b # bs \<Rightarrow> (b, w\<lparr>allocs := bs\<rparr>))"

text \<open>\<open>p = malloc(n); if (!p) return -1; \<dots>\<close>\<close>

definition with_alloc :: "(burst_writer \<Rightarrow> int \<times> burst_writer) \<Rightarrow> burst_writer \<Rightarrow> int \<times> burst_writer" where
  "with_alloc f w = (case c_alloc w of (got, w1) \<Rightarrow> if got then f w1 else (-1, w1))"

text \<open>\<open>writer->padding_bytes += n; return 0;\<close>\<close>

definition add_padding :: "u64 \<Rightarrow> burst_writer \<Rightarrow> int \<times> burst_writer" where
  "add_padding n w = (0, w\<lparr>padding_bytes := padding_bytes w + n\<rparr>)"

text \<open>The four allocations of \<open>burst_writer_create\<close>: the context, the entry array, the write
  buffer and the Zstandard context. Any failure frees the others and returns NULL.\<close>

definition burst_writer_create :: "out_file \<Rightarrow> int \<Rightarrow> bool list \<Rightarrow> burst_writer option" where
  "burst_writer_create out level plan =
     (if False \<in> set (take 4 plan) then None
      else Some \<lparr>output_file = out, current_offset = 0, compression_level = level,
                 files = [], files_capacity = INITIAL_FILES_CAPACITY, write_buffer = [],
                 total_uncompressed = 0, total_compressed = 0, padding_bytes = 0,
                 current_uncompressed_offset = 0, allocs = drop 4 plan\<rparr>)"

section \<open>Flushing and writing\<close>

definition burst_writer_flush :: "burst_writer \<Rightarrow> int \<times> burst_writer" where
  "burst_writer_flush w =
     (if buffer_used w = 0 then (0, w)
      else case fwrite (write_buffer w) (output_file w) of (n, out) \<Rightarrow>
        if n \<noteq> buffer_used w then (-1, w\<lparr>output_file := out\<rparr>)
        else (0, w\<lparr>output_file := out,
                   current_offset := current_offset w + of_nat (buffer_used w),
                   write_buffer := []\<rparr>))"

text \<open>
  The copy loop of \<open>burst_writer_write\<close>: \<open>to_copy\<close> bytes go into the buffer, a full buffer is
  flushed. C compares \<open>buffer_used == buffer_size\<close>; \<open>buffer_used\<close> never exceeds
  \<open>buffer_size\<close>, and the inequality below also covers the states that cannot occur.
\<close>

definition to_copy :: "bytes \<Rightarrow> burst_writer \<Rightarrow> nat" where
  "to_copy src w =
     (let available = WRITE_BUFFER_SIZE - buffer_used w
      in if length src < available then length src else available)"

definition buffer_fill :: "bytes \<Rightarrow> burst_writer \<Rightarrow> burst_writer" where
  "buffer_fill src w = w\<lparr>write_buffer := write_buffer w @ take (to_copy src w) src\<rparr>"

function write_loop :: "bytes \<Rightarrow> burst_writer \<Rightarrow> int \<times> burst_writer" where
  "write_loop src w =
     (if src = [] then (0, w)
      else if buffer_used (buffer_fill src w) \<ge> WRITE_BUFFER_SIZE then
        (if fst (burst_writer_flush (buffer_fill src w)) \<noteq> 0
         then (-1, snd (burst_writer_flush (buffer_fill src w)))
         else write_loop (drop (to_copy src w) src)
                (snd (burst_writer_flush (buffer_fill src w))))
      else write_loop (drop (to_copy src w) src) (buffer_fill src w))"
  by pat_completeness auto
termination
proof (relation "measures [\<lambda>(src, w). length src, \<lambda>(src, w). buffer_used w]", goal_cases)
  case 1
  show ?case by simp
next
  case (2 src w)
  have flushed: "buffer_used (snd (burst_writer_flush v)) = 0"
    if "fst (burst_writer_flush v) = 0" for v
    using that
    by (auto simp: burst_writer_flush_def buffer_used_def split: prod.splits if_splits)
  from 2 flushed[of "buffer_fill src w"] show ?case
    by (cases "to_copy src w = 0")
       (auto simp: buffer_fill_def buffer_used_def WRITE_BUFFER_SIZE_def)
next
  case (3 src w)
  then have "0 < to_copy src w"
    by (auto simp: to_copy_def buffer_fill_def buffer_used_def Let_def split: if_splits)
  with 3 show ?case by simp
qed

declare write_loop.simps [simp del]

definition burst_writer_write :: "bytes \<Rightarrow> burst_writer \<Rightarrow> int \<times> burst_writer" where
  "burst_writer_write d w = write_loop d w"

section \<open>The abstract view\<close>

definition stream :: "burst_writer \<Rightarrow> bytes" where
  "stream w = out_written (output_file w) @ write_buffer w"

definition writer_wf :: "burst_writer \<Rightarrow> bool" where
  "writer_wf w \<longleftrightarrow>
     current_offset w = of_nat (length (out_written (output_file w))) \<and>
     buffer_used w < WRITE_BUFFER_SIZE"

text \<open>What writing bytes never changes.\<close>

definition keep :: "burst_writer \<Rightarrow> int \<times> file_entry list \<times> nat \<times> u64 \<times> u64 \<times> u64" where
  "keep w = (compression_level w, files w, files_capacity w, total_uncompressed w,
             total_compressed w, current_uncompressed_offset w)"

text \<open>No later \<open>fwrite\<close> and no later allocation fails.\<close>

definition fault_free :: "burst_writer \<Rightarrow> bool" where
  "fault_free w \<longleftrightarrow> out_limits (output_file w) = [] \<and> allocs w = []"

text \<open>\<open>w'\<close> is \<open>w\<close> after appending \<open>d\<close>.\<close>

definition extends_by :: "burst_writer \<Rightarrow> bytes \<Rightarrow> burst_writer \<Rightarrow> bool" where
  "extends_by w d w' \<longleftrightarrow> writer_wf w' \<and> stream w' = stream w @ d \<and> keep w' = keep w"

text \<open>
  The contract of an operation that appends the bytes \<open>d\<close>: it does whenever it returns 0, and
  it returns 0 when nothing in the environment fails.
\<close>

definition emits :: "(burst_writer \<Rightarrow> int \<times> burst_writer) \<Rightarrow> bytes \<Rightarrow> bool" where
  "emits f d \<longleftrightarrow>
     (\<forall>w. writer_wf w \<longrightarrow>
        (\<forall>w'. f w = (0, w') \<longrightarrow> extends_by w d w' \<and> (fault_free w \<longrightarrow> fault_free w')) \<and>
        (fault_free w \<longrightarrow> fst (f w) = 0))"

named_theorems emit_intros \<open>contracts of the operations that append bytes\<close>

section \<open>The interface of an append-only sink\<close>

locale byte_sink =
  fixes put :: "bytes \<Rightarrow> 's \<Rightarrow> int \<times> 's"
    and contents :: "'s \<Rightarrow> bytes"
    and ok :: "'s \<Rightarrow> bool"
    and frame :: "'s \<Rightarrow> 'k"
  assumes put_appends:
    "ok s \<Longrightarrow> put d s = (0, s') \<Longrightarrow> ok s' \<and> contents s' = contents s @ d \<and> frame s' = frame s"
    and put_code: "fst (put d s) = 0 \<or> fst (put d s) = -1"
begin

lemma put_then:
  assumes "ok s" and "then_ok (put d) g s = (0, s')"
  shows "\<exists>s1. ok s1 \<and> contents s1 = contents s @ d \<and> frame s1 = frame s \<and> g s1 = (0, s')"
  using assms put_appends by (fastforce simp: then_ok_zero_iff)

lemma put_seq:
  assumes "ok s" and "foldr (\<lambda>d. then_ok (put d)) ds ret_ok s = (0, s')"
  shows "ok s' \<and> contents s' = contents s @ concat ds \<and> frame s' = frame s"
  using assms
proof (induction ds arbitrary: s)
  case Nil
  then show ?case by simp
next
  case (Cons d ds)
  then have "then_ok (put d) (foldr (\<lambda>d. then_ok (put d)) ds ret_ok) s = (0, s')" by simp
  from put_then[OF \<open>ok s\<close> this]
  obtain s1 where s1: "ok s1" "contents s1 = contents s @ d" "frame s1 = frame s"
    and rest: "foldr (\<lambda>d. then_ok (put d)) ds ret_ok s1 = (0, s')" by blast
  from Cons.IH[OF s1(1) rest] s1 show ?case by simp
qed

end

text \<open>A sink on which no write fails.\<close>

locale live_byte_sink = byte_sink put contents ok frame
  for put :: "bytes \<Rightarrow> 's \<Rightarrow> int \<times> 's" and contents :: "'s \<Rightarrow> bytes"
    and ok :: "'s \<Rightarrow> bool" and frame :: "'s \<Rightarrow> 'k" +
  fixes live :: "'s \<Rightarrow> bool"
  assumes put_live: "ok s \<Longrightarrow> live s \<Longrightarrow> \<exists>s'. put d s = (0, s') \<and> live s'"
begin

lemma put_seq_live:
  assumes "ok s" and "live s"
  shows "\<exists>s'. foldr (\<lambda>d. then_ok (put d)) ds ret_ok s = (0, s') \<and> live s'
              \<and> ok s' \<and> contents s' = contents s @ concat ds"
  using assms
proof (induction ds arbitrary: s)
  case Nil
  then show ?case by (simp add: ret_ok_def)
next
  case (Cons d ds)
  from put_live[OF Cons.prems] obtain s1 where s1: "put d s = (0, s1)" "live s1" by blast
  with Cons.prems put_appends have "ok s1" "contents s1 = contents s @ d" by blast+
  with Cons.IH[OF \<open>ok s1\<close> s1(2)] s1 show ?case by (auto simp: then_ok_eq)
qed

end

section \<open>Correctness of flushing and writing\<close>

lemma buffer_used_update [simp]: "buffer_used (w\<lparr>write_buffer := b\<rparr>) = length b"
  by (simp add: buffer_used_def)

lemma burst_writer_flush_zero:
  assumes "burst_writer_flush w = (0, w')"
    and "current_offset w = of_nat (length (out_written (output_file w)))"
  shows "writer_wf w' \<and> stream w' = stream w \<and> keep w' = keep w \<and> write_buffer w' = []
         \<and> (fault_free w \<longrightarrow> fault_free w')"
proof (cases "buffer_used w = 0")
  case True
  with assms show ?thesis
    by (auto simp: burst_writer_flush_def writer_wf_def buffer_used_def WRITE_BUFFER_SIZE_def)
next
  case False
  with assms show ?thesis
    by (auto simp: burst_writer_flush_def fwrite_def writer_wf_def stream_def keep_def
        fault_free_def buffer_used_def WRITE_BUFFER_SIZE_def min_def
        split: list.splits if_splits)
qed

lemma burst_writer_flush_code: "fst (burst_writer_flush w) \<in> {0, -1}"
  by (auto simp: burst_writer_flush_def split: prod.splits)

lemma burst_writer_flush_fault_free:
  "fault_free w \<Longrightarrow> fst (burst_writer_flush w) = 0"
  by (auto simp: burst_writer_flush_def fwrite_def fault_free_def buffer_used_def)

lemma buffer_fill_view:
  assumes "writer_wf w"
  shows "stream (buffer_fill src w) = stream w @ take (to_copy src w) src"
    and "keep (buffer_fill src w) = keep w"
    and "current_offset (buffer_fill src w)
           = of_nat (length (out_written (output_file (buffer_fill src w))))"
    and "fault_free (buffer_fill src w) = fault_free w"
  using assms
  by (auto simp: buffer_fill_def stream_def keep_def writer_wf_def fault_free_def)

lemma write_loop_appends:
  assumes "writer_wf w" and "write_loop src w = (0, w')"
  shows "extends_by w src w' \<and> (fault_free w \<longrightarrow> fault_free w')"
  using assms
proof (induction src w rule: write_loop.induct)
  case (1 src w)
  let ?v = "buffer_fill src w" and ?n = "to_copy src w"
  note view = buffer_fill_view[OF \<open>writer_wf w\<close>, of src]
  consider (nil) "src = []"
    | (full) "src \<noteq> []" "buffer_used ?v \<ge> WRITE_BUFFER_SIZE"
    | (room) "src \<noteq> []" "\<not> buffer_used ?v \<ge> WRITE_BUFFER_SIZE" by blast
  then show ?case
  proof cases
    case nil
    with 1 show ?thesis by (simp add: write_loop.simps extends_by_def)
  next
    case full
    obtain rc w2 where f: "burst_writer_flush ?v = (rc, w2)" by fastforce
    with full "1.prems" have rc: "rc = 0" and rest: "write_loop (drop ?n src) w2 = (0, w')"
      by (auto simp: write_loop.simps[of src w] split: if_splits)
    from burst_writer_flush_zero[OF f[unfolded rc] view(3)]
    have w2: "writer_wf w2" "stream w2 = stream ?v" "keep w2 = keep ?v"
      "fault_free ?v \<longrightarrow> fault_free w2" by auto
    from "1.IH"(1)[OF full] f rc w2(1) rest
    have "extends_by w2 (drop ?n src) w' \<and> (fault_free w2 \<longrightarrow> fault_free w')" by simp
    with view w2 show ?thesis by (auto simp: extends_by_def)
  next
    case room
    with "1.prems" have rest: "write_loop (drop ?n src) ?v = (0, w')"
      by (simp add: write_loop.simps[of src w])
    have wf: "writer_wf ?v" using room view(3) by (simp add: writer_wf_def)
    from "1.IH"(2)[OF room wf rest]
    have "extends_by ?v (drop ?n src) w' \<and> (fault_free ?v \<longrightarrow> fault_free w')" .
    with view show ?thesis by (auto simp: extends_by_def)
  qed
qed

lemma write_loop_code: "fst (write_loop src w) = 0 \<or> fst (write_loop src w) = -1"
proof (induction src w rule: write_loop.induct)
  case (1 src w)
  then show ?case by (auto simp: write_loop.simps[of src w])
qed

lemma write_loop_fault_free:
  "writer_wf w \<Longrightarrow> fault_free w \<Longrightarrow> fst (write_loop src w) = 0"
proof (induction src w rule: write_loop.induct)
  case (1 src w)
  let ?v = "buffer_fill src w"
  note view = buffer_fill_view[OF \<open>writer_wf w\<close>, of src]
  have flush: "fst (burst_writer_flush ?v) = 0"
    using view(4) \<open>fault_free w\<close> by (simp add: burst_writer_flush_fault_free)
  then obtain w2 where f: "burst_writer_flush ?v = (0, w2)" by (metis prod.collapse)
  from burst_writer_flush_zero[OF f view(3)] view(4) \<open>fault_free w\<close>
  have w2: "writer_wf w2" "fault_free w2" by auto
  have wf: "writer_wf ?v" if "\<not> buffer_used ?v \<ge> WRITE_BUFFER_SIZE"
    using that view(3) by (simp add: writer_wf_def)
  show ?case
    using "1.IH" "1.prems" view(4) w2 wf f by (subst write_loop.simps) auto
qed

interpretation bw: live_byte_sink burst_writer_write stream writer_wf keep fault_free
proof
  show "writer_wf s' \<and> stream s' = stream s @ d \<and> keep s' = keep s"
    if "writer_wf s" "burst_writer_write d s = (0, s')" for s s' d
    using that write_loop_appends by (simp add: burst_writer_write_def extends_by_def)
  show "fst (burst_writer_write d s) = 0 \<or> fst (burst_writer_write d s) = -1" for d s
    by (simp add: burst_writer_write_def write_loop_code)
  show "\<exists>s'. burst_writer_write d s = (0, s') \<and> fault_free s'"
    if "writer_wf s" "fault_free s" for s d
    using that write_loop_fault_free[of s d] write_loop_appends[of s d]
    by (metis burst_writer_write_def prod.collapse)
qed

lemma write_extends:
  "writer_wf w \<Longrightarrow> burst_writer_write d w = (0, w') \<Longrightarrow> extends_by w d w'"
  using bw.put_appends by (simp add: extends_by_def)

lemma extends_by_trans:
  "extends_by w d w1 \<Longrightarrow> extends_by w1 e w2 \<Longrightarrow> extends_by w (d @ e) w2"
  by (simp add: extends_by_def)

lemma extends_by_wf: "extends_by w d w' \<Longrightarrow> writer_wf w'"
  by (simp add: extends_by_def)

lemma extends_by_Nil: "writer_wf w \<Longrightarrow> extends_by w [] w"
  by (simp add: extends_by_def)

lemma padding_bytes_view [simp]:
  "stream (w\<lparr>padding_bytes := p\<rparr>) = stream w"
  "keep (w\<lparr>padding_bytes := p\<rparr>) = keep w"
  "writer_wf (w\<lparr>padding_bytes := p\<rparr>) = writer_wf w"
  "fault_free (w\<lparr>padding_bytes := p\<rparr>) = fault_free w"
  by (auto simp: stream_def keep_def writer_wf_def fault_free_def buffer_used_def)

lemma extends_by_padding [simp]:
  "extends_by w d (w'\<lparr>padding_bytes := p\<rparr>) = extends_by w d w'"
  "extends_by (w\<lparr>padding_bytes := p\<rparr>) d w' = extends_by w d w'"
  by (auto simp: extends_by_def)

lemma c_alloc_view:
  assumes "c_alloc w = (b, w')"
  shows "stream w' = stream w" "keep w' = keep w" "writer_wf w' = writer_wf w"
    and "fault_free w \<Longrightarrow> b \<and> fault_free w'"
  using assms
  by (auto simp: c_alloc_def stream_def keep_def writer_wf_def fault_free_def buffer_used_def
      split: list.splits)

section \<open>Composing append contracts\<close>

lemma emits_extends:
  "emits f d \<Longrightarrow> writer_wf w \<Longrightarrow> f w = (0, w') \<Longrightarrow> extends_by w d w'"
  by (simp add: emits_def)

lemma emits_returns:
  assumes "emits f d" and "writer_wf w" and "fault_free w"
  shows "\<exists>w'. f w = (0, w') \<and> extends_by w d w' \<and> fault_free w'"
  using assms unfolding emits_def by (metis prod.collapse)

lemma emits_write [emit_intros]: "emits (burst_writer_write d) d"
  unfolding emits_def burst_writer_write_def
  using write_loop_appends write_loop_fault_free by blast

lemma emits_ret [emit_intros]: "emits ret_ok []"
  by (simp add: emits_def ret_ok_def extends_by_Nil)

lemma emits_add_padding [emit_intros]: "emits (add_padding n) []"
  by (simp add: emits_def add_padding_def extends_by_Nil)

lemma emits_then [emit_intros]:
  assumes f: "emits f d" and g: "emits g e"
  shows "emits (then_ok f g) (d @ e)"
  unfolding emits_def
proof (intro allI impI conjI)
  fix w w' assume wf: "writer_wf w" and eq: "then_ok f g w = (0, w')"
  then obtain w1 where w1: "f w = (0, w1)" "g w1 = (0, w')" by (auto simp: then_ok_zero_iff)
  have e1: "extends_by w d w1" using f wf w1 by (simp add: emits_def)
  then have e2: "extends_by w1 e w'" using g w1 by (simp add: emits_def extends_by_wf)
  show "extends_by w (d @ e) w'" using e1 e2 by (rule extends_by_trans)
  show "fault_free w'" if "fault_free w"
    using that f g wf w1 extends_by_wf[OF e1] by (simp add: emits_def)
next
  fix w assume wf: "writer_wf w" and ff: "fault_free w"
  from emits_returns[OF f wf ff] obtain w1 where w1: "f w = (0, w1)" "extends_by w d w1" "fault_free w1"
    by blast
  with g show "fst (then_ok f g w) = 0"
    by (simp add: then_ok_eq emits_def extends_by_wf)
qed

lemma emits_with_alloc [emit_intros]:
  assumes "emits f d"
  shows "emits (with_alloc f) d"
  unfolding emits_def
proof (intro allI impI)
  fix w assume "writer_wf w"
  obtain b w1 where a: "c_alloc w = (b, w1)" by fastforce
  note view = c_alloc_view[OF a]
  show "(\<forall>w'. with_alloc f w = (0, w') \<longrightarrow>
          extends_by w d w' \<and> (fault_free w \<longrightarrow> fault_free w')) \<and>
        (fault_free w \<longrightarrow> fst (with_alloc f w) = 0)"
    using assms \<open>writer_wf w\<close> a view
    by (auto simp: with_alloc_def emits_def extends_by_def split: if_splits)
qed

lemma emits_if [emit_intros]:
  "(b \<Longrightarrow> emits f d) \<Longrightarrow> (\<not> b \<Longrightarrow> emits g e) \<Longrightarrow> emits (if b then f else g) (if b then d else e)"
  by simp

end
