(* ===== verification/Zip_Structures.thy ===== *)
theory Zip_Structures
  imports Writer_Core "HOL-Library.Signed_Division"
begin

text \<open>
  The ZIP structures (\<open>include/zip_structures.h\<close>, \<open>src/writer/zip_structures.c\<close>): the packed
  structs as records with their byte layout, the extra fields, the DOS time stamps, and the
  operations that append headers, descriptors, the central directory and the end-of-directory
  records to the archive.

  \<open>time(NULL)\<close> and \<open>localtime\<close> are arguments (\<open>c_time\<close>), since their results are not
  determined by the program.
\<close>

section \<open>Constants\<close>

definition ZIP_LOCAL_FILE_HEADER_SIG :: u32 where "ZIP_LOCAL_FILE_HEADER_SIG = 0x04034b50"
definition ZIP_DATA_DESCRIPTOR_SIG :: u32 where "ZIP_DATA_DESCRIPTOR_SIG = 0x08074b50"
definition ZIP_CENTRAL_DIR_HEADER_SIG :: u32 where "ZIP_CENTRAL_DIR_HEADER_SIG = 0x02014b50"
definition ZIP_END_CENTRAL_DIR_SIG :: u32 where "ZIP_END_CENTRAL_DIR_SIG = 0x06054b50"
definition ZIP_ZIP64_END_CENTRAL_DIR_SIG :: u32 where
  "ZIP_ZIP64_END_CENTRAL_DIR_SIG = 0x06064b50"
definition ZIP_ZIP64_END_CENTRAL_DIR_LOCATOR_SIG :: u32 where
  "ZIP_ZIP64_END_CENTRAL_DIR_LOCATOR_SIG = 0x07064b50"

definition ZIP_METHOD_STORE :: u16 where "ZIP_METHOD_STORE = 0"
definition ZIP_METHOD_DEFLATE :: u16 where "ZIP_METHOD_DEFLATE = 8"
definition ZIP_METHOD_ZSTD :: u16 where "ZIP_METHOD_ZSTD = 93"
definition ZIP_FLAG_DATA_DESCRIPTOR :: u16 where "ZIP_FLAG_DATA_DESCRIPTOR = 0x0008"
definition ZIP_VERSION_STORE :: u16 where "ZIP_VERSION_STORE = 10"
definition ZIP_VERSION_DEFLATE :: u16 where "ZIP_VERSION_DEFLATE = 20"
definition ZIP_VERSION_ZSTD :: u16 where "ZIP_VERSION_ZSTD = 63"

text \<open>\<open>".burst_padding"\<close>\<close>

definition PADDING_LFH_FILENAME :: bytes where
  "PADDING_LFH_FILENAME =
     [0x2e, 0x62, 0x75, 0x72, 0x73, 0x74, 0x5f, 0x70, 0x61, 0x64, 0x64, 0x69, 0x6e, 0x67]"

definition PADDING_LFH_FILENAME_LEN :: nat where "PADDING_LFH_FILENAME_LEN = 14"
definition PADDING_LFH_MIN_SIZE :: size_t where "PADDING_LFH_MIN_SIZE = 44"

definition ZIP_EXTRA_UNIX_7875_ID :: u16 where "ZIP_EXTRA_UNIX_7875_ID = 0x7875"
definition ZIP_EXTRA_ZIP64_ID :: u16 where "ZIP_EXTRA_ZIP64_ID = 0x0001"

definition BURST_EOCD_COMMENT_MAGIC :: u32 where "BURST_EOCD_COMMENT_MAGIC = 0x54535242"
definition BURST_EOCD_COMMENT_VERSION :: u8 where "BURST_EOCD_COMMENT_VERSION = 1"
definition BURST_EOCD_COMMENT_SIZE :: nat where "BURST_EOCD_COMMENT_SIZE = 8"
definition BURST_EOCD_NO_CDFH_IN_TAIL :: u32 where "BURST_EOCD_NO_CDFH_IN_TAIL = 0xFFFFFF"

section \<open>Packed structs and their layout\<close>

record zip_local_header =
  lh_signature :: u32
  lh_version_needed :: u16
  lh_flags :: u16
  lh_compression_method :: u16
  lh_last_mod_time :: u16
  lh_last_mod_date :: u16
  lh_crc32 :: u32
  lh_compressed_size :: u32
  lh_uncompressed_size :: u32
  lh_filename_length :: u16
  lh_extra_field_length :: u16

definition local_header_bytes :: "zip_local_header \<Rightarrow> bytes" where
  "local_header_bytes h =
     le32 (lh_signature h) @ le16 (lh_version_needed h) @ le16 (lh_flags h) @
     le16 (lh_compression_method h) @ le16 (lh_last_mod_time h) @ le16 (lh_last_mod_date h) @
     le32 (lh_crc32 h) @ le32 (lh_compressed_size h) @ le32 (lh_uncompressed_size h) @
     le16 (lh_filename_length h) @ le16 (lh_extra_field_length h)"

record zip_data_descriptor =
  dd_signature :: u32
  dd_crc32 :: u32
  dd_compressed_size :: u32
  dd_uncompressed_size :: u32

definition data_descriptor_bytes :: "zip_data_descriptor \<Rightarrow> bytes" where
  "data_descriptor_bytes d =
     le32 (dd_signature d) @ le32 (dd_crc32 d) @ le32 (dd_compressed_size d) @
     le32 (dd_uncompressed_size d)"

record zip_data_descriptor_zip64 =
  dd64_signature :: u32
  dd64_crc32 :: u32
  dd64_compressed_size :: u64
  dd64_uncompressed_size :: u64

definition data_descriptor_zip64_bytes :: "zip_data_descriptor_zip64 \<Rightarrow> bytes" where
  "data_descriptor_zip64_bytes d =
     le32 (dd64_signature d) @ le32 (dd64_crc32 d) @ le64 (dd64_compressed_size d) @
     le64 (dd64_uncompressed_size d)"

record zip_central_header =
  ch_signature :: u32
  ch_version_made_by :: u16
  ch_version_needed :: u16
  ch_flags :: u16
  ch_compression_method :: u16
  ch_last_mod_time :: u16
  ch_last_mod_date :: u16
  ch_crc32 :: u32
  ch_compressed_size :: u32
  ch_uncompressed_size :: u32
  ch_filename_length :: u16
  ch_extra_field_length :: u16
  ch_file_comment_length :: u16
  ch_disk_number_start :: u16
  ch_internal_file_attributes :: u16
  ch_external_file_attributes :: u32
  ch_local_header_offset :: u32

definition central_header_bytes :: "zip_central_header \<Rightarrow> bytes" where
  "central_header_bytes h =
     le32 (ch_signature h) @ le16 (ch_version_made_by h) @ le16 (ch_version_needed h) @
     le16 (ch_flags h) @ le16 (ch_compression_method h) @ le16 (ch_last_mod_time h) @
     le16 (ch_last_mod_date h) @ le32 (ch_crc32 h) @ le32 (ch_compressed_size h) @
     le32 (ch_uncompressed_size h) @ le16 (ch_filename_length h) @
     le16 (ch_extra_field_length h) @ le16 (ch_file_comment_length h) @
     le16 (ch_disk_number_start h) @ le16 (ch_internal_file_attributes h) @
     le32 (ch_external_file_attributes h) @ le32 (ch_local_header_offset h)"

record zip_end_central_dir =
  ec_signature :: u32
  ec_disk_number :: u16
  ec_disk_with_cd :: u16
  ec_num_entries_this_disk :: u16
  ec_num_entries_total :: u16
  ec_central_dir_size :: u32
  ec_central_dir_offset :: u32
  ec_comment_length :: u16

definition end_central_dir_bytes :: "zip_end_central_dir \<Rightarrow> bytes" where
  "end_central_dir_bytes e =
     le32 (ec_signature e) @ le16 (ec_disk_number e) @ le16 (ec_disk_with_cd e) @
     le16 (ec_num_entries_this_disk e) @ le16 (ec_num_entries_total e) @
     le32 (ec_central_dir_size e) @ le32 (ec_central_dir_offset e) @ le16 (ec_comment_length e)"

record zip64_end_central_dir =
  e64_signature :: u32
  e64_eocd64_size :: u64
  e64_version_made_by :: u16
  e64_version_needed :: u16
  e64_disk_number :: u32
  e64_disk_with_cd :: u32
  e64_num_entries_this_disk :: u64
  e64_num_entries_total :: u64
  e64_central_dir_size :: u64
  e64_central_dir_offset :: u64

definition zip64_end_central_dir_bytes :: "zip64_end_central_dir \<Rightarrow> bytes" where
  "zip64_end_central_dir_bytes e =
     le32 (e64_signature e) @ le64 (e64_eocd64_size e) @ le16 (e64_version_made_by e) @
     le16 (e64_version_needed e) @ le32 (e64_disk_number e) @ le32 (e64_disk_with_cd e) @
     le64 (e64_num_entries_this_disk e) @ le64 (e64_num_entries_total e) @
     le64 (e64_central_dir_size e) @ le64 (e64_central_dir_offset e)"

record zip64_end_central_dir_locator =
  loc_signature :: u32
  loc_disk_with_eocd64 :: u32
  loc_eocd64_offset :: u64
  loc_total_disks :: u32

definition zip64_locator_bytes :: "zip64_end_central_dir_locator \<Rightarrow> bytes" where
  "zip64_locator_bytes l =
     le32 (loc_signature l) @ le32 (loc_disk_with_eocd64 l) @ le64 (loc_eocd64_offset l) @
     le32 (loc_total_disks l)"

section \<open>Time stamps\<close>

record tm =
  tm_sec :: int
  tm_min :: int
  tm_hour :: int
  tm_mday :: int
  tm_mon :: int
  tm_year :: int

record c_time =
  time_now :: int
  localtime :: "int \<Rightarrow> tm option"

definition dos_datetime_from_time_t :: "c_time \<Rightarrow> int \<Rightarrow> u16 \<times> u16" where
  "dos_datetime_from_time_t ct t =
     (case localtime ct t of
        None \<Rightarrow> (0, word_of_int ((push_bit 5 1) OR 1))
      | Some x \<Rightarrow>
          (word_of_int (push_bit 11 (tm_hour x AND 0x1F) OR push_bit 5 (tm_min x AND 0x3F) OR
                        ((tm_sec x sdiv 2) AND 0x1F)),
           word_of_int (push_bit 9 ((tm_year x - 80) AND 0x7F) OR
                        push_bit 5 ((tm_mon x + 1) AND 0x0F) OR (tm_mday x AND 0x1F))))"

section \<open>Sizes\<close>

definition get_local_header_size :: "bytes \<Rightarrow> nat" where
  "get_local_header_size filename = 30 + length filename"

definition get_central_header_size :: "bytes \<Rightarrow> nat" where
  "get_central_header_size filename = 46 + length filename"

definition get_data_descriptor_size :: "u64 \<Rightarrow> u64 \<Rightarrow> size_t" where
  "get_data_descriptor_size compressed_size uncompressed_size =
     (if compressed_size > 0xFFFFFFFF \<or> uncompressed_size > 0xFFFFFFFF then 24 else 16)"

section \<open>Headers and descriptors\<close>

definition write_local_header ::
  "bytes \<Rightarrow> u16 \<Rightarrow> u16 \<Rightarrow> u16 \<Rightarrow> u16 \<Rightarrow> burst_writer \<Rightarrow> int \<times> burst_writer" where
  "write_local_header filename compression_method flags last_mod_time last_mod_date =
     (let header =
        \<lparr>lh_signature = ZIP_LOCAL_FILE_HEADER_SIG,
         lh_version_needed =
           (if compression_method = ZIP_METHOD_ZSTD then ZIP_VERSION_ZSTD
            else if compression_method = ZIP_METHOD_DEFLATE then ZIP_VERSION_DEFLATE
            else ZIP_VERSION_STORE),
         lh_flags = flags, lh_compression_method = compression_method,
         lh_last_mod_time = last_mod_time, lh_last_mod_date = last_mod_date,
         lh_crc32 = 0, lh_compressed_size = 0, lh_uncompressed_size = 0,
         lh_filename_length = of_nat (length filename), lh_extra_field_length = 0\<rparr>
      in then_ok (burst_writer_write (local_header_bytes header))
           (then_ok (burst_writer_write (take (unat (lh_filename_length header)) filename))
              ret_ok))"

definition write_data_descriptor ::
  "u32 \<Rightarrow> u64 \<Rightarrow> u64 \<Rightarrow> bool \<Rightarrow> burst_writer \<Rightarrow> int \<times> burst_writer" where
  "write_data_descriptor crc compressed_size uncompressed_size use_zip64 =
     (if use_zip64 then
        burst_writer_write (data_descriptor_zip64_bytes
          \<lparr>dd64_signature = ZIP_DATA_DESCRIPTOR_SIG, dd64_crc32 = crc,
           dd64_compressed_size = compressed_size, dd64_uncompressed_size = uncompressed_size\<rparr>)
      else
        burst_writer_write (data_descriptor_bytes
          \<lparr>dd_signature = ZIP_DATA_DESCRIPTOR_SIG, dd_crc32 = crc,
           dd_compressed_size = ucast compressed_size,
           dd_uncompressed_size = ucast uncompressed_size\<rparr>))"

section \<open>Extra fields\<close>

text \<open>Both builders return the bytes they store in the buffer; the empty list is the return
  value 0 (buffer too small, or nothing to store).\<close>

definition build_unix_extra_field :: "nat \<Rightarrow> u32 \<Rightarrow> u32 \<Rightarrow> bytes" where
  "build_unix_extra_field buffer_size uid gid =
     (if buffer_size < 15 then []
      else [ucast (ZIP_EXTRA_UNIX_7875_ID AND 0xFF),
            ucast (drop_bit 8 ZIP_EXTRA_UNIX_7875_ID AND 0xFF),
            ucast ((11 :: u16) AND 0xFF), ucast (drop_bit 8 (11 :: u16) AND 0xFF),
            1, 4,
            ucast (uid AND 0xFF), ucast (drop_bit 8 uid AND 0xFF),
            ucast (drop_bit 16 uid AND 0xFF), ucast (drop_bit 24 uid AND 0xFF),
            4,
            ucast (gid AND 0xFF), ucast (drop_bit 8 gid AND 0xFF),
            ucast (drop_bit 16 gid AND 0xFF), ucast (drop_bit 24 gid AND 0xFF)])"

definition build_zip64_extra_field :: "nat \<Rightarrow> u64 \<Rightarrow> u64 \<Rightarrow> u64 \<Rightarrow> bytes" where
  "build_zip64_extra_field buffer_size compressed_size uncompressed_size local_header_offset =
     (let need_uncompressed = uncompressed_size > 0xFFFFFFFF;
          need_compressed = compressed_size > 0xFFFFFFFF;
          need_offset = local_header_offset > 0xFFFFFFFF
      in if \<not> need_uncompressed \<and> \<not> need_compressed \<and> \<not> need_offset then []
         else
           let data_size = (if need_uncompressed then 8 else 0) +
                           (if need_compressed then 8 else 0) +
                           (if need_offset then 8 else 0 :: size_t);
               total_size = 4 + data_size
           in if of_nat buffer_size < total_size then []
              else
                [ucast (ZIP_EXTRA_ZIP64_ID AND 0xFF),
                 ucast (drop_bit 8 ZIP_EXTRA_ZIP64_ID AND 0xFF),
                 ucast (data_size AND 0xFF), ucast (drop_bit 8 data_size AND 0xFF)] @
                (if need_uncompressed then le64 uncompressed_size else []) @
                (if need_compressed then le64 compressed_size else []) @
                (if need_offset then le64 local_header_offset else []))"

section \<open>Central directory\<close>

definition need_zip64 :: "file_entry \<Rightarrow> bool" where
  "need_zip64 e \<longleftrightarrow>
     fe_compressed_size e > 0xFFFFFFFF \<or> fe_uncompressed_size e > 0xFFFFFFFF \<or>
     fe_local_header_offset e > 0xFFFFFFFF"

text \<open>\<open>x > 0xFFFFFFFF ? 0xFFFFFFFF : (uint32_t)x\<close>\<close>

definition clamp32 :: "u64 \<Rightarrow> u32" where
  "clamp32 x = (if x > 0xFFFFFFFF then 0xFFFFFFFF else ucast x)"

definition central_header_of :: "file_entry \<Rightarrow> nat \<Rightarrow> zip_central_header" where
  "central_header_of e extra_field_len =
     \<lparr>ch_signature = ZIP_CENTRAL_DIR_HEADER_SIG,
      ch_version_made_by = push_bit 8 3 OR 63,
      ch_version_needed = fe_version_needed e,
      ch_flags = fe_general_purpose_flags e,
      ch_compression_method = fe_compression_method e,
      ch_last_mod_time = fe_last_mod_time e,
      ch_last_mod_date = fe_last_mod_date e,
      ch_crc32 = fe_crc32 e,
      ch_compressed_size = clamp32 (fe_compressed_size e),
      ch_uncompressed_size = clamp32 (fe_uncompressed_size e),
      ch_filename_length = of_nat (length (fe_filename e)),
      ch_extra_field_length = of_nat extra_field_len,
      ch_file_comment_length = 0,
      ch_disk_number_start = 0,
      ch_internal_file_attributes = 0,
      ch_external_file_attributes = push_bit 16 (fe_unix_mode e),
      ch_local_header_offset = clamp32 (fe_local_header_offset e)\<rparr>"

text \<open>The body of the loop of \<open>write_central_directory\<close>.\<close>

definition write_central_entry :: "file_entry \<Rightarrow> burst_writer \<Rightarrow> int \<times> burst_writer" where
  "write_central_entry e w =
     (let unix = build_unix_extra_field 64 (fe_uid e) (fe_gid e);
          zip64 = (if need_zip64 e
                   then build_zip64_extra_field (64 - length unix) (fe_compressed_size e)
                          (fe_uncompressed_size e) (fe_local_header_offset e)
                   else []);
          extra_field = unix @ zip64;
          header = central_header_of e (length extra_field)
      in if need_zip64 e \<and> zip64 = [] then (-1, w)
         else
           then_ok (burst_writer_write (central_header_bytes header))
             (then_ok (burst_writer_write (take (unat (ch_filename_length header)) (fe_filename e)))
               (if length extra_field > 0 then then_ok (burst_writer_write extra_field) ret_ok
                else ret_ok)) w)"

fun write_central_entries :: "file_entry list \<Rightarrow> burst_writer \<Rightarrow> int \<times> burst_writer" where
  "write_central_entries [] = ret_ok"
| "write_central_entries (e # es) = then_ok (write_central_entry e) (write_central_entries es)"

definition write_central_directory :: "burst_writer \<Rightarrow> int \<times> burst_writer" where
  "write_central_directory w = write_central_entries (files w) w"

section \<open>End of central directory\<close>

definition write_zip64_end_central_directory ::
  "u64 \<Rightarrow> u64 \<Rightarrow> burst_writer \<Rightarrow> int \<times> burst_writer" where
  "write_zip64_end_central_directory central_dir_start central_dir_size w =
     burst_writer_write (zip64_end_central_dir_bytes
       \<lparr>e64_signature = ZIP_ZIP64_END_CENTRAL_DIR_SIG, e64_eocd64_size = 56 - 12,
        e64_version_made_by = push_bit 8 3 OR ZIP_VERSION_ZSTD,
        e64_version_needed = ZIP_VERSION_ZSTD,
        e64_disk_number = 0, e64_disk_with_cd = 0,
        e64_num_entries_this_disk = of_nat (num_files w),
        e64_num_entries_total = of_nat (num_files w),
        e64_central_dir_size = central_dir_size,
        e64_central_dir_offset = central_dir_start\<rparr>) w"

definition write_zip64_end_central_directory_locator ::
  "u64 \<Rightarrow> burst_writer \<Rightarrow> int \<times> burst_writer" where
  "write_zip64_end_central_directory_locator eocd64_offset =
     burst_writer_write (zip64_locator_bytes
       \<lparr>loc_signature = ZIP_ZIP64_END_CENTRAL_DIR_LOCATOR_SIG, loc_disk_with_eocd64 = 0,
        loc_eocd64_offset = eocd64_offset, loc_total_disks = 1\<rparr>)"

definition build_burst_eocd_comment :: "u32 \<Rightarrow> bytes" where
  "build_burst_eocd_comment first_cdfh_offset_in_tail =
     (let offset_24 = first_cdfh_offset_in_tail AND 0xFFFFFF
      in le32 BURST_EOCD_COMMENT_MAGIC @
         [BURST_EOCD_COMMENT_VERSION,
          ucast (offset_24 AND 0xFF),
          ucast (drop_bit 8 offset_24 AND 0xFF),
          ucast (drop_bit 16 offset_24 AND 0xFF)])"

definition end_central_dir_of :: "nat \<Rightarrow> u64 \<Rightarrow> u64 \<Rightarrow> zip_end_central_dir" where
  "end_central_dir_of n central_dir_start central_dir_size =
     \<lparr>ec_signature = ZIP_END_CENTRAL_DIR_SIG, ec_disk_number = 0, ec_disk_with_cd = 0,
      ec_num_entries_this_disk = (if n > 0xFFFE then 0xFFFF else of_nat n),
      ec_num_entries_total = (if n > 0xFFFE then 0xFFFF else of_nat n),
      ec_central_dir_size =
        (if central_dir_size > 0xFFFFFFFE then 0xFFFFFFFF else ucast central_dir_size),
      ec_central_dir_offset =
        (if central_dir_start > 0xFFFFFFFE then 0xFFFFFFFF else ucast central_dir_start),
      ec_comment_length = of_nat BURST_EOCD_COMMENT_SIZE\<rparr>"

definition write_end_central_directory ::
  "u64 \<Rightarrow> u64 \<Rightarrow> u32 \<Rightarrow> burst_writer \<Rightarrow> int \<times> burst_writer" where
  "write_end_central_directory central_dir_start central_dir_size first_cdfh_offset_in_tail w =
     then_ok (burst_writer_write (end_central_dir_bytes
                (end_central_dir_of (num_files w) central_dir_start central_dir_size)))
       (burst_writer_write (build_burst_eocd_comment first_cdfh_offset_in_tail)) w"

section \<open>Padding entries\<close>

definition padding_header :: "c_time \<Rightarrow> u16 \<Rightarrow> zip_local_header" where
  "padding_header ct extra_field_len =
     (let (mod_time, mod_date) = dos_datetime_from_time_t ct (time_now ct)
      in \<lparr>lh_signature = ZIP_LOCAL_FILE_HEADER_SIG, lh_version_needed = ZIP_VERSION_STORE,
          lh_flags = 0, lh_compression_method = ZIP_METHOD_STORE,
          lh_last_mod_time = mod_time, lh_last_mod_date = mod_date,
          lh_crc32 = 0, lh_compressed_size = 0, lh_uncompressed_size = 0,
          lh_filename_length = of_nat PADDING_LFH_FILENAME_LEN,
          lh_extra_field_length = extra_field_len\<rparr>)"

definition write_padding_lfh :: "c_time \<Rightarrow> size_t \<Rightarrow> burst_writer \<Rightarrow> int \<times> burst_writer" where
  "write_padding_lfh ct target_len w =
     (if target_len < PADDING_LFH_MIN_SIZE then (-1, w)
      else
        let extra_field_len = ucast (target_len - 30 - of_nat PADDING_LFH_FILENAME_LEN) :: u16
        in then_ok (burst_writer_write (local_header_bytes (padding_header ct extra_field_len)))
             (then_ok (burst_writer_write (take PADDING_LFH_FILENAME_LEN PADDING_LFH_FILENAME))
               (then_ok
                 (if extra_field_len > 0
                  then with_alloc (then_ok (burst_writer_write
                                     (replicate (unat extra_field_len) 0)) ret_ok)
                  else ret_ok)
                 (add_padding target_len))) w)"

section \<open>Layout facts\<close>

lemma length_local_header_bytes [simp, layout]: "length (local_header_bytes h) = 30"
  by (simp add: local_header_bytes_def)

lemma length_data_descriptor_bytes [simp, layout]: "length (data_descriptor_bytes d) = 16"
  by (simp add: data_descriptor_bytes_def)

lemma length_data_descriptor_zip64_bytes [simp, layout]:
  "length (data_descriptor_zip64_bytes d) = 24"
  by (simp add: data_descriptor_zip64_bytes_def)

lemma length_central_header_bytes [simp, layout]: "length (central_header_bytes h) = 46"
  by (simp add: central_header_bytes_def)

lemma length_end_central_dir_bytes [simp, layout]: "length (end_central_dir_bytes e) = 22"
  by (simp add: end_central_dir_bytes_def)

lemma length_zip64_end_central_dir_bytes [simp, layout]:
  "length (zip64_end_central_dir_bytes e) = 56"
  by (simp add: zip64_end_central_dir_bytes_def)

lemma length_zip64_locator_bytes [simp, layout]: "length (zip64_locator_bytes l) = 20"
  by (simp add: zip64_locator_bytes_def)

lemma length_PADDING_LFH_FILENAME [simp, layout]: "length PADDING_LFH_FILENAME = 14"
  by (simp add: PADDING_LFH_FILENAME_def)

lemma length_build_unix_extra_field [simp, layout]:
  "15 \<le> n \<Longrightarrow> length (build_unix_extra_field n uid gid) = 15"
  by (simp add: build_unix_extra_field_def)

lemma length_build_burst_eocd_comment [simp, layout]:
  "length (build_burst_eocd_comment off) = 8"
  by (simp add: build_burst_eocd_comment_def Let_def)

section \<open>What the operations append\<close>

text \<open>The central directory entry of a file, and the tail of the archive, as byte strings.\<close>

definition cdfh_extra :: "file_entry \<Rightarrow> bytes" where
  "cdfh_extra e =
     build_unix_extra_field 64 (fe_uid e) (fe_gid e) @
     (if need_zip64 e
      then build_zip64_extra_field 49 (fe_compressed_size e) (fe_uncompressed_size e)
             (fe_local_header_offset e)
      else [])"

definition cdfh_bytes :: "file_entry \<Rightarrow> bytes" where
  "cdfh_bytes e =
     central_header_bytes (central_header_of e (length (cdfh_extra e))) @
     take (unat (of_nat (length (fe_filename e)) :: u16)) (fe_filename e) @
     cdfh_extra e"

definition data_descriptor :: "u32 \<Rightarrow> u64 \<Rightarrow> u64 \<Rightarrow> bool \<Rightarrow> bytes" where
  "data_descriptor crc compressed_size uncompressed_size use_zip64 =
     (if use_zip64 then
        data_descriptor_zip64_bytes
          \<lparr>dd64_signature = ZIP_DATA_DESCRIPTOR_SIG, dd64_crc32 = crc,
           dd64_compressed_size = compressed_size, dd64_uncompressed_size = uncompressed_size\<rparr>
      else
        data_descriptor_bytes
          \<lparr>dd_signature = ZIP_DATA_DESCRIPTOR_SIG, dd_crc32 = crc,
           dd_compressed_size = ucast compressed_size,
           dd_uncompressed_size = ucast uncompressed_size\<rparr>)"

definition padding_lfh :: "c_time \<Rightarrow> nat \<Rightarrow> bytes" where
  "padding_lfh ct n =
     local_header_bytes (padding_header ct (of_nat (n - 44))) @ PADDING_LFH_FILENAME @
     replicate (n - 44) 0"

lemma length_padding_lfh [simp, layout]: "44 \<le> n \<Longrightarrow> length (padding_lfh ct n) = n"
  by (simp add: padding_lfh_def)

lemma length_data_descriptor [simp, layout]:
  "length (data_descriptor crc c u z) = (if z then 24 else 16)"
  by (simp add: data_descriptor_def)

lemma length_build_zip64_extra_field:
  assumes "28 \<le> n" and "n < 2 ^ 64"
    and "c > 0xFFFFFFFF \<or> u > 0xFFFFFFFF \<or> off > 0xFFFFFFFF"
  shows "length (build_zip64_extra_field n c u off) =
           4 + (if u > 0xFFFFFFFF then 8 else 0) + (if c > 0xFFFFFFFF then 8 else 0)
             + (if off > 0xFFFFFFFF then 8 else 0)"
  using assms
  by (auto simp: build_zip64_extra_field_def Let_def word_less_nat_alt unat_of_nat)

lemma write_data_descriptor_emits [emit_intros]:
  "emits (write_data_descriptor crc c u z) (data_descriptor crc c u z)"
  by (auto simp: write_data_descriptor_def data_descriptor_def intro: emit_intros)

lemma write_local_header_emits:
  assumes "length filename < 65536"
  shows "emits (write_local_header filename m fl t d)
           (local_header_bytes
             \<lparr>lh_signature = ZIP_LOCAL_FILE_HEADER_SIG,
              lh_version_needed =
                (if m = ZIP_METHOD_ZSTD then ZIP_VERSION_ZSTD
                 else if m = ZIP_METHOD_DEFLATE then ZIP_VERSION_DEFLATE else ZIP_VERSION_STORE),
              lh_flags = fl, lh_compression_method = m, lh_last_mod_time = t,
              lh_last_mod_date = d, lh_crc32 = 0, lh_compressed_size = 0,
              lh_uncompressed_size = 0, lh_filename_length = of_nat (length filename),
              lh_extra_field_length = 0\<rparr> @ filename)"
proof -
  have [simp]: "unat (of_nat (length filename) :: u16) = length filename"
    using assms by (simp add: unat_of_nat)
  show ?thesis
    using emits_then[OF emits_write emits_then[OF emits_write emits_ret]]
    by (simp add: write_local_header_def Let_def)
qed

lemma cdfh_zip64_nonempty:
  "need_zip64 e \<Longrightarrow>
   build_zip64_extra_field 49 (fe_compressed_size e) (fe_uncompressed_size e)
     (fe_local_header_offset e) \<noteq> []"
  using length_build_zip64_extra_field[of 49 "fe_compressed_size e" "fe_uncompressed_size e"
      "fe_local_header_offset e"]
  by (auto simp: need_zip64_def)

lemma write_central_entry_emits: "emits (write_central_entry e) (cdfh_bytes e)"
proof -
  let ?h = "central_header_of e (length (cdfh_extra e))"
  have "write_central_entry e =
    then_ok (burst_writer_write (central_header_bytes ?h))
      (then_ok (burst_writer_write (take (unat (ch_filename_length ?h)) (fe_filename e)))
        (then_ok (burst_writer_write (cdfh_extra e)) ret_ok))"
    using cdfh_zip64_nonempty[of e]
    by (auto simp: write_central_entry_def cdfh_extra_def Let_def fun_eq_iff)
  moreover have "ch_filename_length ?h = of_nat (length (fe_filename e))"
    by (simp add: central_header_of_def)
  ultimately show ?thesis
    using emits_then[OF emits_write emits_then[OF emits_write emits_then[OF emits_write emits_ret]]]
    by (simp add: cdfh_bytes_def)
qed

lemma write_central_entries_emits:
  "emits (write_central_entries es) (concat (map cdfh_bytes es))"
  by (induction es) (auto intro: emit_intros write_central_entry_emits)

lemma write_padding_lfh_emits:
  assumes "44 \<le> n" and "n < 44 + 65536"
  shows "emits (write_padding_lfh ct (of_nat n)) (padding_lfh ct n)"
proof -
  have un: "unat (of_nat n :: size_t) = n"
    using assms by (simp add: unat_of_nat)
  have ge: "\<not> (of_nat n :: size_t) < PADDING_LFH_MIN_SIZE"
    using assms un by (simp add: PADDING_LFH_MIN_SIZE_def word_less_nat_alt)
  have diff: "of_nat n - 30 - of_nat PADDING_LFH_FILENAME_LEN = (of_nat (n - 44) :: size_t)"
    using assms by (simp add: PADDING_LFH_FILENAME_LEN_def of_nat_diff)
  have "(ucast (of_nat (n - 44) :: size_t) :: u16) = of_nat (n - 44)"
    using assms by (simp add: unsigned_of_nat take_bit_nat_eq_self del: of_nat_diff)
  then have len: "(ucast (of_nat n - 30 - of_nat PADDING_LFH_FILENAME_LEN :: size_t) :: u16)
                  = of_nat (n - 44)"
    by (simp only: diff)
  have ex: "unat (of_nat (n - 44) :: u16) = n - 44"
    using assms by (simp add: unat_of_nat del: of_nat_diff)
  have zeros: "emits (if (of_nat (n - 44) :: u16) > 0
      then with_alloc (then_ok (burst_writer_write (replicate (n - 44) 0)) ret_ok)
      else ret_ok) (replicate (n - 44) 0)"
  proof (cases "n = 44")
    case True
    then show ?thesis by (simp add: emits_ret)
  next
    case False
    with assms have "(of_nat (n - 44) :: u16) > 0"
      by (simp add: word_less_nat_alt unat_of_nat del: of_nat_diff)
    then show ?thesis
      using emits_with_alloc[OF emits_then[OF emits_write emits_ret]] by (simp del: of_nat_diff)
  qed
  have "write_padding_lfh ct (of_nat n) =
    then_ok (burst_writer_write (local_header_bytes (padding_header ct (of_nat (n - 44)))))
      (then_ok (burst_writer_write PADDING_LFH_FILENAME)
        (then_ok (if (of_nat (n - 44) :: u16) > 0
          then with_alloc (then_ok (burst_writer_write (replicate (n - 44) 0)) ret_ok)
          else ret_ok) (add_padding (of_nat n))))"
    using ge len ex
    by (simp add: write_padding_lfh_def Let_def fun_eq_iff PADDING_LFH_FILENAME_LEN_def
        del: of_nat_diff)
  with emits_then[OF emits_write emits_then[OF emits_write emits_then[OF zeros emits_add_padding]]]
  show ?thesis by (simp add: padding_lfh_def)
qed

end
