(* ===== verification/Alignment.thy ===== *)
theory Alignment
  imports Zip_Structures
begin

text \<open>
  Part alignment (\<open>include/alignment.h\<close>, \<open>src/writer/alignment.c\<close>): where the next 8 MiB
  boundary is, what to do before a compressed frame is written, and the two skippable frames.

  The second half states the alignment rule of \<open>docs/burst-format.md\<close> on byte strings
  (\<open>aligned\<close>: every 8 MiB boundary starts with a local file header or a Start-of-Part frame)
  and gives the append lemmas from which the writer's theorems follow.
\<close>

section \<open>Boundaries and decisions\<close>

definition alignment_next_boundary :: "u64 \<Rightarrow> u64" where
  "alignment_next_boundary off =
     ((off div BURST_PART_SIZE) + 1) * BURST_PART_SIZE"

definition alignment_get_write_position :: "burst_writer \<Rightarrow> u64" where
  "alignment_get_write_position w = current_offset w + of_nat (buffer_used w)"

datatype alignment_action =
    ALIGNMENT_WRITE_FRAME
  | ALIGNMENT_PAD_THEN_FRAME
  | ALIGNMENT_PAD_THEN_METADATA
  | ALIGNMENT_WRITE_FRAME_THEN_METADATA

record alignment_decision =
  ad_action :: alignment_action
  ad_padding_size :: size_t
  ad_next_boundary :: u64
  ad_at_file_end :: bool

definition BURST_MIN_SKIPPABLE_FRAME_SIZE :: size_t where
  "BURST_MIN_SKIPPABLE_FRAME_SIZE = 8"

definition alignment_decide :: "u64 \<Rightarrow> size_t \<Rightarrow> bool \<Rightarrow> alignment_decision" where
  "alignment_decide off frame_size at_file_end =
     (let next_boundary = alignment_next_boundary off;
          decision = \<lparr>ad_action = ALIGNMENT_WRITE_FRAME, ad_padding_size = 0,
                      ad_next_boundary = next_boundary, ad_at_file_end = at_file_end\<rparr>;
          space_required = (if at_file_end then frame_size + 16 else frame_size);
          space_until_boundary = next_boundary - off
      in if space_until_boundary = space_required then
           (if at_file_end then decision\<lparr>ad_action := ALIGNMENT_WRITE_FRAME\<rparr>
            else decision\<lparr>ad_action := ALIGNMENT_WRITE_FRAME_THEN_METADATA\<rparr>)
         else if space_until_boundary \<ge> space_required + BURST_MIN_SKIPPABLE_FRAME_SIZE then
           decision\<lparr>ad_action := ALIGNMENT_WRITE_FRAME\<rparr>
         else
           decision\<lparr>ad_padding_size := space_until_boundary - 8,
                    ad_action := ALIGNMENT_PAD_THEN_METADATA\<rparr>)"

section \<open>Skippable frames\<close>

definition alignment_write_padding_frame :: "size_t \<Rightarrow> burst_writer \<Rightarrow> int \<times> burst_writer" where
  "alignment_write_padding_frame padding_size =
     (let frame_size = ucast padding_size :: u32
      in then_ok (burst_writer_write (le32 BURST_MAGIC_NUMBER))
           (then_ok (add_padding 4)
             (then_ok (burst_writer_write (le32 frame_size))
               (then_ok (add_padding 4)
                 (if padding_size > 0
                  then with_alloc (then_ok (burst_writer_write (replicate (unat padding_size) 0))
                         (add_padding (ucast frame_size)))
                  else ret_ok)))))"

definition alignment_write_start_of_part_frame ::
  "u64 \<Rightarrow> burst_writer \<Rightarrow> int \<times> burst_writer" where
  "alignment_write_start_of_part_frame uncompressed_offset =
     then_ok (burst_writer_write (le32 BURST_MAGIC_NUMBER))
       (then_ok (burst_writer_write (le32 16))
         (then_ok (burst_writer_write [0x01])
           (then_ok (burst_writer_write (le64 uncompressed_offset))
             (then_ok (burst_writer_write (replicate 7 0))
               (add_padding (4 + 4 + 1 + 8 + 7))))))"

section \<open>The alignment rule\<close>

abbreviation PART :: nat where "PART \<equiv> 8388608"

text \<open>Bytes left before the next boundary (a whole part when already on one).\<close>

definition room :: "nat \<Rightarrow> nat" where
  "room n = PART - n mod PART"

definition padding_frame :: "nat \<Rightarrow> bytes" where
  "padding_frame n = le32 BURST_MAGIC_NUMBER @ le32 (of_nat n) @ replicate n 0"

definition sop_frame :: "u64 \<Rightarrow> bytes" where
  "sop_frame off = le32 BURST_MAGIC_NUMBER @ le32 16 @ [0x01] @ le64 off @ replicate 7 0"

definition entry_point :: "bytes \<Rightarrow> bool" where
  "entry_point bs \<longleftrightarrow>
     take 4 bs = le32 ZIP_LOCAL_FILE_HEADER_SIG \<or>
     take 9 bs = le32 BURST_MAGIC_NUMBER @ le32 16 @ [0x01]"

definition aligned :: "bytes \<Rightarrow> bool" where
  "aligned s \<longleftrightarrow>
     list_all (\<lambda>k. k * PART < length s \<longrightarrow> entry_point (drop (k * PART) s))
       [0..<length s div PART + 1]"

subsection \<open>Lemmas on the rule\<close>

lemma aligned_iff:
  "aligned s \<longleftrightarrow> (\<forall>k. k * PART < length s \<longrightarrow> entry_point (drop (k * PART) s))"
proof -
  have "k < length s div PART + 1" if "k * PART < length s" for k
  proof -
    have "k * PART div PART \<le> length s div PART" using that by (intro div_le_mono) simp
    then show ?thesis by simp
  qed
  then have "(\<forall>k. k * PART < length s \<longrightarrow> entry_point (drop (k * PART) s)) \<longleftrightarrow>
    (\<forall>k < length s div PART + 1. k * PART < length s \<longrightarrow> entry_point (drop (k * PART) s))"
    by blast
  moreover have "aligned s \<longleftrightarrow>
    (\<forall>k < length s div PART + 1. k * PART < length s \<longrightarrow> entry_point (drop (k * PART) s))"
    by (auto simp: aligned_def list_all_iff less_Suc_eq)
  ultimately show ?thesis by simp
qed

lemma aligned_Nil: "aligned []"
  by (simp add: aligned_iff)

lemma room_bounds [simp]: "0 < room n" "room n \<le> PART"
  by (simp_all add: room_def)

lemma room_add:
  assumes "d < room n"
  shows "room (n + d) = room n - d"
proof -
  from assms have "n mod PART + d < PART" by (simp add: room_def)
  then have "(n + d) mod PART = n mod PART + d"
    by (metis mod_add_left_eq mod_less)
  then show ?thesis by (simp add: room_def)
qed

lemma add_room_eq: "n + room n = (n div PART + 1) * PART"
proof -
  define q m where "q = n div PART" and "m = n mod PART"
  have "q * PART + m = n" "m < PART" by (simp_all add: q_def m_def)
  then have "n + (PART - m) = (q + 1) * PART" by arith
  then show ?thesis by (simp add: room_def q_def m_def)
qed

lemma room_add_full: "(n + room n) mod PART = 0"
  by (simp add: add_room_eq)

lemma room_boundary: "n mod PART = 0 \<Longrightarrow> room n = PART"
  by (simp add: room_def)

lemma room_lt_PART: "n mod PART \<noteq> 0 \<longleftrightarrow> room n < PART"
  by (simp add: room_def) (metis diff_less gr0I minus_nat.diff_0 nat_neq_iff zero_less_numeral)

lemma mod_add_room: "d < room n \<Longrightarrow> 0 < d \<Longrightarrow> (n + d) mod PART \<noteq> 0"
  using room_add[of d n] room_bounds(2)[of n] room_lt_PART[of "n + d"] by linarith

lemma entry_point_append:
  "entry_point xs \<Longrightarrow> 9 \<le> length xs \<Longrightarrow> entry_point (xs @ ys)"
  by (auto simp: entry_point_def)

lemma entry_point_weaken:
  assumes "entry_point xs"
  shows "entry_point (xs @ ys)"
proof -
  have "4 \<le> length xs" if "take 4 xs = le32 s" for s
    using that by (metis length_le32 length_take min.cobounded1)
  moreover have "9 \<le> length xs" if "take 9 xs = le32 BURST_MAGIC_NUMBER @ le32 16 @ [0x01]"
  proof -
    from that have "length (take 9 xs) = length (le32 BURST_MAGIC_NUMBER @ le32 16 @ [0x01])" by simp
    then show ?thesis by simp
  qed
  ultimately show ?thesis using assms by (auto simp: entry_point_def)
qed

text \<open>Appending bytes that do not pass the next boundary keeps the rule, if the bytes start
  with an entry point when they start on a boundary.\<close>

lemma aligned_append:
  assumes al: "aligned s" and fits: "length d \<le> room (length s)"
    and start: "length s mod PART = 0 \<Longrightarrow> d = [] \<or> entry_point d"
  shows "aligned (s @ d)"
  unfolding aligned_iff
proof (intro allI impI)
  fix k assume k: "k * PART < length (s @ d)"
  show "entry_point (drop (k * PART) (s @ d))"
  proof (cases "k * PART < length s")
    case True
    with al have "entry_point (drop (k * PART) s)" by (simp add: aligned_iff)
    with True entry_point_weaken show ?thesis by simp
  next
    case False
    have "k * PART = length s"
    proof (rule ccontr)
      assume "k * PART \<noteq> length s"
      with False have gt: "length s < k * PART" by simp
      define j where "j = k * PART - length s"
      have "j < room (length s)" "0 < j" using k fits gt by (auto simp: j_def)
      then have "(length s + j) mod PART \<noteq> 0" by (rule mod_add_room)
      then show False using gt by (simp add: j_def)
    qed
    then have "length s mod PART = 0" by (metis mod_mult_self2_is_0)
    with start k \<open>k * PART = length s\<close> show ?thesis by auto
  qed
qed

lemma length_padding_frame [simp, layout]: "length (padding_frame n) = 8 + n"
  by (simp add: padding_frame_def)

lemma length_sop_frame [simp, layout]: "length (sop_frame off) = 24"
  by (simp add: sop_frame_def)

lemma entry_point_sop [simp]: "entry_point (sop_frame off @ xs)"
  by (simp add: entry_point_def sop_frame_def)

lemma entry_point_lfh:
  "lh_signature h = ZIP_LOCAL_FILE_HEADER_SIG \<Longrightarrow> entry_point (local_header_bytes h @ xs)"
  by (simp add: entry_point_def local_header_bytes_def)

lemma entry_point_padding_lfh [simp]: "entry_point (padding_lfh ct n)"
  unfolding padding_lfh_def
  by (rule entry_point_lfh) (simp add: padding_header_def split: prod.splits)

section \<open>The word arithmetic computes the room\<close>

lemma unat_BURST_PART_SIZE [simp]: "unat BURST_PART_SIZE = PART"
  by (simp add: BURST_PART_SIZE_def)

lemma unat_next_boundary:
  assumes "unat off < 2 ^ 63"
  shows "unat (alignment_next_boundary off) = (unat off div PART + 1) * PART"
proof -
  have "unat off div PART < 2 ^ 40" using assms by (simp add: less_mult_imp_div_less)
  then show ?thesis
    by (simp add: alignment_next_boundary_def unat_word_ariths unat_div)
qed

lemma unat_space_until_boundary:
  assumes "unat off < 2 ^ 63"
  shows "unat (alignment_next_boundary off - off) = room (unat off)"
proof -
  have nb: "unat (alignment_next_boundary off) = unat off + room (unat off)"
    using unat_next_boundary[OF assms] by (simp add: add_room_eq)
  then have "off \<le> alignment_next_boundary off" by (simp add: word_le_nat_alt)
  with nb show ?thesis by (simp add: unat_sub)
qed

lemma write_position_eq:
  "writer_wf w \<Longrightarrow> alignment_get_write_position w = of_nat (length (stream w))"
  by (simp add: alignment_get_write_position_def writer_wf_def stream_def buffer_used_def)

lemma unat_write_position:
  "writer_wf w \<Longrightarrow> length (stream w) < 2 ^ 63 \<Longrightarrow>
   unat (alignment_get_write_position w) = length (stream w)"
  by (simp add: write_position_eq unat_of_nat)

lemma alignment_decide_cases:
  fixes eof :: bool
  assumes off: "unat off < 2 ^ 63" and f: "unat f < 2 ^ 62"
  defines "r \<equiv> room (unat off)"
    and "need \<equiv> unat f + (if eof then 16 else 0)"
  shows "ad_action (alignment_decide off f eof) =
           (if r = need \<and> \<not> eof then ALIGNMENT_WRITE_FRAME_THEN_METADATA
            else if r = need \<or> r \<ge> need + 8 then ALIGNMENT_WRITE_FRAME
            else ALIGNMENT_PAD_THEN_METADATA)"
    and "8 \<le> r \<Longrightarrow> ad_action (alignment_decide off f eof) = ALIGNMENT_PAD_THEN_METADATA \<Longrightarrow>
         ad_padding_size (alignment_decide off f eof) = of_nat (r - 8)"
proof -
  let ?s = "alignment_next_boundary off - off"
  have s: "unat ?s = r" using unat_space_until_boundary[OF off] by (simp add: r_def)
  let ?q = "if eof then f + 16 else f"
  have q: "unat ?q = need"
    using f by (auto simp: need_def unat_word_ariths)
  have q8: "unat (?q + BURST_MIN_SKIPPABLE_FRAME_SIZE) = need + 8"
    using f q by (auto simp: need_def unat_word_ariths BURST_MIN_SKIPPABLE_FRAME_SIZE_def)
  have eq: "(?s = ?q) = (r = need)" by (simp only: word_unat_eq_iff s q)
  have ge: "(?q + BURST_MIN_SKIPPABLE_FRAME_SIZE \<le> ?s) = (need + 8 \<le> r)"
    using s q8 by (simp only: word_le_nat_alt)
  show "ad_action (alignment_decide off f eof) =
           (if r = need \<and> \<not> eof then ALIGNMENT_WRITE_FRAME_THEN_METADATA
            else if r = need \<or> r \<ge> need + 8 then ALIGNMENT_WRITE_FRAME
            else ALIGNMENT_PAD_THEN_METADATA)"
    using eq ge by (auto simp: alignment_decide_def Let_def)
  show "ad_padding_size (alignment_decide off f eof) = of_nat (r - 8)"
    if "8 \<le> r" and "ad_action (alignment_decide off f eof) = ALIGNMENT_PAD_THEN_METADATA"
  proof -
    have "ad_padding_size (alignment_decide off f eof) = ?s - 8"
      using that(2) by (auto simp: alignment_decide_def Let_def split: if_splits)
    moreover have "?s = of_nat r" using s by (simp add: s[symmetric])
    ultimately show ?thesis using that(1) by (simp add: of_nat_diff)
  qed
qed

section \<open>What the frame writers append\<close>

lemma alignment_write_padding_frame_emits:
  assumes "n < 2 ^ 32"
  shows "emits (alignment_write_padding_frame (of_nat n)) (padding_frame n)"
proof -
  have n: "unat (of_nat n :: size_t) = n" using assms by (simp add: unat_of_nat)
  have fs: "(ucast (of_nat n :: size_t) :: u32) = of_nat n"
    using assms by (simp add: unsigned_of_nat take_bit_nat_eq_self)
  have pos: "(of_nat n :: size_t) > 0 \<longleftrightarrow> n > 0" using n by (simp add: word_less_nat_alt)
  have zeros: "emits (if (of_nat n :: size_t) > 0
      then with_alloc (then_ok (burst_writer_write (replicate n 0)) (add_padding p)) else ret_ok)
      (replicate n 0)" for p
    using emits_with_alloc[OF emits_then[OF emits_write emits_add_padding]] emits_ret pos
    by (cases "n = 0") auto
  have "emits (alignment_write_padding_frame (of_nat n))
    (le32 BURST_MAGIC_NUMBER @ [] @ le32 (of_nat n) @ [] @ replicate n 0)"
    unfolding alignment_write_padding_frame_def Let_def fs n
    by (intro emits_then emits_write emits_add_padding zeros)
  then show ?thesis by (simp add: padding_frame_def)
qed

lemma alignment_write_start_of_part_frame_emits:
  "emits (alignment_write_start_of_part_frame off) (sop_frame off)"
proof -
  have "emits (alignment_write_start_of_part_frame off)
    (le32 BURST_MAGIC_NUMBER @ le32 16 @ [0x01] @ le64 off @ replicate 7 0 @ [])"
    unfolding alignment_write_start_of_part_frame_def
    by (intro emits_then emits_write emits_add_padding)
  then show ?thesis by (simp add: sop_frame_def)
qed

end
