(* ===== verification/Burst_Writer.thy ===== *)
theory Burst_Writer
  imports Alignment
begin

text \<open>
  Adding entries to the archive and finalizing it (\<open>src/writer/burst_writer.c\<close>, lines 146-793,
  and \<open>src/writer/compression.c\<close>), in the release configuration (without the build flags
  \<open>DEBUG\<close> and \<open>BURST_TEST_FORCE_PADDING_LFH\<close>).

  Zstandard and zlib are not part of the repository, so their functions are arguments:
  \<open>env_compress cap input level\<close> is \<open>ZSTD_compress\<close> into a buffer of \<open>cap\<close> bytes
  (\<open>None\<close> when \<open>ZSTD_isError\<close>), \<open>env_compress_bound\<close> is \<open>ZSTD_compressBound\<close>,
  \<open>env_content_size\<close> is \<open>ZSTD_getFrameContentSize\<close>, \<open>env_crc32\<close> is zlib's \<open>crc32\<close>.

  A caller passes the address of a header that is followed in memory by the file name and the
  extra field: here the header record \<open>lfh\<close> and the bytes \<open>tail\<close> after it, so that
  \<open>lfh_len = 30 + length tail\<close>. Pointers are never NULL in the model.
\<close>

section \<open>Libraries and input files\<close>

datatype content_size = CONTENTSIZE_UNKNOWN | CONTENTSIZE_ERROR | CONTENTSIZE u64

record writer_env =
  env_time :: c_time
  env_crc32 :: "u32 \<Rightarrow> bytes \<Rightarrow> u32"
  env_compress :: "nat \<Rightarrow> bytes \<Rightarrow> int \<Rightarrow> bytes option"
  env_compress_bound :: "nat \<Rightarrow> nat"
  env_content_size :: "bytes \<Rightarrow> content_size"

text \<open>\<open>FILE *\<close> opened for reading: the whole file, what is left to read, the number of bytes that
  can be read before a read error, the two indicators, and whether \<open>fseek\<close> works on it.\<close>

record in_file =
  in_all :: bytes
  in_data :: bytes
  in_fail_after :: "nat option"
  in_eof :: bool
  in_error :: bool
  in_seekable :: bool

definition in_rewind :: "in_file \<Rightarrow> in_file" where
  "in_rewind f = f\<lparr>in_data := in_all f, in_eof := False, in_error := False\<rparr>"

definition fread_avail :: "in_file \<Rightarrow> nat" where
  "fread_avail f =
     (case in_fail_after f of None \<Rightarrow> length (in_data f) | Some k \<Rightarrow> min k (length (in_data f)))"

definition fread :: "nat \<Rightarrow> in_file \<Rightarrow> bytes \<times> in_file" where
  "fread n f =
     (let m = min n (fread_avail f);
          failed = (m < n \<and> in_fail_after f \<noteq> None \<and> the (in_fail_after f) \<le> length (in_data f))
      in (take m (in_data f),
          f\<lparr>in_data := drop m (in_data f),
            in_fail_after := map_option (\<lambda>k. k - m) (in_fail_after f),
            in_error := in_error f \<or> failed,
            in_eof := in_eof f \<or> (m < n \<and> \<not> failed)\<rparr>))"

section \<open>Compression\<close>

definition compress_chunk :: "writer_env \<Rightarrow> nat \<Rightarrow> bytes \<Rightarrow> int \<Rightarrow> bytes option" where
  "compress_chunk env output_capacity input level = env_compress env output_capacity input level"

definition verify_frame_content_size :: "writer_env \<Rightarrow> bytes \<Rightarrow> u64 \<Rightarrow> int" where
  "verify_frame_content_size env compressed_data expected_uncompressed_size =
     (case env_content_size env compressed_data of
        CONTENTSIZE_UNKNOWN \<Rightarrow> -1
      | CONTENTSIZE_ERROR \<Rightarrow> -1
      | CONTENTSIZE n \<Rightarrow> if n \<noteq> expected_uncompressed_size then -1 else 0)"

section \<open>Helpers of the add operations\<close>

definition ensure_file_capacity :: "burst_writer \<Rightarrow> int \<times> burst_writer" where
  "ensure_file_capacity w =
     (if num_files w \<ge> files_capacity w
      then with_alloc (\<lambda>w. (0, w\<lparr>files_capacity := files_capacity w * 2\<rparr>)) w
      else (0, w))"

definition empty_entry :: file_entry where
  "empty_entry =
     \<lparr>fe_filename = [], fe_local_header_offset = 0, fe_compressed_start_offset = 0,
      fe_uncompressed_start_offset = 0, fe_compressed_size = 0, fe_uncompressed_size = 0,
      fe_crc32 = 0, fe_compression_method = 0, fe_version_needed = 0,
      fe_general_purpose_flags = 0, fe_last_mod_time = 0, fe_last_mod_date = 0,
      fe_unix_mode = 0, fe_uid = 0, fe_gid = 0, fe_used_zip64_descriptor = False\<rparr>"

definition allocate_file_entry ::
  "zip_local_header \<Rightarrow> bytes \<Rightarrow> burst_writer \<Rightarrow> file_entry option \<times> burst_writer" where
  "allocate_file_entry lfh tail w =
     (case c_alloc w of (got, w1) \<Rightarrow>
        (if got
         then Some (empty_entry\<lparr>fe_filename := strndup tail (unat (lh_filename_length lfh))\<rparr>)
         else None, w1))"

definition populate_entry_metadata ::
  "zip_local_header \<Rightarrow> u64 \<Rightarrow> u32 \<Rightarrow> u32 \<Rightarrow> u32 \<Rightarrow> file_entry \<Rightarrow> file_entry" where
  "populate_entry_metadata lfh local_header_offset unix_mode uid gid entry =
     entry\<lparr>fe_local_header_offset := local_header_offset,
           fe_compression_method := lh_compression_method lfh,
           fe_version_needed := lh_version_needed lfh,
           fe_general_purpose_flags := lh_flags lfh,
           fe_last_mod_time := lh_last_mod_time lfh,
           fe_last_mod_date := lh_last_mod_date lfh,
           fe_unix_mode := unix_mode, fe_uid := uid, fe_gid := gid\<rparr>"

definition check_alignment_and_pad ::
  "c_time \<Rightarrow> size_t \<Rightarrow> size_t \<Rightarrow> bool \<Rightarrow> burst_writer \<Rightarrow> int \<times> burst_writer" where
  "check_alignment_and_pad ct lfh_len content_len has_data_descriptor w =
     (let write_pos = alignment_get_write_position w;
          next_boundary = alignment_next_boundary write_pos;
          space_until_boundary = next_boundary - write_pos;
          space_needed = lfh_len + content_len + PADDING_LFH_MIN_SIZE +
                         (if has_data_descriptor then 24 else 0)
      in if space_until_boundary < space_needed
         then write_padding_lfh ct space_until_boundary w
         else (0, w))"

section \<open>Files\<close>

definition ZSTD_CHUNK_SIZE :: nat where
  "ZSTD_CHUNK_SIZE = 128 * 1024"

text \<open>One compressed frame with the alignment actions around it (the loop body of
  \<open>burst_writer_add_file\<close> after the compression).\<close>

definition write_frame :: "bytes \<Rightarrow> nat \<Rightarrow> u64 \<Rightarrow> bool \<Rightarrow> burst_writer \<Rightarrow> int \<times> burst_writer" where
  "write_frame frame bytes_read total_read at_eof w =
     (let decision = alignment_decide (alignment_get_write_position w)
                       (of_nat (length frame)) at_eof
      in then_ok
           (case ad_action decision of
              ALIGNMENT_PAD_THEN_FRAME \<Rightarrow> alignment_write_padding_frame (ad_padding_size decision)
            | ALIGNMENT_PAD_THEN_METADATA \<Rightarrow>
                then_ok (alignment_write_padding_frame (ad_padding_size decision))
                  (alignment_write_start_of_part_frame (total_read - of_nat bytes_read))
            | _ \<Rightarrow> ret_ok)
           (then_ok (burst_writer_write frame)
              (if ad_action decision = ALIGNMENT_WRITE_FRAME_THEN_METADATA
               then alignment_write_start_of_part_frame total_read else ret_ok)) w)"

text \<open>The read-compress-write loop: the return code, the input file, the CRC, the number of
  bytes read and the writer.\<close>

function compress_loop ::
  "writer_env \<Rightarrow> in_file \<Rightarrow> u32 \<Rightarrow> u64 \<Rightarrow> burst_writer
     \<Rightarrow> int \<times> in_file \<times> u32 \<times> u64 \<times> burst_writer" where
  "compress_loop env inp crc total_read w =
     (if fst (fread ZSTD_CHUNK_SIZE inp) = []
      then (0, snd (fread ZSTD_CHUNK_SIZE inp), crc, total_read, w)
      else
        let chunk = fst (fread ZSTD_CHUNK_SIZE inp);
            inp1 = snd (fread ZSTD_CHUNK_SIZE inp);
            crc1 = env_crc32 env crc chunk;
            total_read1 = total_read + of_nat (length chunk)
        in case compress_chunk env (env_compress_bound env ZSTD_CHUNK_SIZE) chunk
                  (compression_level w) of
             None \<Rightarrow> (-1, inp1, crc1, total_read1, w)
           | Some frame \<Rightarrow>
               (case write_frame frame (length chunk) total_read1
                       (length chunk < ZSTD_CHUNK_SIZE \<or> in_eof inp1) w of
                  (rc, w1) \<Rightarrow>
                    if rc \<noteq> 0 then (-1, inp1, crc1, total_read1, w1)
                    else compress_loop env inp1 crc1 total_read1 w1))"
  by pat_completeness auto
termination
  by (relation "measure (\<lambda>(env, inp, crc, total_read, w). length (in_data inp))")
     (auto simp: fread_def Let_def)

declare compress_loop.simps [simp del]

text \<open>\<open>file_done\<close>: statistics and \<open>num_files++\<close>.\<close>

definition file_done :: "file_entry \<Rightarrow> burst_writer \<Rightarrow> int \<times> burst_writer" where
  "file_done entry w =
     (0, w\<lparr>files := files w @ [entry],
           total_uncompressed := total_uncompressed w + fe_uncompressed_size entry,
           total_compressed := total_compressed w + fe_compressed_size entry\<rparr>)"

text \<open>After the last frame: sizes and CRC of the entry, padding before the descriptor if the
  descriptor and a minimal padding header do not fit, the descriptor.\<close>

definition sized_entry :: "u32 \<Rightarrow> u64 \<Rightarrow> file_entry \<Rightarrow> burst_writer \<Rightarrow> file_entry" where
  "sized_entry crc total_read entry w =
     (let total_comp = (current_offset w + of_nat (buffer_used w))
                         - fe_compressed_start_offset entry
      in entry\<lparr>fe_compressed_size := total_comp, fe_uncompressed_size := total_read, fe_crc32 := crc,
               fe_used_zip64_descriptor := total_comp > 0xFFFFFFFF \<or> total_read > 0xFFFFFFFF\<rparr>)"

definition pad_before_descriptor :: "file_entry \<Rightarrow> u64 \<Rightarrow> burst_writer \<Rightarrow> int \<times> burst_writer" where
  "pad_before_descriptor entry total_read w =
     (let write_pos = alignment_get_write_position w;
          next_boundary = alignment_next_boundary write_pos;
          space_until_boundary = next_boundary - write_pos;
          descriptor_size = get_data_descriptor_size (fe_compressed_size entry)
                              (fe_uncompressed_size entry);
          space_needed = descriptor_size + PADDING_LFH_MIN_SIZE
      in if space_until_boundary < space_needed + BURST_MIN_SKIPPABLE_FRAME_SIZE
         then then_ok (alignment_write_padding_frame (space_until_boundary - 8))
                (alignment_write_start_of_part_frame total_read) w
         else (0, w))"

definition finish_file :: "u32 \<Rightarrow> u64 \<Rightarrow> file_entry \<Rightarrow> burst_writer \<Rightarrow> int \<times> burst_writer" where
  "finish_file crc total_read entry0 w =
     (let entry = sized_entry crc total_read entry0 w
      in then_ok (pad_before_descriptor entry total_read)
           (then_ok (write_data_descriptor (fe_crc32 entry) (fe_compressed_size entry)
                       (fe_uncompressed_size entry) (fe_used_zip64_descriptor entry))
              (file_done entry)) w)"

definition is_header_only :: "zip_local_header \<Rightarrow> bool" where
  "is_header_only lfh \<longleftrightarrow> lh_flags lfh AND ZIP_FLAG_DATA_DESCRIPTOR = 0"

text \<open>\<open>p = malloc(m); q = malloc(n); if (!p || !q) return -1; \<dots>\<close>\<close>

definition with_two_allocs ::
  "(burst_writer \<Rightarrow> int \<times> burst_writer) \<Rightarrow> burst_writer \<Rightarrow> int \<times> burst_writer" where
  "with_two_allocs f w =
     (case c_alloc w of (got1, w1) \<Rightarrow> case c_alloc w1 of (got2, w2) \<Rightarrow>
        if got1 \<and> got2 then f w2 else (-1, w2))"

text \<open>The part of \<open>burst_writer_add_file\<close> after the header: buffers, loop, descriptor.\<close>

definition add_file_body ::
  "writer_env \<Rightarrow> in_file \<Rightarrow> zip_local_header \<Rightarrow> file_entry \<Rightarrow> burst_writer \<Rightarrow> int \<times> burst_writer" where
  "add_file_body env inp lfh entry =
     with_two_allocs (\<lambda>w.
       if is_header_only lfh then file_done entry w
       else case compress_loop env inp 0 0 w of (rc, inp1, crc, total_read, w1) \<Rightarrow>
         if rc \<noteq> 0 then (-1, w1)
         else if in_error inp1 then (-1, w1)
         else finish_file crc total_read entry w1)"

definition burst_writer_add_file ::
  "writer_env \<Rightarrow> in_file \<Rightarrow> zip_local_header \<Rightarrow> bytes \<Rightarrow> u32 \<Rightarrow> u32 \<Rightarrow> u32 \<Rightarrow> burst_writer
     \<Rightarrow> int \<times> burst_writer" where
  "burst_writer_add_file env inp lfh tail unix_mode uid gid w0 =
     (if \<not> is_header_only lfh \<and> \<not> in_seekable inp then (-1, w0)
      else
        let inp0 = (if is_header_only lfh then inp else in_rewind inp)
        in then_ok ensure_file_capacity (\<lambda>w1.
             case allocate_file_entry lfh tail w1 of
               (None, w2) \<Rightarrow> (-1, w2)
             | (Some entry0, w2) \<Rightarrow>
                 then_ok (check_alignment_and_pad (env_time env) (of_nat (30 + length tail)) 0 True)
                   (\<lambda>w3. let entry1 = populate_entry_metadata lfh
                               (current_offset w3 + of_nat (buffer_used w3))
                               unix_mode uid gid entry0
                         in then_ok (burst_writer_write (local_header_bytes lfh @ tail))
                              (\<lambda>w4. add_file_body env inp0 lfh
                                 (entry1\<lparr>fe_compressed_start_offset :=
                                           current_offset w4 + of_nat (buffer_used w4),
                                         fe_uncompressed_start_offset := 0\<rparr>) w4) w3) w2) w0)"

section \<open>Symbolic links and directories\<close>

definition burst_writer_add_symlink ::
  "writer_env \<Rightarrow> zip_local_header \<Rightarrow> bytes \<Rightarrow> bytes \<Rightarrow> u32 \<Rightarrow> u32 \<Rightarrow> u32 \<Rightarrow> burst_writer
     \<Rightarrow> int \<times> burst_writer" where
  "burst_writer_add_symlink env lfh tail target unix_mode uid gid w0 =
     (if target = [] then (-1, w0)
      else
        then_ok ensure_file_capacity (\<lambda>w1.
          case allocate_file_entry lfh tail w1 of
            (None, w2) \<Rightarrow> (-1, w2)
          | (Some entry0, w2) \<Rightarrow>
              then_ok (check_alignment_and_pad (env_time env) (of_nat (30 + length tail))
                         (of_nat (length target)) False)
                (\<lambda>w3. let entry = (populate_entry_metadata lfh
                            (current_offset w3 + of_nat (buffer_used w3))
                            unix_mode uid gid entry0)
                              \<lparr>fe_crc32 := lh_crc32 lfh,
                               fe_compressed_size := of_nat (length target),
                               fe_uncompressed_size := of_nat (length target),
                               fe_used_zip64_descriptor := False\<rparr>
                      in then_ok (burst_writer_write (local_header_bytes lfh @ tail))
                           (then_ok (burst_writer_write target) (file_done entry)) w3) w2) w0)"

definition directory_done :: "file_entry \<Rightarrow> burst_writer \<Rightarrow> int \<times> burst_writer" where
  "directory_done entry w = (0, w\<lparr>files := files w @ [entry]\<rparr>)"

text \<open>A name that would leave the memory after the header, which no caller passes, is refused here;
  in C it is an out-of-bounds read.\<close>

definition burst_writer_add_directory ::
  "writer_env \<Rightarrow> zip_local_header \<Rightarrow> bytes \<Rightarrow> u32 \<Rightarrow> u32 \<Rightarrow> u32 \<Rightarrow> burst_writer
     \<Rightarrow> int \<times> burst_writer" where
  "burst_writer_add_directory env lfh tail unix_mode uid gid w0 =
     (if lh_filename_length lfh = 0 \<or> length tail < unat (lh_filename_length lfh)
         \<or> tail ! (unat (lh_filename_length lfh) - 1) \<noteq> 0x2f then (-1, w0)
      else if lh_compression_method lfh \<noteq> ZIP_METHOD_STORE \<or> lh_compressed_size lfh \<noteq> 0
           \<or> lh_uncompressed_size lfh \<noteq> 0 then (-1, w0)
      else
        then_ok ensure_file_capacity (\<lambda>w1.
          case allocate_file_entry lfh tail w1 of
            (None, w2) \<Rightarrow> (-1, w2)
          | (Some entry0, w2) \<Rightarrow>
              then_ok (check_alignment_and_pad (env_time env) (of_nat (30 + length tail)) 0 False)
                (\<lambda>w3. let entry = (populate_entry_metadata lfh
                            (current_offset w3 + of_nat (buffer_used w3))
                            unix_mode uid gid entry0)
                              \<lparr>fe_crc32 := 0, fe_compressed_size := 0, fe_uncompressed_size := 0,
                               fe_used_zip64_descriptor := False\<rparr>
                      in then_ok (burst_writer_write (local_header_bytes lfh @ tail))
                           (directory_done entry) w3) w2) w0)"

section \<open>Finalizing\<close>

definition calculate_cdfh_size :: "file_entry \<Rightarrow> nat" where
  "calculate_cdfh_size entry =
     46 + length (fe_filename entry) + 15 +
     (if need_zip64 entry
      then 4 + (if fe_uncompressed_size entry > 0xFFFFFFFF then 8 else 0)
             + (if fe_compressed_size entry > 0xFFFFFFFF then 8 else 0)
             + (if fe_local_header_offset entry > 0xFFFFFFFF then 8 else 0)
      else 0)"

fun first_cdfh_from :: "u64 \<Rightarrow> u64 \<Rightarrow> file_entry list \<Rightarrow> u32" where
  "first_cdfh_from tail_start cdfh_offset [] = BURST_EOCD_NO_CDFH_IN_TAIL"
| "first_cdfh_from tail_start cdfh_offset (e # es) =
     (if cdfh_offset \<ge> tail_start then ucast (cdfh_offset - tail_start)
      else first_cdfh_from tail_start (cdfh_offset + of_nat (calculate_cdfh_size e)) es)"

definition find_first_cdfh_in_tail :: "burst_writer \<Rightarrow> u64 \<Rightarrow> u64 \<Rightarrow> u32" where
  "find_first_cdfh_in_tail w central_dir_start final_archive_size =
     (if final_archive_size \<le> BURST_PART_SIZE then 0
      else
        let tail_start = final_archive_size - BURST_PART_SIZE
        in if central_dir_start \<ge> tail_start then 0
           else first_cdfh_from tail_start central_dir_start (files w))"

definition burst_writer_finalize :: "burst_writer \<Rightarrow> int \<times> burst_writer" where
  "burst_writer_finalize =
     then_ok burst_writer_flush (\<lambda>w1.
       let central_dir_start = current_offset w1
       in then_ok write_central_directory (\<lambda>w2.
            let central_dir_end = current_offset w2 + of_nat (buffer_used w2);
                central_dir_size = central_dir_end - central_dir_start;
                final_archive_size = central_dir_end + 56 + 20 + 22 + of_nat BURST_EOCD_COMMENT_SIZE;
                first_cdfh_offset = find_first_cdfh_in_tail w2 central_dir_start final_archive_size;
                eocd64_offset = central_dir_end
            in then_ok (write_zip64_end_central_directory central_dir_start central_dir_size)
                 (then_ok (write_zip64_end_central_directory_locator eocd64_offset)
                   (then_ok (write_end_central_directory central_dir_start central_dir_size
                               first_cdfh_offset)
                     (then_ok burst_writer_flush ret_ok))) w2) w1)"

end
