(* ===== verification/Writer_Body.thy ===== *)
theory Writer_Body
  imports Burst_Writer
begin

text \<open>
  The compressed body of a file: the items (frames, padding frames, Start-of-Part frames) that the
  loop of \<open>burst_writer_add_file\<close> appends, as a pure function of the write position
  (\<open>frame_items\<close>, \<open>body_items\<close>), its payload and offsets, that it keeps the alignment rule, and
  the proof that the loop refines it (\<open>compress_loop_refines\<close>).
\<close>

section \<open>Operations that depend on the write position\<close>

definition emits_at :: "nat \<Rightarrow> (burst_writer \<Rightarrow> int \<times> burst_writer) \<Rightarrow> bytes \<Rightarrow> bool" where
  "emits_at p f d \<longleftrightarrow>
     (\<forall>w. writer_wf w \<longrightarrow> length (stream w) = p \<longrightarrow>
        (\<forall>w'. f w = (0, w') \<longrightarrow> extends_by w d w' \<and> (fault_free w \<longrightarrow> fault_free w')) \<and>
        (fault_free w \<longrightarrow> fst (f w) = 0))"

lemma emits_at_weaken: "emits f d \<Longrightarrow> emits_at p f d"
  by (simp add: emits_def emits_at_def)

lemma emits_at_cong:
  assumes "\<And>w. writer_wf w \<Longrightarrow> length (stream w) = p \<Longrightarrow> f w = g w" and "emits_at p g d"
  shows "emits_at p f d"
  using assms unfolding emits_at_def by auto

lemma emits_at_extends:
  "emits_at p f d \<Longrightarrow> writer_wf w \<Longrightarrow> length (stream w) = p \<Longrightarrow> f w = (0, w') \<Longrightarrow>
   extends_by w d w' \<and> (fault_free w \<longrightarrow> fault_free w')"
  by (simp add: emits_at_def)

lemma emits_at_returns:
  assumes "emits_at p f d" and "writer_wf w" and "length (stream w) = p" and "fault_free w"
  shows "\<exists>w'. f w = (0, w') \<and> extends_by w d w' \<and> fault_free w'"
  using assms unfolding emits_at_def by (metis prod.collapse)

lemma extends_by_length: "extends_by w d w' \<Longrightarrow> length (stream w') = length (stream w) + length d"
  by (simp add: extends_by_def)

lemma emits_at_then:
  assumes "emits_at p f d" and "emits_at (p + length d) g e"
  shows "emits_at p (then_ok f g) (d @ e)"
  unfolding emits_at_def
proof (intro allI impI conjI)
  fix w w' assume w: "writer_wf w" "length (stream w) = p" and "then_ok f g w = (0, w')"
  then obtain w1 where w1: "f w = (0, w1)" "g w1 = (0, w')" by (auto simp: then_ok_zero_iff)
  have e1: "extends_by w d w1 \<and> (fault_free w \<longrightarrow> fault_free w1)"
    using assms(1) w w1(1) by (rule emits_at_extends)
  then have "writer_wf w1" "length (stream w1) = p + length d"
    using w by (auto simp: extends_by_wf extends_by_length)
  then have "extends_by w1 e w' \<and> (fault_free w1 \<longrightarrow> fault_free w')"
    using emits_at_extends[OF assms(2) _ _ w1(2)] by blast
  with e1 show "extends_by w (d @ e) w'" "fault_free w \<Longrightarrow> fault_free w'"
    by (auto intro: extends_by_trans)
next
  fix w assume w: "writer_wf w" "length (stream w) = p" "fault_free w"
  from emits_at_returns[OF assms(1) w]
  obtain w1 where w1: "f w = (0, w1)" "extends_by w d w1" "fault_free w1" by blast
  then have "writer_wf w1" "length (stream w1) = p + length d"
    using w by (auto simp: extends_by_wf extends_by_length)
  with assms(2) w1 show "fst (then_ok f g w) = 0" by (simp add: then_ok_eq emits_at_def)
qed

lemma then_ok_assoc: "then_ok f (then_ok g h) = then_ok (then_ok f g) h"
  by (auto simp: then_ok_def fun_eq_iff split: prod.splits)

section \<open>The items of a compressed file body\<close>

text \<open>A frame with the chunk it compresses, a padding frame, a Start-of-Part frame.\<close>

datatype item = Frame bytes bytes | Pad nat | Sop nat

fun item_bytes :: "item \<Rightarrow> bytes" where
  "item_bytes (Frame chunk frame) = frame"
| "item_bytes (Pad n) = padding_frame n"
| "item_bytes (Sop off) = sop_frame (of_nat off)"

definition items_bytes :: "item list \<Rightarrow> bytes" where
  "items_bytes its = concat (map item_bytes its)"

fun item_payload :: "item \<Rightarrow> bytes" where
  "item_payload (Frame chunk frame) = chunk"
| "item_payload it = []"

definition payload :: "item list \<Rightarrow> bytes" where
  "payload its = concat (map item_payload its)"

text \<open>What is appended for one chunk when \<open>r\<close> bytes are left before the boundary and \<open>off\<close> bytes of
  the file came before.\<close>

definition frame_items :: "nat \<Rightarrow> nat \<Rightarrow> bytes \<Rightarrow> bytes \<Rightarrow> item list" where
  "frame_items r off chunk frame =
     (let eof = length chunk < ZSTD_CHUNK_SIZE;
          need = length frame + (if eof then 16 else 0)
      in if r = need \<and> \<not> eof then [Frame chunk frame, Sop (off + length chunk)]
         else if r = need \<or> r \<ge> need + 8 then [Frame chunk frame]
         else [Pad (r - 8), Sop off, Frame chunk frame])"

function chunks :: "bytes \<Rightarrow> bytes list" where
  "chunks d = (if d = [] then []
               else take ZSTD_CHUNK_SIZE d # chunks (drop ZSTD_CHUNK_SIZE d))"
  by pat_completeness auto
termination
  by (relation "measure length") (auto simp: ZSTD_CHUNK_SIZE_def)

declare chunks.simps [simp del]

fun body_items :: "(bytes \<Rightarrow> bytes option) \<Rightarrow> nat \<Rightarrow> nat \<Rightarrow> bytes list \<Rightarrow> item list option" where
  "body_items zc p off [] = Some []"
| "body_items zc p off (c # cs) =
     (case zc c of
        None \<Rightarrow> None
      | Some frame \<Rightarrow>
          let its = frame_items (room p) off c frame
          in map_option (append its)
               (body_items zc (p + length (items_bytes its)) (off + length c) cs))"

text \<open>Every Start-of-Part frame carries the number of file bytes before it.\<close>

fun sops_ok :: "nat \<Rightarrow> item list \<Rightarrow> bool" where
  "sops_ok off [] = True"
| "sops_ok off (it # its) =
     ((case it of Sop k \<Rightarrow> k = off | _ \<Rightarrow> True) \<and> sops_ok (off + length (item_payload it)) its)"

lemma items_bytes_simps [simp]:
  "items_bytes [] = []" "items_bytes (it # its) = item_bytes it @ items_bytes its"
  "items_bytes (its @ jts) = items_bytes its @ items_bytes jts"
  by (simp_all add: items_bytes_def)

lemma payload_simps [simp]:
  "payload [] = []" "payload (it # its) = item_payload it @ payload its"
  "payload (its @ jts) = payload its @ payload jts"
  by (simp_all add: payload_def)

lemma sops_ok_append [simp]:
  "sops_ok off (its @ jts) \<longleftrightarrow> sops_ok off its \<and> sops_ok (off + length (payload its)) jts"
  by (induction its arbitrary: off) (auto simp: add.assoc)

lemma frame_items_payload [simp]: "payload (frame_items r off c f) = c"
  by (simp add: frame_items_def Let_def)

lemma frame_items_sops [simp]: "sops_ok off (frame_items r off c f)"
  by (simp add: frame_items_def Let_def)

lemma concat_chunks [simp]: "concat (chunks d) = d"
  by (induction d rule: chunks.induct) (simp add: chunks.simps[of d for d])

lemma chunks_Nil [simp]: "chunks [] = []"
  by (simp add: chunks.simps)

lemma chunks_bounds: "c \<in> set (chunks d) \<Longrightarrow> 0 < length c \<and> length c \<le> ZSTD_CHUNK_SIZE"
proof (induction d rule: chunks.induct)
  case (1 d)
  then show ?case by (cases "d = []") (auto simp: chunks.simps[of d] ZSTD_CHUNK_SIZE_def)
qed

lemma length_chunks: "length (chunks d) \<le> length d div ZSTD_CHUNK_SIZE + 1"
proof (induction d rule: chunks.induct)
  case (1 d)
  show ?case
  proof (cases "length d \<le> ZSTD_CHUNK_SIZE")
    case True
    then show ?thesis by (simp add: chunks.simps[of d])
  next
    case False
    then have "length d div ZSTD_CHUNK_SIZE = (length d - ZSTD_CHUNK_SIZE) div ZSTD_CHUNK_SIZE + 1"
      by (simp add: le_div_geq ZSTD_CHUNK_SIZE_def)
    with 1 False show ?thesis by (simp add: chunks.simps[of d])
  qed
qed

lemma body_items_payload: "body_items zc p off cs = Some its \<Longrightarrow> payload its = concat cs"
  by (induction zc p off cs arbitrary: its rule: body_items.induct)
     (auto simp: Let_def split: option.splits)

lemma body_items_sops: "body_items zc p off cs = Some its \<Longrightarrow> sops_ok off its"
  by (induction zc p off cs arbitrary: its rule: body_items.induct)
     (auto simp: Let_def split: option.splits)

lemma Frame_in_frame_items [simp]:
  "Frame c f \<in> set (frame_items r off c' f') \<longleftrightarrow> c = c' \<and> f = f'"
  by (auto simp: frame_items_def Let_def)

lemma body_items_frames:
  "body_items zc p off cs = Some its \<Longrightarrow> Frame c f \<in> set its \<Longrightarrow> zc c = Some f \<and> c \<in> set cs"
proof (induction cs arbitrary: p off its)
  case Nil
  then show ?case by simp
next
  case (Cons d ds)
  then show ?case by (fastforce simp: Let_def split: option.splits)
qed

lemma body_items_total:
  "(\<exists>its. body_items zc p off cs = Some its) \<longleftrightarrow> (\<forall>c \<in> set cs. zc c \<noteq> None)"
  by (induction zc p off cs rule: body_items.induct) (auto simp: Let_def split: option.splits)

section \<open>Alignment of the body\<close>

text \<open>Positions inside an entry at which a skippable frame still fits before the boundary.\<close>

definition mid_file :: "bytes \<Rightarrow> bool" where
  "mid_file s \<longleftrightarrow> aligned s \<and> length s mod PART \<noteq> 0 \<and> 8 \<le> room (length s)"

text \<open>Positions at which an entry may start: a minimal padding header fits before the boundary.\<close>

definition entry_start :: "bytes \<Rightarrow> bool" where
  "entry_start s \<longleftrightarrow> aligned s \<and> 44 \<le> room (length s)"

lemma aligned_inside:
  assumes "aligned s" and "length s mod PART \<noteq> 0" and "length d < room (length s)"
  shows "aligned (s @ d) \<and> length (s @ d) mod PART \<noteq> 0
         \<and> room (length (s @ d)) = room (length s) - length d"
proof (intro conjI)
  show "aligned (s @ d)" using assms by (intro aligned_append) auto
  show "length (s @ d) mod PART \<noteq> 0"
    using assms mod_add_room[of "length d" "length s"] by (cases "d = []") auto
  show "room (length (s @ d)) = room (length s) - length d"
    using assms(3) by (simp add: room_add)
qed

lemma aligned_fill:
  assumes "aligned s" and "length s mod PART \<noteq> 0" and "length d = room (length s)"
  shows "aligned (s @ d) \<and> length (s @ d) mod PART = 0"
  using assms aligned_append[of s d] room_add_full[of "length s"] by simp

lemma aligned_at_boundary:
  assumes "aligned s" and "length s mod PART = 0" and "entry_point d"
    and "0 < length d" and "length d < PART"
  shows "aligned (s @ d) \<and> length (s @ d) mod PART \<noteq> 0
         \<and> room (length (s @ d)) = PART - length d"
proof -
  have r: "room (length s) = PART" using assms(2) by (rule room_boundary)
  then show ?thesis
    using assms aligned_append[of s d] mod_add_room[of "length d" "length s"]
      room_add[of "length d" "length s"] by auto
qed

lemma frame_items_fits:
  assumes "length c < ZSTD_CHUNK_SIZE \<and> (r = length f + 16 \<or> length f + 24 \<le> r)
           \<or> \<not> length c < ZSTD_CHUNK_SIZE \<and> length f + 8 \<le> r"
  shows "frame_items r off c f = [Frame c f]"
  using assms by (cases "length c < ZSTD_CHUNK_SIZE") (auto simp: frame_items_def)

lemma frame_items_pad:
  assumes "length c < ZSTD_CHUNK_SIZE \<and> r \<noteq> length f + 16 \<and> r < length f + 24
           \<or> \<not> length c < ZSTD_CHUNK_SIZE \<and> r \<noteq> length f \<and> r < length f + 8"
  shows "frame_items r off c f = [Pad (r - 8), Sop off, Frame c f]"
  using assms by (cases "length c < ZSTD_CHUNK_SIZE") (auto simp: frame_items_def)

lemma frame_items_mid:
  assumes "mid_file s" and "length f + 48 \<le> PART"
  shows "mid_file (s @ items_bytes (frame_items (room (length s)) off c f))"
proof -
  let ?r = "room (length s)" and ?eof = "length c < ZSTD_CHUNK_SIZE"
  have s: "aligned s" "length s mod PART \<noteq> 0" "8 \<le> ?r" using assms(1) by (auto simp: mid_file_def)
  have sop: "mid_file (t @ sop_frame k @ g)"
    if "aligned t" "length t mod PART = 0" "length g + 48 \<le> PART" for t k g
    using aligned_at_boundary[of t "sop_frame k @ g"] that by (simp add: mid_file_def)
  consider (exact) "?r = length f" "\<not> ?eof"
    | (fits) "?eof \<and> (?r = length f + 16 \<or> length f + 24 \<le> ?r) \<or> \<not> ?eof \<and> length f + 8 \<le> ?r"
    | (pad) "?eof \<and> ?r \<noteq> length f + 16 \<and> ?r < length f + 24
             \<or> \<not> ?eof \<and> ?r \<noteq> length f \<and> ?r < length f + 8" by linarith
  then show ?thesis
  proof cases
    case exact
    with s have "aligned (s @ f) \<and> length (s @ f) mod PART = 0" by (intro aligned_fill) auto
    then have "mid_file ((s @ f) @ sop_frame (of_nat (off + length c)) @ [])"
      by (intro sop) auto
    with exact show ?thesis by (simp add: frame_items_def)
  next
    case fits
    then have "length f + 8 \<le> ?r" by linarith
    with aligned_inside[OF s(1,2), of f] have "mid_file (s @ f)"
      unfolding mid_file_def by linarith
    with frame_items_fits[OF fits] show ?thesis by simp
  next
    case pad
    have "aligned (s @ padding_frame (?r - 8)) \<and> length (s @ padding_frame (?r - 8)) mod PART = 0"
      using s by (intro aligned_fill) auto
    then have "mid_file ((s @ padding_frame (?r - 8)) @ sop_frame (of_nat off) @ f)"
      using assms(2) by (intro sop) auto
    with frame_items_pad[OF pad] show ?thesis by simp
  qed
qed

lemma length_frame_items:
  "length (items_bytes (frame_items (room p) off c f)) \<le> PART + 32 + length f"
proof -
  have "room p - 8 \<le> PART" using room_bounds(2)[of p] by linarith
  then show ?thesis by (auto simp: frame_items_def Let_def)
qed

lemma body_items_mid:
  assumes "mid_file s" and "body_items zc (length s) off cs = Some its"
    and "\<And>c f. zc c = Some f \<Longrightarrow> length f + 48 \<le> PART"
  shows "mid_file (s @ items_bytes its)"
  using assms(1,2)
proof (induction cs arbitrary: s off its)
  case Nil
  then show ?case by simp
next
  case (Cons c cs)
  from Cons.prems(2) obtain f jts where f: "zc c = Some f"
    and jts: "body_items zc (length s + length (items_bytes (frame_items (room (length s)) off c f)))
      (off + length c) cs = Some jts"
    and its: "its = frame_items (room (length s)) off c f @ jts"
    by (auto simp: Let_def split: option.splits)
  let ?t = "s @ items_bytes (frame_items (room (length s)) off c f)"
  have "mid_file ?t" using Cons.prems(1) assms(3)[OF f] by (rule frame_items_mid)
  from Cons.IH[OF this, of "off + length c" jts] jts its show ?case by simp
qed

section \<open>The loop of \<open>burst_writer_add_file\<close>\<close>

lemma padding_then_sop_emits:
  assumes "8 \<le> r" and "r \<le> PART"
  shows "emits (then_ok (alignment_write_padding_frame (of_nat (r - 8)))
           (alignment_write_start_of_part_frame off)) (padding_frame (r - 8) @ sop_frame off)"
  using assms
  by (intro emits_then alignment_write_padding_frame_emits
      alignment_write_start_of_part_frame_emits) auto

lemma write_frame_emits:
  assumes p: "p < 2 ^ 62" and r: "8 \<le> room p" and f: "length f + 48 \<le> PART"
  shows "emits_at p (write_frame f (length c) (of_nat (off + length c)) (length c < ZSTD_CHUNK_SIZE))
           (items_bytes (frame_items (room p) off c f))"
proof -
  let ?eof = "length c < ZSTD_CHUNK_SIZE"
  define pos :: u64 where "pos = of_nat p"
  define d where "d = alignment_decide pos (of_nat (length f)) ?eof"
  have pos: "unat pos = p" using p by (simp add: pos_def unat_of_nat)
  have uf: "unat (of_nat (length f) :: size_t) = length f" using f by (simp add: unat_of_nat)
  have bounds: "unat pos < 2 ^ 63" "unat (of_nat (length f) :: size_t) < 2 ^ 62"
    using p f pos uf by simp_all
  note act = alignment_decide_cases[OF bounds, of ?eof, folded d_def, unfolded pos uf]
  have sop: "(of_nat (off + length c) :: u64) - of_nat (length c) = of_nat off" by simp
  let ?g = "then_ok
           (case ad_action d of
              ALIGNMENT_PAD_THEN_FRAME \<Rightarrow> alignment_write_padding_frame (ad_padding_size d)
            | ALIGNMENT_PAD_THEN_METADATA \<Rightarrow>
                then_ok (alignment_write_padding_frame (ad_padding_size d))
                  (alignment_write_start_of_part_frame (of_nat off))
            | _ \<Rightarrow> ret_ok)
           (then_ok (burst_writer_write f)
              (if ad_action d = ALIGNMENT_WRITE_FRAME_THEN_METADATA
               then alignment_write_start_of_part_frame (of_nat (off + length c)) else ret_ok))"
  note wr = emits_then[OF emits_write]
  have "emits ?g (items_bytes (frame_items (room p) off c f))"
  proof -
    consider (exact) "room p = length f" "\<not> ?eof"
      | (fits) "?eof \<and> (room p = length f + 16 \<or> length f + 24 \<le> room p)
                \<or> \<not> ?eof \<and> length f + 8 \<le> room p"
      | (pad) "?eof \<and> room p \<noteq> length f + 16 \<and> room p < length f + 24
               \<or> \<not> ?eof \<and> room p \<noteq> length f \<and> room p < length f + 8" by linarith
    then show ?thesis
    proof cases
      case exact
      then have "ad_action d = ALIGNMENT_WRITE_FRAME_THEN_METADATA" by (simp add: act(1))
      with exact emits_then[OF emits_ret wr[OF alignment_write_start_of_part_frame_emits]]
      show ?thesis by (simp add: frame_items_def)
    next
      case fits
      then have "ad_action d = ALIGNMENT_WRITE_FRAME" by (auto simp: act(1))
      with emits_then[OF emits_ret wr[OF emits_ret]] frame_items_fits[OF fits] show ?thesis by simp
    next
      case pad
      then have a: "ad_action d = ALIGNMENT_PAD_THEN_METADATA" by (auto simp: act(1))
      have "ad_padding_size d = of_nat (room p - 8)" using act(2)[OF r a] .
      with emits_then[OF padding_then_sop_emits[OF r room_bounds(2)] wr[OF emits_ret]]
        frame_items_pad[OF pad] a
      show ?thesis by (simp del: of_nat_diff)
    qed
  qed
  then have "emits_at p ?g (items_bytes (frame_items (room p) off c f))" by (rule emits_at_weaken)
  moreover have "write_frame f (length c) (of_nat (off + length c)) ?eof w = ?g w"
    if "writer_wf w" "length (stream w) = p" for w
    using that by (simp only: write_frame_def Let_def sop write_position_eq d_def pos_def)
  ultimately show ?thesis using emits_at_cong by blast
qed

text \<open>What the loop reads.\<close>

definition readable :: "in_file \<Rightarrow> bytes" where
  "readable f = take (fread_avail f) (in_data f)"

definition read_fails :: "in_file \<Rightarrow> bool" where
  "read_fails f = (case in_fail_after f of None \<Rightarrow> False | Some k \<Rightarrow> k \<le> length (in_data f))"

lemma fread_chunk: "fst (fread n f) = take n (readable f)"
  by (auto simp: fread_def readable_def Let_def fread_avail_def min_def split: option.splits)

lemma fread_rest:
  "readable (snd (fread n f)) = drop n (readable f)"
  "read_fails (snd (fread n f)) = read_fails f"
  by (auto simp: fread_def readable_def read_fails_def Let_def fread_avail_def min_def drop_take
      split: option.splits)

lemma fread_flags:
  assumes "0 < n"
  shows "in_eof (snd (fread n f)) \<longleftrightarrow> in_eof f \<or> length (readable f) < n \<and> \<not> read_fails f"
    and "in_error (snd (fread n f)) \<longleftrightarrow> in_error f \<or> length (readable f) < n \<and> read_fails f"
  using assms
  by (auto simp: fread_def readable_def read_fails_def Let_def fread_avail_def min_def
      split: option.splits if_splits)

text \<open>The hypotheses on Zstandard: \<open>ZSTD_compress\<close> never writes more than the capacity it is given,
  and the bound for a chunk leaves room for the metadata of a part (it is about 128.5 KiB).\<close>

definition frames_fit :: "writer_env \<Rightarrow> bool" where
  "frames_fit env \<longleftrightarrow>
     (\<forall>cap chunk level frame. env_compress env cap chunk level = Some frame \<longrightarrow> length frame \<le> cap) \<and>
     env_compress_bound env ZSTD_CHUNK_SIZE + 48 \<le> PART"

abbreviation frame_of :: "writer_env \<Rightarrow> int \<Rightarrow> bytes \<Rightarrow> bytes option" where
  "frame_of env level chunk \<equiv> compress_chunk env (env_compress_bound env ZSTD_CHUNK_SIZE) chunk level"

lemma frames_fitD:
  assumes "frames_fit env" and "frame_of env level c = Some f"
  shows "length f + 48 \<le> PART"
proof -
  have "length f \<le> env_compress_bound env ZSTD_CHUNK_SIZE"
    using assms by (auto simp: frames_fit_def compress_chunk_def)
  with assms(1) show ?thesis by (simp add: frames_fit_def)
qed

text \<open>Enough of the 64-bit range is left for \<open>n\<close> more chunks.\<close>

definition budget :: "nat \<Rightarrow> nat \<Rightarrow> bool" where
  "budget p n \<longleftrightarrow> p + n * (2 * PART) < 2 ^ 62"

lemma budget_step:
  assumes "budget p (Suc n)" and "d \<le> 2 * PART"
  shows "budget (p + d) n" and "p < 2 ^ 62"
  using assms by (auto simp: budget_def)

lemma ZSTD_CHUNK_SIZE_pos: "0 < ZSTD_CHUNK_SIZE"
  by (simp add: ZSTD_CHUNK_SIZE_def)

text \<open>The loop, relative to the pure description of the body.\<close>

definition loop_post ::
  "writer_env \<Rightarrow> in_file \<Rightarrow> u32 \<Rightarrow> nat \<Rightarrow> burst_writer
     \<Rightarrow> int \<times> in_file \<times> u32 \<times> u64 \<times> burst_writer \<Rightarrow> bool" where
  "loop_post env inp crc off w res \<longleftrightarrow>
     (let cs = chunks (readable inp);
          its = body_items (frame_of env (compression_level w)) (length (stream w)) off cs
      in case res of (rc, inp', crc', n', w') \<Rightarrow>
           (rc = 0 \<longrightarrow>
              (\<exists>js. its = Some js \<and> extends_by w (items_bytes js) w') \<and>
              crc' = foldl (env_crc32 env) crc cs \<and>
              n' = of_nat (off + length (readable inp)) \<and>
              in_error inp' = (in_error inp \<or> read_fails inp)) \<and>
           (fault_free w \<longrightarrow> its \<noteq> None \<longrightarrow> rc = 0 \<and> fault_free w'))"

lemma compress_loop_refines:
  assumes "frames_fit env" and "writer_wf w" and "mid_file (stream w)"
    and "budget (length (stream w)) (length (chunks (readable inp)))"
    and "in_eof inp \<longrightarrow> readable inp = []"
  shows "loop_post env inp crc off w (compress_loop env inp crc (of_nat off) w)"
  using assms(2-)
proof (induction "length (readable inp)" arbitrary: inp crc off w rule: less_induct)
  case less
  let ?c = "fst (fread ZSTD_CHUNK_SIZE inp)" and ?inp1 = "snd (fread ZSTD_CHUNK_SIZE inp)"
  have c: "?c = take ZSTD_CHUNK_SIZE (readable inp)" by (rule fread_chunk)
  note rest = fread_rest[of ZSTD_CHUNK_SIZE inp] and flags = fread_flags[OF ZSTD_CHUNK_SIZE_pos, of inp]
  show ?case
  proof (cases "readable inp = []")
    case True
    then show ?thesis
      using less.prems flags c ZSTD_CHUNK_SIZE_pos
      by (subst compress_loop.simps)
         (simp add: loop_post_def extends_by_Nil)
  next
    case False
    then have ne: "?c \<noteq> []" using c ZSTD_CHUNK_SIZE_pos by simp
    have cs: "chunks (readable inp) = ?c # chunks (readable ?inp1)"
      using False by (simp add: chunks.simps[of "readable inp"] c rest)
    have eof: "(length ?c < ZSTD_CHUNK_SIZE \<or> in_eof ?inp1) = (length ?c < ZSTD_CHUNK_SIZE)"
      using less.prems(4) False flags c by auto
    have eof1: "in_eof ?inp1 \<longrightarrow> readable ?inp1 = []"
      using less.prems(4) False flags rest by auto
    show ?thesis
    proof (cases "frame_of env (compression_level w) ?c")
      case None
      then show ?thesis
        using ne cs by (subst compress_loop.simps) (simp add: loop_post_def Let_def)
    next
      case (Some f)
      note fit = frames_fitD[OF assms(1) Some]
      let ?r = "room (length (stream w))"
      let ?d = "items_bytes (frame_items ?r off ?c f)"
      let ?step = "write_frame f (length ?c) (of_nat (off + length ?c)) (length ?c < ZSTD_CHUNK_SIZE)"
      have "length ?d \<le> 2 * PART" using length_frame_items[of "length (stream w)" off ?c f] fit by linarith
      moreover have "budget (length (stream w)) (Suc (length (chunks (readable ?inp1))))"
        using less.prems(3) cs by simp
      ultimately have bud: "budget (length (stream w) + length ?d) (length (chunks (readable ?inp1)))"
        "length (stream w) < 2 ^ 62" using budget_step by blast+
      have em: "emits_at (length (stream w)) ?step ?d"
        using less.prems(2) fit bud(2) by (intro write_frame_emits) (auto simp: mid_file_def)
      obtain rc w1 where st: "?step w = (rc, w1)" by fastforce
      have loop: "compress_loop env inp crc (of_nat off) w =
        (if rc \<noteq> 0 then (-1, ?inp1, env_crc32 env crc ?c, of_nat (off + length ?c), w1)
         else compress_loop env ?inp1 (env_crc32 env crc ?c) (of_nat (off + length ?c)) w1)"
        using ne Some st eof by (subst compress_loop.simps) (simp add: Let_def)
      show ?thesis
      proof (cases "rc = 0")
        case False
        then have "\<not> fault_free w" using em less.prems(1) st by (auto simp: emits_at_def)
        with False loop show ?thesis by (simp add: loop_post_def Let_def)
      next
        case True
        from emits_at_extends[OF em less.prems(1) refl st[unfolded True]]
        have e: "extends_by w ?d w1" and ff: "fault_free w \<longrightarrow> fault_free w1" by auto
        have w1: "writer_wf w1" "stream w1 = stream w @ ?d" "compression_level w1 = compression_level w"
          using e by (auto simp: extends_by_def keep_def)
        have IH: "loop_post env ?inp1 (env_crc32 env crc ?c) (off + length ?c) w1
          (compress_loop env ?inp1 (env_crc32 env crc ?c) (of_nat (off + length ?c)) w1)"
          using False w1 less.prems(2) fit bud(1) eof1 rest ZSTD_CHUNK_SIZE_pos
          by (intro less.hyps) (auto intro: frame_items_mid)
        have n: "off + length ?c + length (readable ?inp1) = off + length (readable inp)"
          unfolding c rest by simp
        have its: "body_items (frame_of env (compression_level w)) (length (stream w)) off
            (chunks (readable inp)) =
          map_option (append (frame_items ?r off ?c f))
            (body_items (frame_of env (compression_level w1)) (length (stream w1)) (off + length ?c)
               (chunks (readable ?inp1)))"
          using Some w1 unfolding cs by (simp add: Let_def)
        have ext: "extends_by w1 x w2 \<Longrightarrow> extends_by w (?d @ x) w2" for x w2
          by (rule extends_by_trans[OF e])
        have err: "(in_error ?inp1 \<or> read_fails ?inp1) = (in_error inp \<or> read_fails inp)"
          using flags rest by auto
        have fold: "foldl (env_crc32 env) crc (chunks (readable inp)) =
          foldl (env_crc32 env) (env_crc32 env crc ?c) (chunks (readable ?inp1))"
          unfolding cs by simp
        show ?thesis
          using IH ext ff loop True unfolding loop_post_def its err fold n Let_def by auto
      qed
    qed
  qed
qed

end
