(* ===== verification/Central_Dir_Parser.thy ===== *)
theory Central_Dir_Parser
  imports Zip_Structures
begin

text \<open>
  The central directory parser of the downloader (\<open>include/central_dir_parser.h\<close>,
  \<open>src/downloader/central_dir_parser.c\<close>, without the part map). A buffer is a list of bytes;
  every read of the buffer can fail, and is then \<open>Fault\<close>, so that the absence of out-of-bounds
  reads is a theorem. Results of allocations come from the argument \<open>al\<close>, one per call
  (the empty list: every allocation succeeds). Sizes and offsets are 64-bit words and wrap around;
  positions of pointers are \<open>nat\<close>.
\<close>

section \<open>Types\<close>

datatype cd_error =
    ERR_INVALID_BUFFER
  | ERR_NO_EOCD
  | ERR_TRUNCATED
  | ERR_INVALID_SIGNATURE
  | ERR_MEMORY

record file_metadata =
  fm_filename :: bytes
  fm_local_header_offset :: u64
  fm_compressed_size :: u64
  fm_uncompressed_size :: u64
  fm_crc32 :: u32
  fm_compression_method :: u16
  fm_part_index :: u32
  fm_unix_mode :: u32
  fm_uid :: u32
  fm_gid :: u32
  fm_has_unix_mode :: bool
  fm_has_unix_extra :: bool
  fm_is_symlink :: bool
  fm_uses_zip64_descriptor :: bool

section \<open>Structs in a buffer\<close>

text \<open>The value of a packed struct at an offset; \<open>None\<close> when it does not lie in the buffer.\<close>

abbreviation field :: "bytes \<Rightarrow> nat \<Rightarrow> nat \<Rightarrow> 'a::len word" where
  "field b off n \<equiv> le_word (take n (drop off b))"

definition central_header_of_bytes :: "bytes \<Rightarrow> zip_central_header" where
  "central_header_of_bytes b =
     \<lparr>ch_signature = field b 0 4, ch_version_made_by = field b 4 2, ch_version_needed = field b 6 2,
      ch_flags = field b 8 2, ch_compression_method = field b 10 2, ch_last_mod_time = field b 12 2,
      ch_last_mod_date = field b 14 2, ch_crc32 = field b 16 4, ch_compressed_size = field b 20 4,
      ch_uncompressed_size = field b 24 4, ch_filename_length = field b 28 2,
      ch_extra_field_length = field b 30 2, ch_file_comment_length = field b 32 2,
      ch_disk_number_start = field b 34 2, ch_internal_file_attributes = field b 36 2,
      ch_external_file_attributes = field b 38 4, ch_local_header_offset = field b 42 4\<rparr>"

definition end_central_dir_of_bytes :: "bytes \<Rightarrow> zip_end_central_dir" where
  "end_central_dir_of_bytes b =
     \<lparr>ec_signature = field b 0 4, ec_disk_number = field b 4 2, ec_disk_with_cd = field b 6 2,
      ec_num_entries_this_disk = field b 8 2, ec_num_entries_total = field b 10 2,
      ec_central_dir_size = field b 12 4, ec_central_dir_offset = field b 16 4,
      ec_comment_length = field b 20 2\<rparr>"

definition zip64_end_central_dir_of_bytes :: "bytes \<Rightarrow> zip64_end_central_dir" where
  "zip64_end_central_dir_of_bytes b =
     \<lparr>e64_signature = field b 0 4, e64_eocd64_size = field b 4 8, e64_version_made_by = field b 12 2,
      e64_version_needed = field b 14 2, e64_disk_number = field b 16 4, e64_disk_with_cd = field b 20 4,
      e64_num_entries_this_disk = field b 24 8, e64_num_entries_total = field b 32 8,
      e64_central_dir_size = field b 40 8, e64_central_dir_offset = field b 48 8\<rparr>"

definition zip64_locator_of_bytes :: "bytes \<Rightarrow> zip64_end_central_dir_locator" where
  "zip64_locator_of_bytes b =
     \<lparr>loc_signature = field b 0 4, loc_disk_with_eocd64 = field b 4 4, loc_eocd64_offset = field b 8 8,
      loc_total_disks = field b 16 4\<rparr>"

definition read_struct :: "(bytes \<Rightarrow> 'a) \<Rightarrow> nat \<Rightarrow> bytes \<Rightarrow> nat \<Rightarrow> ('e, 'a) outcome" where
  "read_struct dec n buf off =
     bind_outcome (of_read (read_bytes buf off n)) (\<lambda>b. Ok (dec b))"

definition read_int :: "nat \<Rightarrow> bytes \<Rightarrow> nat \<Rightarrow> ('e, 'a::len word) outcome" where
  "read_int n buf off = of_read (read_le n buf off)"

section \<open>Extra fields\<close>

text \<open>The outputs \<open>uid\<close> and \<open>gid\<close> are passed through: \<open>uid\<close> is overwritten even when the field turns
  out to be too short for the group.\<close>

definition parse_unix_body :: "bytes \<Rightarrow> nat \<Rightarrow> u32 \<Rightarrow> u32 \<Rightarrow> (cd_error, bool \<times> u32 \<times> u32) outcome" where
  "parse_unix_body ptr data_size uid gid =
     (if data_size > length ptr \<or> data_size < 3 then Ok (False, uid, gid)
      else
        bind_outcome (read_int 1 ptr 0) (\<lambda>version :: u8.
          if version \<noteq> 1 then Ok (False, uid, gid)
          else
            bind_outcome (read_int 1 ptr 1) (\<lambda>uid_size :: u8.
              if 2 + unat uid_size + 1 > length ptr then Ok (False, uid, gid)
              else
                bind_outcome (of_read (read_bytes ptr 2 (min (unat uid_size) 4))) (\<lambda>ub.
                bind_outcome (read_int 1 ptr (2 + unat uid_size)) (\<lambda>gid_size :: u8.
                  if 2 + unat uid_size + 1 + unat gid_size > length ptr
                  then Ok (False, le_word ub, gid)
                  else
                    bind_outcome (of_read (read_bytes ptr (3 + unat uid_size) (min (unat gid_size) 4)))
                      (\<lambda>gb. Ok (True, le_word ub, le_word gb)))))))"

function parse_unix_extra_field :: "bytes \<Rightarrow> u32 \<Rightarrow> u32 \<Rightarrow> (cd_error, bool \<times> u32 \<times> u32) outcome" where
  "parse_unix_extra_field ptr uid gid =
     (if length ptr < 4 then Ok (False, uid, gid)
      else
        bind_outcome (read_int 2 ptr 0) (\<lambda>header_id :: u16.
        bind_outcome (read_int 2 ptr 2) (\<lambda>data_size :: u16.
          if header_id = ZIP_EXTRA_UNIX_7875_ID then parse_unix_body (drop 4 ptr) (unat data_size) uid gid
          else if unat data_size > length (drop 4 ptr) then Ok (False, uid, gid)
          else parse_unix_extra_field (drop (4 + unat data_size) ptr) uid gid)))"
  by pat_completeness auto
termination
  by (relation "measure (\<lambda>(ptr, uid, gid). length ptr)") auto

declare parse_unix_extra_field.simps [simp del]

text \<open>One 64-bit value of the ZIP64 field: read only when the 32-bit field is saturated.\<close>

definition zip64_value ::
  "bool \<Rightarrow> bytes \<Rightarrow> nat \<Rightarrow> u64 \<Rightarrow> (cd_error, (nat \<times> u64) option) outcome" where
  "zip64_value saturated body pos old =
     (if \<not> saturated then Ok (Some (pos, old))
      else if pos + 8 > length body then Ok None
      else bind_outcome (read_int 8 body pos) (\<lambda>v. Ok (Some (pos + 8, v))))"

text \<open>The outputs are the compressed size, the uncompressed size and the offset of the header.\<close>

type_synonym zip64_out = "u64 \<times> u64 \<times> u64"

definition parse_zip64_body ::
  "bytes \<Rightarrow> zip_central_header \<Rightarrow> zip64_out \<Rightarrow> (cd_error, bool \<times> zip64_out) outcome" where
  "parse_zip64_body body header out =
     (case out of (csize, usize, off) \<Rightarrow>
        bind_outcome (zip64_value (ch_uncompressed_size header = 0xFFFFFFFF) body 0 usize) (\<lambda>r1.
          case r1 of
            None \<Rightarrow> Ok (False, csize, usize, off)
          | Some (p1, usize1) \<Rightarrow>
              bind_outcome (zip64_value (ch_compressed_size header = 0xFFFFFFFF) body p1 csize) (\<lambda>r2.
                case r2 of
                  None \<Rightarrow> Ok (False, csize, usize1, off)
                | Some (p2, csize1) \<Rightarrow>
                    bind_outcome
                      (zip64_value (ch_local_header_offset header = 0xFFFFFFFF) body p2 off) (\<lambda>r3.
                        case r3 of
                          None \<Rightarrow> Ok (False, csize1, usize1, off)
                        | Some (p3, off1) \<Rightarrow> Ok (True, csize1, usize1, off1)))))"

function parse_zip64_extra_field ::
  "bytes \<Rightarrow> zip_central_header \<Rightarrow> zip64_out \<Rightarrow> (cd_error, bool \<times> zip64_out) outcome" where
  "parse_zip64_extra_field ptr header out =
     (if length ptr < 4 then Ok (False, out)
      else
        bind_outcome (read_int 2 ptr 0) (\<lambda>header_id :: u16.
        bind_outcome (read_int 2 ptr 2) (\<lambda>data_size :: u16.
          if header_id = ZIP_EXTRA_ZIP64_ID then
            (if unat data_size > length (drop 4 ptr) then Ok (False, out)
             else parse_zip64_body (take (unat data_size) (drop 4 ptr)) header out)
          else if unat data_size > length (drop 4 ptr) then Ok (False, out)
          else parse_zip64_extra_field (drop (4 + unat data_size) ptr) header out)))"
  by pat_completeness auto
termination
  by (relation "measure (\<lambda>(ptr, header, out). length ptr)") auto

declare parse_zip64_extra_field.simps [simp del]

section \<open>End of central directory\<close>

definition parse_zip64_eocd :: "bytes \<Rightarrow> size_t \<Rightarrow> (cd_error, u64 \<times> u64 \<times> u64) outcome" where
  "parse_zip64_eocd buffer eocd64_offset =
     (if eocd64_offset + 56 > of_nat (length buffer) then Error ERR_TRUNCATED
      else
        bind_outcome (read_struct zip64_end_central_dir_of_bytes 56 buffer (unat eocd64_offset)) (\<lambda>e.
          if e64_signature e \<noteq> ZIP_ZIP64_END_CENTRAL_DIR_SIG then Error ERR_INVALID_SIGNATURE
          else Ok (e64_central_dir_offset e, e64_num_entries_total e, e64_central_dir_size e)))"

text \<open>The backward search: \<open>Suc i\<close> positions \<open>i, i - 1, \<dots>, 0\<close> are left.\<close>

fun search_eocd :: "bytes \<Rightarrow> nat \<Rightarrow> (cd_error, nat) outcome" where
  "search_eocd buffer 0 = Error ERR_NO_EOCD"
| "search_eocd buffer (Suc i) =
     bind_outcome (read_int 4 buffer i) (\<lambda>sig.
       if sig = ZIP_END_CENTRAL_DIR_SIG then Ok i else search_eocd buffer i)"

definition find_eocd :: "bytes \<Rightarrow> (cd_error, nat \<times> bool \<times> nat) outcome" where
  "find_eocd buffer =
     (if length buffer < 22 then Error ERR_NO_EOCD
      else
        bind_outcome (search_eocd buffer (Suc (length buffer - 22))) (\<lambda>eocd_offset.
          if eocd_offset \<ge> 20 then
            bind_outcome (read_int 4 buffer (eocd_offset - 20)) (\<lambda>loc_sig.
              if loc_sig = ZIP_ZIP64_END_CENTRAL_DIR_LOCATOR_SIG
              then Ok (eocd_offset, True, eocd_offset - 20)
              else Ok (eocd_offset, False, 0))
          else Ok (eocd_offset, False, 0)))"

definition parse_eocd :: "bytes \<Rightarrow> nat \<Rightarrow> (cd_error, u64 \<times> u32 \<times> u32) outcome" where
  "parse_eocd buffer eocd_offset =
     (if eocd_offset + 22 > length buffer then Error ERR_TRUNCATED
      else
        bind_outcome (read_struct end_central_dir_of_bytes 22 buffer eocd_offset) (\<lambda>e.
          if ec_signature e \<noteq> ZIP_END_CENTRAL_DIR_SIG then Error ERR_INVALID_SIGNATURE
          else Ok (ucast (ec_central_dir_offset e), ucast (ec_num_entries_total e),
                   ec_central_dir_size e)))"

text \<open>The outputs of \<open>central_dir_parse_eocd_only\<close>. \<open>eo_num_entries\<close> is \<open>None\<close> where the C code stores
  a variable that was never assigned (archives without ZIP64 records).\<close>

record eocd_info =
  eo_central_dir_offset :: u64
  eo_central_dir_size :: u64
  eo_num_entries :: "u64 option"
  eo_is_zip64 :: bool
  eo_first_cdfh_offset_in_tail :: u32

definition parse_burst_comment :: "bytes \<Rightarrow> nat \<Rightarrow> (cd_error, u32) outcome" where
  "parse_burst_comment buffer eocd_offset =
     bind_outcome (read_struct end_central_dir_of_bytes 22 buffer eocd_offset) (\<lambda>e.
       if unat (ec_comment_length e) \<ge> BURST_EOCD_COMMENT_SIZE
          \<and> eocd_offset + 22 + BURST_EOCD_COMMENT_SIZE \<le> length buffer then
         bind_outcome (read_int 4 buffer (eocd_offset + 22)) (\<lambda>magic.
           if magic = BURST_EOCD_COMMENT_MAGIC then
             bind_outcome (read_int 1 buffer (eocd_offset + 22 + 4)) (\<lambda>version.
               if version = BURST_EOCD_COMMENT_VERSION then
                 bind_outcome (read_int 1 buffer (eocd_offset + 22 + 5)) (\<lambda>c5 :: u8.
                 bind_outcome (read_int 1 buffer (eocd_offset + 22 + 6)) (\<lambda>c6 :: u8.
                 bind_outcome (read_int 1 buffer (eocd_offset + 22 + 7)) (\<lambda>c7 :: u8.
                   Ok (ucast c5 OR push_bit 8 (ucast c6) OR push_bit 16 (ucast c7)))))
               else Ok 0)
           else Ok 0)
       else Ok 0)"

definition locate_central_dir ::
  "bytes \<Rightarrow> u64 \<Rightarrow> nat \<times> bool \<times> nat \<Rightarrow> (cd_error, u64 \<times> u64 option \<times> u64) outcome" where
  "locate_central_dir buffer archive_len found =
     (case found of (eocd_offset, is_zip64, locator_offset) \<Rightarrow>
        if is_zip64 then
          (if locator_offset + 20 > length buffer then Error ERR_TRUNCATED
           else
             bind_outcome (read_struct zip64_locator_of_bytes 20 buffer locator_offset) (\<lambda>locator.
               let buffer_offset = archive_len - of_nat (length buffer)
               in if loc_eocd64_offset locator < buffer_offset then Error ERR_TRUNCATED
                  else
                    bind_outcome (parse_zip64_eocd buffer (loc_eocd64_offset locator - buffer_offset))
                      (\<lambda>(cd_offset, num_entries, cd_size). Ok (cd_offset, Some num_entries, cd_size))))
        else
          bind_outcome (parse_eocd buffer eocd_offset)
            (\<lambda>(cd_offset, num_entries, cd_size). Ok (cd_offset, None, ucast cd_size)))"

definition central_dir_parse_eocd_only :: "bytes \<Rightarrow> u64 \<Rightarrow> bool \<Rightarrow> (cd_error, eocd_info) outcome" where
  "central_dir_parse_eocd_only buffer archive_len want_first =
     (if length buffer = 0 then Error ERR_INVALID_BUFFER
      else
        bind_outcome (find_eocd buffer) (\<lambda>found.
        bind_outcome (locate_central_dir buffer archive_len found) (\<lambda>(cd_offset, num_entries, cd_size).
          if cd_offset \<ge> archive_len then Error ERR_TRUNCATED
          else if cd_offset + cd_size > archive_len then Error ERR_TRUNCATED
          else
            bind_outcome (if want_first then parse_burst_comment buffer (fst found) else Ok 0) (\<lambda>first.
              Ok \<lparr>eo_central_dir_offset = cd_offset, eo_central_dir_size = cd_size,
                  eo_num_entries = num_entries, eo_is_zip64 = fst (snd found),
                  eo_first_cdfh_offset_in_tail = first\<rparr>))))"

section \<open>Central directory entries\<close>

definition S_IFMT :: u32 where "S_IFMT = 0xF000"
definition S_IFLNK :: u32 where "S_IFLNK = 0xA000"

text \<open>Everything that is stored for one entry, once its header and its variable part are in the
  buffer (\<open>name\<close> and \<open>extra\<close> are the bytes after the header). The name is stored with a NUL after it and only
  used as a string, so it ends at the first NUL.\<close>

definition entry_metadata ::
  "zip_central_header \<Rightarrow> bytes \<Rightarrow> bytes \<Rightarrow> u64 \<Rightarrow> (cd_error, file_metadata) outcome" where
  "entry_metadata header name extra part_len =
     (let unix = (ucast (drop_bit 8 (ch_version_made_by header)) AND 0xFF :: u8) = 3;
          mode = (if unix then drop_bit 16 (ch_external_file_attributes header) else 0);
          out0 = (ucast (ch_compressed_size header), ucast (ch_uncompressed_size header),
                  ucast (ch_local_header_offset header)) :: zip64_out;
          has_extra = ch_extra_field_length header > 0
      in bind_outcome (if has_extra then parse_unix_extra_field extra 0 0 else Ok (False, 0, 0))
           (\<lambda>(has_unix_extra, uid, gid).
         bind_outcome (if has_extra then parse_zip64_extra_field extra header out0 else Ok (False, out0))
           (\<lambda>(_, csize, usize, off).
         if part_len = 0 then Fault
         else
           Ok \<lparr>fm_filename = c_string name, fm_local_header_offset = off, fm_compressed_size = csize,
               fm_uncompressed_size = usize, fm_crc32 = ch_crc32 header,
               fm_compression_method = ch_compression_method header,
               fm_part_index = ucast (off div part_len), fm_unix_mode = mode, fm_uid = uid, fm_gid = gid,
               fm_has_unix_mode = unix, fm_has_unix_extra = has_unix_extra,
               fm_is_symlink = (unix \<and> mode AND S_IFMT = S_IFLNK),
               fm_uses_zip64_descriptor =
                 (has_extra \<and> (ch_compressed_size header = 0xFFFFFFFF
                                \<or> ch_uncompressed_size header = 0xFFFFFFFF))\<rparr>)))"

text \<open>The loop of \<open>parse_central_directory\<close>; the first argument is \<open>num_entries - i\<close>, \<open>acc\<close> the entries
  stored so far.\<close>

fun parse_entries ::
  "nat \<Rightarrow> bool list \<Rightarrow> bytes \<Rightarrow> nat \<Rightarrow> nat \<Rightarrow> u64 \<Rightarrow> file_metadata list
     \<Rightarrow> (cd_error, file_metadata list) outcome" where
  "parse_entries 0 al buffer ptr cd_end part_len acc = Ok acc"
| "parse_entries (Suc n) al buffer ptr cd_end part_len acc =
     (if ptr \<ge> cd_end then Ok acc
      else if ptr + 46 > cd_end then (if acc \<noteq> [] then Ok acc else Error ERR_TRUNCATED)
      else
        bind_outcome (read_struct central_header_of_bytes 46 buffer ptr) (\<lambda>header.
          if ch_signature header \<noteq> ZIP_CENTRAL_DIR_HEADER_SIG
          then (if acc \<noteq> [] then Ok acc else Error ERR_INVALID_SIGNATURE)
          else
            let name_len = unat (ch_filename_length header);
                extra_len = unat (ch_extra_field_length header);
                variable_len = name_len + extra_len + unat (ch_file_comment_length header)
            in if ptr + 46 + variable_len > cd_end then Error ERR_TRUNCATED
               else if \<not> fst (next_alloc al) then Error ERR_MEMORY
               else
                 bind_outcome (of_read (read_bytes buffer (ptr + 46) name_len)) (\<lambda>name.
                 bind_outcome (of_read (read_bytes buffer (ptr + 46 + name_len) extra_len)) (\<lambda>extra.
                 bind_outcome (entry_metadata header name extra part_len) (\<lambda>m.
                   parse_entries n (snd (next_alloc al)) buffer (ptr + 46 + variable_len) cd_end
                     part_len (acc @ [m]))))))"

definition parse_central_directory ::
  "bool list \<Rightarrow> bytes \<Rightarrow> u64 \<Rightarrow> u64 \<Rightarrow> u64 \<Rightarrow> u64 \<Rightarrow> u64 \<Rightarrow> (cd_error, file_metadata list) outcome" where
  "parse_central_directory al buffer cd_offset buffer_offset num_entries cd_size part_len =
     (if cd_offset < buffer_offset then Error ERR_TRUNCATED
      else
        let cd_start_in_buffer = cd_offset - buffer_offset
        in if cd_start_in_buffer + cd_size > of_nat (length buffer) then Error ERR_TRUNCATED
           else if \<not> fst (next_alloc al) then Error ERR_MEMORY
           else parse_entries (unat num_entries) (snd (next_alloc al)) buffer
                  (unat cd_start_in_buffer) (unat cd_start_in_buffer + unat cd_size) part_len [])"

section \<open>Structs round trip\<close>

lemma central_header_roundtrip [simp]: "central_header_of_bytes (central_header_bytes h) = h"
  by (simp add: central_header_of_bytes_def central_header_bytes_def)

lemma end_central_dir_roundtrip [simp]: "end_central_dir_of_bytes (end_central_dir_bytes e) = e"
  by (simp add: end_central_dir_of_bytes_def end_central_dir_bytes_def)

lemma zip64_end_central_dir_roundtrip [simp]:
  "zip64_end_central_dir_of_bytes (zip64_end_central_dir_bytes e) = e"
  by (simp add: zip64_end_central_dir_of_bytes_def zip64_end_central_dir_bytes_def)

lemma zip64_locator_roundtrip [simp]: "zip64_locator_of_bytes (zip64_locator_bytes l) = l"
  by (simp add: zip64_locator_of_bytes_def zip64_locator_bytes_def)

lemma read_struct_append:
  assumes "length b = n" and "dec b = x"
  shows "read_struct dec n (xs @ b @ ys) (length xs) = Ok x"
  using assms by (simp add: read_struct_def read_bytes_def)

lemma read_int_append:
  assumes "length b = n"
  shows "read_int n (xs @ b @ ys) (length xs) = Ok (le_word b)"
  using assms by (simp add: read_int_def read_le_def)

lemma read_bytes_append:
  assumes "length b = n"
  shows "read_bytes (xs @ b @ ys) (length xs) n = Some b"
  using assms by (simp add: read_bytes_def)

section \<open>Reads stay inside the buffer\<close>

lemma read_int_Fault_iff [simp]: "read_int n buf off = Fault \<longleftrightarrow> length buf < off + n"
  by (simp add: read_int_def read_le_None_iff)

lemma read_int_not_Error [simp]: "read_int n buf off \<noteq> Error e"
  by (cases "read_le n buf off :: 'b word option") (simp_all add: read_int_def)

lemma read_struct_Fault_iff [simp]: "read_struct dec n buf off = Fault \<longleftrightarrow> length buf < off + n"
  by (cases "off + n \<le> length buf") (auto simp: read_struct_def read_bytes_def)

lemma bind_outcome_Fault_iff:
  "bind_outcome r f = Fault \<longleftrightarrow> r = Fault \<or> (\<exists>x. r = Ok x \<and> f x = Fault)"
  by (cases r) auto

lemma parse_unix_body_safe: "parse_unix_body ptr n uid gid \<noteq> Fault"
  by (auto simp: parse_unix_body_def bind_outcome_Fault_iff split: if_splits)

lemma parse_unix_extra_field_safe: "parse_unix_extra_field ptr uid gid \<noteq> Fault"
proof (induction ptr uid gid rule: parse_unix_extra_field.induct)
  case (1 ptr uid gid)
  then show ?case
    by (subst parse_unix_extra_field.simps)
       (auto simp: bind_outcome_Fault_iff parse_unix_body_safe split: if_splits)
qed

lemma zip64_value_safe: "zip64_value b body pos old \<noteq> Fault"
  by (auto simp: zip64_value_def bind_outcome_Fault_iff)

lemma parse_zip64_body_safe: "parse_zip64_body body header out \<noteq> Fault"
  by (auto simp: parse_zip64_body_def bind_outcome_Fault_iff zip64_value_safe
      split: prod.splits option.splits)

lemma parse_zip64_extra_field_safe: "parse_zip64_extra_field ptr header out \<noteq> Fault"
proof (induction ptr header out rule: parse_zip64_extra_field.induct)
  case (1 ptr header out)
  then show ?case
    by (subst parse_zip64_extra_field.simps)
       (auto simp: bind_outcome_Fault_iff parse_zip64_body_safe split: if_splits)
qed

lemma entry_metadata_safe: "part_len \<noteq> 0 \<Longrightarrow> entry_metadata header name extra part_len \<noteq> Fault"
  by (auto simp: entry_metadata_def Let_def bind_outcome_Fault_iff parse_unix_extra_field_safe
      parse_zip64_extra_field_safe split: prod.splits if_splits)

lemma parse_entries_safe:
  "cd_end \<le> length buffer \<Longrightarrow> part_len \<noteq> 0 \<Longrightarrow>
   parse_entries n al buffer ptr cd_end part_len acc \<noteq> Fault"
  by (induction n al buffer ptr cd_end part_len acc rule: parse_entries.induct)
     (auto simp: bind_outcome_Fault_iff entry_metadata_safe Let_def split: if_splits)

lemma search_eocd_safe: "i + 3 \<le> length buffer \<Longrightarrow> search_eocd buffer i \<noteq> Fault"
  by (induction i) (auto simp: bind_outcome_Fault_iff split: if_splits)

lemma search_eocd_less: "search_eocd buffer i = Ok j \<Longrightarrow> j < i"
  by (induction i) (auto split: if_splits)

lemma find_eocd_Ok:
  assumes "find_eocd buffer = Ok (eocd_offset, z, loc)"
  shows "eocd_offset + 22 \<le> length buffer" and "z \<Longrightarrow> loc + 20 = eocd_offset"
  using assms search_eocd_less[of buffer "Suc (length buffer - 22)"]
  by (auto simp: find_eocd_def split: if_splits dest!: search_eocd_less)

lemma find_eocd_safe: "find_eocd buffer \<noteq> Fault"
  using search_eocd_safe[of "Suc (length buffer - 22)" buffer] search_eocd_less[of buffer]
  by (auto simp: find_eocd_def bind_outcome_Fault_iff split: if_splits dest!: search_eocd_less)

lemma parse_burst_comment_safe: "eocd_offset + 22 \<le> length buffer \<Longrightarrow> parse_burst_comment buffer eocd_offset \<noteq> Fault"
  by (auto simp: parse_burst_comment_def bind_outcome_Fault_iff BURST_EOCD_COMMENT_SIZE_def split: if_splits)

section \<open>Reading a concatenation\<close>

text \<open>Reading a field of a layout that is written as a concatenation.\<close>

named_theorems reads \<open>reading the fields of a concatenation\<close>

lemma read_int_skip [reads]:
  "length a \<le> k \<Longrightarrow> read_int n (a @ ys) k = read_int n ys (k - length a)"
  by (simp add: read_int_def read_le_skip)

lemma read_int_Cons [reads]: "0 < k \<Longrightarrow> read_int n (y # ys) k = read_int n ys (k - 1)"
  using read_int_skip[of "[y]" k n ys] by simp

lemma read_int_byte [reads]: "read_int (Suc 0) (y # ys) 0 = Ok (ucast y)"
  by (simp add: read_int_def read_le_def)

lemma read_int_le16 [reads]: "read_int 2 (le16 w @ ys) 0 = Ok w"
  by (simp add: read_int_def read_le_def)

lemma read_int_le32 [reads]: "read_int 4 (le32 w @ ys) 0 = Ok w"
  by (simp add: read_int_def read_le_def)

lemma read_int_le64 [reads]: "read_int 8 (le64 w @ ys) 0 = Ok w"
  by (simp add: read_int_def read_le_def)

lemma read_bytes_skip [reads]:
  "length a \<le> k \<Longrightarrow> read_bytes (a @ ys) k n = read_bytes ys (k - length a) n"
  by (auto simp: read_bytes_def)

lemma read_bytes_Cons [reads]: "0 < k \<Longrightarrow> read_bytes (y # ys) k n = read_bytes ys (k - 1) n"
  using read_bytes_skip[of "[y]" k ys n] by simp

lemma read_bytes_here [reads]: "n = length a \<Longrightarrow> read_bytes (a @ ys) 0 n = Some a"
  by (simp add: read_bytes_def)

end
