(* ===== verification/Frame_Parser.thy ===== *)
theory Frame_Parser
  imports Writer_Body Central_Dir_Parser
begin

text \<open>
  The frame parser of the downloader (\<open>src/downloader/frame_parser.c\<close>,
  \<open>include/stream_processor.h\<close> for its types): what starts at a position of the archive and how
  long it is. \<open>ZSTD_findFrameCompressedSize\<close> and \<open>ZSTD_getFrameContentSize\<close> are arguments.
  The lemmas show that the parser recognises what the writer appends, that it asks for more data
  on every proper prefix, and in which single case it reads outside its buffer.
\<close>

section \<open>Types\<close>

datatype stream_rc =
    STREAM_PROC_SUCCESS
  | STREAM_PROC_SKIPPED_PADDING
  | STREAM_PROC_ERR_INVALID_ARGS
  | STREAM_PROC_ERR_MEMORY
  | STREAM_PROC_ERR_INVALID_FRAME
  | STREAM_PROC_ERR_IO
  | STREAM_PROC_ERR_BTRFS_WRITE
  | STREAM_PROC_ERR_UNEXPECTED_EOF
  | STREAM_PROC_NEED_MORE_DATA

definition ZSTD_MAGIC_NUMBER :: u32 where "ZSTD_MAGIC_NUMBER = 0xFD2FB528"
definition BURST_SKIPPABLE_MAGIC :: u32 where "BURST_SKIPPABLE_MAGIC = 0x184D2A5B"
definition BURST_TYPE_PADDING :: u8 where "BURST_TYPE_PADDING = 0x00"
definition BURST_TYPE_START_OF_PART :: u8 where "BURST_TYPE_START_OF_PART = 0x01"

datatype frame_type =
    FRAME_ZSTD_COMPRESSED
  | FRAME_BURST_PADDING
  | FRAME_BURST_START_OF_PART
  | FRAME_ZIP_LOCAL_HEADER
  | FRAME_ZIP_DATA_DESCRIPTOR
  | FRAME_ZIP_CENTRAL_DIRECTORY
  | FRAME_UNKNOWN

record frame_info =
  fi_type :: frame_type
  fi_frame_size :: size_t
  fi_uncompressed_size :: u64
  fi_start_of_part_offset :: u64

text \<open>The result of \<open>ZSTD_findFrameCompressedSize\<close>: a size, the error \<open>srcSize_wrong\<close>, another
  error.\<close>

datatype zstd_size = ZSTD_size size_t | ZSTD_error_srcSize_wrong | ZSTD_error_other

text \<open>The functions of libzstd that the downloader calls, and what Btrfs returns when an extent that
  was stored encoded is read: \<open>zr_decompress cap frame\<close> is \<open>ZSTD_decompressDCtx\<close> into a buffer of
  \<open>cap\<close> bytes.\<close>

record zstd_reader =
  zr_find_frame_size :: "bytes \<Rightarrow> zstd_size"
  zr_content_size :: "bytes \<Rightarrow> content_size"
  zr_decompress :: "nat \<Rightarrow> bytes \<Rightarrow> bytes option"
  zr_btrfs_read :: "bytes \<Rightarrow> nat \<Rightarrow> bytes"

section \<open>Parsing\<close>

definition MIN_FRAME_HEADER_SIZE :: nat where "MIN_FRAME_HEADER_SIZE = 4"

definition frame_info_of :: "frame_type \<Rightarrow> size_t \<Rightarrow> frame_info" where
  "frame_info_of ty n =
     \<lparr>fi_type = ty, fi_frame_size = n, fi_uncompressed_size = 0, fi_start_of_part_offset = 0\<rparr>"

definition parse_local_header_frame :: "bytes \<Rightarrow> (stream_rc, frame_info) outcome" where
  "parse_local_header_frame buffer =
     (if length buffer < 30 then Error STREAM_PROC_NEED_MORE_DATA
      else
        bind_outcome (read_int 2 buffer 26) (\<lambda>filename_length :: u16.
        bind_outcome (read_int 2 buffer 28) (\<lambda>extra_field_length :: u16.
          Ok (frame_info_of FRAME_ZIP_LOCAL_HEADER
                (30 + ucast filename_length + ucast extra_field_length)))))"

definition parse_zstd_frame :: "zstd_reader \<Rightarrow> bytes \<Rightarrow> (stream_rc, frame_info) outcome" where
  "parse_zstd_frame zr buffer =
     (case zr_find_frame_size zr buffer of
        ZSTD_error_srcSize_wrong \<Rightarrow> Error STREAM_PROC_NEED_MORE_DATA
      | ZSTD_error_other \<Rightarrow> Error STREAM_PROC_ERR_INVALID_FRAME
      | ZSTD_size frame_size \<Rightarrow>
          (case zr_content_size zr buffer of
             CONTENTSIZE_ERROR \<Rightarrow> Error STREAM_PROC_ERR_INVALID_FRAME
           | CONTENTSIZE_UNKNOWN \<Rightarrow> Error STREAM_PROC_ERR_INVALID_FRAME
           | CONTENTSIZE n \<Rightarrow>
               Ok ((frame_info_of FRAME_ZSTD_COMPRESSED frame_size)\<lparr>fi_uncompressed_size := n\<rparr>)))"

text \<open>\<open>8 + payload_size\<close> is a sum of type \<open>uint32_t\<close>: it wraps around at 32 bits before it is
  stored in the \<open>size_t\<close>.\<close>

definition parse_skippable_frame :: "bytes \<Rightarrow> (stream_rc, frame_info) outcome" where
  "parse_skippable_frame buffer =
     (if length buffer < 8 then Error STREAM_PROC_NEED_MORE_DATA
      else
        bind_outcome (read_int 4 buffer 4) (\<lambda>payload_size :: u32.
          let frame_size = ucast (8 + payload_size) :: size_t
          in if length buffer < unat frame_size then Error STREAM_PROC_NEED_MORE_DATA
             else if payload_size > 0 then
               bind_outcome (read_int 1 buffer 8) (\<lambda>type_byte :: u8.
                 if type_byte = BURST_TYPE_START_OF_PART \<and> payload_size = 16 then
                   bind_outcome (read_int 8 buffer 9) (\<lambda>off.
                     Ok ((frame_info_of FRAME_BURST_START_OF_PART frame_size)
                           \<lparr>fi_start_of_part_offset := off\<rparr>))
                 else Ok (frame_info_of FRAME_BURST_PADDING frame_size))
             else Ok (frame_info_of FRAME_BURST_PADDING frame_size)))"

definition parse_next_frame :: "zstd_reader \<Rightarrow> bytes \<Rightarrow> (stream_rc, frame_info) outcome" where
  "parse_next_frame zr buffer =
     (if length buffer < MIN_FRAME_HEADER_SIZE then Error STREAM_PROC_NEED_MORE_DATA
      else
        bind_outcome (read_int 4 buffer 0) (\<lambda>magic :: u32.
          if magic = ZIP_LOCAL_FILE_HEADER_SIG then parse_local_header_frame buffer
          else if magic = ZIP_DATA_DESCRIPTOR_SIG
          then Ok (frame_info_of FRAME_ZIP_DATA_DESCRIPTOR 16)
          else if magic = ZIP_CENTRAL_DIR_HEADER_SIG
          then Ok (frame_info_of FRAME_ZIP_CENTRAL_DIRECTORY 0)
          else if magic = ZSTD_MAGIC_NUMBER then parse_zstd_frame zr buffer
          else if magic = BURST_SKIPPABLE_MAGIC then parse_skippable_frame buffer
          else Error STREAM_PROC_ERR_INVALID_FRAME))"

text \<open>A frame whose 32-bit size has wrapped: its payload is announced with at least \<open>2^32 - 8\<close>
  bytes.\<close>

definition wrapped_frame :: "bytes \<Rightarrow> bool" where
  "wrapped_frame buffer \<longleftrightarrow>
     8 \<le> length buffer \<and> (read_le 4 buffer 0 :: u32 option) = Some BURST_SKIPPABLE_MAGIC \<and>
     (\<exists>n :: u32. read_le 4 buffer 4 = Some n \<and> n \<ge> 0xFFFFFFF8)"

section \<open>Safety and progress\<close>

lemmas magic_defs = ZIP_LOCAL_FILE_HEADER_SIG_def ZIP_DATA_DESCRIPTOR_SIG_def
  ZIP_CENTRAL_DIR_HEADER_SIG_def ZSTD_MAGIC_NUMBER_def BURST_SKIPPABLE_MAGIC_def

lemma read_int_cases:
  "read_int n buf off = (if off + n \<le> length buf then Ok (field buf off n) else Fault)"
  by (simp add: read_int_def read_le_def)

lemma unat_ucast_u32 [simp]: "unat (ucast (n :: u32) :: size_t) = unat n"
  using unat_u32_less[of n] by (simp add: unsigned_ucast_eq take_bit_nat_eq_self)

lemma skippable_size_cases:
  fixes n :: u32
  shows "unat (8 + n) =
           (if n \<ge> 0xFFFFFFF8 then unat n - 0xFFFFFFF8 else 8 + unat n)"
proof (cases "n \<ge> 0xFFFFFFF8")
  case True
  then have "0xFFFFFFF8 \<le> unat n" by (simp add: word_le_nat_alt)
  moreover have "unat n < 4294967296" by (rule unat_u32_less)
  ultimately show ?thesis using True
    by (simp add: unat_word_ariths mod_if)
next
  case False
  then have "unat n < 0xFFFFFFF8" by (simp add: word_le_nat_alt)
  then show ?thesis using False by (simp add: unat_word_ariths)
qed

text \<open>The payload size that a buffer announces.\<close>

abbreviation announced :: "bytes \<Rightarrow> u32" where
  "announced buffer \<equiv> field buffer 4 4"

lemma wrapped_frame_iff:
  "wrapped_frame b \<longleftrightarrow>
     8 \<le> length b \<and> (field b 0 4 :: u32) = BURST_SKIPPABLE_MAGIC \<and> announced b \<ge> 0xFFFFFFF8"
  by (auto simp: wrapped_frame_def read_le_def)

lemma parse_skippable_frame_Fault_iff:
  "parse_skippable_frame b = Fault \<longleftrightarrow> length b = 8 \<and> announced b \<ge> 0xFFFFFFF8"
proof -
  have small: "announced b = 16 \<Longrightarrow> \<not> announced b \<ge> 0xFFFFFFF8" by simp
  have pos: "announced b \<ge> 0xFFFFFFF8 \<Longrightarrow> announced b > 0"
    by (simp add: word_gt_0) auto
  have bound: "unat (announced b) - 0xFFFFFFF8 \<le> 7" if "announced b \<ge> 0xFFFFFFF8"
    using unat_u32_less[of "announced b"] by simp
  have nz: "announced b \<noteq> 0 \<Longrightarrow> 0 < unat (announced b)" by (simp add: unat_gt_0)
  show ?thesis
    unfolding parse_skippable_frame_def read_int_cases
    using small pos bound nz
    by (auto simp: Let_def skippable_size_cases word_gt_0 unat_eq_zero)
qed

lemma parse_next_frame_Fault_iff:
  "parse_next_frame zr b = Fault \<longleftrightarrow> length b = 8 \<and> wrapped_frame b"
  unfolding parse_next_frame_def read_int_cases
  by (auto simp: MIN_FRAME_HEADER_SIZE_def parse_local_header_frame_def parse_zstd_frame_def
      read_int_cases parse_skippable_frame_Fault_iff wrapped_frame_iff magic_defs
      split: zstd_size.splits content_size.splits)

lemma parse_skippable_frame_Ok:
  assumes "parse_skippable_frame b = Ok info"
  shows "fi_type info = FRAME_BURST_PADDING \<or> fi_type info = FRAME_BURST_START_OF_PART"
    and "unat (fi_frame_size info) \<le> length b"
    and "\<not> announced b \<ge> 0xFFFFFFF8 \<Longrightarrow> 8 \<le> unat (fi_frame_size info)"
    and "fi_type info = FRAME_BURST_START_OF_PART \<Longrightarrow> unat (fi_frame_size info) = 24"
    and "8 \<le> length b"
  using assms unfolding parse_skippable_frame_def read_int_cases
  by (auto simp: Let_def skippable_size_cases frame_info_of_def split: if_splits)

text \<open>What a caller may rely on: every frame that is consumed is longer than nothing, skippable frames
  lie in the buffer, a Start-of-Part frame has 24 bytes.\<close>

definition zstd_sizes_ok :: "zstd_reader \<Rightarrow> bool" where
  "zstd_sizes_ok zr \<longleftrightarrow>
     (\<forall>b n. zr_find_frame_size zr b = ZSTD_size n \<longrightarrow> 0 < unat n \<and> unat n \<le> length b)"

lemma parse_next_frame_Ok:
  assumes "parse_next_frame zr b = Ok info"
  shows "fi_type info \<in> {FRAME_BURST_PADDING, FRAME_BURST_START_OF_PART} \<Longrightarrow>
           unat (fi_frame_size info) \<le> length b"
    and "fi_type info = FRAME_BURST_START_OF_PART \<Longrightarrow> unat (fi_frame_size info) = 24"
    and "fi_type info = FRAME_ZSTD_COMPRESSED \<Longrightarrow> zstd_sizes_ok zr \<Longrightarrow>
           0 < unat (fi_frame_size info) \<and> unat (fi_frame_size info) \<le> length b"
    and "fi_type info = FRAME_BURST_PADDING \<Longrightarrow> \<not> wrapped_frame b \<Longrightarrow> 0 < unat (fi_frame_size info)"
    and "fi_type info = FRAME_ZIP_LOCAL_HEADER \<Longrightarrow> 30 \<le> length b"
    and "fi_type info \<noteq> FRAME_UNKNOWN"
  using assms parse_skippable_frame_Ok[of b info] unfolding parse_next_frame_def read_int_cases
  by (auto simp: MIN_FRAME_HEADER_SIZE_def parse_local_header_frame_def parse_zstd_frame_def
      read_int_cases frame_info_of_def wrapped_frame_iff magic_defs zstd_sizes_ok_def
      split: zstd_size.splits content_size.splits if_splits)

section \<open>What the writer appends is recognised\<close>

lemma BURST_MAGIC_NUMBER_skippable: "BURST_MAGIC_NUMBER = BURST_SKIPPABLE_MAGIC"
  by (simp add: BURST_MAGIC_NUMBER_def BURST_SKIPPABLE_MAGIC_def)

lemmas parse_frame_defs = parse_next_frame_def MIN_FRAME_HEADER_SIZE_def magic_defs

lemma parse_next_frame_skippable:
  "parse_next_frame zr (le32 BURST_MAGIC_NUMBER @ xs) =
     parse_skippable_frame (le32 BURST_MAGIC_NUMBER @ xs)"
  by (simp add: parse_next_frame_def MIN_FRAME_HEADER_SIZE_def reads
      BURST_MAGIC_NUMBER_skippable magic_defs del: bind_outcome_Ok_iff)

lemma parse_padding_frame:
  assumes "n < 0xFFFFFFF8"
  shows "parse_next_frame zr (padding_frame n @ ys) =
           Ok (frame_info_of FRAME_BURST_PADDING (of_nat (8 + n)))"
proof -
  have u: "unat (of_nat n :: u32) = n" using assms by (simp add: unat_of_nat)
  have s: "unat (8 + of_nat n :: u32) = 8 + n"
    using assms by (simp add: unat_word_ariths u)
  have size: "(ucast (8 + of_nat n :: u32) :: size_t) = of_nat (8 + n)"
    using assms by (simp add: word_unat_eq_iff s unat_of_nat del: of_nat_add)
  have pay: "0 < n \<Longrightarrow> replicate n (0::u8) = 0 # replicate (n - 1) 0"
    by (cases n) auto
  have pos: "(of_nat n :: u32) > 0 \<longleftrightarrow> 0 < n"
    using u by (metis unat_gt_0 word_gt_0)
  have "parse_skippable_frame (padding_frame n @ ys) =
          Ok (frame_info_of FRAME_BURST_PADDING (ucast (8 + of_nat n :: u32)))"
    by (cases "0 < n")
       (simp_all add: parse_skippable_frame_def padding_frame_def reads Let_def s pos pay
         BURST_TYPE_START_OF_PART_def del: bind_outcome_Ok_iff replicate.simps)
  then show ?thesis
    by (simp add: padding_frame_def parse_next_frame_skippable size)
qed

lemma parse_sop_frame:
  "parse_next_frame zr (sop_frame off @ ys) =
     Ok ((frame_info_of FRAME_BURST_START_OF_PART 24)\<lparr>fi_start_of_part_offset := off\<rparr>)"
  by (simp add: sop_frame_def parse_next_frame_skippable)
     (simp add: parse_skippable_frame_def reads Let_def BURST_TYPE_START_OF_PART_def
       del: bind_outcome_Ok_iff)

lemma parse_local_header:
  assumes "lh_signature h = ZIP_LOCAL_FILE_HEADER_SIG"
  shows "parse_next_frame zr (local_header_bytes h @ ys) =
           Ok (frame_info_of FRAME_ZIP_LOCAL_HEADER
                 (30 + ucast (lh_filename_length h) + ucast (lh_extra_field_length h)))"
  using assms
  by (simp add: parse_next_frame_def MIN_FRAME_HEADER_SIZE_def parse_local_header_frame_def
      local_header_bytes_def reads del: bind_outcome_Ok_iff)

lemma parse_data_descriptor:
  "parse_next_frame zr (data_descriptor crc c u z @ ys) =
     Ok (frame_info_of FRAME_ZIP_DATA_DESCRIPTOR 16)"
  by (simp add: parse_frame_defs data_descriptor_def data_descriptor_bytes_def
      data_descriptor_zip64_bytes_def reads del: bind_outcome_Ok_iff)

lemma parse_central_header:
  "parse_next_frame zr (cdfh_bytes e @ ys) = Ok (frame_info_of FRAME_ZIP_CENTRAL_DIRECTORY 0)"
  by (simp add: parse_frame_defs cdfh_bytes_def central_header_bytes_def central_header_of_def
      reads del: bind_outcome_Ok_iff)

text \<open>What the reader relies on for a Zstandard frame that holds the bytes of \<open>chunk\<close>: its magic
  number, that its end is found whatever follows, that its content size is stored in it, and that a
  proper prefix is reported as too short.\<close>

definition zstd_frame :: "zstd_reader \<Rightarrow> bytes \<Rightarrow> bytes \<Rightarrow> bool" where
  "zstd_frame zr chunk frame \<longleftrightarrow>
     4 \<le> length frame \<and> length frame < 2 ^ 64 \<and> take 4 frame = le32 ZSTD_MAGIC_NUMBER \<and>
     (\<forall>rest. zr_find_frame_size zr (frame @ rest) = ZSTD_size (of_nat (length frame)) \<and>
             zr_content_size zr (frame @ rest) = CONTENTSIZE (of_nat (length chunk))) \<and>
     (\<forall>k. 4 \<le> k \<longrightarrow> k < length frame \<longrightarrow>
        zr_find_frame_size zr (take k frame) = ZSTD_error_srcSize_wrong)"

lemma zstd_frame_magic:
  assumes "zstd_frame zr chunk frame"
  shows "parse_next_frame zr (frame @ ys) = parse_zstd_frame zr (frame @ ys)"
    and "4 \<le> k \<Longrightarrow> parse_next_frame zr (take k frame) = parse_zstd_frame zr (take k frame)"
proof -
  have eq: "frame = le32 ZSTD_MAGIC_NUMBER @ drop 4 frame"
    using assms by (metis append_take_drop_id zstd_frame_def)
  have magic: "parse_next_frame zr (le32 ZSTD_MAGIC_NUMBER @ xs) =
                 parse_zstd_frame zr (le32 ZSTD_MAGIC_NUMBER @ xs)" for xs
    by (simp add: parse_frame_defs reads del: bind_outcome_Ok_iff)
  show "parse_next_frame zr (frame @ ys) = parse_zstd_frame zr (frame @ ys)"
    using magic[of "drop 4 frame @ ys"] eq by (metis append.assoc)
  show "parse_next_frame zr (take k frame) = parse_zstd_frame zr (take k frame)" if "4 \<le> k"
  proof -
    have "take k frame = le32 ZSTD_MAGIC_NUMBER @ take (k - 4) (drop 4 frame)"
      using that by (subst eq) simp
    then show ?thesis using magic by metis
  qed
qed

lemma parse_compressed_frame:
  assumes "zstd_frame zr chunk frame"
  shows "parse_next_frame zr (frame @ ys) =
           Ok ((frame_info_of FRAME_ZSTD_COMPRESSED (of_nat (length frame)))
                 \<lparr>fi_uncompressed_size := of_nat (length chunk)\<rparr>)"
  using assms by (simp add: zstd_frame_magic(1)[OF assms] parse_zstd_frame_def zstd_frame_def)

section \<open>Prefixes\<close>

lemma parse_short: "length b < 4 \<Longrightarrow> parse_next_frame zr b = Error STREAM_PROC_NEED_MORE_DATA"
  by (simp add: parse_next_frame_def MIN_FRAME_HEADER_SIZE_def)

lemma parse_skippable_prefix:
  assumes "unat m < 0xFFFFFFF8" and "length xs = unat m" and "k < 8 + unat m"
  shows "parse_next_frame zr (take k (le32 BURST_MAGIC_NUMBER @ le32 m @ xs)) =
           Error STREAM_PROC_NEED_MORE_DATA"
proof (cases "k < 4")
  case True
  then show ?thesis by (simp add: parse_short)
next
  case k4: False
  have s: "unat (8 + m) = 8 + unat m" using assms by (simp add: unat_word_ariths)
  have t: "take k (le32 BURST_MAGIC_NUMBER @ le32 m @ xs) =
             le32 BURST_MAGIC_NUMBER @ take (k - 4) (le32 m @ xs)"
    using k4 by simp
  show ?thesis
  proof (cases "k < 8")
    case True
    then show ?thesis unfolding t parse_next_frame_skippable using k4
      by (simp add: parse_skippable_frame_def)
  next
    case False
    then have "take (k - 4) (le32 m @ xs) = le32 m @ take (k - 8) xs" by simp
    then show ?thesis unfolding t parse_next_frame_skippable using False assms
      by (simp add: parse_skippable_frame_def reads Let_def s del: bind_outcome_Ok_iff)
  qed
qed

lemma parse_padding_prefix:
  "n < 0xFFFFFFF8 \<Longrightarrow> k < 8 + n \<Longrightarrow>
   parse_next_frame zr (take k (padding_frame n)) = Error STREAM_PROC_NEED_MORE_DATA"
  using parse_skippable_prefix[of "of_nat n" "replicate n 0" k zr]
  by (simp add: padding_frame_def unat_of_nat)

lemma parse_sop_prefix:
  "k < 24 \<Longrightarrow> parse_next_frame zr (take k (sop_frame off)) = Error STREAM_PROC_NEED_MORE_DATA"
  using parse_skippable_prefix[of 16 "[0x01] @ le64 off @ replicate 7 0" k zr]
  by (simp add: sop_frame_def)

lemma parse_compressed_prefix:
  assumes "zstd_frame zr chunk frame" and "k < length frame"
  shows "parse_next_frame zr (take k frame) = Error STREAM_PROC_NEED_MORE_DATA"
proof (cases "k < 4")
  case True
  then show ?thesis by (simp add: parse_short)
next
  case False
  then show ?thesis
    using assms by (simp add: zstd_frame_magic(2)[OF assms(1)] parse_zstd_frame_def zstd_frame_def)
qed

end
