(* ===== verification/Posix.thy ===== *)
theory Posix
  imports Burst_Prelude
begin

text \<open>
  The operating system as the downloader sees it: a tree of named nodes, open descriptors, the
  system calls the sources use with their POSIX effect, and the C library's \<open>dirname\<close>.

  \<^item> A path is resolved to its components (empty ones and \<open>.\<close> dropped); \<open>..\<close> and symbolic links
    are not followed.
  \<^item> Every call that could succeed takes its result from \<open>os_plan\<close> (the empty plan: success), so
    a theorem about all states covers every pattern of failures; errors that follow from the
    state itself (\<open>EEXIST\<close>, \<open>ENOENT\<close>, a directory where a file is opened, a negative offset) do
    not depend on the plan.
  \<^item> An open descriptor stands for the path it was opened at.
  \<^item> \<open>os_allocs\<close> gives the results of \<open>malloc\<close>, \<open>calloc\<close>, \<open>realloc\<close> and \<open>strdup\<close>; \<open>os_dctx\<close> and
    \<open>os_dbuf\<close> say whether the thread's decompression context and buffer exist.
\<close>

section \<open>Paths\<close>

abbreviation slash :: u8 where "slash \<equiv> 0x2f"
abbreviation dot :: u8 where "dot \<equiv> 0x2e"

fun split_slash :: "bytes \<Rightarrow> bytes list" where
  "split_slash [] = [[]]"
| "split_slash (b # bs) =
     (if b = slash then [] # split_slash bs
      else (case split_slash bs of [] \<Rightarrow> [[b]] | c # cs \<Rightarrow> (b # c) # cs))"

type_synonym path = "bool \<times> bytes list"

definition resolve :: "bytes \<Rightarrow> path" where
  "resolve p = (p \<noteq> [] \<and> hd p = slash, filter (\<lambda>c. c \<noteq> [] \<and> c \<noteq> [dot]) (split_slash p))"

definition parent :: "path \<Rightarrow> path" where
  "parent p = (fst p, butlast (snd p))"

definition strip_slashes :: "bytes \<Rightarrow> bytes" where
  "strip_slashes p = rev (dropWhile (\<lambda>b. b = slash) (rev p))"

definition dirname :: "bytes \<Rightarrow> bytes" where
  "dirname p =
     (if p = [] then [dot]
      else
        let q = strip_slashes p
        in if q = [] then [slash]
           else
             let d = rev (dropWhile (\<lambda>b. b \<noteq> slash) (rev q))
             in if d = [] then [dot]
                else if strip_slashes d = [] then [slash] else strip_slashes d)"

section \<open>State\<close>

record attrs =
  at_mode :: u32
  at_uid :: u32
  at_gid :: u32

datatype node = Regular bytes attrs | Directory attrs | Symbolic bytes attrs

datatype errno = EEXIST | ENOENT | ENOTTY | EOPNOTSUPP | EINVAL | EOTHER

text \<open>The kernel's answer to a call: success, failure, or (for a write) only the first \<open>n\<close> bytes.\<close>

datatype answer = Granted | Refused errno | Short nat

record os_state =
  os_nodes :: "path \<Rightarrow> node option"
  os_fds :: "int \<Rightarrow> path option"
  os_next_fd :: int
  os_plan :: "answer list"
  os_allocs :: "bool list"
  os_euid :: u32
  os_egid :: u32
  os_umask :: u32
  os_dctx :: bool
  os_dbuf :: bool

definition ask :: "os_state \<Rightarrow> answer \<times> os_state" where
  "ask os = (case os_plan os of [] \<Rightarrow> (Granted, os) | a # as \<Rightarrow> (a, os\<lparr>os_plan := as\<rparr>))"

definition os_alloc :: "os_state \<Rightarrow> bool \<times> os_state" where
  "os_alloc os = (case os_allocs os of [] \<Rightarrow> (True, os) | b # bs \<Rightarrow> (b, os\<lparr>os_allocs := bs\<rparr>))"

text \<open>A call without a count: \<open>None\<close> for success, or the error.\<close>

definition syscall :: "(os_state \<Rightarrow> os_state) \<Rightarrow> os_state \<Rightarrow> errno option \<times> os_state" where
  "syscall eff os =
     (case ask os of
        (Refused e, os1) \<Rightarrow> (Some e, os1)
      | (_, os1) \<Rightarrow> (None, eff os1))"

definition set_node :: "path \<Rightarrow> node \<Rightarrow> os_state \<Rightarrow> os_state" where
  "set_node p n os = os\<lparr>os_nodes := (os_nodes os)(p := Some n)\<rparr>"

definition own_attrs :: "u32 \<Rightarrow> os_state \<Rightarrow> attrs" where
  "own_attrs mode os =
     \<lparr>at_mode = mode AND NOT (os_umask os), at_uid = os_euid os, at_gid = os_egid os\<rparr>"

definition is_dir :: "os_state \<Rightarrow> path \<Rightarrow> bool" where
  "is_dir os p \<longleftrightarrow> snd p = [] \<or> (\<exists>a. os_nodes os p = Some (Directory a))"

lemma is_dir_code [code]:
  "is_dir os p \<longleftrightarrow>
     snd p = [] \<or> (case os_nodes os p of Some (Directory a) \<Rightarrow> True | _ \<Rightarrow> False)"
  by (auto simp: is_dir_def split: option.splits node.splits)

section \<open>Calls on names\<close>

definition sys_mkdir :: "bytes \<Rightarrow> u32 \<Rightarrow> os_state \<Rightarrow> errno option \<times> os_state" where
  "sys_mkdir name mode os =
     (let p = resolve name
      in if snd p = [] \<or> os_nodes os p \<noteq> None then (Some EEXIST, os)
         else if \<not> is_dir os (parent p) then (Some ENOENT, os)
         else syscall (\<lambda>os. set_node p (Directory (own_attrs mode os)) os) os)"

text \<open>\<open>stat(name) == 0 && S_ISDIR(st_mode)\<close>\<close>

definition sys_stat_isdir :: "bytes \<Rightarrow> os_state \<Rightarrow> bool \<times> os_state" where
  "sys_stat_isdir name os =
     (case syscall (\<lambda>os. os) os of
        (None, os1) \<Rightarrow> (is_dir os1 (resolve name), os1)
      | (Some e, os1) \<Rightarrow> (False, os1))"

definition sys_unlink :: "bytes \<Rightarrow> os_state \<Rightarrow> errno option \<times> os_state" where
  "sys_unlink name os =
     (let p = resolve name
      in if os_nodes os p = None then (Some ENOENT, os)
         else if is_dir os p then (Some EOTHER, os)
         else syscall (\<lambda>os. os\<lparr>os_nodes := (os_nodes os)(p := None)\<rparr>) os)"

definition sys_symlink :: "bytes \<Rightarrow> bytes \<Rightarrow> os_state \<Rightarrow> errno option \<times> os_state" where
  "sys_symlink target name os =
     (let p = resolve name
      in if target = [] then (Some ENOENT, os)
         else if snd p = [] \<or> os_nodes os p \<noteq> None then (Some EEXIST, os)
         else if \<not> is_dir os (parent p) then (Some ENOENT, os)
         else syscall (\<lambda>os. set_node p (Symbolic target (own_attrs 0x1FF os)) os) os)"

fun node_attrs :: "(attrs \<Rightarrow> attrs) \<Rightarrow> node \<Rightarrow> node" where
  "node_attrs f (Regular c a) = Regular c (f a)"
| "node_attrs f (Directory a) = Directory (f a)"
| "node_attrs f (Symbolic t a) = Symbolic t (f a)"

definition set_attrs :: "path \<Rightarrow> (attrs \<Rightarrow> attrs) \<Rightarrow> os_state \<Rightarrow> os_state" where
  "set_attrs p f os =
     (case os_nodes os p of None \<Rightarrow> os | Some n \<Rightarrow> set_node p (node_attrs f n) os)"

definition change_attrs :: "path \<Rightarrow> (attrs \<Rightarrow> attrs) \<Rightarrow> os_state \<Rightarrow> errno option \<times> os_state" where
  "change_attrs p f os =
     (if os_nodes os p = None then (Some ENOENT, os) else syscall (set_attrs p f) os)"

definition sys_chmod :: "bytes \<Rightarrow> u32 \<Rightarrow> os_state \<Rightarrow> errno option \<times> os_state" where
  "sys_chmod name mode = change_attrs (resolve name) (\<lambda>a. a\<lparr>at_mode := mode\<rparr>)"

definition sys_chown :: "bytes \<Rightarrow> u32 \<Rightarrow> u32 \<Rightarrow> os_state \<Rightarrow> errno option \<times> os_state" where
  "sys_chown name uid gid = change_attrs (resolve name) (\<lambda>a. a\<lparr>at_uid := uid, at_gid := gid\<rparr>)"

text \<open>\<open>open(name, O_WRONLY | O_CREAT, mode)\<close>: the descriptor, or -1.\<close>

definition sys_open :: "bytes \<Rightarrow> u32 \<Rightarrow> os_state \<Rightarrow> int \<times> os_state" where
  "sys_open name mode os =
     (let p = resolve name;
          opened = (\<lambda>os. (os_next_fd os,
                          os\<lparr>os_fds := (os_fds os)(os_next_fd os := Some p),
                             os_next_fd := os_next_fd os + 1\<rparr>))
      in case ask os of
           (Refused e, os1) \<Rightarrow> (-1, os1)
         | (_, os1) \<Rightarrow>
             (case os_nodes os1 p of
                Some (Regular c a) \<Rightarrow> opened os1
              | None \<Rightarrow>
                  if snd p = [] \<or> \<not> is_dir os1 (parent p) then (-1, os1)
                  else opened (set_node p (Regular [] (own_attrs mode os1)) os1)
              | _ \<Rightarrow> (-1, os1)))"

section \<open>Calls on descriptors\<close>

definition overwrite :: "bytes \<Rightarrow> nat \<Rightarrow> bytes \<Rightarrow> bytes" where
  "overwrite c off d =
     (if d = [] then c
      else take off (c @ replicate (off - length c) 0) @ d @ drop (off + length d) c)"

definition resize :: "nat \<Rightarrow> bytes \<Rightarrow> bytes" where
  "resize n c = take n c @ replicate (n - length c) 0"

definition set_content :: "path \<Rightarrow> (bytes \<Rightarrow> bytes) \<Rightarrow> os_state \<Rightarrow> os_state" where
  "set_content p f os =
     (case os_nodes os p of
        Some (Regular c a) \<Rightarrow> set_node p (Regular (f c) a) os
      | _ \<Rightarrow> os)"

text \<open>A call on a descriptor that is not open, or with an offset that is negative as an \<open>off_t\<close>,
  fails.\<close>

definition on_fd :: "int \<Rightarrow> (path \<Rightarrow> os_state \<Rightarrow> 'a \<times> os_state) \<Rightarrow> 'a \<Rightarrow> os_state \<Rightarrow> 'a \<times> os_state" where
  "on_fd fd f bad os = (case os_fds os fd of None \<Rightarrow> (bad, os) | Some p \<Rightarrow> f p os)"

definition sys_pwrite :: "int \<Rightarrow> bytes \<Rightarrow> u64 \<Rightarrow> os_state \<Rightarrow> int \<times> os_state" where
  "sys_pwrite fd data off =
     on_fd fd (\<lambda>p os.
       if sint off < 0 then (-1, os)
       else case ask os of
              (Refused e, os1) \<Rightarrow> (-1, os1)
            | (Granted, os1) \<Rightarrow>
                (int (length data), set_content p (\<lambda>c. overwrite c (unat off) data) os1)
            | (Short n, os1) \<Rightarrow>
                (int (min n (length data)),
                 set_content p (\<lambda>c. overwrite c (unat off) (take n data)) os1)) (-1)"

text \<open>\<open>ioctl(fd, BTRFS_IOC_ENCODED_WRITE, &enc)\<close>: the extent reads as \<open>content\<close>.\<close>

definition sys_encoded_write :: "int \<Rightarrow> bytes \<Rightarrow> u64 \<Rightarrow> os_state \<Rightarrow> errno option \<times> os_state" where
  "sys_encoded_write fd content off =
     on_fd fd (\<lambda>p os.
       if sint off < 0 then (Some EINVAL, os)
       else syscall (set_content p (\<lambda>c. overwrite c (unat off) content)) os) (Some EOTHER)"

definition sys_ftruncate :: "int \<Rightarrow> u64 \<Rightarrow> os_state \<Rightarrow> errno option \<times> os_state" where
  "sys_ftruncate fd len =
     on_fd fd (\<lambda>p os.
       if sint len < 0 then (Some EINVAL, os)
       else syscall (set_content p (resize (unat len))) os) (Some EOTHER)"

definition sys_fchmod :: "int \<Rightarrow> u32 \<Rightarrow> os_state \<Rightarrow> errno option \<times> os_state" where
  "sys_fchmod fd mode =
     on_fd fd (\<lambda>p. syscall (set_attrs p (\<lambda>a. a\<lparr>at_mode := mode\<rparr>))) (Some EOTHER)"

definition sys_fchown :: "int \<Rightarrow> u32 \<Rightarrow> u32 \<Rightarrow> os_state \<Rightarrow> errno option \<times> os_state" where
  "sys_fchown fd uid gid =
     on_fd fd (\<lambda>p. syscall (set_attrs p (\<lambda>a. a\<lparr>at_uid := uid, at_gid := gid\<rparr>))) (Some EOTHER)"

definition sys_close :: "int \<Rightarrow> os_state \<Rightarrow> os_state" where
  "sys_close fd os = os\<lparr>os_fds := (os_fds os)(fd := None)\<rparr>"

section \<open>Visible state\<close>

text \<open>What programs can observe: everything except the plan of answers and the thread-local
  resources. A failing call leaves it unchanged.\<close>

definition visible :: "os_state \<Rightarrow> os_state" where
  "visible os = os\<lparr>os_plan := [], os_allocs := [], os_dctx := True, os_dbuf := True\<rparr>"

text \<open>No call will be refused and no allocation will fail.\<close>

definition quiet :: "os_state \<Rightarrow> bool" where
  "quiet os \<longleftrightarrow> os_plan os = [] \<and> os_allocs os = []"

lemma visible_fields [simp]:
  "os_nodes (visible os) = os_nodes os" "os_fds (visible os) = os_fds os"
  "os_next_fd (visible os) = os_next_fd os" "os_euid (visible os) = os_euid os"
  "os_egid (visible os) = os_egid os" "os_umask (visible os) = os_umask os"
  by (simp_all add: visible_def)

lemma visible_eqD:
  assumes "visible os = visible os'"
  shows "os_nodes os = os_nodes os'" "os_fds os = os_fds os'" "os_next_fd os = os_next_fd os'"
    "os_euid os = os_euid os'" "os_egid os = os_egid os'" "os_umask os = os_umask os'"
  using assms by (metis visible_fields)+

lemma visible_set [simp]:
  "visible (set_node p n os) = set_node p n (visible os)"
  "visible (set_content p f os) = set_content p f (visible os)"
  "visible (set_attrs p g os) = set_attrs p g (visible os)"
  "visible (sys_close fd os) = sys_close fd (visible os)"
  by (simp_all add: visible_def set_node_def set_content_def set_attrs_def sys_close_def
      split: option.splits node.splits)

lemma ask_visible: "ask os = (a, os') \<Longrightarrow> visible os' = visible os"
  by (auto simp: ask_def visible_def split: list.splits)

lemma os_alloc_visible: "os_alloc os = (b, os') \<Longrightarrow> visible os' = visible os"
  by (auto simp: os_alloc_def visible_def split: list.splits)

lemma ask_quiet [simp]: "quiet os \<Longrightarrow> ask os = (Granted, os)"
  by (simp add: ask_def quiet_def)

lemma os_alloc_quiet [simp]: "quiet os \<Longrightarrow> os_alloc os = (True, os)"
  by (simp add: os_alloc_def quiet_def)

lemma syscall_quiet [simp]: "quiet os \<Longrightarrow> syscall eff os = (None, eff os)"
  by (simp add: syscall_def)

lemma quiet_set [simp]:
  "quiet (set_node p n os) = quiet os" "quiet (set_content p f os) = quiet os"
  "quiet (set_attrs p g os) = quiet os" "quiet (sys_close fd os) = quiet os"
  by (simp_all add: quiet_def set_node_def set_content_def set_attrs_def sys_close_def
      split: option.splits node.splits)

lemma syscall_failed: "syscall eff os = (Some e, os') \<Longrightarrow> visible os' = visible os"
  by (auto simp: syscall_def dest: ask_visible split: prod.splits answer.splits)

lemma syscall_done:
  assumes "syscall eff os = (None, os')" and "\<And>o1. visible (eff o1) = eff (visible o1)"
  shows "visible os' = eff (visible os)"
proof -
  from assms(1) obtain a os1 where "ask os = (a, os1)" and "os' = eff os1"
    by (auto simp: syscall_def split: prod.splits answer.splits)
  then show ?thesis using assms(2)[of os1] ask_visible[of os a os1] by simp
qed

lemma overwrite_end: "overwrite c (length c) d = c @ d"
  by (simp add: overwrite_def)

lemma length_overwrite:
  "d \<noteq> [] \<Longrightarrow> length (overwrite c off d) = max (length c) (off + length d)"
  by (simp add: overwrite_def)

lemma resize_self [simp]: "resize (length c) c = c"
  by (simp add: resize_def)

section \<open>Descriptors\<close>

text \<open>Only \<open>open\<close> and \<open>close\<close> change the table of descriptors.\<close>

definition same_fds :: "os_state \<Rightarrow> os_state \<Rightarrow> bool" where
  "same_fds os os' \<longleftrightarrow> os_fds os' = os_fds os \<and> os_next_fd os' = os_next_fd os"

named_theorems fds_intros \<open>calls that keep the table of descriptors\<close>

lemma same_fds_refl [fds_intros]: "same_fds os os"
  by (simp add: same_fds_def)

lemma same_fds_trans: "same_fds os os1 \<Longrightarrow> same_fds os1 os2 \<Longrightarrow> same_fds os os2"
  by (simp add: same_fds_def)

lemma visible_same_fds: "visible os' = visible os \<Longrightarrow> same_fds os os'"
  by (auto simp: same_fds_def dest: visible_eqD)

lemma same_fds_set [simp, fds_intros]:
  "same_fds os (set_node p n os)" "same_fds os (set_content p f os)" "same_fds os (set_attrs p g os)"
  by (simp_all add: same_fds_def set_node_def set_content_def set_attrs_def
      split: option.splits node.splits)

lemma syscall_same_fds:
  "(\<And>o1. same_fds o1 (eff o1)) \<Longrightarrow> same_fds os (snd (syscall eff os))"
  using ask_visible[of os]
  by (fastforce simp: syscall_def split: prod.splits answer.splits
      dest: visible_same_fds intro: same_fds_trans)

lemma on_fd_same_fds:
  "(\<And>p o1. same_fds o1 (snd (f p o1))) \<Longrightarrow> same_fds os (snd (on_fd fd f bad os))"
  by (auto simp: on_fd_def fds_intros split: option.splits)

lemma calls_same_fds [fds_intros]:
  "same_fds os (snd (sys_mkdir name mode os))"
  "same_fds os (snd (sys_unlink name os))"
  "same_fds os (snd (sys_symlink target name os))"
  "same_fds os (snd (sys_chmod name mode os))"
  "same_fds os (snd (sys_chown name uid gid os))"
  "same_fds os (snd (sys_ftruncate fd len os))"
  "same_fds os (snd (sys_fchmod fd mode os))"
  "same_fds os (snd (sys_fchown fd uid gid os))"
  "same_fds os (snd (sys_encoded_write fd content off os))"
  by (auto simp: sys_mkdir_def sys_unlink_def sys_symlink_def sys_chmod_def sys_chown_def
      change_attrs_def sys_ftruncate_def sys_fchmod_def sys_fchown_def sys_encoded_write_def Let_def
      intro!: syscall_same_fds on_fd_same_fds fds_intros)
     (simp_all add: same_fds_def)

lemma sys_stat_isdir_same_fds [fds_intros]: "same_fds os (snd (sys_stat_isdir name os))"
  using syscall_same_fds[of "\<lambda>os. os" os]
  by (auto simp: sys_stat_isdir_def same_fds_def split: prod.splits option.splits)

lemma sys_pwrite_same_fds [fds_intros]: "same_fds os (snd (sys_pwrite fd data off os))"
  unfolding sys_pwrite_def
  by (rule on_fd_same_fds)
     (auto split: prod.splits answer.splits dest!: ask_visible visible_same_fds
       intro: same_fds_trans fds_intros)

lemma os_alloc_same_fds: "os_alloc os = (b, os') \<Longrightarrow> same_fds os os'"
  by (rule visible_same_fds) (rule os_alloc_visible)

lemma sys_open_cases:
  assumes "sys_open name mode os = (fd, os')"
  shows "fd < 0 \<and> same_fds os os' \<or>
         fd = os_next_fd os \<and> os_fds os' = (os_fds os)(fd := Some (resolve name)) \<and>
         os_next_fd os' = os_next_fd os + 1"
proof -
  obtain a os1 where ask: "ask os = (a, os1)" by (cases "ask os")
  then have "os_fds os1 = os_fds os" "os_next_fd os1 = os_next_fd os"
    by (metis ask_visible visible_eqD(2), metis ask_visible visible_eqD(3))
  then show ?thesis
    using assms ask
    by (cases a)
       (auto simp: sys_open_def Let_def set_node_def same_fds_def
         split: option.splits node.splits if_splits)
qed

end
