(* ===== verification/Btrfs_Writer.thy ===== *)
theory Btrfs_Writer
  imports Frame_Parser Posix
begin

text \<open>
  Writing one Zstandard frame to a file (\<open>src/downloader/btrfs_writer.c\<close>): the encoded write of
  Btrfs, and the fallback that decompresses the frame and writes its content. Messages on
  \<open>stderr\<close> and the profiling counters are left out.
\<close>

datatype btrfs_rc =
    BTRFS_WRITER_SUCCESS
  | BTRFS_WRITER_ERR_INVALID_ARGS
  | BTRFS_WRITER_ERR_NOT_BTRFS
  | BTRFS_WRITER_ERR_IOCTL_FAILED
  | BTRFS_WRITER_ERR_DECOMPRESS_FAILED
  | BTRFS_WRITER_ERR_WRITE_FAILED

definition MAX_EXTENT_SIZE :: nat where "MAX_EXTENT_SIZE = 128 * 1024"

text \<open>Lazy allocation of the thread-local decompression context and buffer.\<close>

definition ensure_dctx :: "os_state \<Rightarrow> bool \<times> os_state" where
  "ensure_dctx os =
     (if os_dctx os then (True, os)
      else case os_alloc os of (got, os1) \<Rightarrow> (got, os1\<lparr>os_dctx := got\<rparr>))"

definition ensure_dbuf :: "os_state \<Rightarrow> bool \<times> os_state" where
  "ensure_dbuf os =
     (if os_dbuf os then (True, os)
      else case os_alloc os of (got, os1) \<Rightarrow> (got, os1\<lparr>os_dbuf := got\<rparr>))"

definition do_write_unencoded ::
  "zstd_reader \<Rightarrow> int \<Rightarrow> bytes \<Rightarrow> u64 \<Rightarrow> u64 \<Rightarrow> os_state \<Rightarrow> btrfs_rc \<times> os_state" where
  "do_write_unencoded zr fd zframe uncompressed_len file_offset os =
     (if fd < 0 \<or> zframe = [] then (BTRFS_WRITER_ERR_INVALID_ARGS, os)
      else if unat uncompressed_len > MAX_EXTENT_SIZE then (BTRFS_WRITER_ERR_INVALID_ARGS, os)
      else
        case ensure_dctx os of (got1, os1) \<Rightarrow>
          if \<not> got1 then (BTRFS_WRITER_ERR_DECOMPRESS_FAILED, os1)
          else case ensure_dbuf os1 of (got2, os2) \<Rightarrow>
            if \<not> got2 then (BTRFS_WRITER_ERR_DECOMPRESS_FAILED, os2)
            else case zr_decompress zr MAX_EXTENT_SIZE zframe of
              None \<Rightarrow> (BTRFS_WRITER_ERR_DECOMPRESS_FAILED, os2)
            | Some data \<Rightarrow>
                (case sys_pwrite fd data file_offset os2 of (written, os3) \<Rightarrow>
                   if written < 0 then (BTRFS_WRITER_ERR_WRITE_FAILED, os3)
                   else if written \<noteq> int (length data) then (BTRFS_WRITER_ERR_WRITE_FAILED, os3)
                   else (BTRFS_WRITER_SUCCESS, os3)))"

definition do_write_encoded ::
  "zstd_reader \<Rightarrow> int \<Rightarrow> bytes \<Rightarrow> u64 \<Rightarrow> u64 \<Rightarrow> os_state \<Rightarrow> btrfs_rc \<times> os_state" where
  "do_write_encoded zr fd zframe uncompressed_len file_offset os =
     (if fd < 0 \<or> zframe = [] then (BTRFS_WRITER_ERR_INVALID_ARGS, os)
      else if length zframe \<ge> unat uncompressed_len
      then do_write_unencoded zr fd zframe uncompressed_len file_offset os
      else if unat uncompressed_len > MAX_EXTENT_SIZE then (BTRFS_WRITER_ERR_INVALID_ARGS, os)
      else
        case sys_encoded_write fd (zr_btrfs_read zr zframe (unat uncompressed_len)) file_offset os of
          (None, os1) \<Rightarrow> (BTRFS_WRITER_SUCCESS, os1)
        | (Some e, os1) \<Rightarrow>
            if e = ENOTTY \<or> e = EOPNOTSUPP
            then do_write_unencoded zr fd zframe uncompressed_len file_offset os1
            else (BTRFS_WRITER_ERR_IOCTL_FAILED, os1))"

section \<open>A frame is written at its offset\<close>

text \<open>\<open>frame\<close> is a Zstandard frame of \<open>chunk\<close>: it is found, it decompresses to \<open>chunk\<close>, and Btrfs
  reads an extent stored from it as \<open>chunk\<close>.\<close>

definition zstd_holds :: "zstd_reader \<Rightarrow> bytes \<Rightarrow> bytes \<Rightarrow> bool" where
  "zstd_holds zr chunk frame \<longleftrightarrow>
     zstd_frame zr chunk frame \<and> length chunk \<le> MAX_EXTENT_SIZE \<and>
     zr_decompress zr MAX_EXTENT_SIZE frame = Some chunk \<and>
     zr_btrfs_read zr frame (length chunk) = chunk"

lemma ensure_visible:
  "ensure_dctx os = (b, os') \<Longrightarrow> visible os' = visible os"
  "ensure_dbuf os = (b, os') \<Longrightarrow> visible os' = visible os"
  by (auto simp: ensure_dctx_def ensure_dbuf_def visible_def os_alloc_def
      split: if_splits prod.splits list.splits)

lemma sys_pwrite_all:
  assumes "sys_pwrite fd data off os = (int (length data), os')" and "os_fds os fd = Some p"
  shows "visible os' = set_content p (\<lambda>c. overwrite c (unat off) data) (visible os)"
  using assms
  by (auto simp: sys_pwrite_def on_fd_def dest: ask_visible split: if_splits prod.splits answer.splits)

lemma do_write_unencoded_success:
  assumes "do_write_unencoded zr fd frame len off os = (BTRFS_WRITER_SUCCESS, os')"
    and "os_fds os fd = Some p" and "zr_decompress zr MAX_EXTENT_SIZE frame = Some chunk"
  shows "visible os' = set_content p (\<lambda>c. overwrite c (unat off) chunk) (visible os)"
proof -
  from assms(1,3) obtain os1 os2 where
    "ensure_dctx os = (True, os1)" "ensure_dbuf os1 = (True, os2)"
    "sys_pwrite fd chunk off os2 = (int (length chunk), os')"
    by (auto simp: do_write_unencoded_def split: if_splits prod.splits option.splits)
  moreover from this have "visible os2 = visible os"
    by (metis ensure_visible)
  ultimately show ?thesis
    using sys_pwrite_all[of fd chunk off os2 os' p] assms(2) by (metis visible_eqD(2))
qed

text \<open>A failed system call or an exhausted memory is reported and the file keeps its content, except
  after a short write.\<close>

lemma sys_encoded_write_cases:
  assumes "sys_encoded_write fd content off os = (r, os')" and "os_fds os fd = Some p"
  shows "r = None \<and> visible os' = set_content p (\<lambda>c. overwrite c (unat off) content) (visible os)
       \<or> r \<noteq> None \<and> visible os' = visible os"
  using assms
  by (cases r) (auto simp: sys_encoded_write_def on_fd_def split: if_splits
      dest: syscall_failed syscall_done)

lemma do_write_encoded_success:
  assumes "do_write_encoded zr fd frame (of_nat (length chunk)) off os = (BTRFS_WRITER_SUCCESS, os')"
    and "os_fds os fd = Some p" and "zstd_holds zr chunk frame"
  shows "visible os' = set_content p (\<lambda>c. overwrite c (unat off) chunk) (visible os)"
proof -
  let ?w = "sys_encoded_write fd (zr_btrfs_read zr frame (length chunk)) off os"
  have len: "unat (of_nat (length chunk) :: u64) = length chunk"
    using assms(3) by (simp add: zstd_holds_def MAX_EXTENT_SIZE_def unat_of_nat)
  have read: "zr_btrfs_read zr frame (length chunk) = chunk"
    and dec: "zr_decompress zr MAX_EXTENT_SIZE frame = Some chunk"
    using assms(3) by (simp_all add: zstd_holds_def)
  consider (enc) "fst ?w = None" "os' = snd ?w"
    | (plain) "do_write_unencoded zr fd frame (of_nat (length chunk)) off os = (BTRFS_WRITER_SUCCESS, os')"
    | (fall) "fst ?w \<noteq> None"
        "do_write_unencoded zr fd frame (of_nat (length chunk)) off (snd ?w) = (BTRFS_WRITER_SUCCESS, os')"
    using assms(1) by (fastforce simp: do_write_encoded_def len split: if_splits prod.splits option.splits)
  then show ?thesis
  proof cases
    case enc
    then show ?thesis
      using sys_encoded_write_cases[OF prod.collapse[symmetric] assms(2), of chunk off]
      by (auto simp: read)
  next
    case plain
    then show ?thesis using do_write_unencoded_success assms(2) dec by blast
  next
    case fall
    then have v: "visible (snd ?w) = visible os"
      using sys_encoded_write_cases[OF prod.collapse[symmetric] assms(2), of chunk off]
      by (auto simp: read)
    then have "os_fds (snd ?w) fd = Some p" using assms(2) by (metis visible_eqD(2))
    then show ?thesis using do_write_unencoded_success[OF fall(2) _ dec] v by simp
  qed
qed

lemma do_write_encoded_total:
  assumes "quiet os" and "0 \<le> fd" and "os_fds os fd = Some p" and "zstd_holds zr chunk frame"
    and "0 \<le> sint off"
  shows "\<exists>os'. do_write_encoded zr fd frame (of_nat (length chunk)) off os = (BTRFS_WRITER_SUCCESS, os')
               \<and> quiet os'"
proof -
  have len: "unat (of_nat (length chunk) :: u64) = length chunk"
    using assms(4) by (simp add: zstd_holds_def MAX_EXTENT_SIZE_def unat_of_nat)
  have facts: "length chunk \<le> MAX_EXTENT_SIZE" "zr_decompress zr MAX_EXTENT_SIZE frame = Some chunk"
    "frame \<noteq> []"
    using assms(4) by (auto simp: zstd_holds_def zstd_frame_def)
  have q: "quiet (os\<lparr>os_dctx := x, os_dbuf := y\<rparr>)" "quiet (os\<lparr>os_dctx := x\<rparr>)" "quiet (os\<lparr>os_dbuf := y\<rparr>)"
    for x y using assms(1) by (simp_all add: quiet_def)
  show ?thesis
    using assms facts q
    by (auto simp: do_write_encoded_def do_write_unencoded_def len ensure_dctx_def ensure_dbuf_def
        sys_pwrite_def sys_encoded_write_def on_fd_def)
qed

end
