(* ===== verification/Part_Map.thy ===== *)
theory Part_Map
  imports Central_Dir_Parser Alignment "HOL-Library.Multiset"
begin

text \<open>
  The part map (\<open>build_part_map\<close>) and the entry points of the central directory parser
  (\<open>central_dir_parse\<close>, \<open>central_dir_parse_from_cd_buffer\<close>, \<open>central_dir_parse_partial\<close> of
  \<open>src/downloader/central_dir_parser.c\<close>).

  The order that \<open>qsort\<close> gives to equal elements is not specified in C, so it is an argument; what
  the C standard says of it is the locale \<open>c_qsort\<close>. A pointer into \<open>files\<close> is an index.
\<close>

section \<open>The part map\<close>

record part_file_entry =
  pe_file_index :: nat
  pe_offset_in_part :: u64

record part_files =
  pf_entries :: "part_file_entry list"
  pf_continuing_file :: "nat option"

type_synonym qsort_fun =
  "(part_file_entry \<Rightarrow> part_file_entry \<Rightarrow> int) \<Rightarrow> part_file_entry list \<Rightarrow> part_file_entry list"

definition compare_part_file_entries :: "part_file_entry \<Rightarrow> part_file_entry \<Rightarrow> int" where
  "compare_part_file_entries a b =
     (if pe_offset_in_part a < pe_offset_in_part b then -1
      else if pe_offset_in_part a > pe_offset_in_part b then 1 else 0)"

text \<open>First pass: the number of files that start in each part.\<close>

fun count_pass :: "file_metadata list \<Rightarrow> nat list \<Rightarrow> nat list" where
  "count_pass [] counts = counts"
| "count_pass (f # fs) counts =
     (let part_idx = unat (fm_part_index f)
      in count_pass fs
           (if part_idx < length counts then counts[part_idx := counts ! part_idx + 1] else counts))"

text \<open>Allocation of the entry arrays: one per part with files, until one fails.\<close>

fun alloc_entries :: "bool list \<Rightarrow> nat list \<Rightarrow> bool" where
  "alloc_entries al [] = True"
| "alloc_entries al (c # cs) =
     (if c > 0 then fst (next_alloc al) \<and> alloc_entries (snd (next_alloc al)) cs
      else alloc_entries al cs)"

text \<open>Second pass: \<open>entries[counts[part_idx]++] = \<dots>\<close>, with the entry arrays as lists.\<close>

fun fill_pass ::
  "u64 \<Rightarrow> nat \<Rightarrow> file_metadata list \<Rightarrow> part_file_entry list list \<Rightarrow> part_file_entry list list" where
  "fill_pass part_len i [] arrays = arrays"
| "fill_pass part_len i (f # fs) arrays =
     (let part_idx = unat (fm_part_index f);
          entry = \<lparr>pe_file_index = i, pe_offset_in_part = fm_local_header_offset f mod part_len\<rparr>
      in fill_pass part_len (i + 1) fs
           (if part_idx < length arrays then arrays[part_idx := arrays ! part_idx @ [entry]] else arrays))"

definition sort_entries :: "qsort_fun \<Rightarrow> part_file_entry list \<Rightarrow> part_file_entry list" where
  "sort_entries qs es = (if length es > 1 then qs compare_part_file_entries es else es)"

text \<open>The first file whose estimated extent reaches over the start of the part.\<close>

definition spans :: "u64 \<Rightarrow> file_metadata \<Rightarrow> bool" where
  "spans part_start f \<longleftrightarrow>
     (let file_start = fm_local_header_offset f;
          file_data_end = file_start + 30 + fm_compressed_size f + 16
      in file_start < part_start \<and> file_data_end > part_start)"

fun find_spanning :: "u64 \<Rightarrow> nat \<Rightarrow> file_metadata list \<Rightarrow> nat option" where
  "find_spanning part_start i [] = None"
| "find_spanning part_start i (f # fs) =
     (if spans part_start f then Some i else find_spanning part_start (i + 1) fs)"

definition continuing_file_of :: "file_metadata list \<Rightarrow> u64 \<Rightarrow> nat \<Rightarrow> nat option" where
  "continuing_file_of fs part_len part_idx =
     (if part_idx = 0 then None else find_spanning (of_nat part_idx * part_len) 0 fs)"

definition number_of_parts :: "u64 \<Rightarrow> u64 \<Rightarrow> nat" where
  "number_of_parts archive_len part_len =
     (let num_parts = unat ((archive_len + part_len - 1) div part_len)
      in if num_parts = 0 then 1 else num_parts)"

definition build_part_map ::
  "qsort_fun \<Rightarrow> bool list \<Rightarrow> file_metadata list \<Rightarrow> u64 \<Rightarrow> u64
     \<Rightarrow> (cd_error, part_files list) outcome" where
  "build_part_map qs al fs archive_len part_len =
     (if part_len = 0 then Fault
      else
        let num_parts = number_of_parts archive_len part_len;
            al1 = snd (next_alloc al); al2 = snd (next_alloc al1);
            counts = count_pass fs (replicate num_parts 0)
        in if \<not> fst (next_alloc al) then Error ERR_MEMORY
           else if \<not> fst (next_alloc al1) then Error ERR_MEMORY
           else if \<not> alloc_entries al2 counts then Error ERR_MEMORY
           else
             let arrays = map (sort_entries qs) (fill_pass part_len 0 fs (replicate num_parts []))
             in Ok (map (\<lambda>p. \<lparr>pf_entries = arrays ! p,
                              pf_continuing_file = continuing_file_of fs part_len p\<rparr>)
                      [0..<num_parts]))"

section \<open>Entry points\<close>

record central_dir_parse_result =
  cp_files :: "file_metadata list"
  cp_parts :: "part_files list"
  cp_central_dir_offset :: u64
  cp_central_dir_size :: u64
  cp_is_zip64 :: bool

text \<open>The two allocation plans are those of \<open>parse_central_directory\<close> and of \<open>build_part_map\<close>.\<close>

type_synonym alloc_plan = "bool list \<times> bool list"

definition central_dir_parse_from_cd_buffer ::
  "qsort_fun \<Rightarrow> alloc_plan \<Rightarrow> bytes \<Rightarrow> u64 \<Rightarrow> u64 \<Rightarrow> u64 \<Rightarrow> u64 \<Rightarrow> bool
     \<Rightarrow> (cd_error, central_dir_parse_result) outcome" where
  "central_dir_parse_from_cd_buffer qs plan cd_buffer cd_offset cd_size archive_len part_len is_zip64 =
     (if length cd_buffer = 0 then Error ERR_INVALID_BUFFER
      else if of_nat (length cd_buffer) < cd_size then Error ERR_TRUNCATED
      else
        let estimated_entries = (if cd_size div 46 = 0 then 1 else cd_size div 46)
        in bind_outcome (parse_central_directory (fst plan) cd_buffer cd_offset cd_offset
                           estimated_entries cd_size part_len) (\<lambda>fs.
           bind_outcome (build_part_map qs (snd plan) fs archive_len part_len) (\<lambda>ps.
             Ok \<lparr>cp_files = fs, cp_parts = ps, cp_central_dir_offset = cd_offset,
                 cp_central_dir_size = cd_size, cp_is_zip64 = is_zip64\<rparr>)))"

definition central_dir_parse ::
  "qsort_fun \<Rightarrow> alloc_plan \<Rightarrow> bytes \<Rightarrow> u64 \<Rightarrow> u64 \<Rightarrow> (cd_error, central_dir_parse_result) outcome" where
  "central_dir_parse qs plan buffer archive_len part_len =
     (if length buffer = 0 then Error ERR_INVALID_BUFFER
      else
        bind_outcome (central_dir_parse_eocd_only buffer archive_len False) (\<lambda>info.
          let cd_offset = eo_central_dir_offset info;
              buffer_start = archive_len - of_nat (length buffer)
          in if cd_offset < buffer_start then Error ERR_TRUNCATED
             else if unat (cd_offset - buffer_start) > length buffer then Fault
             else
               central_dir_parse_from_cd_buffer qs plan (drop (unat (cd_offset - buffer_start)) buffer)
                 cd_offset (eo_central_dir_size info) archive_len part_len (eo_is_zip64 info)))"

definition BURST_BASE_PART_SIZE :: u64 where
  "BURST_BASE_PART_SIZE = 8 * 1024 * 1024"

definition central_dir_parse_partial ::
  "qsort_fun \<Rightarrow> alloc_plan \<Rightarrow> bytes \<Rightarrow> u64 \<Rightarrow> u64 \<Rightarrow> u32 \<Rightarrow> u64 \<Rightarrow> u64 \<Rightarrow> bool
     \<Rightarrow> (cd_error, central_dir_parse_result) outcome" where
  "central_dir_parse_partial qs plan buffer buffer_start_offset central_dir_offset first_cdfh_offset
       archive_len part_len is_zip64 =
     (if length buffer = 0 then Error ERR_INVALID_BUFFER
      else if part_len < BURST_BASE_PART_SIZE \<or> part_len mod BURST_BASE_PART_SIZE \<noteq> 0
      then Error ERR_INVALID_BUFFER
      else if unat first_cdfh_offset \<ge> length buffer then Error ERR_TRUNCATED
      else
        let cd_available = length buffer - unat first_cdfh_offset
        in bind_outcome
             (central_dir_parse_from_cd_buffer qs plan (drop (unat first_cdfh_offset) buffer)
                (buffer_start_offset + ucast first_cdfh_offset) (of_nat cd_available)
                archive_len part_len is_zip64)
             (\<lambda>r. Ok (r\<lparr>cp_central_dir_offset := central_dir_offset\<rparr>)))"

section \<open>The interface of qsort\<close>

locale c_qsort =
  fixes qs :: "('a \<Rightarrow> 'a \<Rightarrow> int) \<Rightarrow> 'a list \<Rightarrow> 'a list"
    and cmp :: "'a \<Rightarrow> 'a \<Rightarrow> int"
    and key :: "'a \<Rightarrow> 'k::linorder"
  assumes qs_perm: "mset (qs cmp xs) = mset xs"
    and qs_sorted: "sorted_wrt (\<lambda>a b. cmp a b \<le> 0) (qs cmp xs)"
    and cmp_key: "cmp a b \<le> 0 \<longleftrightarrow> key a \<le> key b"
begin

lemma qs_length: "length (qs cmp xs) = length xs"
  using qs_perm mset_eq_length by blast

lemma qs_sorted_key: "sorted (map key (qs cmp xs))"
  using qs_sorted[of xs] by (simp add: sorted_map sorted_wrt_iff_nth_less cmp_key)

lemma qs_set: "set (qs cmp xs) = set xs"
  using qs_perm mset_eq_setD by blast

end

lemma compare_key:
  "compare_part_file_entries a b \<le> 0 \<longleftrightarrow> pe_offset_in_part a \<le> pe_offset_in_part b"
  by (auto simp: compare_part_file_entries_def)

text \<open>A stable sort, as the C libraries that use a merge sort have it.\<close>

definition stable_qsort :: qsort_fun where
  "stable_qsort cmp es = sort_key pe_offset_in_part es"

interpretation stable: c_qsort stable_qsort compare_part_file_entries pe_offset_in_part
proof
  show "mset (stable_qsort compare_part_file_entries xs) = mset xs" for xs
    by (simp add: stable_qsort_def)
  show "sorted_wrt (\<lambda>a b. compare_part_file_entries a b \<le> 0)
      (stable_qsort compare_part_file_entries xs)" for xs
    using sorted_sort_key[of pe_offset_in_part xs]
    by (simp add: stable_qsort_def compare_key sorted_map)
  show "compare_part_file_entries a b \<le> 0 \<longleftrightarrow> pe_offset_in_part a \<le> pe_offset_in_part b" for a b
    by (rule compare_key)
qed

abbreviation qsort_ok :: "qsort_fun \<Rightarrow> bool" where
  "qsort_ok qs \<equiv> c_qsort qs compare_part_file_entries pe_offset_in_part"

section \<open>Correctness of the part map\<close>

text \<open>The entries of part \<open>p\<close> in directory order.\<close>

definition entries_of :: "u64 \<Rightarrow> nat \<Rightarrow> file_metadata list \<Rightarrow> nat \<Rightarrow> part_file_entry list" where
  "entries_of part_len i fs p =
     map (\<lambda>(k, f). \<lparr>pe_file_index = k, pe_offset_in_part = fm_local_header_offset f mod part_len\<rparr>)
       (filter (\<lambda>(k, f). unat (fm_part_index f) = p) (enumerate i fs))"

lemma length_count_pass [simp]: "length (count_pass fs counts) = length counts"
  by (induction fs counts rule: count_pass.induct) (auto simp: Let_def)

lemma length_fill_pass [simp]: "length (fill_pass n i fs arrays) = length arrays"
  by (induction n i fs arrays rule: fill_pass.induct) (auto simp: Let_def)

lemma fill_pass_nth:
  "p < length arrays \<Longrightarrow> fill_pass part_len i fs arrays ! p = arrays ! p @ entries_of part_len i fs p"
proof (induction fs arbitrary: i arrays)
  case Nil
  then show ?case by (simp add: entries_of_def)
next
  case (Cons f fs)
  then show ?case by (auto simp: Let_def entries_of_def nth_list_update)
qed

lemma count_pass_nth:
  "p < length counts \<Longrightarrow> count_pass fs counts ! p = counts ! p + length (entries_of part_len i fs p)"
proof (induction fs arbitrary: i counts)
  case Nil
  then show ?case by (simp add: entries_of_def)
next
  case (Cons f fs)
  from Cons.IH[of "if unat (fm_part_index f) < length counts
      then counts[unat (fm_part_index f) := counts ! unat (fm_part_index f) + 1] else counts" "i + 1"]
    Cons.prems
  show ?case by (auto simp: Let_def entries_of_def nth_list_update)
qed

lemma find_spanning_Some:
  "find_spanning s i fs = Some k \<longleftrightarrow>
   i \<le> k \<and> k < i + length fs \<and> spans s (fs ! (k - i)) \<and> (\<forall>j < k - i. \<not> spans s (fs ! j))"
proof (induction fs arbitrary: i)
  case Nil
  then show ?case by auto
next
  case (Cons f fs)
  show ?case
  proof (cases "spans s f")
    case True
    then show ?thesis by (auto simp: nth_Cons')
  next
    case False
    have "(\<forall>j < k - Suc i. \<not> spans s (fs ! j)) = (\<forall>j < k - i. \<not> spans s ((f # fs) ! j))" if "Suc i \<le> k"
      using that False by (auto simp: nth_Cons' less_diff_conv)
    with False Cons[of "Suc i"] show ?thesis
      by (auto simp: nth_Cons' Suc_le_eq)
  qed
qed

lemma find_spanning_None: "find_spanning s i fs = None \<longleftrightarrow> (\<forall>f \<in> set fs. \<not> spans s f)"
  by (induction fs arbitrary: i) auto

lemma sort_entries_props:
  assumes "qsort_ok qs"
  shows "mset (sort_entries qs es) = mset es" and "sorted (map pe_offset_in_part (sort_entries qs es))"
proof -
  note q = c_qsort.qs_perm[OF assms] c_qsort.qs_sorted_key[OF assms]
  show "mset (sort_entries qs es) = mset es" using q by (simp add: sort_entries_def)
  have "sorted (map pe_offset_in_part es)" if "\<not> 1 < length es"
    using that by (cases es) auto
  then show "sorted (map pe_offset_in_part (sort_entries qs es))" using q by (simp add: sort_entries_def)
qed

lemma build_part_map_Ok:
  assumes "build_part_map qs al fs archive_len part_len = Ok ps"
  shows "length ps = number_of_parts archive_len part_len" and "part_len \<noteq> 0"
    and "p < length ps \<Longrightarrow> ps ! p = \<lparr>pf_entries = sort_entries qs (entries_of part_len 0 fs p),
           pf_continuing_file = continuing_file_of fs part_len p\<rparr>"
  using assms
  by (auto simp: build_part_map_def Let_def fill_pass_nth split: if_splits)

lemma build_part_map_returns:
  assumes "part_len \<noteq> 0"
  shows "\<exists>ps. build_part_map qs [] fs archive_len part_len = Ok ps"
proof -
  have "alloc_entries [] cs" for cs by (induction cs) auto
  then show ?thesis using assms by (simp add: build_part_map_def Let_def)
qed

lemma entries_of_set:
  "e \<in> set (entries_of part_len 0 fs p) \<longleftrightarrow>
   pe_file_index e < length fs \<and> unat (fm_part_index (fs ! pe_file_index e)) = p \<and>
   pe_offset_in_part e = fm_local_header_offset (fs ! pe_file_index e) mod part_len"
  by (cases e) (auto simp: entries_of_def in_set_enumerate_eq image_iff)

lemma entries_of_distinct: "distinct (map pe_file_index (entries_of part_len i fs p))"
proof -
  have "map pe_file_index (entries_of part_len i fs p) =
    map fst (filter (\<lambda>(k, f). unat (fm_part_index f) = p) (enumerate i fs))"
    by (simp add: entries_of_def case_prod_unfold)
  then show ?thesis
    by (simp add: distinct_map_filter)
qed

section \<open>Properties\<close>

text \<open>The part index that the parser stores.\<close>

definition part_indices_ok :: "u64 \<Rightarrow> file_metadata list \<Rightarrow> bool" where
  "part_indices_ok part_len fs \<longleftrightarrow>
     (\<forall>f \<in> set fs. fm_part_index f = ucast (fm_local_header_offset f div part_len))"

text \<open>C13: the part map. Each part lists exactly the files whose header starts in it (each once, with
  the offset of the header in the part), sorted by offset; the array of a part is as large as the
  first pass counted; the continuing file of a part is the first file whose estimated extent
  reaches over the start of the part.\<close>

theorem build_part_map_correct:
  assumes "qsort_ok qs" and "build_part_map qs al fs archive_len part_len = Ok ps"
    and "p < length ps"
  shows "distinct (map pe_file_index (pf_entries (ps ! p)))
       \<and> (\<forall>e. e \<in> set (pf_entries (ps ! p)) \<longleftrightarrow>
            pe_file_index e < length fs \<and> unat (fm_part_index (fs ! pe_file_index e)) = p \<and>
            pe_offset_in_part e = fm_local_header_offset (fs ! pe_file_index e) mod part_len)
       \<and> sorted (map pe_offset_in_part (pf_entries (ps ! p)))
       \<and> length (pf_entries (ps ! p))
           = count_pass fs (replicate (number_of_parts archive_len part_len) 0) ! p
       \<and> (p \<noteq> 0 \<longrightarrow>
            (case pf_continuing_file (ps ! p) of
               None \<Rightarrow> \<forall>f \<in> set fs. \<not> spans (of_nat p * part_len) f
             | Some k \<Rightarrow> k < length fs \<and> spans (of_nat p * part_len) (fs ! k)
                         \<and> (\<forall>j < k. \<not> spans (of_nat p * part_len) (fs ! j))))"
proof -
  note b = build_part_map_Ok[OF assms(2)]
  have ps: "ps ! p = \<lparr>pf_entries = sort_entries qs (entries_of part_len 0 fs p),
           pf_continuing_file = continuing_file_of fs part_len p\<rparr>" using b(3)[OF assms(3)] .
  note srt = sort_entries_props[OF assms(1), of "entries_of part_len 0 fs p"]
  have "mset (map pe_file_index (pf_entries (ps ! p))) = mset (map pe_file_index (entries_of part_len 0 fs p))"
    using srt(1) ps by simp
  then have dis: "distinct (map pe_file_index (pf_entries (ps ! p)))"
    using entries_of_distinct mset_eq_imp_distinct_iff by blast
  have set_eq: "set (pf_entries (ps ! p)) = set (entries_of part_len 0 fs p)"
    using mset_eq_setD[OF srt(1)] ps by simp
  have "length (pf_entries (ps ! p)) = length (entries_of part_len 0 fs p)"
    using mset_eq_length[OF srt(1)] ps by simp
  moreover have "count_pass fs (replicate (number_of_parts archive_len part_len) 0) ! p
      = length (entries_of part_len 0 fs p)"
    using count_pass_nth[of p "replicate (number_of_parts archive_len part_len) 0" fs part_len 0]
      assms(3) b(1) by simp
  ultimately have cnt: "length (pf_entries (ps ! p))
      = count_pass fs (replicate (number_of_parts archive_len part_len) 0) ! p" by simp
  have cont: "case pf_continuing_file (ps ! p) of
       None \<Rightarrow> \<forall>f \<in> set fs. \<not> spans (of_nat p * part_len) f
     | Some k \<Rightarrow> k < length fs \<and> spans (of_nat p * part_len) (fs ! k)
                 \<and> (\<forall>j < k. \<not> spans (of_nat p * part_len) (fs ! j))" if "p \<noteq> 0"
    using that find_spanning_Some[of "of_nat p * part_len" 0 fs]
      find_spanning_None[of "of_nat p * part_len" 0 fs]
    by (simp add: ps continuing_file_of_def split: option.splits)
  have srt2: "sorted (map pe_offset_in_part (pf_entries (ps ! p)))" using srt(2) ps by simp
  show ?thesis
    unfolding set_eq entries_of_set using dis srt2 cnt cont by blast
qed

definition demo_metadata :: "u64 \<Rightarrow> u64 \<Rightarrow> file_metadata" where
  "demo_metadata off csize =
     \<lparr>fm_filename = [97], fm_local_header_offset = off, fm_compressed_size = csize,
      fm_uncompressed_size = 10, fm_crc32 = 0, fm_compression_method = 93,
      fm_part_index = ucast (off div 8388608), fm_unix_mode = 0, fm_uid = 0, fm_gid = 0,
      fm_has_unix_mode = False, fm_has_unix_extra = False, fm_is_symlink = False,
      fm_uses_zip64_descriptor = False\<rparr>"

theorem build_part_map_correct_witness:
  "\<exists>ps. build_part_map stable_qsort [] [demo_metadata 100 9000000, demo_metadata 9000200 5] 9001000 8388608 = Ok ps
     \<and> length ps = 2 \<and> pf_continuing_file (ps ! 1) = Some 0
     \<and> (\<forall>e. e \<in> set (pf_entries (ps ! 1)) \<longleftrightarrow> e = \<lparr>pe_file_index = 1, pe_offset_in_part = 611592\<rparr>)"
proof -
  let ?fs = "[demo_metadata 100 9000000, demo_metadata 9000200 5]"
  obtain ps where ps: "build_part_map stable_qsort [] ?fs 9001000 8388608 = Ok ps"
    using build_part_map_returns[of 8388608 stable_qsort ?fs 9001000] by auto
  have n: "number_of_parts 9001000 8388608 = 2" by (simp add: number_of_parts_def)
  then have l: "length ps = 2" using build_part_map_Ok(1)[OF ps] by simp
  then have "1 < length ps" by simp
  note t = build_part_map_correct[OF stable.c_qsort_axioms ps this]
  have sp: "spans 8388608 (demo_metadata 100 9000000)" by (simp add: spans_def demo_metadata_def)
  have "pf_continuing_file (ps ! 1) = Some 0"
    using t sp by (auto split: option.splits)
  moreover have "\<forall>e. e \<in> set (pf_entries (ps ! 1)) \<longleftrightarrow> e = \<lparr>pe_file_index = 1, pe_offset_in_part = 611592\<rparr>"
  proof
    fix e
    have "e \<in> set (pf_entries (ps ! 1)) \<longleftrightarrow> pe_file_index e < 2 \<and>
       unat (fm_part_index (?fs ! pe_file_index e)) = 1 \<and>
       pe_offset_in_part e = fm_local_header_offset (?fs ! pe_file_index e) mod 8388608"
      using t[THEN conjunct2, THEN conjunct1, THEN spec, of e]
      by (simp only: list.size One_nat_def add_Suc_right add_0_right numeral_2_eq_2)
    moreover have "pe_file_index e < 2 \<longleftrightarrow> pe_file_index e = 0 \<or> pe_file_index e = 1" by auto
    ultimately show "e \<in> set (pf_entries (ps ! 1)) \<longleftrightarrow> e = \<lparr>pe_file_index = 1, pe_offset_in_part = 611592\<rparr>"
      by (cases e) (auto simp: demo_metadata_def)
  qed
  ultimately show ?thesis using ps l by blast
qed

end
