(* ===== verification/Stream_Processor.thy ===== *)
theory Stream_Processor
  imports Btrfs_Writer Part_Map
begin

text \<open>
  The part processor of the downloader (\<open>src/downloader/stream_processor.c\<close>): a state machine that
  receives the bytes of one part in pieces, recognises frames and headers, and recreates files,
  directories and symbolic links.

  \<^item> The state record has the fields of \<open>struct part_processor_state\<close>; the used part of the frame
    buffer is a list. \<open>ps_os\<close> threads the state of the operating system through the calls.
    \<open>error_message\<close>, warnings on \<open>stderr\<close> and profiling are left out.
  \<^item> An access outside an allocated object is the value \<open>None\<close> of a handler, \<open>Out_of_bounds\<close> of a
    step and \<open>Crash\<close> of the whole call.
  \<^item> One iteration of the loop is \<open>process_step\<close>. The loop itself may run forever (a frame of
    length zero), so \<open>process_loop\<close> is a partial function: \<open>None\<close> means that it does not return.
  \<^item> Pointers are never NULL in the model, except \<open>current_file\<close> and \<open>symlink_buffer\<close>.
\<close>

section \<open>State\<close>

datatype processor_state =
    STATE_INIT
  | STATE_CONTINUING_FILE
  | STATE_EXPECT_LOCAL_HEADER
  | STATE_PROCESSING_FRAMES
  | STATE_READING_SYMLINK
  | STATE_DONE
  | STATE_ERROR

text \<open>\<open>fc_symlink_buffer\<close> holds the bytes copied so far, so \<open>symlink_bytes_read\<close> is its length.\<close>

record file_context =
  fc_filename :: bytes
  fc_fd :: int
  fc_uncompressed_offset :: u64
  fc_expected_total_size :: u64
  fc_expected_crc32 :: u32
  fc_unix_mode :: u32
  fc_uid :: u32
  fc_gid :: u32
  fc_has_unix_mode :: bool
  fc_has_unix_extra :: bool
  fc_is_symlink :: bool
  fc_is_directory :: bool
  fc_symlink_buffer :: "bytes option"
  fc_symlink_buffer_size :: size_t
  fc_uses_zip64_descriptor :: bool

record part_processor_state =
  ps_part_index :: u32
  ps_part_size :: u64
  ps_part_start_offset :: u64
  ps_cd_result :: central_dir_parse_result
  ps_output_dir :: bytes
  ps_current_file :: "file_context option"
  ps_frame_buffer :: bytes
  ps_frame_buffer_capacity :: nat
  ps_next_entry_idx :: nat
  ps_bytes_processed :: u64
  ps_state :: processor_state
  ps_error_code :: stream_rc
  ps_os :: os_state

definition INITIAL_FRAME_BUFFER_CAPACITY :: nat where
  "INITIAL_FRAME_BUFFER_CAPACITY = 256 * 1024"

definition BURST_BASE_ALIGNMENT :: u64 where
  "BURST_BASE_ALIGNMENT = 8 * 1024 * 1024"

definition part_processor_create ::
  "u32 \<Rightarrow> central_dir_parse_result \<Rightarrow> bytes \<Rightarrow> u64 \<Rightarrow> os_state
     \<Rightarrow> part_processor_state option \<times> os_state" where
  "part_processor_create part_index cd_result output_dir part_size os =
     (if unat part_index \<ge> length (cp_parts cd_result) then (None, os)
      else case os_alloc os of (got1, os1) \<Rightarrow>
        if \<not> got1 then (None, os1)
        else case os_alloc os1 of (got2, os2) \<Rightarrow>
          if \<not> got2 then (None, os2)
          else (Some
            \<lparr>ps_part_index = part_index, ps_part_size = part_size,
             ps_part_start_offset = ucast part_index * part_size,
             ps_cd_result = cd_result, ps_output_dir = output_dir,
             ps_current_file = None, ps_frame_buffer = [],
             ps_frame_buffer_capacity = INITIAL_FRAME_BUFFER_CAPACITY,
             ps_next_entry_idx = 0, ps_bytes_processed = 0, ps_state = STATE_INIT,
             ps_error_code = STREAM_PROC_SUCCESS, ps_os = os2\<rparr>, os2))"

definition part_processor_destroy :: "part_processor_state \<Rightarrow> os_state" where
  "part_processor_destroy st =
     (case ps_current_file st of
        Some fc \<Rightarrow> if fc_fd fc \<ge> 0 then sys_close (fc_fd fc) (ps_os st) else ps_os st
      | None \<Rightarrow> ps_os st)"

text \<open>\<open>state->state = STATE_ERROR; state->error_code = rc; return rc;\<close>\<close>

definition fail :: "stream_rc \<Rightarrow> part_processor_state \<Rightarrow> stream_rc \<times> part_processor_state" where
  "fail rc st = (rc, st\<lparr>ps_state := STATE_ERROR, ps_error_code := rc\<rparr>)"

text \<open>\<open>rc = f(state); if (rc != STREAM_PROC_SUCCESS) return rc; \<dots>\<close>\<close>

definition proceed ::
  "(stream_rc \<times> 's) option \<Rightarrow> ('s \<Rightarrow> (stream_rc \<times> 's) option) \<Rightarrow> (stream_rc \<times> 's) option" where
  "proceed r f =
     (case r of
        None \<Rightarrow> None
      | Some (rc, s) \<Rightarrow> if rc \<noteq> STREAM_PROC_SUCCESS then Some (rc, s) else f s)"

abbreviation this_part :: "part_processor_state \<Rightarrow> part_files" where
  "this_part st \<equiv> cp_parts (ps_cd_result st) ! unat (ps_part_index st)"

section \<open>Directories\<close>

text \<open>One \<open>mkdir\<close> of \<open>ensure_directory_exists\<close> with the check after a failure.\<close>

definition mkdir_or_exists :: "bytes \<Rightarrow> os_state \<Rightarrow> bool \<times> os_state" where
  "mkdir_or_exists name os =
     (case sys_mkdir name 0x1ED os of
        (None, os1) \<Rightarrow> (True, os1)
      | (Some e, os1) \<Rightarrow> if e = EEXIST then (True, os1) else sys_stat_isdir name os1)"

text \<open>The loop: \<open>pre\<close> is the part of \<open>dir\<close> before the pointer \<open>p\<close>, \<open>rest\<close> the part from \<open>p\<close> on.\<close>

function mkdir_loop :: "bytes \<Rightarrow> bytes \<Rightarrow> os_state \<Rightarrow> int \<times> os_state" where
  "mkdir_loop pre rest os =
     (if rest = [] then (0, os)
      else
        let component = takeWhile (\<lambda>b. b \<noteq> slash) rest;
            from_slash = dropWhile (\<lambda>b. b \<noteq> slash) rest
        in case mkdir_or_exists (pre @ component) os of (ok, os1) \<Rightarrow>
             if \<not> ok then (-1, os1)
             else if from_slash = [] then (0, os1)
             else mkdir_loop (pre @ component @ [slash]) (tl from_slash) os1)"
  by pat_completeness auto
termination
proof (relation "measure (\<lambda>(pre, rest, os). length rest)", goal_cases)
  case 1
  then show ?case by simp
next
  case (2 pre rest os component from_slash x os1)
  have "length from_slash \<le> length rest" unfolding 2 by (rule length_dropWhile_le)
  moreover have "from_slash \<noteq> []" using 2 by simp
  ultimately show ?case by (cases from_slash) auto
qed

declare mkdir_loop.simps [simp del]

definition ensure_directory_exists :: "bytes \<Rightarrow> os_state \<Rightarrow> int \<times> os_state" where
  "ensure_directory_exists path os =
     (case os_alloc os of (got, os1) \<Rightarrow>
        if \<not> got then (-1, os1)
        else
          let dir = dirname path
          in mkdir_loop (takeWhile (\<lambda>b. b = slash) dir) (dropWhile (\<lambda>b. b = slash) dir) os1)"

section \<open>Closing and opening the current file\<close>

definition restore_symlink_owner :: "file_context \<Rightarrow> os_state \<Rightarrow> os_state" where
  "restore_symlink_owner fc os =
     (if fc_has_unix_extra fc \<and> os_euid os = 0
      then snd (sys_chown (fc_filename fc) (fc_uid fc) (fc_gid fc) os) else os)"

definition finalize_fd :: "file_context \<Rightarrow> os_state \<Rightarrow> os_state" where
  "finalize_fd fc os =
     (let os1 = snd (sys_ftruncate (fc_fd fc) (fc_expected_total_size fc) os);
          os2 = (if fc_has_unix_mode fc
                 then snd (sys_fchmod (fc_fd fc) (fc_unix_mode fc AND 0xFFF) os1) else os1);
          os3 = (if fc_has_unix_extra fc \<and> os_euid os2 = 0
                 then snd (sys_fchown (fc_fd fc) (fc_uid fc) (fc_gid fc) os2) else os2)
      in sys_close (fc_fd fc) os3)"

definition close_output_file ::
  "part_processor_state \<Rightarrow> (stream_rc \<times> part_processor_state) option" where
  "close_output_file st =
     (case ps_current_file st of
        None \<Rightarrow> Some (STREAM_PROC_SUCCESS, st)
      | Some fc \<Rightarrow>
          (if fc_is_symlink fc \<and> fc_symlink_buffer fc \<noteq> None then
             let buf = the (fc_symlink_buffer fc)
             in if length buf \<ge> unat (fc_symlink_buffer_size fc) then None
                else
                  let os1 = snd (sys_unlink (fc_filename fc) (ps_os st));
                      os2 = snd (sys_symlink (takeWhile (\<lambda>b. b \<noteq> 0) buf) (fc_filename fc) os1);
                      os3 = restore_symlink_owner fc os2
                  in Some (STREAM_PROC_SUCCESS, st\<lparr>ps_current_file := None, ps_os := os3\<rparr>)
           else
             let os1 = (if fc_fd fc \<ge> 0 then finalize_fd fc (ps_os st) else ps_os st)
             in Some (STREAM_PROC_SUCCESS, st\<lparr>ps_current_file := None, ps_os := os1\<rparr>)))"

text \<open>The file context after the metadata of the central directory has been copied into it.\<close>

definition context_of :: "bytes \<Rightarrow> file_metadata \<Rightarrow> file_context" where
  "context_of name m =
     \<lparr>fc_filename = name, fc_fd = 0, fc_uncompressed_offset = 0,
      fc_expected_total_size = fm_uncompressed_size m, fc_expected_crc32 = fm_crc32 m,
      fc_unix_mode = fm_unix_mode m, fc_uid = fm_uid m, fc_gid = fm_gid m,
      fc_has_unix_mode = fm_has_unix_mode m, fc_has_unix_extra = fm_has_unix_extra m,
      fc_is_symlink = fm_is_symlink m,
      fc_is_directory = (fm_filename m \<noteq> [] \<and> last (fm_filename m) = slash),
      fc_symlink_buffer = None, fc_symlink_buffer_size = 0,
      fc_uses_zip64_descriptor = fm_uses_zip64_descriptor m\<rparr>"

definition open_directory ::
  "file_context \<Rightarrow> part_processor_state \<Rightarrow> stream_rc \<times> part_processor_state" where
  "open_directory fc st =
     (case sys_mkdir (fc_filename fc) 0x1ED (ps_os st) of (r, os1) \<Rightarrow>
        if r \<noteq> None \<and> r \<noteq> Some EEXIST then fail STREAM_PROC_ERR_IO (st\<lparr>ps_os := os1\<rparr>)
        else
          let os2 = (if fc_has_unix_mode fc
                     then snd (sys_chmod (fc_filename fc) (fc_unix_mode fc AND 0xFFF) os1) else os1);
              os3 = (if fc_has_unix_extra fc \<and> os_euid os2 = 0
                     then snd (sys_chown (fc_filename fc) (fc_uid fc) (fc_gid fc) os2) else os2)
          in (STREAM_PROC_SUCCESS,
              st\<lparr>ps_current_file := Some (fc\<lparr>fc_fd := -1\<rparr>), ps_os := os3\<rparr>))"

definition open_symlink ::
  "file_context \<Rightarrow> part_processor_state \<Rightarrow> stream_rc \<times> part_processor_state" where
  "open_symlink fc st =
     (case os_alloc (ps_os st) of (got, os1) \<Rightarrow>
        if \<not> got then fail STREAM_PROC_ERR_MEMORY (st\<lparr>ps_os := os1\<rparr>)
        else (STREAM_PROC_SUCCESS,
              st\<lparr>ps_current_file :=
                    Some (fc\<lparr>fc_fd := -1, fc_symlink_buffer := Some [],
                             fc_symlink_buffer_size := fc_expected_total_size fc + 1\<rparr>),
                 ps_os := os1\<rparr>))"

definition open_regular ::
  "file_context \<Rightarrow> part_processor_state \<Rightarrow> stream_rc \<times> part_processor_state" where
  "open_regular fc st =
     (case sys_open (fc_filename fc) 0x1A4 (ps_os st) of (fd, os1) \<Rightarrow>
        if fd < 0 then fail STREAM_PROC_ERR_IO (st\<lparr>ps_os := os1\<rparr>)
        else (STREAM_PROC_SUCCESS,
              st\<lparr>ps_current_file := Some (fc\<lparr>fc_fd := fd\<rparr>), ps_os := os1\<rparr>))"

definition open_fresh_file ::
  "file_metadata \<Rightarrow> part_processor_state \<Rightarrow> stream_rc \<times> part_processor_state" where
  "open_fresh_file m st =
     (case os_alloc (ps_os st) of (got1, os1) \<Rightarrow>
        if \<not> got1 then fail STREAM_PROC_ERR_MEMORY (st\<lparr>ps_os := os1\<rparr>)
        else case os_alloc os1 of (got2, os2) \<Rightarrow>
          if \<not> got2 then fail STREAM_PROC_ERR_MEMORY (st\<lparr>ps_os := os2\<rparr>)
          else
            let name = ps_output_dir st @ [slash] @ fm_filename m;
                fc = context_of name m
            in case ensure_directory_exists name os2 of (rc, os3) \<Rightarrow>
                 let st3 = st\<lparr>ps_os := os3\<rparr>
                 in if rc \<noteq> 0 then fail STREAM_PROC_ERR_IO st3
                    else if fc_is_directory fc then open_directory fc st3
                    else if fm_is_symlink m then open_symlink fc st3
                    else open_regular fc st3)"

definition open_output_file ::
  "file_metadata \<Rightarrow> part_processor_state \<Rightarrow> (stream_rc \<times> part_processor_state) option" where
  "open_output_file m st =
     proceed (close_output_file st) (\<lambda>st1. Some (open_fresh_file m st1))"

section \<open>Handlers\<close>

text \<open>The offset is read from the frame, at byte 9.\<close>

definition set_uncompressed_offset :: "u64 \<Rightarrow> part_processor_state \<Rightarrow> part_processor_state" where
  "set_uncompressed_offset off st =
     st\<lparr>ps_current_file := map_option (\<lambda>fc. fc\<lparr>fc_uncompressed_offset := off\<rparr>) (ps_current_file st)\<rparr>"

definition handle_start_of_part_frame ::
  "bytes \<Rightarrow> part_processor_state \<Rightarrow> (stream_rc \<times> part_processor_state) option" where
  "handle_start_of_part_frame frame_data st =
     (case read_le 8 frame_data 9 of
        None \<Rightarrow> None
      | Some off \<Rightarrow>
          if ps_current_file st \<noteq> None
          then Some (STREAM_PROC_SUCCESS, set_uncompressed_offset off st)
          else case pf_continuing_file (this_part st) of
                 None \<Rightarrow> Some (fail STREAM_PROC_ERR_INVALID_FRAME st)
               | Some i \<Rightarrow>
                   proceed (open_output_file (cp_files (ps_cd_result st) ! i) st)
                     (\<lambda>st1. Some (STREAM_PROC_SUCCESS, set_uncompressed_offset off st1)))"

text \<open>The result has the number of consumed bytes, which is set when the return code is
  \<open>SUCCESS\<close> or \<open>SKIPPED_PADDING\<close>.\<close>

definition handle_local_header ::
  "bytes \<Rightarrow> part_processor_state \<Rightarrow> (stream_rc \<times> nat \<times> part_processor_state) option" where
  "handle_local_header header_data st =
     (if length header_data < 30 then Some (STREAM_PROC_NEED_MORE_DATA, 0, st)
      else
        let filename_length = unat (field header_data 26 2 :: u16);
            extra_field_length = unat (field header_data 28 2 :: u16);
            header_size = 30 + filename_length + extra_field_length
        in if length header_data < header_size then Some (STREAM_PROC_NEED_MORE_DATA, 0, st)
           else if filename_length = PADDING_LFH_FILENAME_LEN \<and>
                   take PADDING_LFH_FILENAME_LEN (drop 30 header_data) = PADDING_LFH_FILENAME
           then Some (STREAM_PROC_SKIPPED_PADDING, header_size, st)
           else if ps_next_entry_idx st \<ge> length (pf_entries (this_part st))
           then (case fail STREAM_PROC_ERR_INVALID_FRAME st of (rc, st1) \<Rightarrow> Some (rc, 0, st1))
           else
             let entry = pf_entries (this_part st) ! ps_next_entry_idx st;
                 file_meta = cp_files (ps_cd_result st) ! pe_file_index entry
             in case open_output_file file_meta st of
                  None \<Rightarrow> None
                | Some (rc, st1) \<Rightarrow>
                    if rc \<noteq> STREAM_PROC_SUCCESS then Some (rc, 0, st1)
                    else Some (STREAM_PROC_SUCCESS, header_size, set_uncompressed_offset 0 st1))"

definition handle_zstd_frame ::
  "zstd_reader \<Rightarrow> bytes \<Rightarrow> u64 \<Rightarrow> part_processor_state \<Rightarrow> stream_rc \<times> part_processor_state" where
  "handle_zstd_frame zr frame_data uncompressed_size st =
     (case ps_current_file st of
        None \<Rightarrow> fail STREAM_PROC_ERR_INVALID_FRAME st
      | Some fc \<Rightarrow>
          if fc_fd fc < 0 then fail STREAM_PROC_ERR_INVALID_FRAME st
          else case do_write_encoded zr (fc_fd fc) frame_data uncompressed_size
                      (fc_uncompressed_offset fc) (ps_os st) of (rc, os1) \<Rightarrow>
            if rc \<noteq> BTRFS_WRITER_SUCCESS
            then fail STREAM_PROC_ERR_BTRFS_WRITE (st\<lparr>ps_os := os1\<rparr>)
            else (STREAM_PROC_SUCCESS,
                  st\<lparr>ps_os := os1,
                     ps_current_file := Some (fc\<lparr>fc_uncompressed_offset :=
                                                  fc_uncompressed_offset fc + uncompressed_size\<rparr>)\<rparr>))"

definition handle_data_descriptor ::
  "part_processor_state \<Rightarrow> (stream_rc \<times> part_processor_state) option" where
  "handle_data_descriptor st = close_output_file st"

section \<open>The state machine\<close>

text \<open>What one iteration of the loop does: go on at a new offset, \<open>goto buffer_remaining\<close>, return, or
  access memory outside an object.\<close>

datatype step =
    Next nat part_processor_state
  | Need_more part_processor_state
  | Return stream_rc part_processor_state
  | Out_of_bounds

definition return_failure :: "stream_rc \<Rightarrow> part_processor_state \<Rightarrow> step" where
  "return_failure rc st = (case fail rc st of (rc', st') \<Rightarrow> Return rc' st')"

text \<open>\<open>offset += n; state->bytes_processed += n;\<close>\<close>

definition advance :: "nat \<Rightarrow> nat \<Rightarrow> part_processor_state \<Rightarrow> step" where
  "advance off n st = Next (off + n) (st\<lparr>ps_bytes_processed := ps_bytes_processed st + of_nat n\<rparr>)"

text \<open>Continue after a handler, or return its error.\<close>

definition after ::
  "(stream_rc \<times> part_processor_state) option \<Rightarrow> (part_processor_state \<Rightarrow> step) \<Rightarrow> step" where
  "after r f =
     (case r of
        None \<Rightarrow> Out_of_bounds
      | Some (rc, st) \<Rightarrow> if rc \<noteq> STREAM_PROC_SUCCESS then Return rc st else f st)"

definition with_frame ::
  "zstd_reader \<Rightarrow> bytes \<Rightarrow> part_processor_state \<Rightarrow> (frame_info \<Rightarrow> step) \<Rightarrow> step" where
  "with_frame zr ptr st f =
     (case parse_next_frame zr ptr of
        Fault \<Rightarrow> Out_of_bounds
      | Error rc \<Rightarrow> if rc = STREAM_PROC_NEED_MORE_DATA then Need_more st else return_failure rc st
      | Ok info \<Rightarrow> f info)"

definition step_init :: "nat \<Rightarrow> part_processor_state \<Rightarrow> step" where
  "step_init off st =
     Next off (st\<lparr>ps_state := if pf_continuing_file (this_part st) \<noteq> None
                             then STATE_CONTINUING_FILE else STATE_EXPECT_LOCAL_HEADER\<rparr>)"

definition step_continuing :: "zstd_reader \<Rightarrow> bytes \<Rightarrow> nat \<Rightarrow> part_processor_state \<Rightarrow> step" where
  "step_continuing zr ptr off st =
     with_frame zr ptr st (\<lambda>info.
       if fi_type info \<noteq> FRAME_BURST_START_OF_PART
       then return_failure STREAM_PROC_ERR_INVALID_FRAME st
       else after (handle_start_of_part_frame ptr st) (\<lambda>st1.
              advance off (unat (fi_frame_size info)) (st1\<lparr>ps_state := STATE_PROCESSING_FRAMES\<rparr>)))"

definition step_expect_header :: "zstd_reader \<Rightarrow> bytes \<Rightarrow> nat \<Rightarrow> part_processor_state \<Rightarrow> step" where
  "step_expect_header zr ptr off st =
     (if ps_next_entry_idx st \<ge> length (pf_entries (this_part st))
      then Next off (st\<lparr>ps_state := STATE_DONE\<rparr>)
      else
        with_frame zr ptr st (\<lambda>info.
          if fi_type info = FRAME_BURST_PADDING then advance off (unat (fi_frame_size info)) st
          else if fi_type info = FRAME_ZIP_CENTRAL_DIRECTORY
          then Next off (st\<lparr>ps_state := STATE_DONE\<rparr>)
          else if fi_type info \<noteq> FRAME_ZIP_LOCAL_HEADER
          then return_failure STREAM_PROC_ERR_INVALID_FRAME st
          else
            case handle_local_header ptr st of
              None \<Rightarrow> Out_of_bounds
            | Some (rc, bytes_consumed, st1) \<Rightarrow>
                if rc = STREAM_PROC_NEED_MORE_DATA then Need_more st1
                else if rc = STREAM_PROC_SKIPPED_PADDING then advance off bytes_consumed st1
                else if rc \<noteq> STREAM_PROC_SUCCESS then Return rc st1
                else advance off bytes_consumed
                       (st1\<lparr>ps_next_entry_idx := ps_next_entry_idx st1 + 1,
                            ps_state := (case ps_current_file st1 of
                                           Some fc \<Rightarrow> if fc_is_symlink fc then STATE_READING_SYMLINK
                                                      else STATE_PROCESSING_FRAMES
                                         | None \<Rightarrow> STATE_PROCESSING_FRAMES)\<rparr>)))"

definition descriptor_size :: "part_processor_state \<Rightarrow> nat" where
  "descriptor_size st =
     (case ps_current_file st of
        Some fc \<Rightarrow> if fc_uses_zip64_descriptor fc then 24 else 16
      | None \<Rightarrow> 16)"

definition step_frames :: "zstd_reader \<Rightarrow> bytes \<Rightarrow> nat \<Rightarrow> part_processor_state \<Rightarrow> step" where
  "step_frames zr ptr off st =
     with_frame zr ptr st (\<lambda>info.
       let n = unat (fi_frame_size info)
       in case fi_type info of
            FRAME_ZSTD_COMPRESSED \<Rightarrow>
              if length ptr < n then Need_more st
              else after (Some (handle_zstd_frame zr (take n ptr) (fi_uncompressed_size info) st))
                     (advance off n)
          | FRAME_BURST_PADDING \<Rightarrow> advance off n st
          | FRAME_BURST_START_OF_PART \<Rightarrow>
              if (ps_part_start_offset st + ps_bytes_processed st) mod BURST_BASE_ALIGNMENT \<noteq> 0
              then return_failure STREAM_PROC_ERR_INVALID_FRAME st
              else after (handle_start_of_part_frame ptr st) (advance off n)
          | FRAME_ZIP_DATA_DESCRIPTOR \<Rightarrow>
              after (handle_data_descriptor st) (\<lambda>st1.
                advance off (descriptor_size st) (st1\<lparr>ps_state := STATE_EXPECT_LOCAL_HEADER\<rparr>))
          | FRAME_ZIP_LOCAL_HEADER \<Rightarrow>
              after (close_output_file st)
                (\<lambda>st1. Next off (st1\<lparr>ps_state := STATE_EXPECT_LOCAL_HEADER\<rparr>))
          | FRAME_ZIP_CENTRAL_DIRECTORY \<Rightarrow>
              after (close_output_file st) (\<lambda>st1. Next off (st1\<lparr>ps_state := STATE_DONE\<rparr>))
          | FRAME_UNKNOWN \<Rightarrow> return_failure STREAM_PROC_ERR_INVALID_FRAME st)"

definition step_symlink :: "bytes \<Rightarrow> nat \<Rightarrow> part_processor_state \<Rightarrow> step" where
  "step_symlink ptr off st =
     (case ps_current_file st of
        None \<Rightarrow> return_failure STREAM_PROC_ERR_INVALID_FRAME st
      | Some fc \<Rightarrow>
          (case fc_symlink_buffer fc of
             None \<Rightarrow> return_failure STREAM_PROC_ERR_INVALID_FRAME st
           | Some buf \<Rightarrow>
               let bytes_needed = unat (fc_expected_total_size fc - of_nat (length buf));
                   bytes_to_copy = min (length ptr) bytes_needed;
                   buf1 = buf @ take bytes_to_copy ptr;
                   st1 = st\<lparr>ps_current_file := Some (fc\<lparr>fc_symlink_buffer := Some buf1\<rparr>),
                            ps_bytes_processed := ps_bytes_processed st + of_nat bytes_to_copy\<rparr>
               in if bytes_to_copy > 0 \<and> length buf1 > unat (fc_symlink_buffer_size fc)
                  then Out_of_bounds
                  else if of_nat (length buf1) \<ge> fc_expected_total_size fc
                  then after (close_output_file st1) (\<lambda>st2.
                         Next (off + bytes_to_copy) (st2\<lparr>ps_state := STATE_EXPECT_LOCAL_HEADER\<rparr>))
                  else Next (off + bytes_to_copy) st1))"

definition process_step :: "zstd_reader \<Rightarrow> bytes \<Rightarrow> nat \<Rightarrow> part_processor_state \<Rightarrow> step" where
  "process_step zr work off st =
     (let ptr = drop off work
      in case ps_state st of
           STATE_INIT \<Rightarrow> step_init off st
         | STATE_CONTINUING_FILE \<Rightarrow> step_continuing zr ptr off st
         | STATE_EXPECT_LOCAL_HEADER \<Rightarrow> step_expect_header zr ptr off st
         | STATE_PROCESSING_FRAMES \<Rightarrow> step_frames zr ptr off st
         | STATE_READING_SYMLINK \<Rightarrow> step_symlink ptr off st
         | STATE_DONE \<Rightarrow> Next (length work) st
         | STATE_ERROR \<Rightarrow> Return (ps_error_code st) st)"

text \<open>How the loop ends.\<close>

datatype loop_end =
    Completed part_processor_state
  | Buffered nat part_processor_state
  | Returned stream_rc part_processor_state
  | Crashed

partial_function (option) process_loop ::
  "zstd_reader \<Rightarrow> bytes \<Rightarrow> nat \<Rightarrow> part_processor_state \<Rightarrow> loop_end option" where
  [code]: "process_loop zr work off st =
     (if off < length work then
        case process_step zr work off st of
          Next off' st' \<Rightarrow> process_loop zr work off' st'
        | Need_more st' \<Rightarrow> Some (Buffered off st')
        | Return rc st' \<Rightarrow> Some (Returned rc st')
        | Out_of_bounds \<Rightarrow> Some Crashed
      else Some (Completed st))"

section \<open>Processing and finalizing\<close>

text \<open>Doubling of the buffer; \<open>0 < cap\<close> holds in every state.\<close>

function grow_capacity :: "nat \<Rightarrow> nat \<Rightarrow> nat" where
  "grow_capacity cap n = (if 0 < cap \<and> cap < n then grow_capacity (cap * 2) n else cap)"
  by pat_completeness auto
termination by (relation "measure (\<lambda>(cap, n). n - cap)") auto

declare grow_capacity.simps [simp del]

datatype run = Done stream_rc part_processor_state | Crash

definition run_of :: "stream_rc \<times> part_processor_state \<Rightarrow> run" where
  "run_of r = (case r of (rc, st) \<Rightarrow> Done rc st)"

text \<open>The two ways to keep the unprocessed bytes.\<close>

definition buffer_remaining :: "bool \<Rightarrow> bytes \<Rightarrow> nat \<Rightarrow> part_processor_state \<Rightarrow> run" where
  "buffer_remaining using_frame_buffer work off st =
     (if using_frame_buffer
      then Done STREAM_PROC_SUCCESS (st\<lparr>ps_frame_buffer := drop off work\<rparr>)
      else
        let to_buffer = length work - off
        in if to_buffer > ps_frame_buffer_capacity st then
             (case os_alloc (ps_os st) of (got, os1) \<Rightarrow>
                if \<not> got then run_of (fail STREAM_PROC_ERR_MEMORY (st\<lparr>ps_os := os1\<rparr>))
                else Done STREAM_PROC_SUCCESS
                       (st\<lparr>ps_os := os1,
                          ps_frame_buffer_capacity :=
                            grow_capacity (ps_frame_buffer_capacity st) to_buffer,
                          ps_frame_buffer := drop off work\<rparr>))
           else Done STREAM_PROC_SUCCESS (st\<lparr>ps_frame_buffer := drop off work\<rparr>))"

definition run_loop ::
  "zstd_reader \<Rightarrow> bool \<Rightarrow> bytes \<Rightarrow> part_processor_state \<Rightarrow> run option" where
  "run_loop zr using_frame_buffer work st =
     (case process_loop zr work 0 st of
        None \<Rightarrow> None
      | Some (Completed st1) \<Rightarrow>
          Some (Done STREAM_PROC_SUCCESS
                  (if using_frame_buffer then st1\<lparr>ps_frame_buffer := []\<rparr> else st1))
      | Some (Buffered off st1) \<Rightarrow> Some (buffer_remaining using_frame_buffer work off st1)
      | Some (Returned rc st1) \<Rightarrow> Some (Done rc st1)
      | Some Crashed \<Rightarrow> Some Crash)"

text \<open>Combining buffered and new data; growing the buffer may fail.\<close>

definition append_to_buffer ::
  "bytes \<Rightarrow> part_processor_state \<Rightarrow> bool \<times> part_processor_state" where
  "append_to_buffer data st =
     (let total_len = length (ps_frame_buffer st) + length data
      in if total_len > ps_frame_buffer_capacity st then
           (case os_alloc (ps_os st) of (got, os1) \<Rightarrow>
              if \<not> got then (False, st\<lparr>ps_os := os1\<rparr>)
              else (True, st\<lparr>ps_os := os1,
                             ps_frame_buffer_capacity :=
                               grow_capacity (ps_frame_buffer_capacity st * 2) total_len,
                             ps_frame_buffer := ps_frame_buffer st @ data\<rparr>))
         else (True, st\<lparr>ps_frame_buffer := ps_frame_buffer st @ data\<rparr>))"

definition part_processor_process_data ::
  "zstd_reader \<Rightarrow> bytes \<Rightarrow> part_processor_state \<Rightarrow> run option" where
  "part_processor_process_data zr data st =
     (if ps_state st = STATE_ERROR then Some (Done (ps_error_code st) st)
      else if ps_state st = STATE_DONE then Some (Done STREAM_PROC_SUCCESS st)
      else if ps_frame_buffer st \<noteq> [] then
        (case append_to_buffer data st of (ok, st1) \<Rightarrow>
           if \<not> ok then Some (run_of (fail STREAM_PROC_ERR_MEMORY st1))
           else run_loop zr True (ps_frame_buffer st1) st1)
      else run_loop zr False data st)"

definition part_processor_finalize :: "part_processor_state \<Rightarrow> run" where
  "part_processor_finalize st =
     (case proceed (close_output_file st) (\<lambda>st1.
             if ps_frame_buffer st1 \<noteq> [] then Some (fail STREAM_PROC_ERR_UNEXPECTED_EOF st1)
             else Some (STREAM_PROC_SUCCESS, st1\<lparr>ps_state := STATE_DONE\<rparr>)) of
        None \<Rightarrow> Crash
      | Some r \<Rightarrow> run_of r)"

end
