(* ===== verification/Stream_Safety.thy ===== *)
theory Stream_Safety
  imports Stream_Processor
begin

text \<open>
  The loop of the part processor returns, never accesses memory outside its objects and keeps its
  state well formed, for every sequence of answers of the operating system, unless the data contain
  a skippable frame whose announced size overflows; such a frame stops the loop from making
  progress (\<open>hanging_frame\<close>).
\<close>

section \<open>Progress\<close>

lemma advance_Next [simp]:
  "advance off n st = Next off' st' \<longleftrightarrow>
     off' = off + n \<and> st' = st\<lparr>ps_bytes_processed := ps_bytes_processed st + of_nat n\<rparr>"
  by (auto simp: advance_def)

lemma return_failure_Next [simp]: "return_failure rc st \<noteq> Next off' st'"
  by (simp add: return_failure_def fail_def)

lemma after_Next:
  "after r f = Next off' st' \<longleftrightarrow>
     (\<exists>st1. r = Some (STREAM_PROC_SUCCESS, st1) \<and> f st1 = Next off' st')"
  by (auto simp: after_def split: option.splits prod.splits)

lemma with_frame_Next:
  "with_frame zr ptr st f = Next off' st' \<longleftrightarrow>
     (\<exists>info. parse_next_frame zr ptr = Ok info \<and> f info = Next off' st')"
  by (auto simp: with_frame_def split: outcome.splits)

fun rank :: "processor_state \<Rightarrow> nat" where
  "rank STATE_INIT = 3"
| "rank STATE_PROCESSING_FRAMES = 3"
| "rank STATE_READING_SYMLINK = 3"
| "rank STATE_CONTINUING_FILE = 2"
| "rank STATE_EXPECT_LOCAL_HEADER = 2"
| "rank STATE_DONE = 1"
| "rank STATE_ERROR = 0"

definition loop_order :: "((nat \<times> nat) \<times> nat \<times> nat) set" where
  "loop_order = less_than <*lex*> less_than"

lemma wf_loop_order: "wf loop_order"
  by (auto simp: loop_order_def)

definition position :: "bytes \<Rightarrow> nat \<Rightarrow> part_processor_state \<Rightarrow> nat \<times> nat" where
  "position work off st = (length work - off, rank (ps_state st))"

text \<open>An iteration either consumes bytes or moves to a state of lower rank.\<close>

lemma closer_by_bytes:
  "off < length work \<Longrightarrow> off < off' \<Longrightarrow> (position work off' st', position work off st) \<in> loop_order"
  by (auto simp: loop_order_def position_def)

lemma closer_by_rank:
  "rank (ps_state st') < rank (ps_state st) \<Longrightarrow>
   (position work off st', position work off st) \<in> loop_order"
  by (auto simp: loop_order_def position_def)

lemma close_output_file_rc: "close_output_file st = Some (rc, st') \<Longrightarrow> rc = STREAM_PROC_SUCCESS"
  by (auto simp: close_output_file_def Let_def split: option.splits if_splits)

lemma open_fresh_file_rc:
  "open_fresh_file m st = (rc, st') \<Longrightarrow>
   rc \<in> {STREAM_PROC_SUCCESS, STREAM_PROC_ERR_MEMORY, STREAM_PROC_ERR_IO}"
  by (auto simp: open_fresh_file_def open_directory_def open_symlink_def open_regular_def fail_def
      Let_def split: prod.splits if_splits)

lemma open_output_file_rc:
  "open_output_file m st = Some (rc, st') \<Longrightarrow>
   rc \<in> {STREAM_PROC_SUCCESS, STREAM_PROC_ERR_MEMORY, STREAM_PROC_ERR_IO}"
  using open_fresh_file_rc close_output_file_rc
  by (fastforce simp: open_output_file_def proceed_def split: option.splits if_splits)

lemma handle_local_header_consumes:
  "handle_local_header ptr st = Some (rc, n, st') \<Longrightarrow>
   rc = STREAM_PROC_SUCCESS \<or> rc = STREAM_PROC_SKIPPED_PADDING \<Longrightarrow> 30 \<le> n"
  by (auto simp: handle_local_header_def Let_def fail_def split: if_splits option.splits
      dest: open_output_file_rc)

lemma step_continuing_progress:
  "step_continuing zr ptr off st = Next off' st' \<Longrightarrow> off < off'"
  using parse_next_frame_Ok(2)
  by (fastforce simp: step_continuing_def with_frame_Next after_Next split: if_splits)

lemma step_expect_header_progress:
  assumes "step_expect_header zr ptr off st = Next off' st'" and "\<not> wrapped_frame ptr"
  shows "off < off' \<or> off' = off \<and> ps_state st' = STATE_DONE"
proof (cases "length (pf_entries (this_part st)) \<le> ps_next_entry_idx st")
  case True
  then show ?thesis using assms(1) by (auto simp: step_expect_header_def)
next
  case False
  then obtain info where info: "parse_next_frame zr ptr = Ok info"
    using assms(1) by (auto simp: step_expect_header_def with_frame_Next)
  show ?thesis
  proof (cases "fi_type info = FRAME_BURST_PADDING")
    case True
    then show ?thesis
      using assms False info parse_next_frame_Ok(4)[OF info]
      by (simp add: step_expect_header_def with_frame_def)
  next
    case no_pad: False
    show ?thesis
      using assms(1) False info no_pad handle_local_header_consumes[of ptr st]
      by (fastforce simp: step_expect_header_def with_frame_def split: if_splits option.splits)
  qed
qed

lemma step_frames_progress:
  assumes "step_frames zr ptr off st = Next off' st'" and "\<not> wrapped_frame ptr" and "zstd_sizes_ok zr"
  shows "off < off' \<or> off' = off \<and> ps_state st' \<in> {STATE_EXPECT_LOCAL_HEADER, STATE_DONE}"
proof -
  from assms(1) obtain info where info: "parse_next_frame zr ptr = Ok info"
    by (auto simp: step_frames_def with_frame_Next)
  note facts = parse_next_frame_Ok[OF info]
  show ?thesis
    using assms info facts
    by (cases "fi_type info")
       (auto simp: step_frames_def with_frame_def Let_def after_Next descriptor_size_def
         split: if_splits option.splits)
qed

lemma step_symlink_progress:
  assumes "step_symlink ptr off st = Next off' st'" and "ptr \<noteq> []"
  shows "off < off' \<or> off' = off \<and> ps_state st' = STATE_EXPECT_LOCAL_HEADER"
  using assms
  by (auto simp: step_symlink_def Let_def after_Next min_def word_le_nat_alt unat_eq_zero
      split: option.splits if_splits)

lemma process_step_progress:
  assumes "process_step zr work off st = Next off' st'" and "off < length work"
    and "\<not> wrapped_frame (drop off work)" and "zstd_sizes_ok zr"
  shows "(position work off' st', position work off st) \<in> loop_order"
proof (cases "ps_state st")
  case STATE_INIT
  then show ?thesis using assms
    by (auto simp: process_step_def step_init_def intro!: closer_by_rank)
next
  case STATE_CONTINUING_FILE
  then show ?thesis using assms
    by (auto simp: process_step_def dest!: step_continuing_progress intro: closer_by_bytes)
next
  case STATE_EXPECT_LOCAL_HEADER
  then show ?thesis using assms
    by (auto simp: process_step_def dest!: step_expect_header_progress
        intro: closer_by_bytes closer_by_rank)
next
  case STATE_PROCESSING_FRAMES
  then show ?thesis using assms
    by (auto simp: process_step_def dest!: step_frames_progress intro: closer_by_bytes closer_by_rank)
next
  case STATE_READING_SYMLINK
  then show ?thesis using assms
    by (auto simp: process_step_def dest!: step_symlink_progress intro: closer_by_bytes closer_by_rank)
next
  case STATE_DONE
  then show ?thesis using assms by (auto simp: process_step_def intro: closer_by_bytes)
next
  case STATE_ERROR
  then show ?thesis using assms by (simp add: process_step_def)
qed

text \<open>No suffix of the data starts with a skippable frame of an overflowing size.\<close>

definition no_wrapped_frames :: "bytes \<Rightarrow> bool" where
  "no_wrapped_frames work \<longleftrightarrow> (\<forall>i < length work. \<not> wrapped_frame (drop i work))"

lemma process_loop_returns:
  assumes "no_wrapped_frames work" and "zstd_sizes_ok zr"
  shows "\<exists>r. process_loop zr work off st = Some r"
proof (induction "position work off st" arbitrary: off st rule: wf_induct_rule[OF wf_loop_order])
  case 1
  show ?case
  proof (cases "off < length work")
    case True
    then have "\<not> wrapped_frame (drop off work)" using assms(1) by (simp add: no_wrapped_frames_def)
    then show ?thesis
      using 1 True process_step_progress[of zr work off st] assms(2)
      by (subst process_loop.simps) (auto split: step.splits)
  next
    case False
    then show ?thesis by (subst process_loop.simps) simp
  qed
qed

text \<open>An iteration that changes nothing is repeated forever.\<close>

lemma process_loop_stuck:
  assumes "off0 < length work0" and "process_step zr0 work0 off0 st0 = Next off0 st0"
  shows "process_loop zr0 work0 off0 st0 = None"
proof -
  let ?P = "\<lambda>zr work off st (r :: loop_end). (zr, work, off, st) \<noteq> (zr0, work0, off0, st0)"
  have "?P zr0 work0 off0 st0 r" if "process_loop zr0 work0 off0 st0 = Some r" for r
  proof (rule process_loop.raw_induct[where P = ?P, OF _ that])
    fix loop zr work off st r
    assume ih: "\<And>zr work off st r. loop zr work off st = Some r \<Longrightarrow> ?P zr work off st r"
      and body: "(if off < length work then
          case process_step zr work off st of
            Next off' st' \<Rightarrow> loop zr work off' st'
          | Need_more st' \<Rightarrow> Some (Buffered off st')
          | Return rc st' \<Rightarrow> Some (Returned rc st')
          | Out_of_bounds \<Rightarrow> Some Crashed
        else Some (Completed st)) = Some r"
    show "?P zr work off st r"
    proof
      assume "(zr, work, off, st) = (zr0, work0, off0, st0)"
      with body assms have "loop zr0 work0 off0 st0 = Some r" by simp
      from ih[OF this] show False by simp
    qed
  qed
  then show ?thesis by (cases "process_loop zr0 work0 off0 st0") auto
qed

lemma run_loop_returns:
  "no_wrapped_frames work \<Longrightarrow> zstd_sizes_ok zr \<Longrightarrow> \<exists>r. run_loop zr u work st = Some r"
  using process_loop_returns[of work zr 0 st]
  by (auto simp: run_loop_def split: loop_end.splits)

lemma append_to_buffer_frame_buffer:
  "append_to_buffer data st = (True, st') \<Longrightarrow> ps_frame_buffer st' = ps_frame_buffer st @ data"
  by (auto simp: append_to_buffer_def Let_def split: if_splits prod.splits)

lemma process_data_returns_lemma:
  assumes "no_wrapped_frames (ps_frame_buffer st @ data)" and "zstd_sizes_ok zr"
  shows "\<exists>r. part_processor_process_data zr data st = Some r"
proof -
  have "no_wrapped_frames (ps_frame_buffer st1)" if "append_to_buffer data st = (True, st1)" for st1
    using that assms(1) by (simp add: append_to_buffer_frame_buffer)
  then show ?thesis
    using assms run_loop_returns
    by (fastforce simp: part_processor_process_data_def split: prod.splits)
qed

lemma hanging_frame_parse:
  "parse_next_frame zr (le32 BURST_SKIPPABLE_MAGIC @ le32 0xFFFFFFF8 @ b # rest) =
     Ok (frame_info_of FRAME_BURST_PADDING 0)"
  using parse_next_frame_skippable[of zr "le32 0xFFFFFFF8 @ b # rest"]
  by (simp add: BURST_MAGIC_NUMBER_skippable parse_skippable_frame_def reads Let_def
      del: bind_outcome_Ok_iff)

section \<open>The invariant\<close>

text \<open>What \<open>build_part_map\<close> guarantees of the indices, and that the announced size of a symbolic
  link is not the one value for which the size of its buffer overflows.\<close>

definition part_map_ok :: "central_dir_parse_result \<Rightarrow> bool" where
  "part_map_ok cd \<longleftrightarrow>
     (\<forall>pt \<in> set (cp_parts cd).
        (\<forall>e \<in> set (pf_entries pt). pe_file_index e < length (cp_files cd)) \<and>
        (\<forall>i. pf_continuing_file pt = Some i \<longrightarrow> i < length (cp_files cd))) \<and>
     (\<forall>m \<in> set (cp_files cd). fm_is_symlink m \<longrightarrow> fm_uncompressed_size m \<noteq> 0xFFFFFFFFFFFFFFFF)"

definition context_ok :: "file_context \<Rightarrow> bool" where
  "context_ok fc \<longleftrightarrow>
     (\<forall>buf. fc_symlink_buffer fc = Some buf \<longrightarrow>
        fc_fd fc < 0 \<and> fc_is_symlink fc \<and> length buf \<le> unat (fc_expected_total_size fc) \<and>
        unat (fc_symlink_buffer_size fc) = unat (fc_expected_total_size fc) + 1)"

text \<open>Of the descriptors, the processor has opened at most the one of its current file; \<open>fds0\<close> are the
  others.\<close>

definition descriptors_ok :: "(int \<Rightarrow> path option) \<Rightarrow> file_context option \<Rightarrow> os_state \<Rightarrow> bool" where
  "descriptors_ok fds0 cur os \<longleftrightarrow>
     0 \<le> os_next_fd os \<and> (\<forall>k. fds0 k \<noteq> None \<longrightarrow> k < os_next_fd os) \<and>
     (case cur of
        None \<Rightarrow> os_fds os = fds0
      | Some fc \<Rightarrow>
          if fc_fd fc < 0 then os_fds os = fds0
          else fds0 (fc_fd fc) = None \<and> fc_fd fc < os_next_fd os \<and>
               os_fds os = fds0(fc_fd fc := Some (resolve (fc_filename fc))))"

definition processor_inv :: "(int \<Rightarrow> path option) \<Rightarrow> part_processor_state \<Rightarrow> bool" where
  "processor_inv fds0 st \<longleftrightarrow>
     part_map_ok (ps_cd_result st) \<and>
     unat (ps_part_index st) < length (cp_parts (ps_cd_result st)) \<and>
     (\<forall>fc. ps_current_file st = Some fc \<longrightarrow> context_ok fc) \<and>
     descriptors_ok fds0 (ps_current_file st) (ps_os st) \<and>
     (ps_state st = STATE_ERROR \<longrightarrow> ps_error_code st \<noteq> STREAM_PROC_SUCCESS)"

lemma descriptors_ok_same_fds:
  "same_fds os os' \<Longrightarrow> descriptors_ok fds0 cur os' = descriptors_ok fds0 cur os"
  by (cases cur) (simp_all add: same_fds_def descriptors_ok_def)

lemma inv_os:
  "processor_inv fds0 st \<Longrightarrow> same_fds (ps_os st) os' \<Longrightarrow> processor_inv fds0 (st\<lparr>ps_os := os'\<rparr>)"
  by (simp add: processor_inv_def descriptors_ok_same_fds)

lemma inv_update [simp]:
  "processor_inv fds0 (st\<lparr>ps_bytes_processed := n\<rparr>) = processor_inv fds0 st"
  "processor_inv fds0 (st\<lparr>ps_next_entry_idx := k\<rparr>) = processor_inv fds0 st"
  "processor_inv fds0 (st\<lparr>ps_frame_buffer := b\<rparr>) = processor_inv fds0 st"
  "processor_inv fds0 (st\<lparr>ps_frame_buffer_capacity := c\<rparr>) = processor_inv fds0 st"
  by (simp_all add: processor_inv_def)

lemma inv_state:
  "processor_inv fds0 st \<Longrightarrow> s \<noteq> STATE_ERROR \<Longrightarrow> processor_inv fds0 (st\<lparr>ps_state := s\<rparr>)"
  by (simp add: processor_inv_def)

lemma inv_fail:
  "processor_inv fds0 st \<Longrightarrow> rc \<noteq> STREAM_PROC_SUCCESS \<Longrightarrow> processor_inv fds0 (snd (fail rc st))"
  by (simp add: processor_inv_def fail_def)

text \<open>What a handler leaves behind: the invariant, the fields it has no business with, and on an error
  the error state.\<close>

definition handled ::
  "(int \<Rightarrow> path option) \<Rightarrow> part_processor_state \<Rightarrow> stream_rc \<Rightarrow> part_processor_state \<Rightarrow> bool" where
  "handled fds0 st rc st' \<longleftrightarrow>
     processor_inv fds0 st' \<and>
     (if rc = STREAM_PROC_SUCCESS then ps_state st' = ps_state st
      else ps_state st' = STATE_ERROR \<and> ps_error_code st' = rc) \<and>
     ps_part_index st' = ps_part_index st \<and> ps_cd_result st' = ps_cd_result st \<and>
     ps_part_start_offset st' = ps_part_start_offset st \<and>
     ps_next_entry_idx st' = ps_next_entry_idx st \<and>
     ps_bytes_processed st' = ps_bytes_processed st \<and>
     ps_frame_buffer st' = ps_frame_buffer st \<and>
     ps_frame_buffer_capacity st' = ps_frame_buffer_capacity st"

lemma handled_inv: "handled fds0 st rc st' \<Longrightarrow> processor_inv fds0 st'"
  by (simp add: handled_def)

lemma handled_refl: "processor_inv fds0 st \<Longrightarrow> handled fds0 st STREAM_PROC_SUCCESS st"
  by (simp add: handled_def)

lemma handled_fail:
  "processor_inv fds0 st \<Longrightarrow> rc \<noteq> STREAM_PROC_SUCCESS \<Longrightarrow> fail rc st = (rc', st') \<Longrightarrow>
   rc' = rc \<and> handled fds0 st rc st'"
  using inv_fail[of fds0 st rc] by (auto simp: handled_def fail_def)

lemma handled_trans:
  "handled fds0 st STREAM_PROC_SUCCESS st1 \<Longrightarrow> handled fds0 st1 rc st' \<Longrightarrow> handled fds0 st rc st'"
  by (auto simp: handled_def)

section \<open>Files are closed and opened\<close>

lemma finalize_fd_fds:
  "os_fds (finalize_fd fc os) = (os_fds os)(fc_fd fc := None) \<and>
   os_next_fd (finalize_fd fc os) = os_next_fd os"
proof -
  let ?os1 = "snd (sys_ftruncate (fc_fd fc) (fc_expected_total_size fc) os)"
  let ?os2 = "if fc_has_unix_mode fc
              then snd (sys_fchmod (fc_fd fc) (fc_unix_mode fc AND 0xFFF) ?os1) else ?os1"
  let ?os3 = "if fc_has_unix_extra fc \<and> os_euid ?os2 = 0
              then snd (sys_fchown (fc_fd fc) (fc_uid fc) (fc_gid fc) ?os2) else ?os2"
  have "same_fds os ?os1" by (intro fds_intros)
  moreover have "same_fds ?os1 ?os2" by (auto intro: fds_intros)
  moreover have "same_fds ?os2 ?os3" by (auto intro: fds_intros)
  ultimately have "same_fds os ?os3" by (blast intro: same_fds_trans)
  then show ?thesis by (simp add: finalize_fd_def Let_def sys_close_def same_fds_def)
qed

lemma close_output_file_handled:
  assumes "processor_inv fds0 st"
  shows "\<exists>os'. close_output_file st =
           Some (STREAM_PROC_SUCCESS, st\<lparr>ps_current_file := None, ps_os := os'\<rparr>) \<and>
           handled fds0 st STREAM_PROC_SUCCESS (st\<lparr>ps_current_file := None, ps_os := os'\<rparr>)"
proof (cases "ps_current_file st")
  case None
  then show ?thesis
    using assms
    by (intro exI[of _ "ps_os st"])
       (cases st, simp add: close_output_file_def handled_def processor_inv_def)
next
  case (Some fc)
  have ok: "context_ok fc" and d: "descriptors_ok fds0 (Some fc) (ps_os st)"
    using assms Some by (auto simp: processor_inv_def)
  have closed: "handled fds0 st STREAM_PROC_SUCCESS (st\<lparr>ps_current_file := None, ps_os := os'\<rparr>)"
    if "descriptors_ok fds0 None os'" for os'
    using that assms by (simp add: handled_def processor_inv_def)
  show ?thesis
  proof (cases "fc_is_symlink fc \<and> fc_symlink_buffer fc \<noteq> None")
    case True
    then obtain buf where buf: "fc_symlink_buffer fc = Some buf" by auto
    with ok have neg: "fc_fd fc < 0" and len: "\<not> unat (fc_symlink_buffer_size fc) \<le> length buf"
      by (auto simp: context_ok_def)
    let ?os1 = "snd (sys_unlink (fc_filename fc) (ps_os st))"
    let ?os2 = "snd (sys_symlink (takeWhile (\<lambda>b. b \<noteq> 0) buf) (fc_filename fc) ?os1)"
    have "same_fds ?os2 (restore_symlink_owner fc ?os2)"
      by (auto simp: restore_symlink_owner_def intro: fds_intros)
    then have "same_fds (ps_os st) (restore_symlink_owner fc ?os2)"
      by (blast intro: same_fds_trans fds_intros)
    then have "descriptors_ok fds0 None (restore_symlink_owner fc ?os2)"
      using d neg by (auto simp: descriptors_ok_def same_fds_def)
    then show ?thesis
      using True Some buf len closed by (auto simp: close_output_file_def Let_def)
  next
    case False
    let ?os' = "if fc_fd fc \<ge> 0 then finalize_fd fc (ps_os st) else ps_os st"
    have "descriptors_ok fds0 None ?os'"
      using d finalize_fd_fds[of fc "ps_os st"]
      by (auto simp: descriptors_ok_def split: if_splits)
    moreover have "close_output_file st =
        Some (STREAM_PROC_SUCCESS, st\<lparr>ps_current_file := None, ps_os := ?os'\<rparr>)"
      unfolding close_output_file_def Some option.case if_not_P[OF False] Let_def by (rule refl)
    ultimately show ?thesis using closed by blast
  qed
qed

lemma mkdir_or_exists_same_fds: "same_fds os (snd (mkdir_or_exists name os))"
proof -
  obtain r os1 where m: "sys_mkdir name 0x1ED os = (r, os1)" by (cases "sys_mkdir name 0x1ED os")
  then have "same_fds os os1" using calls_same_fds(1)[of os name "0x1ED"] by simp
  moreover have "same_fds os1 (snd (sys_stat_isdir name os1))" by (rule sys_stat_isdir_same_fds)
  ultimately show ?thesis
    using m by (auto simp: mkdir_or_exists_def split: option.splits intro: same_fds_trans)
qed

lemma mkdir_loop_same_fds: "same_fds os (snd (mkdir_loop pre rest os))"
proof (induction pre rest os rule: mkdir_loop.induct)
  case (1 pre rest os)
  let ?n = "pre @ takeWhile (\<lambda>b. b \<noteq> slash) rest"
  obtain ok os1 where m: "mkdir_or_exists ?n os = (ok, os1)" by (cases "mkdir_or_exists ?n os")
  then have "same_fds os os1" using mkdir_or_exists_same_fds[of os ?n] by simp
  then show ?case
    using 1[OF _ refl refl] m
    by (subst mkdir_loop.simps) (auto simp: Let_def intro: same_fds_trans fds_intros)
qed

lemma ensure_directory_exists_same_fds: "same_fds os (snd (ensure_directory_exists path os))"
  by (auto simp: ensure_directory_exists_def Let_def split: prod.splits
      dest!: os_alloc_same_fds intro: same_fds_trans mkdir_loop_same_fds)

lemma handled_open:
  assumes "processor_inv fds0 st" and "ps_current_file st = None"
    and "context_ok fc" and "descriptors_ok fds0 (Some fc) os'"
  shows "handled fds0 st STREAM_PROC_SUCCESS (st\<lparr>ps_current_file := Some fc, ps_os := os'\<rparr>)"
  using assms by (simp add: handled_def processor_inv_def)

lemma handled_os:
  "processor_inv fds0 st \<Longrightarrow> same_fds (ps_os st) os' \<Longrightarrow>
   handled fds0 (st\<lparr>ps_os := os'\<rparr>) rc st' \<Longrightarrow> handled fds0 st rc st'"
  by (simp add: handled_def)

lemma handled_fail_os:
  assumes "processor_inv fds0 st" and "same_fds (ps_os st) os'"
    and "fail rc (st\<lparr>ps_os := os'\<rparr>) = (rc', st')" and "rc \<noteq> STREAM_PROC_SUCCESS"
  shows "handled fds0 st rc' st'"
  using handled_os[OF assms(1,2)] handled_fail[OF inv_os[OF assms(1,2)] assms(4,3)] by blast

lemma open_directory_handled:
  assumes inv: "processor_inv fds0 st" and cur: "ps_current_file st = None"
    and fc: "fc_symlink_buffer fc = None" and op: "open_directory fc st = (rc, st')"
  shows "handled fds0 st rc st'"
proof -
  obtain r os1 where m: "sys_mkdir (fc_filename fc) 0x1ED (ps_os st) = (r, os1)"
    by (cases "sys_mkdir (fc_filename fc) 0x1ED (ps_os st)")
  have s1: "same_fds (ps_os st) os1"
    using m calls_same_fds(1)[of "ps_os st" "fc_filename fc" "0x1ED"] by simp
  let ?os2 = "if fc_has_unix_mode fc
              then snd (sys_chmod (fc_filename fc) (fc_unix_mode fc AND 0xFFF) os1) else os1"
  let ?os3 = "if fc_has_unix_extra fc \<and> os_euid ?os2 = 0
              then snd (sys_chown (fc_filename fc) (fc_uid fc) (fc_gid fc) ?os2) else ?os2"
  have "same_fds os1 ?os2" by (auto intro: fds_intros)
  moreover have "same_fds ?os2 ?os3" by (auto intro: fds_intros)
  ultimately have "same_fds (ps_os st) ?os3" using s1 by (blast intro: same_fds_trans)
  moreover have "descriptors_ok fds0 (Some (fc\<lparr>fc_fd := -1\<rparr>)) (ps_os st)"
    using inv cur by (simp add: processor_inv_def descriptors_ok_def)
  ultimately have "descriptors_ok fds0 (Some (fc\<lparr>fc_fd := -1\<rparr>)) ?os3"
    by (simp only: descriptors_ok_same_fds)
  moreover have "context_ok (fc\<lparr>fc_fd := -1\<rparr>)" using fc by (simp add: context_ok_def)
  ultimately have ok: "handled fds0 st STREAM_PROC_SUCCESS
      (st\<lparr>ps_current_file := Some (fc\<lparr>fc_fd := -1\<rparr>), ps_os := ?os3\<rparr>)"
    using handled_open[OF inv cur] by blast
  show ?thesis
  proof (cases "r \<noteq> None \<and> r \<noteq> Some EEXIST")
    case True
    then show ?thesis
      using op m handled_fail_os[OF inv s1]
      by (auto simp: open_directory_def)
  next
    case False
    then show ?thesis using op m ok by (auto simp: open_directory_def Let_def)
  qed
qed

lemma unat_Suc_total: "(x :: u64) \<noteq> 0xFFFFFFFFFFFFFFFF \<Longrightarrow> unat (x + 1) = unat x + 1"
proof -
  assume "x \<noteq> 0xFFFFFFFFFFFFFFFF"
  moreover have "(0xFFFFFFFFFFFFFFFF :: u64) = - 1" by simp
  ultimately have "x \<noteq> - 1" by metis
  then have "1 + x \<noteq> 0" by (metis add.commute eq_neg_iff_add_eq_0)
  then show ?thesis by (simp add: unatSuc add.commute)
qed

lemma open_symlink_handled:
  assumes inv: "processor_inv fds0 st" and cur: "ps_current_file st = None"
    and fc: "fc_is_symlink fc" "fc_expected_total_size fc \<noteq> 0xFFFFFFFFFFFFFFFF"
    and op: "open_symlink fc st = (rc, st')"
  shows "handled fds0 st rc st'"
proof -
  obtain got os1 where a: "os_alloc (ps_os st) = (got, os1)" by (cases "os_alloc (ps_os st)")
  then have s1: "same_fds (ps_os st) os1" by (rule os_alloc_same_fds)
  let ?fc = "fc\<lparr>fc_fd := -1, fc_symlink_buffer := Some [],
                fc_symlink_buffer_size := fc_expected_total_size fc + 1\<rparr>"
  have "unat (fc_expected_total_size fc + 1) = unat (fc_expected_total_size fc) + 1"
    using unat_Suc_total[OF fc(2)] by simp
  then have "context_ok ?fc" using fc by (simp add: context_ok_def)
  moreover have "descriptors_ok fds0 (Some ?fc) os1"
    using inv cur s1 by (simp add: processor_inv_def descriptors_ok_def same_fds_def)
  ultimately have "handled fds0 st STREAM_PROC_SUCCESS (st\<lparr>ps_current_file := Some ?fc, ps_os := os1\<rparr>)"
    using handled_open[OF inv cur] by blast
  then show ?thesis
    using op a handled_fail_os[OF inv s1]
    by (auto simp: open_symlink_def split: if_splits)
qed

lemma open_regular_handled:
  assumes inv: "processor_inv fds0 st" and cur: "ps_current_file st = None"
    and fc: "fc_symlink_buffer fc = None" and op: "open_regular fc st = (rc, st')"
  shows "handled fds0 st rc st'"
proof -
  obtain fd os1 where o: "sys_open (fc_filename fc) 0x1A4 (ps_os st) = (fd, os1)"
    by (cases "sys_open (fc_filename fc) 0x1A4 (ps_os st)")
  note cases = sys_open_cases[OF o]
  have nonneg: "0 \<le> os_next_fd (ps_os st)" and fds0: "\<forall>k. fds0 k \<noteq> None \<longrightarrow> k < os_next_fd (ps_os st)"
    and fds: "os_fds (ps_os st) = fds0"
    using inv cur by (auto simp: processor_inv_def descriptors_ok_def)
  show ?thesis
  proof (cases "fd < 0")
    case True
    then have s1: "same_fds (ps_os st) os1" using cases nonneg by auto
    then show ?thesis
      using op o True handled_fail_os[OF inv s1]
      by (auto simp: open_regular_def)
  next
    case False
    then have fd: "fd = os_next_fd (ps_os st)" "os_next_fd os1 = fd + 1"
      "os_fds os1 = fds0(fd := Some (resolve (fc_filename fc)))"
      using cases fds by auto
    have "fds0 fd = None"
      using fds0 fd(1) by (metis less_irrefl)
    moreover have "\<forall>k. fds0 k \<noteq> None \<longrightarrow> k < fd + 1"
      using fds0 fd(1) by (metis zless_add1_eq)
    ultimately have "descriptors_ok fds0 (Some (fc\<lparr>fc_fd := fd\<rparr>)) os1"
      using fd(2,3) False by (simp add: descriptors_ok_def)
    then show ?thesis
      using op o False handled_open[OF inv cur, of "fc\<lparr>fc_fd := fd\<rparr>" os1] fc
      by (auto simp: open_regular_def context_ok_def)
  qed
qed

lemma context_of_simps [simp]:
  "fc_symlink_buffer (context_of name m) = None"
  "fc_is_symlink (context_of name m) = fm_is_symlink m"
  "fc_expected_total_size (context_of name m) = fm_uncompressed_size m"
  "fc_filename (context_of name m) = name"
  "fc_uses_zip64_descriptor (context_of name m) = fm_uses_zip64_descriptor m"
  "fc_is_directory (context_of name m) = (fm_filename m \<noteq> [] \<and> last (fm_filename m) = slash)"
  by (simp_all add: context_of_def)

lemma open_fresh_file_handled:
  assumes inv: "processor_inv fds0 st" and cur: "ps_current_file st = None"
    and m: "m \<in> set (cp_files (ps_cd_result st))" and op: "open_fresh_file m st = (rc, st')"
  shows "handled fds0 st rc st'"
proof -
  obtain got1 os1 where a1: "os_alloc (ps_os st) = (got1, os1)" by (cases "os_alloc (ps_os st)")
  obtain got2 os2 where a2: "os_alloc os1 = (got2, os2)" by (cases "os_alloc os1")
  let ?name = "ps_output_dir st @ [slash] @ fm_filename m"
  obtain rc3 os3 where e: "ensure_directory_exists ?name os2 = (rc3, os3)"
    by (cases "ensure_directory_exists ?name os2")
  have s1: "same_fds (ps_os st) os1" and s12: "same_fds os1 os2"
    using a1 a2 by (auto intro: os_alloc_same_fds)
  then have s2: "same_fds (ps_os st) os2" by (rule same_fds_trans)
  have "same_fds os2 os3" using e ensure_directory_exists_same_fds[of os2 ?name] by simp
  with s2 have s3: "same_fds (ps_os st) os3" by (rule same_fds_trans)
  note inv3 = inv_os[OF inv s3]
  have size: "fm_is_symlink m \<Longrightarrow> fm_uncompressed_size m \<noteq> 0xFFFFFFFFFFFFFFFF"
    using inv m by (auto simp: processor_inv_def part_map_ok_def)
  note opens = handled_os[OF inv s3 open_directory_handled[OF inv3, of "context_of ?name m"]]
    handled_os[OF inv s3 open_symlink_handled[OF inv3, of "context_of ?name m"]]
    handled_os[OF inv s3 open_regular_handled[OF inv3, of "context_of ?name m"]]
  show ?thesis
    using op a1 a2 e cur size
    by (auto simp: open_fresh_file_def Let_def split: if_splits
        intro: opens handled_fail_os[OF inv s1] handled_fail_os[OF inv s2] handled_fail_os[OF inv s3])
qed

text \<open>A handler that may access memory: it does not, and it is \<open>handled\<close>.\<close>

definition safe_handler ::
  "(int \<Rightarrow> path option) \<Rightarrow> part_processor_state \<Rightarrow> (stream_rc \<times> part_processor_state) option \<Rightarrow> bool" where
  "safe_handler fds0 st r \<longleftrightarrow> (\<exists>rc st'. r = Some (rc, st') \<and> handled fds0 st rc st')"

lemma safe_close: "processor_inv fds0 st \<Longrightarrow> safe_handler fds0 st (close_output_file st)"
  using close_output_file_handled by (fastforce simp: safe_handler_def)

lemma safe_open:
  assumes "processor_inv fds0 st" and "m \<in> set (cp_files (ps_cd_result st))"
  shows "safe_handler fds0 st (open_output_file m st)"
proof -
  obtain os' where c: "close_output_file st =
      Some (STREAM_PROC_SUCCESS, st\<lparr>ps_current_file := None, ps_os := os'\<rparr>)"
    and h: "handled fds0 st STREAM_PROC_SUCCESS (st\<lparr>ps_current_file := None, ps_os := os'\<rparr>)"
    using close_output_file_handled[OF assms(1)] by blast
  let ?st = "st\<lparr>ps_current_file := None, ps_os := os'\<rparr>"
  obtain rc st' where o: "open_fresh_file m ?st = (rc, st')" by (cases "open_fresh_file m ?st")
  have "handled fds0 ?st rc st'"
    using open_fresh_file_handled[OF handled_inv[OF h] _ _ o] assms(2) by simp
  then show ?thesis
    using c o handled_trans[OF h] by (auto simp: safe_handler_def open_output_file_def proceed_def)
qed

lemma handled_offset:
  "handled fds0 st STREAM_PROC_SUCCESS st' \<Longrightarrow>
   handled fds0 st STREAM_PROC_SUCCESS (set_uncompressed_offset off st')"
  by (cases "ps_current_file st'")
     (auto simp: handled_def set_uncompressed_offset_def processor_inv_def context_ok_def
       descriptors_ok_def split: if_splits)

lemma continuing_in_files:
  "processor_inv fds0 st \<Longrightarrow> pf_continuing_file (this_part st) = Some i \<Longrightarrow>
   cp_files (ps_cd_result st) ! i \<in> set (cp_files (ps_cd_result st))"
  by (auto simp: processor_inv_def part_map_ok_def intro!: nth_mem)

lemma entry_in_files:
  "processor_inv fds0 st \<Longrightarrow> k < length (pf_entries (this_part st)) \<Longrightarrow>
   cp_files (ps_cd_result st) ! pe_file_index (pf_entries (this_part st) ! k)
     \<in> set (cp_files (ps_cd_result st))"
  by (auto simp: processor_inv_def part_map_ok_def intro!: nth_mem)

lemma safe_start_of_part:
  assumes inv: "processor_inv fds0 st" and len: "24 \<le> length ptr"
  shows "safe_handler fds0 st (handle_start_of_part_frame ptr st)"
proof -
  obtain off :: u64 where off: "read_le 8 ptr 9 = Some off" using len by (simp add: read_le_def)
  show ?thesis
  proof (cases "ps_current_file st = None \<and> pf_continuing_file (this_part st) \<noteq> None")
    case True
    then obtain i where i: "pf_continuing_file (this_part st) = Some i" by auto
    obtain rc st' where "open_output_file (cp_files (ps_cd_result st) ! i) st = Some (rc, st')"
      and "handled fds0 st rc st'"
      using safe_open[OF inv continuing_in_files[OF inv i]] by (auto simp: safe_handler_def)
    then show ?thesis
      using off i True handled_offset[of fds0 st st' off]
      by (auto simp: handle_start_of_part_frame_def safe_handler_def proceed_def)
  next
    case False
    then show ?thesis
      using off handled_offset[OF handled_refl[OF inv]]
        handled_fail[OF inv, of STREAM_PROC_ERR_INVALID_FRAME]
      by (auto simp: handle_start_of_part_frame_def safe_handler_def split: option.splits)
         (metis surj_pair)
  qed
qed

lemma do_write_encoded_same_fds: "same_fds os (snd (do_write_encoded zr fd frame len off os))"
proof -
  have plain: "same_fds os (snd (do_write_unencoded zr fd frame len off os))" for os
    by (auto simp: do_write_unencoded_def split: prod.splits option.splits
        dest!: ensure_visible[THEN visible_same_fds]
          intro: same_fds_trans fds_intros)
       (metis same_fds_trans snd_conv sys_pwrite_same_fds)+
  obtain r os1 where w: "sys_encoded_write fd (zr_btrfs_read zr frame (unat len)) off os = (r, os1)"
    by (cases "sys_encoded_write fd (zr_btrfs_read zr frame (unat len)) off os")
  then have "same_fds os os1"
    using calls_same_fds(9)[of os fd "zr_btrfs_read zr frame (unat len)" off] by simp
  then show ?thesis
    using w plain
    by (auto simp: do_write_encoded_def fds_intros split: option.splits intro: same_fds_trans)
qed

lemma handle_zstd_frame_handled:
  assumes inv: "processor_inv fds0 st" and h: "handle_zstd_frame zr frame len st = (rc, st')"
  shows "handled fds0 st rc st'"
proof (cases "\<exists>fc. ps_current_file st = Some fc \<and> 0 \<le> fc_fd fc")
  case True
  then obtain fc where fc: "ps_current_file st = Some fc" "0 \<le> fc_fd fc" by blast
  obtain r os1 where w: "do_write_encoded zr (fc_fd fc) frame len (fc_uncompressed_offset fc) (ps_os st) = (r, os1)"
    by (cases "do_write_encoded zr (fc_fd fc) frame len (fc_uncompressed_offset fc) (ps_os st)")
  then have s: "same_fds (ps_os st) os1"
    using do_write_encoded_same_fds[of "ps_os st" zr "fc_fd fc"] by (metis snd_conv)
  have "processor_inv fds0 (st\<lparr>ps_os := os1, ps_current_file :=
      Some (fc\<lparr>fc_uncompressed_offset := fc_uncompressed_offset fc + len\<rparr>)\<rparr>)"
    using inv fc s
    by (simp add: processor_inv_def context_ok_def descriptors_ok_def same_fds_def)
  then show ?thesis
    using h fc w handled_fail_os[OF inv s]
    by (auto simp: handle_zstd_frame_def handled_def split: if_splits)
next
  case False
  then show ?thesis
    using h handled_fail[OF inv] by (auto simp: handle_zstd_frame_def split: option.splits if_splits)
qed

section \<open>Steps\<close>

text \<open>What an iteration may end with: never an access outside an object, the invariant in the next
  state, an error only together with the error state.\<close>

fun safe_step :: "(int \<Rightarrow> path option) \<Rightarrow> step \<Rightarrow> bool" where
  "safe_step fds0 (Next off st) = processor_inv fds0 st"
| "safe_step fds0 (Need_more st) = processor_inv fds0 st"
| "safe_step fds0 (Return rc st) =
     (processor_inv fds0 st \<and> rc \<noteq> STREAM_PROC_SUCCESS \<and> ps_state st = STATE_ERROR \<and>
      ps_error_code st = rc)"
| "safe_step fds0 Out_of_bounds = False"

lemma safe_return_failure:
  "processor_inv fds0 st \<Longrightarrow> rc \<noteq> STREAM_PROC_SUCCESS \<Longrightarrow> safe_step fds0 (return_failure rc st)"
  by (simp add: return_failure_def fail_def processor_inv_def)

lemma safe_advance: "processor_inv fds0 st \<Longrightarrow> safe_step fds0 (advance off n st)"
  by (simp add: advance_def)

lemma safe_after:
  assumes "safe_handler fds0 st r"
    and "\<And>st'. handled fds0 st STREAM_PROC_SUCCESS st' \<Longrightarrow> safe_step fds0 (f st')"
  shows "safe_step fds0 (after r f)"
  using assms by (auto simp: safe_handler_def after_def handled_def)

lemma parse_error_not_success:
  "parse_next_frame zr ptr = Error rc \<Longrightarrow> rc \<noteq> STREAM_PROC_SUCCESS"
  by (auto simp: parse_next_frame_def read_int_cases parse_local_header_frame_def
      parse_zstd_frame_def parse_skippable_frame_def Let_def
      split: if_splits zstd_size.splits content_size.splits)

lemma safe_with_frame:
  assumes "processor_inv fds0 st" and "\<not> wrapped_frame ptr"
    and "\<And>info. parse_next_frame zr ptr = Ok info \<Longrightarrow> safe_step fds0 (f info)"
  shows "safe_step fds0 (with_frame zr ptr st f)"
  using assms parse_next_frame_Fault_iff[of zr ptr] parse_error_not_success[of zr ptr]
  by (auto simp: with_frame_def intro: safe_return_failure split: outcome.splits)

lemma sop_length:
  "parse_next_frame zr ptr = Ok info \<Longrightarrow> fi_type info = FRAME_BURST_START_OF_PART \<Longrightarrow> 24 \<le> length ptr"
  using parse_next_frame_Ok(1,2)[of zr ptr info] by simp

lemma safe_step_continuing:
  assumes "processor_inv fds0 st" and "\<not> wrapped_frame ptr"
  shows "safe_step fds0 (step_continuing zr ptr off st)"
  unfolding step_continuing_def
  by (rule safe_with_frame[OF assms])
     (auto intro!: safe_return_failure safe_after safe_start_of_part safe_advance inv_state
       assms dest: handled_inv sop_length)

lemma safe_step_expect_header:
  assumes inv: "processor_inv fds0 st" and nw: "\<not> wrapped_frame ptr"
  shows "safe_step fds0 (step_expect_header zr ptr off st)"
proof (cases "length (pf_entries (this_part st)) \<le> ps_next_entry_idx st")
  case True
  then show ?thesis using inv by (simp add: step_expect_header_def inv_state)
next
  case False
  then have m: "cp_files (ps_cd_result st) ! pe_file_index (pf_entries (this_part st) ! ps_next_entry_idx st)
      \<in> set (cp_files (ps_cd_result st))"
    using entry_in_files[OF inv, of "ps_next_entry_idx st"] by simp
  obtain rc st' where o: "open_output_file (cp_files (ps_cd_result st) !
      pe_file_index (pf_entries (this_part st) ! ps_next_entry_idx st)) st = Some (rc, st')"
    and h: "handled fds0 st rc st'"
    using safe_open[OF inv m] by (auto simp: safe_handler_def)
  have "processor_inv fds0 (set_uncompressed_offset 0 st')" if "rc = STREAM_PROC_SUCCESS"
    using that h handled_offset[of fds0 st st' 0] handled_inv by simp
  then have next_header: "rc = STREAM_PROC_SUCCESS \<Longrightarrow> s \<noteq> STATE_ERROR \<Longrightarrow>
      safe_step fds0 (advance off n (set_uncompressed_offset 0 st'\<lparr>ps_next_entry_idx := k, ps_state := s\<rparr>))"
    for n k s
    by (intro safe_advance inv_state) simp_all
  show ?thesis
    unfolding step_expect_header_def if_not_P[OF False]
  proof (rule safe_with_frame[OF inv nw], goal_cases)
    case (1 info)
    have "rc \<noteq> STREAM_PROC_NEED_MORE_DATA" "rc \<noteq> STREAM_PROC_SKIPPED_PADDING"
      using open_output_file_rc[OF o] by auto
    then show ?case
      using False o h inv next_header
      by (auto simp: handle_local_header_def Let_def handled_def
          intro!: safe_return_failure safe_advance inv_state split: option.splits)
  qed
qed

lemma safe_step_frames:
  assumes inv: "processor_inv fds0 st" and nw: "\<not> wrapped_frame ptr"
  shows "safe_step fds0 (step_frames zr ptr off st)"
  unfolding step_frames_def
proof (rule safe_with_frame[OF inv nw], goal_cases)
  case (1 info)
  let ?n = "unat (fi_frame_size info)"
  have zstd: "safe_handler fds0 st (Some (handle_zstd_frame zr (take ?n ptr) (fi_uncompressed_size info) st))"
    using handle_zstd_frame_handled[OF inv] by (auto simp: safe_handler_def) (metis surj_pair)
  have close: "safe_step fds0 (after (close_output_file st) (\<lambda>st1. g (st1\<lparr>ps_state := s\<rparr>)))"
    if "s \<noteq> STATE_ERROR" and "\<And>st1. processor_inv fds0 st1 \<Longrightarrow> safe_step fds0 (g st1)" for s g
    using that by (intro safe_after[OF safe_close[OF inv]]) (auto intro: inv_state dest: handled_inv)
  have sop: "fi_type info = FRAME_BURST_START_OF_PART \<Longrightarrow>
      safe_step fds0 (after (handle_start_of_part_frame ptr st) (advance off ?n))"
    by (intro safe_after[OF safe_start_of_part[OF inv sop_length[OF 1]]] safe_advance handled_inv)
  show ?case
    using inv zstd sop
    by (cases "fi_type info")
       (auto simp: Let_def handle_data_descriptor_def
         intro!: safe_return_failure safe_advance close safe_after[OF zstd] dest: handled_inv)
qed

lemma safe_step_symlink:
  assumes inv: "processor_inv fds0 st"
  shows "safe_step fds0 (step_symlink ptr off st)"
proof (cases "\<exists>fc buf. ps_current_file st = Some fc \<and> fc_symlink_buffer fc = Some buf")
  case True
  then obtain fc buf where fc: "ps_current_file st = Some fc" "fc_symlink_buffer fc = Some buf" by blast
  have ok: "context_ok fc" using inv fc by (simp add: processor_inv_def)
  let ?total = "fc_expected_total_size fc"
  let ?n = "min (length ptr) (unat (?total - of_nat (length buf)))"
  have len: "length buf \<le> unat ?total" and neg: "fc_fd fc < 0"
    and size: "unat (fc_symlink_buffer_size fc) = unat ?total + 1"
    using ok fc by (auto simp: context_ok_def)
  have "unat (of_nat (length buf) :: u64) = length buf"
    using len unat_u64_less[of ?total] by (simp add: unat_of_nat)
  then have need: "unat (?total - of_nat (length buf)) = unat ?total - length buf"
    using len by (simp add: unat_sub word_le_nat_alt)
  let ?st1 = "st\<lparr>ps_current_file := Some (fc\<lparr>fc_symlink_buffer := Some (buf @ take ?n ptr)\<rparr>),
                 ps_bytes_processed := ps_bytes_processed st + of_nat ?n\<rparr>"
  have inv1: "processor_inv fds0 ?st1"
    using inv fc len neg need ok
    by (auto simp: processor_inv_def context_ok_def descriptors_ok_def)
  have fits: "\<not> unat (fc_symlink_buffer_size fc) < length (buf @ take ?n ptr)"
    using len need size by simp
  have close: "safe_step fds0 (after (close_output_file ?st1)
      (\<lambda>st2. Next (off + ?n) (st2\<lparr>ps_state := STATE_EXPECT_LOCAL_HEADER\<rparr>)))"
    by (intro safe_after[OF safe_close[OF inv1]]) (auto intro: inv_state dest: handled_inv)
  show ?thesis
    using fc fits close inv1 by (simp add: step_symlink_def Let_def)
next
  case False
  then show ?thesis
    using inv by (auto simp: step_symlink_def intro!: safe_return_failure split: option.splits)
qed

lemma process_step_safe:
  assumes "processor_inv fds0 st" and "\<not> wrapped_frame (drop off work)"
  shows "safe_step fds0 (process_step zr work off st)"
  using assms
  by (cases "ps_state st")
     (auto simp: process_step_def step_init_def processor_inv_def
       safe_step_continuing safe_step_expect_header safe_step_frames safe_step_symlink)

section \<open>The loop and the whole call\<close>

fun safe_end :: "(int \<Rightarrow> path option) \<Rightarrow> loop_end \<Rightarrow> bool" where
  "safe_end fds0 (Completed st) = processor_inv fds0 st"
| "safe_end fds0 (Buffered off st) = processor_inv fds0 st"
| "safe_end fds0 (Returned rc st) =
     (processor_inv fds0 st \<and> rc \<noteq> STREAM_PROC_SUCCESS \<and> ps_state st = STATE_ERROR \<and>
      ps_error_code st = rc)"
| "safe_end fds0 Crashed = False"

lemma process_loop_safe:
  assumes "process_loop zr work off st = Some r" and "no_wrapped_frames work" and "processor_inv fds0 st"
  shows "safe_end fds0 r"
  using assms
proof (induction arbitrary: fds0 rule: process_loop.raw_induct[rotated, consumes 1])
  case (1 loop zr work off st r)
  show ?case
  proof (cases "off < length work")
    case True
    then have "safe_step fds0 (process_step zr work off st)"
      using 1(3,4) process_step_safe by (simp add: no_wrapped_frames_def)
    then show ?thesis using 1 True by (cases "process_step zr work off st") auto
  next
    case False
    then show ?thesis using 1 by auto
  qed
qed

end
