(* ===== verification/Output_Files.thy ===== *)
theory Output_Files
  imports Stream_Safety
begin

text \<open>
  Creating and closing output files when the operating system refuses nothing: which directories
  \<open>ensure_directory_exists\<close> creates, what \<open>open_output_file\<close> opens, and what
  \<open>close_output_file\<close> leaves behind.
\<close>

section \<open>Components of a path\<close>

abbreviation components :: "bytes \<Rightarrow> bytes list" where
  "components p \<equiv> snd (resolve p)"

lemma split_slash_not_Nil [simp]: "split_slash a \<noteq> []"
  by (cases a) (auto split: list.splits)

lemma split_slash_append:
  "split_slash (a @ slash # b) = split_slash a @ split_slash b"
  by (induction a) (auto split: list.splits)

lemma split_slash_none: "slash \<notin> set a \<Longrightarrow> split_slash a = [a]"
  by (induction a) auto

lemma components_append: "components (a @ slash # b) = components a @ components b"
  by (simp add: resolve_def split_slash_append)

lemma components_Nil [simp]: "components [] = []"
  by (simp add: resolve_def)

lemma components_slash [simp]: "components (a @ [slash]) = components a"
  using components_append[of a "[]"] by simp

lemma components_one: "slash \<notin> set a \<Longrightarrow> a \<noteq> [] \<Longrightarrow> a \<noteq> [dot] \<Longrightarrow> components a = [a]"
  by (simp add: resolve_def split_slash_none)

lemma components_dot [simp]: "components [dot] = []"
  by (simp add: resolve_def)

lemma components_slashes: "components (a @ replicate n slash) = components a"
proof (induction n)
  case (Suc n)
  have "replicate (Suc n) slash = replicate n slash @ [slash]"
    by (simp add: replicate_append_same)
  then show ?case using Suc components_slash[of "a @ replicate n slash"] by simp
qed simp

lemma strip_slashes_split: "\<exists>n. p = strip_slashes p @ replicate n slash"
proof -
  have "rev p = takeWhile (\<lambda>b. b = slash) (rev p) @ dropWhile (\<lambda>b. b = slash) (rev p)" by simp
  then have "p = strip_slashes p @ rev (takeWhile (\<lambda>b. b = slash) (rev p))"
    unfolding strip_slashes_def by (metis rev_append rev_rev_ident)
  moreover have "rev (takeWhile (\<lambda>b. b = slash) (rev p)) =
      replicate (length (takeWhile (\<lambda>b. b = slash) (rev p))) slash"
    by (rule replicate_eqI) (auto dest: set_takeWhileD)
  ultimately show ?thesis by metis
qed

lemma components_strip [simp]: "components (strip_slashes p) = components p"
  using strip_slashes_split[of p] components_slashes by metis

lemma strip_slashes_last: "strip_slashes p \<noteq> [] \<Longrightarrow> last (strip_slashes p) \<noteq> slash"
  unfolding strip_slashes_def
  by (metis (mono_tags, lifting) hd_dropWhile last_rev rev_is_Nil_conv)

lemma hd_strip: "strip_slashes p \<noteq> [] \<Longrightarrow> hd (strip_slashes p) = hd p"
  using strip_slashes_split[of p] by (metis hd_append2)

lemma base_name:
  assumes "q \<noteq> []" and "last q \<noteq> slash"
  obtains b where "q = rev (dropWhile (\<lambda>b. b \<noteq> slash) (rev q)) @ b" and "b \<noteq> []" and "slash \<notin> set b"
proof -
  let ?b = "rev (takeWhile (\<lambda>b. b \<noteq> slash) (rev q))"
  have "q = rev (dropWhile (\<lambda>b. b \<noteq> slash) (rev q)) @ ?b"
    by (metis rev_append rev_rev_ident takeWhile_dropWhile_id)
  moreover have "?b \<noteq> []" using assms by (cases q rule: rev_cases) auto
  moreover have "slash \<notin> set ?b" by (auto dest: set_takeWhileD)
  ultimately show ?thesis using that by blast
qed

text \<open>\<open>dirname\<close> drops the last component, unless that is a dot.\<close>

definition dot_named :: "bytes \<Rightarrow> bool" where
  "dot_named p \<longleftrightarrow>
     takeWhile (\<lambda>b. b \<noteq> slash) (rev (strip_slashes p)) = [dot]"

lemma resolve_dirname:
  assumes "components p \<noteq> []" and "\<not> dot_named p"
  shows "resolve (dirname p) = parent (resolve p)"
proof -
  let ?q = "strip_slashes p"
  let ?d = "rev (dropWhile (\<lambda>b. b \<noteq> slash) (rev ?q))"
  have p: "p \<noteq> []" using assms by auto
  have q: "?q \<noteq> []" using assms(1) by (metis components_strip components_Nil)
  obtain b where qb: "?q = ?d @ b" and b: "b \<noteq> []" "slash \<notin> set b"
    using base_name[OF q strip_slashes_last[OF q]] by blast
  have "b \<noteq> [dot]"
  proof
    assume "b = [dot]"
    have "rev ?q = takeWhile (\<lambda>b. b \<noteq> slash) (rev ?q) @ dropWhile (\<lambda>b. b \<noteq> slash) (rev ?q)" by simp
    then have "takeWhile (\<lambda>b. b \<noteq> slash) (rev ?q) = rev b"
      using qb by (metis append_same_eq rev_append rev_rev_ident)
    then show False using assms(2) \<open>b = [dot]\<close> by (simp add: dot_named_def)
  qed
  with b have cb: "components b = [b]" by (simp add: components_one)
  have hq: "hd ?q = hd p" using q by (rule hd_strip)
  show ?thesis
  proof (cases "?d = []")
    case True
    then have "?q = b" using qb by (metis append_Nil)
    then have "components p = [b]" "hd p \<noteq> slash"
      using cb components_strip[of p] hq b hd_in_set[of b] by auto
    then show ?thesis
      using True p q by (auto simp: dirname_def Let_def parent_def resolve_def prod_eq_iff)
  next
    case False
    then have "last ?d = slash"
      by (metis (mono_tags, lifting) hd_dropWhile last_rev rev_is_Nil_conv)
    then obtain e where e: "?d = e @ [slash]" using False by (metis append_butlast_last_id)
    have "?q = e @ slash # b" using qb e by (metis append.assoc append_Cons append_Nil)
    then have "components p = components e @ [b]"
      using cb components_append[of e b] by (metis components_strip)
    then have butlast: "butlast (components p) = components ?d" using e by simp
    have hd: "hd ?d = hd p" using False qb hq by (metis hd_append2)
    show ?thesis
    proof (cases "strip_slashes ?d = []")
      case True
      then have "components ?d = []" using components_strip[of ?d] by simp
      moreover have "hd p = slash"
        using True strip_slashes_split[of ?d] False hd
        by (metis append_Nil hd_replicate replicate_0)
      ultimately show ?thesis
        using True False p q butlast by (auto simp: dirname_def Let_def parent_def resolve_def prod_eq_iff)
    next
      case ne: False
      have "hd (strip_slashes ?d) = hd p" using hd_strip[OF ne] hd by simp
      then have "fst (resolve (strip_slashes ?d)) = fst (resolve p)"
        using ne p by (simp add: resolve_def)
      moreover have "dirname p = strip_slashes ?d"
        unfolding dirname_def Let_def if_not_P[OF p] if_not_P[OF q] if_not_P[OF False] if_not_P[OF ne]
        by (rule refl)
      ultimately show ?thesis
        using butlast by (simp add: parent_def prod_eq_iff)
    qed
  qed
qed

section \<open>Creating directories\<close>

text \<open>Every prefix of the path is a directory, or not there yet.\<close>

definition dirs_free :: "os_state \<Rightarrow> path \<Rightarrow> bool" where
  "dirs_free os p \<longleftrightarrow>
     (\<forall>k \<le> length (snd p). os_nodes os (fst p, take k (snd p)) \<noteq> None \<longrightarrow> is_dir os (fst p, take k (snd p)))"

definition dirs_there :: "os_state \<Rightarrow> path \<Rightarrow> bool" where
  "dirs_there os p \<longleftrightarrow> (\<forall>k \<le> length (snd p). is_dir os (fst p, take k (snd p)))"

text \<open>Directories were added on the way to \<open>p\<close>, and nothing else changed.\<close>

definition dirs_added :: "path \<Rightarrow> os_state \<Rightarrow> os_state \<Rightarrow> bool" where
  "dirs_added p os os' \<longleftrightarrow>
     (\<forall>q. os_nodes os' q = os_nodes os q \<or>
          os_nodes os q = None \<and> is_dir os' q \<and> (\<exists>k \<le> length (snd p). q = (fst p, take k (snd p)))) \<and>
     same_fds os os' \<and> quiet os' \<and> os_euid os' = os_euid os \<and> os_egid os' = os_egid os \<and>
     os_umask os' = os_umask os"

lemma dirs_added_refl: "quiet os \<Longrightarrow> dirs_added p os os"
  by (simp add: dirs_added_def fds_intros)

lemma dirs_added_is_dir: "dirs_added p os os' \<Longrightarrow> is_dir os q \<Longrightarrow> is_dir os' q"
  unfolding dirs_added_def is_dir_def by (metis option.distinct(1))

lemma dirs_added_trans:
  assumes "dirs_added p os os1" and "dirs_added p os1 os2"
  shows "dirs_added p os os2"
proof -
  have "os_nodes os2 q = os_nodes os q \<or>
      os_nodes os q = None \<and> is_dir os2 q \<and> (\<exists>k \<le> length (snd p). q = (fst p, take k (snd p)))" for q
    using assms dirs_added_is_dir[OF assms(2), of q] unfolding dirs_added_def by metis
  moreover have "same_fds os os2" using assms unfolding dirs_added_def by (blast intro: same_fds_trans)
  ultimately show ?thesis using assms unfolding dirs_added_def by simp
qed

lemma dirs_free_added:
  assumes "dirs_free os p" and "dirs_added p os os'"
  shows "dirs_free os' p"
  using assms dirs_added_is_dir[OF assms(2)] unfolding dirs_free_def dirs_added_def by metis

lemma mkdir_prefix:
  assumes "quiet os" and "dirs_free os p" and "resolve name = (fst p, take k (snd p))"
    and "k \<le> length (snd p)" and "dirs_there os (fst p, take (k - 1) (snd p))"
  shows "\<exists>os'. mkdir_or_exists name os = (True, os') \<and> dirs_added p os os' \<and> is_dir os' (resolve name)"
proof (cases "snd (resolve name) = [] \<or> os_nodes os (resolve name) \<noteq> None")
  case True
  then have "is_dir os (resolve name)"
    using assms(2,3,4) by (auto simp: is_dir_def dirs_free_def)
  then show ?thesis
    using True assms(1)
    by (intro exI[of _ os]) (auto simp: mkdir_or_exists_def sys_mkdir_def Let_def dirs_added_refl)
next
  case False
  let ?q = "resolve name"
  let ?n = "Directory (own_attrs 0x1ED os)"
  have "parent ?q = (fst p, take (k - 1) (snd p))"
    using assms(3,4) by (simp add: parent_def butlast_take)
  then have "is_dir os (parent ?q)"
    using assms(5) by (metis dirs_there_def fst_conv le_refl snd_conv take_all)
  then have m: "mkdir_or_exists name os = (True, set_node ?q ?n os)"
    using False assms(1) by (simp add: mkdir_or_exists_def sys_mkdir_def Let_def)
  have d: "is_dir (set_node ?q ?n os) ?q" by (simp add: is_dir_def set_node_def)
  have "os_nodes (set_node ?q ?n os) r = os_nodes os r \<or>
      os_nodes os r = None \<and> is_dir (set_node ?q ?n os) r \<and>
      (\<exists>k \<le> length (snd p). r = (fst p, take k (snd p)))" for r
  proof (cases "r = ?q")
    case True
    then show ?thesis using False d assms(3,4) by auto
  next
    case False
    then show ?thesis by (simp add: set_node_def)
  qed
  moreover have "same_fds os (set_node ?q ?n os)" by (rule same_fds_set)
  moreover have "os_euid (set_node ?q ?n os) = os_euid os" "os_egid (set_node ?q ?n os) = os_egid os"
    "os_umask (set_node ?q ?n os) = os_umask os" by (simp_all add: set_node_def)
  ultimately have "dirs_added p os (set_node ?q ?n os)"
    using assms(1) unfolding dirs_added_def by simp
  then show ?thesis using m d by blast
qed

lemma components_prefix:
  assumes "pre = [] \<or> last pre = slash"
  shows "components (pre @ x) = components pre @ components x"
proof (cases "pre = []")
  case False
  then have "pre = butlast pre @ [slash]" using assms by (metis append_butlast_last_id)
  then show ?thesis
    using components_append[of "butlast pre" x] components_slash[of "butlast pre"]
    by (metis append.assoc append_Cons append_Nil)
qed simp

lemma dirs_there_take: "dirs_there os (a, xs) \<Longrightarrow> dirs_there os (a, take j xs)"
  by (auto simp: dirs_there_def min_def)

lemma dirs_there_snoc:
  assumes "dirs_there os (a, xs)" and "is_dir os (a, xs @ ys)" and "length ys \<le> 1"
  shows "dirs_there os (a, xs @ ys)"
  unfolding dirs_there_def
proof (intro allI impI, simp)
  fix k assume "k \<le> length xs + length ys"
  show "is_dir os (a, take k xs @ take (k - length xs) ys)"
  proof (cases "k \<le> length xs")
    case True
    then show ?thesis using assms(1) by (simp add: dirs_there_def)
  next
    case False
    then have "k - length xs = length ys"
      using \<open>k \<le> length xs + length ys\<close> assms(3) by linarith
    then show ?thesis using False assms(2) by simp
  qed
qed

lemma dirs_there_added: "dirs_there os p \<Longrightarrow> dirs_added q os os' \<Longrightarrow> dirs_there os' p"
  by (auto simp: dirs_there_def dest: dirs_added_is_dir)

lemma components_short: "slash \<notin> set c \<Longrightarrow> length (components c) \<le> 1"
  by (simp add: resolve_def split_slash_none)

lemma mkdir_loop_quiet:
  assumes "quiet os" and "dirs_free os (resolve (pre @ rest))"
    and "if pre = [] then rest = [] \<or> hd rest \<noteq> slash else last pre = slash"
    and "dirs_there os (fst (resolve (pre @ rest)), components pre)"
  shows "\<exists>os'. mkdir_loop pre rest os = (0, os') \<and> dirs_added (resolve (pre @ rest)) os os' \<and>
               dirs_there os' (resolve (pre @ rest))"
  using assms
proof (induction pre rest os rule: mkdir_loop.induct)
  case (1 pre rest os)
  let ?p = "resolve (pre @ rest)"
  let ?c = "takeWhile (\<lambda>b. b \<noteq> slash) rest" and ?s = "dropWhile (\<lambda>b. b \<noteq> slash) rest"
  have pre: "pre = [] \<or> last pre = slash" using 1(4) by (auto split: if_splits)
  show ?case
  proof (cases "rest = []")
    case True
    then show ?thesis using 1(2,5) by (simp add: mkdir_loop.simps dirs_added_refl)
  next
    case False
    have noslash: "slash \<notin> set ?c" by (auto dest: set_takeWhileD)
    have rest: "rest = ?c @ ?s" by simp
    have snd_p: "snd ?p = components (pre @ ?c) @ components (tl ?s)"
    proof (cases "?s = []")
      case True
      then have "rest = ?c" using rest by (metis append_Nil2)
      moreover have "components (tl ?s) = []" unfolding True by simp
      ultimately show ?thesis by (metis append_Nil2)
    next
      case ne: False
      then have "hd ?s = slash" by (metis (mono_tags, lifting) hd_dropWhile)
      then have "pre @ rest = (pre @ ?c) @ slash # tl ?s" using ne rest by (metis append.assoc list.collapse)
      then show ?thesis by (metis components_append)
    qed
    have comps: "components (pre @ ?c) = components pre @ components ?c"
      using components_prefix[OF pre] .
    have "fst (resolve (pre @ ?c)) = fst ?p"
    proof (cases "pre = []")
      case True
      then have "hd rest \<noteq> slash" using 1(4) False by simp
      then have "?c \<noteq> []" "hd ?c = hd rest" using False by (cases rest, auto)+
      then show ?thesis using True False by (simp add: resolve_def)
    qed (simp add: resolve_def)
    then have name: "resolve (pre @ ?c) = (fst ?p, take (length (components (pre @ ?c))) (snd ?p))"
      using snd_p by (simp add: prod_eq_iff)
    have there: "dirs_there os (fst ?p, take (length (components (pre @ ?c)) - 1) (snd ?p))"
    proof -
      have "length (components ?c) \<le> 1" using noslash by (rule components_short)
      then have "take (length (components (pre @ ?c)) - 1) (snd ?p) =
          take (length (components (pre @ ?c)) - 1) (components pre)"
        using snd_p comps by simp
      then show ?thesis using dirs_there_take[OF 1(5)] by simp
    qed
    have "length (components (pre @ ?c)) \<le> length (snd ?p)" using snd_p by simp
    from mkdir_prefix[OF 1(2,3) name this there]
    obtain os1 where m: "mkdir_or_exists (pre @ ?c) os = (True, os1)" and a1: "dirs_added ?p os os1"
      and d1: "is_dir os1 (resolve (pre @ ?c))" by blast
    have q1: "quiet os1" using a1 by (simp add: dirs_added_def)
    have "dirs_there os1 (fst ?p, components pre)"
      using dirs_there_added[OF 1(5) a1] .
    then have t1: "dirs_there os1 (fst ?p, components (pre @ ?c))"
      using dirs_there_snoc[of os1 "fst ?p" "components pre" "components ?c"] d1 name comps
        components_short[OF noslash] snd_p by (metis append_eq_conv_conj)
    show ?thesis
    proof (cases "?s = []")
      case True
      then have "pre @ rest = pre @ ?c" using rest by (metis append_Nil2)
      then have "dirs_there os1 ?p" using t1 by (metis prod.collapse)
      then show ?thesis
        using m a1 True False by (subst mkdir_loop.simps) simp
    next
      case ne: False
      then have "hd ?s = slash" by (metis (mono_tags, lifting) hd_dropWhile)
      then have whole: "(pre @ ?c @ [slash]) @ tl ?s = pre @ rest"
        using ne rest by (metis append.assoc append_Cons append_Nil list.collapse)
      have "components (pre @ ?c @ [slash]) = components (pre @ ?c)"
        using components_slash[of "pre @ ?c"] by simp
      then have "\<exists>os'. mkdir_loop (pre @ ?c @ [slash]) (tl ?s) os1 = (0, os') \<and>
          dirs_added ?p os1 os' \<and> dirs_there os' ?p"
        using 1(1)[OF False refl refl m[symmetric] _ ne, unfolded whole, OF _ q1]
          dirs_free_added[OF 1(3) a1] t1 by simp
      then show ?thesis
        using m a1 ne False dirs_added_trans[OF a1] by (subst mkdir_loop.simps) auto
    qed
  qed
qed

lemma ensure_directory_exists_quiet:
  assumes "quiet os" and "dirs_free os (resolve (dirname path))"
  shows "\<exists>os'. ensure_directory_exists path os = (0, os') \<and>
               dirs_added (resolve (dirname path)) os os' \<and> dirs_there os' (resolve (dirname path))"
proof -
  let ?d = "dirname path"
  let ?pre = "takeWhile (\<lambda>b. b = slash) ?d" and ?rest = "dropWhile (\<lambda>b. b = slash) ?d"
  have pre: "?pre = replicate (length ?pre) slash"
    by (rule replicate_eqI) (auto dest: set_takeWhileD)
  then have "components ?pre = []"
    by (metis append_Nil components_Nil components_slashes)
  then have "dirs_there os (fst (resolve ?d), components ?pre)"
    by (simp add: dirs_there_def is_dir_def)
  moreover have "if ?pre = [] then ?rest = [] \<or> hd ?rest \<noteq> slash else last ?pre = slash"
    using pre by (metis (mono_tags, lifting) hd_dropWhile last_replicate replicate_0)
  ultimately have "\<exists>os'. mkdir_loop ?pre ?rest os = (0, os') \<and> dirs_added (resolve ?d) os os' \<and>
      dirs_there os' (resolve ?d)"
    using mkdir_loop_quiet[of os ?pre ?rest] assms by simp
  then show ?thesis using assms(1) by (simp add: ensure_directory_exists_def Let_def)
qed

section \<open>Opening a regular file\<close>

text \<open>The file that \<open>open\<close> with \<open>O_CREAT\<close> and mode 0644 leaves at \<open>p\<close>.\<close>

definition file_at :: "os_state \<Rightarrow> path \<Rightarrow> bytes \<times> attrs" where
  "file_at os p =
     (case os_nodes os p of
        Some (Regular c a) \<Rightarrow> (c, a)
      | _ \<Rightarrow> ([], own_attrs 0x1A4 os))"

text \<open>The path can be created: no component on the way is something else than a directory, and
  nothing else than a regular file has its name.\<close>

definition creatable :: "os_state \<Rightarrow> bytes \<Rightarrow> bool" where
  "creatable os name \<longleftrightarrow>
     components name \<noteq> [] \<and> \<not> dot_named name \<and> dirs_free os (parent (resolve name)) \<and>
     (case os_nodes os (resolve name) of None \<Rightarrow> True | Some (Regular c a) \<Rightarrow> True | _ \<Rightarrow> False)"

lemma added_not_self:
  assumes "dirs_added (parent p) os os'" and "snd p \<noteq> []"
  shows "os_nodes os' p = os_nodes os p"
proof -
  have "p \<noteq> (fst (parent p), take k (snd (parent p)))" for k
    using assms(2) by (metis length_butlast length_take min.cobounded1 not_le parent_def
        diff_less length_greater_0_conv less_one min_less_iff_conj snd_conv less_irrefl)
  then show ?thesis using assms(1) unfolding dirs_added_def by metis
qed

lemma open_regular_quiet:
  assumes q: "quiet os" and cr: "creatable os name" and fd: "0 \<le> os_next_fd os"
    and dirs: "dirs_there os (parent (resolve name))"
  shows "\<exists>os'. sys_open name 0x1A4 os = (os_next_fd os, os') \<and>
           os_fds os' = (os_fds os)(os_next_fd os := Some (resolve name)) \<and>
           os_next_fd os' = os_next_fd os + 1 \<and> quiet os' \<and>
           os_nodes os' = (os_nodes os)(resolve name :=
             Some (Regular (fst (file_at os (resolve name))) (snd (file_at os (resolve name))))) \<and>
           os_euid os' = os_euid os"
proof -
  let ?p = "resolve name"
  have "is_dir os (parent ?p)"
    using dirs unfolding dirs_there_def by (metis le_refl prod.collapse take_all)
  then show ?thesis
    using q cr
    by (auto simp: sys_open_def Let_def creatable_def file_at_def quiet_def set_node_def fun_eq_iff
        split: option.splits node.splits)
qed

lemma open_output_file_regular:
  assumes cur: "ps_current_file st = None" and q: "quiet (ps_os st)" and fd: "0 \<le> os_next_fd (ps_os st)"
    and m: "\<not> fm_is_symlink m" "\<not> (fm_filename m \<noteq> [] \<and> last (fm_filename m) = slash)"
    and cr: "creatable (ps_os st) (ps_output_dir st @ slash # fm_filename m)"
  shows "\<exists>os1 os'. let name = ps_output_dir st @ slash # fm_filename m; p = resolve name in
      open_output_file m st =
        Some (STREAM_PROC_SUCCESS,
              st\<lparr>ps_current_file := Some ((context_of name m)\<lparr>fc_fd := os_next_fd (ps_os st)\<rparr>), ps_os := os'\<rparr>) \<and>
      dirs_added (parent p) (ps_os st) os1 \<and>
      os_nodes os' = (os_nodes os1)(p := Some (Regular (fst (file_at (ps_os st) p)) (snd (file_at (ps_os st) p)))) \<and>
      os_fds os' = (os_fds (ps_os st))(os_next_fd (ps_os st) := Some p) \<and>
      os_next_fd os' = os_next_fd (ps_os st) + 1 \<and> quiet os' \<and> os_euid os' = os_euid (ps_os st)"
proof -
  let ?os = "ps_os st" and ?name = "ps_output_dir st @ slash # fm_filename m"
  let ?p = "resolve ?name"
  have par: "resolve (dirname ?name) = parent ?p"
    using cr by (intro resolve_dirname) (auto simp: creatable_def)
  have "dirs_free ?os (resolve (dirname ?name))" unfolding par using cr by (simp add: creatable_def)
  from ensure_directory_exists_quiet[OF q this]
  obtain os1 where e: "ensure_directory_exists ?name ?os = (0, os1)"
    and a: "dirs_added (parent ?p) ?os os1" and t: "dirs_there os1 (parent ?p)"
    unfolding par by blast
  have self: "os_nodes os1 ?p = os_nodes ?os ?p"
    using added_not_self[OF a] cr by (simp add: creatable_def)
  have q1: "quiet os1" "os_fds os1 = os_fds ?os" "os_next_fd os1 = os_next_fd ?os"
    "os_euid os1 = os_euid ?os" "os_egid os1 = os_egid ?os" "os_umask os1 = os_umask ?os"
    using a by (auto simp: dirs_added_def same_fds_def)
  have cr1: "creatable os1 ?name"
    using cr self dirs_free_added[OF _ a] by (simp add: creatable_def)
  have own: "own_attrs 0x1A4 os1 = own_attrs 0x1A4 ?os" using q1 by (simp add: own_attrs_def)
  have same: "file_at os1 ?p = file_at ?os ?p"
    unfolding file_at_def self own by (rule refl)
  obtain os' where o: "sys_open ?name 0x1A4 os1 = (os_next_fd ?os, os')"
    and os': "os_fds os' = (os_fds ?os)(os_next_fd ?os := Some ?p)"
      "os_next_fd os' = os_next_fd ?os + 1" "quiet os'"
      "os_nodes os' = (os_nodes os1)(?p := Some (Regular (fst (file_at ?os ?p)) (snd (file_at ?os ?p))))"
      "os_euid os' = os_euid ?os"
    using open_regular_quiet[OF q1(1) cr1 _ t] fd unfolding same q1 by auto
  have "open_output_file m st =
      Some (STREAM_PROC_SUCCESS,
        st\<lparr>ps_current_file := Some ((context_of ?name m)\<lparr>fc_fd := os_next_fd ?os\<rparr>), ps_os := os'\<rparr>)"
    using cur q fd e o m
    by (auto simp: open_output_file_def close_output_file_def proceed_def open_fresh_file_def
        open_regular_def Let_def)
  then show ?thesis using a os' unfolding Let_def by blast
qed

section \<open>Closing a regular file\<close>

definition restored :: "file_context \<Rightarrow> bool \<Rightarrow> attrs \<Rightarrow> attrs" where
  "restored fc root a =
     (let a1 = (if fc_has_unix_mode fc then a\<lparr>at_mode := fc_unix_mode fc AND 0xFFF\<rparr> else a)
      in if fc_has_unix_extra fc \<and> root then a1\<lparr>at_uid := fc_uid fc, at_gid := fc_gid fc\<rparr> else a1)"

lemma set_node_fields [simp]:
  "os_nodes (set_node p n os) = (os_nodes os)(p := Some n)" "os_fds (set_node p n os) = os_fds os"
  "os_next_fd (set_node p n os) = os_next_fd os" "os_euid (set_node p n os) = os_euid os"
  by (simp_all add: set_node_def)

lemma finalize_fd_quiet:
  assumes "quiet os" and "os_fds os (fc_fd fc) = Some p" and "os_nodes os p = Some (Regular c a)"
    and "0 \<le> sint (fc_expected_total_size fc)"
  shows "os_nodes (finalize_fd fc os) =
           (os_nodes os)(p := Some (Regular (resize (unat (fc_expected_total_size fc)) c)
                                            (restored fc (os_euid os = 0) a)))"
    and "quiet (finalize_fd fc os)" and "os_euid (finalize_fd fc os) = os_euid os"
  using assms
  by (simp_all add: finalize_fd_def sys_ftruncate_def sys_fchmod_def sys_fchown_def on_fd_def
      set_content_def set_attrs_def restored_def Let_def)
     (simp_all add: sys_close_def)

lemma close_output_file_regular:
  assumes "ps_current_file st = Some fc" and "0 \<le> fc_fd fc" and "quiet (ps_os st)"
    and "os_fds (ps_os st) (fc_fd fc) = Some p" and "os_nodes (ps_os st) p = Some (Regular c a)"
    and "0 \<le> sint (fc_expected_total_size fc)" and "\<not> fc_is_symlink fc"
  shows "\<exists>os'. close_output_file st =
             Some (STREAM_PROC_SUCCESS, st\<lparr>ps_current_file := None, ps_os := os'\<rparr>) \<and>
           os_nodes os' = (os_nodes (ps_os st))(p := Some (Regular
               (resize (unat (fc_expected_total_size fc)) c)
               (restored fc (os_euid (ps_os st) = 0) a))) \<and>
           os_fds os' = (os_fds (ps_os st))(fc_fd fc := None) \<and>
           os_next_fd os' = os_next_fd (ps_os st) \<and> quiet os' \<and> os_euid os' = os_euid (ps_os st)"
  using assms finalize_fd_quiet[of "ps_os st" fc p c a] finalize_fd_fds[of fc "ps_os st"]
  by (intro exI[of _ "finalize_fd fc (ps_os st)"]) (simp add: close_output_file_def Let_def)

end
