(* ===== verification/Writer_Spec.thy ===== *)
theory Writer_Spec
  imports Writer_Body
begin

text \<open>
  What \<open>burst_writer_add_file\<close>, \<open>burst_writer_add_symlink\<close> and \<open>burst_writer_add_directory\<close> append
  and the entry they record, as pure functions of the writer they start from, and the proofs that
  the operations refine them.
\<close>

section \<open>Adding an entry\<close>

text \<open>\<open>w'\<close> is \<open>w\<close> after the bytes \<open>d\<close> and the central directory entry \<open>e\<close> were added.\<close>

definition added :: "burst_writer \<Rightarrow> bytes \<Rightarrow> file_entry \<Rightarrow> burst_writer \<Rightarrow> bool" where
  "added w d e w' \<longleftrightarrow>
     writer_wf w' \<and> stream w' = stream w @ d \<and> files w' = files w @ [e] \<and>
     compression_level w' = compression_level w \<and>
     total_uncompressed w' = total_uncompressed w + fe_uncompressed_size e \<and>
     total_compressed w' = total_compressed w + fe_compressed_size e"

definition adds :: "(burst_writer \<Rightarrow> int \<times> burst_writer) \<Rightarrow> burst_writer \<Rightarrow> bytes \<Rightarrow> file_entry \<Rightarrow> bool" where
  "adds f w d e \<longleftrightarrow>
     (\<forall>w'. f w = (0, w') \<longrightarrow>
        added w d e w' \<and> num_files w' \<le> files_capacity w' \<and> (fault_free w \<longrightarrow> fault_free w')) \<and>
     (fault_free w \<longrightarrow> fst (f w) = 0)"

text \<open>What every step before the header leaves alone, and the free slot in the entry array.\<close>

definition prepared :: "burst_writer \<Rightarrow> bytes \<Rightarrow> burst_writer \<Rightarrow> bool" where
  "prepared w d w' \<longleftrightarrow>
     writer_wf w' \<and> stream w' = stream w @ d \<and> files w' = files w \<and>
     compression_level w' = compression_level w \<and>
     total_uncompressed w' = total_uncompressed w \<and> total_compressed w' = total_compressed w \<and>
     num_files w' < files_capacity w' \<and> (fault_free w \<longrightarrow> fault_free w')"

definition slots_ok :: "burst_writer \<Rightarrow> bool" where
  "slots_ok w \<longleftrightarrow> 0 < files_capacity w \<and> num_files w \<le> files_capacity w"

lemma prepared_extend: "prepared w d w1 \<Longrightarrow> extends_by w1 e w2 \<Longrightarrow> (fault_free w1 \<longrightarrow> fault_free w2) \<Longrightarrow>
   prepared w (d @ e) w2"
  by (auto simp: prepared_def extends_by_def keep_def num_files_def)

lemma c_alloc_prepared: "prepared w d w1 \<Longrightarrow> c_alloc w1 = (b, w2) \<Longrightarrow> prepared w d w2"
  using c_alloc_view[of w1 b w2] by (auto simp: prepared_def keep_def num_files_def)

lemma ensure_file_capacity_prepared:
  assumes "writer_wf w" and "slots_ok w"
  shows "ensure_file_capacity w = (0, w1) \<Longrightarrow> prepared w [] w1"
    and "fault_free w \<Longrightarrow> fst (ensure_file_capacity w) = 0"
proof -
  obtain b v where a: "c_alloc w = (b, v)" by fastforce
  note view = c_alloc_view[OF a]
  show "prepared w [] w1" if "ensure_file_capacity w = (0, w1)"
    using that assms a view
    by (auto simp: ensure_file_capacity_def with_alloc_def prepared_def slots_ok_def keep_def
        num_files_def writer_wf_def stream_def fault_free_def buffer_used_def split: if_splits)
  show "fst (ensure_file_capacity w) = 0" if "fault_free w"
    using that a view by (auto simp: ensure_file_capacity_def with_alloc_def)
qed

text \<open>The padding header before an entry that needs \<open>need\<close> bytes.\<close>

definition entry_padding :: "c_time \<Rightarrow> nat \<Rightarrow> nat \<Rightarrow> bytes" where
  "entry_padding ct p need = (if room p < need then padding_lfh ct (room p) else [])"

definition entry_need :: "nat \<Rightarrow> nat \<Rightarrow> bool \<Rightarrow> nat" where
  "entry_need len content has_descriptor = len + content + 44 + (if has_descriptor then 24 else 0)"

lemma check_alignment_and_pad_emits:
  assumes p: "p < 2 ^ 62" and r: "44 \<le> room p" and need: "entry_need len content dd \<le> 65536"
  shows "emits_at p (check_alignment_and_pad ct (of_nat len) (of_nat content) dd)
           (entry_padding ct p (entry_need len content dd))"
proof -
  let ?need = "entry_need len content dd"
  let ?pos = "of_nat p :: u64"
  let ?nw = "of_nat len + of_nat content + PADDING_LFH_MIN_SIZE + (if dd then 24 else 0) :: size_t"
  have pos: "unat ?pos = p" using p by (simp add: unat_of_nat)
  have sp: "unat (alignment_next_boundary ?pos - ?pos) = room p"
    using unat_space_until_boundary[of ?pos] p by (simp add: pos)
  then have sp_eq: "alignment_next_boundary ?pos - ?pos = of_nat (room p)"
    by (simp add: sp[symmetric])
  have "?nw = of_nat ?need" by (simp add: entry_need_def PADDING_LFH_MIN_SIZE_def)
  then have nw: "unat ?nw = ?need" using need by (simp add: unat_of_nat)
  have lt: "(alignment_next_boundary ?pos - ?pos < ?nw) = (room p < ?need)"
    by (simp only: word_less_nat_alt sp nw)
  have "emits (if room p < ?need then write_padding_lfh ct (of_nat (room p)) else (\<lambda>w. (0, w)))
    (entry_padding ct p ?need)"
    using write_padding_lfh_emits[of "room p" ct] r need emits_ret
    by (auto simp: entry_padding_def ret_ok_def[abs_def])
  moreover have "check_alignment_and_pad ct (of_nat len) (of_nat content) dd w =
    (if room p < ?need then write_padding_lfh ct (of_nat (room p)) else (\<lambda>w. (0, w))) w"
    if "writer_wf w" "length (stream w) = p" for w
    unfolding check_alignment_and_pad_def Let_def write_position_eq[OF that(1)] that(2) sp_eq lt[unfolded sp_eq]
    by simp
  ultimately show ?thesis using emits_at_cong emits_at_weaken by blast
qed

lemma entry_padding_room:
  assumes "entry_start s" and "need \<le> 65536"
  shows "aligned (s @ entry_padding ct (length s) need)
         \<and> need \<le> room (length (s @ entry_padding ct (length s) need))"
proof (cases "room (length s) < need")
  case True
  have r: "44 \<le> room (length s)" and al: "aligned s" using assms(1) by (auto simp: entry_start_def)
  have "aligned (s @ padding_lfh ct (room (length s)))"
    using al r by (intro aligned_append) auto
  moreover have "room (length s + room (length s)) = PART" by (intro room_boundary room_add_full)
  ultimately show ?thesis using True r assms(2) by (simp add: entry_padding_def)
next
  case False
  then show ?thesis using assms(1) by (simp add: entry_padding_def entry_start_def)
qed

lemma aligned_entry:
  assumes "aligned s" and "entry_point d" and "0 < length d" and "length d < room (length s)"
  shows "aligned (s @ d) \<and> length (s @ d) mod PART \<noteq> 0
         \<and> room (length (s @ d)) = room (length s) - length d"
  using assms aligned_append[of s d] mod_add_room[of "length d" "length s"]
    room_add[of "length d" "length s"] by auto

text \<open>The steps that the three operations share.\<close>

definition add_entry ::
  "c_time \<Rightarrow> zip_local_header \<Rightarrow> bytes \<Rightarrow> nat \<Rightarrow> bool \<Rightarrow>
     (file_entry \<Rightarrow> burst_writer \<Rightarrow> int \<times> burst_writer) \<Rightarrow> burst_writer \<Rightarrow> int \<times> burst_writer" where
  "add_entry ct lfh tail content dd k =
     then_ok ensure_file_capacity (\<lambda>w1.
       case allocate_file_entry lfh tail w1 of
         (None, w2) \<Rightarrow> (-1, w2)
       | (Some entry, w2) \<Rightarrow>
           then_ok (check_alignment_and_pad ct (of_nat (30 + length tail)) (of_nat content) dd)
             (k entry) w2)"

definition named_entry :: "zip_local_header \<Rightarrow> bytes \<Rightarrow> file_entry" where
  "named_entry lfh tail = empty_entry\<lparr>fe_filename := strndup tail (unat (lh_filename_length lfh))\<rparr>"

abbreviation padding_for :: "c_time \<Rightarrow> burst_writer \<Rightarrow> bytes \<Rightarrow> nat \<Rightarrow> bool \<Rightarrow> bytes" where
  "padding_for ct w tail content dd \<equiv>
     entry_padding ct (length (stream w)) (entry_need (30 + length tail) content dd)"

lemma padding_for_emits:
  assumes "entry_start (stream w)" and "length (stream w) < 2 ^ 62"
    and "entry_need (30 + length tail) content dd \<le> 65536"
  shows "emits_at (length (stream w))
           (check_alignment_and_pad ct (of_nat (30 + length tail)) (of_nat content) dd)
           (padding_for ct w tail content dd)"
  using assms by (intro check_alignment_and_pad_emits) (auto simp: entry_start_def)

lemma add_entry_zero:
  assumes w: "writer_wf w" "slots_ok w" "entry_start (stream w)" "length (stream w) < 2 ^ 62"
    and need: "entry_need (30 + length tail) content dd \<le> 65536"
    and run: "add_entry ct lfh tail content dd k w = (0, w')"
  shows "\<exists>w3. prepared w (padding_for ct w tail content dd) w3 \<and> k (named_entry lfh tail) w3 = (0, w')"
proof -
  let ?check = "check_alignment_and_pad ct (of_nat (30 + length tail)) (of_nat content) dd"
  from run obtain w1 w2 w3 where f1: "ensure_file_capacity w = (0, w1)"
    and f2: "c_alloc w1 = (True, w2)" and f3: "?check w2 = (0, w3)"
    and k: "k (named_entry lfh tail) w3 = (0, w')"
    by (auto simp: add_entry_def then_ok_zero_iff allocate_file_entry_def named_entry_def
        split: prod.splits if_splits)
  have "prepared w [] w1" using ensure_file_capacity_prepared(1)[OF w(1,2) f1] .
  then have p2: "prepared w [] w2" using f2 by (rule c_alloc_prepared)
  then have "writer_wf w2" "length (stream w2) = length (stream w)" by (auto simp: prepared_def)
  from emits_at_extends[OF padding_for_emits[OF w(3,4) need] this f3] prepared_extend[OF p2, of _ w3] k
  show ?thesis by fastforce
qed

lemma add_entry_live:
  assumes w: "writer_wf w" "slots_ok w" "entry_start (stream w)" "length (stream w) < 2 ^ 62"
    and need: "entry_need (30 + length tail) content dd \<le> 65536" and ff: "fault_free w"
  shows "\<exists>w3. prepared w (padding_for ct w tail content dd) w3 \<and>
          add_entry ct lfh tail content dd k w = k (named_entry lfh tail) w3"
proof -
  let ?check = "check_alignment_and_pad ct (of_nat (30 + length tail)) (of_nat content) dd"
  obtain w1 where f1: "ensure_file_capacity w = (0, w1)"
    using ensure_file_capacity_prepared(2)[OF w(1,2) ff] by (metis prod.collapse)
  have p1: "prepared w [] w1" using ensure_file_capacity_prepared(1)[OF w(1,2) f1] .
  obtain w2 where f2: "c_alloc w1 = (True, w2)"
    using c_alloc_view(4)[of w1] p1 ff by (cases "c_alloc w1") (auto simp: prepared_def)
  have p2: "prepared w [] w2" using p1 f2 by (rule c_alloc_prepared)
  then have v: "writer_wf w2" "length (stream w2) = length (stream w)" "fault_free w2"
    using ff by (auto simp: prepared_def)
  from emits_at_returns[OF padding_for_emits[OF w(3,4) need] v]
  obtain w3 where f3: "?check w2 = (0, w3)"
    and e3: "extends_by w2 (padding_for ct w tail content dd) w3" "fault_free w3" by blast
  have "prepared w (padding_for ct w tail content dd) w3"
    using prepared_extend[OF p2 e3(1)] e3(2) by simp
  moreover have "add_entry ct lfh tail content dd k w = k (named_entry lfh tail) w3"
    using f1 f2 f3 by (simp add: add_entry_def then_ok_eq allocate_file_entry_def named_entry_def)
  ultimately show ?thesis by blast
qed

lemma add_entry_adds:
  assumes w: "writer_wf w" "slots_ok w" "entry_start (stream w)" "length (stream w) < 2 ^ 62"
    and need: "entry_need (30 + length tail) content dd \<le> 65536"
    and k: "\<And>w3. prepared w (padding_for ct w tail content dd) w3 \<Longrightarrow>
          adds (k (named_entry lfh tail)) w3 d e"
  shows "adds (add_entry ct lfh tail content dd k) w (padding_for ct w tail content dd @ d) e"
proof -
  have lift: "added w (padding_for ct w tail content dd @ d) e w'"
    if "prepared w (padding_for ct w tail content dd) w3" "added w3 d e w'" for w3 w'
    using that by (simp add: added_def prepared_def)
  show ?thesis
    unfolding adds_def
  proof (intro conjI allI impI)
    fix w' assume "add_entry ct lfh tail content dd k w = (0, w')"
    from add_entry_zero[OF w need this]
    obtain w3 where p: "prepared w (padding_for ct w tail content dd) w3"
      and kw: "k (named_entry lfh tail) w3 = (0, w')" by blast
    from k[OF p] kw have a: "added w3 d e w'" "num_files w' \<le> files_capacity w'"
      "fault_free w3 \<longrightarrow> fault_free w'" by (auto simp: adds_def)
    show "added w (padding_for ct w tail content dd @ d) e w'" using p a(1) by (rule lift)
    show "num_files w' \<le> files_capacity w'" by (rule a)
    show "fault_free w'" if "fault_free w" using that a(3) p by (simp add: prepared_def)
  next
    assume ff: "fault_free w"
    from add_entry_live[OF w need ff, of ct lfh k]
    obtain w3 where p: "prepared w (padding_for ct w tail content dd) w3"
      and "add_entry ct lfh tail content dd k w = k (named_entry lfh tail) w3" by blast
    with k[OF p] ff show "fst (add_entry ct lfh tail content dd k w) = 0"
      by (simp add: adds_def prepared_def)
  qed
qed

section \<open>Symbolic links and directories\<close>

text \<open>What holds between two entries of the archive, and what a caller's header satisfies.\<close>

definition archive_inv :: "burst_writer \<Rightarrow> bool" where
  "archive_inv w \<longleftrightarrow> writer_wf w \<and> slots_ok w \<and> entry_start (stream w)"

definition header_ok :: "zip_local_header \<Rightarrow> bytes \<Rightarrow> nat \<Rightarrow> bool \<Rightarrow> bool" where
  "header_ok lfh tail content dd \<longleftrightarrow>
     lh_signature lfh = ZIP_LOCAL_FILE_HEADER_SIG \<and>
     entry_need (30 + length tail) content dd \<le> 65536"

lemma archive_inv_added:
  "archive_inv w \<Longrightarrow> added w d e w' \<Longrightarrow> num_files w' \<le> files_capacity w' \<Longrightarrow>
   entry_start (stream w @ d) \<Longrightarrow> archive_inv w'"
  by (auto simp: archive_inv_def added_def slots_ok_def num_files_def)

lemma entry_pos:
  "prepared w pad w3 \<Longrightarrow>
   current_offset w3 + of_nat (buffer_used w3) = (of_nat (length (stream w) + length pad) :: u64)"
  using write_position_eq[of w3] by (auto simp: prepared_def alignment_get_write_position_def)

lemma entry_start_header:
  fixes ct :: c_time
  assumes "entry_start s" and "header_ok lfh tail (length content) dd"
  defines "pad \<equiv> entry_padding ct (length s) (entry_need (30 + length tail) (length content) dd)"
  shows "aligned (s @ pad @ local_header_bytes lfh @ tail @ content)"
    and "length (s @ pad @ local_header_bytes lfh @ tail @ content) mod PART \<noteq> 0"
    and "44 + (if dd then 24 else 0) \<le> room (length (s @ pad @ local_header_bytes lfh @ tail @ content))"
proof -
  let ?need = "entry_need (30 + length tail) (length content) dd"
  let ?d = "local_header_bytes lfh @ tail @ content"
  have r: "aligned (s @ pad)" "?need \<le> room (length (s @ pad))"
    using entry_padding_room[OF assms(1), of ?need ct] assms(2) by (auto simp: header_ok_def pad_def)
  moreover have "length ?d < room (length (s @ pad))"
    using r(2) by (simp add: entry_need_def)
  moreover have "entry_point ?d" using assms(2) by (simp add: header_ok_def entry_point_lfh)
  ultimately have a: "aligned ((s @ pad) @ ?d)" "length ((s @ pad) @ ?d) mod PART \<noteq> 0"
    "room (length ((s @ pad) @ ?d)) = room (length (s @ pad)) - length ?d"
    using aligned_entry[of "s @ pad" ?d] by auto
  from a(1) show "aligned (s @ pad @ ?d)" by simp
  from a(2) show "length (s @ pad @ ?d) mod PART \<noteq> 0" by (simp add: add.assoc)
  have "44 + (if dd then 24 else 0) \<le> room (length ((s @ pad) @ ?d))"
    using a(3) r(2) by (simp add: entry_need_def)
  then show "44 + (if dd then 24 else 0) \<le> room (length (s @ pad @ ?d))" by simp
qed

lemma extends_by_done:
  assumes "extends_by w3 d v"
    and "w' = v\<lparr>files := files v @ [e],
                total_uncompressed := total_uncompressed v + fe_uncompressed_size e,
                total_compressed := total_compressed v + fe_compressed_size e\<rparr>"
  shows "added w3 d e w'" and "files_capacity w' = files_capacity w3" and "num_files w' = num_files w3 + 1"
    and "fault_free w' = fault_free v"
  using assms
  by (auto simp: added_def extends_by_def keep_def writer_wf_def stream_def num_files_def
      buffer_used_def fault_free_def)

lemma adds_write_done:
  assumes p: "prepared w pad w3" and em: "emits_at (length (stream w3)) f d"
    and fin: "\<And>v. finish v = (0, v\<lparr>files := files v @ [e],
                total_uncompressed := total_uncompressed v + fe_uncompressed_size e,
                total_compressed := total_compressed v + fe_compressed_size e\<rparr>)"
  shows "adds (then_ok f finish) w3 d e"
proof -
  have wf: "writer_wf w3" and cap: "num_files w3 < files_capacity w3"
    using p by (simp_all add: prepared_def)
  have "added w3 d e w' \<and> num_files w' \<le> files_capacity w' \<and> (fault_free w3 \<longrightarrow> fault_free w')"
    if v: "f w3 = (0, v)" and w': "finish v = (0, w')" for v w'
  proof -
    have ext: "extends_by w3 d v" and ff: "fault_free w3 \<longrightarrow> fault_free v"
      using emits_at_extends[OF em wf refl v] by auto
    show ?thesis using extends_by_done[OF ext, of w' e] w' fin[of v] cap ff by auto
  qed
  moreover have "fst (then_ok f finish w3) = 0" if "fault_free w3"
    using emits_at_returns[OF em wf refl that] fin by (auto simp: then_ok_eq)
  ultimately show ?thesis by (auto simp: adds_def then_ok_zero_iff)
qed

text \<open>The bytes and the entry of a symbolic link and of a directory.\<close>

definition symlink_entry ::
  "zip_local_header \<Rightarrow> bytes \<Rightarrow> bytes \<Rightarrow> nat \<Rightarrow> u32 \<Rightarrow> u32 \<Rightarrow> u32 \<Rightarrow> file_entry" where
  "symlink_entry lfh tail target pos unix_mode uid gid =
     (populate_entry_metadata lfh (of_nat pos) unix_mode uid gid (named_entry lfh tail))
       \<lparr>fe_crc32 := lh_crc32 lfh, fe_compressed_size := of_nat (length target),
        fe_uncompressed_size := of_nat (length target), fe_used_zip64_descriptor := False\<rparr>"

definition directory_entry ::
  "zip_local_header \<Rightarrow> bytes \<Rightarrow> nat \<Rightarrow> u32 \<Rightarrow> u32 \<Rightarrow> u32 \<Rightarrow> file_entry" where
  "directory_entry lfh tail pos unix_mode uid gid =
     (populate_entry_metadata lfh (of_nat pos) unix_mode uid gid (named_entry lfh tail))
       \<lparr>fe_crc32 := 0, fe_compressed_size := 0, fe_uncompressed_size := 0,
        fe_used_zip64_descriptor := False\<rparr>"

lemma burst_writer_add_symlink_adds:
  assumes w: "archive_inv w" "length (stream w) < 2 ^ 62"
    and h: "header_ok lfh tail (length target) False" and t: "target \<noteq> []"
  shows "adds (burst_writer_add_symlink env lfh tail target unix_mode uid gid) w
           (padding_for (env_time env) w tail (length target) False @ local_header_bytes lfh @ tail @ target)
           (symlink_entry lfh tail target
              (length (stream w) + length (padding_for (env_time env) w tail (length target) False)) unix_mode uid gid)"
proof -
  let ?pad = "padding_for (env_time env) w tail (length target) False"
  let ?e = "symlink_entry lfh tail target (length (stream w) + length ?pad) unix_mode uid gid"
  let ?k = "\<lambda>entry0 w3. let entry = (populate_entry_metadata lfh
                            (current_offset w3 + of_nat (buffer_used w3))
                            unix_mode uid gid entry0)
                              \<lparr>fe_crc32 := lh_crc32 lfh,
                               fe_compressed_size := of_nat (length target),
                               fe_uncompressed_size := of_nat (length target),
                               fe_used_zip64_descriptor := False\<rparr>
                      in then_ok (burst_writer_write (local_header_bytes lfh @ tail))
                           (then_ok (burst_writer_write target) (file_done entry)) w3"
  have k: "adds (?k (named_entry lfh tail)) w3 (local_header_bytes lfh @ tail @ target) ?e"
    if p: "prepared w ?pad w3" for w3
  proof -
    have eq: "?k (named_entry lfh tail) w3 =
      then_ok (then_ok (burst_writer_write (local_header_bytes lfh @ tail)) (burst_writer_write target))
        (file_done ?e) w3"
      unfolding entry_pos[OF p] Let_def symlink_entry_def[symmetric]
      by (auto simp: then_ok_def split: prod.splits)
    have "emits (then_ok (burst_writer_write (local_header_bytes lfh @ tail)) (burst_writer_write target))
      ((local_header_bytes lfh @ tail) @ target)"
      by (intro emits_then emits_write)
    from adds_write_done[OF p emits_at_weaken[OF this] file_done_def] eq show ?thesis by (simp add: adds_def)
  qed
  have "burst_writer_add_symlink env lfh tail target unix_mode uid gid w =
    add_entry (env_time env) lfh tail (length target) False ?k w"
    using t by (simp only: burst_writer_add_symlink_def add_entry_def if_False)
  moreover have "adds (add_entry (env_time env) lfh tail (length target) False ?k) w
    (?pad @ local_header_bytes lfh @ tail @ target) ?e"
    using w h k by (intro add_entry_adds) (auto simp: archive_inv_def header_ok_def)
  ultimately show ?thesis by (simp add: adds_def)
qed

definition directory_header_ok :: "zip_local_header \<Rightarrow> bytes \<Rightarrow> bool" where
  "directory_header_ok lfh tail \<longleftrightarrow>
     lh_filename_length lfh \<noteq> 0 \<and> unat (lh_filename_length lfh) \<le> length tail \<and>
     tail ! (unat (lh_filename_length lfh) - 1) = 0x2f \<and>
     lh_compression_method lfh = ZIP_METHOD_STORE \<and> lh_compressed_size lfh = 0 \<and>
     lh_uncompressed_size lfh = 0"

lemma burst_writer_add_directory_adds:
  assumes w: "archive_inv w" "length (stream w) < 2 ^ 62"
    and h: "header_ok lfh tail 0 False" and d: "directory_header_ok lfh tail"
  shows "adds (burst_writer_add_directory env lfh tail unix_mode uid gid) w
           (padding_for (env_time env) w tail 0 False @ local_header_bytes lfh @ tail)
           (directory_entry lfh tail
              (length (stream w) + length (padding_for (env_time env) w tail 0 False)) unix_mode uid gid)"
proof -
  let ?pad = "padding_for (env_time env) w tail 0 False"
  let ?e = "directory_entry lfh tail (length (stream w) + length ?pad) unix_mode uid gid"
  let ?k = "\<lambda>entry0 w3. let entry = (populate_entry_metadata lfh
                            (current_offset w3 + of_nat (buffer_used w3))
                            unix_mode uid gid entry0)
                              \<lparr>fe_crc32 := 0, fe_compressed_size := 0, fe_uncompressed_size := 0,
                               fe_used_zip64_descriptor := False\<rparr>
                      in then_ok (burst_writer_write (local_header_bytes lfh @ tail))
                           (directory_done entry) w3"
  have k: "adds (?k (named_entry lfh tail)) w3 (local_header_bytes lfh @ tail) ?e"
    if p: "prepared w ?pad w3" for w3
  proof -
    have "directory_done ?e v = (0, v\<lparr>files := files v @ [?e],
            total_uncompressed := total_uncompressed v + fe_uncompressed_size ?e,
            total_compressed := total_compressed v + fe_compressed_size ?e\<rparr>)" for v
      by (simp add: directory_done_def directory_entry_def)
    from adds_write_done[OF p emits_at_weaken[OF emits_write] this]
    show ?thesis
      by (simp add: adds_def entry_pos[OF p] directory_entry_def Let_def)
  qed
  have g: "(lh_filename_length lfh = 0 \<or> length tail < unat (lh_filename_length lfh)
         \<or> tail ! (unat (lh_filename_length lfh) - 1) \<noteq> 0x2f) = False"
    "(lh_compression_method lfh \<noteq> ZIP_METHOD_STORE \<or> lh_compressed_size lfh \<noteq> 0
           \<or> lh_uncompressed_size lfh \<noteq> 0) = False"
    using d by (simp_all add: directory_header_ok_def)
  have z: "(of_nat 0 :: size_t) = 0" by simp
  have "burst_writer_add_directory env lfh tail unix_mode uid gid w =
    add_entry (env_time env) lfh tail 0 False ?k w"
    unfolding burst_writer_add_directory_def add_entry_def g if_False z by (rule refl)
  moreover have "adds (add_entry (env_time env) lfh tail 0 False ?k) w
    (?pad @ local_header_bytes lfh @ tail) ?e"
    using w h k by (intro add_entry_adds) (auto simp: archive_inv_def header_ok_def)
  ultimately show ?thesis by (simp add: adds_def)
qed

section \<open>Files\<close>

text \<open>What is appended between the last frame and the descriptor.\<close>

definition trailer_items :: "nat \<Rightarrow> nat \<Rightarrow> nat \<Rightarrow> item list" where
  "trailer_items r off descriptor_size =
     (if r < descriptor_size + 52 then [Pad (r - 8), Sop off] else [])"

lemma trailer_items_simps [simp]:
  "payload (trailer_items r off n) = []" "sops_ok off (trailer_items r off n)"
  by (simp_all add: trailer_items_def)

lemma trailer_entry_start:
  assumes "mid_file s" and "length d \<le> 24"
  shows "entry_start (s @ items_bytes (trailer_items (room (length s)) off (length d)) @ d)"
proof -
  let ?r = "room (length s)"
  have s: "aligned s" "length s mod PART \<noteq> 0" "8 \<le> ?r" using assms(1) by (auto simp: mid_file_def)
  show ?thesis
  proof (cases "?r < length d + 52")
    case True
    let ?t = "s @ padding_frame (?r - 8)"
    have "aligned ?t \<and> length ?t mod PART = 0" using s by (intro aligned_fill) auto
    then have "aligned (?t @ sop_frame (of_nat off) @ d) \<and>
      room (length (?t @ sop_frame (of_nat off) @ d)) = PART - (24 + length d)"
      using aligned_at_boundary[of ?t "sop_frame (of_nat off) @ d"] assms(2) by simp
    then show ?thesis using True assms(2) by (simp add: trailer_items_def entry_start_def)
  next
    case False
    with aligned_inside[OF s(1,2), of d] show ?thesis
      by (simp add: trailer_items_def entry_start_def)
  qed
qed

lemma pad_before_descriptor_emits:
  assumes p: "p < 2 ^ 62" and r: "8 \<le> room p"
    and n: "n = unat (get_data_descriptor_size (fe_compressed_size e) (fe_uncompressed_size e))"
  shows "emits_at p (pad_before_descriptor e (of_nat off)) (items_bytes (trailer_items (room p) off n))"
proof -
  let ?pos = "of_nat p :: u64"
  let ?ds = "get_data_descriptor_size (fe_compressed_size e) (fe_uncompressed_size e)"
  have pos: "unat ?pos = p" using p by (simp add: unat_of_nat)
  have sp: "unat (alignment_next_boundary ?pos - ?pos) = room p"
    using unat_space_until_boundary[of ?pos] p by (simp add: pos)
  then have sp_eq: "alignment_next_boundary ?pos - ?pos = of_nat (room p)" by (simp add: sp[symmetric])
  have "unat (?ds + PADDING_LFH_MIN_SIZE + BURST_MIN_SKIPPABLE_FRAME_SIZE) = n + 52"
    by (simp add: n get_data_descriptor_size_def PADDING_LFH_MIN_SIZE_def BURST_MIN_SKIPPABLE_FRAME_SIZE_def)
  then have lt: "(of_nat (room p) < ?ds + PADDING_LFH_MIN_SIZE + BURST_MIN_SKIPPABLE_FRAME_SIZE)
      = (room p < n + 52)"
    by (simp only: word_less_nat_alt sp[unfolded sp_eq])
  have m8: "(of_nat (room p) - 8 :: u64) = of_nat (room p - 8)" using r by (simp add: of_nat_diff)
  let ?g = "if room p < n + 52 then then_ok (alignment_write_padding_frame (of_nat (room p - 8)))
                (alignment_write_start_of_part_frame (of_nat off)) else (\<lambda>w. (0, w))"
  have "emits ?g (items_bytes (trailer_items (room p) off n))"
    using padding_then_sop_emits[OF r room_bounds(2), of "of_nat off"] emits_ret
    by (auto simp: trailer_items_def ret_ok_def[abs_def] simp del: of_nat_diff)
  moreover have "pad_before_descriptor e (of_nat off) w = ?g w"
    if "writer_wf w" "length (stream w) = p" for w
    unfolding pad_before_descriptor_def Let_def write_position_eq[OF that(1)] that(2) sp_eq lt m8
    by simp
  ultimately show ?thesis using emits_at_cong emits_at_weaken by blast
qed

text \<open>The entry of a file whose header is at \<open>pos\<close>: before the data, and after.\<close>

definition file_entry_start ::
  "zip_local_header \<Rightarrow> bytes \<Rightarrow> nat \<Rightarrow> u32 \<Rightarrow> u32 \<Rightarrow> u32 \<Rightarrow> file_entry" where
  "file_entry_start lfh tail pos unix_mode uid gid =
     (populate_entry_metadata lfh (of_nat pos) unix_mode uid gid (named_entry lfh tail))
       \<lparr>fe_compressed_start_offset := of_nat (pos + 30 + length tail),
        fe_uncompressed_start_offset := 0\<rparr>"

definition file_entry_end :: "file_entry \<Rightarrow> u32 \<Rightarrow> u64 \<Rightarrow> u64 \<Rightarrow> file_entry" where
  "file_entry_end e crc csize usize =
     e\<lparr>fe_compressed_size := csize, fe_uncompressed_size := usize, fe_crc32 := crc,
       fe_used_zip64_descriptor := csize > 0xFFFFFFFF \<or> usize > 0xFFFFFFFF\<rparr>"

abbreviation wide :: "u64 \<Rightarrow> u64 \<Rightarrow> bool" where
  "wide csize usize \<equiv> csize > 0xFFFFFFFF \<or> usize > 0xFFFFFFFF"

text \<open>The trailing items and the descriptor of a file whose last frame ends at \<open>p\<close>.\<close>

definition file_tail :: "nat \<Rightarrow> u32 \<Rightarrow> u64 \<Rightarrow> nat \<Rightarrow> bytes" where
  "file_tail p crc csize usize =
     items_bytes (trailer_items (room p) usize (if wide csize (of_nat usize) then 24 else 16)) @
     data_descriptor crc csize (of_nat usize) (wide csize (of_nat usize))"

lemma file_tail_entry_start:
  "mid_file s \<Longrightarrow> entry_start (s @ file_tail (length s) crc csize usize)"
  using trailer_entry_start[of s "data_descriptor crc csize (of_nat usize) (wide csize (of_nat usize))" usize]
  by (simp add: file_tail_def)

lemma finish_file_adds:
  assumes p: "prepared w pad v" and mid: "8 \<le> room (length (stream v))" "length (stream v) < 2 ^ 62"
    and start: "fe_compressed_start_offset e = of_nat st" "st \<le> length (stream v)"
  defines "csize \<equiv> of_nat (length (stream v) - st)"
  shows "adds (finish_file crc (of_nat usize) e) v (file_tail (length (stream v)) crc csize usize)
           (file_entry_end e crc csize (of_nat usize))"
proof -
  let ?e = "file_entry_end e crc csize (of_nat usize)" and ?p = "length (stream v)"
  have wf: "writer_wf v" using p by (simp add: prepared_def)
  have "current_offset v + of_nat (buffer_used v) = of_nat ?p"
    using write_position_eq[OF wf] by (simp add: alignment_get_write_position_def)
  then have se: "sized_entry crc (of_nat usize) e v = ?e"
    using start by (simp add: sized_entry_def file_entry_end_def csize_def of_nat_diff Let_def)
  let ?n = "if wide csize (of_nat usize) then 24 else 16 :: nat"
  have "?n = unat (get_data_descriptor_size (fe_compressed_size ?e) (fe_uncompressed_size ?e))"
    by (simp add: get_data_descriptor_size_def file_entry_end_def)
  note pad = pad_before_descriptor_emits[OF mid(2,1) this, of usize]
  have "emits_at ?p (then_ok (pad_before_descriptor ?e (of_nat usize))
      (write_data_descriptor crc csize (of_nat usize) (wide csize (of_nat usize))))
    (file_tail ?p crc csize usize)"
    unfolding file_tail_def
    by (intro emits_at_then pad emits_at_weaken write_data_descriptor_emits)
  from adds_write_done[OF p this file_done_def[of ?e]]
  show ?thesis
    by (simp add: adds_def finish_file_def Let_def se then_ok_assoc) (simp add: file_entry_end_def)
qed

lemma with_two_allocs_cases:
  assumes "prepared w d v"
  shows "with_two_allocs f v = (0, w') \<Longrightarrow> \<exists>v2. prepared w d v2 \<and> stream v2 = stream v \<and> f v2 = (0, w')"
    and "fault_free w \<Longrightarrow> \<exists>v2. prepared w d v2 \<and> stream v2 = stream v \<and> with_two_allocs f v = f v2"
proof -
  obtain b1 v1 where a1: "c_alloc v = (b1, v1)" by fastforce
  obtain b2 v2 where a2: "c_alloc v1 = (b2, v2)" by fastforce
  have p1: "prepared w d v1" using assms a1 by (rule c_alloc_prepared)
  then have p2: "prepared w d v2" using a2 by (rule c_alloc_prepared)
  have st: "stream v2 = stream v" using assms p2 by (simp add: prepared_def)
  show "\<exists>v2. prepared w d v2 \<and> stream v2 = stream v \<and> f v2 = (0, w')"
    if "with_two_allocs f v = (0, w')"
    using that a1 a2 p2 st by (auto simp: with_two_allocs_def split: if_splits)
  show "\<exists>v2. prepared w d v2 \<and> stream v2 = stream v \<and> with_two_allocs f v = f v2" if "fault_free w"
    using that a1 a2 p1 p2 st assms c_alloc_view(4)[OF a1] c_alloc_view(4)[OF a2]
    by (auto simp: with_two_allocs_def prepared_def)
qed

text \<open>The body of a file that starts at \<open>p\<close>: the items of the data, and all bytes after the header.\<close>

definition file_items :: "writer_env \<Rightarrow> int \<Rightarrow> nat \<Rightarrow> bytes \<Rightarrow> item list option" where
  "file_items env level p d = body_items (frame_of env level) p 0 (chunks d)"

definition file_crc :: "writer_env \<Rightarrow> bytes \<Rightarrow> u32" where
  "file_crc env d = foldl (env_crc32 env) 0 (chunks d)"

definition file_body :: "writer_env \<Rightarrow> nat \<Rightarrow> bytes \<Rightarrow> item list \<Rightarrow> bytes" where
  "file_body env p d its =
     items_bytes its @
     file_tail (p + length (items_bytes its)) (file_crc env d)
       (of_nat (length (items_bytes its))) (length d)"

definition file_entry_done :: "writer_env \<Rightarrow> file_entry \<Rightarrow> bytes \<Rightarrow> item list \<Rightarrow> file_entry" where
  "file_entry_done env e d its =
     file_entry_end e (file_crc env d) (of_nat (length (items_bytes its))) (of_nat (length d))"

lemma file_items_length:
  assumes "frames_fit env" and "budget p (length cs)"
    and "body_items (frame_of env level) p off cs = Some its"
  shows "p + length (items_bytes its) < 2 ^ 62"
  using assms(2,3)
proof (induction cs arbitrary: p off its)
  case Nil
  then show ?case by (simp add: budget_def)
next
  case (Cons c cs)
  from Cons.prems(2) obtain f jts where f: "frame_of env level c = Some f"
    and jts: "body_items (frame_of env level)
      (p + length (items_bytes (frame_items (room p) off c f))) (off + length c) cs = Some jts"
    and its: "its = frame_items (room p) off c f @ jts"
    by (auto simp: Let_def split: option.splits)
  have "length (items_bytes (frame_items (room p) off c f)) \<le> 2 * PART"
    using length_frame_items[of p off c f] frames_fitD[OF assms(1) f] by linarith
  with Cons.prems(1) have "budget (p + length (items_bytes (frame_items (room p) off c f))) (length cs)"
    using budget_step(1) by simp
  from Cons.IH[OF this jts] its show ?case by simp
qed

lemma add_file_body_refines:
  assumes env: "frames_fit env" and p: "prepared w pre v" and mid: "mid_file (stream v)"
    and bud: "budget (length (stream v)) (length (chunks (readable inp)))"
    and inp: "\<not> in_eof inp" "\<not> in_error inp" and lfh: "\<not> is_header_only lfh"
    and start: "fe_compressed_start_offset e = of_nat (length (stream v))"
  shows "add_file_body env inp lfh e v = (0, w') \<Longrightarrow>
         \<exists>its. file_items env (compression_level w) (length (stream v)) (readable inp) = Some its
           \<and> \<not> read_fails inp
           \<and> added w (pre @ file_body env (length (stream v)) (readable inp) its)
               (file_entry_done env e (readable inp) its) w'
           \<and> num_files w' \<le> files_capacity w' \<and> (fault_free w \<longrightarrow> fault_free w')"
    (is "?run = _ \<Longrightarrow> _")
    and "fault_free w \<Longrightarrow> \<not> read_fails inp \<Longrightarrow>
         file_items env (compression_level w) (length (stream v)) (readable inp) \<noteq> None \<Longrightarrow>
         fst (add_file_body env inp lfh e v) = 0"
proof -
  let ?p = "length (stream v)" and ?d = "readable inp"
  let ?k = "\<lambda>v. case compress_loop env inp 0 0 v of (rc, inp1, crc, total_read, w1) \<Rightarrow>
         if rc \<noteq> 0 then (-1, w1) else if in_error inp1 then (-1, w1)
         else finish_file crc total_read e w1"
  have body: "add_file_body env inp lfh e v = with_two_allocs ?k v"
    using lfh by (simp add: add_file_body_def)
  have loop: "loop_post env inp 0 0 v2 (compress_loop env inp 0 0 v2)"
    if "prepared w pre v2" "stream v2 = stream v" for v2
    using compress_loop_refines[OF env, of v2 inp 0 0] that mid bud inp by (simp add: prepared_def)
  have level: "compression_level v2 = compression_level w" if "prepared w pre v2" for v2
    using that by (simp add: prepared_def)
  have fin: "adds (finish_file (file_crc env ?d) (of_nat (length ?d)) e) v3
        (file_tail (?p + length (items_bytes its)) (file_crc env ?d) (of_nat (length (items_bytes its))) (length ?d))
        (file_entry_done env e ?d its)"
    and p3: "prepared w (pre @ items_bytes its) v3"
    if p2: "prepared w pre v2" and st: "stream v2 = stream v"
      and its: "file_items env (compression_level w) ?p ?d = Some its"
      and ex: "extends_by v2 (items_bytes its) v3" "fault_free v2 \<longrightarrow> fault_free v3" for v2 v3 its
  proof -
    show pr: "prepared w (pre @ items_bytes its) v3" using p2 ex by (rule prepared_extend)
    have s3: "stream v3 = stream v @ items_bytes its" using ex st by (simp add: extends_by_def)
    have "mid_file (stream v3)"
      using body_items_mid[OF mid its[unfolded file_items_def] frames_fitD[OF env]] s3 by simp
    moreover have "length (stream v3) < 2 ^ 62"
      using file_items_length[OF env bud its[unfolded file_items_def]] s3 by simp
    ultimately show "adds (finish_file (file_crc env ?d) (of_nat (length ?d)) e) v3
        (file_tail (?p + length (items_bytes its)) (file_crc env ?d) (of_nat (length (items_bytes its))) (length ?d))
        (file_entry_done env e ?d its)"
      using finish_file_adds[OF pr _ _ start, of "file_crc env ?d" "length ?d"] s3
      by (simp add: mid_file_def file_entry_done_def)
  qed
  show "\<exists>its. file_items env (compression_level w) ?p ?d = Some its \<and> \<not> read_fails inp
      \<and> added w (pre @ file_body env ?p ?d its) (file_entry_done env e ?d its) w'
      \<and> num_files w' \<le> files_capacity w' \<and> (fault_free w \<longrightarrow> fault_free w')" if "?run = (0, w')"
  proof -
    from with_two_allocs_cases(1)[OF p that[unfolded body]]
    obtain v2 where p2: "prepared w pre v2" and st: "stream v2 = stream v" and k: "?k v2 = (0, w')" by blast
    obtain rc inp1 crc n v3 where run: "compress_loop env inp 0 0 v2 = (rc, inp1, crc, n, v3)"
      using prod_cases5 by blast
    with k have rc: "rc = 0" "\<not> in_error inp1" and ff: "finish_file crc n e v3 = (0, w')"
      by (auto split: if_splits)
    from loop[OF p2 st] run rc inp st level[OF p2] obtain its
      where its: "file_items env (compression_level w) ?p ?d = Some its"
        and ex: "extends_by v2 (items_bytes its) v3" "fault_free v2 \<longrightarrow> fault_free v3"
        and vals: "crc = file_crc env ?d" "n = of_nat (length ?d)" "\<not> read_fails inp"
      by (auto simp: loop_post_def Let_def file_items_def file_crc_def)
    from fin[OF p2 st its ex] ff vals p3[OF p2 st its ex]
    have "added v3 (file_tail (?p + length (items_bytes its)) (file_crc env ?d)
             (of_nat (length (items_bytes its))) (length ?d)) (file_entry_done env e ?d its) w'"
      "num_files w' \<le> files_capacity w'" "fault_free v3 \<longrightarrow> fault_free w'"
      by (auto simp: adds_def)
    with its vals p3[OF p2 st its ex] show ?thesis
      by (auto simp: added_def prepared_def file_body_def)
  qed
  show "fst (add_file_body env inp lfh e v) = 0"
    if ff: "fault_free w" and rf: "\<not> read_fails inp"
      and some: "file_items env (compression_level w) ?p ?d \<noteq> None"
  proof -
    from with_two_allocs_cases(2)[OF p ff, of ?k]
    obtain v2 where p2: "prepared w pre v2" and st: "stream v2 = stream v"
      and k: "with_two_allocs ?k v = ?k v2" by blast
    obtain rc inp1 crc n v3 where run: "compress_loop env inp 0 0 v2 = (rc, inp1, crc, n, v3)"
      using prod_cases5 by blast
    from loop[OF p2 st] run inp st level[OF p2] rf some ff p2 obtain its
      where its: "file_items env (compression_level w) ?p ?d = Some its" and rc: "rc = 0" "\<not> in_error inp1"
        and ex: "extends_by v2 (items_bytes its) v3" "fault_free v3"
        and vals: "crc = file_crc env ?d" "n = of_nat (length ?d)"
      by (auto simp: loop_post_def Let_def file_items_def file_crc_def prepared_def)
    from fin[OF p2 st its ex(1)] ex(2) vals have "fst (finish_file crc n e v3) = 0"
      by (simp add: adds_def)
    with body k run rc show ?thesis by simp
  qed
qed

text \<open>Everything \<open>burst_writer_add_file\<close> appends for the data \<open>d\<close>, and the entry it records.\<close>

abbreviation lead_in :: "writer_env \<Rightarrow> burst_writer \<Rightarrow> zip_local_header \<Rightarrow> bytes \<Rightarrow> bytes" where
  "lead_in env w lfh tail \<equiv>
     padding_for (env_time env) w tail 0 True @ local_header_bytes lfh @ tail"

definition file_record ::
  "writer_env \<Rightarrow> burst_writer \<Rightarrow> zip_local_header \<Rightarrow> bytes \<Rightarrow> bytes \<Rightarrow> item list \<Rightarrow> bytes" where
  "file_record env w lfh tail d its =
     lead_in env w lfh tail @
     file_body env (length (stream w) + length (lead_in env w lfh tail)) d its"

definition file_record_entry ::
  "writer_env \<Rightarrow> burst_writer \<Rightarrow> zip_local_header \<Rightarrow> bytes \<Rightarrow> u32 \<Rightarrow> u32 \<Rightarrow> u32 \<Rightarrow> bytes \<Rightarrow> item list
     \<Rightarrow> file_entry" where
  "file_record_entry env w lfh tail unix_mode uid gid d its =
     file_entry_done env
       (file_entry_start lfh tail
          (length (stream w) + length (padding_for (env_time env) w tail 0 True)) unix_mode uid gid)
       d its"

abbreviation items_of :: "writer_env \<Rightarrow> burst_writer \<Rightarrow> zip_local_header \<Rightarrow> bytes \<Rightarrow> bytes \<Rightarrow> item list option" where
  "items_of env w lfh tail d \<equiv>
     file_items env (compression_level w) (length (stream w) + length (lead_in env w lfh tail)) d"

lemma length_padding_for:
  "entry_start (stream w) \<Longrightarrow> entry_need (30 + length tail) content dd \<le> 65536 \<Longrightarrow>
   length (padding_for ct w tail content dd) \<le> 65536"
  by (auto simp: entry_padding_def entry_start_def)

lemma lead_in_mid:
  assumes "archive_inv w" and "header_ok lfh tail 0 True"
  shows "mid_file (stream w @ lead_in env w lfh tail)"
  using entry_start_header[of "stream w" lfh tail "[]" True "env_time env"] assms
  by (simp add: archive_inv_def mid_file_def)

lemma lead_in_budget:
  assumes "archive_inv w" and "header_ok lfh tail 0 True"
    and "budget (length (stream w)) (Suc n)"
  shows "budget (length (stream w @ lead_in env w lfh tail)) n" and "length (stream w) < 2 ^ 62"
proof -
  have "length (lead_in env w lfh tail) \<le> 2 * PART"
    using length_padding_for[of w tail 0 True "env_time env"] assms(1,2)
    by (simp add: archive_inv_def header_ok_def entry_need_def)
  from budget_step[OF assms(3) this]
  show "budget (length (stream w @ lead_in env w lfh tail)) n" and "length (stream w) < 2 ^ 62"
    by simp_all
qed

definition file_step ::
  "writer_env \<Rightarrow> in_file \<Rightarrow> zip_local_header \<Rightarrow> bytes \<Rightarrow> u32 \<Rightarrow> u32 \<Rightarrow> u32 \<Rightarrow> file_entry \<Rightarrow> burst_writer
     \<Rightarrow> int \<times> burst_writer" where
  "file_step env inp lfh tail unix_mode uid gid entry0 w3 =
     (let entry1 = populate_entry_metadata lfh (current_offset w3 + of_nat (buffer_used w3))
                     unix_mode uid gid entry0
      in then_ok (burst_writer_write (local_header_bytes lfh @ tail))
           (\<lambda>w4. add_file_body env inp lfh
              (entry1\<lparr>fe_compressed_start_offset := current_offset w4 + of_nat (buffer_used w4),
                      fe_uncompressed_start_offset := 0\<rparr>) w4) w3)"

lemma burst_writer_add_file_shape:
  assumes "is_header_only lfh \<or> in_seekable inp"
  shows "burst_writer_add_file env inp lfh tail unix_mode uid gid w =
    add_entry (env_time env) lfh tail 0 True
      (file_step env (if is_header_only lfh then inp else in_rewind inp) lfh tail unix_mode uid gid) w"
proof -
  have g: "(\<not> is_header_only lfh \<and> \<not> in_seekable inp) = False" using assms by simp
  have z: "(of_nat 0 :: size_t) = 0" by simp
  show ?thesis
    unfolding burst_writer_add_file_def add_entry_def file_step_def[abs_def] g if_False z Let_def
    by (rule refl)
qed

lemma prepared_write:
  assumes "prepared w pad w3" and "burst_writer_write d w3 = (0, w4)"
  shows "prepared w (pad @ d) w4"
  using assms prepared_extend[OF assms(1)] emits_write[of d] by (auto simp: emits_def prepared_def)

lemma file_step_eq:
  assumes p: "prepared w pad w3"
  shows "file_step env inp lfh tail unix_mode uid gid (named_entry lfh tail) w3 =
    then_ok (burst_writer_write (local_header_bytes lfh @ tail))
      (add_file_body env inp lfh
         (file_entry_start lfh tail (length (stream w) + length pad) unix_mode uid gid)) w3"
proof -
  let ?h = "local_header_bytes lfh @ tail"
  obtain rc w4 where f: "burst_writer_write ?h w3 = (rc, w4)" by fastforce
  show ?thesis
  proof (cases "rc = 0")
    case True
    then have "prepared w (pad @ ?h) w4" using prepared_write[OF p] f by simp
    from entry_pos[OF p] entry_pos[OF this] f True show ?thesis
      by (simp add: file_step_def Let_def then_ok_eq file_entry_start_def ac_simps)
  next
    case False
    with f show ?thesis by (simp add: file_step_def Let_def then_ok_def)
  qed
qed

lemma write_prepared_live:
  assumes "prepared w pad w3" and "fault_free w"
  shows "\<exists>w4. burst_writer_write d w3 = (0, w4) \<and> prepared w (pad @ d) w4"
  using assms prepared_write[OF assms(1)] emits_returns[OF emits_write, of w3 d]
  by (auto simp: prepared_def)

lemma burst_writer_add_file_refines:
  assumes env: "frames_fit env" and w: "archive_inv w" and h: "header_ok lfh tail 0 True"
    and lfh: "\<not> is_header_only lfh" and inp: "in_seekable inp"
    and bud: "budget (length (stream w)) (Suc (length (chunks (readable (in_rewind inp)))))"
  defines "d \<equiv> readable (in_rewind inp)"
  shows "burst_writer_add_file env inp lfh tail unix_mode uid gid w = (0, w') \<Longrightarrow>
         \<exists>its. items_of env w lfh tail d = Some its \<and> \<not> read_fails (in_rewind inp)
           \<and> added w (file_record env w lfh tail d its)
               (file_record_entry env w lfh tail unix_mode uid gid d its) w'
           \<and> num_files w' \<le> files_capacity w' \<and> (fault_free w \<longrightarrow> fault_free w')"
    and "fault_free w \<Longrightarrow> \<not> read_fails (in_rewind inp) \<Longrightarrow> items_of env w lfh tail d \<noteq> None \<Longrightarrow>
         fst (burst_writer_add_file env inp lfh tail unix_mode uid gid w) = 0"
proof -
  let ?pad = "padding_for (env_time env) w tail 0 True" and ?lead = "lead_in env w lfh tail"
  let ?e = "file_entry_start lfh tail (length (stream w) + length ?pad) unix_mode uid gid"
  let ?k = "file_step env (in_rewind inp) lfh tail unix_mode uid gid"
  have wf: "writer_wf w" "slots_ok w" "entry_start (stream w)" using w by (auto simp: archive_inv_def)
  have len: "length (stream w) < 2 ^ 62" using lead_in_budget(2)[OF w h bud] .
  have need: "entry_need (30 + length tail) 0 True \<le> 65536" using h by (simp add: header_ok_def)
  have run: "burst_writer_add_file env inp lfh tail unix_mode uid gid w =
    add_entry (env_time env) lfh tail 0 True ?k w"
    using burst_writer_add_file_shape[of lfh inp] lfh inp by simp
  have rw: "\<not> in_eof (in_rewind inp)" "\<not> in_error (in_rewind inp)" by (simp_all add: in_rewind_def)
  have body: "mid_file (stream w4)"
    "budget (length (stream w4)) (length (chunks (readable (in_rewind inp))))"
    "fe_compressed_start_offset ?e = of_nat (length (stream w4))"
    "length (stream w4) = length (stream w) + length ?lead"
    if "prepared w ?lead w4" for w4
    using that lead_in_mid[OF w h] lead_in_budget(1)[OF w h bud]
    by (simp_all add: prepared_def file_entry_start_def ac_simps)
  show "\<exists>its. items_of env w lfh tail d = Some its \<and> \<not> read_fails (in_rewind inp)
      \<and> added w (file_record env w lfh tail d its)
          (file_record_entry env w lfh tail unix_mode uid gid d its) w'
      \<and> num_files w' \<le> files_capacity w' \<and> (fault_free w \<longrightarrow> fault_free w')"
    if "burst_writer_add_file env inp lfh tail unix_mode uid gid w = (0, w')"
  proof -
    from add_entry_zero[OF wf len need that[unfolded run]]
    obtain w3 where p3: "prepared w ?pad w3" and k: "?k (named_entry lfh tail) w3 = (0, w')" by blast
    from k prepared_write[OF p3] obtain w4 where p4: "prepared w ?lead w4"
      and b: "add_file_body env (in_rewind inp) lfh ?e w4 = (0, w')"
      by (auto simp: file_step_eq[OF p3] then_ok_zero_iff)
    from add_file_body_refines(1)[OF env p4 body(1,2)[OF p4] rw lfh body(3)[OF p4] b] body(4)[OF p4]
    show ?thesis by (simp add: d_def file_record_def file_record_entry_def)
  qed
  show "fst (burst_writer_add_file env inp lfh tail unix_mode uid gid w) = 0"
    if ff: "fault_free w" and rf: "\<not> read_fails (in_rewind inp)" and some: "items_of env w lfh tail d \<noteq> None"
  proof -
    from add_entry_live[OF wf len need ff, of "env_time env" lfh ?k]
    obtain w3 where p3: "prepared w ?pad w3"
      and r3: "add_entry (env_time env) lfh tail 0 True ?k w = ?k (named_entry lfh tail) w3" by blast
    from write_prepared_live[OF p3 ff, of "local_header_bytes lfh @ tail"]
    obtain w4 where p4: "prepared w ?lead w4"
      and r4: "?k (named_entry lfh tail) w3 = add_file_body env (in_rewind inp) lfh ?e w4"
      by (auto simp: file_step_eq[OF p3] then_ok_eq)
    show ?thesis
      using add_file_body_refines(2)[OF env p4 body(1,2)[OF p4] rw lfh body(3)[OF p4] ff rf]
        some body(4)[OF p4] run r3 r4 by (simp add: d_def)
  qed
qed

lemma file_record_entry_start:
  assumes "frames_fit env" and "archive_inv w" and "header_ok lfh tail 0 True"
    and "items_of env w lfh tail d = Some its"
  shows "entry_start (stream w @ file_record env w lfh tail d its)"
proof -
  let ?s = "stream w @ lead_in env w lfh tail"
  have "mid_file (?s @ items_bytes its)"
    using body_items_mid[OF lead_in_mid[OF assms(2,3)] _ frames_fitD[OF assms(1)]] assms(4)
    by (simp add: file_items_def)
  from file_tail_entry_start[OF this, of "file_crc env d" "of_nat (length (items_bytes its))" "length d"]
  show ?thesis by (simp add: file_record_def file_body_def add.assoc)
qed

text \<open>Empty files: a header only.\<close>

lemma with_two_allocs_emits: "emits (with_two_allocs ret_ok) []"
proof -
  have "with_two_allocs ret_ok w = (0, w') \<Longrightarrow> extends_by w [] w' \<and> (fault_free w \<longrightarrow> fault_free w')"
    "fault_free w \<Longrightarrow> fst (with_two_allocs ret_ok w) = 0" if "writer_wf w" for w w'
  proof -
    obtain b1 v1 b2 v2 where a: "c_alloc w = (b1, v1)" "c_alloc v1 = (b2, v2)" by fastforce
    note view = c_alloc_view[OF a(1)] c_alloc_view[OF a(2)]
    show "extends_by w [] w' \<and> (fault_free w \<longrightarrow> fault_free w')"
      if "with_two_allocs ret_ok w = (0, w')"
      using that \<open>writer_wf w\<close> a view
      by (auto simp: with_two_allocs_def extends_by_def split: if_splits)
    show "fst (with_two_allocs ret_ok w) = 0" if "fault_free w"
      using that a view by (simp add: with_two_allocs_def ret_ok_def)
  qed
  then show ?thesis by (simp add: emits_def)
qed

lemma with_two_allocs_then: "with_two_allocs f = then_ok (with_two_allocs ret_ok) f"
  by (auto simp: with_two_allocs_def then_ok_def ret_ok_def fun_eq_iff split: prod.splits)

lemma burst_writer_add_empty_file_adds:
  assumes w: "archive_inv w" "length (stream w) < 2 ^ 62" and h: "header_ok lfh tail 0 True"
    and lfh: "is_header_only lfh"
  shows "adds (burst_writer_add_file env inp lfh tail unix_mode uid gid) w (lead_in env w lfh tail)
           (file_entry_start lfh tail
              (length (stream w) + length (padding_for (env_time env) w tail 0 True)) unix_mode uid gid)"
proof -
  let ?pad = "padding_for (env_time env) w tail 0 True" and ?h = "local_header_bytes lfh @ tail"
  let ?e = "file_entry_start lfh tail (length (stream w) + length ?pad) unix_mode uid gid"
  let ?k = "file_step env inp lfh tail unix_mode uid gid"
  let ?w = "then_ok (burst_writer_write ?h) (with_two_allocs ret_ok)"
  have body: "add_file_body env inp lfh ?e = then_ok (with_two_allocs ret_ok) (file_done ?e)"
    using lfh with_two_allocs_then[of "file_done ?e"] by (simp add: add_file_body_def)
  have k: "adds (?k (named_entry lfh tail)) w3 ?h ?e" if p: "prepared w ?pad w3" for w3
  proof -
    have "emits ?w (?h @ [])" by (intro emits_then emits_write with_two_allocs_emits)
    from adds_write_done[OF p emits_at_weaken[OF this] file_done_def[of ?e]]
    have "adds (then_ok ?w (file_done ?e)) w3 ?h ?e" by simp
    then show ?thesis by (simp add: adds_def file_step_eq[OF p] body then_ok_assoc)
  qed
  have "adds (add_entry (env_time env) lfh tail 0 True ?k) w (?pad @ ?h) ?e"
    using w h k by (intro add_entry_adds) (auto simp: archive_inv_def header_ok_def)
  then show ?thesis
    using burst_writer_add_file_shape[of lfh inp] lfh by (simp add: adds_def)
qed

end
