(* ===== verification/File_Extraction.thy ===== *)
theory File_Extraction
  imports Output_Files Writer_Spec
begin

text \<open>
  The items that the writer appends for a file, processed by the downloader: every frame is
  written at the offset it has in the file, padding is skipped, Start-of-Part frames confirm the
  offset, and the descriptor closes the file with its final size. \<open>process_file_record\<close> puts this
  together for a whole record of the archive, from its local header to its descriptor.
\<close>

section \<open>Content of a file that is written in pieces\<close>

lemma overwrite_Nil [simp]: "overwrite c off [] = c"
  by (simp add: overwrite_def)

lemma overwrite_overwrite:
  "overwrite (overwrite c off a) (off + length a) b = overwrite c off (a @ b)"
proof -
  have "min (length c) off + (off - length c) = off" by (simp add: min_def)
  moreover have "off + (length b + (off + length a)) - off = off + (length a + length b)" by simp
  ultimately show ?thesis
    by (cases "a = []"; cases "b = []") (simp_all add: overwrite_def ac_simps)
qed

lemma resize_overwrite: "resize (length d) (overwrite c 0 d) = d"
  by (simp add: resize_def overwrite_def)

section \<open>Items at their positions\<close>

text \<open>An item that the frame parser recognises.\<close>

fun item_readable :: "zstd_reader \<Rightarrow> item \<Rightarrow> bool" where
  "item_readable zr (Frame chunk frame) = zstd_holds zr chunk frame"
| "item_readable zr (Pad n) = (n < 0xFFFFFFF8)"
| "item_readable zr (Sop off) = True"

text \<open>Start-of-Part frames only on boundaries, when the items start at position \<open>p\<close>.\<close>

fun sops_aligned :: "nat \<Rightarrow> item list \<Rightarrow> bool" where
  "sops_aligned p [] = True"
| "sops_aligned p (it # its) =
     ((case it of Sop k \<Rightarrow> p mod PART = 0 | _ \<Rightarrow> True) \<and>
      sops_aligned (p + length (item_bytes it)) its)"

lemma sops_aligned_append [simp]:
  "sops_aligned p (its @ jts) \<longleftrightarrow> sops_aligned p its \<and> sops_aligned (p + length (items_bytes its)) jts"
  by (induction its arbitrary: p) (auto simp: add.assoc)

lemma frame_items_aligned:
  assumes "8 \<le> room p"
  shows "sops_aligned p (frame_items (room p) off c f)"
  using assms room_add_full[of p] by (auto simp: frame_items_def Let_def)

lemma trailer_items_aligned: "8 \<le> room p \<Longrightarrow> sops_aligned p (trailer_items (room p) off n)"
  using room_add_full[of p] by (auto simp: trailer_items_def)

lemma body_items_aligned:
  assumes "mid_file s" and "body_items zc (length s) off cs = Some its"
    and "\<And>c f. zc c = Some f \<Longrightarrow> length f + 48 \<le> PART"
  shows "sops_aligned (length s) its"
  using assms(1,2)
proof (induction cs arbitrary: s off its)
  case Nil
  then show ?case by simp
next
  case (Cons c cs)
  from Cons.prems(2) obtain f jts where f: "zc c = Some f"
    and jts: "body_items zc (length s + length (items_bytes (frame_items (room (length s)) off c f)))
      (off + length c) cs = Some jts"
    and its: "its = frame_items (room (length s)) off c f @ jts"
    by (auto simp: Let_def split: option.splits)
  let ?t = "s @ items_bytes (frame_items (room (length s)) off c f)"
  have "mid_file ?t" using Cons.prems(1) assms(3)[OF f] by (rule frame_items_mid)
  from Cons.IH[OF this, of "off + length c" jts] jts its Cons.prems(1) show ?case
    by (simp add: frame_items_aligned mid_file_def)
qed

lemma Pad_in_frame_items: "Pad n \<in> set (frame_items (room p) off c f) \<Longrightarrow> n < PART"
proof -
  have "room p - 8 < PART" using room_bounds(2)[of p] by (cases "room p") auto
  then show "Pad n \<in> set (frame_items (room p) off c f) \<Longrightarrow> n < PART"
    by (auto simp: frame_items_def Let_def split: if_splits)
qed

lemma body_items_Pad:
  "body_items zc p off cs = Some its \<Longrightarrow> Pad n \<in> set its \<Longrightarrow> n < PART"
  by (induction zc p off cs arbitrary: its rule: body_items.induct)
     (auto simp: Let_def split: option.splits dest: Pad_in_frame_items)

section \<open>One step per item\<close>

lemma with_frame_Ok: "parse_next_frame zr ptr = Ok info \<Longrightarrow> with_frame zr ptr st f = f info"
  by (simp add: with_frame_def)

text \<open>A file is open for writing: its descriptor, where it leads, and its content.\<close>

definition writing :: "part_processor_state \<Rightarrow> file_context \<Rightarrow> path \<Rightarrow> bool" where
  "writing st fc p \<longleftrightarrow>
     ps_state st = STATE_PROCESSING_FRAMES \<and> ps_current_file st = Some fc \<and> 0 \<le> fc_fd fc \<and>
     os_fds (ps_os st) (fc_fd fc) = Some p \<and> quiet (ps_os st)"

definition at_offset :: "file_context \<Rightarrow> nat \<Rightarrow> file_context" where
  "at_offset fc off = fc\<lparr>fc_uncompressed_offset := of_nat off\<rparr>"

lemma at_offset_simps [simp]:
  "fc_fd (at_offset fc off) = fc_fd fc" "fc_filename (at_offset fc off) = fc_filename fc"
  "fc_uncompressed_offset (at_offset fc off) = of_nat off"
  "at_offset (at_offset fc off) off' = at_offset fc off'"
  "fc_expected_total_size (at_offset fc off) = fc_expected_total_size fc"
  "fc_is_symlink (at_offset fc off) = fc_is_symlink fc"
  "fc_uses_zip64_descriptor (at_offset fc off) = fc_uses_zip64_descriptor fc"
  by (simp_all add: at_offset_def)

text \<open>The state after \<open>n\<close> more bytes, with the file at offset \<open>off\<close> and the operating system in \<open>os\<close>.\<close>

definition moved ::
  "part_processor_state \<Rightarrow> nat \<Rightarrow> file_context \<Rightarrow> os_state \<Rightarrow> part_processor_state" where
  "moved st n fc os =
     st\<lparr>ps_os := os, ps_current_file := Some fc,
        ps_bytes_processed := ps_bytes_processed st + of_nat n\<rparr>"

lemma moved_simps [simp]:
  "ps_state (moved st n fc os) = ps_state st" "ps_os (moved st n fc os) = os"
  "ps_current_file (moved st n fc os) = Some fc"
  "ps_bytes_processed (moved st n fc os) = ps_bytes_processed st + of_nat n"
  "ps_part_start_offset (moved st n fc os) = ps_part_start_offset st"
  "moved (moved st n fc os) m fc' os' = moved st (n + m) fc' os'"
  by (simp_all add: moved_def add.assoc)

lemma moved_0: "ps_current_file st = Some fc \<Longrightarrow> moved st 0 fc (ps_os st) = st"
  by (cases st) (simp add: moved_def)

lemma sint_of_nat_nonneg: "n < 2 ^ 63 \<Longrightarrow> 0 \<le> sint (of_nat n :: u64)"
proof -
  assume "n < 2 ^ 63"
  then have "sint (of_nat n :: u64) = int n"
    by (simp add: signed_of_nat signed_take_bit_int_eq_self)
  then show ?thesis by simp
qed

lemma step_Frame:
  assumes w: "writing st (at_offset fc off) p" and z: "zstd_holds zr chunk frame"
    and off: "off < 2 ^ 63"
  shows "\<exists>os'. step_frames zr (frame @ rest) k st =
           Next (k + length frame) (moved st (length frame) (at_offset fc (off + length chunk)) os')
         \<and> visible os' = set_content p (\<lambda>c. overwrite c off chunk) (visible (ps_os st))
         \<and> quiet os'"
proof -
  let ?fc = "at_offset fc off"
  have frame: "zstd_frame zr chunk frame" using z by (simp add: zstd_holds_def)
  then have len: "unat (of_nat (length frame) :: size_t) = length frame"
    by (simp add: zstd_frame_def unat_of_nat)
  have o: "unat (of_nat off :: u64) = off" using off by (simp add: unat_of_nat)
  have fds: "os_fds (ps_os st) (fc_fd fc) = Some p" "0 \<le> fc_fd fc" "quiet (ps_os st)"
    "ps_current_file st = Some ?fc"
    using w by (auto simp: writing_def)
  obtain os' where wr: "do_write_encoded zr (fc_fd fc) frame (of_nat (length chunk)) (of_nat off) (ps_os st)
      = (BTRFS_WRITER_SUCCESS, os')" and q: "quiet os'"
    using do_write_encoded_total[OF fds(3,2,1) z sint_of_nat_nonneg[OF off]] by blast
  have v: "visible os' = set_content p (\<lambda>c. overwrite c off chunk) (visible (ps_os st))"
    using do_write_encoded_success[OF wr fds(1) z] o by simp
  have "handle_zstd_frame zr frame (of_nat (length chunk)) st =
      (STREAM_PROC_SUCCESS, st\<lparr>ps_os := os',
         ps_current_file := Some (?fc\<lparr>fc_uncompressed_offset := of_nat off + of_nat (length chunk)\<rparr>)\<rparr>)"
    using fds wr by (simp add: handle_zstd_frame_def)
  then have "step_frames zr (frame @ rest) k st =
           Next (k + length frame) (moved st (length frame) (at_offset fc (off + length chunk)) os')"
    using parse_compressed_frame[OF frame, of rest]
    by (simp add: step_frames_def with_frame_Ok frame_info_of_def Let_def len after_def advance_def moved_def
        at_offset_def)
  then show ?thesis using v q by blast
qed

lemma step_Pad:
  assumes "ps_current_file st = Some fc" and "n < 0xFFFFFFF8"
  shows "step_frames zr (padding_frame n @ rest) k st =
           Next (k + (8 + n)) (moved st (8 + n) fc (ps_os st))"
proof -
  have "unat (of_nat (8 + n) :: size_t) = 8 + n"
    using assms(2) by (simp add: unat_of_nat del: of_nat_add)
  moreover have "st\<lparr>ps_bytes_processed := b\<rparr> = st\<lparr>ps_os := ps_os st, ps_current_file := Some fc,
      ps_bytes_processed := b\<rparr>" for b
    using assms(1) by (cases st) simp
  ultimately show ?thesis
    using parse_padding_frame[OF assms(2), of zr rest]
    by (simp add: step_frames_def with_frame_Ok frame_info_of_def Let_def advance_def moved_def
        del: of_nat_add)
qed

lemma step_Sop:
  assumes "ps_current_file st = Some fc"
    and "(ps_part_start_offset st + ps_bytes_processed st) mod BURST_BASE_ALIGNMENT = 0"
  shows "step_frames zr (sop_frame (of_nat off) @ rest) k st =
           Next (k + 24) (moved st 24 (at_offset fc off) (ps_os st))"
proof -
  have "read_le 8 (sop_frame (of_nat off) @ rest) 9 = Some (of_nat off :: u64)"
    by (simp add: sop_frame_def read_le_def)
  then have "handle_start_of_part_frame (sop_frame (of_nat off) @ rest) st =
      Some (STREAM_PROC_SUCCESS, moved st 0 (at_offset fc off) (ps_os st))"
    using assms(1)
    by (simp add: handle_start_of_part_frame_def set_uncompressed_offset_def moved_def at_offset_def)
  then show ?thesis
    using assms parse_sop_frame[of zr "of_nat off" rest]
    by (simp add: step_frames_def with_frame_Ok frame_info_of_def Let_def after_def advance_def
        moved_def)
qed

section \<open>Sequences of items\<close>

lemma process_loop_Next:
  "off < length work \<Longrightarrow> process_step zr work off st = Next off' st' \<Longrightarrow>
   process_loop zr work off st = process_loop zr work off' st'"
  by (subst process_loop.simps) simp

lemma frames_step:
  assumes "ps_state st = STATE_PROCESSING_FRAMES" and "x \<noteq> []"
    and "step_frames zr (x @ rest) (length pre) st = Next off' st'"
  shows "process_loop zr (pre @ x @ rest) (length pre) st = process_loop zr (pre @ x @ rest) off' st'"
  using assms by (intro process_loop_Next) (auto simp: process_step_def)

lemma set_content_comp:
  "set_content p g (set_content p f os) = set_content p (\<lambda>c. g (f c)) os"
  by (auto simp: set_content_def set_node_def split: option.splits node.splits)

lemma set_content_id [simp]: "set_content p (\<lambda>c. c) os = os"
  by (cases os) (auto simp: set_content_def set_node_def split: option.splits node.splits)

lemma aligned_word:
  assumes "ps_part_start_offset st + ps_bytes_processed st = of_nat pos" and "pos < 2 ^ 64"
    and "pos mod PART = 0"
  shows "(ps_part_start_offset st + ps_bytes_processed st) mod BURST_BASE_ALIGNMENT = 0"
proof -
  have "unat (of_nat pos mod BURST_BASE_ALIGNMENT :: u64) = 0"
    using assms(2,3) by (simp add: unat_mod unat_of_nat BURST_BASE_ALIGNMENT_def)
  then show ?thesis using assms(1) by (simp add: unat_eq_zero)
qed

lemma items_processed:
  assumes "writing st (at_offset fc off) p"
    and "list_all (item_readable zr) its" and "sops_ok off its" and "sops_aligned pos its"
    and "ps_part_start_offset st + ps_bytes_processed st = of_nat pos"
    and "pos + length (items_bytes its) < 2 ^ 64" and "off + length (payload its) < 2 ^ 63"
  shows "\<exists>os'. process_loop zr (pre @ items_bytes its @ rest) (length pre) st =
             process_loop zr (pre @ items_bytes its @ rest) (length pre + length (items_bytes its))
               (moved st (length (items_bytes its)) (at_offset fc (off + length (payload its))) os')
         \<and> visible os' = set_content p (\<lambda>c. overwrite c off (payload its)) (visible (ps_os st))
         \<and> quiet os'"
  using assms
proof (induction its arbitrary: st off pos pre)
  case Nil
  then show ?case
    using Nil by (intro exI[of _ "ps_os st"]) (auto simp: writing_def moved_0)
next
  case (Cons it its)
  have w: "ps_state st = STATE_PROCESSING_FRAMES" "ps_current_file st = Some (at_offset fc off)"
    "quiet (ps_os st)"
    using Cons.prems(1) by (auto simp: writing_def)
  have at: "(\<exists>k. it = Sop k) \<Longrightarrow> (ps_part_start_offset st + ps_bytes_processed st) mod BURST_BASE_ALIGNMENT = 0"
    using aligned_word[OF Cons.prems(5)] Cons.prems(4,6) by auto
  let ?off = "off + length (item_payload it)" and ?n = "length (item_bytes it)"
  have step: "\<exists>os1. step_frames zr (item_bytes it @ items_bytes its @ rest) (length pre) st =
        Next (length pre + ?n) (moved st ?n (at_offset fc ?off) os1)
      \<and> visible os1 = set_content p (\<lambda>c. overwrite c off (item_payload it)) (visible (ps_os st))
      \<and> quiet os1"
  proof (cases it)
    case (Frame chunk frame)
    then show ?thesis using step_Frame[OF Cons.prems(1)] Cons.prems(2,7) by simp
  next
    case (Pad n)
    then show ?thesis
      using step_Pad[OF w(2), of n zr "items_bytes its @ rest"] Cons.prems(2) w(3)
      by (intro exI[of _ "ps_os st"]) simp
  next
    case (Sop k)
    then show ?thesis
      using step_Sop[OF w(2) at, of zr off "items_bytes its @ rest"] Cons.prems(3) w(3)
      by (intro exI[of _ "ps_os st"]) simp
  qed
  then obtain os1 where s: "step_frames zr (item_bytes it @ items_bytes its @ rest) (length pre) st =
        Next (length pre + ?n) (moved st ?n (at_offset fc ?off) os1)"
    and v: "visible os1 = set_content p (\<lambda>c. overwrite c off (item_payload it)) (visible (ps_os st))"
    and q: "quiet os1" by blast
  let ?st1 = "moved st ?n (at_offset fc ?off) os1"
  have "0 < length (item_bytes it)"
    using Cons.prems(2) by (cases it) (auto simp: zstd_holds_def zstd_frame_def)
  then have "item_bytes it \<noteq> []" by simp
  then have one: "process_loop zr (pre @ item_bytes it @ items_bytes its @ rest) (length pre) st =
      process_loop zr (pre @ item_bytes it @ items_bytes its @ rest) (length pre + ?n) ?st1"
    using frames_step[OF w(1) _ s] by blast
  have fds: "os_fds os1 = os_fds (ps_os st)"
    using v same_fds_set(2)[of "visible (ps_os st)" p] by (metis same_fds_def visible_fields(2))
  have "writing ?st1 (at_offset fc ?off) p"
    using Cons.prems(1) fds q by (simp add: writing_def)
  from Cons.IH[OF this, of "pos + ?n" "pre @ item_bytes it"] Cons.prems
  obtain os' where loop: "process_loop zr (pre @ item_bytes it @ items_bytes its @ rest) (length pre + ?n) ?st1 =
      process_loop zr (pre @ item_bytes it @ items_bytes its @ rest)
        (length pre + ?n + length (items_bytes its))
        (moved ?st1 (length (items_bytes its)) (at_offset fc (?off + length (payload its))) os')"
    and v': "visible os' = set_content p (\<lambda>c. overwrite c ?off (payload its)) (visible os1)"
    and q': "quiet os'"
    by (auto simp: add.assoc)
  have "visible os' = set_content p (\<lambda>c. overwrite c off (item_payload it @ payload its)) (visible (ps_os st))"
    unfolding v' v set_content_comp by (simp add: overwrite_overwrite)
  then show ?case
    using one loop q' by (intro exI[of _ os']) (simp add: add.assoc)
qed

section \<open>Headers and descriptors\<close>

lemma header_step:
  assumes "ps_state st = STATE_EXPECT_LOCAL_HEADER" and "x \<noteq> []"
    and "step_expect_header zr (x @ rest) (length pre) st = Next off' st'"
  shows "process_loop zr (pre @ x @ rest) (length pre) st = process_loop zr (pre @ x @ rest) off' st'"
  using assms by (intro process_loop_Next) (auto simp: process_step_def)

text \<open>A local header with its name and extra field.\<close>

definition header_complete :: "zip_local_header \<Rightarrow> bytes \<Rightarrow> bool" where
  "header_complete lfh tail \<longleftrightarrow>
     lh_signature lfh = ZIP_LOCAL_FILE_HEADER_SIG \<and>
     length tail = unat (lh_filename_length lfh) + unat (lh_extra_field_length lfh)"

definition padding_named :: "zip_local_header \<Rightarrow> bytes \<Rightarrow> bool" where
  "padding_named lfh tail \<longleftrightarrow>
     unat (lh_filename_length lfh) = PADDING_LFH_FILENAME_LEN \<and>
     take PADDING_LFH_FILENAME_LEN tail = PADDING_LFH_FILENAME"

lemma local_header_lengths:
  "field (local_header_bytes h @ ys) 26 2 = lh_filename_length h"
  "field (local_header_bytes h @ ys) 28 2 = lh_extra_field_length h"
  by (simp_all add: local_header_bytes_def)

lemma handle_local_header_eq:
  assumes "header_complete lfh tail"
  shows "handle_local_header (local_header_bytes lfh @ tail @ rest) st =
     (if padding_named lfh tail
      then Some (STREAM_PROC_SKIPPED_PADDING, 30 + length tail, st)
      else if ps_next_entry_idx st \<ge> length (pf_entries (this_part st))
      then (case fail STREAM_PROC_ERR_INVALID_FRAME st of (rc, st1) \<Rightarrow> Some (rc, 0, st1))
      else
        case open_output_file (cp_files (ps_cd_result st) !
               pe_file_index (pf_entries (this_part st) ! ps_next_entry_idx st)) st of
          None \<Rightarrow> None
        | Some (rc, st1) \<Rightarrow>
            if rc \<noteq> STREAM_PROC_SUCCESS then Some (rc, 0, st1)
            else Some (STREAM_PROC_SUCCESS, 30 + length tail, set_uncompressed_offset 0 st1))"
proof -
  let ?d = "local_header_bytes lfh @ tail @ rest"
  let ?n = "30 + unat (lh_filename_length lfh) + unat (lh_extra_field_length lfh)"
  have long: "\<not> length ?d < 30" "\<not> length ?d < ?n" and n: "?n = 30 + length tail"
    using assms by (auto simp: header_complete_def)
  have "drop 30 ?d = tail @ rest" by simp
  moreover have "take PADDING_LFH_FILENAME_LEN (tail @ rest) = take PADDING_LFH_FILENAME_LEN tail"
    if "unat (lh_filename_length lfh) = PADDING_LFH_FILENAME_LEN"
    using that assms by (simp add: header_complete_def)
  ultimately have pad: "unat (lh_filename_length lfh) = PADDING_LFH_FILENAME_LEN \<and>
      take PADDING_LFH_FILENAME_LEN (drop 30 ?d) = PADDING_LFH_FILENAME \<longleftrightarrow> padding_named lfh tail"
    by (auto simp: padding_named_def)
  show ?thesis
    unfolding handle_local_header_def Let_def local_header_lengths if_not_P[OF long(1)]
      if_not_P[OF long(2)] pad
    unfolding n by (rule refl)
qed

lemma padding_header_skipped:
  assumes "header_complete lfh tail" and "padding_named lfh tail"
    and "ps_state st = STATE_EXPECT_LOCAL_HEADER"
    and "ps_next_entry_idx st < length (pf_entries (this_part st))"
  shows "process_loop zr (pre @ (local_header_bytes lfh @ tail) @ rest) (length pre) st =
     process_loop zr (pre @ (local_header_bytes lfh @ tail) @ rest) (length pre + (30 + length tail))
       (st\<lparr>ps_bytes_processed := ps_bytes_processed st + of_nat (30 + length tail)\<rparr>)"
proof (rule header_step[OF assms(3)])
  have "0 < length (local_header_bytes lfh @ tail)" by simp
  then show "local_header_bytes lfh @ tail \<noteq> []" by force
  show "step_expect_header zr ((local_header_bytes lfh @ tail) @ rest) (length pre) st =
      Next (length pre + (30 + length tail))
        (st\<lparr>ps_bytes_processed := ps_bytes_processed st + of_nat (30 + length tail)\<rparr>)"
    using assms parse_local_header[of lfh zr "tail @ rest"] handle_local_header_eq[OF assms(1), of rest st]
    by (simp add: step_expect_header_def with_frame_Ok frame_info_of_def header_complete_def
        advance_def del: of_nat_add)
qed

text \<open>The state in which a file has been opened by its header.\<close>

definition opened ::
  "part_processor_state \<Rightarrow> nat \<Rightarrow> file_context \<Rightarrow> os_state \<Rightarrow> part_processor_state" where
  "opened st n fc os =
     st\<lparr>ps_current_file := Some fc, ps_os := os, ps_next_entry_idx := ps_next_entry_idx st + 1,
        ps_state := STATE_PROCESSING_FRAMES,
        ps_bytes_processed := ps_bytes_processed st + of_nat n\<rparr>"

lemma file_header_opens:
  assumes h: "header_complete lfh tail" "\<not> padding_named lfh tail"
    and st: "ps_state st = STATE_EXPECT_LOCAL_HEADER"
      "ps_next_entry_idx st < length (pf_entries (this_part st))"
    and m: "m = cp_files (ps_cd_result st) ! pe_file_index (pf_entries (this_part st) ! ps_next_entry_idx st)"
      "\<not> fm_is_symlink m"
    and o: "open_output_file m st = Some (STREAM_PROC_SUCCESS,
              st\<lparr>ps_current_file := Some ((context_of name m)\<lparr>fc_fd := fd\<rparr>), ps_os := os'\<rparr>)"
  shows "process_loop zr (pre @ (local_header_bytes lfh @ tail) @ rest) (length pre) st =
     process_loop zr (pre @ (local_header_bytes lfh @ tail) @ rest) (length pre + (30 + length tail))
       (opened st (30 + length tail) (at_offset ((context_of name m)\<lparr>fc_fd := fd\<rparr>) 0) os')"
proof (rule header_step[OF st(1)])
  have "0 < length (local_header_bytes lfh @ tail)" by simp
  then show "local_header_bytes lfh @ tail \<noteq> []" by force
  have "handle_local_header (local_header_bytes lfh @ tail @ rest) st =
      Some (STREAM_PROC_SUCCESS, 30 + length tail,
        st\<lparr>ps_current_file := Some (at_offset ((context_of name m)\<lparr>fc_fd := fd\<rparr>) 0), ps_os := os'\<rparr>)"
    using handle_local_header_eq[OF h(1), of rest st] h(2) st(2) o
    by (simp add: m(1)[symmetric] set_uncompressed_offset_def at_offset_def)
  then show "step_expect_header zr ((local_header_bytes lfh @ tail) @ rest) (length pre) st =
      Next (length pre + (30 + length tail))
        (opened st (30 + length tail) (at_offset ((context_of name m)\<lparr>fc_fd := fd\<rparr>) 0) os')"
    using h st(2) m(2) parse_local_header[of lfh zr "tail @ rest"]
    by (simp add: step_expect_header_def with_frame_Ok frame_info_of_def header_complete_def
        advance_def opened_def del: of_nat_add)
qed

lemma descriptor_closes:
  assumes st: "ps_state st = STATE_PROCESSING_FRAMES" "ps_current_file st = Some fc"
    and z: "fc_uses_zip64_descriptor fc = z"
    and c: "close_output_file st = Some (STREAM_PROC_SUCCESS, st\<lparr>ps_current_file := None, ps_os := os'\<rparr>)"
  shows "process_loop zr (pre @ data_descriptor crc cs us z @ rest) (length pre) st =
     process_loop zr (pre @ data_descriptor crc cs us z @ rest)
       (length pre + length (data_descriptor crc cs us z))
       (st\<lparr>ps_current_file := None, ps_os := os', ps_state := STATE_EXPECT_LOCAL_HEADER,
           ps_bytes_processed := ps_bytes_processed st + of_nat (length (data_descriptor crc cs us z))\<rparr>)"
proof (rule frames_step[OF st(1)])
  have "0 < length (data_descriptor crc cs us z)" by simp
  then show "data_descriptor crc cs us z \<noteq> []" by force
  have "descriptor_size st = length (data_descriptor crc cs us z)"
    using st(2) z by (simp add: descriptor_size_def)
  then show "step_frames zr (data_descriptor crc cs us z @ rest) (length pre) st =
      Next (length pre + length (data_descriptor crc cs us z))
        (st\<lparr>ps_current_file := None, ps_os := os', ps_state := STATE_EXPECT_LOCAL_HEADER,
            ps_bytes_processed := ps_bytes_processed st + of_nat (length (data_descriptor crc cs us z))\<rparr>)"
    using c parse_data_descriptor[of zr crc cs us z rest]
    by (simp add: step_frames_def with_frame_Ok frame_info_of_def Let_def handle_data_descriptor_def
        after_def advance_def del: length_data_descriptor)
qed

section \<open>A whole record\<close>

text \<open>The state after a record of \<open>n\<close> bytes has been extracted.\<close>

definition extracted :: "part_processor_state \<Rightarrow> nat \<Rightarrow> os_state \<Rightarrow> part_processor_state" where
  "extracted st n os =
     st\<lparr>ps_os := os, ps_next_entry_idx := ps_next_entry_idx st + 1,
        ps_bytes_processed := ps_bytes_processed st + of_nat n\<rparr>"

text \<open>What the file system holds afterwards: the file with exactly \<open>d\<close> and the attributes of the
  directory entry, new directories on the way to it, nothing else; no descriptor is left open.\<close>

definition holds_file :: "os_state \<Rightarrow> bytes \<Rightarrow> file_metadata \<Rightarrow> bytes \<Rightarrow> os_state \<Rightarrow> bool" where
  "holds_file os name m d os' \<longleftrightarrow>
     os_nodes os' (resolve name) =
       Some (Regular d (restored (context_of name m) (os_euid os = 0) (snd (file_at os (resolve name))))) \<and>
     (\<forall>q. q \<noteq> resolve name \<longrightarrow>
        os_nodes os' q = os_nodes os q \<or>
        os_nodes os q = None \<and> is_dir os' q \<and>
        (\<exists>k < length (snd (resolve name)). q = (fst (resolve name), take k (snd (resolve name))))) \<and>
     os_fds os' = os_fds os \<and> os_next_fd os' = os_next_fd os + 1 \<and> quiet os' \<and> os_euid os' = os_euid os"

lemma dirs_added_strict:
  assumes "dirs_added (parent p) os os1" and "snd p \<noteq> []"
  shows "os_nodes os1 q = os_nodes os q \<or>
         os_nodes os q = None \<and> is_dir os1 q \<and> (\<exists>k < length (snd p). q = (fst p, take k (snd p)))"
proof -
  have "take k (butlast (snd p)) = take k (snd p)" if "k \<le> length (snd p) - 1" for k
    using that by (simp add: butlast_conv_take)
  moreover have "k < length (snd p)" if "k \<le> length (snd p) - 1" for k
    using that assms(2) by (cases "snd p") auto
  ultimately show ?thesis
    using assms(1) unfolding dirs_added_def parent_def by (metis fst_conv length_butlast snd_conv)
qed

lemma restored_context [simp]:
  "restored (at_offset (fc\<lparr>fc_fd := fd\<rparr>) off) root a = restored fc root a"
  by (simp add: restored_def at_offset_def Let_def)

lemma process_file_record:
  fixes its :: "item list"
  assumes h: "header_complete lfh tail" "\<not> padding_named lfh tail"
    and st: "ps_state st = STATE_EXPECT_LOCAL_HEADER" "ps_current_file st = None"
      "ps_next_entry_idx st < length (pf_entries (this_part st))"
    and os: "quiet (ps_os st)" "0 \<le> os_next_fd (ps_os st)" "os_fds (ps_os st) (os_next_fd (ps_os st)) = None"
    and m: "m = cp_files (ps_cd_result st) ! pe_file_index (pf_entries (this_part st) ! ps_next_entry_idx st)"
      "\<not> fm_is_symlink m" "\<not> (fm_filename m \<noteq> [] \<and> last (fm_filename m) = slash)"
      "fm_uncompressed_size m = of_nat (length d)" "fm_uses_zip64_descriptor m = z"
    and name: "name = ps_output_dir st @ slash # fm_filename m" "creatable (ps_os st) name"
    and its: "list_all (item_readable zr) its" "sops_ok 0 its" "payload its = d"
      "sops_aligned (pos + (30 + length tail)) its"
    and pos: "ps_part_start_offset st + ps_bytes_processed st = of_nat pos"
      "pos + (30 + length tail) + length (items_bytes its) < 2 ^ 64" "length d < 2 ^ 63"
    and rec: "record = (local_header_bytes lfh @ tail) @ items_bytes its @ data_descriptor crc cs us z"
  shows "\<exists>os'. process_loop zr (pre @ record @ rest) (length pre) st =
           process_loop zr (pre @ record @ rest) (length pre + length record) (extracted st (length record) os')
         \<and> holds_file (ps_os st) name m d os'"
proof -
  let ?os = "ps_os st" and ?p = "resolve name" and ?work = "pre @ record @ rest"
  let ?fd = "os_next_fd ?os"
  let ?fc = "(context_of name m)\<lparr>fc_fd := ?fd\<rparr>" and ?h = "local_header_bytes lfh @ tail"
  obtain os1 os2 where o: "open_output_file m st = Some (STREAM_PROC_SUCCESS,
        st\<lparr>ps_current_file := Some ?fc, ps_os := os2\<rparr>)"
    and added: "dirs_added (parent ?p) ?os os1"
    and os2: "os_nodes os2 = (os_nodes os1)(?p := Some (Regular (fst (file_at ?os ?p)) (snd (file_at ?os ?p))))"
      "os_fds os2 = (os_fds ?os)(?fd := Some ?p)" "quiet os2" "os_euid os2 = os_euid ?os"
      "os_next_fd os2 = ?fd + 1"
    using open_output_file_regular[OF st(2) os(1,2) m(2,3)] name unfolding Let_def by blast
  let ?st1 = "opened st (30 + length tail) (at_offset ?fc 0) os2"
  have l1: "process_loop zr ?work (length pre) st = process_loop zr ?work (length pre + (30 + length tail)) ?st1"
    using file_header_opens[OF h st(1,3) m(1,2) o, of zr pre
        "items_bytes its @ data_descriptor crc cs us z @ rest"] rec by simp
  have w1: "writing ?st1 (at_offset ?fc 0) ?p"
    using os2 os(2) by (simp add: writing_def opened_def)
  have pos1: "ps_part_start_offset ?st1 + ps_bytes_processed ?st1 = of_nat (pos + (30 + length tail))"
    using pos(1) by (simp add: opened_def add.assoc[symmetric])
  obtain os3 where l2: "process_loop zr ?work (length (pre @ ?h)) ?st1 =
        process_loop zr ?work (length (pre @ ?h) + length (items_bytes its))
          (moved ?st1 (length (items_bytes its)) (at_offset ?fc (length d)) os3)"
    and v3: "visible os3 = set_content ?p (\<lambda>c. overwrite c 0 d) (visible os2)" and q3: "quiet os3"
    using items_processed[OF w1 its(1,2,4) pos1 pos(2), of "pre @ ?h" "data_descriptor crc cs us z @ rest"]
      its(3) pos(3) rec by (auto simp: opened_def)
  let ?st3 = "moved ?st1 (length (items_bytes its)) (at_offset ?fc (length d)) os3"
  have fds3: "os_fds os3 = os_fds os2"
    using v3 same_fds_set(2)[of "visible os2" ?p "\<lambda>c. overwrite c 0 d"]
    by (metis same_fds_def visible_fields(2))
  have nodes3: "os_nodes os3 = (os_nodes os1)(?p := Some (Regular (overwrite (fst (file_at ?os ?p)) 0 d)
      (snd (file_at ?os ?p))))"
    using arg_cong[OF v3, of os_nodes] os2(1) by (simp add: set_content_def)
  have next3: "os_next_fd os3 = ?fd + 1"
    using arg_cong[OF v3, of os_next_fd] os2(5) by (simp add: set_content_def split: option.splits node.splits)
  have euid3: "os_euid os3 = os_euid ?os"
    using arg_cong[OF v3, of os_euid] os2(4) by (simp add: set_content_def split: option.splits node.splits)
  have size: "unat (of_nat (length d) :: u64) = length d" "0 \<le> sint (of_nat (length d) :: u64)"
    using pos(3) sint_of_nat_nonneg by (simp_all add: unat_of_nat)
  have "os_nodes (ps_os ?st3) ?p = Some (Regular (overwrite (fst (file_at ?os ?p)) 0 d) (snd (file_at ?os ?p)))"
    using nodes3 by simp
  from close_output_file_regular[of ?st3 "at_offset ?fc (length d)", OF _ _ _ _ this]
  obtain os4 where c: "close_output_file ?st3 =
        Some (STREAM_PROC_SUCCESS, ?st3\<lparr>ps_current_file := None, ps_os := os4\<rparr>)"
    and os4: "os_nodes os4 = (os_nodes os1)(?p := Some (Regular d
          (restored (context_of name m) (os_euid ?os = 0) (snd (file_at ?os ?p)))))"
      "os_fds os4 = (os_fds os2)(?fd := None)" "quiet os4" "os_euid os4 = os_euid ?os"
      "os_next_fd os4 = ?fd + 1"
    using q3 os(2) fds3 os2(2) size m(2,4) nodes3 euid3 next3 by (auto simp: resize_overwrite)
  have "process_loop zr ?work (length (pre @ ?h @ items_bytes its)) ?st3 =
      process_loop zr ?work (length (pre @ ?h @ items_bytes its) + length (data_descriptor crc cs us z))
        (?st3\<lparr>ps_current_file := None, ps_os := os4, ps_state := STATE_EXPECT_LOCAL_HEADER,
          ps_bytes_processed := ps_bytes_processed ?st3 + of_nat (length (data_descriptor crc cs us z))\<rparr>)"
    using descriptor_closes[OF _ _ _ c, of "at_offset ?fc (length d)" z zr "pre @ ?h @ items_bytes its"
        crc cs us rest] m(5) rec by (simp add: opened_def)
  moreover have "?st3\<lparr>ps_current_file := None, ps_os := os4, ps_state := STATE_EXPECT_LOCAL_HEADER,
      ps_bytes_processed := ps_bytes_processed ?st3 + of_nat (length (data_descriptor crc cs us z))\<rparr>
      = extracted st (length record) os4"
    using st(1,2) rec
    by (cases st) (simp add: extracted_def moved_def opened_def add.assoc del: length_data_descriptor)
  ultimately have "process_loop zr ?work (length pre) st =
      process_loop zr ?work (length pre + length record) (extracted st (length record) os4)"
    using l1 l2 rec by (simp add: add.assoc)
  moreover have "holds_file ?os name m d os4"
  proof -
    have "snd ?p \<noteq> []" using name(2) by (simp add: creatable_def)
    note strict = dirs_added_strict[OF added this]
    have dir: "is_dir os4 q" if "q \<noteq> ?p" "is_dir os1 q" for q
      using that os4(1) by (simp add: is_dir_def)
    have "os_nodes os4 q = os_nodes ?os q \<or> os_nodes ?os q = None \<and> is_dir os4 q \<and>
        (\<exists>k < length (snd ?p). q = (fst ?p, take k (snd ?p)))" if "q \<noteq> ?p" for q
      using strict[of q] dir[OF that] os4(1) that by (metis fun_upd_other)
    moreover have "os_fds os4 = os_fds ?os" using os4(2) os2(2) os(3) by (simp add: fun_upd_idem)
    ultimately show ?thesis
      unfolding holds_file_def using os4 by simp
  qed
  ultimately show ?thesis by blast
qed

section \<open>Records of the writer\<close>

text \<open>Compressed chunks are frames that the downloader can read.\<close>

definition frames_readable :: "writer_env \<Rightarrow> int \<Rightarrow> zstd_reader \<Rightarrow> bool" where
  "frames_readable env level zr \<longleftrightarrow>
     (\<forall>c f. frame_of env level c = Some f \<longrightarrow> 0 < length c \<longrightarrow> length c \<le> ZSTD_CHUNK_SIZE \<longrightarrow> zstd_holds zr c f)"

lemma padding_lfh_complete:
  assumes "44 \<le> n" and "n < 44 + 65536"
  shows "header_complete (padding_header ct (of_nat (n - 44))) (PADDING_LFH_FILENAME @ replicate (n - 44) 0)"
    and "padding_named (padding_header ct (of_nat (n - 44))) (PADDING_LFH_FILENAME @ replicate (n - 44) 0)"
  using assms
  by (simp_all add: header_complete_def padding_named_def padding_header_def PADDING_LFH_FILENAME_LEN_def
      unat_of_nat split: prod.splits del: of_nat_diff)

lemma padding_lfh_skipped:
  assumes "44 \<le> n" and "n < 44 + 65536" and "ps_state st = STATE_EXPECT_LOCAL_HEADER"
    and "ps_next_entry_idx st < length (pf_entries (this_part st))"
  shows "process_loop zr (pre @ padding_lfh ct n @ rest) (length pre) st =
     process_loop zr (pre @ padding_lfh ct n @ rest) (length pre + n)
       (st\<lparr>ps_bytes_processed := ps_bytes_processed st + of_nat n\<rparr>)"
proof -
  have "30 + length (PADDING_LFH_FILENAME @ replicate (n - 44) 0) = n" using assms(1) by simp
  then show ?thesis
    using padding_header_skipped[OF padding_lfh_complete[OF assms(1,2), of ct] assms(3,4), of zr pre rest]
    unfolding padding_lfh_def by metis
qed

lemma entry_padding_skipped:
  assumes "entry_start s" and "need \<le> 65536" and "ps_state st = STATE_EXPECT_LOCAL_HEADER"
    and "ps_next_entry_idx st < length (pf_entries (this_part st))"
  shows "process_loop zr (pre @ entry_padding ct (length s) need @ rest) (length pre) st =
     process_loop zr (pre @ entry_padding ct (length s) need @ rest)
       (length pre + length (entry_padding ct (length s) need))
       (st\<lparr>ps_bytes_processed := ps_bytes_processed st + of_nat (length (entry_padding ct (length s) need))\<rparr>)"
proof (cases "room (length s) < need")
  case True
  have "44 \<le> room (length s)" using assms(1) by (simp add: entry_start_def)
  then show ?thesis
    using True assms padding_lfh_skipped[of "room (length s)" st zr pre ct rest]
    by (simp add: entry_padding_def)
next
  case False
  then show ?thesis by (cases st) (simp add: entry_padding_def)
qed

lemma file_items_readable:
  assumes "file_items env level p d = Some its" and "frames_readable env level zr"
  shows "list_all (item_readable zr) its"
proof -
  have "item_readable zr it" if it: "it \<in> set its" for it
  proof (cases it)
    case (Frame c f)
    then have "frame_of env level c = Some f \<and> c \<in> set (chunks d)"
      using assms(1) it body_items_frames unfolding file_items_def by blast
    then show ?thesis using Frame assms(2) chunks_bounds[of c d] by (simp add: frames_readable_def)
  next
    case (Pad n)
    then have "n < PART" using assms(1) it body_items_Pad unfolding file_items_def by blast
    then show ?thesis using Pad by simp
  qed simp
  then show ?thesis by (simp add: list_all_iff)
qed

lemma trailer_items_readable: "list_all (item_readable zr) (trailer_items (room p) off n)"
proof -
  have "room p - 8 < 0xFFFFFFF8" using room_bounds(2)[of p] by linarith
  then show ?thesis by (simp add: trailer_items_def)
qed

lemma extracted_advance:
  "extracted (st\<lparr>ps_bytes_processed := ps_bytes_processed st + of_nat k\<rparr>) n os = extracted st (k + n) os"
  by (simp add: extracted_def add.assoc)

lemma file_record_extracted:
  assumes w: "frames_fit env" "archive_inv w" "header_ok lfh tail 0 True"
    and h: "header_complete lfh tail" "\<not> padding_named lfh tail"
    and its: "items_of env w lfh tail d = Some its" "frames_readable env (compression_level w) zr"
    and st: "ps_state st = STATE_EXPECT_LOCAL_HEADER" "ps_current_file st = None"
      "ps_next_entry_idx st < length (pf_entries (this_part st))"
    and os: "quiet (ps_os st)" "0 \<le> os_next_fd (ps_os st)" "os_fds (ps_os st) (os_next_fd (ps_os st)) = None"
    and m: "m = cp_files (ps_cd_result st) ! pe_file_index (pf_entries (this_part st) ! ps_next_entry_idx st)"
      "\<not> fm_is_symlink m" "\<not> (fm_filename m \<noteq> [] \<and> last (fm_filename m) = slash)"
      "fm_uncompressed_size m = of_nat (length d)"
      "fm_uses_zip64_descriptor m = wide (of_nat (length (items_bytes its))) (of_nat (length d))"
    and name: "name = ps_output_dir st @ slash # fm_filename m" "creatable (ps_os st) name"
    and pos: "ps_part_start_offset st + ps_bytes_processed st = of_nat (length (stream w))"
      "length (stream w @ record) < 2 ^ 63" "length d < 2 ^ 63"
    and recd: "record = file_record env w lfh tail d its"
  shows "\<exists>os'. process_loop zr (pre @ record @ rest) (length pre) st =
           process_loop zr (pre @ record @ rest) (length pre + length record) (extracted st (length record) os')
         \<and> holds_file (ps_os st) name m d os'"
proof -
  let ?pad = "padding_for (env_time env) w tail 0 True" and ?h = "local_header_bytes lfh @ tail"
  let ?s = "stream w @ lead_in env w lfh tail"
  let ?q = "length ?s + length (items_bytes its)"
  let ?z = "wide (of_nat (length (items_bytes its))) (of_nat (length d))"
  let ?all = "its @ trailer_items (room ?q) (length d) (if ?z then 24 else 16)"
  let ?dd = "data_descriptor (file_crc env d) (of_nat (length (items_bytes its))) (of_nat (length d)) ?z"
  let ?rec = "?h @ items_bytes ?all @ ?dd"
  let ?st1 = "st\<lparr>ps_bytes_processed := ps_bytes_processed st + of_nat (length ?pad)\<rparr>"
  have rec: "record = ?pad @ ?rec"
    unfolding recd file_record_def file_body_def file_tail_def by (simp add: add.assoc)
  have mid: "mid_file ?s" using lead_in_mid[OF w(2,3)] .
  have b: "body_items (frame_of env (compression_level w)) (length ?s) 0 (chunks d) = Some its"
    using its(1) by (simp add: file_items_def)
  have mid2: "mid_file (?s @ items_bytes its)"
    using body_items_mid[OF mid b frames_fitD[OF w(1)]] .
  have "sops_aligned (length ?s) its" using body_items_aligned[OF mid b frames_fitD[OF w(1)]] .
  moreover have "8 \<le> room ?q" using mid2 by (simp only: mid_file_def length_append)
  ultimately have "sops_aligned (length ?s) ?all" by (simp add: trailer_items_aligned)
  then have al: "sops_aligned (length (stream w) + length ?pad + (30 + length tail)) ?all"
    by (simp add: add.assoc)
  have pay: "payload ?all = d" "sops_ok 0 ?all"
    using body_items_payload[OF b] body_items_sops[OF b] by simp_all
  have rd: "list_all (item_readable zr) ?all"
    using file_items_readable[OF its] trailer_items_readable[of zr ?q] by simp
  have skip: "process_loop zr (pre @ ?pad @ ?rec @ rest) (length pre) st =
      process_loop zr (pre @ ?pad @ ?rec @ rest) (length pre + length ?pad) ?st1"
    using entry_padding_skipped[of "stream w" _ st zr pre _ "?rec @ rest"] w st
    by (simp add: archive_inv_def header_ok_def)
  have p1: "ps_part_start_offset ?st1 + ps_bytes_processed ?st1 = of_nat (length (stream w) + length ?pad)"
    using pos(1) by (simp add: add.assoc[symmetric])
  have len: "length (stream w) + length ?pad + (30 + length tail) + length (items_bytes ?all) < 2 ^ 64"
    using pos(2) unfolding rec by simp
  obtain os' where "process_loop zr ((pre @ ?pad) @ ?rec @ rest) (length (pre @ ?pad)) ?st1 =
      process_loop zr ((pre @ ?pad) @ ?rec @ rest) (length (pre @ ?pad) + length ?rec)
        (extracted ?st1 (length ?rec) os')"
    and hf: "holds_file (ps_os st) name m d os'"
    using process_file_record[OF h, of ?st1 m d ?z name zr ?all "length (stream w) + length ?pad" ?rec
        "file_crc env d" "of_nat (length (items_bytes its))" "of_nat (length d)" "pre @ ?pad" rest]
      st os m name rd pay al p1 len pos(3) by auto
  then have "process_loop zr (pre @ record @ rest) (length pre) st =
      process_loop zr (pre @ record @ rest) (length pre + length record) (extracted st (length record) os')"
    using skip unfolding rec extracted_advance by (simp add: add.assoc)
  then show ?thesis using hf by blast
qed

end
