(* ===== verification/Writer_Final.thy ===== *)
theory Writer_Final
  imports Writer_Spec
begin

text \<open>
  \<open>burst_writer_finalize\<close>: the central directory, the end records and the comment as byte strings,
  the proof that the operation writes exactly these, and the search for the first central
  directory header in the last 8 MiB.
\<close>

section \<open>Finalizing\<close>

definition central_directory :: "file_entry list \<Rightarrow> bytes" where
  "central_directory es = concat (map cdfh_bytes es)"

definition eocd64_record :: "nat \<Rightarrow> nat \<Rightarrow> nat \<Rightarrow> zip64_end_central_dir" where
  "eocd64_record n cd_start cd_size =
     \<lparr>e64_signature = ZIP_ZIP64_END_CENTRAL_DIR_SIG, e64_eocd64_size = 56 - 12,
      e64_version_made_by = push_bit 8 3 OR ZIP_VERSION_ZSTD,
      e64_version_needed = ZIP_VERSION_ZSTD, e64_disk_number = 0, e64_disk_with_cd = 0,
      e64_num_entries_this_disk = of_nat n, e64_num_entries_total = of_nat n,
      e64_central_dir_size = of_nat cd_size, e64_central_dir_offset = of_nat cd_start\<rparr>"

definition locator_record :: "nat \<Rightarrow> zip64_end_central_dir_locator" where
  "locator_record eocd64_pos =
     \<lparr>loc_signature = ZIP_ZIP64_END_CENTRAL_DIR_LOCATOR_SIG, loc_disk_with_eocd64 = 0,
      loc_eocd64_offset = of_nat eocd64_pos, loc_total_disks = 1\<rparr>"

text \<open>The three records and the comment after a central directory of \<open>n\<close> entries.\<close>

definition end_records :: "nat \<Rightarrow> nat \<Rightarrow> nat \<Rightarrow> u32 \<Rightarrow> bytes" where
  "end_records n cd_start cd_size first =
     zip64_end_central_dir_bytes (eocd64_record n cd_start cd_size) @
     zip64_locator_bytes (locator_record (cd_start + cd_size)) @
     end_central_dir_bytes (end_central_dir_of n (of_nat cd_start) (of_nat cd_size)) @
     build_burst_eocd_comment first"

definition archive_size :: "nat \<Rightarrow> file_entry list \<Rightarrow> nat" where
  "archive_size cd_start es = cd_start + length (central_directory es) + 106"

definition archive_tail :: "burst_writer \<Rightarrow> bytes" where
  "archive_tail w =
     (let p = length (stream w)
      in central_directory (files w) @
         end_records (num_files w) p (length (central_directory (files w)))
           (find_first_cdfh_in_tail w (of_nat p) (of_nat (archive_size p (files w)))))"

lemma length_end_records [simp, layout]: "length (end_records n p c f) = 106"
  by (simp add: end_records_def)

lemma end_records_not_Nil [simp]: "end_records n p c f \<noteq> []"
  by (metis length_end_records list.size(3) zero_neq_numeral)

lemma burst_writer_flush_emits [emit_intros]: "emits burst_writer_flush []"
  unfolding emits_def
proof (intro allI impI conjI)
  fix w w' assume w: "writer_wf w" and f: "burst_writer_flush w = (0, w')"
  show "extends_by w [] w'" "fault_free w \<Longrightarrow> fault_free w'"
    using burst_writer_flush_zero[OF f] w by (auto simp: extends_by_def writer_wf_def)
next
  fix w assume "fault_free w"
  then show "fst (burst_writer_flush w) = 0" by (rule burst_writer_flush_fault_free)
qed

lemma then_ok_cong:
  "f s = f' s \<Longrightarrow> (\<And>s1. f' s = (0, s1) \<Longrightarrow> g s1 = g' s1) \<Longrightarrow> then_ok f g s = then_ok f' g' s"
  by (auto simp: then_ok_def split: prod.splits)

lemma find_first_cdfh_keep:
  "files w = files v \<Longrightarrow> find_first_cdfh_in_tail w a b = find_first_cdfh_in_tail v a b"
  by (simp add: find_first_cdfh_in_tail_def Let_def)

lemma extends_by_files: "extends_by w d w' \<Longrightarrow> files w' = files w \<and> num_files w' = num_files w"
  by (simp add: extends_by_def keep_def num_files_def)

text \<open>The writes of \<open>burst_writer_finalize\<close> with the values it computes from the offsets.\<close>

definition finalize_plan :: "burst_writer \<Rightarrow> burst_writer \<Rightarrow> int \<times> burst_writer" where
  "finalize_plan w =
     (let n = num_files w; p = length (stream w); c = length (central_directory (files w))
      in then_ok burst_writer_flush
        (then_ok (write_central_entries (files w))
          (then_ok (burst_writer_write (zip64_end_central_dir_bytes (eocd64_record n p c)))
            (then_ok (burst_writer_write (zip64_locator_bytes (locator_record (p + c))))
              (then_ok (then_ok
                  (burst_writer_write (end_central_dir_bytes (end_central_dir_of n (of_nat p) (of_nat c))))
                  (burst_writer_write (build_burst_eocd_comment
                     (find_first_cdfh_in_tail w (of_nat p) (of_nat (archive_size p (files w)))))))
                (then_ok burst_writer_flush ret_ok))))))"

lemma finalize_plan_emits: "emits (finalize_plan w) (archive_tail w)"
proof -
  have "emits (finalize_plan w)
    ([] @ central_directory (files w) @
     zip64_end_central_dir_bytes (eocd64_record (num_files w) (length (stream w))
       (length (central_directory (files w)))) @
     zip64_locator_bytes (locator_record (length (stream w) + length (central_directory (files w)))) @
     (end_central_dir_bytes (end_central_dir_of (num_files w) (of_nat (length (stream w)))
        (of_nat (length (central_directory (files w))))) @
      build_burst_eocd_comment (find_first_cdfh_in_tail w (of_nat (length (stream w)))
        (of_nat (archive_size (length (stream w)) (files w))))) @ [] @ [])"
    unfolding finalize_plan_def Let_def central_directory_def
    by (intro emits_then emits_write emits_ret burst_writer_flush_emits write_central_entries_emits)
  then show ?thesis by (simp add: archive_tail_def end_records_def Let_def)
qed

text \<open>The record writers take the number of entries from the state; it does not change.\<close>

lemma record_writers:
  assumes "num_files w = n" and "cd_end - cd_start = (of_nat c :: u64)" and "cd_start = of_nat p"
  shows "write_zip64_end_central_directory cd_start (cd_end - cd_start) w =
           burst_writer_write (zip64_end_central_dir_bytes (eocd64_record n p c)) w"
    and "write_end_central_directory cd_start (cd_end - cd_start) first w =
           then_ok (burst_writer_write (end_central_dir_bytes (end_central_dir_of n (of_nat p) (of_nat c))))
             (burst_writer_write (build_burst_eocd_comment first)) w"
  using assms
  by (simp_all add: write_zip64_end_central_directory_def eocd64_record_def write_end_central_directory_def)

lemma burst_writer_finalize_plan:
  assumes wf: "writer_wf w"
  shows "burst_writer_finalize w = finalize_plan w w"
  unfolding burst_writer_finalize_def finalize_plan_def Let_def
proof (rule then_ok_cong[OF refl], goal_cases)
  case (1 w1)
  let ?p = "length (stream w)" and ?c = "length (central_directory (files w))"
  have e1: "extends_by w [] w1" using emits_extends[OF burst_writer_flush_emits wf 1] .
  have "buffer_used w1 = 0" using burst_writer_flush_zero[OF 1] wf by (simp add: writer_wf_def buffer_used_def)
  then have p1: "current_offset w1 = of_nat ?p"
    using write_position_eq[OF extends_by_wf[OF e1]] e1
    by (simp add: alignment_get_write_position_def extends_by_def)
  have f1: "files w1 = files w" using extends_by_files[OF e1] by simp
  show ?case
    unfolding write_central_directory_def p1
  proof (rule then_ok_cong, goal_cases)
    case 1
    show ?case by (simp add: f1)
  next
    case (2 w2)
    have e2: "extends_by w ([] @ central_directory (files w)) w2"
      using e1 emits_extends[OF write_central_entries_emits extends_by_wf[OF e1] 2]
      unfolding central_directory_def by (rule extends_by_trans)
    have p2: "current_offset w2 + of_nat (buffer_used w2) = (of_nat (?p + ?c) :: u64)"
      using write_position_eq[OF extends_by_wf[OF e2]] e2
      by (simp add: alignment_get_write_position_def extends_by_def)
    have c: "(of_nat (?p + ?c) - of_nat ?p :: u64) = of_nat ?c" by simp
    have size: "(of_nat (?p + ?c) + 56 + 20 + 22 + of_nat BURST_EOCD_COMMENT_SIZE :: u64)
        = of_nat (archive_size ?p (files w))"
      by (simp add: archive_size_def BURST_EOCD_COMMENT_SIZE_def)
    have n2: "files w2 = files w" "num_files w2 = num_files w" using extends_by_files[OF e2] by auto
    show ?case
      unfolding p2 size find_first_cdfh_keep[OF n2(1)]
    proof (rule then_ok_cong, goal_cases)
      case 1
      show ?case by (rule record_writers(1)[OF n2(2) c refl])
    next
      case (2 w3)
      have e3: "num_files w3 = num_files w" "writer_wf w3"
        using emits_extends[OF emits_write extends_by_wf[OF e2] 2] n2
        by (auto simp: extends_by_files extends_by_wf)
      show ?case
        unfolding write_zip64_end_central_directory_locator_def locator_record_def[symmetric]
      proof (rule then_ok_cong[OF refl], goal_cases)
        case (1 w4)
        have "num_files w4 = num_files w"
          using emits_extends[OF emits_write e3(2) 1] e3(1) by (simp add: extends_by_files)
        then show ?case by (intro then_ok_cong refl record_writers(2) c)
      qed
    qed
  qed
qed

text \<open>A finished archive: the bytes on disk, nothing buffered.\<close>

definition finalized :: "burst_writer \<Rightarrow> burst_writer \<Rightarrow> bool" where
  "finalized w w' \<longleftrightarrow>
     out_written (output_file w') = stream w @ archive_tail w \<and> write_buffer w' = [] \<and>
     current_offset w' = of_nat (length (stream w @ archive_tail w)) \<and> files w' = files w"

lemma burst_writer_finalize_refines:
  assumes wf: "writer_wf w"
  shows "burst_writer_finalize w = (0, w') \<Longrightarrow> finalized w w'"
    and "fault_free w \<Longrightarrow> \<exists>w'. burst_writer_finalize w = (0, w') \<and> finalized w w'"
proof -
  have main: "finalized w w'" if run: "burst_writer_finalize w = (0, w')" for w'
  proof -
    have plan: "finalize_plan w w = (0, w')" using run burst_writer_finalize_plan[OF wf] by simp
    have e: "extends_by w (archive_tail w) w'" using emits_extends[OF finalize_plan_emits wf plan] .
    from plan obtain v where f: "burst_writer_flush v = (0, w')"
      unfolding finalize_plan_def Let_def then_ok_zero_iff by auto
    have "write_buffer w' = []"
      using f by (auto simp: burst_writer_flush_def buffer_used_def split: if_splits prod.splits)
    with e show ?thesis
      by (auto simp: finalized_def extends_by_def stream_def writer_wf_def keep_def)
  qed
  show "finalized w w'" if "burst_writer_finalize w = (0, w')" using that by (rule main)
  show "\<exists>w'. burst_writer_finalize w = (0, w') \<and> finalized w w'" if "fault_free w"
    using emits_returns[OF finalize_plan_emits wf that, of w] burst_writer_finalize_plan[OF wf] main
    by auto
qed

section \<open>The first central directory header in the tail\<close>

lemma length_cdfh_extra: "length (cdfh_extra e) \<le> 43"
proof (cases "need_zip64 e")
  case True
  then have "length (build_zip64_extra_field 49 (fe_compressed_size e) (fe_uncompressed_size e)
    (fe_local_header_offset e)) \<le> 28"
    by (subst length_build_zip64_extra_field) (auto simp: need_zip64_def)
  with True show ?thesis by (simp add: cdfh_extra_def)
qed (simp add: cdfh_extra_def)

lemma length_cdfh_bytes:
  assumes "length (fe_filename e) < 65536"
  shows "length (cdfh_bytes e) = 46 + length (fe_filename e) + length (cdfh_extra e)"
  using assms by (simp add: cdfh_bytes_def unat_of_nat)

lemma calculate_cdfh_size_correct:
  assumes "length (fe_filename e) < 65536"
  shows "calculate_cdfh_size e = length (cdfh_bytes e)"
proof (cases "need_zip64 e")
  case True
  then have "length (build_zip64_extra_field 49 (fe_compressed_size e) (fe_uncompressed_size e)
      (fe_local_header_offset e)) =
    4 + (if fe_uncompressed_size e > 0xFFFFFFFF then 8 else 0)
      + (if fe_compressed_size e > 0xFFFFFFFF then 8 else 0)
      + (if fe_local_header_offset e > 0xFFFFFFFF then 8 else 0)"
    by (intro length_build_zip64_extra_field) (auto simp: need_zip64_def)
  with True show ?thesis
    using assms by (simp add: length_cdfh_bytes calculate_cdfh_size_def cdfh_extra_def)
next
  case False
  with assms show ?thesis by (simp add: length_cdfh_bytes calculate_cdfh_size_def cdfh_extra_def)
qed

definition cdfh_pos :: "nat \<Rightarrow> file_entry list \<Rightarrow> nat \<Rightarrow> nat" where
  "cdfh_pos p es k = p + length (central_directory (take k es))"

definition names_fit :: "file_entry list \<Rightarrow> bool" where
  "names_fit es \<longleftrightarrow> (\<forall>e \<in> set es. length (fe_filename e) < 65536)"

lemma central_directory_Cons [simp]:
  "central_directory [] = []" "central_directory (e # es) = cdfh_bytes e @ central_directory es"
  "central_directory (es @ fs) = central_directory es @ central_directory fs"
  by (simp_all add: central_directory_def)

lemma first_cdfh_from_correct:
  assumes "names_fit es" and "p + length (central_directory es) < 2 ^ 62" and "ts < 2 ^ 62"
  shows "(\<exists>k < length es. ts \<le> cdfh_pos p es k \<and> (\<forall>j < k. cdfh_pos p es j < ts) \<and>
            first_cdfh_from (of_nat ts) (of_nat p) es = of_nat (cdfh_pos p es k - ts))
       \<or> (\<forall>k < length es. cdfh_pos p es k < ts) \<and>
            first_cdfh_from (of_nat ts) (of_nat p) es = BURST_EOCD_NO_CDFH_IN_TAIL"
  using assms(1,2)
proof (induction es arbitrary: p)
  case Nil
  then show ?case by simp
next
  case (Cons e es)
  have le: "((of_nat ts :: u64) \<le> of_nat p) = (ts \<le> p)"
    using Cons.prems(2) assms(3) by (simp add: word_le_nat_alt unat_of_nat)
  show ?case
  proof (cases "ts \<le> p")
    case True
    have "(ucast (of_nat p - of_nat ts :: u64) :: u32) = of_nat (p - ts)"
    proof -
      have "(of_nat p - of_nat ts :: u64) = of_nat (p - ts)" using True by (simp add: of_nat_diff)
      moreover have "(ucast (of_nat (p - ts) :: u64) :: u32) = of_nat (p - ts)"
        using Cons.prems(2) by (simp add: unsigned_of_nat take_bit_nat_eq_self del: of_nat_diff)
      ultimately show ?thesis by simp
    qed
    with True le have "0 < length (e # es) \<and> ts \<le> cdfh_pos p (e # es) 0 \<and>
      first_cdfh_from (of_nat ts) (of_nat p) (e # es) = of_nat (cdfh_pos p (e # es) 0 - ts)"
      by (simp add: cdfh_pos_def)
    then show ?thesis by blast
  next
    case False
    let ?q = "p + length (cdfh_bytes e)"
    have pos: "cdfh_pos p (e # es) (Suc k) = cdfh_pos ?q es k" for k by (simp add: cdfh_pos_def)
    have pos0: "cdfh_pos p (e # es) 0 = p" by (simp add: cdfh_pos_def)
    have step: "first_cdfh_from (of_nat ts) (of_nat p) (e # es) = first_cdfh_from (of_nat ts) (of_nat ?q) es"
      using False le Cons.prems(1) by (simp add: calculate_cdfh_size_correct names_fit_def)
    have "names_fit es" "?q + length (central_directory es) < 2 ^ 62"
      using Cons.prems by (auto simp: names_fit_def)
    from Cons.IH[OF this] show ?thesis
      unfolding step
    proof (elim disjE exE conjE, goal_cases)
      case (1 k)
      then have "Suc k < length (e # es)" "ts \<le> cdfh_pos p (e # es) (Suc k)"
        "\<forall>j < Suc k. cdfh_pos p (e # es) j < ts"
        using False pos pos0 by (auto simp: less_Suc_eq_0_disj)
      with 1 pos show ?case by metis
    next
      case 2
      then have "\<forall>k < length (e # es). cdfh_pos p (e # es) k < ts"
        using False pos pos0 by (auto simp: less_Suc_eq_0_disj)
      with 2 show ?case by blast
    qed
  qed
qed

lemma find_first_cdfh_cases:
  assumes "names_fit (files w)" and "archive_size p (files w) < 2 ^ 62"
    and "PART < archive_size p (files w)" and "p < archive_size p (files w) - PART"
  shows "let ts = archive_size p (files w) - PART;
             r = find_first_cdfh_in_tail w (of_nat p) (of_nat (archive_size p (files w)))
         in (\<exists>k < length (files w). ts \<le> cdfh_pos p (files w) k \<and>
               (\<forall>j < k. cdfh_pos p (files w) j < ts) \<and>
               unat r = cdfh_pos p (files w) k - ts \<and> unat r < PART)
          \<or> (\<forall>k < length (files w). cdfh_pos p (files w) k < ts) \<and> r = BURST_EOCD_NO_CDFH_IN_TAIL"
proof -
  let ?es = "files w" and ?size = "archive_size p (files w)"
  let ?ts = "?size - PART"
  have ts: "(of_nat ?size - BURST_PART_SIZE :: u64) = of_nat ?ts"
    using assms(3) by (simp add: BURST_PART_SIZE_def of_nat_diff)
  have "\<not> (of_nat ?size :: u64) \<le> BURST_PART_SIZE"
    using assms(2,3) by (simp add: word_le_nat_alt unat_of_nat)
  moreover have "\<not> (of_nat ?ts :: u64) \<le> of_nat p"
    using assms(2,4) by (simp add: word_le_nat_alt unat_of_nat del: of_nat_diff)
  ultimately have r: "find_first_cdfh_in_tail w (of_nat p) (of_nat ?size) =
    first_cdfh_from (of_nat ?ts) (of_nat p) ?es"
    by (simp add: find_first_cdfh_in_tail_def ts del: of_nat_diff)
  have len: "p + length (central_directory ?es) < 2 ^ 62" "?ts < 2 ^ 62"
    using assms(2) by (simp_all add: archive_size_def)
  have small: "cdfh_pos p ?es k - ?ts < PART" for k
  proof -
    have "length (central_directory (take k ?es)) \<le> length (central_directory ?es)"
      by (metis append_take_drop_id central_directory_Cons(3) le_add1 length_append)
    then show ?thesis using assms(3) by (simp add: cdfh_pos_def archive_size_def)
  qed
  have u: "unat (of_nat (cdfh_pos p ?es k - ?ts) :: u32) = cdfh_pos p ?es k - ?ts" for k
  proof -
    have "cdfh_pos p ?es k - ?ts < 2 ^ 32" using small[of k] by (rule less_trans) simp
    then show ?thesis by (simp add: unat_of_nat del: of_nat_diff)
  qed
  from first_cdfh_from_correct[OF assms(1) len] show ?thesis
    unfolding r Let_def using u small by metis
qed

end
