(* ===== verification/Writer_Properties.thy ===== *)
theory Writer_Properties
  imports Writer_Final
begin

text \<open>
  The properties of the archive writer: what each operation appends and records, the alignment
  rule for every archive the operations can produce, that they succeed when the environment does
  not fail, and what finalizing writes. The concrete values at the end of the first section are
  the inputs of the witnesses.
\<close>

section \<open>Archives that the operations produce\<close>

inductive reachable :: "writer_env \<Rightarrow> burst_writer \<Rightarrow> bool" for env where
  create:
    "burst_writer_create out level plan = Some w \<Longrightarrow> out_written out = [] \<Longrightarrow> reachable env w"
| add_file:
    "reachable env w \<Longrightarrow> header_ok lfh tail 0 True \<Longrightarrow> \<not> is_header_only lfh \<Longrightarrow>
     budget (length (stream w)) (Suc (length (chunks (readable (in_rewind inp))))) \<Longrightarrow>
     burst_writer_add_file env inp lfh tail unix_mode uid gid w = (0, w') \<Longrightarrow> reachable env w'"
| add_empty_file:
    "reachable env w \<Longrightarrow> header_ok lfh tail 0 True \<Longrightarrow> is_header_only lfh \<Longrightarrow>
     length (stream w) < 2 ^ 62 \<Longrightarrow>
     burst_writer_add_file env inp lfh tail unix_mode uid gid w = (0, w') \<Longrightarrow> reachable env w'"
| add_symlink:
    "reachable env w \<Longrightarrow> header_ok lfh tail (length target) False \<Longrightarrow> length (stream w) < 2 ^ 62 \<Longrightarrow>
     burst_writer_add_symlink env lfh tail target unix_mode uid gid w = (0, w') \<Longrightarrow> reachable env w'"
| add_directory:
    "reachable env w \<Longrightarrow> header_ok lfh tail 0 False \<Longrightarrow> length (stream w) < 2 ^ 62 \<Longrightarrow>
     burst_writer_add_directory env lfh tail unix_mode uid gid w = (0, w') \<Longrightarrow> reachable env w'"

lemma add_file_seekable:
  "burst_writer_add_file env inp lfh tail unix_mode uid gid w = (0, w') \<Longrightarrow>
   is_header_only lfh \<or> in_seekable inp"
  by (auto simp: burst_writer_add_file_def split: if_splits)

lemma add_symlink_target:
  "burst_writer_add_symlink env lfh tail target unix_mode uid gid w = (0, w') \<Longrightarrow> target \<noteq> []"
  by (auto simp: burst_writer_add_symlink_def split: if_splits)

lemma add_directory_header:
  "burst_writer_add_directory env lfh tail unix_mode uid gid w = (0, w') \<Longrightarrow>
   directory_header_ok lfh tail"
  by (auto simp: burst_writer_add_directory_def directory_header_ok_def not_less split: if_splits)

lemma create_archive_inv:
  assumes "burst_writer_create out level plan = Some w" and "out_written out = []"
  shows "archive_inv w"
  using assms
  by (auto simp: burst_writer_create_def archive_inv_def writer_wf_def slots_ok_def entry_start_def
      stream_def buffer_used_def WRITE_BUFFER_SIZE_def INITIAL_FILES_CAPACITY_def num_files_def
      aligned_Nil room_def split: if_splits)

lemma header_entry_start:
  assumes "entry_start s" and "header_ok lfh tail (length content) dd"
  shows "entry_start (s @ entry_padding ct (length s) (entry_need (30 + length tail) (length content) dd)
           @ local_header_bytes lfh @ tail @ content)"
  using entry_start_header[OF assms, of ct] by (simp add: entry_start_def split: if_splits)

lemma reachable_archive_inv:
  assumes "frames_fit env" and "reachable env w"
  shows "archive_inv w"
  using assms(2)
proof induction
  case (create out level plan w)
  then show ?case by (rule create_archive_inv)
next
  case (add_file w lfh tail inp unix_mode uid gid w')
  have "in_seekable inp" using add_file_seekable[OF add_file(5)] add_file(3) by simp
  from burst_writer_add_file_refines(1)[OF assms(1) add_file(6,2,3) this add_file(4,5)]
  obtain its where "items_of env w lfh tail (readable (in_rewind inp)) = Some its"
    and "added w (file_record env w lfh tail (readable (in_rewind inp)) its)
      (file_record_entry env w lfh tail unix_mode uid gid (readable (in_rewind inp)) its) w'"
    and "num_files w' \<le> files_capacity w'" by blast
  with archive_inv_added[OF add_file(6)] file_record_entry_start[OF assms(1) add_file(6,2)]
  show ?case by blast
next
  case (add_empty_file w lfh tail inp unix_mode uid gid w')
  have "entry_start (stream w @ lead_in env w lfh tail)"
    using header_entry_start[of "stream w" lfh tail "[]" True "env_time env"] add_empty_file(2,6)
    by (simp add: archive_inv_def)
  with archive_inv_added[OF add_empty_file(6)] add_empty_file(5)
    burst_writer_add_empty_file_adds[OF add_empty_file(6,4,2,3), of env inp unix_mode uid gid]
  show ?case unfolding adds_def by blast
next
  case (add_symlink w lfh tail target unix_mode uid gid w')
  have "entry_start (stream w @ padding_for (env_time env) w tail (length target) False
      @ local_header_bytes lfh @ tail @ target)"
    using header_entry_start[of "stream w" lfh tail target False "env_time env"] add_symlink(2,5)
    by (simp add: archive_inv_def)
  with archive_inv_added[OF add_symlink(5)] add_symlink(4)
    burst_writer_add_symlink_adds[OF add_symlink(5,3,2) add_symlink_target[OF add_symlink(4)]]
  show ?case unfolding adds_def by blast
next
  case (add_directory w lfh tail unix_mode uid gid w')
  have "entry_start (stream w @ padding_for (env_time env) w tail 0 False @ local_header_bytes lfh @ tail)"
    using header_entry_start[of "stream w" lfh tail "[]" False "env_time env"] add_directory(2,5)
    by (simp add: archive_inv_def)
  with archive_inv_added[OF add_directory(5)] add_directory(4)
    burst_writer_add_directory_adds[OF add_directory(5,3,2) add_directory_header[OF add_directory(4)]]
  show ?case unfolding adds_def by blast
qed

subsection \<open>Concrete inputs\<close>

definition demo_env :: writer_env where
  "demo_env = \<lparr>env_time = \<lparr>time_now = 0, localtime = \<lambda>_. None\<rparr>, env_crc32 = \<lambda>c d. c + of_nat (length d),
     env_compress = \<lambda>cap d level. if length d \<le> cap then Some d else None,
     env_compress_bound = \<lambda>n. n + 512, env_content_size = \<lambda>d. CONTENTSIZE (of_nat (length d))\<rparr>"

definition demo_writer :: burst_writer where
  "demo_writer = \<lparr>output_file = \<lparr>out_written = [], out_limits = []\<rparr>, current_offset = 0,
     compression_level = 3, files = [], files_capacity = INITIAL_FILES_CAPACITY, write_buffer = [],
     total_uncompressed = 0, total_compressed = 0, padding_bytes = 0,
     current_uncompressed_offset = 0, allocs = []\<rparr>"

definition demo_header :: "u16 \<Rightarrow> u16 \<Rightarrow> nat \<Rightarrow> zip_local_header" where
  "demo_header flags method n =
     \<lparr>lh_signature = ZIP_LOCAL_FILE_HEADER_SIG, lh_version_needed = 63, lh_flags = flags,
      lh_compression_method = method, lh_last_mod_time = 0, lh_last_mod_date = 33, lh_crc32 = 0,
      lh_compressed_size = 0, lh_uncompressed_size = 0, lh_filename_length = of_nat n,
      lh_extra_field_length = 0\<rparr>"

definition demo_input :: in_file where
  "demo_input = \<lparr>in_all = [65, 66, 67], in_data = [65, 66, 67], in_fail_after = None, in_eof = False,
     in_error = False, in_seekable = True\<rparr>"

lemma demo_frames_fit: "frames_fit demo_env"
  by (auto simp: frames_fit_def demo_env_def ZSTD_CHUNK_SIZE_def split: if_splits)

lemma demo_create: "burst_writer_create \<lparr>out_written = [], out_limits = []\<rparr> 3 [] = Some demo_writer"
  by (simp add: burst_writer_create_def demo_writer_def)

lemma demo_inv: "archive_inv demo_writer"
  by (rule create_archive_inv[OF demo_create]) simp

lemma demo_fault_free: "fault_free demo_writer"
  by (simp add: demo_writer_def fault_free_def)

lemma demo_stream: "stream demo_writer = []"
  by (simp add: demo_writer_def stream_def)

lemma demo_header_ok:
  "length tail + content \<le> 1000 \<Longrightarrow> header_ok (demo_header flags method n) tail content dd"
  by (simp add: header_ok_def demo_header_def entry_need_def)

lemma demo_readable: "readable (in_rewind demo_input) = [65, 66, 67]"
  by (simp add: readable_def in_rewind_def demo_input_def fread_avail_def)

lemma demo_chunks: "chunks (readable (in_rewind demo_input)) = [[65, 66, 67]]"
  by (simp add: demo_readable chunks.simps ZSTD_CHUNK_SIZE_def)

lemma demo_budget: "budget (length (stream demo_writer)) (Suc (length (chunks (readable (in_rewind demo_input)))))"
  by (simp add: budget_def demo_chunks demo_stream)

lemma demo_not_header_only: "\<not> is_header_only (demo_header 8 93 1)"
  by (simp add: is_header_only_def demo_header_def ZIP_FLAG_DATA_DESCRIPTOR_def)

lemma demo_items: "items_of demo_env demo_writer (demo_header 8 93 1) [97] (readable (in_rewind demo_input)) \<noteq> None"
  by (simp add: file_items_def demo_chunks compress_chunk_def demo_env_def Let_def ZSTD_CHUNK_SIZE_def)

lemma demo_add_file:
  "fst (burst_writer_add_file demo_env demo_input (demo_header 8 93 1) [97] 0 0 0 demo_writer) = 0"
  by (intro burst_writer_add_file_refines(2) demo_frames_fit demo_inv demo_header_ok
      demo_not_header_only demo_budget demo_fault_free demo_items)
     (simp_all add: demo_input_def read_fails_def in_rewind_def)

section \<open>Properties\<close>

text \<open>C3: the alignment rule of the format. In every archive produced by successful operations and
  then finalized, each 8 MiB boundary before the central directory starts with a local file header
  or a Start-of-Part frame.\<close>

theorem archive_part_boundaries:
  assumes "frames_fit env" and "reachable env w" and "burst_writer_finalize w = (0, w')"
    and "k * PART < length (stream w)"
  shows "entry_point (drop (k * PART) (out_written (output_file w')))"
proof -
  have inv: "archive_inv w" using assms(1,2) by (rule reachable_archive_inv)
  then have "entry_point (drop (k * PART) (stream w))"
    using assms(4) by (simp add: archive_inv_def entry_start_def aligned_iff)
  moreover have "out_written (output_file w') = stream w @ archive_tail w"
    using burst_writer_finalize_refines(1)[OF _ assms(3)] inv
    by (simp add: archive_inv_def finalized_def)
  ultimately show ?thesis using assms(4) entry_point_weaken by simp
qed

theorem archive_part_boundaries_witness:
  "\<exists>w w'. reachable demo_env w \<and> burst_writer_finalize w = (0, w') \<and> 0 < length (stream w)
     \<and> entry_point (drop (0 * PART) (out_written (output_file w')))"
proof -
  let ?f = "burst_writer_add_file demo_env demo_input (demo_header 8 93 1) [97] 0 0 0"
  obtain w where w: "?f demo_writer = (0, w)" using demo_add_file by (metis prod.collapse)
  have r: "reachable demo_env w"
    by (rule reachable.add_file[OF reachable.create[OF demo_create] demo_header_ok
        demo_not_header_only demo_budget w]) simp_all
  from burst_writer_add_file_refines(1)[OF demo_frames_fit demo_inv demo_header_ok
      demo_not_header_only _ demo_budget w] demo_fault_free
  have ff: "fault_free w" and st: "0 < length (stream w)"
    by (auto simp: demo_input_def added_def file_record_def)
  have "writer_wf w" using reachable_archive_inv[OF demo_frames_fit r] by (simp add: archive_inv_def)
  from burst_writer_finalize_refines(2)[OF this ff]
  obtain w' where w': "burst_writer_finalize w = (0, w')" by blast
  with archive_part_boundaries[OF demo_frames_fit r w', of 0] r st show ?thesis by auto
qed

text \<open>C11: the functional behaviour of \<open>burst_writer_add_file\<close> on a file with data. When it returns 0,
  the archive grew by the padding header (if any), the caller's header, the items of the body, the
  trailing items and the data descriptor; the entry was recorded; the frames hold exactly the bytes
  of the file, in order; every Start-of-Part frame carries the number of file bytes before it.\<close>

theorem add_file_appends:
  assumes "frames_fit env" and "archive_inv w" and "header_ok lfh tail 0 True"
    and "\<not> is_header_only lfh"
    and "budget (length (stream w)) (Suc (length (chunks (readable (in_rewind inp)))))"
    and "burst_writer_add_file env inp lfh tail unix_mode uid gid w = (0, w')"
  shows "\<exists>its. items_of env w lfh tail (readable (in_rewind inp)) = Some its
           \<and> stream w' = stream w @ file_record env w lfh tail (readable (in_rewind inp)) its
           \<and> files w' = files w @ [file_record_entry env w lfh tail unix_mode uid gid
                                    (readable (in_rewind inp)) its]
           \<and> payload its = readable (in_rewind inp) \<and> sops_ok 0 its
           \<and> \<not> read_fails (in_rewind inp) \<and> archive_inv w'"
proof -
  let ?d = "readable (in_rewind inp)"
  have "in_seekable inp" using add_file_seekable[OF assms(6)] assms(4) by simp
  from burst_writer_add_file_refines(1)[OF assms(1-4) this assms(5,6)]
  obtain its where its: "items_of env w lfh tail ?d = Some its" and rf: "\<not> read_fails (in_rewind inp)"
    and ad: "added w (file_record env w lfh tail ?d its)
      (file_record_entry env w lfh tail unix_mode uid gid ?d its) w'"
    and cap: "num_files w' \<le> files_capacity w'" by blast
  have "payload its = ?d" "sops_ok 0 its"
    using its body_items_payload body_items_sops by (fastforce simp: file_items_def)+
  moreover have "archive_inv w'"
    using archive_inv_added[OF assms(2) ad cap] file_record_entry_start[OF assms(1-3) its] by blast
  ultimately show ?thesis using its rf ad by (auto simp: added_def)
qed

theorem add_file_appends_witness:
  "\<exists>w' its. burst_writer_add_file demo_env demo_input (demo_header 8 93 1) [97] 0 0 0 demo_writer = (0, w')
     \<and> stream w' = stream demo_writer
         @ file_record demo_env demo_writer (demo_header 8 93 1) [97] (readable (in_rewind demo_input)) its
     \<and> payload its = [65, 66, 67] \<and> archive_inv w'"
proof -
  obtain w' where "burst_writer_add_file demo_env demo_input (demo_header 8 93 1) [97] 0 0 0 demo_writer = (0, w')"
    using demo_add_file by (metis prod.collapse)
  with add_file_appends[OF demo_frames_fit demo_inv demo_header_ok demo_not_header_only demo_budget this]
    demo_readable show ?thesis by auto
qed

text \<open>C12: \<open>burst_writer_add_file\<close> succeeds when no write, no allocation and no read fails and
  Zstandard compresses every chunk; and then the archive is again ready for the next entry.\<close>

theorem add_file_returns:
  assumes "frames_fit env" and "archive_inv w" and "header_ok lfh tail 0 True"
    and "\<not> is_header_only lfh" and "in_seekable inp"
    and "budget (length (stream w)) (Suc (length (chunks (readable (in_rewind inp)))))"
    and "fault_free w" and "\<not> read_fails (in_rewind inp)"
    and "\<forall>c \<in> set (chunks (readable (in_rewind inp))). frame_of env (compression_level w) c \<noteq> None"
  shows "\<exists>w'. burst_writer_add_file env inp lfh tail unix_mode uid gid w = (0, w') \<and> archive_inv w'
              \<and> fault_free w'"
proof -
  have "items_of env w lfh tail (readable (in_rewind inp)) \<noteq> None"
    using assms(9) body_items_total by (fastforce simp: file_items_def)
  from burst_writer_add_file_refines(2)[OF assms(1-8) this]
  obtain w' where w': "burst_writer_add_file env inp lfh tail unix_mode uid gid w = (0, w')"
    by (metis prod.collapse)
  from burst_writer_add_file_refines(1)[OF assms(1-6) w']
  obtain its where "items_of env w lfh tail (readable (in_rewind inp)) = Some its"
    and "added w (file_record env w lfh tail (readable (in_rewind inp)) its)
      (file_record_entry env w lfh tail unix_mode uid gid (readable (in_rewind inp)) its) w'"
    and "num_files w' \<le> files_capacity w'" "fault_free w'" using assms(7) by blast
  with archive_inv_added[OF assms(2)] file_record_entry_start[OF assms(1-3)] w' show ?thesis by blast
qed

theorem add_file_returns_witness:
  "\<exists>w'. burst_writer_add_file demo_env demo_input (demo_header 8 93 1) [97] 0 0 0 demo_writer = (0, w')
     \<and> archive_inv w' \<and> fault_free w'"
proof (rule add_file_returns[OF demo_frames_fit demo_inv demo_header_ok demo_not_header_only _ demo_budget
        demo_fault_free])
  show "in_seekable demo_input" "\<not> read_fails (in_rewind demo_input)"
    by (simp_all add: demo_input_def read_fails_def in_rewind_def)
  show "\<forall>c \<in> set (chunks (readable (in_rewind demo_input))).
      frame_of demo_env (compression_level demo_writer) c \<noteq> None"
    unfolding demo_chunks by (simp add: demo_env_def compress_chunk_def ZSTD_CHUNK_SIZE_def)
qed simp

text \<open>A symbolic link. The archive grows by the padding header (if any), the caller's header and
  the target; the recorded entry points at the header and has the length of the target as its two
  sizes; it succeeds when nothing fails; the archive is again ready for the next entry.\<close>

lemma add_symlink_appends:
  assumes "archive_inv w" and "length (stream w) < 2 ^ 62"
    and "header_ok lfh tail (length target) False" and "target \<noteq> []"
  shows "(\<forall>w'. burst_writer_add_symlink env lfh tail target unix_mode uid gid w = (0, w') \<longrightarrow>
            stream w' = stream w @ padding_for (env_time env) w tail (length target) False
              @ local_header_bytes lfh @ tail @ target
            \<and> files w' = files w @ [symlink_entry lfh tail target
                (length (stream w) + length (padding_for (env_time env) w tail (length target) False))
                unix_mode uid gid]
            \<and> archive_inv w')
       \<and> (fault_free w \<longrightarrow> fst (burst_writer_add_symlink env lfh tail target unix_mode uid gid w) = 0)"
proof -
  have es: "entry_start (stream w @ padding_for (env_time env) w tail (length target) False
      @ local_header_bytes lfh @ tail @ target)"
    using header_entry_start[of "stream w" lfh tail target False "env_time env"] assms(1,3)
    by (simp add: archive_inv_def)
  with burst_writer_add_symlink_adds[OF assms, of env unix_mode uid gid] archive_inv_added[OF assms(1)]
  show ?thesis unfolding adds_def added_def by blast
qed

text \<open>A directory. A header that is not a directory's (no trailing slash, another method, a
  nonzero size) is refused with -1 and nothing is written; otherwise the archive grows by the
  padding header (if any) and the caller's header.\<close>

lemma add_directory_appends:
  assumes "archive_inv w" and "length (stream w) < 2 ^ 62" and "header_ok lfh tail 0 False"
  shows "(\<not> directory_header_ok lfh tail \<longrightarrow>
            burst_writer_add_directory env lfh tail unix_mode uid gid w = (-1, w))
       \<and> (\<forall>w'. burst_writer_add_directory env lfh tail unix_mode uid gid w = (0, w') \<longrightarrow>
            stream w' = stream w @ padding_for (env_time env) w tail 0 False @ local_header_bytes lfh @ tail
            \<and> files w' = files w @ [directory_entry lfh tail
                (length (stream w) + length (padding_for (env_time env) w tail 0 False)) unix_mode uid gid]
            \<and> archive_inv w')
       \<and> (fault_free w \<longrightarrow> directory_header_ok lfh tail \<longrightarrow>
            fst (burst_writer_add_directory env lfh tail unix_mode uid gid w) = 0)"
proof -
  let ?f = "burst_writer_add_directory env lfh tail unix_mode uid gid"
  have es: "entry_start (stream w @ padding_for (env_time env) w tail 0 False @ local_header_bytes lfh @ tail)"
    using header_entry_start[of "stream w" lfh tail "[]" False "env_time env"] assms(1,3)
    by (simp add: archive_inv_def)
  have "?f w = (-1, w)" if "\<not> directory_header_ok lfh tail"
    using that by (auto simp: burst_writer_add_directory_def directory_header_ok_def not_less)
  moreover have "adds ?f w (padding_for (env_time env) w tail 0 False @ local_header_bytes lfh @ tail)
     (directory_entry lfh tail
        (length (stream w) + length (padding_for (env_time env) w tail 0 False)) unix_mode uid gid)"
    if "directory_header_ok lfh tail"
    using burst_writer_add_directory_adds[OF assms that] .
  moreover have "directory_header_ok lfh tail" if "?f w = (0, w')" for w'
    using add_directory_header[OF that] .
  ultimately show ?thesis
    using es archive_inv_added[OF assms(1)] unfolding adds_def added_def by blast
qed

text \<open>C15: \<open>burst_writer_finalize\<close> writes the central directory of the recorded entries, the ZIP64 end
  record, its locator, the end record and the comment, with the right offsets and counts, and
  leaves nothing in the buffer; it succeeds when no write fails.\<close>

theorem finalize_writes_archive:
  assumes "writer_wf w"
  shows "(\<forall>w'. burst_writer_finalize w = (0, w') \<longrightarrow>
            out_written (output_file w') = stream w @ central_directory (files w) @
              end_records (num_files w) (length (stream w)) (length (central_directory (files w)))
                (find_first_cdfh_in_tail w (of_nat (length (stream w)))
                   (of_nat (archive_size (length (stream w)) (files w))))
            \<and> write_buffer w' = [])
       \<and> (fault_free w \<longrightarrow> fst (burst_writer_finalize w) = 0)"
proof -
  have "finalized w w'" if "burst_writer_finalize w = (0, w')" for w'
    using assms that by (rule burst_writer_finalize_refines(1))
  moreover have "fst (burst_writer_finalize w) = 0" if "fault_free w"
    using burst_writer_finalize_refines(2)[OF assms that] by auto
  ultimately show ?thesis unfolding finalized_def archive_tail_def Let_def by blast
qed

theorem finalize_writes_archive_witness:
  "\<exists>w'. burst_writer_finalize demo_writer = (0, w') \<and>
     out_written (output_file w') = end_records 0 0 0 (find_first_cdfh_in_tail demo_writer 0 106)"
proof -
  have wf: "writer_wf demo_writer" using demo_inv by (simp add: archive_inv_def)
  note t = finalize_writes_archive[OF wf]
  then have "fst (burst_writer_finalize demo_writer) = 0" using demo_fault_free by blast
  then obtain w' where "burst_writer_finalize demo_writer = (0, w')" by (metis prod.collapse)
  moreover have "files demo_writer = []" by (simp add: demo_writer_def)
  then have "num_files demo_writer = 0" "archive_size (length (stream demo_writer)) (files demo_writer) = 106"
    "central_directory (files demo_writer) = []"
    by (simp_all add: num_files_def archive_size_def demo_stream)
  ultimately show ?thesis using t by (simp add: demo_stream)
qed

text \<open>C16: the offset stored in the comment. If the archive is larger than 8 MiB and the central
  directory starts before the tail (the last 8 MiB), \<open>find_first_cdfh_in_tail\<close> returns the distance
  from the start of the tail to the first central directory header that starts in the tail, which
  fits into 24 bits, or 0xFFFFFF if none starts there.\<close>

theorem find_first_cdfh_in_tail_correct:
  assumes "names_fit (files w)" and "archive_size p (files w) < 2 ^ 62"
    and "PART < archive_size p (files w)" and "p < archive_size p (files w) - PART"
  shows "let ts = archive_size p (files w) - PART;
             r = find_first_cdfh_in_tail w (of_nat p) (of_nat (archive_size p (files w)))
         in (\<exists>k < length (files w). ts \<le> cdfh_pos p (files w) k \<and>
               (\<forall>j < k. cdfh_pos p (files w) j < ts) \<and>
               unat r = cdfh_pos p (files w) k - ts \<and> unat r < PART)
          \<or> (\<forall>k < length (files w). cdfh_pos p (files w) k < ts) \<and> r = BURST_EOCD_NO_CDFH_IN_TAIL"
  using assms by (rule find_first_cdfh_cases)

lemma length_central_directory_replicate:
  "length (central_directory (replicate n e)) = n * length (cdfh_bytes e)"
  by (induction n) auto

abbreviation big_directory :: "file_entry list" where
  "big_directory \<equiv> replicate 200000 empty_entry"

lemma length_empty_cdfh: "length (cdfh_bytes empty_entry) = 61"
  using calculate_cdfh_size_correct[of empty_entry]
  by (simp add: calculate_cdfh_size_def need_zip64_def empty_entry_def)

lemma big_directory_size: "archive_size 0 big_directory = 12200106"
  by (simp add: archive_size_def length_central_directory_replicate length_empty_cdfh)

lemma big_directory_pos: "k < 200000 \<Longrightarrow> cdfh_pos 0 big_directory k = 61 * k"
  by (simp add: cdfh_pos_def length_central_directory_replicate length_empty_cdfh)

lemma big_directory_tail: "\<not> (\<forall>k < length big_directory. cdfh_pos 0 big_directory k < 12200106 - PART)"
  unfolding not_all by (rule exI[of _ 199999]) (simp add: big_directory_pos)

theorem find_first_cdfh_in_tail_correct_witness:
  "\<exists>k < 200000. \<exists>r. r = find_first_cdfh_in_tail (demo_writer\<lparr>files := big_directory\<rparr>)
       (of_nat 0) (of_nat (archive_size 0 big_directory)) \<and>
     unat r = 61 * k - 3811498"
proof -
  let ?w = "demo_writer\<lparr>files := big_directory\<rparr>"
  have nf: "names_fit (files ?w)" by (auto simp: names_fit_def empty_entry_def)
  have fs: "files ?w = big_directory" by simp
  have "\<exists>k < length big_directory. archive_size 0 big_directory - PART \<le> cdfh_pos 0 big_directory k \<and>
     unat (find_first_cdfh_in_tail ?w (of_nat 0) (of_nat (archive_size 0 big_directory)))
       = cdfh_pos 0 big_directory k - (archive_size 0 big_directory - PART)"
    using find_first_cdfh_in_tail_correct[OF nf, of 0] big_directory_tail
    unfolding fs big_directory_size Let_def by auto
  then obtain k where "k < 200000"
    "unat (find_first_cdfh_in_tail ?w (of_nat 0) (of_nat (archive_size 0 big_directory))) = 61 * k - 3811498"
    using big_directory_pos unfolding big_directory_size by auto
  then show ?thesis by blast
qed

end
