(* ===== verification/Stream_Properties.thy ===== *)
theory Stream_Properties
  imports File_Extraction Writer_Properties
begin

text \<open>
  The properties of the downloader's processing of one part, each with a concrete instance: safety
  and termination of \<open>part_processor_process_data\<close>, errors, descriptors, the two ways to write a
  frame, and the recreation of a file from the bytes that the writer appended for it.
\<close>

section \<open>A concrete Zstandard\<close>

text \<open>For the instances: frames that store their content after the magic number and a length.\<close>

definition stored_frame :: "bytes \<Rightarrow> bytes" where
  "stored_frame d = le32 ZSTD_MAGIC_NUMBER @ le32 (of_nat (length d)) @ d"

definition stored_zstd :: zstd_reader where
  "stored_zstd =
     \<lparr>zr_find_frame_size =
        (\<lambda>b. if length b < 8 then ZSTD_error_srcSize_wrong
             else if length b < 8 + unat (field b 4 4 :: u32) then ZSTD_error_srcSize_wrong
             else ZSTD_size (of_nat (8 + unat (field b 4 4 :: u32)))),
      zr_content_size = (\<lambda>b. CONTENTSIZE (ucast (field b 4 4 :: u32))),
      zr_decompress = (\<lambda>cap f. if length f - 8 \<le> cap then Some (drop 8 f) else None),
      zr_btrfs_read = (\<lambda>f n. take n (drop 8 f))\<rparr>"

definition stored_env :: writer_env where
  "stored_env = demo_env\<lparr>env_compress := (\<lambda>cap d level.
     if length d + 8 \<le> cap \<and> length d < 2 ^ 32 then Some (stored_frame d) else None)\<rparr>"

lemma length_stored_frame [simp]: "length (stored_frame d) = 8 + length d"
  by (simp add: stored_frame_def)

lemma stored_frame_field:
  "length d < 2 ^ 32 \<Longrightarrow> unat (field (stored_frame d @ rest) 4 4 :: u32) = length d"
  by (simp add: stored_frame_def unat_of_nat)

lemma stored_sizes_ok: "zstd_sizes_ok stored_zstd"
proof -
  have "unat (of_nat (8 + unat (n :: u32)) :: size_t) = 8 + unat n" for n
    using unat_u32_less[of n] by (simp add: unat_of_nat del: of_nat_add of_nat_unat)
  then show ?thesis by (auto simp: zstd_sizes_ok_def stored_zstd_def split: if_splits)
qed

lemma stored_holds:
  assumes "length d \<le> MAX_EXTENT_SIZE"
  shows "zstd_holds stored_zstd d (stored_frame d)"
proof -
  have len: "length d < 2 ^ 32" using assms by (simp add: MAX_EXTENT_SIZE_def)
  have content: "(ucast (field (stored_frame d @ rest) 4 4 :: u32) :: u64) = of_nat (length d)" for rest
    using stored_frame_field[OF len, of rest] len
    by (simp add: word_unat_eq_iff unat_of_nat)
  have short: "zr_find_frame_size stored_zstd (take k (stored_frame d)) = ZSTD_error_srcSize_wrong"
    if "k < length (stored_frame d)" for k
  proof (cases "k < 8")
    case True
    then show ?thesis by (simp add: stored_zstd_def)
  next
    case False
    then have "take k (stored_frame d) = le32 ZSTD_MAGIC_NUMBER @ le32 (of_nat (length d)) @ take (k - 8) d"
      by (simp add: stored_frame_def)
    then show ?thesis using that False len by (simp add: stored_zstd_def unat_of_nat)
  qed
  have "zstd_frame stored_zstd d (stored_frame d)"
    using len short stored_frame_field[OF len] content
    by (auto simp: zstd_frame_def stored_zstd_def) (simp_all add: stored_frame_def)
  then show ?thesis using assms by (simp add: zstd_holds_def stored_zstd_def stored_frame_def)
qed

lemma stored_frames_fit: "frames_fit stored_env"
  by (auto simp: frames_fit_def stored_env_def demo_env_def ZSTD_CHUNK_SIZE_def split: if_splits)

lemma stored_readable: "frames_readable stored_env level stored_zstd"
  by (auto simp: frames_readable_def compress_chunk_def stored_env_def ZSTD_CHUNK_SIZE_def
      MAX_EXTENT_SIZE_def split: if_splits intro!: stored_holds)

section \<open>A concrete part\<close>

definition demo_os :: os_state where
  "demo_os = \<lparr>os_nodes = (\<lambda>_. None), os_fds = (\<lambda>_. None), os_next_fd = 3, os_plan = [], os_allocs = [],
     os_euid = 0, os_egid = 0, os_umask = 0x12, os_dctx = False, os_dbuf = False\<rparr>"

definition demo_meta :: "bytes \<Rightarrow> nat \<Rightarrow> bool \<Rightarrow> file_metadata" where
  "demo_meta name n link =
     \<lparr>fm_filename = name, fm_local_header_offset = 0, fm_compressed_size = 0,
      fm_uncompressed_size = of_nat n, fm_crc32 = 0, fm_compression_method = 93, fm_part_index = 0,
      fm_unix_mode = 0x81A4, fm_uid = 7, fm_gid = 8, fm_has_unix_mode = True, fm_has_unix_extra = True,
      fm_is_symlink = link, fm_uses_zip64_descriptor = False\<rparr>"

definition demo_cd :: "file_metadata \<Rightarrow> central_dir_parse_result" where
  "demo_cd m =
     \<lparr>cp_files = [m],
      cp_parts = [\<lparr>pf_entries = [\<lparr>pe_file_index = 0, pe_offset_in_part = 0\<rparr>], pf_continuing_file = None\<rparr>],
      cp_central_dir_offset = 1000, cp_central_dir_size = 100, cp_is_zip64 = True\<rparr>"

definition demo_part :: "file_metadata \<Rightarrow> part_processor_state" where
  "demo_part m =
     \<lparr>ps_part_index = 0, ps_part_size = 8388608, ps_part_start_offset = 0, ps_cd_result = demo_cd m,
      ps_output_dir = [111], ps_current_file = None, ps_frame_buffer = [],
      ps_frame_buffer_capacity = INITIAL_FRAME_BUFFER_CAPACITY, ps_next_entry_idx = 0,
      ps_bytes_processed = 0, ps_state = STATE_INIT, ps_error_code = STREAM_PROC_SUCCESS,
      ps_os = demo_os\<rparr>"

lemma demo_part_created:
  "part_processor_create 0 (demo_cd m) [111] 8388608 demo_os = (Some (demo_part m), demo_os)"
  by (simp add: part_processor_create_def demo_cd_def demo_part_def demo_os_def os_alloc_def)

lemma demo_part_inv: "\<not> fm_is_symlink m \<Longrightarrow> processor_inv (\<lambda>_. None) (demo_part m)"
  by (simp add: processor_inv_def demo_part_def demo_cd_def part_map_ok_def descriptors_ok_def demo_os_def)

section \<open>Safety and termination\<close>

lemma run_loop_safe:
  assumes "run_loop zr u work st = Some r" and "no_wrapped_frames work" and "processor_inv fds0 st"
  shows "\<exists>rc st'. r = Done rc st' \<and> processor_inv fds0 st' \<and>
           (rc \<noteq> STREAM_PROC_SUCCESS \<longrightarrow> ps_state st' = STATE_ERROR \<and> ps_error_code st' = rc)"
proof -
  from assms(1) obtain e where e: "process_loop zr work 0 st = Some e"
    by (auto simp: run_loop_def split: option.splits)
  note safe = process_loop_safe[OF e assms(2,3)]
  show ?thesis
  proof (cases e)
    case (Buffered off st1)
    then have inv: "processor_inv fds0 st1" using safe by simp
    obtain got os1 where a: "os_alloc (ps_os st1) = (got, os1)" by (cases "os_alloc (ps_os st1)")
    then have "processor_inv fds0 (st1\<lparr>ps_os := os1\<rparr>)"
      using inv_os[OF inv os_alloc_same_fds] by blast
    moreover from this have "processor_inv fds0 (st1\<lparr>ps_os := os1, ps_state := STATE_ERROR, ps_error_code := STREAM_PROC_ERR_MEMORY\<rparr>)"
      by (simp add: processor_inv_def)
    ultimately show ?thesis
      using assms(1) e Buffered inv a
      by (auto simp: run_loop_def buffer_remaining_def Let_def run_of_def fail_def split: if_splits)
  qed (use safe assms(1) e in \<open>auto simp: run_loop_def split: if_splits\<close>)
qed

lemma process_data_outcome:
  assumes "processor_inv fds0 st" and "zstd_sizes_ok zr"
    and "no_wrapped_frames (ps_frame_buffer st @ data)"
  shows "\<exists>rc st'. part_processor_process_data zr data st = Some (Done rc st') \<and>
           processor_inv fds0 st' \<and>
           (rc \<noteq> STREAM_PROC_SUCCESS \<longrightarrow> ps_state st' = STATE_ERROR \<and> ps_error_code st' = rc)"
proof -
  obtain r where r: "part_processor_process_data zr data st = Some r"
    using process_data_returns_lemma[OF assms(3,2)] by blast
  obtain ok st1 where a: "append_to_buffer data st = (ok, st1)" by (cases "append_to_buffer data st")
  have inv1: "processor_inv fds0 st1"
    using a assms(1) inv_os[OF assms(1) os_alloc_same_fds]
    by (auto simp: append_to_buffer_def Let_def split: if_splits prod.splits)
  have buf: "ok \<Longrightarrow> ps_frame_buffer st1 = ps_frame_buffer st @ data"
    using append_to_buffer_frame_buffer[of data st st1] a by simp
  have failed: "processor_inv fds0 (snd (fail STREAM_PROC_ERR_MEMORY st1))"
    using inv_fail[OF inv1] by simp
  show ?thesis
  proof (cases "ps_state st = STATE_ERROR \<or> ps_state st = STATE_DONE")
    case True
    then show ?thesis using assms(1) by (auto simp: part_processor_process_data_def)
  next
    case False
    then show ?thesis
      using r a failed run_loop_safe[OF _ _ inv1] run_loop_safe[OF _ _ assms(1)] buf assms(3)
      by (auto simp: part_processor_process_data_def run_of_def fail_def split: if_splits)
  qed
qed

text \<open>C10: \<open>part_processor_process_data\<close> is total and safe. For every answer of the operating system and
  every piece of data without a skippable frame of overflowing size, the call returns, no memory
  outside the buffers is accessed, the invariant of the processor is kept (so at most the current
  file is open), and an error code is returned exactly together with the error state.\<close>

theorem process_data_safe:
  assumes "processor_inv fds0 st" and "zstd_sizes_ok zr"
    and "no_wrapped_frames (ps_frame_buffer st @ data)"
  shows "\<exists>rc st'. part_processor_process_data zr data st = Some (Done rc st') \<and>
           processor_inv fds0 st' \<and>
           (rc \<noteq> STREAM_PROC_SUCCESS \<longrightarrow> ps_state st' = STATE_ERROR \<and> ps_error_code st' = rc)"
  using assms by (rule process_data_outcome)

theorem process_data_safe_witness:
  "\<exists>rc st'. part_processor_process_data stored_zstd (le32 ZIP_LOCAL_FILE_HEADER_SIG)
              (demo_part (demo_meta [97] 3 False)) = Some (Done rc st') \<and> processor_inv (\<lambda>_. None) st'"
proof -
  let ?st = "demo_part (demo_meta [97] 3 False)"
  have "processor_inv (\<lambda>_. None) ?st" by (rule demo_part_inv) (simp add: demo_meta_def)
  moreover have "no_wrapped_frames (ps_frame_buffer ?st @ le32 ZIP_LOCAL_FILE_HEADER_SIG)"
    by (auto simp: no_wrapped_frames_def wrapped_frame_iff demo_part_def)
  ultimately show ?thesis using process_data_safe[OF _ stored_sizes_ok] by blast
qed

text \<open>C20: the case excluded above is real. A skippable frame that announces \<open>2^32 - 8\<close> bytes has, after
  the 32-bit addition, the length zero; the loop consumes nothing and never returns. And the frame
  parser reads outside its buffer in exactly one case: a buffer of eight bytes that announces a payload
  of at least \<open>2^32 - 8\<close> bytes, whose type byte is read past the end.\<close>

theorem zero_length_frame_hangs:
  assumes "ps_state st = STATE_PROCESSING_FRAMES" and "ps_frame_buffer st = []"
  shows "part_processor_process_data zr (le32 BURST_SKIPPABLE_MAGIC @ le32 0xFFFFFFF8 @ b # rest) st = None \<and>
    (parse_next_frame zr buffer = Fault \<longleftrightarrow>
       length buffer = 8 \<and> (field buffer 0 4 :: u32) = BURST_SKIPPABLE_MAGIC \<and>
       (field buffer 4 4 :: u32) \<ge> 0xFFFFFFF8)"
proof
  let ?d = "le32 BURST_SKIPPABLE_MAGIC @ le32 0xFFFFFFF8 @ b # rest"
  have "process_step zr ?d 0 st = Next 0 st"
    using assms(1) hanging_frame_parse[of zr b rest]
    by (cases st) (simp add: process_step_def step_frames_def with_frame_Ok frame_info_of_def Let_def advance_def)
  then have "process_loop zr ?d 0 st = None"
    by (intro process_loop_stuck) simp_all
  then show "part_processor_process_data zr ?d st = None"
    using assms by (simp add: part_processor_process_data_def run_loop_def)
  show "parse_next_frame zr buffer = Fault \<longleftrightarrow>
      length buffer = 8 \<and> (field buffer 0 4 :: u32) = BURST_SKIPPABLE_MAGIC \<and>
      (field buffer 4 4 :: u32) \<ge> 0xFFFFFFF8"
    by (auto simp: parse_next_frame_Fault_iff wrapped_frame_iff)
qed

theorem zero_length_frame_hangs_witness:
  "part_processor_process_data stored_zstd (le32 BURST_SKIPPABLE_MAGIC @ le32 0xFFFFFFF8 @ [0])
     ((demo_part (demo_meta [97] 3 False))\<lparr>ps_state := STATE_PROCESSING_FRAMES\<rparr>) = None \<and>
   parse_next_frame stored_zstd (le32 BURST_SKIPPABLE_MAGIC @ le32 0xFFFFFFFF) = Fault"
proof -
  let ?st = "(demo_part (demo_meta [97] 3 False))\<lparr>ps_state := STATE_PROCESSING_FRAMES\<rparr>"
  have "ps_state ?st = STATE_PROCESSING_FRAMES" "ps_frame_buffer ?st = []" by (simp_all add: demo_part_def)
  from zero_length_frame_hangs[OF this, of stored_zstd 0 "[]" "le32 BURST_SKIPPABLE_MAGIC @ le32 0xFFFFFFFF"]
  show ?thesis by simp
qed

text \<open>C19: errors are permanent. Once a call has returned an error, every later call returns the same
  code and changes nothing.\<close>

theorem errors_are_sticky:
  assumes "processor_inv fds0 st" and "zstd_sizes_ok zr"
    and "no_wrapped_frames (ps_frame_buffer st @ data)"
    and "part_processor_process_data zr data st = Some (Done rc st')" and "rc \<noteq> STREAM_PROC_SUCCESS"
  shows "part_processor_process_data zr' data' st' = Some (Done rc st')"
proof -
  have "ps_state st' = STATE_ERROR \<and> ps_error_code st' = rc"
    using process_data_outcome[OF assms(1-3)] assms(4,5) by auto
  then show ?thesis by (simp add: part_processor_process_data_def)
qed

theorem errors_are_sticky_witness:
  "\<exists>rc st'. part_processor_process_data stored_zstd [1, 2, 3, 4] (demo_part (demo_meta [97] 3 False))
     = Some (Done rc st') \<and> rc = STREAM_PROC_ERR_INVALID_FRAME \<and>
   part_processor_process_data stored_zstd [80, 75] st' = Some (Done rc st')"
proof -
  let ?st = "demo_part (demo_meta [97] 3 False)"
  let ?st1 = "?st\<lparr>ps_state := STATE_EXPECT_LOCAL_HEADER\<rparr>"
  let ?st2 = "?st\<lparr>ps_state := STATE_ERROR, ps_error_code := STREAM_PROC_ERR_INVALID_FRAME\<rparr>"
  have inv: "processor_inv (\<lambda>_. None) ?st" by (rule demo_part_inv) (simp add: demo_meta_def)
  have nw: "no_wrapped_frames (ps_frame_buffer ?st @ [1, 2, 3, 4])"
    by (auto simp: no_wrapped_frames_def wrapped_frame_iff demo_part_def)
  have "le_word [1, 2, 3, 4] = (0x04030201 :: u32)" by code_simp
  then have p: "parse_next_frame stored_zstd [1, 2, 3, 4] = Error STREAM_PROC_ERR_INVALID_FRAME"
    by (simp add: parse_frame_defs read_int_cases)
  have "process_step stored_zstd [1, 2, 3, 4] 0 ?st = Next 0 ?st1"
    by (simp add: process_step_def step_init_def demo_part_def demo_cd_def)
  moreover have "process_step stored_zstd [1, 2, 3, 4] 0 ?st1 = Return STREAM_PROC_ERR_INVALID_FRAME ?st2"
    using p by (simp add: process_step_def step_expect_header_def with_frame_def return_failure_def
        fail_def demo_part_def demo_cd_def)
  ultimately have "process_loop stored_zstd [1, 2, 3, 4] 0 ?st = Some (Returned STREAM_PROC_ERR_INVALID_FRAME ?st2)"
    by (simp add: process_loop.simps)
  then have run: "part_processor_process_data stored_zstd [1, 2, 3, 4] ?st
      = Some (Done STREAM_PROC_ERR_INVALID_FRAME ?st2)"
    by (simp add: part_processor_process_data_def run_loop_def demo_part_def)
  from errors_are_sticky[OF inv stored_sizes_ok nw run, of stored_zstd "[80, 75]"] run show ?thesis by blast
qed

section \<open>The end of a part\<close>

text \<open>C18: \<open>part_processor_finalize\<close> closes the current file, leaves no descriptor of the processor open,
  and reports \<open>UNEXPECTED_EOF\<close> exactly when bytes of an incomplete frame are left over.\<close>

theorem finalize_closes:
  assumes "processor_inv fds0 st"
  shows "\<exists>rc st'. part_processor_finalize st = Done rc st' \<and> ps_current_file st' = None \<and>
           os_fds (ps_os st') = fds0 \<and>
           rc = (if ps_frame_buffer st = [] then STREAM_PROC_SUCCESS else STREAM_PROC_ERR_UNEXPECTED_EOF) \<and>
           ps_state st' = (if ps_frame_buffer st = [] then STATE_DONE else STATE_ERROR)"
proof -
  obtain os' where c: "close_output_file st =
      Some (STREAM_PROC_SUCCESS, st\<lparr>ps_current_file := None, ps_os := os'\<rparr>)"
    and h: "handled fds0 st STREAM_PROC_SUCCESS (st\<lparr>ps_current_file := None, ps_os := os'\<rparr>)"
    using close_output_file_handled[OF assms] by blast
  have "os_fds os' = fds0"
    using handled_inv[OF h] by (simp add: processor_inv_def descriptors_ok_def)
  then show ?thesis
    using c by (auto simp: part_processor_finalize_def proceed_def run_of_def fail_def)
qed

theorem finalize_closes_witness:
  "\<exists>rc st'. part_processor_finalize (demo_part (demo_meta [97] 3 False)) = Done rc st' \<and>
     os_fds (ps_os st') = (\<lambda>_. None) \<and> rc = STREAM_PROC_SUCCESS"
proof -
  have "processor_inv (\<lambda>_. None) (demo_part (demo_meta [97] 3 False))"
    by (rule demo_part_inv) (simp add: demo_meta_def)
  from finalize_closes[OF this] show ?thesis by (auto simp: demo_part_def)
qed

section \<open>Frames\<close>

text \<open>C21: every item that the writer appends is recognised by \<open>parse_next_frame\<close> with its exact length,
  whatever follows it, and every proper prefix of it is reported as incomplete.\<close>

theorem parse_next_frame_items:
  assumes "item_readable zr it"
  shows "(\<exists>info. parse_next_frame zr (item_bytes it @ rest) = Ok info \<and>
            unat (fi_frame_size info) = length (item_bytes it) \<and>
            fi_type info = (case it of Frame c f \<Rightarrow> FRAME_ZSTD_COMPRESSED
                            | Pad n \<Rightarrow> FRAME_BURST_PADDING | Sop k \<Rightarrow> FRAME_BURST_START_OF_PART)) \<and>
         (\<forall>k < length (item_bytes it).
            parse_next_frame zr (take k (item_bytes it)) = Error STREAM_PROC_NEED_MORE_DATA)"
proof (cases it)
  case (Frame c f)
  then have z: "zstd_frame zr c f" using assms by (simp add: zstd_holds_def)
  then have "unat (of_nat (length f) :: size_t) = length f" by (simp add: zstd_frame_def unat_of_nat)
  then show ?thesis
    using Frame parse_compressed_frame[OF z, of rest] parse_compressed_prefix[OF z]
    by (simp add: frame_info_of_def)
next
  case (Pad n)
  then have n: "n < 0xFFFFFFF8" using assms by simp
  then have "unat (of_nat (8 + n) :: size_t) = 8 + n" by (simp add: unat_of_nat del: of_nat_add)
  then show ?thesis
    using Pad parse_padding_frame[OF n, of zr rest] parse_padding_prefix[OF n]
    by (simp add: frame_info_of_def del: of_nat_add)
next
  case (Sop off)
  then show ?thesis
    using parse_sop_frame[of zr "of_nat off" rest] parse_sop_prefix[of _ zr "of_nat off"]
    by (simp add: frame_info_of_def)
qed

theorem parse_next_frame_items_witness:
  "\<exists>info. parse_next_frame stored_zstd (stored_frame [65, 66] @ [80]) = Ok info \<and>
     unat (fi_frame_size info) = 10"
proof -
  have "item_readable stored_zstd (Frame [65, 66] (stored_frame [65, 66]))"
    by (simp add: stored_holds MAX_EXTENT_SIZE_def)
  from parse_next_frame_items[OF this, of "[80]"] show ?thesis by auto
qed

section \<open>Writing frames\<close>

text \<open>C27: the encoded write and its fallback agree. Let the frame be a Zstandard frame of a chunk of at most
  128 KiB, and the descriptor that of a regular file. Whenever \<open>do_write_encoded\<close> reports success, through
  the ioctl of Btrfs, through the fallback for frames that are not smaller than their content, or
  through the fallback for other file systems, the file afterwards holds the chunk at its offset
  and is otherwise unchanged.\<close>

theorem do_write_encoded_content:
  assumes "do_write_encoded zr fd frame (of_nat (length chunk)) off os = (BTRFS_WRITER_SUCCESS, os')"
    and "os_fds os fd = Some p" and "os_nodes os p = Some (Regular c a)" and "zstd_holds zr chunk frame"
  shows "os_nodes os' = (os_nodes os)(p := Some (Regular (overwrite c (unat off) chunk) a)) \<and>
         os_fds os' = os_fds os"
proof -
  note v = do_write_encoded_success[OF assms(1,2,4)]
  have "os_nodes os' = os_nodes (set_content p (\<lambda>c. overwrite c (unat off) chunk) (visible os))"
    using arg_cong[OF v, of os_nodes] by simp
  moreover have "os_fds os' = os_fds (set_content p (\<lambda>c. overwrite c (unat off) chunk) (visible os))"
    using arg_cong[OF v, of os_fds] by simp
  ultimately show ?thesis using assms(3) by (simp add: set_content_def)
qed

definition demo_open :: "answer list \<Rightarrow> os_state" where
  "demo_open plan = demo_os\<lparr>os_nodes := (\<lambda>_. None)((False, [[97]]) := Some (Regular [] (own_attrs 0x1A4 demo_os))),
     os_fds := (\<lambda>_. None)(3 := Some (False, [[97]])), os_plan := plan\<rparr>"

text \<open>The frame is larger than its content, so the bytes are written by \<open>pwrite\<close>.\<close>

theorem do_write_encoded_content_witness:
  "\<exists>os'. do_write_encoded stored_zstd 3 (stored_frame [65, 66]) 2 1 (demo_open []) = (BTRFS_WRITER_SUCCESS, os') \<and>
     os_nodes os' (False, [[97]]) = Some (Regular [0, 65, 66] (own_attrs 0x1A4 demo_os)) \<and> os_fds os' 3 = Some (False, [[97]])"
proof -
  let ?d = "[65, 66] :: bytes"
  have holds: "zstd_holds stored_zstd ?d (stored_frame ?d)" by (rule stored_holds) (simp add: MAX_EXTENT_SIZE_def)
  have fd: "os_fds (demo_open []) 3 = Some (False, [[97]])"
    "os_nodes (demo_open []) (False, [[97]]) = Some (Regular [] (own_attrs 0x1A4 demo_os))"
    by (simp_all add: demo_open_def)
  have dec: "zr_decompress stored_zstd MAX_EXTENT_SIZE (stored_frame ?d) = Some ?d" using holds by (simp add: zstd_holds_def)
  have ne: "stored_frame ?d \<noteq> []" using length_stored_frame[of ?d] by (metis list.size(3) add_is_0 zero_neq_numeral)
  have "sint (1 :: u64) = 1" by simp
  then obtain os' where w: "do_write_encoded stored_zstd 3 (stored_frame ?d) 2 1 (demo_open []) = (BTRFS_WRITER_SUCCESS, os')"
    using dec ne by (simp add: do_write_encoded_def do_write_unencoded_def ensure_dctx_def ensure_dbuf_def os_alloc_def
        sys_pwrite_def on_fd_def ask_def demo_open_def demo_os_def MAX_EXTENT_SIZE_def)
  show ?thesis
    using do_write_encoded_content[OF _ fd holds, of 1 os'] w fd by (simp add: overwrite_def)
qed

section \<open>Directories\<close>

text \<open>\<open>ensure_directory_exists\<close> makes every ancestor of the path a directory, provided none of them is
  something else, creates nothing but these ancestors, and touches no existing node.\<close>

lemma ensure_directory_exists_creates:
  assumes "quiet os" and "dirs_free os (parent (resolve path))" and "components path \<noteq> []"
    and "\<not> dot_named path"
  shows "\<exists>os'. ensure_directory_exists path os = (0, os') \<and>
           (\<forall>k < length (components path). is_dir os' (fst (resolve path), take k (components path))) \<and>
           (\<forall>q. os_nodes os' q = os_nodes os q \<or>
              os_nodes os q = None \<and> (\<exists>k < length (components path). q = (fst (resolve path), take k (components path))))"
proof -
  have par: "resolve (dirname path) = parent (resolve path)"
    using assms(3,4) by (intro resolve_dirname) auto
  obtain os' where e: "ensure_directory_exists path os = (0, os')"
    and a: "dirs_added (parent (resolve path)) os os'" and t: "dirs_there os' (parent (resolve path))"
    using ensure_directory_exists_quiet[of os path] assms(1,2) unfolding par by blast
  have "is_dir os' (fst (resolve path), take k (components path))" if "k < length (components path)" for k
  proof -
    have "take k (butlast (components path)) = take k (components path)"
      using that by (simp add: butlast_conv_take)
    moreover have "k \<le> length (butlast (components path))" using that by simp
    ultimately show ?thesis using t unfolding dirs_there_def parent_def by (metis fst_conv snd_conv)
  qed
  then show ?thesis using e dirs_added_strict[OF a assms(3)] by blast
qed

section \<open>Symbolic links\<close>

text \<open>C25: a symbolic link whose directory entry announces \<open>2^64 - 1\<close> bytes gets a buffer of size zero
  (the sum wraps around), and the first byte of its content is written outside of it.\<close>

theorem oversized_symlink_overflows:
  assumes "fm_is_symlink m" and "fm_uncompressed_size m = 0xFFFFFFFFFFFFFFFF" and "ptr \<noteq> []"
    and "open_symlink (context_of name m) st = (STREAM_PROC_SUCCESS, st')"
  shows "step_symlink ptr off st' = Out_of_bounds"
proof -
  have size: "fm_uncompressed_size m + 1 = 0" using assms(2) by simp
  have "unat (fm_uncompressed_size m) = 0xFFFFFFFFFFFFFFFF" using assms(2) by simp
  then have "0 < min (length ptr) (unat (fm_uncompressed_size m - 0))" using assms(3) by simp
  then show ?thesis
    using assms(4) size
    by (auto simp: open_symlink_def step_symlink_def fail_def Let_def split: prod.splits if_splits)
qed

theorem oversized_symlink_overflows_witness:
  "\<exists>st'. open_symlink (context_of [97] ((demo_meta [97] 3 True)\<lparr>fm_uncompressed_size := 0xFFFFFFFFFFFFFFFF\<rparr>))
       (demo_part (demo_meta [97] 3 True)) = (STREAM_PROC_SUCCESS, st') \<and>
     step_symlink [98] 0 st' = Out_of_bounds"
proof -
  let ?m = "(demo_meta [97] 3 True)\<lparr>fm_uncompressed_size := 0xFFFFFFFFFFFFFFFF\<rparr>"
  obtain st' where o: "open_symlink (context_of [97] ?m) (demo_part (demo_meta [97] 3 True)) = (STREAM_PROC_SUCCESS, st')"
    by (simp add: open_symlink_def os_alloc_def demo_part_def demo_os_def)
  have "fm_is_symlink ?m" "fm_uncompressed_size ?m = 0xFFFFFFFFFFFFFFFF" "[98 :: u8] \<noteq> []"
    by (simp_all add: demo_meta_def)
  from oversized_symlink_overflows[OF this o, of 0] o show ?thesis by blast
qed

section \<open>From the writer to the extracted file\<close>

lemma completed_run:
  assumes "process_loop zr data 0 st = process_loop zr data (length data) st'"
    and "ps_state st = STATE_EXPECT_LOCAL_HEADER" and "ps_frame_buffer st = []"
  shows "part_processor_process_data zr data st = Some (Done STREAM_PROC_SUCCESS st')"
proof -
  have "process_loop zr data 0 st = Some (Completed st')"
    using assms(1) by (simp add: process_loop.simps[of _ _ "length data"])
  then show ?thesis using assms(2,3) by (simp add: part_processor_process_data_def run_loop_def)
qed

text \<open>C4: the round trip of a file. \<open>burst_writer_add_file\<close> returned 0; the bytes it appended are given to
  the part processor of the downloader, which stands at their position and expects an entry whose
  metadata are those that the writer recorded. Then the processor reports success, the file exists
  under the output directory with exactly the bytes of the input and with the recorded mode and
  owner, only directories on the way to it were created, and no descriptor is left open.\<close>

theorem written_file_is_extracted:
  assumes "frames_fit env" and "archive_inv w" and "header_ok lfh tail 0 True" and "\<not> is_header_only lfh"
    and "budget (length (stream w)) (Suc (length (chunks (readable (in_rewind inp)))))"
    and "burst_writer_add_file env inp lfh tail unix_mode uid gid w = (0, w')"
    and "header_complete lfh tail" and "\<not> padding_named lfh tail"
    and "frames_readable env (compression_level w) zr"
    and "ps_state st = STATE_EXPECT_LOCAL_HEADER" and "ps_current_file st = None" and "ps_frame_buffer st = []"
    and "ps_next_entry_idx st < length (pf_entries (this_part st))"
    and "quiet (ps_os st)" and "0 \<le> os_next_fd (ps_os st)" and "os_fds (ps_os st) (os_next_fd (ps_os st)) = None"
    and "m = cp_files (ps_cd_result st) ! pe_file_index (pf_entries (this_part st) ! ps_next_entry_idx st)"
    and "\<not> fm_is_symlink m" and "\<not> (fm_filename m \<noteq> [] \<and> last (fm_filename m) = slash)"
    and "fm_uncompressed_size m = fe_uncompressed_size (last (files w'))"
    and "fm_uses_zip64_descriptor m = fe_used_zip64_descriptor (last (files w'))"
    and "name = ps_output_dir st @ slash # fm_filename m" and "creatable (ps_os st) name"
    and "ps_part_start_offset st + ps_bytes_processed st = of_nat (length (stream w))"
    and "length (stream w') < 2 ^ 62" and "length (readable (in_rewind inp)) < 2 ^ 62"
  shows "\<exists>os'. part_processor_process_data zr (drop (length (stream w)) (stream w')) st =
             Some (Done STREAM_PROC_SUCCESS (extracted st (length (stream w') - length (stream w)) os')) \<and>
           holds_file (ps_os st) name m (readable (in_rewind inp)) os'"
proof -
  let ?d = "readable (in_rewind inp)"
  have "in_seekable inp" using add_file_seekable[OF assms(6)] assms(4) by simp
  from burst_writer_add_file_refines(1)[OF assms(1-4) this assms(5,6)]
  obtain its where its: "items_of env w lfh tail ?d = Some its"
    and ad: "added w (file_record env w lfh tail ?d its)
      (file_record_entry env w lfh tail unix_mode uid gid ?d its) w'" by blast
  let ?r = "file_record env w lfh tail ?d its"
  have s: "stream w' = stream w @ ?r" and f: "files w' = files w @ [file_record_entry env w lfh tail unix_mode uid gid ?d its]"
    using ad by (auto simp: added_def)
  have z: "fm_uncompressed_size m = of_nat (length ?d)"
    "fm_uses_zip64_descriptor m = wide (of_nat (length (items_bytes its))) (of_nat (length ?d))"
    using assms(20,21) f by (simp_all add: file_record_entry_def file_entry_done_def file_entry_end_def)
  have len: "length (stream w @ ?r) < 2 ^ 63" "length ?d < 2 ^ 63" using assms(25,26) s by simp_all
  obtain os' where "process_loop zr ([] @ ?r @ []) (length ([] :: bytes)) st =
      process_loop zr ([] @ ?r @ []) (length ([] :: bytes) + length ?r) (extracted st (length ?r) os')"
    and hf: "holds_file (ps_os st) name m ?d os'"
    using file_record_extracted[OF assms(1-3,7,8) its assms(9-11,13-19) z assms(22-24) len refl, of "[]" "[]"]
    by blast
  then have "process_loop zr ?r 0 st = process_loop zr ?r (length ?r) (extracted st (length ?r) os')" by simp
  from completed_run[OF this assms(10,12)] hf show ?thesis by (auto simp: s)
qed

lemma demo_no_padding: "entry_padding ct 0 (entry_need 31 0 True) = []"
  by (simp add: entry_padding_def entry_need_def room_def)

lemma stored_items:
  "items_of stored_env demo_writer (demo_header 8 93 1) [97] (readable (in_rewind demo_input))
     = Some [Frame [65, 66, 67] (stored_frame [65, 66, 67])]"
proof -
  have "room 31 = 8388577" by (simp add: room_def)
  then show ?thesis
    by (simp add: demo_no_padding file_items_def demo_chunks compress_chunk_def stored_env_def demo_env_def Let_def
        demo_stream ZSTD_CHUNK_SIZE_def frame_items_def)
qed

theorem written_file_is_extracted_witness:
  "\<exists>w' os'. burst_writer_add_file stored_env demo_input (demo_header 8 93 1) [97] 0 0 0 demo_writer = (0, w') \<and>
     part_processor_process_data stored_zstd (stream w')
       ((demo_part (demo_meta [97] 3 False))\<lparr>ps_state := STATE_EXPECT_LOCAL_HEADER\<rparr>)
     = Some (Done STREAM_PROC_SUCCESS (extracted
         ((demo_part (demo_meta [97] 3 False))\<lparr>ps_state := STATE_EXPECT_LOCAL_HEADER\<rparr>) (length (stream w')) os')) \<and>
     holds_file demo_os [111, 47, 97] (demo_meta [97] 3 False) [65, 66, 67] os'"
proof -
  let ?add = "burst_writer_add_file stored_env demo_input (demo_header 8 93 1) [97] 0 0 0"
  let ?m = "demo_meta [97] 3 False"
  let ?st = "(demo_part ?m)\<lparr>ps_state := STATE_EXPECT_LOCAL_HEADER\<rparr>"
  let ?f = "Frame [65, 66, 67] (stored_frame [65, 66, 67])"
  have ho: "header_ok (demo_header 8 93 1) [97] 0 True" by (rule demo_header_ok) simp
  have "fst (?add demo_writer) = 0"
    using stored_items
    by (intro burst_writer_add_file_refines(2) stored_frames_fit demo_inv ho demo_not_header_only demo_budget
        demo_fault_free) (simp_all add: demo_input_def read_fails_def in_rewind_def)
  then obtain w' where w': "?add demo_writer = (0, w')" by (metis prod.collapse)
  from burst_writer_add_file_refines(1)[OF stored_frames_fit demo_inv ho demo_not_header_only _ demo_budget w']
  have ad: "added demo_writer (file_record stored_env demo_writer (demo_header 8 93 1) [97] [65, 66, 67] [?f])
      (file_record_entry stored_env demo_writer (demo_header 8 93 1) [97] 0 0 0 [65, 66, 67] [?f]) w'"
    using stored_items demo_readable by (auto simp: demo_input_def)
  have last: "fe_uncompressed_size (last (files w')) = 3" "\<not> fe_used_zip64_descriptor (last (files w'))"
    using ad by (simp_all add: added_def file_record_entry_def file_entry_done_def file_entry_end_def)
  have tail: "length (file_tail p c s u) \<le> PART + 48" for p c s u
    using room_bounds(2)[of p] by (auto simp: file_tail_def trailer_items_def)
  have "length (file_record stored_env demo_writer (demo_header 8 93 1) [97] [65, 66, 67] [?f]) \<le> 42 + (PART + 48)"
    unfolding file_record_def file_body_def using tail by (simp add: demo_stream demo_no_padding)
  then have len: "length (stream w') < 2 ^ 62" using ad by (simp add: added_def demo_stream)
  have cr: "creatable demo_os [111, 47, 97]"
    by (simp add: creatable_def resolve_def dot_named_def strip_slashes_def dirs_free_def parent_def demo_os_def)
  have facts: "ps_state ?st = STATE_EXPECT_LOCAL_HEADER" "ps_current_file ?st = None" "ps_frame_buffer ?st = []"
    "ps_next_entry_idx ?st < length (pf_entries (this_part ?st))"
    "quiet (ps_os ?st)" "0 \<le> os_next_fd (ps_os ?st)" "os_fds (ps_os ?st) (os_next_fd (ps_os ?st)) = None"
    "?m = cp_files (ps_cd_result ?st) ! pe_file_index (pf_entries (this_part ?st) ! ps_next_entry_idx ?st)"
    "\<not> fm_is_symlink ?m" "\<not> (fm_filename ?m \<noteq> [] \<and> last (fm_filename ?m) = slash)"
    "fm_uncompressed_size ?m = fe_uncompressed_size (last (files w'))"
    "fm_uses_zip64_descriptor ?m = fe_used_zip64_descriptor (last (files w'))"
    "[111, 47, 97] = ps_output_dir ?st @ slash # fm_filename ?m" "creatable (ps_os ?st) [111, 47, 97]"
    "ps_part_start_offset ?st + ps_bytes_processed ?st = of_nat (length (stream demo_writer))"
    using last cr
    by (simp_all add: demo_part_def demo_cd_def demo_meta_def demo_os_def quiet_def demo_stream)
  have hc: "header_complete (demo_header 8 93 1) [97]" "\<not> padding_named (demo_header 8 93 1) [97]"
    by (simp_all add: header_complete_def padding_named_def demo_header_def PADDING_LFH_FILENAME_LEN_def)
  have rd: "length (readable (in_rewind demo_input)) < 2 ^ 62" by (simp add: demo_readable)
  from written_file_is_extracted[OF stored_frames_fit demo_inv ho demo_not_header_only demo_budget w' hc
      stored_readable facts len rd]
  obtain os' where "part_processor_process_data stored_zstd (drop (length (stream demo_writer)) (stream w')) ?st =
        Some (Done STREAM_PROC_SUCCESS (extracted ?st (length (stream w') - length (stream demo_writer)) os'))"
    "holds_file (ps_os ?st) [111, 47, 97] ?m (readable (in_rewind demo_input)) os'" by blast
  then have "part_processor_process_data stored_zstd (stream w') ?st =
        Some (Done STREAM_PROC_SUCCESS (extracted ?st (length (stream w')) os'))"
    and "holds_file demo_os [111, 47, 97] ?m [65, 66, 67] os'"
    by (simp_all add: demo_stream demo_readable demo_part_def)
  then show ?thesis using w' by blast
qed

end
