(* ===== verification/Entry_Extraction.thy ===== *)
theory Entry_Extraction
  imports Stream_Properties
begin

text \<open>
  Entries without frames, processed by the downloader: directories and empty files, which consist of
  their header, and symbolic links, whose target follows the header. After a header without a
  descriptor the processor still has a current file; it is closed when the next header comes, or
  when the part is finalized (\<open>settled\<close>).
\<close>

section \<open>What an entry leaves behind\<close>

text \<open>The name has become the node \<open>n\<close>; directories on the way may be new, nothing else has changed, and
  no descriptor is left open.\<close>

definition holds_node :: "os_state \<Rightarrow> bytes \<Rightarrow> node \<Rightarrow> os_state \<Rightarrow> bool" where
  "holds_node os name n os' \<longleftrightarrow>
     os_nodes os' (resolve name) = Some n \<and>
     (\<forall>q. q \<noteq> resolve name \<longrightarrow>
        os_nodes os' q = os_nodes os q \<or>
        os_nodes os q = None \<and> is_dir os' q \<and>
        (\<exists>k < length (snd (resolve name)). q = (fst (resolve name), take k (snd (resolve name))))) \<and>
     os_fds os' = os_fds os \<and> os_next_fd os \<le> os_next_fd os' \<and> quiet os' \<and> os_euid os' = os_euid os"

lemma holds_file_node:
  "holds_file os name m d os' \<Longrightarrow>
   holds_node os name (Regular d (restored (context_of name m) (os_euid os = 0) (snd (file_at os (resolve name))))) os'"
  by (simp add: holds_file_def holds_node_def)

section \<open>Between two entries\<close>

definition ready :: "part_processor_state \<Rightarrow> bool" where
  "ready st \<longleftrightarrow>
     ps_state st = STATE_EXPECT_LOCAL_HEADER \<and> ps_current_file st = None \<or>
     ps_state st = STATE_PROCESSING_FRAMES \<and> (\<exists>fc. ps_current_file st = Some fc \<and> \<not> fc_is_symlink fc)"

definition settled :: "part_processor_state \<Rightarrow> part_processor_state" where
  "settled st =
     (case close_output_file st of
        Some (rc, st1) \<Rightarrow> st1\<lparr>ps_state := STATE_EXPECT_LOCAL_HEADER\<rparr>
      | None \<Rightarrow> st)"

lemma ready_close:
  assumes "ready st"
  shows "\<exists>os1. close_output_file st = Some (STREAM_PROC_SUCCESS, st\<lparr>ps_current_file := None, ps_os := os1\<rparr>) \<and>
    settled st = st\<lparr>ps_current_file := None, ps_os := os1, ps_state := STATE_EXPECT_LOCAL_HEADER\<rparr>"
proof (cases "ps_current_file st")
  case None
  then have "close_output_file st = Some (STREAM_PROC_SUCCESS, st)" by (simp add: close_output_file_def)
  then show ?thesis using None by (intro exI[of _ "ps_os st"]) (cases st, simp add: settled_def)
next
  case (Some fc)
  then have "\<not> fc_is_symlink fc" using assms by (auto simp: ready_def)
  with Some show ?thesis
    by (intro exI[of _ "if 0 \<le> fc_fd fc then finalize_fd fc (ps_os st) else ps_os st"])
      (cases st, simp add: settled_def close_output_file_def Let_def)
qed

lemma settled_expects:
  "ps_state st = STATE_EXPECT_LOCAL_HEADER \<Longrightarrow> ps_current_file st = None \<Longrightarrow> ready st \<and> settled st = st"
  by (cases st) (simp add: ready_def settled_def close_output_file_def)

text \<open>The next header settles the processor.\<close>

lemma ready_header:
  assumes "ready st" and "lh_signature h = ZIP_LOCAL_FILE_HEADER_SIG"
  shows "process_loop zr (pre @ local_header_bytes h @ rest) (length pre) st =
    process_loop zr (pre @ local_header_bytes h @ rest) (length pre) (settled st)"
proof (cases "ps_state st = STATE_EXPECT_LOCAL_HEADER")
  case True
  then show ?thesis using assms(1) settled_expects by (auto simp: ready_def)
next
  case False
  then have st: "ps_state st = STATE_PROCESSING_FRAMES" using assms(1) by (auto simp: ready_def)
  obtain os1 where c: "close_output_file st = Some (STREAM_PROC_SUCCESS, st\<lparr>ps_current_file := None, ps_os := os1\<rparr>)"
    "settled st = st\<lparr>ps_current_file := None, ps_os := os1, ps_state := STATE_EXPECT_LOCAL_HEADER\<rparr>"
    using ready_close[OF assms(1)] by blast
  have "0 < length (local_header_bytes h)" by simp
  then have "local_header_bytes h \<noteq> []" by force
  moreover have "step_frames zr (local_header_bytes h @ rest) (length pre) st = Next (length pre) (settled st)"
    using c parse_local_header[OF assms(2), of zr rest]
    by (simp add: step_frames_def with_frame_Ok frame_info_of_def Let_def after_def)
  ultimately show ?thesis using frames_step[OF st] by blast
qed

lemma settled_finalize:
  assumes "ready st" and "ps_frame_buffer st = []"
  shows "\<exists>st'. part_processor_finalize st = Done STREAM_PROC_SUCCESS st' \<and> ps_current_file st' = None \<and>
    ps_os st' = ps_os (settled st)"
proof -
  obtain os1 where "close_output_file st = Some (STREAM_PROC_SUCCESS, st\<lparr>ps_current_file := None, ps_os := os1\<rparr>)"
    "settled st = st\<lparr>ps_current_file := None, ps_os := os1, ps_state := STATE_EXPECT_LOCAL_HEADER\<rparr>"
    using ready_close[OF assms(1)] by blast
  then show ?thesis using assms(2) by (simp add: part_processor_finalize_def proceed_def run_of_def)
qed

section \<open>Entries that are only a header\<close>

lemma header_only_processed:
  assumes h: "header_complete lfh tail" "\<not> padding_named lfh tail"
    and st: "ps_state st = STATE_EXPECT_LOCAL_HEADER" "ps_current_file st = None"
      "ps_next_entry_idx st < length (pf_entries (this_part st))"
    and m: "m = cp_files (ps_cd_result st) ! pe_file_index (pf_entries (this_part st) ! ps_next_entry_idx st)"
      "\<not> fm_is_symlink m"
    and o: "open_output_file m st = Some (STREAM_PROC_SUCCESS,
              st\<lparr>ps_current_file := Some ((context_of name m)\<lparr>fc_fd := fd\<rparr>), ps_os := os1\<rparr>)"
  defines "os' \<equiv> (if 0 \<le> fd then finalize_fd (at_offset ((context_of name m)\<lparr>fc_fd := fd\<rparr>) 0) os1 else os1)"
  shows "\<exists>st'. process_loop zr (pre @ (local_header_bytes lfh @ tail) @ rest) (length pre) st =
      process_loop zr (pre @ (local_header_bytes lfh @ tail) @ rest) (length pre + (30 + length tail)) st' \<and>
    ready st' \<and> ps_frame_buffer st' = ps_frame_buffer st \<and> settled st' = extracted st (30 + length tail) os'"
proof -
  let ?fc = "at_offset ((context_of name m)\<lparr>fc_fd := fd\<rparr>) 0"
  let ?st' = "opened st (30 + length tail) ?fc os1"
  have link: "\<not> fc_is_symlink ?fc" "fc_fd ?fc = fd" using m(2) by (simp_all add: context_of_def)
  have "ready ?st'" using link(1) by (simp add: ready_def opened_def)
  moreover have "settled ?st' = extracted st (30 + length tail) os'"
    using link st(1,2)
    by (cases st) (simp add: settled_def close_output_file_def opened_def extracted_def os'_def Let_def)
  moreover have "ps_frame_buffer ?st' = ps_frame_buffer st" by (simp add: opened_def)
  ultimately show ?thesis using file_header_opens[OF h st(1,3) m o] by blast
qed

lemma holds_node_over_dirs:
  assumes "dirs_added (parent (resolve name)) os os1" and "snd (resolve name) \<noteq> []"
    and "os_nodes os' = (os_nodes os1)(resolve name := Some n)"
    and "os_fds os' = os_fds os" and "os_next_fd os \<le> os_next_fd os'" and "quiet os'" and "os_euid os' = os_euid os"
  shows "holds_node os name n os'"
proof -
  let ?p = "resolve name"
  have "os_nodes os' q = os_nodes os q \<or> os_nodes os q = None \<and> is_dir os' q \<and>
      (\<exists>k < length (snd ?p). q = (fst ?p, take k (snd ?p)))" if "q \<noteq> ?p" for q
  proof -
    have "os_nodes os' q = os_nodes os1 q" using assms(3) that by simp
    moreover from this have "is_dir os1 q \<Longrightarrow> is_dir os' q" by (simp add: is_dir_def)
    ultimately show ?thesis using dirs_added_strict[OF assms(1,2), of q] by metis
  qed
  then show ?thesis unfolding holds_node_def using assms by simp
qed

text \<open>An empty file is truncated and closed when the processor settles.\<close>

lemma empty_file_extracted:
  assumes h: "header_complete lfh tail" "\<not> padding_named lfh tail"
    and st: "ps_state st = STATE_EXPECT_LOCAL_HEADER" "ps_current_file st = None"
      "ps_next_entry_idx st < length (pf_entries (this_part st))"
    and os: "quiet (ps_os st)" "0 \<le> os_next_fd (ps_os st)" "os_fds (ps_os st) (os_next_fd (ps_os st)) = None"
    and m: "m = cp_files (ps_cd_result st) ! pe_file_index (pf_entries (this_part st) ! ps_next_entry_idx st)"
      "\<not> fm_is_symlink m" "\<not> (fm_filename m \<noteq> [] \<and> last (fm_filename m) = slash)" "fm_uncompressed_size m = 0"
    and name: "name = ps_output_dir st @ slash # fm_filename m" "creatable (ps_os st) name"
  shows "\<exists>st' os'. process_loop zr (pre @ (local_header_bytes lfh @ tail) @ rest) (length pre) st =
      process_loop zr (pre @ (local_header_bytes lfh @ tail) @ rest) (length pre + (30 + length tail)) st' \<and>
    ready st' \<and> ps_frame_buffer st' = ps_frame_buffer st \<and> settled st' = extracted st (30 + length tail) os' \<and>
    holds_node (ps_os st) name (Regular [] (restored (context_of name m) (os_euid (ps_os st) = 0)
      (snd (file_at (ps_os st) (resolve name))))) os'"
proof -
  let ?os = "ps_os st" and ?p = "resolve name"
  let ?fd = "os_next_fd ?os"
  let ?fc = "at_offset ((context_of name m)\<lparr>fc_fd := ?fd\<rparr>) 0"
  obtain os1 os2 where o: "open_output_file m st = Some (STREAM_PROC_SUCCESS,
        st\<lparr>ps_current_file := Some ((context_of name m)\<lparr>fc_fd := ?fd\<rparr>), ps_os := os2\<rparr>)"
    and added: "dirs_added (parent ?p) ?os os1"
    and os2: "os_nodes os2 = (os_nodes os1)(?p := Some (Regular (fst (file_at ?os ?p)) (snd (file_at ?os ?p))))"
      "os_fds os2 = (os_fds ?os)(?fd := Some ?p)" "quiet os2" "os_euid os2 = os_euid ?os"
      "os_next_fd os2 = ?fd + 1"
    using open_output_file_regular[OF st(2) os(1,2) m(2,3)] name unfolding Let_def by blast
  let ?os' = "finalize_fd ?fc os2"
  have fd: "os_fds os2 (fc_fd ?fc) = Some ?p" using os2(2) by simp
  have node: "os_nodes os2 ?p = Some (Regular (fst (file_at ?os ?p)) (snd (file_at ?os ?p)))" using os2(1) by simp
  have "0 \<le> sint (fc_expected_total_size ?fc)" using m(4) by (simp add: context_of_def)
  note fin = finalize_fd_quiet[OF os2(3) fd node this] finalize_fd_fds[of ?fc os2]
  have "unat (fc_expected_total_size ?fc) = 0" using m(4) by (simp add: context_of_def)
  then have "os_nodes ?os' = (os_nodes os1)(?p := Some (Regular [] (restored (context_of name m) (os_euid ?os = 0)
      (snd (file_at ?os ?p)))))"
    using fin(1) os2(1,4) by (simp add: resize_def)
  moreover have "snd ?p \<noteq> []" using name(2) by (simp add: creatable_def)
  moreover have "os_fds ?os' = os_fds ?os" using fin(4) os2(2) os(3) by (simp add: fun_upd_idem)
  ultimately have hn: "holds_node ?os name (Regular [] (restored (context_of name m) (os_euid ?os = 0)
      (snd (file_at ?os ?p)))) ?os'"
    using fin os2 by (intro holds_node_over_dirs[OF added]) simp_all
  from header_only_processed[OF h st m(1,2) o, of zr pre rest] os(2)
  obtain st' where "process_loop zr (pre @ (local_header_bytes lfh @ tail) @ rest) (length pre) st =
      process_loop zr (pre @ (local_header_bytes lfh @ tail) @ rest) (length pre + (30 + length tail)) st'"
    "ready st'" "ps_frame_buffer st' = ps_frame_buffer st" "settled st' = extracted st (30 + length tail) ?os'"
    by auto
  with hn show ?thesis by blast
qed

section \<open>Directories\<close>

definition dir_at :: "os_state \<Rightarrow> path \<Rightarrow> attrs" where
  "dir_at os p = (case os_nodes os p of Some (Directory a) \<Rightarrow> a | _ \<Rightarrow> own_attrs 0x1ED os)"

definition creatable_dir :: "os_state \<Rightarrow> bytes \<Rightarrow> bool" where
  "creatable_dir os name \<longleftrightarrow>
     components name \<noteq> [] \<and> \<not> dot_named name \<and> dirs_free os (parent (resolve name)) \<and>
     (case os_nodes os (resolve name) of None \<Rightarrow> True | Some (Directory a) \<Rightarrow> True | _ \<Rightarrow> False)"

lemma mkdir_quiet:
  assumes os: "quiet os" and cr: "creatable_dir os name" and par: "is_dir os (parent (resolve name))"
  shows "\<exists>r os1. sys_mkdir name 0x1ED os = (r, os1) \<and> (r = None \<or> r = Some EEXIST) \<and>
    os_nodes os1 = (os_nodes os)(resolve name := Some (Directory (dir_at os (resolve name)))) \<and>
    os_fds os1 = os_fds os \<and> os_next_fd os1 = os_next_fd os \<and> quiet os1 \<and> os_euid os1 = os_euid os"
proof (cases "os_nodes os (resolve name)")
  case None
  then have "sys_mkdir name 0x1ED os = (None, set_node (resolve name) (Directory (own_attrs 0x1ED os)) os)"
    using os par cr by (simp add: sys_mkdir_def Let_def creatable_dir_def)
  then show ?thesis using None os by (simp add: dir_at_def)
next
  case (Some n)
  then obtain a where a: "n = Directory a" using cr by (auto simp: creatable_dir_def split: node.splits)
  have "sys_mkdir name 0x1ED os = (Some EEXIST, os)" using Some by (simp add: sys_mkdir_def Let_def)
  then show ?thesis using Some a os by (simp add: dir_at_def fun_upd_idem)
qed

lemma change_attrs_directory:
  assumes "quiet os" and "os_nodes os p = Some (Directory a)"
  shows "change_attrs p f os = (None, set_node p (Directory (f a)) os)"
  using assms by (simp add: change_attrs_def set_attrs_def)

lemma open_directory_quiet:
  assumes os: "quiet (ps_os st)" and cr: "creatable_dir (ps_os st) (fc_filename fc)"
    and there: "dirs_there (ps_os st) (parent (resolve (fc_filename fc)))"
  shows "\<exists>os'. open_directory fc st = (STREAM_PROC_SUCCESS, st\<lparr>ps_current_file := Some (fc\<lparr>fc_fd := -1\<rparr>), ps_os := os'\<rparr>) \<and>
    os_nodes os' = (os_nodes (ps_os st))(resolve (fc_filename fc) := Some (Directory
      (restored fc (os_euid (ps_os st) = 0) (dir_at (ps_os st) (resolve (fc_filename fc)))))) \<and>
    os_fds os' = os_fds (ps_os st) \<and> os_next_fd os' = os_next_fd (ps_os st) \<and> quiet os' \<and>
    os_euid os' = os_euid (ps_os st)"
proof -
  let ?os = "ps_os st" and ?p = "resolve (fc_filename fc)"
  have "is_dir ?os (parent ?p)"
    using there unfolding dirs_there_def by (metis le_refl prod.collapse take_all)
  from mkdir_quiet[OF os cr this] obtain r os1 where r: "sys_mkdir (fc_filename fc) 0x1ED ?os = (r, os1)"
    "r = None \<or> r = Some EEXIST" and n1: "os_nodes os1 = (os_nodes ?os)(?p := Some (Directory (dir_at ?os ?p)))"
    and s1: "os_fds os1 = os_fds ?os" "os_next_fd os1 = os_next_fd ?os" "quiet os1" "os_euid os1 = os_euid ?os" by blast
  define os2 where "os2 = (if fc_has_unix_mode fc
      then snd (sys_chmod (fc_filename fc) (fc_unix_mode fc AND 0xFFF) os1) else os1)"
  define a2 where "a2 = (if fc_has_unix_mode fc then (dir_at ?os ?p)\<lparr>at_mode := fc_unix_mode fc AND 0xFFF\<rparr> else dir_at ?os ?p)"
  have n2: "os_nodes os2 = (os_nodes ?os)(?p := Some (Directory a2))"
    and s2: "os_fds os2 = os_fds ?os" "os_next_fd os2 = os_next_fd ?os" "quiet os2" "os_euid os2 = os_euid ?os"
    using n1 s1 change_attrs_directory[OF s1(3), of ?p] by (simp_all add: os2_def a2_def sys_chmod_def)
  define os3 where "os3 = (if fc_has_unix_extra fc \<and> os_euid os2 = 0
      then snd (sys_chown (fc_filename fc) (fc_uid fc) (fc_gid fc) os2) else os2)"
  have n3: "os_nodes os3 = (os_nodes ?os)(?p := Some (Directory (restored fc (os_euid ?os = 0) (dir_at ?os ?p))))"
    and s3: "os_fds os3 = os_fds ?os" "os_next_fd os3 = os_next_fd ?os" "quiet os3" "os_euid os3 = os_euid ?os"
    using n2 s2 change_attrs_directory[OF s2(3), of ?p]
    by (simp_all add: os3_def a2_def sys_chown_def restored_def Let_def)
  have "open_directory fc st = (STREAM_PROC_SUCCESS, st\<lparr>ps_current_file := Some (fc\<lparr>fc_fd := -1\<rparr>), ps_os := os3\<rparr>)"
    using r unfolding open_directory_def os3_def os2_def Let_def by auto
  then show ?thesis using n3 s3 by blast
qed

text \<open>The directories above the name are made first.\<close>

lemma ensure_parents:
  assumes q: "quiet os" and dot: "\<not> dot_named name" "components name \<noteq> []"
    and free: "dirs_free os (parent (resolve name))"
  shows "\<exists>os1. ensure_directory_exists name os = (0, os1) \<and> dirs_added (parent (resolve name)) os os1 \<and>
    dirs_there os1 (parent (resolve name)) \<and> dirs_free os1 (parent (resolve name)) \<and>
    os_nodes os1 (resolve name) = os_nodes os (resolve name) \<and> quiet os1 \<and>
    os_fds os1 = os_fds os \<and> os_next_fd os1 = os_next_fd os \<and> os_euid os1 = os_euid os \<and>
    own_attrs mode os1 = own_attrs mode os"
proof -
  have par: "resolve (dirname name) = parent (resolve name)" using dot by (intro resolve_dirname) auto
  from ensure_directory_exists_quiet[OF q, of name] free
  obtain os1 where e: "ensure_directory_exists name os = (0, os1)"
    and a: "dirs_added (parent (resolve name)) os os1" and there: "dirs_there os1 (parent (resolve name))"
    unfolding par by blast
  have "os_nodes os1 (resolve name) = os_nodes os (resolve name)" using added_not_self[OF a dot(2)] .
  moreover have "quiet os1" "os_fds os1 = os_fds os" "os_next_fd os1 = os_next_fd os" "os_euid os1 = os_euid os"
    "own_attrs mode os1 = own_attrs mode os"
    using a by (auto simp: dirs_added_def same_fds_def own_attrs_def)
  ultimately show ?thesis using e a there dirs_free_added[OF free a] by blast
qed

lemma directory_extracted:
  assumes h: "header_complete lfh tail" "\<not> padding_named lfh tail"
    and st: "ps_state st = STATE_EXPECT_LOCAL_HEADER" "ps_current_file st = None"
      "ps_next_entry_idx st < length (pf_entries (this_part st))"
    and os: "quiet (ps_os st)"
    and m: "m = cp_files (ps_cd_result st) ! pe_file_index (pf_entries (this_part st) ! ps_next_entry_idx st)"
      "\<not> fm_is_symlink m" "fm_filename m \<noteq> [] \<and> last (fm_filename m) = slash"
    and name: "name = ps_output_dir st @ slash # fm_filename m" "creatable_dir (ps_os st) name"
  shows "\<exists>st' os'. process_loop zr (pre @ (local_header_bytes lfh @ tail) @ rest) (length pre) st =
      process_loop zr (pre @ (local_header_bytes lfh @ tail) @ rest) (length pre + (30 + length tail)) st' \<and>
    ready st' \<and> ps_frame_buffer st' = ps_frame_buffer st \<and> settled st' = extracted st (30 + length tail) os' \<and>
    holds_node (ps_os st) name (Directory (restored (context_of name m) (os_euid (ps_os st) = 0)
      (dir_at (ps_os st) (resolve name)))) os'"
proof -
  let ?os = "ps_os st" and ?p = "resolve name"
  have cr: "components name \<noteq> []" "\<not> dot_named name" "dirs_free ?os (parent ?p)"
    using name(2) by (simp_all add: creatable_dir_def)
  obtain os1 where e: "ensure_directory_exists name ?os = (0, os1)" and a: "dirs_added (parent ?p) ?os os1"
    and t: "dirs_there os1 (parent ?p)" "dirs_free os1 (parent ?p)" and n: "os_nodes os1 ?p = os_nodes ?os ?p"
    and s: "quiet os1" "os_fds os1 = os_fds ?os" "os_next_fd os1 = os_next_fd ?os" "os_euid os1 = os_euid ?os"
      "own_attrs 0x1ED os1 = own_attrs 0x1ED ?os"
    using ensure_parents[OF os cr(2,1,3)] by blast
  let ?fc = "context_of name m"
  have cr1: "creatable_dir os1 name" using name(2) n t(2) by (simp add: creatable_dir_def)
  have da: "dir_at os1 ?p = dir_at ?os ?p" unfolding dir_at_def n s(5) by (rule refl)
  obtain os' where od: "open_directory ?fc (st\<lparr>ps_os := os1\<rparr>) =
        (STREAM_PROC_SUCCESS, st\<lparr>ps_current_file := Some (?fc\<lparr>fc_fd := -1\<rparr>), ps_os := os'\<rparr>)"
    and os': "os_nodes os' = (os_nodes os1)(?p := Some (Directory (restored ?fc (os_euid ?os = 0) (dir_at ?os ?p))))"
      "os_fds os' = os_fds ?os" "os_next_fd os' = os_next_fd ?os" "quiet os'" "os_euid os' = os_euid ?os"
    using open_directory_quiet[of "st\<lparr>ps_os := os1\<rparr>" ?fc] s cr1 t(1) da by (auto simp: context_of_def)
  have "open_output_file m st =
      Some (STREAM_PROC_SUCCESS, st\<lparr>ps_current_file := Some (?fc\<lparr>fc_fd := -1\<rparr>), ps_os := os'\<rparr>)"
    using st(2) os e od m(3) name(1)
    by (simp add: open_output_file_def close_output_file_def proceed_def open_fresh_file_def Let_def context_of_def)
  from header_only_processed[OF h st m(1,2) this, of zr pre rest]
  obtain st' where "process_loop zr (pre @ (local_header_bytes lfh @ tail) @ rest) (length pre) st =
      process_loop zr (pre @ (local_header_bytes lfh @ tail) @ rest) (length pre + (30 + length tail)) st'"
    "ready st'" "ps_frame_buffer st' = ps_frame_buffer st" "settled st' = extracted st (30 + length tail) os'" by auto
  moreover have "holds_node ?os name (Directory (restored ?fc (os_euid ?os = 0) (dir_at ?os ?p))) os'"
    using os' cr(1) by (intro holds_node_over_dirs[OF a]) simp_all
  ultimately show ?thesis by blast
qed

section \<open>Symbolic links\<close>

definition linked :: "file_context \<Rightarrow> os_state \<Rightarrow> attrs" where
  "linked fc os =
     (let a = own_attrs 0x1FF os
      in if fc_has_unix_extra fc \<and> os_euid os = 0 then a\<lparr>at_uid := fc_uid fc, at_gid := fc_gid fc\<rparr> else a)"

text \<open>A link replaces a file or a link of its name.\<close>

definition creatable_link :: "os_state \<Rightarrow> bytes \<Rightarrow> bool" where
  "creatable_link os name \<longleftrightarrow>
     components name \<noteq> [] \<and> \<not> dot_named name \<and> dirs_free os (parent (resolve name)) \<and>
     (case os_nodes os (resolve name) of None \<Rightarrow> True | Some (Directory a) \<Rightarrow> False | _ \<Rightarrow> True)"

lemma make_link_quiet:
  assumes os: "quiet os" and cr: "creatable_link os name" and par: "is_dir os (parent (resolve name))"
    and t: "target \<noteq> []" and name: "fc_filename fc = name"
  shows "\<exists>os'. restore_symlink_owner fc (snd (sys_symlink target name (snd (sys_unlink name os)))) = os' \<and>
    os_nodes os' = (os_nodes os)(resolve name := Some (Symbolic target (linked fc os))) \<and>
    os_fds os' = os_fds os \<and> os_next_fd os' = os_next_fd os \<and> quiet os' \<and> os_euid os' = os_euid os"
proof -
  let ?p = "resolve name"
  define os1 where "os1 = snd (sys_unlink name os)"
  have n1: "os_nodes os1 = (os_nodes os)(?p := None)"
    and s1: "os_fds os1 = os_fds os" "os_next_fd os1 = os_next_fd os" "quiet os1" "os_euid os1 = os_euid os"
      "own_attrs m os1 = own_attrs m os" for m
    using os cr
    by (auto simp: os1_def sys_unlink_def Let_def creatable_link_def is_dir_def fun_upd_idem quiet_def own_attrs_def
        split: option.splits node.splits)
  have "parent ?p \<noteq> ?p" using cr by (auto simp: creatable_link_def parent_def prod_eq_iff) (metis length_butlast
      One_nat_def diff_less length_greater_0_conv less_numeral_extra(1) less_irrefl)
  then have "is_dir os1 (parent ?p)" using par n1 by (simp add: is_dir_def)
  then have l: "snd (sys_symlink target name os1) = set_node ?p (Symbolic target (own_attrs 0x1FF os)) os1"
    using n1 s1 t cr by (simp add: sys_symlink_def Let_def creatable_link_def)
  show ?thesis
    using n1 s1 name
    by (simp add: os1_def[symmetric] l restore_symlink_owner_def sys_chown_def change_attrs_def set_attrs_def
        linked_def Let_def)
qed

text \<open>The state in which the target of a link is collected.\<close>

definition reading_link ::
  "part_processor_state \<Rightarrow> nat \<Rightarrow> file_context \<Rightarrow> os_state \<Rightarrow> part_processor_state" where
  "reading_link st n fc os =
     st\<lparr>ps_current_file := Some (fc\<lparr>fc_fd := -1, fc_symlink_buffer := Some [],
          fc_symlink_buffer_size := fc_expected_total_size fc + 1\<rparr>), ps_os := os,
        ps_next_entry_idx := ps_next_entry_idx st + 1, ps_state := STATE_READING_SYMLINK,
        ps_bytes_processed := ps_bytes_processed st + of_nat n\<rparr>"

lemma link_header_read:
  assumes h: "header_complete lfh tail" "\<not> padding_named lfh tail"
    and st: "ps_state st = STATE_EXPECT_LOCAL_HEADER" "ps_current_file st = None"
      "ps_next_entry_idx st < length (pf_entries (this_part st))"
    and os: "quiet (ps_os st)"
    and m: "m = cp_files (ps_cd_result st) ! pe_file_index (pf_entries (this_part st) ! ps_next_entry_idx st)"
      "fm_is_symlink m" "\<not> (fm_filename m \<noteq> [] \<and> last (fm_filename m) = slash)"
    and name: "name = ps_output_dir st @ slash # fm_filename m"
    and e: "ensure_directory_exists name (ps_os st) = (0, os1)" "quiet os1"
  shows "process_loop zr (pre @ (local_header_bytes lfh @ tail) @ rest) (length pre) st =
     process_loop zr (pre @ (local_header_bytes lfh @ tail) @ rest) (length pre + (30 + length tail))
       (reading_link st (30 + length tail) (context_of name m) os1)"
proof (rule header_step[OF st(1)])
  have "0 < length (local_header_bytes lfh @ tail)" by simp
  then show "local_header_bytes lfh @ tail \<noteq> []" by force
  let ?fc = "(context_of name m)\<lparr>fc_fd := -1, fc_symlink_buffer := Some [],
      fc_symlink_buffer_size := fm_uncompressed_size m + 1\<rparr>"
  have "open_output_file m st = Some (STREAM_PROC_SUCCESS, st\<lparr>ps_current_file := Some ?fc, ps_os := os1\<rparr>)"
    using st(2) os e m(2,3) name
    by (cases "fm_filename m = []")
      (simp_all add: open_output_file_def close_output_file_def proceed_def open_fresh_file_def Let_def open_symlink_def
        context_of_def)
  then have "handle_local_header (local_header_bytes lfh @ tail @ rest) st =
      Some (STREAM_PROC_SUCCESS, 30 + length tail, st\<lparr>ps_current_file := Some ?fc, ps_os := os1\<rparr>)"
    using handle_local_header_eq[OF h(1), of rest st] h(2) st(3)
    by (simp add: m(1)[symmetric] set_uncompressed_offset_def context_of_def)
  then show "step_expect_header zr ((local_header_bytes lfh @ tail) @ rest) (length pre) st =
      Next (length pre + (30 + length tail)) (reading_link st (30 + length tail) (context_of name m) os1)"
    using h st(3) m(2) parse_local_header[of lfh zr "tail @ rest"]
    by (simp add: step_expect_header_def with_frame_Ok frame_info_of_def header_complete_def
        advance_def reading_link_def context_of_def del: of_nat_add)
qed

lemma link_target_read:
  assumes t: "target \<noteq> []" "0 \<notin> set target" "length target < 2 ^ 62"
    and fc: "fc_is_symlink fc" "fc_expected_total_size fc = of_nat (length target)" "fc_filename fc = name"
    and st: "ps_current_file st = None" "ps_state st = STATE_EXPECT_LOCAL_HEADER"
    and l: "restore_symlink_owner fc (snd (sys_symlink target name (snd (sys_unlink name os1)))) = os'"
  shows "process_loop zr (pre @ target @ rest) (length pre) (reading_link st n fc os1) =
     process_loop zr (pre @ target @ rest) (length pre + length target) (extracted st (n + length target) os')"
proof (rule process_loop_Next)
  show "length pre < length (pre @ target @ rest)" using t(1) by simp
  let ?st = "reading_link st n fc os1"
  let ?fc = "fc\<lparr>fc_fd := -1, fc_symlink_buffer := Some target, fc_symlink_buffer_size := of_nat (length target) + 1\<rparr>"
  let ?st1 = "?st\<lparr>ps_current_file := Some ?fc, ps_bytes_processed := ps_bytes_processed ?st + of_nat (length target)\<rparr>"
  have u: "unat (of_nat (length target) :: u64) = length target" using t(3) by (simp add: unat_of_nat)
  have u1: "unat (of_nat (length target) + 1 :: u64) = length target + 1"
    using t(3) by (simp add: unat_word_ariths unat_of_nat)
  have nul: "takeWhile (\<lambda>b. b \<noteq> 0) target = target" using t(2) by (auto simp: takeWhile_eq_all_conv)
  have "restore_symlink_owner ?fc os = restore_symlink_owner fc os" for os by (simp add: restore_symlink_owner_def)
  then have close: "close_output_file ?st1 = Some (STREAM_PROC_SUCCESS, ?st1\<lparr>ps_current_file := None, ps_os := os'\<rparr>)"
    using fc l u1 by (simp add: close_output_file_def Let_def reading_link_def nul)
  have "process_step zr (pre @ target @ rest) (length pre) ?st = step_symlink (target @ rest) (length pre) ?st"
    by (simp add: process_step_def reading_link_def)
  also have "\<dots> = after (close_output_file ?st1)
      (\<lambda>st2. Next (length pre + length target) (st2\<lparr>ps_state := STATE_EXPECT_LOCAL_HEADER\<rparr>))"
    using fc u u1 by (cases fc) (simp add: step_symlink_def reading_link_def Let_def)
  also have "\<dots> = Next (length pre + length target) (extracted st (n + length target) os')"
    using st unfolding close by (cases st) (simp add: after_def reading_link_def extracted_def add.assoc)
  finally show "process_step zr (pre @ target @ rest) (length pre) ?st =
      Next (length pre + length target) (extracted st (n + length target) os')" .
qed

lemma symlink_extracted:
  assumes h: "header_complete lfh tail" "\<not> padding_named lfh tail"
    and st: "ps_state st = STATE_EXPECT_LOCAL_HEADER" "ps_current_file st = None"
      "ps_next_entry_idx st < length (pf_entries (this_part st))"
    and os: "quiet (ps_os st)"
    and m: "m = cp_files (ps_cd_result st) ! pe_file_index (pf_entries (this_part st) ! ps_next_entry_idx st)"
      "fm_is_symlink m" "\<not> (fm_filename m \<noteq> [] \<and> last (fm_filename m) = slash)"
      "fm_uncompressed_size m = of_nat (length target)"
    and t: "target \<noteq> []" "0 \<notin> set target" "length target < 2 ^ 62"
    and name: "name = ps_output_dir st @ slash # fm_filename m" "creatable_link (ps_os st) name"
  shows "\<exists>os'. process_loop zr (pre @ (local_header_bytes lfh @ tail @ target) @ rest) (length pre) st =
      process_loop zr (pre @ (local_header_bytes lfh @ tail @ target) @ rest)
        (length pre + (30 + length tail + length target)) (extracted st (30 + length tail + length target) os') \<and>
    holds_node (ps_os st) name (Symbolic target (linked (context_of name m) (ps_os st))) os'"
proof -
  let ?os = "ps_os st" and ?p = "resolve name" and ?fc = "context_of name m"
  have cr: "components name \<noteq> []" "\<not> dot_named name" "dirs_free ?os (parent ?p)"
    using name(2) by (simp_all add: creatable_link_def)
  obtain os1 where e: "ensure_directory_exists name ?os = (0, os1)" and a: "dirs_added (parent ?p) ?os os1"
    and d: "dirs_there os1 (parent ?p)" "dirs_free os1 (parent ?p)" and n: "os_nodes os1 ?p = os_nodes ?os ?p"
    and s: "quiet os1" "os_fds os1 = os_fds ?os" "os_next_fd os1 = os_next_fd ?os" "os_euid os1 = os_euid ?os"
      "own_attrs 0x1FF os1 = own_attrs 0x1FF ?os"
    using ensure_parents[OF os cr(2,1,3)] by blast
  have cr1: "creatable_link os1 name" using name(2) n d(2) by (simp add: creatable_link_def)
  have par: "is_dir os1 (parent ?p)"
    using d(1) unfolding dirs_there_def by (metis le_refl prod.collapse take_all)
  have fc: "fc_is_symlink ?fc" "fc_expected_total_size ?fc = of_nat (length target)" "fc_filename ?fc = name"
    using m by (simp_all add: context_of_def)
  from make_link_quiet[OF s(1) cr1 par t(1) fc(3)]
  obtain os' where l: "restore_symlink_owner ?fc (snd (sys_symlink target name (snd (sys_unlink name os1)))) = os'"
    and os': "os_nodes os' = (os_nodes os1)(?p := Some (Symbolic target (linked ?fc os1)))" "os_fds os' = os_fds ?os"
      "os_next_fd os' = os_next_fd ?os" "quiet os'" "os_euid os' = os_euid ?os" using s by auto
  have la: "linked ?fc os1 = linked ?fc ?os" unfolding linked_def s(4,5) by (rule refl)
  have "process_loop zr (pre @ (local_header_bytes lfh @ tail @ target) @ rest) (length pre) st =
      process_loop zr (pre @ (local_header_bytes lfh @ tail @ target) @ rest)
        (length pre + (30 + length tail + length target)) (extracted st (30 + length tail + length target) os')"
    using link_header_read[OF h st os m(1-3) name(1) e s(1), of zr pre "target @ rest"]
      link_target_read[OF t fc st(2,1) l, of zr "pre @ local_header_bytes lfh @ tail" rest "30 + length tail"]
    by (simp add: add.assoc)
  moreover have "holds_node ?os name (Symbolic target (linked ?fc ?os)) os'"
    using os' cr(1) unfolding la by (intro holds_node_over_dirs[OF a]) simp_all
  ultimately show ?thesis by blast
qed

end
