(* ===== verification/Entry_Processor.thy ===== *)
theory Entry_Processor
  imports Writer_Properties
begin

text \<open>
  Entries of the file system (\<open>src/writer/entry_processor.c\<close>): the local file headers of files,
  symbolic links and directories, and \<open>process_entry\<close>, which builds the header and calls the
  writer. The result of \<open>fopen\<close> is an argument (\<open>None\<close> when the file cannot be opened). A C string
  is the list of its bytes before the NUL.
\<close>

section \<open>Local file headers\<close>

record file_stat =
  st_mode :: u32
  st_uid :: u32
  st_gid :: u32
  st_size :: int
  st_mtime :: int

definition S_ISLNK :: "u32 \<Rightarrow> bool" where
  "S_ISLNK mode \<longleftrightarrow> mode AND 0xF000 = 0xA000"

text \<open>A header in memory: the struct and the bytes after it; \<open>None\<close> is NULL.\<close>

definition build_local_file_header ::
  "writer_env \<Rightarrow> bytes \<Rightarrow> bool \<Rightarrow> u32 \<Rightarrow> u32 \<Rightarrow> burst_writer
     \<Rightarrow> (zip_local_header \<times> bytes) option \<times> burst_writer" where
  "build_local_file_header env filename is_empty uid gid w =
     (let (mod_time, mod_date) = dos_datetime_from_time_t (env_time env) (time_now (env_time env));
          extra_field = build_unix_extra_field 16 uid gid;
          lfh = \<lparr>lh_signature = ZIP_LOCAL_FILE_HEADER_SIG,
                 lh_version_needed = (if is_empty then ZIP_VERSION_STORE else ZIP_VERSION_ZSTD),
                 lh_flags = (if is_empty then 0 else ZIP_FLAG_DATA_DESCRIPTOR),
                 lh_compression_method = (if is_empty then ZIP_METHOD_STORE else ZIP_METHOD_ZSTD),
                 lh_last_mod_time = mod_time, lh_last_mod_date = mod_date,
                 lh_crc32 = 0, lh_compressed_size = 0, lh_uncompressed_size = 0,
                 lh_filename_length = of_nat (length filename),
                 lh_extra_field_length = of_nat (length extra_field)\<rparr>
      in case c_alloc w of (got, w1) \<Rightarrow> (if got then Some (lfh, filename @ extra_field) else None, w1))"

definition build_symlink_local_file_header ::
  "writer_env \<Rightarrow> bytes \<Rightarrow> bytes \<Rightarrow> u32 \<Rightarrow> u32 \<Rightarrow> burst_writer
     \<Rightarrow> (zip_local_header \<times> bytes) option \<times> burst_writer" where
  "build_symlink_local_file_header env filename target uid gid w =
     (let (mod_time, mod_date) = dos_datetime_from_time_t (env_time env) (time_now (env_time env));
          extra_field = build_unix_extra_field 16 uid gid;
          lfh = \<lparr>lh_signature = ZIP_LOCAL_FILE_HEADER_SIG,
                 lh_version_needed = ZIP_VERSION_STORE, lh_flags = 0,
                 lh_compression_method = ZIP_METHOD_STORE,
                 lh_last_mod_time = mod_time, lh_last_mod_date = mod_date,
                 lh_crc32 = env_crc32 env 0 target,
                 lh_compressed_size = of_nat (length target),
                 lh_uncompressed_size = of_nat (length target),
                 lh_filename_length = of_nat (length filename),
                 lh_extra_field_length = of_nat (length extra_field)\<rparr>
      in case c_alloc w of (got, w1) \<Rightarrow> (if got then Some (lfh, filename @ extra_field) else None, w1))"

definition build_directory_local_file_header ::
  "writer_env \<Rightarrow> bytes \<Rightarrow> u32 \<Rightarrow> u32 \<Rightarrow> int \<Rightarrow> burst_writer
     \<Rightarrow> (zip_local_header \<times> bytes) option \<times> burst_writer" where
  "build_directory_local_file_header env dirname uid gid mtime w =
     (if dirname = [] \<or> last dirname \<noteq> 0x2f then (None, w)
      else
        let (mod_time, mod_date) = dos_datetime_from_time_t (env_time env) mtime;
            extra_field = build_unix_extra_field 16 uid gid;
            lfh = \<lparr>lh_signature = ZIP_LOCAL_FILE_HEADER_SIG,
                   lh_version_needed = ZIP_VERSION_STORE, lh_flags = 0,
                   lh_compression_method = ZIP_METHOD_STORE,
                   lh_last_mod_time = mod_time, lh_last_mod_date = mod_date,
                   lh_crc32 = 0, lh_compressed_size = 0, lh_uncompressed_size = 0,
                   lh_filename_length = of_nat (length dirname),
                   lh_extra_field_length = of_nat (length extra_field)\<rparr>
        in case c_alloc w of (got, w1) \<Rightarrow> (if got then Some (lfh, dirname @ extra_field) else None, w1))"

section \<open>Processing an entry\<close>

text \<open>\<open>success = (rc == 0) ? 1 : 0\<close>\<close>

definition success_of :: "int \<times> burst_writer \<Rightarrow> int \<times> burst_writer" where
  "success_of r = (if fst r = 0 then 1 else 0, snd r)"

definition process_entry ::
  "writer_env \<Rightarrow> in_file option \<Rightarrow> bytes \<Rightarrow> bytes \<Rightarrow> file_stat \<Rightarrow> bool \<Rightarrow> burst_writer
     \<Rightarrow> int \<times> burst_writer" where
  "process_entry env opened archive_name symlink_target st is_dir w =
     (if is_dir then
        (case build_directory_local_file_header env archive_name (st_uid st) (st_gid st) (st_mtime st) w of
           (None, w1) \<Rightarrow> (0, w1)
         | (Some (lfh, tail), w1) \<Rightarrow>
             success_of (burst_writer_add_directory env lfh tail (st_mode st) (st_uid st) (st_gid st) w1))
      else if S_ISLNK (st_mode st) then
        (case build_symlink_local_file_header env archive_name symlink_target (st_uid st) (st_gid st) w of
           (None, w1) \<Rightarrow> (0, w1)
         | (Some (lfh, tail), w1) \<Rightarrow>
             success_of (burst_writer_add_symlink env lfh tail symlink_target (st_mode st) (st_uid st)
               (st_gid st) w1))
      else
        (case opened of
           None \<Rightarrow> (0, w)
         | Some inp \<Rightarrow>
             (case build_local_file_header env archive_name (st_size st = 0) (st_uid st) (st_gid st) w of
                (None, w1) \<Rightarrow> (0, w1)
              | (Some (lfh, tail), w1) \<Rightarrow>
                  success_of (burst_writer_add_file env inp lfh tail (st_mode st) (st_uid st) (st_gid st) w1))))"

section \<open>The headers satisfy the writer's contract\<close>

lemma c_alloc_inv: "c_alloc w = (got, w1) \<Longrightarrow> archive_inv w \<Longrightarrow> archive_inv w1"
  using c_alloc_view[of w got w1] by (auto simp: archive_inv_def slots_ok_def keep_def num_files_def)

lemma c_alloc_stream: "c_alloc w = (got, w1) \<Longrightarrow> stream w1 = stream w \<and> files w1 = files w"
  using c_alloc_view[of w got w1] by (simp add: keep_def)

lemma build_local_file_header_ok:
  assumes "build_local_file_header env name is_empty uid gid w = (Some (lfh, tail), w1)"
    and "length name \<le> 65000"
  shows "header_ok lfh tail 0 True" and "is_header_only lfh = is_empty"
    and "c_alloc w = (True, w1)" and "tail = name @ build_unix_extra_field 16 uid gid"
    and "lh_filename_length lfh = of_nat (length name)"
  using assms
  by (auto simp: build_local_file_header_def Let_def header_ok_def entry_need_def is_header_only_def
      ZIP_FLAG_DATA_DESCRIPTOR_def split: prod.splits if_splits)

lemma build_symlink_header_ok:
  assumes "build_symlink_local_file_header env name target uid gid w = (Some (lfh, tail), w1)"
    and "length name + length target \<le> 65000"
  shows "header_ok lfh tail (length target) False"
    and "c_alloc w = (True, w1)" and "tail = name @ build_unix_extra_field 16 uid gid"
    and "lh_filename_length lfh = of_nat (length name)"
  using assms
  by (auto simp: build_symlink_local_file_header_def Let_def header_ok_def entry_need_def
      split: prod.splits if_splits)

lemma build_directory_header_ok:
  assumes "build_directory_local_file_header env name uid gid mtime w = (Some (lfh, tail), w1)"
    and "length name \<le> 65000"
  shows "header_ok lfh tail 0 False"
    and "c_alloc w = (True, w1)" and "tail = name @ build_unix_extra_field 16 uid gid"
    and "lh_filename_length lfh = of_nat (length name)" and "directory_header_ok lfh tail"
proof -
  note d = build_directory_local_file_header_def Let_def
  show h: "header_ok lfh tail 0 False" "c_alloc w = (True, w1)"
    "tail = name @ build_unix_extra_field 16 uid gid" "lh_filename_length lfh = of_nat (length name)"
    using assms by (auto simp: d header_ok_def entry_need_def split: prod.splits if_splits)
  have n: "name \<noteq> []" "last name = 0x2f" and z: "lh_compression_method lfh = ZIP_METHOD_STORE"
    "lh_compressed_size lfh = 0" "lh_uncompressed_size lfh = 0"
    using assms by (auto simp: d split: prod.splits if_splits)
  have u: "unat (of_nat (length name) :: u16) = length name" using assms(2) by (simp add: unat_of_nat)
  have "(of_nat (length name) :: u16) \<noteq> 0" using n(1) u by (metis length_0_conv unat_0)
  with n z h u show "directory_header_ok lfh tail"
    by (simp add: directory_header_ok_def nth_append last_conv_nth)
qed

section \<open>Properties\<close>

text \<open>The name (with the target of a link) fits into one padding header's reach, and the archive
  stays within 64-bit offsets.\<close>

definition entry_fits :: "in_file option \<Rightarrow> bytes \<Rightarrow> bytes \<Rightarrow> burst_writer \<Rightarrow> bool" where
  "entry_fits opened name target w \<longleftrightarrow>
     length name + length target \<le> 65000 \<and>
     budget (length (stream w))
       (Suc (case opened of None \<Rightarrow> 0 | Some inp \<Rightarrow> length (chunks (readable (in_rewind inp)))))"

lemma entry_fits_length: "entry_fits opened name target w \<Longrightarrow> length (stream w) < 2 ^ 62"
  by (simp add: entry_fits_def budget_def)

lemma success_of_one: "success_of r = (1, w') \<Longrightarrow> r = (0, w')"
  by (cases r) (auto simp: success_of_def split: if_splits)

text \<open>The entry \<open>e\<close> has the attributes of the file, and its offset is that of a local file header with
  this name in the archive \<open>s\<close>.\<close>

definition entry_for :: "bytes \<Rightarrow> file_stat \<Rightarrow> bytes \<Rightarrow> file_entry \<Rightarrow> bool" where
  "entry_for name st s e \<longleftrightarrow>
     fe_filename e = name \<and> fe_unix_mode e = st_mode st \<and> fe_uid e = st_uid st \<and> fe_gid e = st_gid st \<and>
     (\<exists>pos lfh rest. fe_local_header_offset e = of_nat pos \<and>
        lh_signature lfh = ZIP_LOCAL_FILE_HEADER_SIG \<and>
        drop pos s = local_header_bytes lfh @ name @ rest)"

lemma entry_forI:
  assumes "stream w' = stream w @ pad @ local_header_bytes lfh @ name @ rest"
    and "lh_signature lfh = ZIP_LOCAL_FILE_HEADER_SIG"
    and "fe_filename e = name" "fe_unix_mode e = st_mode st" "fe_uid e = st_uid st" "fe_gid e = st_gid st"
    and "fe_local_header_offset e = of_nat (length (stream w) + length pad)"
  shows "entry_for name st (stream w') e"
  using assms
  by (auto simp: entry_for_def intro!: exI[of _ "length (stream w) + length pad"])

lemma named_entry_name:
  assumes "0 \<notin> set name" and "length name \<le> 65000" and "lh_filename_length lfh = of_nat (length name)"
  shows "fe_filename (named_entry lfh (name @ extra)) = name"
proof -
  have "unat (of_nat (length name) :: u16) = length name" using assms(2) by (simp add: unat_of_nat)
  with assms show ?thesis by (simp add: named_entry_def strndup_exact)
qed

lemmas entry_fields =
  populate_entry_metadata_def file_record_entry_def file_entry_done_def file_entry_end_def
  file_entry_start_def symlink_entry_def directory_entry_def header_ok_def

text \<open>\<open>w'\<close> is \<open>w\<close> after the entry of the file was added; the archive grew by at most \<open>k\<close> times the
  length of two parts.\<close>

definition entry_added :: "bytes \<Rightarrow> file_stat \<Rightarrow> nat \<Rightarrow> burst_writer \<Rightarrow> burst_writer \<Rightarrow> bool" where
  "entry_added name st k w w' \<longleftrightarrow>
     archive_inv w' \<and> compression_level w' = compression_level w \<and>
     (\<exists>e d. stream w' = stream w @ d \<and> length d \<le> k * (2 * PART) \<and>
        files w' = files w @ [e] \<and> entry_for name st (stream w') e)"

lemma added_entry_for:
  assumes "archive_inv w" and "added w (pad @ local_header_bytes lfh @ name @ rest) e w'"
    and "num_files w' \<le> files_capacity w'"
    and "entry_start (stream w @ pad @ local_header_bytes lfh @ name @ rest)"
    and "length (pad @ local_header_bytes lfh @ name @ rest) \<le> k * (2 * PART)"
    and "lh_signature lfh = ZIP_LOCAL_FILE_HEADER_SIG"
    and "fe_filename e = name" "fe_unix_mode e = st_mode st" "fe_uid e = st_uid st" "fe_gid e = st_gid st"
    and "fe_local_header_offset e = of_nat (length (stream w) + length pad)"
  shows "entry_added name st k w w'"
  using archive_inv_added[OF assms(1-4)] entry_forI[OF _ assms(6-11)] assms(2,5)
  by (auto simp: added_def entry_added_def)

lemma header_starts_entry:
  assumes "archive_inv w" and "header_ok lfh tail 0 dd"
  shows "entry_start (stream w @ padding_for ct w tail 0 dd @ local_header_bytes lfh @ tail)"
  using header_entry_start[of "stream w" lfh tail "[]" dd ct] assms by (simp add: archive_inv_def)

lemma length_header_entry:
  assumes "archive_inv w" and "header_ok lfh tail (length content) dd"
  shows "length (padding_for ct w tail (length content) dd @ local_header_bytes lfh @ tail @ content) \<le> 131072"
  using length_padding_for[of w tail "length content" dd ct] assms
  by (auto simp: archive_inv_def header_ok_def entry_need_def split: if_splits)

lemma add_directory_entry:
  assumes w: "archive_inv w" "length (stream w) < 2 ^ 62" and name: "0 \<notin> set name" "length name \<le> 65000"
    and h: "header_ok lfh tail 0 False" "tail = name @ extra" "lh_filename_length lfh = of_nat (length name)"
    and run: "burst_writer_add_directory env lfh tail (st_mode st) (st_uid st) (st_gid st) w = (0, w')"
  shows "entry_added name st 1 w w'" and "fault_free w \<Longrightarrow> fault_free w'"
proof -
  let ?pad = "padding_for (env_time env) w tail 0 False"
  let ?e = "directory_entry lfh tail (length (stream w) + length ?pad) (st_mode st) (st_uid st) (st_gid st)"
  have "adds (burst_writer_add_directory env lfh tail (st_mode st) (st_uid st) (st_gid st)) w
      (?pad @ local_header_bytes lfh @ tail) ?e"
    using burst_writer_add_directory_adds[OF w h(1) add_directory_header[OF run]] .
  with run h(2) have ad: "added w (?pad @ local_header_bytes lfh @ name @ extra) ?e w'"
    "num_files w' \<le> files_capacity w'" and ff: "fault_free w \<longrightarrow> fault_free w'" by (auto simp: adds_def)
  have es: "entry_start (stream w @ ?pad @ local_header_bytes lfh @ name @ extra)"
    using header_starts_entry[OF w(1) h(1)] h(2) by simp
  have "length (?pad @ local_header_bytes lfh @ name @ extra) \<le> 1 * (2 * PART)"
    using length_header_entry[of w lfh tail "[]" False "env_time env"] w(1) h(1,2) by simp
  from added_entry_for[OF w(1) ad es this] show "entry_added name st 1 w w'"
    using h named_entry_name[OF name h(3), of extra] by (simp add: entry_fields)
  show "fault_free w \<Longrightarrow> fault_free w'" using ff by simp
qed

lemma add_symlink_entry:
  assumes w: "archive_inv w" "length (stream w) < 2 ^ 62" and name: "0 \<notin> set name" "length name \<le> 65000"
    and h: "header_ok lfh tail (length target) False" "tail = name @ extra"
      "lh_filename_length lfh = of_nat (length name)"
    and run: "burst_writer_add_symlink env lfh tail target (st_mode st) (st_uid st) (st_gid st) w = (0, w')"
  shows "entry_added name st 1 w w'" and "fault_free w \<Longrightarrow> fault_free w'"
proof -
  let ?pad = "padding_for (env_time env) w tail (length target) False"
  let ?e = "symlink_entry lfh tail target (length (stream w) + length ?pad) (st_mode st) (st_uid st) (st_gid st)"
  have "adds (burst_writer_add_symlink env lfh tail target (st_mode st) (st_uid st) (st_gid st)) w
      (?pad @ local_header_bytes lfh @ tail @ target) ?e"
    using burst_writer_add_symlink_adds[OF w h(1) add_symlink_target[OF run]] .
  with run h(2) have ad: "added w (?pad @ local_header_bytes lfh @ name @ extra @ target) ?e w'"
    "num_files w' \<le> files_capacity w'" and ff: "fault_free w \<longrightarrow> fault_free w'" by (auto simp: adds_def)
  have es: "entry_start (stream w @ ?pad @ local_header_bytes lfh @ name @ extra @ target)"
    using header_entry_start[of "stream w" lfh tail target False "env_time env"] w(1) h(1,2)
    by (simp add: archive_inv_def)
  have "length (?pad @ local_header_bytes lfh @ name @ extra @ target) \<le> 1 * (2 * PART)"
    using length_header_entry[of w lfh tail target False "env_time env"] w(1) h(1,2) by simp
  from added_entry_for[OF w(1) ad es this] show "entry_added name st 1 w w'"
    using h named_entry_name[OF name h(3), of extra] by (simp add: entry_fields)
  show "fault_free w \<Longrightarrow> fault_free w'" using ff by simp
qed

text \<open>How much a file may add: two parts per chunk, and two more for the header and the trailer.\<close>

definition entry_cost :: "in_file option \<Rightarrow> nat" where
  "entry_cost opened =
     Suc (Suc (case opened of None \<Rightarrow> 0 | Some inp \<Rightarrow> length (chunks (readable (in_rewind inp)))))"

lemma body_items_length:
  assumes "frames_fit env" and "body_items (frame_of env level) p off cs = Some its"
  shows "length (items_bytes its) \<le> length cs * (2 * PART)"
  using assms(2)
proof (induction cs arbitrary: p off its)
  case (Cons c cs)
  from Cons.prems obtain f jts where f: "frame_of env level c = Some f"
    and jts: "body_items (frame_of env level)
      (p + length (items_bytes (frame_items (room p) off c f))) (off + length c) cs = Some jts"
    and its: "its = frame_items (room p) off c f @ jts"
    by (auto simp: Let_def split: option.splits)
  have "length (items_bytes (frame_items (room p) off c f)) \<le> 2 * PART"
    using length_frame_items[of p off c f] frames_fitD[OF assms(1) f] by linarith
  with Cons.IH[OF jts] its show ?case by simp
qed simp

lemma length_file_tail: "length (file_tail p crc csize usize) \<le> PART + 64"
proof -
  have "room p - 8 \<le> PART" using room_bounds(2)[of p] by linarith
  then show ?thesis by (auto simp: file_tail_def trailer_items_def)
qed

lemma length_file_record:
  assumes env: "frames_fit env" and w: "archive_inv w" and h: "header_ok lfh tail 0 True"
    and its: "items_of env w lfh tail d = Some its"
  shows "length (file_record env w lfh tail d its) \<le> (length (chunks d) + 2) * (2 * PART)"
proof -
  have "length (lead_in env w lfh tail) \<le> 131072"
    using length_header_entry[of w lfh tail "[]" True "env_time env"] w h by simp
  moreover have "length (items_bytes its) \<le> length (chunks d) * (2 * PART)"
    using body_items_length[OF env] its by (simp add: file_items_def)
  ultimately show ?thesis
    using length_file_tail[of "length (stream w) + length (lead_in env w lfh tail) + length (items_bytes its)"
        "file_crc env d" "of_nat (length (items_bytes its))" "length d"]
    by (simp add: file_record_def file_body_def)
qed

lemma add_file_record:
  assumes env: "frames_fit env" and w: "archive_inv w"
    and bud: "budget (length (stream w)) (Suc (length (chunks (readable (in_rewind inp)))))"
    and h: "header_ok lfh tail 0 True"
    and run: "burst_writer_add_file env inp lfh tail unix_mode uid gid w = (0, w')"
  defines "e0 \<equiv> file_entry_start lfh tail
     (length (stream w) + length (padding_for (env_time env) w tail 0 True)) unix_mode uid gid"
  shows "\<exists>rest e. added w (lead_in env w lfh tail @ rest) e w' \<and> num_files w' \<le> files_capacity w'
      \<and> entry_start (stream w @ lead_in env w lfh tail @ rest)
      \<and> (\<exists>crc c u. e = e0 \<or> e = file_entry_end e0 crc c u)
      \<and> length (lead_in env w lfh tail @ rest) \<le> entry_cost (Some inp) * (2 * PART)
      \<and> (fault_free w \<longrightarrow> fault_free w')"
proof (cases "is_header_only lfh")
  case True
  have "adds (burst_writer_add_file env inp lfh tail unix_mode uid gid) w (lead_in env w lfh tail) e0"
    unfolding e0_def
    using w lead_in_budget(2)[OF w h bud] h True by (rule burst_writer_add_empty_file_adds)
  moreover have "length (lead_in env w lfh tail) \<le> entry_cost (Some inp) * (2 * PART)"
    using length_header_entry[of w lfh tail "[]" True "env_time env"] w h by (simp add: entry_cost_def)
  ultimately show ?thesis
    using run header_starts_entry[OF w h] by (intro exI[of _ "[]"]) (auto simp: adds_def)
next
  case False
  let ?d = "readable (in_rewind inp)"
  have "in_seekable inp" using add_file_seekable[OF run] False by simp
  from burst_writer_add_file_refines(1)[OF env w h False this bud run]
  obtain its where its: "items_of env w lfh tail ?d = Some its"
    and "added w (file_record env w lfh tail ?d its)
      (file_record_entry env w lfh tail unix_mode uid gid ?d its) w'"
    and "num_files w' \<le> files_capacity w'" "fault_free w \<longrightarrow> fault_free w'" by blast
  moreover have "entry_start (stream w @ file_record env w lfh tail ?d its)"
    using file_record_entry_start[OF env w h its] .
  moreover have "length (file_record env w lfh tail ?d its) \<le> entry_cost (Some inp) * (2 * PART)"
    using length_file_record[OF env w h its] by (simp add: entry_cost_def)
  ultimately show ?thesis
    unfolding file_record_def file_record_entry_def file_entry_done_def e0_def[symmetric] by blast
qed

lemma add_file_entry:
  assumes env: "frames_fit env" and w: "archive_inv w" and name: "0 \<notin> set name" "length name \<le> 65000"
    and bud: "budget (length (stream w)) (Suc (length (chunks (readable (in_rewind inp)))))"
    and h: "header_ok lfh tail 0 True" "tail = name @ extra" "lh_filename_length lfh = of_nat (length name)"
    and run: "burst_writer_add_file env inp lfh tail (st_mode st) (st_uid st) (st_gid st) w = (0, w')"
  shows "entry_added name st (entry_cost (Some inp)) w w'" and "fault_free w \<Longrightarrow> fault_free w'"
proof -
  let ?pad = "padding_for (env_time env) w tail 0 True"
  let ?e0 = "file_entry_start lfh tail (length (stream w) + length ?pad) (st_mode st) (st_uid st) (st_gid st)"
  from add_file_record[OF env w bud h(1) run]
  obtain rest e where r: "added w (lead_in env w lfh tail @ rest) e w'" "num_files w' \<le> files_capacity w'"
      "entry_start (stream w @ lead_in env w lfh tail @ rest)"
      "length (lead_in env w lfh tail @ rest) \<le> entry_cost (Some inp) * (2 * PART)"
    and ff: "fault_free w \<longrightarrow> fault_free w'"
    and e: "\<exists>crc c u. e = ?e0 \<or> e = file_entry_end ?e0 crc c u" by blast
  have ad: "added w (?pad @ local_header_bytes lfh @ name @ extra @ rest) e w'" "num_files w' \<le> files_capacity w'"
    and es: "entry_start (stream w @ ?pad @ local_header_bytes lfh @ name @ extra @ rest)"
    and len: "length (?pad @ local_header_bytes lfh @ name @ extra @ rest) \<le> entry_cost (Some inp) * (2 * PART)"
    using r h(2) by simp_all
  from added_entry_for[OF w ad es len] show "entry_added name st (entry_cost (Some inp)) w w'"
    using h named_entry_name[OF name h(3), of extra] e by (auto simp: entry_fields)
  show "fault_free w \<Longrightarrow> fault_free w'" using ff by simp
qed

lemma entry_added_after_alloc:
  assumes "c_alloc w = (True, w1)" and "entry_added name st k w1 w'" and "k \<le> n"
  shows "entry_added name st n w w'"
proof -
  have "k * (2 * PART) \<le> n * (2 * PART)" using assms(3) by (rule mult_le_mono1)
  with assms(1,2) c_alloc_stream[OF assms(1)] c_alloc_view[OF assms(1)] show ?thesis
    by (fastforce simp: entry_added_def keep_def intro: order.trans)
qed

lemma process_entry_added:
  assumes env: "frames_fit env" and inv: "archive_inv w" and fits: "entry_fits opened name target w"
    and name: "0 \<notin> set name"
    and run: "process_entry env opened name target st is_dir w = (1, w')"
  shows "entry_added name st (entry_cost opened) w w' \<and> (fault_free w \<longrightarrow> fault_free w')"
proof -
  have len: "length name \<le> 65000" "length name + length target \<le> 65000"
    using fits by (simp_all add: entry_fits_def)
  have base: "archive_inv w1 \<and> stream w1 = stream w \<and> length (stream w1) < 2 ^ 62
      \<and> (fault_free w \<longrightarrow> fault_free w1)"
    if "c_alloc w = (True, w1)" for w1
    using c_alloc_inv[OF that inv] c_alloc_stream[OF that] entry_fits_length[OF fits] c_alloc_view[OF that]
    by simp
  have cost: "1 \<le> entry_cost opened" by (simp add: entry_cost_def)
  note lift = entry_added_after_alloc[where n = "entry_cost opened"]
  consider (dir) "is_dir" | (link) "\<not> is_dir" "S_ISLNK (st_mode st)"
    | (regular) inp where "\<not> is_dir" "\<not> S_ISLNK (st_mode st)" "opened = Some inp"
    using run by (cases opened) (auto simp: process_entry_def split: if_splits)
  then show ?thesis
  proof cases
    case dir
    with run obtain lfh tail w1
      where b: "build_directory_local_file_header env name (st_uid st) (st_gid st) (st_mtime st) w
        = (Some (lfh, tail), w1)"
        and a: "burst_writer_add_directory env lfh tail (st_mode st) (st_uid st) (st_gid st) w1 = (0, w')"
      by (auto simp: process_entry_def dest!: success_of_one split: prod.splits option.splits)
    note h = build_directory_header_ok[OF b len(1)]
    from add_directory_entry[OF _ _ name len(1) h(1,3,4) a] base[OF h(2)] lift[OF h(2) _ cost]
    show ?thesis by blast
  next
    case link
    with run obtain lfh tail w1
      where b: "build_symlink_local_file_header env name target (st_uid st) (st_gid st) w
        = (Some (lfh, tail), w1)"
        and a: "burst_writer_add_symlink env lfh tail target (st_mode st) (st_uid st) (st_gid st) w1 = (0, w')"
      by (auto simp: process_entry_def dest!: success_of_one split: prod.splits option.splits)
    note h = build_symlink_header_ok[OF b len(2)]
    from add_symlink_entry[OF _ _ name len(1) h(1,3,4) a] base[OF h(2)] lift[OF h(2) _ cost]
    show ?thesis by blast
  next
    case (regular inp)
    with run obtain lfh tail w1
      where b: "build_local_file_header env name (st_size st = 0) (st_uid st) (st_gid st) w
        = (Some (lfh, tail), w1)"
        and a: "burst_writer_add_file env inp lfh tail (st_mode st) (st_uid st) (st_gid st) w1 = (0, w')"
      by (auto simp: process_entry_def dest!: success_of_one split: prod.splits option.splits)
    note h = build_local_file_header_ok[OF b len(1)]
    have "budget (length (stream w1)) (Suc (length (chunks (readable (in_rewind inp)))))"
      using fits regular base[OF h(3)] by (simp add: entry_fits_def)
    from add_file_entry[OF env _ name len(1) this h(1,4,5) a] base[OF h(3)] lift[OF h(3)] regular(3)
    show ?thesis by blast
  qed
qed

text \<open>What the entry itself must satisfy for \<open>process_entry\<close> to succeed in a quiet environment: a
  directory's name ends in a slash, a link has a target, a file opens, and if it has data it can be
  read and compressed.\<close>

definition entry_ready ::
  "writer_env \<Rightarrow> int \<Rightarrow> in_file option \<Rightarrow> bytes \<Rightarrow> bytes \<Rightarrow> file_stat \<Rightarrow> bool \<Rightarrow> bool" where
  "entry_ready env level opened name target st is_dir \<longleftrightarrow>
     (if is_dir then name \<noteq> [] \<and> last name = 0x2f
      else if S_ISLNK (st_mode st) then target \<noteq> []
      else (case opened of None \<Rightarrow> False
            | Some inp \<Rightarrow> st_size st = 0 \<or>
                in_seekable inp \<and> \<not> read_fails (in_rewind inp) \<and>
                (\<forall>c \<in> set (chunks (readable (in_rewind inp))). frame_of env level c \<noteq> None)))"

lemma add_file_live:
  assumes env: "frames_fit env" and w: "archive_inv w" "fault_free w"
    and bud: "budget (length (stream w)) (Suc (length (chunks (readable (in_rewind inp)))))"
    and h: "header_ok lfh tail 0 True"
    and data: "is_header_only lfh \<or> in_seekable inp \<and> \<not> read_fails (in_rewind inp) \<and>
      (\<forall>c \<in> set (chunks (readable (in_rewind inp))). frame_of env (compression_level w) c \<noteq> None)"
  shows "fst (burst_writer_add_file env inp lfh tail unix_mode uid gid w) = 0"
proof (cases "is_header_only lfh")
  case True
  from burst_writer_add_empty_file_adds[OF w(1) lead_in_budget(2)[OF w(1) h bud] h True] w(2)
  show ?thesis by (simp add: adds_def)
next
  case False
  with data have "items_of env w lfh tail (readable (in_rewind inp)) \<noteq> None"
    using body_items_total by (fastforce simp: file_items_def)
  with burst_writer_add_file_refines(2)[OF env w(1) h False _ bud w(2)] data False
  show ?thesis by blast
qed

lemma process_entry_live:
  assumes env: "frames_fit env" and inv: "archive_inv w" and fits: "entry_fits opened name target w"
    and ff: "fault_free w" and ready: "entry_ready env (compression_level w) opened name target st is_dir"
  shows "fst (process_entry env opened name target st is_dir w) = 1"
proof -
  have len: "length name \<le> 65000" "length name + length target \<le> 65000"
    using fits by (simp_all add: entry_fits_def)
  obtain w1 where al: "c_alloc w = (True, w1)"
    using ff by (cases "c_alloc w") (auto simp: c_alloc_def fault_free_def)
  have base: "archive_inv w1" "stream w1 = stream w" "length (stream w1) < 2 ^ 62"
      "compression_level w1 = compression_level w" "fault_free w1"
    using c_alloc_inv[OF al inv] c_alloc_stream[OF al] entry_fits_length[OF fits] c_alloc_view[OF al] ff
    by (simp_all add: keep_def)
  consider (dir) "is_dir" "name \<noteq> []" "last name = 0x2f"
    | (link) "\<not> is_dir" "S_ISLNK (st_mode st)" "target \<noteq> []"
    | (regular) inp where "\<not> is_dir" "\<not> S_ISLNK (st_mode st)" "opened = Some inp"
        "st_size st = 0 \<or> in_seekable inp \<and> \<not> read_fails (in_rewind inp) \<and>
         (\<forall>c \<in> set (chunks (readable (in_rewind inp))). frame_of env (compression_level w) c \<noteq> None)"
    using ready by (auto simp: entry_ready_def split: if_splits option.splits)
  then show ?thesis
  proof cases
    case dir
    then obtain lfh tail
      where b: "build_directory_local_file_header env name (st_uid st) (st_gid st) (st_mtime st) w
        = (Some (lfh, tail), w1)"
      by (cases "dos_datetime_from_time_t (env_time env) (st_mtime st)") (auto simp: build_directory_local_file_header_def Let_def al)
    note h = build_directory_header_ok[OF b len(1)]
    from burst_writer_add_directory_adds[OF base(1,3) h(1,5)] base(5) dir b
    show ?thesis by (simp add: process_entry_def success_of_def adds_def)
  next
    case link
    then obtain lfh tail
      where b: "build_symlink_local_file_header env name target (st_uid st) (st_gid st) w
        = (Some (lfh, tail), w1)"
      by (cases "dos_datetime_from_time_t (env_time env) (time_now (env_time env))") (auto simp: build_symlink_local_file_header_def Let_def al)
    note h = build_symlink_header_ok[OF b len(2)]
    from burst_writer_add_symlink_adds[OF base(1,3) h(1) link(3)] base(5) link b
    show ?thesis by (simp add: process_entry_def success_of_def adds_def)
  next
    case (regular inp)
    then obtain lfh tail
      where b: "build_local_file_header env name (st_size st = 0) (st_uid st) (st_gid st) w
        = (Some (lfh, tail), w1)"
      by (cases "dos_datetime_from_time_t (env_time env) (time_now (env_time env))") (auto simp: build_local_file_header_def Let_def al)
    note h = build_local_file_header_ok[OF b len(1)]
    have "budget (length (stream w1)) (Suc (length (chunks (readable (in_rewind inp)))))"
      using fits regular base(2) by (simp add: entry_fits_def)
    from add_file_live[OF env base(1,5) this h(1)] regular h(2) base(4) b
    show ?thesis by (simp add: process_entry_def success_of_def)
  qed
qed

text \<open>C17: whenever \<open>process_entry\<close> reports success, exactly one entry was added; it has the name and
  the attributes of the file and points at a local file header with this name; and the archive is
  again ready for the next entry. So the headers that are built satisfy what the writer relies on,
  for files, empty files, symbolic links and directories.\<close>

theorem process_entry_keeps_archive:
  assumes env: "frames_fit env" and inv: "archive_inv w" and fits: "entry_fits opened name target w"
    and name: "0 \<notin> set name"
    and run: "process_entry env opened name target st is_dir w = (1, w')"
  shows "archive_inv w' \<and> (\<exists>e. files w' = files w @ [e] \<and> entry_for name st (stream w') e)"
  using process_entry_added[OF assms] by (auto simp: entry_added_def)

definition demo_stat :: file_stat where
  "demo_stat = \<lparr>st_mode = 0x41ED, st_uid = 1000, st_gid = 100, st_size = 0, st_mtime = 0\<rparr>"

lemma demo_process_directory:
  "fst (process_entry demo_env None [97, 0x2f] [] demo_stat True demo_writer) = 1"
proof -
  have a: "c_alloc demo_writer = (True, demo_writer)" by (simp add: c_alloc_def demo_writer_def)
  obtain lfh tail where b: "build_directory_local_file_header demo_env [97, 0x2f] 1000 100 0 demo_writer
      = (Some (lfh, tail), demo_writer)"
    by (cases "dos_datetime_from_time_t (env_time demo_env) 0")
       (auto simp: build_directory_local_file_header_def Let_def a)
  have l: "length [97 :: u8, 0x2f] \<le> 65000" by simp
  note h = build_directory_header_ok[OF b l]
  have "adds (burst_writer_add_directory demo_env lfh tail 0x41ED 1000 100) demo_writer
      (padding_for (env_time demo_env) demo_writer tail 0 False @ local_header_bytes lfh @ tail)
      (directory_entry lfh tail (length (stream demo_writer)
         + length (padding_for (env_time demo_env) demo_writer tail 0 False)) 0x41ED 1000 100)"
    by (rule burst_writer_add_directory_adds[OF demo_inv _ h(1,5)]) (simp add: demo_stream)
  then have "fst (burst_writer_add_directory demo_env lfh tail 0x41ED 1000 100 demo_writer) = 0"
    using demo_fault_free by (simp add: adds_def)
  then show ?thesis by (simp add: process_entry_def demo_stat_def b success_of_def)
qed

theorem process_entry_keeps_archive_witness:
  "\<exists>w' e. process_entry demo_env None [97, 0x2f] [] demo_stat True demo_writer = (1, w') \<and> archive_inv w'
     \<and> files w' = [e] \<and> entry_for [97, 0x2f] demo_stat (stream w') e"
proof -
  obtain w' where w': "process_entry demo_env None [97, 0x2f] [] demo_stat True demo_writer = (1, w')"
    using demo_process_directory by (metis prod.collapse)
  have fits: "entry_fits None [97, 0x2f] [] demo_writer"
    by (simp add: entry_fits_def budget_def demo_stream)
  have "files demo_writer = []" by (simp add: demo_writer_def)
  with process_entry_keeps_archive[OF demo_frames_fit demo_inv fits _ w'] w' show ?thesis by auto
qed

end
