(* ===== verification/Writer_Main.thy ===== *)
theory Writer_Main
  imports Entry_Processor
begin

text \<open>
  The writer command (\<open>src/writer/main.c\<close>): the list of files, the directory walk, individual
  files, and the run of the command from its options to the finished archive. What
  \<open>lstat\<close>, \<open>opendir\<close> with \<open>readdir\<close>, and \<open>readlink\<close> answer for a path is a tree of \<open>fs_node\<close>s, \<open>getopt_long\<close> is the
  list of options it returns, and \<open>fopen\<close> of an input is a function. The names that \<open>snprintf\<close> builds
  are not truncated: the buffers are allocated with their length.
\<close>

section \<open>The list of files\<close>

definition S_ISDIR :: "u32 \<Rightarrow> bool" where
  "S_ISDIR mode \<longleftrightarrow> mode AND 0xF000 = 0x4000"

definition S_ISREG :: "u32 \<Rightarrow> bool" where
  "S_ISREG mode \<longleftrightarrow> mode AND 0xF000 = 0x8000"

record list_item =
  it_path :: bytes
  it_name :: bytes
  it_target :: "bytes option"
  it_stat :: file_stat
  it_is_directory :: bool

text \<open>The five arrays of the C struct as one list. \<open>dangling\<close>: one of them was moved by \<open>realloc\<close>,
  but the struct still points at its old place.\<close>

record file_list =
  items :: "list_item list"
  capacity :: nat
  list_allocs :: "bool list"
  dangling :: bool

definition file_list_create :: "bool list \<Rightarrow> file_list option" where
  "file_list_create plan =
     (if False \<in> set (take 6 plan) then None
      else Some \<lparr>items = [], capacity = 64, list_allocs = drop 6 plan, dangling = False\<rparr>)"

definition list_alloc :: "file_list \<Rightarrow> bool \<times> file_list" where
  "list_alloc l = (fst (next_alloc (list_allocs l)), l\<lparr>list_allocs := snd (next_alloc (list_allocs l))\<rparr>)"

definition file_list_grow :: "file_list \<Rightarrow> int \<times> file_list" where
  "file_list_grow l =
     (if length (items l) \<ge> capacity l then
        let got = granted 5 (list_allocs l);
            l1 = l\<lparr>list_allocs := drop 5 (list_allocs l)\<rparr>
        in if False \<in> set got then (-1, l1\<lparr>dangling := dangling l \<or> True \<in> set got\<rparr>)
           else (0, l1\<lparr>capacity := capacity l * 2\<rparr>)
      else (0, l))"

definition file_list_append :: "list_item \<Rightarrow> file_list \<Rightarrow> int \<times> file_list" where
  "file_list_append it l =
     (let n = (case it_target it of None \<Rightarrow> 2 | Some _ \<Rightarrow> 3);
          l1 = l\<lparr>list_allocs := drop n (list_allocs l)\<rparr>
      in if False \<in> set (granted n (list_allocs l)) then (-1, l1)
         else (0, l1\<lparr>items := items l @ [it]\<rparr>))"

definition file_list_add ::
  "bytes \<Rightarrow> bytes \<Rightarrow> file_stat \<Rightarrow> bytes option \<Rightarrow> bool \<Rightarrow> file_list \<Rightarrow> int \<times> file_list" where
  "file_list_add path name st target is_dir =
     then_ok file_list_grow (file_list_append
       \<lparr>it_path = path, it_name = name, it_target = target, it_stat = st, it_is_directory = is_dir\<rparr>)"

text \<open>\<open>file_list_destroy\<close> reads and frees the arrays, so it needs valid pointers.\<close>

definition file_list_destroy :: "file_list \<Rightarrow> unit option" where
  "file_list_destroy l = (if dangling l then None else Some ())"

section \<open>Walking a directory\<close>

text \<open>What the file system answers for a path: \<open>lstat\<close>, the names and nodes that \<open>opendir\<close> and \<open>readdir\<close>
  deliver, and \<open>readlink\<close>; \<open>None\<close> when the call fails.\<close>

datatype fs_node =
  Node (lstat: "file_stat option") (opendir: "(bytes \<times> fs_node) list option") (readlink: "bytes option")

definition dot_entry :: "bytes \<Rightarrow> bool" where
  "dot_entry d_name \<longleftrightarrow> d_name = [0x2e] \<or> d_name = [0x2e, 0x2e]"

text \<open>\<open>target_buf\<close> holds \<open>PATH_MAX - 1\<close> bytes and a NUL.\<close>

definition target_buf :: "bytes \<Rightarrow> bytes" where
  "target_buf target = strndup target 4095"

definition join_path :: "bytes \<Rightarrow> bytes \<Rightarrow> bytes" where
  "join_path a b = a @ 0x2f # b"

fun collect_files_recursive :: "bytes \<Rightarrow> bytes \<Rightarrow> fs_node \<Rightarrow> file_list \<Rightarrow> int \<times> file_list"
and read_entries :: "bytes \<Rightarrow> bytes \<Rightarrow> (bytes \<times> fs_node) list \<Rightarrow> file_list \<Rightarrow> int \<times> file_list" where
  "collect_files_recursive current_dir prefix (Node st listing link) l =
     (case listing of None \<Rightarrow> (-1, l) | Some entries \<Rightarrow> read_entries current_dir prefix entries l)"
| "read_entries current_dir prefix [] l = (0, l)"
| "read_entries current_dir prefix ((d_name, node) # entries) l =
     (if dot_entry d_name then read_entries current_dir prefix entries l
      else case list_alloc l of (got_path, l1) \<Rightarrow>
        if \<not> got_path then (-1, l1)
        else let full_path = join_path current_dir d_name
             in case lstat node of
                  None \<Rightarrow> read_entries current_dir prefix entries l1
                | Some st \<Rightarrow>
                    (case list_alloc l1 of (got_name, l2) \<Rightarrow>
                       if \<not> got_name then (-1, l2)
                       else let archive_name = (if prefix \<noteq> [] then join_path prefix d_name else d_name)
                            in if S_ISDIR (st_mode st) then
                                 (case list_alloc l2 of (got_dir, l3) \<Rightarrow>
                                    if \<not> got_dir then (-1, l3)
                                    else then_ok (file_list_add full_path (join_path archive_name []) st None True)
                                           (then_ok (\<lambda>k. collect_files_recursive full_path archive_name node k)
                                              (\<lambda>k. read_entries current_dir prefix entries k)) l3)
                               else if S_ISREG (st_mode st) then
                                 then_ok (file_list_add full_path archive_name st None False)
                                   (\<lambda>k. read_entries current_dir prefix entries k) l2
                               else if S_ISLNK (st_mode st) then
                                 (case readlink node of
                                    None \<Rightarrow> read_entries current_dir prefix entries l2
                                  | Some target \<Rightarrow>
                                      then_ok (file_list_add full_path archive_name st (Some (target_buf target)) False)
                                        (\<lambda>k. read_entries current_dir prefix entries k) l2)
                               else read_entries current_dir prefix entries l2))"

section \<open>Individual files\<close>

text \<open>\<open>strrchr(input_path, '/')\<close>, and what follows the slash.\<close>

definition basename :: "bytes \<Rightarrow> bytes" where
  "basename path = rev (takeWhile (\<lambda>c. c \<noteq> 0x2f) (rev path))"

text \<open>-1 stands for the exits of the loop with status 1.\<close>

fun collect_inputs :: "(bytes \<times> fs_node) list \<Rightarrow> file_list \<Rightarrow> int \<times> file_list" where
  "collect_inputs [] l = (0, l)"
| "collect_inputs ((input_path, node) # inputs) l =
     (case lstat node of
        None \<Rightarrow> (-1, l)
      | Some st \<Rightarrow>
          if S_ISDIR (st_mode st) then (-1, l)
          else if S_ISLNK (st_mode st) then
            (case readlink node of
               None \<Rightarrow> (-1, l)
             | Some target \<Rightarrow>
                 then_ok (file_list_add input_path (basename input_path) st (Some (target_buf target)) False)
                   (\<lambda>k. collect_inputs inputs k) l)
          else if S_ISREG (st_mode st) then
            then_ok (file_list_add input_path (basename input_path) st None False)
              (\<lambda>k. collect_inputs inputs k) l
          else collect_inputs inputs l)"

text \<open>The choice between the two modes; \<open>first_is_dir\<close> is what \<open>is_directory\<close> (a \<open>stat\<close>, which follows
  links) answers for the first input.\<close>

definition collect_files :: "bool \<Rightarrow> (bytes \<times> fs_node) list \<Rightarrow> file_list \<Rightarrow> int \<times> file_list" where
  "collect_files first_is_dir inputs l =
     (if first_is_dir then
        (case inputs of
           [(first_input, node)] \<Rightarrow> collect_files_recursive first_input [] node l
         | _ \<Rightarrow> (-1, l))
      else collect_inputs inputs l)"

section \<open>The command\<close>

text \<open>What \<open>getopt_long\<close> returns, one option at a time; the level is the result of \<open>atoi\<close>.\<close>

datatype cli_option = Opt_output bytes | Opt_level int | Opt_help | Opt_unknown

fun parse_options :: "cli_option list \<Rightarrow> bytes option \<Rightarrow> int \<Rightarrow> int + bytes option \<times> int" where
  "parse_options [] output_path level = Inr (output_path, level)"
| "parse_options (Opt_output path # opts) output_path level = parse_options opts (Some path) level"
| "parse_options (Opt_level n # opts) output_path level =
     (if n < -15 \<or> n > 22 then Inl 1 else parse_options opts output_path n)"
| "parse_options (Opt_help # opts) output_path level = Inl 0"
| "parse_options (Opt_unknown # opts) output_path level = Inl 1"

fun process_entries ::
  "writer_env \<Rightarrow> (bytes \<Rightarrow> in_file option) \<Rightarrow> list_item list \<Rightarrow> int \<Rightarrow> burst_writer \<Rightarrow> int \<times> burst_writer" where
  "process_entries env fopen [] num_added w = (num_added, w)"
| "process_entries env fopen (it # its) num_added w =
     (case process_entry env (fopen (it_path it)) (it_name it) (case it_target it of None \<Rightarrow> [] | Some t \<Rightarrow> t)
             (it_stat it) (it_is_directory it) w of
        (success, w1) \<Rightarrow>
          process_entries env fopen its (if success \<noteq> 0 then num_added + 1 else num_added) w1)"

text \<open>The exit status and the writer, if one was created; \<open>Undefined\<close> when the list is freed through a
  dangling pointer.\<close>

datatype main_result = Exit int "burst_writer option" | Undefined

definition quit :: "file_list \<Rightarrow> int \<Rightarrow> burst_writer option \<Rightarrow> main_result" where
  "quit l status w = (case file_list_destroy l of None \<Rightarrow> Undefined | Some _ \<Rightarrow> Exit status w)"

text \<open>From the list to the archive. \<open>out\<close> is the result of \<open>fopen(output_path, "wb")\<close>.\<close>

definition write_archive ::
  "writer_env \<Rightarrow> (bytes \<Rightarrow> in_file option) \<Rightarrow> int \<Rightarrow> out_file option \<Rightarrow> file_list \<Rightarrow> main_result" where
  "write_archive env fopen level out l =
     (case out of
        None \<Rightarrow> quit l 1 None
      | Some output \<Rightarrow>
          (case burst_writer_create output level (list_allocs l) of
             None \<Rightarrow> quit l 1 None
           | Some w \<Rightarrow>
               (case process_entries env fopen (items l) 0 w of
                  (num_added, w1) \<Rightarrow>
                    if num_added = 0 then quit l 1 (Some w1)
                    else (case burst_writer_finalize w1 of
                            (rc, w2) \<Rightarrow> if rc \<noteq> 0 then quit l 1 (Some w2) else quit l 0 (Some w2)))))"

definition writer_main ::
  "writer_env \<Rightarrow> (bytes \<Rightarrow> in_file option) \<Rightarrow> cli_option list \<Rightarrow> bool \<Rightarrow> (bytes \<times> fs_node) list
     \<Rightarrow> out_file option \<Rightarrow> bool list \<Rightarrow> main_result" where
  "writer_main env fopen opts first_is_dir inputs out plan =
     (case parse_options opts None 3 of
        Inl status \<Rightarrow> Exit status None
      | Inr (None, level) \<Rightarrow> Exit 1 None
      | Inr (Some output_path, level) \<Rightarrow>
          if inputs = [] then Exit 1 None
          else (case file_list_create plan of
                  None \<Rightarrow> Exit 1 None
                | Some l0 \<Rightarrow>
                    (case collect_files first_is_dir inputs l0 of
                       (rc, l) \<Rightarrow>
                         if rc \<noteq> 0 \<or> items l = [] then quit l 1 None
                         else write_archive env fopen level out l)))"

section \<open>What is collected\<close>

text \<open>The tree in pre-order, with the paths relative to the root: directories with a slash, regular
  files and links that can be read.\<close>

fun node_items :: "bytes \<Rightarrow> bytes \<Rightarrow> fs_node \<Rightarrow> list_item list"
and tree_items :: "bytes \<Rightarrow> bytes \<Rightarrow> (bytes \<times> fs_node) list \<Rightarrow> list_item list" where
  "node_items path name (Node None listing link) = []"
| "node_items path name (Node (Some st) listing link) =
     (if S_ISDIR (st_mode st) then
        \<lparr>it_path = path, it_name = join_path name [], it_target = None, it_stat = st, it_is_directory = True\<rparr> #
        (case listing of None \<Rightarrow> [] | Some es \<Rightarrow> tree_items path name es)
      else if S_ISREG (st_mode st) then
        [\<lparr>it_path = path, it_name = name, it_target = None, it_stat = st, it_is_directory = False\<rparr>]
      else if S_ISLNK (st_mode st) then
        (case link of
           None \<Rightarrow> []
         | Some t \<Rightarrow> [\<lparr>it_path = path, it_name = name, it_target = Some (target_buf t), it_stat = st,
                       it_is_directory = False\<rparr>])
      else [])"
| "tree_items dir prefix [] = []"
| "tree_items dir prefix ((d_name, node) # es) =
     (if dot_entry d_name then []
      else node_items (join_path dir d_name) (if prefix \<noteq> [] then join_path prefix d_name else d_name) node) @
     tree_items dir prefix es"

text \<open>Every directory below can be opened.\<close>

fun node_opens :: "fs_node \<Rightarrow> bool" and tree_opens :: "(bytes \<times> fs_node) list \<Rightarrow> bool" where
  "node_opens (Node None listing link) = True"
| "node_opens (Node (Some st) listing link) =
     (S_ISDIR (st_mode st) \<longrightarrow> (case listing of None \<Rightarrow> False | Some es \<Rightarrow> tree_opens es))"
| "tree_opens [] = True"
| "tree_opens ((d_name, node) # es) = ((dot_entry d_name \<or> node_opens node) \<and> tree_opens es)"

text \<open>The result of a step that adds \<open>its\<close> to the list: it does so whenever it returns 0, and when no
  allocation fails it returns 0 exactly if \<open>ok\<close>.\<close>

definition collected :: "file_list \<Rightarrow> list_item list \<Rightarrow> bool \<Rightarrow> int \<times> file_list \<Rightarrow> bool" where
  "collected l its ok res \<longleftrightarrow>
     (case res of (rc, l') \<Rightarrow>
        (rc = 0 \<longrightarrow> items l' = items l @ its \<and> dangling l' = dangling l) \<and>
        (list_allocs l = [] \<longrightarrow> list_allocs l' = [] \<and> dangling l' = dangling l \<and> (rc = 0) = ok))"

lemma collected_nothing: "collected l [] True (0, l)"
  by (simp add: collected_def)

lemma collected_failed: "collected l its False (-1, l)"
  by (simp add: collected_def)

lemma collected_add:
  "collected l [\<lparr>it_path = path, it_name = name, it_target = target, it_stat = st, it_is_directory = d\<rparr>] True
     (file_list_add path name st target d l)"
  by (auto simp: collected_def file_list_add_def file_list_grow_def file_list_append_def then_ok_def Let_def
      split: option.splits if_splits)

lemma collected_then:
  assumes "collected l a p (f l)" and "\<And>l1. f l = (0, l1) \<Longrightarrow> collected l1 b q (g l1)"
  shows "collected l (a @ b) (p \<and> q) (then_ok f g l)"
  using assms by (cases "f l"; cases "fst (f l) = 0")
    (fastforce simp: collected_def then_ok_def split: prod.splits)+

lemma collected_alloc:
  assumes "list_alloc l = (got, l1)" and "got \<Longrightarrow> collected l1 its ok res"
  shows "collected l its ok (if \<not> got then (-1, l1) else res)"
  using assms
  by (cases "list_allocs l") (auto simp: collected_def list_alloc_def split: prod.splits)

definition listing_items :: "bytes \<Rightarrow> bytes \<Rightarrow> fs_node \<Rightarrow> list_item list" where
  "listing_items dir prefix node = (case opendir node of None \<Rightarrow> [] | Some es \<Rightarrow> tree_items dir prefix es)"

definition listing_opens :: "fs_node \<Rightarrow> bool" where
  "listing_opens node = (case opendir node of None \<Rightarrow> False | Some es \<Rightarrow> tree_opens es)"

lemma node_items_lstat:
  "node_items path name node =
     (case lstat node of None \<Rightarrow> [] | Some st \<Rightarrow>
        if S_ISDIR (st_mode st) then
          \<lparr>it_path = path, it_name = join_path name [], it_target = None, it_stat = st, it_is_directory = True\<rparr> #
          listing_items path name node
        else if S_ISREG (st_mode st) then
          [\<lparr>it_path = path, it_name = name, it_target = None, it_stat = st, it_is_directory = False\<rparr>]
        else if S_ISLNK (st_mode st) then
          (case readlink node of None \<Rightarrow> [] | Some t \<Rightarrow>
             [\<lparr>it_path = path, it_name = name, it_target = Some (target_buf t), it_stat = st,
               it_is_directory = False\<rparr>])
        else [])"
  by (cases node; cases "lstat node") (auto simp: listing_items_def split: option.splits)

lemma node_opens_lstat:
  "node_opens node =
     (case lstat node of None \<Rightarrow> True | Some st \<Rightarrow> S_ISDIR (st_mode st) \<longrightarrow> listing_opens node)"
  by (cases node; cases "lstat node") (auto simp: listing_opens_def split: option.splits)

lemmas collected_intros = collected_nothing collected_failed collected_add

lemma collected_add_then:
  assumes "\<And>l1. collected l1 its ok (g l1)"
  shows "collected l (\<lparr>it_path = path, it_name = name, it_target = target, it_stat = st,
      it_is_directory = d\<rparr> # its) ok (then_ok (file_list_add path name st target d) g l)"
  using collected_then[of l _ True "file_list_add path name st target d" its ok g, OF collected_add] assms
  by simp

lemma collected_entry:
  assumes walk: "\<And>dir prefix l. collected l (listing_items dir prefix node) (listing_opens node)
      (collect_files_recursive dir prefix node l)"
    and rest: "\<And>l. collected l its ok (read_entries dir prefix es l)"
    and tree: "tree_items dir prefix es = its" "tree_opens es = ok"
  shows "collected l (tree_items dir prefix ((d_name, node) # es)) (tree_opens ((d_name, node) # es))
           (read_entries dir prefix ((d_name, node) # es) l)"
proof (cases "dot_entry d_name")
  case True
  with rest tree show ?thesis by simp
next
  case False
  let ?path = "join_path dir d_name" and ?name = "if prefix \<noteq> [] then join_path prefix d_name else d_name"
  obtain g1 l1 where a1: "list_alloc l = (g1, l1)" by fastforce
  obtain g2 l2 where a2: "list_alloc l1 = (g2, l2)" by fastforce
  obtain g3 l3 where a3: "list_alloc l2 = (g3, l3)" by fastforce
  have leaf: "collected l2 (\<lparr>it_path = path, it_name = name, it_target = target, it_stat = st,
        it_is_directory = d\<rparr> # its) ok
      (then_ok (file_list_add path name st target d) (\<lambda>k. read_entries dir prefix es k) l2)"
    for path name st target d
    by (rule collected_add_then) (rule rest)
  have both: "collected l1 (listing_items ?path ?name node @ its) (listing_opens node \<and> ok)
      (then_ok (\<lambda>k. collect_files_recursive ?path ?name node k) (\<lambda>k. read_entries dir prefix es k) l1)" for l1
    by (rule collected_then) (rule walk, rule rest)
  have sub: "collected l2 (\<lparr>it_path = ?path, it_name = join_path ?name [], it_target = None, it_stat = st,
        it_is_directory = True\<rparr> # listing_items ?path ?name node @ its) (listing_opens node \<and> ok)
      (if \<not> g3 then (-1, l3)
       else then_ok (file_list_add ?path (join_path ?name []) st None True)
         (then_ok (\<lambda>k. collect_files_recursive ?path ?name node k)
           (\<lambda>k. read_entries dir prefix es k)) l3)" for st
    by (intro collected_alloc[OF a3] collected_add_then) (rule both)
  note unfolds = read_entries.simps a1 a2 a3 if_not_P[OF False] Let_def prod.case tree_items.simps
    tree_opens.simps tree node_items_lstat node_opens_lstat
  show ?thesis
  proof (cases "lstat node")
    case None
    show ?thesis
      unfolding unfolds None option.case by (rule collected_alloc[OF a1]) (simp add: False rest)
  next
    case (Some st)
    show ?thesis
      unfolding unfolds Some option.case
      using False rest leaf sub
      by (cases "readlink node"; intro collected_alloc[OF a1] collected_alloc[OF a2]) auto
  qed
qed

lemma collected_entries:
  assumes "\<And>d node dir prefix l. (d, node) \<in> set es \<Longrightarrow>
    collected l (listing_items dir prefix node) (listing_opens node) (collect_files_recursive dir prefix node l)"
  shows "collected l (tree_items dir prefix es) (tree_opens es) (read_entries dir prefix es l)"
  using assms
proof (induction es arbitrary: l)
  case Nil
  then show ?case by (simp add: collected_nothing)
next
  case (Cons e es)
  obtain d node where e: "e = (d, node)" by fastforce
  show ?case
    unfolding e
  proof (rule collected_entry[OF _ _ refl refl])
    show "collected l (listing_items dir prefix node) (listing_opens node)
        (collect_files_recursive dir prefix node l)" for dir prefix l
      by (rule Cons.prems[of d]) (simp add: e)
    show "collected l (tree_items dir prefix es) (tree_opens es) (read_entries dir prefix es l)" for l
      by (rule Cons.IH) (metis Cons.prems list.set_intros(2))
  qed
qed

lemma collected_walk:
  "collected l (listing_items dir prefix node) (listing_opens node) (collect_files_recursive dir prefix node l)"
proof (induction node arbitrary: l dir prefix)
  case (Node st listing link)
  show ?case
  proof (cases listing)
    case None
    then show ?thesis by (simp add: listing_items_def listing_opens_def collected_failed)
  next
    case (Some es)
    have "collected l (tree_items dir prefix es) (tree_opens es) (read_entries dir prefix es l)"
      using Node[of es] Some by (intro collected_entries) force
    with Some show ?thesis by (simp add: listing_items_def listing_opens_def)
  qed
qed

lemma collected_create:
  assumes "file_list_create [] = Some l0" and "tree_opens es" and "opendir node = Some es"
  shows "\<exists>l. collect_files_recursive root [] node l0 = (0, l) \<and> items l = tree_items root [] es \<and>
           list_allocs l = [] \<and> \<not> dangling l"
  using assms collected_walk[of l0 root "[]" node]
  by (cases "collect_files_recursive root [] node l0")
    (auto simp: collected_def file_list_create_def listing_items_def listing_opens_def)

section \<open>The entries of the archive\<close>

definition item_target :: "list_item \<Rightarrow> bytes" where
  "item_target it = (case it_target it of None \<Rightarrow> [] | Some t \<Rightarrow> t)"

definition item_ready :: "writer_env \<Rightarrow> (bytes \<Rightarrow> in_file option) \<Rightarrow> int \<Rightarrow> list_item \<Rightarrow> bool" where
  "item_ready env fopen level it \<longleftrightarrow>
     entry_ready env level (fopen (it_path it)) (it_name it) (item_target it) (it_stat it) (it_is_directory it) \<and>
     0 \<notin> set (it_name it) \<and> length (it_name it) + length (item_target it) \<le> 65000"

definition items_cost :: "(bytes \<Rightarrow> in_file option) \<Rightarrow> list_item list \<Rightarrow> nat" where
  "items_cost fopen its = (\<Sum>it\<leftarrow>its. entry_cost (fopen (it_path it)))"

text \<open>The archive \<open>s\<close> has one entry per item, in this order.\<close>

definition entries_for :: "bytes \<Rightarrow> list_item list \<Rightarrow> file_entry list \<Rightarrow> bool" where
  "entries_for s = list_all2 (\<lambda>it e. entry_for (it_name it) (it_stat it) s e)"

lemma entry_for_extend: "entry_for name st s e \<Longrightarrow> entry_for name st (s @ d) e"
proof -
  assume a: "entry_for name st s e"
  then obtain pos lfh rest where p: "fe_local_header_offset e = of_nat pos"
    "lh_signature lfh = ZIP_LOCAL_FILE_HEADER_SIG" "drop pos s = local_header_bytes lfh @ name @ rest"
    by (auto simp: entry_for_def)
  from p(3) have "length (drop pos s) \<noteq> 0" by simp
  then have "pos < length s" by simp
  then have "drop pos (s @ d) = local_header_bytes lfh @ name @ (rest @ d)" using p(3) by simp
  with a p(1,2) show ?thesis unfolding entry_for_def by blast
qed

lemma entries_for_extend: "entries_for s its es \<Longrightarrow> entries_for (s @ d) its es"
  unfolding entries_for_def by (erule list_all2_mono) (rule entry_for_extend)

lemma process_entries_adds:
  assumes env: "frames_fit env"
  shows "archive_inv w \<Longrightarrow> fault_free w \<Longrightarrow> \<forall>it \<in> set its. item_ready env fopen (compression_level w) it \<Longrightarrow>
     budget (length (stream w)) (items_cost fopen its) \<Longrightarrow>
     \<exists>w' es s. process_entries env fopen its n w = (n + int (length its), w') \<and> archive_inv w' \<and> fault_free w' \<and>
       files w' = files w @ es \<and> stream w' = stream w @ s \<and> entries_for (stream w') its es"
proof (induction its arbitrary: n w)
  case Nil
  then show ?case by (intro exI[of _ w] exI[of _ "[]"]) (simp add: entries_for_def)
next
  case (Cons it its)
  let ?o = "fopen (it_path it)"
  let ?run = "process_entry env ?o (it_name it) (item_target it) (it_stat it) (it_is_directory it) w"
  have r: "item_ready env fopen (compression_level w) it" using Cons.prems(3) by simp
  have bud: "budget (length (stream w)) (entry_cost ?o + items_cost fopen its)"
    using Cons.prems(4) by (simp add: items_cost_def)
  have fits: "entry_fits ?o (it_name it) (item_target it) w"
    using r bud by (auto simp: entry_fits_def item_ready_def budget_def entry_cost_def)
  have "fst ?run = 1"
    using process_entry_live[OF env Cons.prems(1) fits Cons.prems(2)] r by (simp add: item_ready_def)
  then obtain w1 where w1: "?run = (1, w1)" by (metis prod.collapse)
  have nul: "0 \<notin> set (it_name it)" using r by (simp add: item_ready_def)
  from process_entry_added[OF env Cons.prems(1) fits nul w1] Cons.prems(2)
  obtain e d where a: "archive_inv w1" "fault_free w1" "compression_level w1 = compression_level w"
    "stream w1 = stream w @ d" "length d \<le> entry_cost ?o * (2 * PART)" "files w1 = files w @ [e]"
    "entry_for (it_name it) (it_stat it) (stream w1) e"
    by (auto simp: entry_added_def)
  have "budget (length (stream w1)) (items_cost fopen its)"
    using bud a(4,5) by (simp add: budget_def algebra_simps)
  from Cons.IH[OF a(1,2) _ this, of "n + 1"] Cons.prems(3) a(3)
  obtain w' es s where w': "process_entries env fopen its (n + 1) w1 = (n + 1 + int (length its), w')"
    "archive_inv w'" "fault_free w'" "files w' = files w1 @ es" "stream w' = stream w1 @ s"
    "entries_for (stream w') its es" by auto
  have "entry_for (it_name it) (it_stat it) (stream w') e"
    using entry_for_extend[OF a(7), of s] w'(5) by simp
  with w'(6) have "entries_for (stream w') (it # its) (e # es)" by (simp add: entries_for_def)
  moreover have "process_entries env fopen (it # its) n w = (n + int (length (it # its)), w')"
    using w1 w'(1) by (simp add: item_target_def add.assoc)
  ultimately show ?case
    using w'(2-5) a(4,6) by (intro exI[of _ w'] exI[of _ "e # es"] exI[of _ "d @ s"]) simp
qed

lemma write_archive_refines:
  assumes env: "frames_fit env" and list: "list_allocs l = []" "\<not> dangling l" "items l \<noteq> []"
    and ready: "\<forall>it \<in> set (items l). item_ready env fopen level it"
    and bud: "budget 0 (items_cost fopen (items l))"
  shows "\<exists>w' s es first.
     write_archive env fopen level (Some \<lparr>out_written = [], out_limits = []\<rparr>) l = Exit 0 (Some w') \<and>
     out_written (output_file w') = s @ central_directory es @
       end_records (length es) (length s) (length (central_directory es)) first \<and>
     entries_for s (items l) es"
proof -
  let ?out = "\<lparr>out_written = [], out_limits = []\<rparr>"
  obtain w where w: "burst_writer_create ?out level [] = Some w" by (simp add: burst_writer_create_def)
  have inv: "archive_inv w" using create_archive_inv[OF w] by simp
  have f: "fault_free w" "compression_level w = level" "files w = []" "stream w = []"
    using w by (auto simp: burst_writer_create_def fault_free_def stream_def)
  from process_entries_adds[OF env inv f(1), of "items l" fopen 0] ready bud f
  obtain w1 es where w1: "process_entries env fopen (items l) 0 w = (int (length (items l)), w1)"
    "archive_inv w1" "fault_free w1" "files w1 = es" "entries_for (stream w1) (items l) es" by auto
  have "writer_wf w1" using w1(2) by (simp add: archive_inv_def)
  from burst_writer_finalize_refines(2)[OF this w1(3)]
  obtain w2 where w2: "burst_writer_finalize w1 = (0, w2)" "finalized w1 w2" by blast
  have "write_archive env fopen level (Some ?out) l = Exit 0 (Some w2)"
    using w w1(1) w2(1) list by (simp add: write_archive_def quit_def file_list_destroy_def)
  moreover have "\<exists>first. out_written (output_file w2) = stream w1 @ central_directory es @
     end_records (length es) (length (stream w1)) (length (central_directory es)) first"
    using w2(2) w1(4) by (auto simp: finalized_def archive_tail_def Let_def num_files_def)
  ultimately show ?thesis using w1(5) by blast
qed

text \<open>When the list is full and only some of the five \<open>realloc\<close>s succeed, \<open>file_list_add\<close> fails and the
  clean-up frees arrays that no longer exist.\<close>

lemma file_list_add_dangles:
  assumes "length (items l) = capacity l" and "list_allocs l = [True, False]"
  shows "\<exists>l'. file_list_add path name st target d l = (-1, l') \<and> quit l' 1 None = Undefined"
  using assms
  by (auto simp: file_list_add_def file_list_grow_def then_ok_def granted_def quit_def file_list_destroy_def)

section \<open>Properties\<close>

text \<open>C7: the writer command on a directory, in an environment where no allocation and no write fails.
  If every subdirectory can be opened and every entry is ready (files open, can be read and
  compressed; links have a target), the command exits with 0, and the archive consists of the
  entries, the central directory and the end records, where the directory has exactly one entry for
  each file, link and directory of the tree, in pre-order, with its relative path (a slash after
  directories) and its attributes, and pointing at a local header with this name. If some
  subdirectory cannot be opened, the command exits with 1 and no archive.\<close>

theorem writer_main_archives_tree:
  assumes env: "frames_fit env" and opts: "parse_options opts None 3 = Inr (Some path, level)"
    and node: "opendir node = Some es"
    and ready: "\<forall>it \<in> set (tree_items root [] es). item_ready env fopen level it"
    and bud: "budget 0 (items_cost fopen (tree_items root [] es))"
  defines "run \<equiv> writer_main env fopen opts True [(root, node)] (Some \<lparr>out_written = [], out_limits = []\<rparr>) []"
  shows "(tree_opens es \<and> tree_items root [] es \<noteq> [] \<longrightarrow>
            (\<exists>w' s fs first. run = Exit 0 (Some w') \<and>
               out_written (output_file w') = s @ central_directory fs @
                 end_records (length fs) (length s) (length (central_directory fs)) first \<and>
               entries_for s (tree_items root [] es) fs))
       \<and> (\<not> tree_opens es \<longrightarrow> run = Exit 1 None)"
proof (intro conjI impI, goal_cases)
  case 1
  obtain l0 where l0: "file_list_create [] = Some l0" by (simp add: file_list_create_def)
  from collected_create[OF l0 _ node] 1
  obtain l where l: "collect_files_recursive root [] node l0 = (0, l)" "items l = tree_items root [] es"
    "list_allocs l = []" "\<not> dangling l" by blast
  from write_archive_refines[OF env l(3,4), of fopen level] ready bud 1 l(1,2)
  show ?case by (simp add: run_def writer_main_def opts l0 collect_files_def)
next
  case 2
  obtain l0 where l0: "file_list_create [] = Some l0" "list_allocs l0 = []" "\<not> dangling l0"
    by (simp add: file_list_create_def)
  obtain rc l where l: "collect_files_recursive root [] node l0 = (rc, l)" by fastforce
  with collected_walk[of l0 root "[]" node] 2 node l0 have "rc \<noteq> 0" "\<not> dangling l"
    by (auto simp: collected_def listing_opens_def)
  with l show ?case
    by (simp add: run_def writer_main_def opts l0 collect_files_def quit_def file_list_destroy_def)
qed

definition demo_tree :: "(bytes \<times> fs_node) list" where
  "demo_tree =
     [([0x2e], Node None None None),
      ([97], Node (Some demo_stat) (Some [([98], Node (Some (demo_stat\<lparr>st_mode := 0x81A4, st_size := 3\<rparr>)) None None)])
               None),
      ([99], Node (Some (demo_stat\<lparr>st_mode := 0xA1FF\<rparr>)) None (Some [97]))]"

abbreviation demo_items :: "list_item list" where
  "demo_items \<equiv>
     [\<lparr>it_path = [116, 0x2f, 97], it_name = [97, 0x2f], it_target = None, it_stat = demo_stat, it_is_directory = True\<rparr>,
      \<lparr>it_path = [116, 0x2f, 97, 0x2f, 98], it_name = [97, 0x2f, 98], it_target = None,
        it_stat = demo_stat\<lparr>st_mode := 0x81A4, st_size := 3\<rparr>, it_is_directory = False\<rparr>,
      \<lparr>it_path = [116, 0x2f, 99], it_name = [99], it_target = Some [97],
        it_stat = demo_stat\<lparr>st_mode := 0xA1FF\<rparr>, it_is_directory = False\<rparr>]"

lemma demo_tree_items: "tree_items [116] [] demo_tree = demo_items"
  by (simp add: demo_tree_def demo_stat_def dot_entry_def join_path_def S_ISDIR_def S_ISREG_def S_ISLNK_def
      target_buf_def strndup_def)

lemma demo_file_ready:
  "in_seekable demo_input" "\<not> read_fails (in_rewind demo_input)"
  "\<forall>c \<in> set (chunks (readable (in_rewind demo_input))). frame_of demo_env level c \<noteq> None"
  unfolding demo_chunks
  by (simp_all add: demo_input_def read_fails_def in_rewind_def demo_env_def compress_chunk_def ZSTD_CHUNK_SIZE_def)

lemma demo_items_ready: "\<forall>it \<in> set demo_items. item_ready demo_env (\<lambda>_. Some demo_input) 3 it"
  using demo_file_ready
  by (simp add: item_ready_def entry_ready_def item_target_def demo_stat_def S_ISLNK_def)

theorem writer_main_archives_tree_witness:
  "\<exists>w' (fs :: file_entry list). writer_main demo_env (\<lambda>_. Some demo_input) [Opt_output [122]] True
       [([116], Node (Some demo_stat) (Some demo_tree) None)] (Some \<lparr>out_written = [], out_limits = []\<rparr>) []
       = Exit 0 (Some w') \<and> length fs = 3 \<and> map fe_filename fs = [[97, 0x2f], [97, 0x2f, 98], [99]]"
proof -
  have opts: "parse_options [Opt_output [122]] None 3 = Inr (Some [122], 3)" by simp
  have opens: "tree_opens demo_tree"
    by (simp add: demo_tree_def demo_stat_def dot_entry_def S_ISDIR_def)
  have bud: "budget 0 (items_cost (\<lambda>_. Some demo_input) demo_items)"
    by (simp add: items_cost_def entry_cost_def demo_chunks budget_def)
  from writer_main_archives_tree[OF demo_frames_fit opts, of "Node (Some demo_stat) (Some demo_tree) None"
      demo_tree "[116]" "\<lambda>_. Some demo_input"] demo_items_ready bud opens
  obtain w' s fs where run: "writer_main demo_env (\<lambda>_. Some demo_input) [Opt_output [122]] True
       [([116], Node (Some demo_stat) (Some demo_tree) None)] (Some \<lparr>out_written = [], out_limits = []\<rparr>) []
       = Exit 0 (Some w')" and fs: "entries_for s demo_items fs"
    unfolding demo_tree_items by auto
  from fs have "length fs = 3 \<and> map fe_filename fs = [[97, 0x2f], [97, 0x2f, 98], [99]]"
    unfolding entries_for_def by (auto simp: list_all2_Cons1 entry_for_def)
  with run show ?thesis by (intro exI[of _ w'] exI[of _ fs]) simp
qed

end
