(* ===== verification/Directory_Roundtrip.thy ===== *)
theory Directory_Roundtrip
  imports Writer_Final Part_Map
begin

text \<open>
  The central directory and the end records that the writer appends, read back by the parser of the
  downloader: extra fields, one entry, the whole directory, a suffix of it, the end records and
  the comment.
\<close>

section \<open>Extra fields\<close>

lemma ucast_low_byte [simp]: "(ucast (w AND 0xFF :: 'a::len word) :: u8) = ucast w"
proof -
  have m: "(0xFF :: 'a word) = mask 8" by (simp add: mask_eq_exp_minus_1)
  show ?thesis
    unfolding m by (rule bit_word_eqI) (auto simp: bit_simps dest: bit_imp_le_length)
qed

lemma le16_bytes: "le16 w = [ucast w, ucast (drop_bit 8 w)]"
  by (simp add: le16_def numeral_2_eq_2)

lemma le32_bytes: "le32 w = [ucast w, ucast (drop_bit 8 w), ucast (drop_bit 16 w), ucast (drop_bit 24 w)]"
  by (simp add: le32_def eval_nat_numeral)

lemma build_unix_extra_field_layout:
  "15 \<le> n \<Longrightarrow> build_unix_extra_field n uid gid =
     le16 ZIP_EXTRA_UNIX_7875_ID @ le16 11 @ [1, 4] @ le32 uid @ [4] @ le32 gid"
  by (simp add: build_unix_extra_field_def le16_bytes le32_bytes)

definition zip64_payload :: "u64 \<Rightarrow> u64 \<Rightarrow> u64 \<Rightarrow> bytes" where
  "zip64_payload c u off =
     (if u > 0xFFFFFFFF then le64 u else []) @ (if c > 0xFFFFFFFF then le64 c else []) @
     (if off > 0xFFFFFFFF then le64 off else [])"

lemma length_zip64_payload: "length (zip64_payload c u off) \<le> 24"
  by (simp add: zip64_payload_def)

lemma build_zip64_extra_field_layout:
  assumes "28 \<le> n" and "n < 2 ^ 64"
    and "c > 0xFFFFFFFF \<or> u > 0xFFFFFFFF \<or> off > 0xFFFFFFFF"
  shows "build_zip64_extra_field n c u off =
     le16 ZIP_EXTRA_ZIP64_ID @ le16 (of_nat (length (zip64_payload c u off))) @ zip64_payload c u off"
  using assms
  by (auto simp: build_zip64_extra_field_def Let_def le16_bytes zip64_payload_def word_less_nat_alt
      unat_of_nat)

lemma parse_unix_body_layout:
  "parse_unix_body ([1, 4] @ le32 uid @ [4] @ le32 gid @ rest) 11 a b = Ok (True, uid, gid)"
  by (simp add: parse_unix_body_def reads del: bind_outcome_Ok_iff of_read_Ok_iff read_bytes_Some_iff)

lemma parse_unix_extra_field_roundtrip:
  assumes "15 \<le> n"
  shows "parse_unix_extra_field (build_unix_extra_field n uid gid @ rest) a b = Ok (True, uid, gid)"
  using assms parse_unix_body_layout[of uid gid rest a b]
  by (simp add: build_unix_extra_field_layout parse_unix_extra_field.simps reads
      del: bind_outcome_Ok_iff)

text \<open>The saturated 32-bit fields: the parser takes a value from the ZIP64 field when the 32-bit field is
  0xFFFFFFFF, the writer puts it there when the value is larger.\<close>

lemma unat_narrow: "\<not> x > 0xFFFFFFFF \<Longrightarrow> unat (ucast (x :: u64) :: u32) = unat x"
  by (simp add: word_less_nat_alt unsigned_ucast_eq unsigned_take_bit_eq take_bit_nat_eq_self)

lemma ucast_clamp32 [simp]: "\<not> x > 0xFFFFFFFF \<Longrightarrow> ucast (clamp32 x) = x"
proof -
  assume x: "\<not> x > 0xFFFFFFFF"
  have "unat (ucast (clamp32 x) :: u64) = unat (ucast x :: u32)"
    using x by (simp add: clamp32_def unsigned_ucast_eq unsigned_take_bit_eq take_bit_nat_eq_self)
  with unat_narrow[OF x] show "ucast (clamp32 x) = x" by (simp add: word_unat_eq_iff)
qed

lemma clamp32_saturates:
  assumes "x \<noteq> 0xFFFFFFFF"
  shows "clamp32 x = 0xFFFFFFFF \<longleftrightarrow> x > 0xFFFFFFFF"
proof (cases "x > 0xFFFFFFFF")
  case False
  have "x = 0xFFFFFFFF" if "clamp32 x = 0xFFFFFFFF"
    using ucast_clamp32[OF False] unfolding that by simp
  with False assms show ?thesis by blast
qed (simp add: clamp32_def)

text \<open>The entries whose 64-bit values are not exactly the saturation value.\<close>

definition no_ambiguous_size :: "file_entry \<Rightarrow> bool" where
  "no_ambiguous_size e \<longleftrightarrow>
     fe_compressed_size e \<noteq> 0xFFFFFFFF \<and> fe_uncompressed_size e \<noteq> 0xFFFFFFFF \<and>
     fe_local_header_offset e \<noteq> 0xFFFFFFFF"

lemma central_header_fields [simp]:
  "ch_signature (central_header_of e n) = ZIP_CENTRAL_DIR_HEADER_SIG"
  "ch_compressed_size (central_header_of e n) = clamp32 (fe_compressed_size e)"
  "ch_uncompressed_size (central_header_of e n) = clamp32 (fe_uncompressed_size e)"
  "ch_local_header_offset (central_header_of e n) = clamp32 (fe_local_header_offset e)"
  "ch_filename_length (central_header_of e n) = of_nat (length (fe_filename e))"
  "ch_extra_field_length (central_header_of e n) = of_nat n"
  "ch_file_comment_length (central_header_of e n) = 0"
  "ch_crc32 (central_header_of e n) = fe_crc32 e"
  "ch_compression_method (central_header_of e n) = fe_compression_method e"
  by (simp_all add: central_header_of_def)

definition narrow_out :: "file_entry \<Rightarrow> zip64_out" where
  "narrow_out e = (ucast (clamp32 (fe_compressed_size e)), ucast (clamp32 (fe_uncompressed_size e)),
                   ucast (clamp32 (fe_local_header_offset e)))"

definition wide_out :: "file_entry \<Rightarrow> zip64_out" where
  "wide_out e = (fe_compressed_size e, fe_uncompressed_size e, fe_local_header_offset e)"

lemma zip64_value_skip: "zip64_value False body pos old = Ok (Some (pos, old))"
  by (simp add: zip64_value_def)

lemma zip64_value_take:
  "zip64_value True (a @ le64 v @ ys) (length a) old = Ok (Some (length a + 8, v))"
  by (simp add: zip64_value_def reads del: bind_outcome_Ok_iff)

lemma zip64_value_payload:
  assumes "x \<noteq> 0xFFFFFFFF"
  shows "zip64_value (clamp32 x = 0xFFFFFFFF) (a @ (if x > 0xFFFFFFFF then le64 x else []) @ ys)
           (length a) (ucast (clamp32 x)) =
         Ok (Some (length a + length (if x > 0xFFFFFFFF then le64 x else []), x))"
  using assms zip64_value_take[of a x ys]
  by (simp add: clamp32_saturates zip64_value_skip)

lemma parse_zip64_body_roundtrip:
  assumes "no_ambiguous_size e"
  shows "parse_zip64_body
           (zip64_payload (fe_compressed_size e) (fe_uncompressed_size e) (fe_local_header_offset e))
           (central_header_of e n) (narrow_out e) = Ok (True, wide_out e)"
proof -
  let ?f = "\<lambda>x :: u64. if x > 0xFFFFFFFF then le64 x else []"
  let ?u = "fe_uncompressed_size e" and ?c = "fe_compressed_size e" and ?o = "fe_local_header_offset e"
  note v = zip64_value_payload[of ?u "[]" "?f ?c @ ?f ?o"] zip64_value_payload[of ?c "?f ?u" "?f ?o"]
    zip64_value_payload[of ?o "?f ?u @ ?f ?c" "[]"]
  have "zip64_value (clamp32 ?u = 0xFFFFFFFF) (?f ?u @ ?f ?c @ ?f ?o) 0 (ucast (clamp32 ?u))
      = Ok (Some (length (?f ?u), ?u))"
    "zip64_value (clamp32 ?c = 0xFFFFFFFF) (?f ?u @ ?f ?c @ ?f ?o) (length (?f ?u)) (ucast (clamp32 ?c))
      = Ok (Some (length (?f ?u) + length (?f ?c), ?c))"
    "zip64_value (clamp32 ?o = 0xFFFFFFFF) (?f ?u @ ?f ?c @ ?f ?o) (length (?f ?u) + length (?f ?c))
       (ucast (clamp32 ?o)) = Ok (Some (length (?f ?u) + length (?f ?c) + length (?f ?o), ?o))"
    using v assms by (simp_all only: no_ambiguous_size_def append_Nil append_Nil2 append_assoc
        length_append list.size add_0 simp_thms)
  then show ?thesis
    unfolding parse_zip64_body_def zip64_payload_def narrow_out_def wide_out_def
    by (simp only: prod.case central_header_fields bind_outcome.simps option.case)
qed

lemma parse_zip64_skip_unix:
  assumes "15 \<le> n"
  shows "parse_zip64_extra_field (build_unix_extra_field n uid gid @ rest) h out =
         parse_zip64_extra_field rest h out"
proof -
  let ?p = "build_unix_extra_field n uid gid @ rest"
  have "drop 15 ?p = rest" "length ?p = 15 + length rest" using assms by simp_all
  then show ?thesis
    using assms
    by (subst parse_zip64_extra_field.simps)
       (simp add: build_unix_extra_field_layout reads ZIP_EXTRA_UNIX_7875_ID_def ZIP_EXTRA_ZIP64_ID_def
         del: bind_outcome_Ok_iff)
qed

lemma parse_zip64_field:
  assumes "need_zip64 e"
  shows "parse_zip64_extra_field
           (build_zip64_extra_field 49 (fe_compressed_size e) (fe_uncompressed_size e)
              (fe_local_header_offset e)) h out =
    parse_zip64_body (zip64_payload (fe_compressed_size e) (fe_uncompressed_size e) (fe_local_header_offset e)) h out"
proof -
  let ?b = "zip64_payload (fe_compressed_size e) (fe_uncompressed_size e) (fe_local_header_offset e)"
  have len: "unat (of_nat (length ?b) :: u16) = length ?b"
    using length_zip64_payload[of "fe_compressed_size e" "fe_uncompressed_size e" "fe_local_header_offset e"]
    by (simp add: unat_of_nat)
  have lay: "build_zip64_extra_field 49 (fe_compressed_size e) (fe_uncompressed_size e)
      (fe_local_header_offset e) = le16 ZIP_EXTRA_ZIP64_ID @ le16 (of_nat (length ?b)) @ ?b"
    using assms by (intro build_zip64_extra_field_layout) (auto simp: need_zip64_def)
  show ?thesis
    unfolding lay
    by (subst parse_zip64_extra_field.simps) (simp add: reads len del: bind_outcome_Ok_iff)
qed

lemma parse_cdfh_extra:
  assumes "no_ambiguous_size e"
  shows "parse_unix_extra_field (cdfh_extra e) a b = Ok (True, fe_uid e, fe_gid e)"
    and "\<exists>r. parse_zip64_extra_field (cdfh_extra e) (central_header_of e n) (narrow_out e) = Ok (r, wide_out e)"
proof -
  show "parse_unix_extra_field (cdfh_extra e) a b = Ok (True, fe_uid e, fe_gid e)"
    unfolding cdfh_extra_def by (rule parse_unix_extra_field_roundtrip) simp
  show "\<exists>r. parse_zip64_extra_field (cdfh_extra e) (central_header_of e n) (narrow_out e) = Ok (r, wide_out e)"
  proof (cases "need_zip64 e")
    case True
    then show ?thesis
      using parse_zip64_field[OF True] parse_zip64_body_roundtrip[OF assms]
      by (auto simp: cdfh_extra_def parse_zip64_skip_unix)
  next
    case False
    then have "narrow_out e = wide_out e" by (simp add: narrow_out_def wide_out_def need_zip64_def)
    then show ?thesis
      using False parse_zip64_skip_unix[of 64 "fe_uid e" "fe_gid e" "[]"]
      by (auto simp: cdfh_extra_def parse_zip64_extra_field.simps[of "[]"])
  qed
qed

section \<open>Entries\<close>

text \<open>What the downloader should know about an entry that the writer recorded.\<close>

definition metadata_of :: "u64 \<Rightarrow> file_entry \<Rightarrow> file_metadata" where
  "metadata_of part_len e =
     \<lparr>fm_filename = c_string (fe_filename e), fm_local_header_offset = fe_local_header_offset e,
      fm_compressed_size = fe_compressed_size e, fm_uncompressed_size = fe_uncompressed_size e,
      fm_crc32 = fe_crc32 e, fm_compression_method = fe_compression_method e,
      fm_part_index = ucast (fe_local_header_offset e div part_len),
      fm_unix_mode = fe_unix_mode e, fm_uid = fe_uid e, fm_gid = fe_gid e,
      fm_has_unix_mode = True, fm_has_unix_extra = True,
      fm_is_symlink = (fe_unix_mode e AND S_IFMT = S_IFLNK),
      fm_uses_zip64_descriptor = (fe_compressed_size e > 0xFFFFFFFF \<or> fe_uncompressed_size e > 0xFFFFFFFF)\<rparr>"

definition entry_ok :: "file_entry \<Rightarrow> bool" where
  "entry_ok e \<longleftrightarrow>
     no_ambiguous_size e \<and> length (fe_filename e) < 65536 \<and> fe_unix_mode e < 0x10000"

lemma mode_roundtrip: "m < 0x10000 \<Longrightarrow> drop_bit 16 (push_bit 16 m :: u32) = m"
proof -
  assume "m < 0x10000"
  then have "unat m < 2 ^ 16" by (simp add: word_less_nat_alt)
  then have "take_bit 16 m = m"
    by (metis take_bit_nat_eq_self unsigned_take_bit_eq word_unat_eq_iff)
  then have b: "bit m n \<longrightarrow> n < 16" for n by (metis bit_take_bit_iff)
  show ?thesis by (rule bit_word_eqI) (use b in \<open>auto simp: bit_simps\<close>)
qed

lemma extra_len_u16: "unat (of_nat (length (cdfh_extra e)) :: u16) = length (cdfh_extra e)"
  using length_cdfh_extra[of e] by (simp add: unat_of_nat)

lemma cdfh_extra_pos: "0 < (of_nat (length (cdfh_extra e)) :: u16)"
proof -
  have "15 \<le> length (cdfh_extra e)" by (simp add: cdfh_extra_def)
  then show ?thesis using extra_len_u16[of e] by (auto simp: word_less_nat_alt)
qed

lemma entry_metadata_roundtrip:
  assumes "entry_ok e" and "part_len \<noteq> 0"
  shows "entry_metadata (central_header_of e (length (cdfh_extra e))) (fe_filename e) (cdfh_extra e) part_len
         = Ok (metadata_of part_len e)"
proof -
  let ?h = "central_header_of e (length (cdfh_extra e))"
  have ok: "no_ambiguous_size e" "fe_unix_mode e < 0x10000" using assms(1) by (auto simp: entry_ok_def)
  obtain r where z: "parse_zip64_extra_field (cdfh_extra e) ?h (narrow_out e) = Ok (r, wide_out e)"
    using parse_cdfh_extra(2)[OF ok(1)] by blast
  have made: "(ucast (drop_bit 8 (ch_version_made_by ?h)) AND 0xFF :: u8) = 3"
    by (simp add: central_header_of_def)
  have mode: "drop_bit 16 (ch_external_file_attributes ?h) = fe_unix_mode e"
    using mode_roundtrip[OF ok(2)] by (simp add: central_header_of_def)
  have out0: "(ucast (ch_compressed_size ?h), ucast (ch_uncompressed_size ?h),
      ucast (ch_local_header_offset ?h)) = narrow_out e" by (simp add: narrow_out_def)
  have sat: "clamp32 (fe_compressed_size e) = 0xFFFFFFFF \<longleftrightarrow> fe_compressed_size e > 0xFFFFFFFF"
    "clamp32 (fe_uncompressed_size e) = 0xFFFFFFFF \<longleftrightarrow> fe_uncompressed_size e > 0xFFFFFFFF"
    using ok(1) clamp32_saturates by (auto simp: no_ambiguous_size_def)
  show ?thesis
    unfolding entry_metadata_def Let_def out0 made mode
    using assms(2) cdfh_extra_pos[of e]
    by (simp add: parse_cdfh_extra(1)[OF ok(1)] z wide_out_def metadata_of_def sat
        del: bind_outcome_Ok_iff)
qed

section \<open>The directory\<close>

lemma cdfh_bytes_short:
  "length (fe_filename e) < 65536 \<Longrightarrow>
   cdfh_bytes e = central_header_bytes (central_header_of e (length (cdfh_extra e))) @
     fe_filename e @ cdfh_extra e"
  by (simp add: cdfh_bytes_def unat_of_nat)

lemma length_cdfh_ok:
  "entry_ok e \<Longrightarrow> length (cdfh_bytes e) = 46 + length (fe_filename e) + length (cdfh_extra e)"
  by (simp add: cdfh_bytes_short entry_ok_def)

lemma parse_entries_at:
  assumes name: "length (fe_filename e) < 65536"
    and m: "entry_metadata (central_header_of e (length (cdfh_extra e))) (fe_filename e) (cdfh_extra e) part_len = Ok m"
    and cd_end: "length pre + length (cdfh_bytes e) \<le> cd_end"
  shows "parse_entries (Suc n) [] (pre @ cdfh_bytes e @ post) (length pre) cd_end part_len acc =
         parse_entries n [] (pre @ cdfh_bytes e @ post) (length pre + length (cdfh_bytes e)) cd_end part_len
           (acc @ [m])"
proof -
  let ?h = "central_header_of e (length (cdfh_extra e))"
  let ?buf = "pre @ central_header_bytes ?h @ fe_filename e @ cdfh_extra e @ post"
  have buf: "pre @ cdfh_bytes e @ post = ?buf" using name by (simp add: cdfh_bytes_short)
  have len: "length (cdfh_bytes e) = 46 + length (fe_filename e) + length (cdfh_extra e)"
    using name by (simp add: cdfh_bytes_short)
  have n1: "unat (of_nat (length (fe_filename e)) :: u16) = length (fe_filename e)"
    using name by (simp add: unat_of_nat)
  have hd: "read_struct central_header_of_bytes 46 ?buf (length pre) = Ok ?h"
    by (rule read_struct_append) simp_all
  have nm: "read_bytes ?buf (length pre + 46) (length (fe_filename e)) = Some (fe_filename e)"
    by (simp add: reads del: read_bytes_Some_iff)
  have extra: "read_bytes ?buf (length pre + 46 + length (fe_filename e)) (length (cdfh_extra e)) = Some (cdfh_extra e)"
    by (simp add: reads del: read_bytes_Some_iff)
  have g: "\<not> cd_end \<le> length pre" "\<not> cd_end < length pre + 46"
    "\<not> cd_end < length pre + 46 + (length (fe_filename e) + length (cdfh_extra e))"
    using cd_end len by auto
  show ?thesis
    unfolding buf len
    by (simp add: hd n1 extra_len_u16 nm extra[unfolded add.assoc] m g[simplified add.assoc] add.assoc Let_def
        del: bind_outcome_Ok_iff read_bytes_Some_iff)
qed

lemma parse_entries_step:
  assumes "entry_ok e" and "part_len \<noteq> 0" and "length pre + length (cdfh_bytes e) \<le> cd_end"
  shows "parse_entries (Suc n) [] (pre @ cdfh_bytes e @ post) (length pre) cd_end part_len acc =
         parse_entries n [] (pre @ cdfh_bytes e @ post) (length pre + length (cdfh_bytes e)) cd_end part_len
           (acc @ [metadata_of part_len e])"
  using parse_entries_at[OF _ entry_metadata_roundtrip[OF assms(1,2)] assms(3)] assms(1) by (simp add: entry_ok_def)

lemma parse_entries_roundtrip:
  assumes "\<forall>e \<in> set es. entry_ok e" and "part_len \<noteq> 0" and "length es \<le> n"
    and "length pre + length (central_directory es) \<le> cd_end"
  shows "parse_entries n [] (pre @ central_directory es @ post) (length pre) cd_end part_len acc =
         parse_entries (n - length es) [] (pre @ central_directory es @ post)
           (length pre + length (central_directory es)) cd_end part_len (acc @ map (metadata_of part_len) es)"
  using assms(1,3,4)
proof (induction es arbitrary: n pre acc)
  case Nil
  then show ?case by simp
next
  case (Cons e es)
  then obtain m where m: "n = Suc m" by (cases n) auto
  have st: "parse_entries (Suc m) [] (pre @ cdfh_bytes e @ central_directory es @ post) (length pre) cd_end part_len acc =
     parse_entries m [] (pre @ cdfh_bytes e @ central_directory es @ post) (length pre + length (cdfh_bytes e)) cd_end
       part_len (acc @ [metadata_of part_len e])"
    using Cons.prems by (intro parse_entries_step assms(2)) auto
  have "parse_entries m [] ((pre @ cdfh_bytes e) @ central_directory es @ post) (length (pre @ cdfh_bytes e)) cd_end
      part_len (acc @ [metadata_of part_len e]) =
    parse_entries (m - length es) [] ((pre @ cdfh_bytes e) @ central_directory es @ post)
      (length (pre @ cdfh_bytes e) + length (central_directory es)) cd_end part_len
      ((acc @ [metadata_of part_len e]) @ map (metadata_of part_len) es)"
    using Cons.prems m by (intro Cons.IH) (auto simp: add.assoc)
  with st m show ?case by (simp add: add.assoc)
qed

section \<open>The end records\<close>

lemma le_bytes_le_word:
  "8 * length bs \<le> LENGTH('a::len) \<Longrightarrow> le_bytes (length bs) (le_word bs :: 'a word) = bs"
proof (induction bs)
  case Nil
  then show ?case by simp
next
  case (Cons b bs)
  let ?w = "le_word bs :: 'a word"
  have l: "8 + 8 * length bs \<le> LENGTH('a)" using Cons.prems by simp
  have tk: "take_bit (8 * length bs) ?w = ?w"
    using le_word_le_bytes[of "length bs" ?w] Cons by simp
  then have small: "bit ?w k \<longrightarrow> k < 8 * length bs" for k by (metis bit_take_bit_iff)
  have "(ucast (ucast b OR push_bit 8 ?w :: 'a word) :: u8) = b"
    using l by (intro bit_word_eqI) (auto simp: bit_simps)
  moreover have "drop_bit 8 (ucast b OR push_bit 8 ?w :: 'a word) = ?w"
  proof (rule bit_word_eqI)
    fix k assume "k < LENGTH('a)"
    show "bit (drop_bit 8 (ucast b OR push_bit 8 ?w :: 'a word)) k = bit ?w k"
      using small[of k] l by (auto simp: bit_simps dest: bit_imp_le_length)
  qed
  ultimately show ?case using Cons by simp
qed

lemma le_word_eq_sig:
  assumes "length bs = 4" and "(le_word bs :: u32) = w"
  shows "bs = le32 w"
  using le_bytes_le_word[of bs, where 'a = 32] assms by (simp add: le32_def)

lemma search_eocd_skip:
  assumes "\<And>j. i \<le> j \<Longrightarrow> j < i + k \<Longrightarrow> \<exists>s. (read_int 4 buf j :: (cd_error, u32) outcome) = Ok s
         \<and> s \<noteq> ZIP_END_CENTRAL_DIR_SIG"
  shows "search_eocd buf (i + k) = search_eocd buf i"
  using assms
proof (induction k)
  case 0
  then show ?case by simp
next
  case (Suc k)
  obtain s where "(read_int 4 buf (i + k) :: (cd_error, u32) outcome) = Ok s" "s \<noteq> ZIP_END_CENTRAL_DIR_SIG"
    using Suc.prems[of "i + k"] by auto
  moreover have "search_eocd buf (i + k) = search_eocd buf i" using Suc by simp
  ultimately show ?case by (simp del: bind_outcome_Ok_iff)
qed

text \<open>No signature inside the record and the comment: the search cannot stop too early.\<close>

lemma eocd_no_early_match:
  assumes "1 \<le> j" and "j \<le> 8"
  shows "\<exists>s. (read_int 4 (X @ end_central_dir_bytes (end_central_dir_of n a b) @ build_burst_eocd_comment f)
            (length X + j) :: (cd_error, u32) outcome) = Ok s \<and> s \<noteq> ZIP_END_CENTRAL_DIR_SIG"
proof -
  let ?e = "end_central_dir_of n a b"
  let ?d = "end_central_dir_bytes ?e @ build_burst_eocd_comment f"
  have len: "length ?d = 30" by simp
  have rd: "(read_int 4 (X @ ?d) (length X + j) :: (cd_error, u32) outcome) = Ok (le_word (take 4 (drop j ?d)) :: u32)"
    using assms len by (simp add: read_int_def read_le_def)
  have l4: "length (take 4 (drop j ?d)) = 4" using assms len by simp
  have sig: "le32 ZIP_END_CENTRAL_DIR_SIG = [0x50, 0x4b, 0x05, 0x06]"
    by (simp add: le32_bytes ZIP_END_CENTRAL_DIR_SIG_def)
  have "take 4 (drop j ?d) \<noteq> le32 ZIP_END_CENTRAL_DIR_SIG"
  proof -
    have "j = 1 \<or> j = 2 \<or> j = 3 \<or> j = 4 \<or> j = 5 \<or> j = 6 \<or> j = 7 \<or> j = 8" using assms by linarith
    then show ?thesis
      unfolding sig
      by (elim disjE)
         (auto simp: end_central_dir_bytes_def end_central_dir_of_def le32_bytes le16_bytes
           ZIP_END_CENTRAL_DIR_SIG_def)
  qed
  then have "(le_word (take 4 (drop j ?d)) :: u32) \<noteq> ZIP_END_CENTRAL_DIR_SIG"
    using le_word_eq_sig[OF l4] by blast
  with rd show ?thesis by blast
qed

lemma find_eocd_writer:
  "find_eocd (pre @ end_records n p c f) = Ok (length pre + 76, True, length pre + 56)"
proof -
  let ?E = "end_central_dir_bytes (end_central_dir_of n (of_nat p) (of_nat c))"
  let ?L = "zip64_locator_bytes (locator_record (p + c))"
  let ?X = "pre @ zip64_end_central_dir_bytes (eocd64_record n p c) @ ?L"
  let ?buf = "pre @ end_records n p c f"
  have buf: "?buf = ?X @ ?E @ build_burst_eocd_comment f" by (simp add: end_records_def)
  have lenX: "length ?X = length pre + 76" by simp
  have pos: "Suc (length ?buf - 22) = Suc (length ?X) + 8" by simp
  have "search_eocd ?buf (Suc (length ?X) + 8) = search_eocd ?buf (Suc (length ?X))"
  proof (rule search_eocd_skip)
    fix j assume "Suc (length ?X) \<le> j" "j < Suc (length ?X) + 8"
    then have "1 \<le> j - length ?X" "j - length ?X \<le> 8" by auto
    from eocd_no_early_match[OF this, of ?X n "of_nat p" "of_nat c" f] \<open>Suc (length ?X) \<le> j\<close>
    show "\<exists>s. (read_int 4 ?buf j :: (cd_error, u32) outcome) = Ok s \<and> s \<noteq> ZIP_END_CENTRAL_DIR_SIG" unfolding buf by auto
  qed
  moreover have "search_eocd ?buf (Suc (length ?X)) = Ok (length ?X)"
  proof -
    have "(read_int 4 ?buf (length ?X) :: (cd_error, u32) outcome) = Ok ZIP_END_CENTRAL_DIR_SIG"
      unfolding buf by (simp add: reads end_central_dir_bytes_def end_central_dir_of_def)
    then show ?thesis by (simp del: length_append bind_outcome_Ok_iff)
  qed
  moreover have "(read_int 4 ?buf (length pre + 76 - 20) :: (cd_error, u32) outcome) = Ok ZIP_ZIP64_END_CENTRAL_DIR_LOCATOR_SIG"
    unfolding end_records_def
    by (simp add: reads zip64_locator_bytes_def locator_record_def)
  ultimately show ?thesis
    unfolding find_eocd_def pos lenX by simp
qed

lemma uint24_roundtrip:
  fixes f :: u32
  defines "g \<equiv> f AND 0xFFFFFF"
  shows "(ucast (ucast g :: u8) OR push_bit 8 (ucast (ucast (drop_bit 8 g) :: u8))
          OR push_bit 16 (ucast (ucast (drop_bit 16 g) :: u8)) :: u32) = g"
proof -
  have m: "(0xFFFFFF :: u32) = mask 24" by (simp add: mask_eq_exp_minus_1)
  show ?thesis
    unfolding g_def m by (rule bit_word_eqI) (auto simp: bit_simps)
qed

lemma uint24_small: "f < 0x1000000 \<Longrightarrow> f AND 0xFFFFFF = (f :: u32)"
proof -
  assume f: "f < 0x1000000"
  have m: "(0xFFFFFF :: u32) = mask 24" by (simp add: mask_eq_exp_minus_1)
  have "unat (take_bit 24 f) = unat f"
    using f by (simp add: unsigned_take_bit_eq word_less_nat_alt take_bit_nat_eq_self)
  then show ?thesis unfolding m by (simp add: take_bit_eq_mask word_unat_eq_iff)
qed

lemma parse_burst_comment_writer:
  "parse_burst_comment (X @ end_central_dir_bytes (end_central_dir_of n a b) @ build_burst_eocd_comment f)
     (length X) = Ok (f AND 0xFFFFFF)"
proof -
  let ?E = "end_central_dir_bytes (end_central_dir_of n a b)"
  define g where "g = f AND 0xFFFFFF"
  let ?C = "le32 BURST_EOCD_COMMENT_MAGIC @
    [BURST_EOCD_COMMENT_VERSION, ucast g, ucast (drop_bit 8 g), ucast (drop_bit 16 g)]"
  have comment: "build_burst_eocd_comment f = ?C"
    unfolding build_burst_eocd_comment_def Let_def g_def[symmetric] by simp
  have rs: "(read_struct end_central_dir_of_bytes 22 (X @ ?E @ ?C) (length X)
      :: (cd_error, zip_end_central_dir) outcome) = Ok (end_central_dir_of n a b)"
    by (rule read_struct_append) simp_all
  have cl: "unat (ec_comment_length (end_central_dir_of n a b)) = 8"
    by (simp add: end_central_dir_of_def BURST_EOCD_COMMENT_SIZE_def)
  have u24: "(ucast (ucast g :: u8) OR push_bit 8 (ucast (ucast (drop_bit 8 g) :: u8))
          OR push_bit 16 (ucast (ucast (drop_bit 16 g) :: u8)) :: u32) = g"
    using uint24_roundtrip[of f] by (simp only: g_def)
  show ?thesis
    unfolding comment parse_burst_comment_def rs bind_outcome.simps cl g_def[symmetric]
    by (simp add: reads BURST_EOCD_COMMENT_SIZE_def u24 del: bind_outcome_Ok_iff)
qed

lemma locate_central_dir_writer:
  assumes "p + c + 106 < 2 ^ 63" and "length pre \<le> p + c"
  shows "locate_central_dir (pre @ end_records n p c f) (of_nat (p + c + 106))
           (length pre + 76, True, length pre + 56) = Ok (of_nat p, Some (of_nat n), of_nat c)"
proof -
  let ?buf = "pre @ end_records n p c f"
  have loc: "read_struct zip64_locator_of_bytes 20 ?buf (length pre + 56) = Ok (locator_record (p + c))"
    using read_struct_append[of "zip64_locator_bytes (locator_record (p + c))" 20 zip64_locator_of_bytes
        "locator_record (p + c)" "pre @ zip64_end_central_dir_bytes (eocd64_record n p c)"]
    by (simp add: end_records_def)
  have e64: "read_struct zip64_end_central_dir_of_bytes 56 ?buf (length pre) = Ok (eocd64_record n p c)"
    unfolding end_records_def by (rule read_struct_append) simp_all
  have off: "(of_nat (p + c + 106) - of_nat (length ?buf) :: u64) = of_nat (p + c - length pre)"
    using assms(2) by (simp add: of_nat_diff)
  have lt: "\<not> (of_nat (p + c) :: u64) < of_nat (p + c - length pre)"
    using assms by (simp add: word_less_nat_alt unat_of_nat del: of_nat_diff of_nat_add)
  have rel: "(of_nat (p + c) - of_nat (p + c - length pre) :: u64) = of_nat (length pre)"
    using assms(2) by (simp add: of_nat_diff)
  have up: "unat (of_nat (length pre) :: u64) = length pre"
    using assms by (simp add: unat_of_nat)
  have "unat (of_nat (length pre) + 56 :: u64) = length pre + 56"
    using assms by (simp add: unat_word_ariths unat_of_nat)
  moreover have "unat (of_nat (length ?buf) :: u64) = length pre + 106"
    using assms by (simp add: unat_word_ariths unat_of_nat)
  ultimately have fit: "\<not> (of_nat (length pre) + 56 :: u64) > of_nat (length ?buf)"
    by (simp only: word_less_nat_alt)
  have p64: "parse_zip64_eocd ?buf (of_nat (length pre)) = Ok (of_nat p, of_nat n, of_nat c)"
    unfolding parse_zip64_eocd_def up e64 using fit by (simp add: eocd64_record_def)
  have locoff: "loc_eocd64_offset (locator_record (p + c)) = of_nat (p + c)"
    by (simp add: locator_record_def)
  show ?thesis
    unfolding locate_central_dir_def prod.case loc Let_def bind_outcome.simps locoff off rel p64
    using lt by (simp del: of_nat_diff of_nat_add)
qed

lemma eocd_only_writer:
  assumes size: "p + c + 106 < 2 ^ 63" and pre: "length pre \<le> p + c"
  shows "central_dir_parse_eocd_only (pre @ end_records n p c f) (of_nat (p + c + 106)) want =
     Ok \<lparr>eo_central_dir_offset = of_nat p, eo_central_dir_size = of_nat c,
         eo_num_entries = Some (of_nat n), eo_is_zip64 = True,
         eo_first_cdfh_offset_in_tail = (if want then f AND 0xFFFFFF else 0)\<rparr>"
proof -
  let ?buf = "pre @ end_records n p c f"
  let ?X = "pre @ zip64_end_central_dir_bytes (eocd64_record n p c) @ zip64_locator_bytes (locator_record (p + c))"
  have "?buf = ?X @ end_central_dir_bytes (end_central_dir_of n (of_nat p) (of_nat c)) @ build_burst_eocd_comment f"
    by (simp add: end_records_def)
  then have com: "parse_burst_comment ?buf (length pre + 76) = Ok (f AND 0xFFFFFF)"
    using parse_burst_comment_writer[of ?X n "of_nat p" "of_nat c" f] by simp
  have u: "unat (of_nat p :: u64) = p" "unat (of_nat (p + c) :: u64) = p + c"
    "unat (of_nat (p + c + 106) :: u64) = p + c + 106"
    using size by (simp_all add: unat_of_nat del: of_nat_add)
  have g: "\<not> (of_nat (p + c + 106) :: u64) \<le> of_nat p" "\<not> (of_nat p + of_nat c :: u64) > of_nat (p + c + 106)"
    using u by (simp_all only: word_le_nat_alt word_less_nat_alt of_nat_add[symmetric])
  have ne: "length ?buf \<noteq> 0" by simp
  show ?thesis
    unfolding central_dir_parse_eocd_only_def find_eocd_writer bind_outcome.simps
      locate_central_dir_writer[OF assms] prod.case fst_conv snd_conv com
    using ne g by (simp del: of_nat_add)
qed

section \<open>Whole and partial directories\<close>

definition directory_ok :: "file_entry list \<Rightarrow> bool" where
  "directory_ok es \<longleftrightarrow> (\<forall>e \<in> set es. entry_ok e)"

lemma directory_ok_names: "directory_ok es \<Longrightarrow> names_fit es"
  by (simp add: directory_ok_def names_fit_def entry_ok_def)

lemma length_central_directory: "directory_ok es \<Longrightarrow> 46 * length es \<le> length (central_directory es)"
  by (induction es) (auto simp: directory_ok_def length_cdfh_ok)

definition estimate :: "u64 \<Rightarrow> u64" where
  "estimate n = (if n div 46 = 0 then 1 else n div 46)"

lemma estimated_entries_enough:
  assumes "directory_ok es" and "length (central_directory es) \<le> c" and "c < 2 ^ 63"
  shows "length es \<le> unat (estimate (of_nat c))"
proof -
  have q: "unat ((of_nat c :: u64) div 46) = c div 46" using assms(3) by (simp add: unat_div unat_of_nat)
  have "46 * length es \<le> c" using length_central_directory[OF assms(1)] assms(2) by simp
  then have "length es \<le> c div 46" by (simp add: less_eq_div_iff_mult_less_eq mult.commute)
  moreover have "unat ((of_nat c :: u64) div 46) = 0" if "(of_nat c :: u64) div 46 = 0"
    by (simp only: that unat_0)
  ultimately show ?thesis using q by (auto simp: estimate_def)
qed

text \<open>After the last header the parser finds the ZIP64 end record, or has counted enough entries.\<close>

lemma parse_entries_stop:
  assumes "acc \<noteq> []"
  shows "parse_entries n [] (pre @ end_records m p c f) (length pre) (length pre + 106) part_len acc = Ok acc"
proof (cases n)
  case 0
  then show ?thesis by simp
next
  case (Suc k)
  let ?buf = "pre @ end_records m p c f"
  have "(read_struct central_header_of_bytes 46 ?buf (length pre) :: (cd_error, zip_central_header) outcome)
    = Ok (central_header_of_bytes (take 46 (end_records m p c f)))"
    by (simp add: read_struct_def read_bytes_def)
  moreover have "ch_signature (central_header_of_bytes (take 46 (end_records m p c f)))
    = ZIP_ZIP64_END_CENTRAL_DIR_SIG"
    by (simp add: central_header_of_bytes_def end_records_def zip64_end_central_dir_bytes_def
        eocd64_record_def)
  moreover have "ZIP_ZIP64_END_CENTRAL_DIR_SIG \<noteq> ZIP_CENTRAL_DIR_HEADER_SIG"
    by (simp add: ZIP_ZIP64_END_CENTRAL_DIR_SIG_def ZIP_CENTRAL_DIR_HEADER_SIG_def)
  ultimately show ?thesis using Suc assms by simp
qed

lemma parse_central_directory_exact:
  assumes "directory_ok es" and "part_len \<noteq> 0" and "length (central_directory es) < 2 ^ 63"
    and "length (central_directory es @ post) < 2 ^ 64"
  defines "c \<equiv> length (central_directory es)"
  shows "parse_central_directory [] (central_directory es @ post) off off
           (estimate (of_nat c)) (of_nat c) part_len
         = Ok (map (metadata_of part_len) es)"
proof -
  let ?n = "unat (estimate (of_nat c))"
  have u: "unat (of_nat c :: u64) = c" using assms(3) by (simp add: c_def unat_of_nat)
  have "unat (of_nat (length (central_directory es @ post)) :: u64) = length (central_directory es @ post)"
    using assms(4) by (simp add: unat_of_nat del: length_append)
  then have fit: "\<not> (0 + of_nat c :: u64) > of_nat (length (central_directory es @ post))"
    using u by (simp add: word_less_nat_alt c_def)
  have n: "length es \<le> ?n"
    using estimated_entries_enough[OF assms(1), of c] assms(3) by (simp add: c_def)
  have "parse_entries ?n [] (central_directory es @ post) 0 c part_len [] =
    parse_entries (?n - length es) [] (central_directory es @ post) c c part_len (map (metadata_of part_len) es)"
    using parse_entries_roundtrip[of es part_len ?n "[]" c post "[]"] assms(1,2) n
    by (simp add: directory_ok_def c_def)
  moreover have "parse_entries k [] buf c c part_len acc = Ok acc" for k buf acc by (cases k) auto
  ultimately have "parse_entries ?n [] (central_directory es @ post) 0 c part_len [] = Ok (map (metadata_of part_len) es)"
    by (simp add: c_def)
  then show ?thesis
    unfolding parse_central_directory_def Let_def diff_self using fit u by simp
qed

lemma parse_central_directory_suffix:
  assumes "directory_ok es" and "es \<noteq> []" and "part_len \<noteq> 0"
    and "length (central_directory es) + 106 < 2 ^ 63"
  defines "c \<equiv> length (central_directory es) + 106"
  shows "parse_central_directory [] (central_directory es @ end_records m p d f) off off
           (estimate (of_nat c)) (of_nat c) part_len
         = Ok (map (metadata_of part_len) es)"
proof -
  let ?buf = "central_directory es @ end_records m p d f"
  let ?n = "unat (estimate (of_nat c))"
  have u: "unat (of_nat c :: u64) = c" using assms(4) unfolding c_def by (simp only: unat_of_nat) simp
  have fit: "\<not> (0 + of_nat c :: u64) > of_nat (length ?buf)" by (simp add: c_def)
  have n: "length es \<le> ?n"
    using estimated_entries_enough[OF assms(1), of c] assms(4) by (simp add: c_def)
  have "parse_entries ?n [] ?buf 0 c part_len [] =
    parse_entries (?n - length es) [] ?buf (length (central_directory es)) c part_len
      (map (metadata_of part_len) es)"
    using parse_entries_roundtrip[of es part_len ?n "[]" c "end_records m p d f" "[]"] assms(1,3) n
    by (simp add: directory_ok_def c_def)
  also have "\<dots> = Ok (map (metadata_of part_len) es)"
    using parse_entries_stop[of "map (metadata_of part_len) es" "?n - length es" "central_directory es"]
      assms(2) by (simp add: c_def)
  finally show ?thesis
    unfolding parse_central_directory_def Let_def diff_self using fit u by simp
qed

lemma from_cd_buffer_Ok:
  assumes "parse_central_directory (fst plan) buf off off (estimate c) c part_len = Ok fs"
    and "build_part_map qs (snd plan) fs archive_len part_len = Ok ps"
    and "buf \<noteq> []" and "\<not> of_nat (length buf) < c"
  shows "central_dir_parse_from_cd_buffer qs plan buf off c archive_len part_len z =
    Ok \<lparr>cp_files = fs, cp_parts = ps, cp_central_dir_offset = off, cp_central_dir_size = c, cp_is_zip64 = z\<rparr>"
  using assms
  unfolding central_dir_parse_from_cd_buffer_def Let_def estimate_def[symmetric] by simp

lemma from_cd_buffer_writer:
  assumes es: "directory_ok es" and part: "part_len \<noteq> 0"
    and len: "length (central_directory es @ post) < 2 ^ 63" and post: "post \<noteq> []"
    and ps: "build_part_map qs [] (map (metadata_of part_len) es) archive_len part_len = Ok ps"
  defines "c \<equiv> length (central_directory es)"
  shows "central_dir_parse_from_cd_buffer qs ([], []) (central_directory es @ post) off (of_nat c)
      archive_len part_len z = Ok \<lparr>cp_files = map (metadata_of part_len) es, cp_parts = ps,
        cp_central_dir_offset = off, cp_central_dir_size = of_nat c, cp_is_zip64 = z\<rparr>"
proof (rule from_cd_buffer_Ok)
  show "parse_central_directory (fst ([], [])) (central_directory es @ post) off off
      (estimate (of_nat c)) (of_nat c) part_len = Ok (map (metadata_of part_len) es)"
    using parse_central_directory_exact[OF es part, of post off] len by (simp add: c_def)
  have "unat (of_nat (length (central_directory es @ post)) :: u64) = length (central_directory es @ post)"
    using len by (simp add: unat_of_nat del: length_append)
  moreover have "unat (of_nat c :: u64) = c" using len by (simp add: c_def unat_of_nat)
  ultimately show "\<not> (of_nat (length (central_directory es @ post)) :: u64) < of_nat c"
    by (simp add: word_less_nat_alt c_def del: of_nat_add)
qed (use ps post in simp_all)

lemma central_dir_parse_writer:
  assumes es: "directory_ok es" and part: "part_len \<noteq> 0"
    and len: "p + length (central_directory es) + 106 < 2 ^ 63" and pre: "length pre \<le> p"
  defines "c \<equiv> length (central_directory es)"
  shows "\<exists>ps. build_part_map qs [] (map (metadata_of part_len) es) (of_nat (p + c + 106)) part_len = Ok ps \<and>
    central_dir_parse qs ([], []) (pre @ central_directory es @ end_records n p c f) (of_nat (p + c + 106)) part_len
    = Ok \<lparr>cp_files = map (metadata_of part_len) es, cp_parts = ps, cp_central_dir_offset = of_nat p,
          cp_central_dir_size = of_nat c, cp_is_zip64 = True\<rparr>"
proof -
  let ?cd = "central_directory es" and ?er = "end_records n p c f"
  let ?buf = "pre @ ?cd @ ?er"
  obtain ps where ps: "build_part_map qs [] (map (metadata_of part_len) es) (of_nat (p + c + 106)) part_len = Ok ps"
    using build_part_map_returns[OF part] by blast
  have eo: "central_dir_parse_eocd_only ?buf (of_nat (p + c + 106)) False =
     Ok \<lparr>eo_central_dir_offset = of_nat p, eo_central_dir_size = of_nat c,
         eo_num_entries = Some (of_nat n), eo_is_zip64 = True, eo_first_cdfh_offset_in_tail = 0\<rparr>"
    using eocd_only_writer[of p c "pre @ ?cd" n f False] len pre by (simp add: c_def)
  have start: "(of_nat (p + c + 106) - of_nat (length ?buf) :: u64) = of_nat (p - length pre)"
    using pre by (simp add: of_nat_diff c_def)
  have le: "\<not> (of_nat p :: u64) < of_nat (p - length pre)"
    using len by (simp add: word_less_nat_alt unat_of_nat del: of_nat_diff)
  have rel: "(of_nat p - of_nat (p - length pre) :: u64) = of_nat (length pre)"
    using pre by (simp add: of_nat_diff)
  have u: "unat (of_nat (length pre) :: u64) = length pre" using len pre by (simp add: unat_of_nat)
  have from_cd: "central_dir_parse_from_cd_buffer qs ([], []) (?cd @ ?er) (of_nat p) (of_nat c)
      (of_nat (p + c + 106)) part_len True = Ok \<lparr>cp_files = map (metadata_of part_len) es, cp_parts = ps,
        cp_central_dir_offset = of_nat p, cp_central_dir_size = of_nat c, cp_is_zip64 = True\<rparr>"
    using from_cd_buffer_writer[OF es part, of ?er qs "of_nat (p + c + 106)" ps "of_nat p" True] ps len
    by (simp add: c_def)
  have "?buf \<noteq> []" "drop (length pre) ?buf = ?cd @ ?er" "\<not> length ?buf < length pre"
    by simp_all
  then have "central_dir_parse qs ([], []) ?buf (of_nat (p + c + 106)) part_len =
    central_dir_parse_from_cd_buffer qs ([], []) (?cd @ ?er) (of_nat p) (of_nat c)
      (of_nat (p + c + 106)) part_len True"
    unfolding central_dir_parse_def eo bind_outcome.simps Let_def eocd_info.simps start rel u
    using le by (simp del: of_nat_diff)
  with ps from_cd show ?thesis by simp
qed

lemma central_dir_parse_partial_writer:
  assumes es: "directory_ok es" "es \<noteq> []"
    and part: "\<not> part_len < BURST_BASE_PART_SIZE" "part_len mod BURST_BASE_PART_SIZE = 0"
    and len: "length pre + length (central_directory es) + 106 < 2 ^ 63" and first: "unat first = length pre"
  shows "\<exists>ps. build_part_map qs [] (map (metadata_of part_len) es) archive_len part_len = Ok ps \<and>
    central_dir_parse_partial qs ([], []) (pre @ central_directory es @ end_records n p c f) start cd_off first
       archive_len part_len z
    = Ok \<lparr>cp_files = map (metadata_of part_len) es, cp_parts = ps, cp_central_dir_offset = cd_off,
          cp_central_dir_size = of_nat (length (central_directory es) + 106), cp_is_zip64 = z\<rparr>"
proof -
  let ?cd = "central_directory es" and ?er = "end_records n p c f"
  let ?buf = "pre @ ?cd @ ?er" and ?c = "length (central_directory es) + 106"
  have p0: "part_len \<noteq> 0" using part(1) by (auto simp: BURST_BASE_PART_SIZE_def)
  obtain ps where ps: "build_part_map qs [] (map (metadata_of part_len) es) archive_len part_len = Ok ps"
    using build_part_map_returns[OF p0] by blast
  have "parse_central_directory [] (?cd @ ?er) (start + ucast first) (start + ucast first)
      (estimate (of_nat ?c)) (of_nat ?c) part_len = Ok (map (metadata_of part_len) es)"
    using len by (intro parse_central_directory_suffix es p0) simp
  moreover have "length (?cd @ ?er) = ?c" by simp
  ultimately have from_cd: "central_dir_parse_from_cd_buffer qs ([], []) (?cd @ ?er) (start + ucast first)
      (of_nat ?c) archive_len part_len z = Ok \<lparr>cp_files = map (metadata_of part_len) es, cp_parts = ps,
        cp_central_dir_offset = start + ucast first, cp_central_dir_size = of_nat ?c, cp_is_zip64 = z\<rparr>"
    using ps by (intro from_cd_buffer_Ok) (simp_all del: of_nat_add)
  have b: "length ?buf \<noteq> 0" "\<not> length ?buf \<le> length pre" "drop (length pre) ?buf = ?cd @ ?er"
    "length ?buf - length pre = ?c"
    by simp_all
  have g: "(part_len < BURST_BASE_PART_SIZE \<or> part_len mod BURST_BASE_PART_SIZE \<noteq> 0) = False"
    using part by simp
  have "central_dir_parse_partial qs ([], []) ?buf start cd_off first archive_len part_len z =
    bind_outcome (central_dir_parse_from_cd_buffer qs ([], []) (?cd @ ?er) (start + ucast first)
      (of_nat ?c) archive_len part_len z) (\<lambda>r. Ok (r\<lparr>cp_central_dir_offset := cd_off\<rparr>))"
    unfolding central_dir_parse_partial_def g first Let_def b(3,4) using b(1,2) by simp
  then show ?thesis unfolding from_cd using ps by simp
qed

section \<open>Finalized archives\<close>

lemma first_cdfh_24_bits:
  assumes "names_fit (files w)" and "archive_size p (files w) < 2 ^ 62"
  shows "find_first_cdfh_in_tail w (of_nat p) (of_nat (archive_size p (files w))) AND 0xFFFFFF
       = find_first_cdfh_in_tail w (of_nat p) (of_nat (archive_size p (files w)))"
proof -
  let ?size = "archive_size p (files w)"
  let ?r = "find_first_cdfh_in_tail w (of_nat p) (of_nat ?size)"
  have us: "unat (of_nat ?size :: u64) = ?size" using assms(2) by (simp add: unat_of_nat)
  have up: "unat (of_nat p :: u64) = p"
    using assms(2) by (simp add: unat_of_nat archive_size_def)
  have "?r < 0x1000000"
  proof (cases "PART < ?size \<and> p < ?size - PART")
    case True
    with find_first_cdfh_cases[OF assms] show ?thesis
      by (auto simp: Let_def word_less_nat_alt BURST_EOCD_NO_CDFH_IN_TAIL_def)
  next
    case False
    have "?r = 0"
    proof (cases "PART < ?size")
      case True
      have "(of_nat ?size - BURST_PART_SIZE :: u64) = of_nat (?size - PART)"
        using True by (simp add: BURST_PART_SIZE_def of_nat_diff)
      moreover have "unat (of_nat (?size - PART) :: u64) = ?size - PART"
        using assms(2) by (simp add: unat_of_nat del: of_nat_diff)
      ultimately have "(of_nat ?size - BURST_PART_SIZE :: u64) \<le> of_nat p"
        using False True up by (simp add: word_le_nat_alt)
      then show ?thesis by (simp add: find_first_cdfh_in_tail_def Let_def)
    next
      case False
      then have "(of_nat ?size :: u64) \<le> BURST_PART_SIZE" using us by (simp add: word_le_nat_alt)
      then show ?thesis by (simp add: find_first_cdfh_in_tail_def)
    qed
    then show ?thesis by simp
  qed
  then show ?thesis by (rule uint24_small)
qed

lemma finalized_bytes:
  assumes "writer_wf w" and "burst_writer_finalize w = (0, w')"
  shows "out_written (output_file w') = stream w @ central_directory (files w) @
           end_records (num_files w) (length (stream w)) (length (central_directory (files w)))
             (find_first_cdfh_in_tail w (of_nat (length (stream w)))
                (of_nat (archive_size (length (stream w)) (files w))))"
  using burst_writer_finalize_refines(1)[OF assms] by (simp add: finalized_def archive_tail_def Let_def)

end
