(* ===== verification/Archive_Records.thy ===== *)
theory Archive_Records
  imports Entry_Extraction Writer_Main Directory_Roundtrip
begin

text \<open>
  What the writer command has put into the archive, item by item: the record of a file with data
  (\<open>wrote_file\<close>), the header and content of a directory, a link or an empty file (\<open>wrote_plain\<close>), and
  the entries of the directory with increasing offsets.
\<close>

section \<open>Items\<close>

abbreviation content_of :: "in_file \<Rightarrow> bytes" where
  "content_of inp \<equiv> readable (in_rewind inp)"

definition is_link :: "list_item \<Rightarrow> bool" where
  "is_link it \<longleftrightarrow> \<not> it_is_directory it \<and> S_ISLNK (st_mode (it_stat it))"

text \<open>A file is stored with its data unless \<open>stat\<close> says that it is empty.\<close>

definition has_data :: "list_item \<Rightarrow> bool" where
  "has_data it \<longleftrightarrow> \<not> it_is_directory it \<and> \<not> S_ISLNK (st_mode (it_stat it)) \<and> st_size (it_stat it) \<noteq> 0"

definition item_content :: "(bytes \<Rightarrow> in_file option) \<Rightarrow> list_item \<Rightarrow> bytes" where
  "item_content fopen it =
     (if has_data it then (case fopen (it_path it) of None \<Rightarrow> [] | Some inp \<Rightarrow> content_of inp)
      else if is_link it then item_target it
      else [])"

text \<open>The item has the shape that the directory walk gives it, its name is not that of a padding entry,
  and it is shorter than 4 GiB.\<close>

definition restorable :: "(bytes \<Rightarrow> in_file option) \<Rightarrow> list_item \<Rightarrow> bool" where
  "restorable fopen it \<longleftrightarrow>
     st_mode (it_stat it) < 0x10000 \<and> it_name it \<noteq> PADDING_LFH_FILENAME \<and> it_name it \<noteq> [] \<and> 0 \<notin> set (it_name it) \<and>
     (it_is_directory it \<longleftrightarrow> last (it_name it) = slash) \<and>
     (it_is_directory it \<longrightarrow> \<not> S_ISLNK (st_mode (it_stat it))) \<and>
     (is_link it \<longrightarrow> item_target it \<noteq> [] \<and> 0 \<notin> set (item_target it)) \<and>
     length (item_content fopen it) < 0xFFFFFFFF"

section \<open>Records\<close>

text \<open>From \<open>w\<close> to \<open>w'\<close> the record of one file was added, with the entry \<open>e\<close>.\<close>

definition wrote_file ::
  "writer_env \<Rightarrow> (bytes \<Rightarrow> in_file option) \<Rightarrow> list_item \<Rightarrow> burst_writer \<Rightarrow> burst_writer \<Rightarrow> file_entry \<Rightarrow> bool" where
  "wrote_file env fopen it w w' e \<longleftrightarrow>
     (\<exists>inp w1 lfh tail its. fopen (it_path it) = Some inp \<and>
        archive_inv w1 \<and> stream w1 = stream w \<and> compression_level w1 = compression_level w \<and>
        header_ok lfh tail 0 True \<and> header_complete lfh tail \<and> \<not> padding_named lfh tail \<and>
        length tail = length (it_name it) + 15 \<and>
        items_of env w1 lfh tail (content_of inp) = Some its \<and>
        stream w' = stream w @ file_record env w1 lfh tail (content_of inp) its \<and>
        files w' = files w @ [e] \<and> compression_level w' = compression_level w \<and>
        e = file_record_entry env w1 lfh tail (st_mode (it_stat it)) (st_uid (it_stat it)) (st_gid (it_stat it))
              (content_of inp) its \<and>
        fe_filename e = it_name it)"

text \<open>From \<open>w\<close> to \<open>w'\<close> a header and the content \<open>c\<close> were added.\<close>

definition wrote_plain ::
  "writer_env \<Rightarrow> bytes \<Rightarrow> list_item \<Rightarrow> burst_writer \<Rightarrow> burst_writer \<Rightarrow> file_entry \<Rightarrow> bool" where
  "wrote_plain env c it w w' e \<longleftrightarrow>
     (\<exists>w1 lfh tail dd. archive_inv w1 \<and> stream w1 = stream w \<and>
        header_ok lfh tail (length c) dd \<and> header_complete lfh tail \<and> \<not> padding_named lfh tail \<and>
        length tail = length (it_name it) + 15 \<and>
        stream w' = stream w @ padding_for (env_time env) w1 tail (length c) dd @ local_header_bytes lfh @ tail @ c \<and>
        files w' = files w @ [e] \<and> compression_level w' = compression_level w \<and>
        fe_local_header_offset e =
          of_nat (length (stream w) + length (padding_for (env_time env) w1 tail (length c) dd)) \<and>
        fe_compressed_size e = of_nat (length c) \<and> fe_uncompressed_size e = of_nat (length c) \<and>
        fe_unix_mode e = st_mode (it_stat it) \<and> fe_uid e = st_uid (it_stat it) \<and> fe_gid e = st_gid (it_stat it) \<and>
        fe_filename e = it_name it)"

definition wrote_item ::
  "writer_env \<Rightarrow> (bytes \<Rightarrow> in_file option) \<Rightarrow> list_item \<Rightarrow> burst_writer \<Rightarrow> burst_writer \<Rightarrow> file_entry \<Rightarrow> bool" where
  "wrote_item env fopen it w w' e \<longleftrightarrow>
     (if has_data it then wrote_file env fopen it w w' e
      else wrote_plain env (item_content fopen it) it w w' e)"

inductive wrote_items ::
  "writer_env \<Rightarrow> (bytes \<Rightarrow> in_file option) \<Rightarrow> list_item list \<Rightarrow> burst_writer \<Rightarrow> burst_writer \<Rightarrow> file_entry list \<Rightarrow> bool"
  for env fopen where
  nothing: "wrote_items env fopen [] w w []"
| more: "wrote_item env fopen it w w1 e \<Longrightarrow> wrote_items env fopen its w1 w' es \<Longrightarrow>
    wrote_items env fopen (it # its) w w' (e # es)"

lemma after_alloc:
  "c_alloc w = (True, w1) \<Longrightarrow> archive_inv w \<Longrightarrow>
   archive_inv w1 \<and> stream w1 = stream w \<and> files w1 = files w \<and> compression_level w1 = compression_level w"
  using c_alloc_inv[of w True w1] c_alloc_stream[of w True w1] c_alloc_view[of w True w1] by (simp add: keep_def)

lemma named_header:
  assumes "lh_signature lfh = ZIP_LOCAL_FILE_HEADER_SIG" and "lh_extra_field_length lfh = 15"
    and "lh_filename_length lfh = of_nat (length name)" and "tail = name @ build_unix_extra_field 16 uid gid"
    and "length name \<le> 65000" and "name \<noteq> PADDING_LFH_FILENAME"
  shows "header_complete lfh tail" and "\<not> padding_named lfh tail"
proof -
  have "unat (of_nat (length name) :: u16) = length name" using assms(5) by (simp add: unat_of_nat)
  then show "header_complete lfh tail" "\<not> padding_named lfh tail"
    using assms by (auto simp: header_complete_def padding_named_def)
qed

lemma process_entry_wrote_file:
  assumes env: "frames_fit env" and inv: "archive_inv w" and fits: "entry_fits (Some inp) name target w"
    and nul: "0 \<notin> set name" and name: "name \<noteq> PADDING_LFH_FILENAME"
    and reg: "\<not> S_ISLNK (st_mode st)" "st_size st \<noteq> 0"
    and run: "process_entry env (Some inp) name target st False w = (1, w')"
  shows "\<exists>w1 lfh tail its. archive_inv w1 \<and> stream w1 = stream w \<and> files w1 = files w \<and>
    compression_level w1 = compression_level w \<and>
    header_ok lfh tail 0 True \<and> header_complete lfh tail \<and> \<not> padding_named lfh tail \<and>
    length tail = length name + 15 \<and> items_of env w1 lfh tail (content_of inp) = Some its \<and>
    added w1 (file_record env w1 lfh tail (content_of inp) its)
      (file_record_entry env w1 lfh tail (st_mode st) (st_uid st) (st_gid st) (content_of inp) its) w' \<and>
    fe_filename (file_record_entry env w1 lfh tail (st_mode st) (st_uid st) (st_gid st) (content_of inp) its) = name"
proof -
  have len: "length name \<le> 65000" using fits by (simp add: entry_fits_def)
  from run reg obtain lfh tail w1
    where b: "build_local_file_header env name False (st_uid st) (st_gid st) w = (Some (lfh, tail), w1)"
      and a: "burst_writer_add_file env inp lfh tail (st_mode st) (st_uid st) (st_gid st) w1 = (0, w')"
    by (auto simp: process_entry_def dest!: success_of_one split: prod.splits option.splits)
  note h = build_local_file_header_ok[OF b len]
  note w1 = after_alloc[OF h(3) inv]
  have not_only: "\<not> is_header_only lfh" using h(2) by simp
  have "lh_extra_field_length lfh = 15" "lh_signature lfh = ZIP_LOCAL_FILE_HEADER_SIG"
    using b by (auto simp: build_local_file_header_def Let_def split: prod.splits if_splits)
  note hc = named_header[OF this(2,1) h(5,4) len name]
  have bud: "budget (length (stream w1)) (Suc (length (chunks (content_of inp))))"
    using fits w1 by (simp add: entry_fits_def)
  have inv1: "archive_inv w1" using w1 by simp
  have "in_seekable inp" using add_file_seekable[OF a] not_only by simp
  from burst_writer_add_file_refines(1)[OF env inv1 h(1) not_only this bud a]
  obtain its where its: "items_of env w1 lfh tail (content_of inp) = Some its"
    and ad: "added w1 (file_record env w1 lfh tail (content_of inp) its)
      (file_record_entry env w1 lfh tail (st_mode st) (st_uid st) (st_gid st) (content_of inp) its) w'" by blast
  have "fe_filename (file_record_entry env w1 lfh tail (st_mode st) (st_uid st) (st_gid st) (content_of inp) its) = name"
    using named_entry_name[OF nul len h(5), of "build_unix_extra_field 16 (st_uid st) (st_gid st)"] h(4)
    by (simp add: entry_fields)
  moreover have "length tail = length name + 15" using h(4) by simp
  ultimately show ?thesis using w1 h(1) hc its ad by blast
qed

text \<open>A directory, a link and an empty file are a header and what follows it.\<close>

lemma wrote_plainI:
  assumes w1: "c_alloc w = (True, w1)" "archive_inv w"
    and ad: "added w1 (padding_for (env_time env) w1 tail (length c) dd @ local_header_bytes lfh @ tail @ c) e w'"
    and h: "header_ok lfh tail (length c) dd" "header_complete lfh tail" "\<not> padding_named lfh tail"
      "tail = it_name it @ build_unix_extra_field 16 uid gid"
    and e: "fe_local_header_offset e =
        of_nat (length (stream w1) + length (padding_for (env_time env) w1 tail (length c) dd))"
      "fe_compressed_size e = of_nat (length c)" "fe_uncompressed_size e = of_nat (length c)"
      "fe_unix_mode e = st_mode (it_stat it)" "fe_uid e = st_uid (it_stat it)" "fe_gid e = st_gid (it_stat it)"
      "fe_filename e = it_name it"
  shows "wrote_plain env c it w w' e"
  using after_alloc[OF w1] assms
  unfolding wrote_plain_def added_def
  by (intro exI[of _ w1] exI[of _ lfh] exI[of _ tail] exI[of _ dd]) simp

lemma process_entry_wrote_plain:
  assumes inv: "archive_inv w" and fits: "entry_fits source (it_name it) (item_target it) w"
    and nul: "0 \<notin> set (it_name it)" and name: "it_name it \<noteq> PADDING_LFH_FILENAME" and plain: "\<not> has_data it"
    and run: "process_entry env source (it_name it) (item_target it) (it_stat it) (it_is_directory it) w = (1, w')"
  shows "\<exists>e. wrote_plain env (item_content fopen it) it w w' e"
proof -
  let ?name = "it_name it" and ?st = "it_stat it" and ?t = "item_target it"
  have len: "length ?name \<le> 65000" "length ?name + length ?t \<le> 65000" using fits by (simp_all add: entry_fits_def)
  have small: "length (stream w1) < 2 ^ 62" if "c_alloc w = (True, w1)" for w1
    using after_alloc[OF that inv] entry_fits_length[OF fits] by simp
  consider (dir) "it_is_directory it" | (link) "\<not> it_is_directory it" "S_ISLNK (st_mode ?st)"
    | (empty_file) inp where "\<not> it_is_directory it" "\<not> S_ISLNK (st_mode ?st)" "st_size ?st = 0" "source = Some inp"
    using run plain by (cases source) (auto simp: has_data_def process_entry_def split: if_splits)
  then show ?thesis
  proof cases
    case dir
    with run obtain lfh tail w1
      where b: "build_directory_local_file_header env ?name (st_uid ?st) (st_gid ?st) (st_mtime ?st) w
        = (Some (lfh, tail), w1)"
        and a: "burst_writer_add_directory env lfh tail (st_mode ?st) (st_uid ?st) (st_gid ?st) w1 = (0, w')"
      by (auto simp: process_entry_def dest!: success_of_one split: prod.splits option.splits)
    note h = build_directory_header_ok[OF b len(1)]
    have "lh_extra_field_length lfh = 15" "lh_signature lfh = ZIP_LOCAL_FILE_HEADER_SIG"
      using b by (auto simp: build_directory_local_file_header_def Let_def split: prod.splits if_splits)
    note hc = named_header[OF this(2,1) h(4,3) len(1) name]
    have inv1: "archive_inv w1" using after_alloc[OF h(2) inv] by simp
    note ad = burst_writer_add_directory_adds[OF inv1 small[OF h(2)] h(1,5)]
    have "item_content fopen it = []" using dir by (simp add: item_content_def has_data_def is_link_def)
    moreover have "wrote_plain env [] it w w' (directory_entry lfh tail
        (length (stream w1) + length (padding_for (env_time env) w1 tail 0 False)) (st_mode ?st) (st_uid ?st) (st_gid ?st))"
      using ad a h(1) hc named_entry_name[OF nul len(1) h(4), of "build_unix_extra_field 16 (st_uid ?st) (st_gid ?st)"] h(3)
      by (intro wrote_plainI[OF h(2) inv, where dd = False]) (auto simp: adds_def entry_fields)
    ultimately show ?thesis by auto
  next
    case link
    with run obtain lfh tail w1
      where b: "build_symlink_local_file_header env ?name ?t (st_uid ?st) (st_gid ?st) w = (Some (lfh, tail), w1)"
        and a: "burst_writer_add_symlink env lfh tail ?t (st_mode ?st) (st_uid ?st) (st_gid ?st) w1 = (0, w')"
      by (auto simp: process_entry_def dest!: success_of_one split: prod.splits option.splits)
    note h = build_symlink_header_ok[OF b len(2)]
    have "lh_extra_field_length lfh = 15" "lh_signature lfh = ZIP_LOCAL_FILE_HEADER_SIG"
      using b by (auto simp: build_symlink_local_file_header_def Let_def split: prod.splits if_splits)
    note hc = named_header[OF this(2,1) h(4,3) len(1) name]
    have inv1: "archive_inv w1" using after_alloc[OF h(2) inv] by simp
    note ad = burst_writer_add_symlink_adds[OF inv1 small[OF h(2)] h(1) add_symlink_target[OF a]]
    have "item_content fopen it = ?t" using link by (simp add: item_content_def has_data_def is_link_def)
    moreover have "wrote_plain env ?t it w w' (symlink_entry lfh tail ?t
        (length (stream w1) + length (padding_for (env_time env) w1 tail (length ?t) False)) (st_mode ?st) (st_uid ?st) (st_gid ?st))"
      using ad a h(1) hc named_entry_name[OF nul len(1) h(4), of "build_unix_extra_field 16 (st_uid ?st) (st_gid ?st)"] h(3)
      by (intro wrote_plainI[OF h(2) inv, where dd = False]) (auto simp: adds_def entry_fields)
    ultimately show ?thesis by auto
  next
    case (empty_file inp)
    with run obtain lfh tail w1
      where b: "build_local_file_header env ?name True (st_uid ?st) (st_gid ?st) w = (Some (lfh, tail), w1)"
        and a: "burst_writer_add_file env inp lfh tail (st_mode ?st) (st_uid ?st) (st_gid ?st) w1 = (0, w')"
      by (auto simp: process_entry_def dest!: success_of_one split: prod.splits option.splits)
    note h = build_local_file_header_ok[OF b len(1)]
    have "lh_extra_field_length lfh = 15" "lh_signature lfh = ZIP_LOCAL_FILE_HEADER_SIG"
      using b by (auto simp: build_local_file_header_def Let_def split: prod.splits if_splits)
    note hc = named_header[OF this(2,1) h(5,4) len(1) name]
    have inv1: "archive_inv w1" using after_alloc[OF h(3) inv] by simp
    have only: "is_header_only lfh" using h(2) by simp
    note ad = burst_writer_add_empty_file_adds[OF inv1 small[OF h(3)] h(1) only]
    have "item_content fopen it = []" using empty_file by (simp add: item_content_def has_data_def is_link_def)
    moreover have "wrote_plain env [] it w w' (file_entry_start lfh tail
        (length (stream w1) + length (padding_for (env_time env) w1 tail 0 True)) (st_mode ?st) (st_uid ?st) (st_gid ?st))"
      using ad a h(1) hc named_entry_name[OF nul len(1) h(5), of "build_unix_extra_field 16 (st_uid ?st) (st_gid ?st)"] h(4)
      by (intro wrote_plainI[OF h(3) inv, where dd = True]) (auto simp: adds_def entry_fields named_entry_def empty_entry_def)
    ultimately show ?thesis by auto
  qed
qed

lemma process_entry_wrote:
  assumes env: "frames_fit env" and inv: "archive_inv w"
    and fits: "entry_fits (fopen (it_path it)) (it_name it) (item_target it) w"
    and r: "item_ready env fopen (compression_level w) it" and g: "restorable fopen it"
    and run: "process_entry env (fopen (it_path it)) (it_name it) (item_target it) (it_stat it) (it_is_directory it) w
      = (1, w')"
  shows "\<exists>e. wrote_item env fopen it w w' e"
proof -
  have nul: "0 \<notin> set (it_name it)" using r by (simp add: item_ready_def)
  have name: "it_name it \<noteq> PADDING_LFH_FILENAME" using g by (simp add: restorable_def)
  show ?thesis
  proof (cases "has_data it")
    case False
    then show ?thesis
      using process_entry_wrote_plain[OF inv fits nul name False run] by (simp add: wrote_item_def)
  next
    case True
    then have d: "\<not> it_is_directory it" "\<not> S_ISLNK (st_mode (it_stat it))" "st_size (it_stat it) \<noteq> 0"
      by (simp_all add: has_data_def)
    obtain inp where inp: "fopen (it_path it) = Some inp"
      using r d by (auto simp: item_ready_def entry_ready_def split: option.splits)
    from process_entry_wrote_file[OF env inv fits[unfolded inp] nul name d(2,3)] run d(1) inp
    obtain v lfh tail js where v: "archive_inv v" "stream v = stream w" "files v = files w"
      "compression_level v = compression_level w"
      "header_ok lfh tail 0 True" "header_complete lfh tail" "\<not> padding_named lfh tail"
      "length tail = length (it_name it) + 15" "items_of env v lfh tail (content_of inp) = Some js"
      "added v (file_record env v lfh tail (content_of inp) js) (file_record_entry env v lfh tail
        (st_mode (it_stat it)) (st_uid (it_stat it)) (st_gid (it_stat it)) (content_of inp) js) w'"
      "fe_filename (file_record_entry env v lfh tail
        (st_mode (it_stat it)) (st_uid (it_stat it)) (st_gid (it_stat it)) (content_of inp) js) = it_name it"
      by auto
    then have "\<exists>e. wrote_file env fopen it w w' e"
      unfolding wrote_file_def using inp
      by (intro exI[of _ "file_record_entry env v lfh tail (st_mode (it_stat it)) (st_uid (it_stat it))
            (st_gid (it_stat it)) (content_of inp) js"] exI[of _ inp] exI[of _ v] exI[of _ lfh] exI[of _ tail]
            exI[of _ js]) (simp add: added_def)
    with True show ?thesis by (simp add: wrote_item_def)
  qed
qed

lemma wrote_item_files:
  "wrote_item env fopen it w w' e \<Longrightarrow>
   files w' = files w @ [e] \<and> compression_level w' = compression_level w \<and> fe_filename e = it_name it \<and>
   (\<exists>d. stream w' = stream w @ d)"
  by (auto simp: wrote_item_def wrote_file_def wrote_plain_def split: if_splits)

lemma process_entries_wrote:
  assumes env: "frames_fit env"
  shows "archive_inv w \<Longrightarrow> fault_free w \<Longrightarrow>
     \<forall>it \<in> set its. item_ready env fopen (compression_level w) it \<and> restorable fopen it \<Longrightarrow>
     budget (length (stream w)) (items_cost fopen its) \<Longrightarrow>
     \<exists>w' es. process_entries env fopen its n w = (n + int (length its), w') \<and> archive_inv w' \<and> fault_free w' \<and>
       files w' = files w @ es \<and> wrote_items env fopen its w w' es"
proof (induction its arbitrary: n w)
  case Nil
  then show ?case by (intro exI[of _ w] exI[of _ "[]"]) (simp add: wrote_items.nothing)
next
  case (Cons it its)
  let ?o = "fopen (it_path it)"
  let ?run = "process_entry env ?o (it_name it) (item_target it) (it_stat it) (it_is_directory it) w"
  have r: "item_ready env fopen (compression_level w) it" and g: "restorable fopen it"
    using Cons.prems(3) by simp_all
  have bud: "budget (length (stream w)) (entry_cost ?o + items_cost fopen its)"
    using Cons.prems(4) by (simp add: items_cost_def)
  have fits: "entry_fits ?o (it_name it) (item_target it) w"
    using r bud by (auto simp: entry_fits_def item_ready_def budget_def entry_cost_def)
  have nul: "0 \<notin> set (it_name it)" using r by (simp add: item_ready_def)
  have "fst ?run = 1"
    using process_entry_live[OF env Cons.prems(1) fits Cons.prems(2)] r by (simp add: item_ready_def)
  then obtain w1 where w1: "?run = (1, w1)" by (metis prod.collapse)
  from process_entry_added[OF env Cons.prems(1) fits nul w1] Cons.prems(2)
  obtain d where a: "archive_inv w1" "fault_free w1" "compression_level w1 = compression_level w"
    "stream w1 = stream w @ d" "length d \<le> entry_cost ?o * (2 * PART)"
    by (auto simp: entry_added_def)
  obtain e where e: "wrote_item env fopen it w w1 e"
    using process_entry_wrote[OF env Cons.prems(1) fits r g w1] by blast
  have "budget (length (stream w1)) (items_cost fopen its)"
    using bud a(4,5) by (simp add: budget_def algebra_simps)
  from Cons.IH[OF a(1,2) _ this, of "n + 1"] Cons.prems(3) a(3)
  obtain w' es where w': "process_entries env fopen its (n + 1) w1 = (n + 1 + int (length its), w')"
    "archive_inv w'" "fault_free w'" "files w' = files w1 @ es" "wrote_items env fopen its w1 w' es" by auto
  have "process_entries env fopen (it # its) n w = (n + int (length (it # its)), w')"
    using w1 w'(1) by (simp add: item_target_def add.assoc)
  then show ?case
    using w'(2-4) wrote_item_files[OF e] wrote_items.more[OF e w'(5)]
    by (intro exI[of _ w'] exI[of _ "e # es"]) simp
qed

section \<open>Entries\<close>

text \<open>What an entry of a small archive records.\<close>

definition entry_of :: "list_item \<Rightarrow> bytes \<Rightarrow> file_entry \<Rightarrow> bool" where
  "entry_of it c e \<longleftrightarrow>
     entry_ok e \<and> fe_filename e = it_name it \<and> 0 \<notin> set (it_name it) \<and> fe_uncompressed_size e = of_nat (length c) \<and>
     fe_unix_mode e = st_mode (it_stat it) \<and> fe_uid e = st_uid (it_stat it) \<and> fe_gid e = st_gid (it_stat it) \<and>
     (fe_unix_mode e AND S_IFMT = S_IFLNK \<longleftrightarrow> is_link it)"

lemma small_word:
  assumes "n < 0xFFFFFFFF"
  shows "unat (of_nat n :: u64) = n" and "(of_nat n :: u64) \<noteq> 0xFFFFFFFF"
proof -
  show u: "unat (of_nat n :: u64) = n" using assms by (simp add: unat_of_nat)
  show "(of_nat n :: u64) \<noteq> 0xFFFFFFFF"
  proof
    assume "(of_nat n :: u64) = 0xFFFFFFFF"
    then have "unat (of_nat n :: u64) = unat (0xFFFFFFFF :: u64)" by simp
    with u assms show False by simp
  qed
qed

lemma wrote_file_entry:
  assumes wr: "wrote_file env fopen it w w' e" and len: "length (stream w') \<le> PART"
  shows "\<exists>inp pos c. fopen (it_path it) = Some inp \<and> fe_uncompressed_size e = of_nat (length (content_of inp)) \<and>
    fe_compressed_size e = of_nat c \<and> c \<le> PART \<and>
    fe_unix_mode e = st_mode (it_stat it) \<and> fe_uid e = st_uid (it_stat it) \<and> fe_gid e = st_gid (it_stat it) \<and>
    fe_local_header_offset e = of_nat pos \<and> length (stream w) \<le> pos \<and> pos < length (stream w')"
proof -
  obtain inp w1 lfh tail its where o: "fopen (it_path it) = Some inp" and s1: "stream w1 = stream w"
    and s: "stream w' = stream w @ file_record env w1 lfh tail (content_of inp) its"
    and e: "e = file_record_entry env w1 lfh tail (st_mode (it_stat it)) (st_uid (it_stat it))
              (st_gid (it_stat it)) (content_of inp) its"
    using wr by (auto simp: wrote_file_def)
  let ?pos = "length (stream w) + length (padding_for (env_time env) w1 tail 0 True)"
  have le: "?pos + 30 + length (items_bytes its) \<le> length (stream w')"
    using s by (simp add: file_record_def file_body_def)
  have "fe_local_header_offset e = of_nat ?pos" using s1 by (simp add: e entry_fields)
  with o le len show ?thesis
    by (intro exI[of _ inp] exI[of _ ?pos] exI[of _ "length (items_bytes its)"]) (simp add: e entry_fields)
qed

lemma wrote_plain_entry:
  assumes wr: "wrote_plain env c it w w' e" and len: "length (stream w') \<le> PART"
  shows "\<exists>pos. fe_local_header_offset e = of_nat pos \<and> length (stream w) \<le> pos \<and> pos < length (stream w') \<and>
    length c \<le> PART"
  using assms unfolding wrote_plain_def by fastforce

lemma wrote_item_entry:
  assumes wr: "wrote_item env fopen it w w' e" and reg: "restorable fopen it"
    and name: "length (it_name it) < 65536" and len: "length (stream w') \<le> PART"
  shows "\<exists>pos. entry_of it (item_content fopen it) e \<and>
    fe_local_header_offset e = of_nat pos \<and> length (stream w) \<le> pos \<and> pos < length (stream w')"
proof -
  have "\<exists>pos c. fe_uncompressed_size e = of_nat (length (item_content fopen it)) \<and>
    fe_compressed_size e = of_nat c \<and> c \<le> PART \<and>
    fe_unix_mode e = st_mode (it_stat it) \<and> fe_uid e = st_uid (it_stat it) \<and> fe_gid e = st_gid (it_stat it) \<and>
    fe_local_header_offset e = of_nat pos \<and> length (stream w) \<le> pos \<and> pos < length (stream w')"
  proof (cases "has_data it")
    case True
    then show ?thesis
      using wrote_file_entry[of env fopen it w w' e] wr len by (auto simp: wrote_item_def item_content_def)
  next
    case False
    then have p: "wrote_plain env (item_content fopen it) it w w' e" using wr by (simp add: wrote_item_def)
    from wrote_plain_entry[OF this len] p show ?thesis by (auto simp: wrote_plain_def)
  qed
  then obtain pos c where f: "fe_uncompressed_size e = of_nat (length (item_content fopen it))"
    "fe_compressed_size e = of_nat c" "c \<le> PART"
    "fe_unix_mode e = st_mode (it_stat it)" "fe_uid e = st_uid (it_stat it)" "fe_gid e = st_gid (it_stat it)"
    "fe_local_header_offset e = of_nat pos" "length (stream w) \<le> pos" "pos < length (stream w')" by blast
  have small: "pos < 0xFFFFFFFF" "c < 0xFFFFFFFF" using f(3,9) len by simp_all
  have r: "length (item_content fopen it) < 0xFFFFFFFF" using reg by (simp add: restorable_def)
  have "entry_of it (item_content fopen it) e"
    using small_word(2)[OF small(1)] small_word(2)[OF small(2)] small_word(2)[OF r] f name reg wrote_item_files[OF wr]
    by (auto simp: entry_of_def entry_ok_def no_ambiguous_size_def restorable_def is_link_def
        S_ISLNK_def S_IFMT_def S_IFLNK_def)
  with f(7-9) show ?thesis by blast
qed

text \<open>The archive grows with every item, and the entries point to increasing offsets.\<close>

definition offsets_in :: "nat \<Rightarrow> nat \<Rightarrow> file_entry list \<Rightarrow> bool" where
  "offsets_in a b es \<longleftrightarrow>
     sorted_wrt (<) (map (\<lambda>e. unat (fe_local_header_offset e)) es) \<and>
     (\<forall>e \<in> set es. a \<le> unat (fe_local_header_offset e) \<and> unat (fe_local_header_offset e) < b)"

lemma wrote_items_stream:
  "wrote_items env fopen its w w' es \<Longrightarrow>
   (\<exists>d. stream w' = stream w @ d) \<and> compression_level w' = compression_level w"
  by (induction rule: wrote_items.induct) (fastforce dest: wrote_item_files)+

lemma wrote_items_length: "wrote_items env fopen its w w' es \<Longrightarrow> length (stream w) \<le> length (stream w')"
  using wrote_items_stream by fastforce

lemma wrote_items_entries:
  assumes "wrote_items env fopen its w w' es"
    and "\<forall>it \<in> set its. restorable fopen it \<and> length (it_name it) < 65536" and "length (stream w') \<le> PART"
  shows "list_all2 (\<lambda>it e. entry_of it (item_content fopen it) e) its es \<and>
    offsets_in (length (stream w)) (length (stream w')) es"
  using assms
proof (induction rule: wrote_items.induct)
  case (nothing w)
  then show ?case by (simp add: offsets_in_def)
next
  case (more it w w1 e its w' es)
  have le: "length (stream w1) \<le> length (stream w')" using wrote_items_length[OF more.hyps(2)] .
  then have "length (stream w1) \<le> PART" using more.prems(2) by simp
  from wrote_item_entry[OF more.hyps(1) _ _ this] more.prems
  obtain pos where e: "entry_of it (item_content fopen it) e"
    and pos: "fe_local_header_offset e = of_nat pos" "length (stream w) \<le> pos" "pos < length (stream w1)" by auto
  have u: "unat (fe_local_header_offset e) = pos"
    using small_word(1)[of pos] pos le more.prems(2) by simp
  have "offsets_in (length (stream w1)) (length (stream w')) es" using more by simp
  then have "offsets_in (length (stream w)) (length (stream w')) (e # es)"
    using pos le u by (fastforce simp: offsets_in_def)
  with e more show ?case by auto
qed

end
