(* ===== verification/Item_Extraction.thy ===== *)
theory Item_Extraction
  imports Archive_Records
begin

text \<open>
  The records of the writer, one after the other, through the part processor: each becomes the file,
  directory or link that its item describes, and what was there before stays.
\<close>

section \<open>Names that come after each other\<close>

text \<open>\<open>q\<close> is \<open>p\<close> or a directory on the way to it.\<close>

definition on_the_way :: "path \<Rightarrow> path \<Rightarrow> bool" where
  "on_the_way p q \<longleftrightarrow> fst q = fst p \<and> snd q = take (length (snd q)) (snd p)"

lemma on_the_way_refl [simp]: "on_the_way p p"
  by (simp add: on_the_way_def)

lemma on_the_wayI: "on_the_way p (fst p, take k (snd p))"
  by (simp add: on_the_way_def min_def)

abbreviation item_file :: "bytes \<Rightarrow> list_item \<Rightarrow> bytes" where
  "item_file dir it \<equiv> dir @ slash # it_name it"

abbreviation item_path :: "bytes \<Rightarrow> list_item \<Rightarrow> path" where
  "item_path dir it \<equiv> resolve (item_file dir it)"

text \<open>\<open>b\<close> comes after \<open>a\<close>: it is neither \<open>a\<close> nor on the way to it, and \<open>a\<close> may be on the way to \<open>b\<close> only as
  a directory.\<close>

definition may_follow :: "bytes \<Rightarrow> list_item \<Rightarrow> list_item \<Rightarrow> bool" where
  "may_follow dir a b \<longleftrightarrow>
     \<not> on_the_way (item_path dir a) (item_path dir b) \<and>
     (on_the_way (item_path dir b) (item_path dir a) \<longrightarrow> it_is_directory a)"

definition item_creatable :: "os_state \<Rightarrow> bytes \<Rightarrow> list_item \<Rightarrow> bool" where
  "item_creatable os dir it \<longleftrightarrow>
     (if it_is_directory it then creatable_dir os (item_file dir it)
      else if is_link it then creatable_link os (item_file dir it)
      else creatable os (item_file dir it))"

lemma holds_node_elsewhere:
  assumes "holds_node os name n os'" and "q \<noteq> resolve name"
  shows "os_nodes os' q = os_nodes os q \<or> os_nodes os q = None \<and> is_dir os' q \<and> on_the_way (resolve name) q"
  using assms on_the_wayI unfolding holds_node_def by metis

lemma dirs_free_kept:
  assumes h: "holds_node os name n os'" and d: "dirs_free os (parent p)"
    and b: "on_the_way p (resolve name) \<longrightarrow> (\<exists>a. n = Directory a)"
  shows "dirs_free os' (parent p)"
  unfolding dirs_free_def
proof (intro allI impI)
  fix k
  let ?q = "(fst (parent p), take k (snd (parent p)))"
  assume k: "k \<le> length (snd (parent p))" and ne: "os_nodes os' ?q \<noteq> None"
  have q: "?q = (fst p, take k (snd p))"
    using k by (simp add: parent_def butlast_conv_take take_take min_absorb1)
  show "is_dir os' ?q"
  proof (cases "?q = resolve name")
    case True
    then have "\<exists>a. n = Directory a" using b on_the_wayI q by metis
    then show ?thesis using h True by (auto simp: holds_node_def is_dir_def)
  next
    case False
    from holds_node_elsewhere[OF h False] show ?thesis
    proof
      assume "os_nodes os' ?q = os_nodes os ?q"
      then show ?thesis using d k ne by (auto simp: dirs_free_def is_dir_def)
    qed simp
  qed
qed

lemma item_creatable_kept:
  assumes h: "holds_node os (item_file dir a) n os'" and c: "item_creatable os dir b" and f: "may_follow dir a b"
    and n: "it_is_directory a \<longrightarrow> (\<exists>x. n = Directory x)"
  shows "item_creatable os' dir b"
proof -
  have "item_path dir b \<noteq> item_path dir a" using f by (metis may_follow_def on_the_way_refl)
  from holds_node_elsewhere[OF h this] have "os_nodes os' (item_path dir b) = os_nodes os (item_path dir b)"
    using f by (auto simp: may_follow_def)
  moreover have "dirs_free os (parent (item_path dir b)) \<Longrightarrow> dirs_free os' (parent (item_path dir b))"
    using dirs_free_kept[OF h] f n by (auto simp: may_follow_def)
  ultimately show ?thesis using c by (simp add: item_creatable_def creatable_def creatable_dir_def creatable_link_def split: if_splits)
qed

section \<open>What is expected of the file system\<close>

text \<open>The system refuses nothing, and the descriptors it will hand out are unused.\<close>

definition idle :: "os_state \<Rightarrow> bool" where
  "idle os \<longleftrightarrow> quiet os \<and> 0 \<le> os_next_fd os \<and> (\<forall>fd \<ge> os_next_fd os. os_fds os fd = None)"

lemma idle_after: "holds_node os name n os' \<Longrightarrow> idle os \<Longrightarrow> idle os'"
  by (simp add: holds_node_def idle_def)

definition owned_by :: "bool \<Rightarrow> list_item \<Rightarrow> attrs \<Rightarrow> bool" where
  "owned_by super it a \<longleftrightarrow> (super \<longrightarrow> at_uid a = st_uid (it_stat it) \<and> at_gid a = st_gid (it_stat it))"

definition has_mode :: "list_item \<Rightarrow> attrs \<Rightarrow> bool" where
  "has_mode it a \<longleftrightarrow> at_mode a = st_mode (it_stat it) AND 0xFFF"

text \<open>The node of an item: its kind, its bytes or target, its permissions and, for the superuser, its
  owner.\<close>

definition shows_item :: "bool \<Rightarrow> list_item \<Rightarrow> bytes \<Rightarrow> node \<Rightarrow> bool" where
  "shows_item super it c n \<longleftrightarrow>
     (case n of
        Directory a \<Rightarrow> it_is_directory it \<and> has_mode it a \<and> owned_by super it a
      | Symbolic t a \<Rightarrow> is_link it \<and> t = c \<and> owned_by super it a
      | Regular d a \<Rightarrow> \<not> it_is_directory it \<and> \<not> is_link it \<and> d = c \<and> has_mode it a \<and> owned_by super it a)"

lemma shows_item_kind:
  assumes "shows_item super it c n"
  shows "it_is_directory it \<Longrightarrow> \<exists>a. n = Directory a" and "is_link it \<Longrightarrow> \<exists>a. n = Symbolic c a"
    and "\<not> it_is_directory it \<Longrightarrow> \<not> is_link it \<Longrightarrow> \<exists>a. n = Regular c a"
  using assms by (auto simp: shows_item_def is_link_def split: node.splits)

text \<open>The items are there, the directories on the way to them may be new, and nothing else has changed.\<close>

definition delivers ::
  "(bytes \<Rightarrow> in_file option) \<Rightarrow> bytes \<Rightarrow> list_item list \<Rightarrow> os_state \<Rightarrow> os_state \<Rightarrow> bool" where
  "delivers fopen dir its os os' \<longleftrightarrow>
     (\<forall>it \<in> set its. \<exists>n. os_nodes os' (item_path dir it) = Some n \<and>
        shows_item (os_euid os = 0) it (item_content fopen it) n) \<and>
     (\<forall>q. q \<notin> item_path dir ` set its \<longrightarrow>
        os_nodes os' q = os_nodes os q \<or>
        os_nodes os q = None \<and> is_dir os' q \<and> (\<exists>it \<in> set its. on_the_way (item_path dir it) q)) \<and>
     os_fds os' = os_fds os \<and> os_euid os' = os_euid os \<and> idle os'"

lemma delivers_Cons:
  assumes h: "holds_node os (item_file dir it) n os1" and n: "shows_item (os_euid os = 0) it (item_content fopen it) n"
    and f: "\<forall>b \<in> set its. may_follow dir it b" and del: "delivers fopen dir its os1 os'"
  shows "delivers fopen dir (it # its) os os'"
proof -
  have ne: "item_path dir it \<notin> item_path dir ` set its"
    using f by (metis (mono_tags, lifting) may_follow_def image_iff on_the_way_refl)
  have n1: "os_nodes os1 (item_path dir it) = Some n" and e: "os_euid os1 = os_euid os" "os_fds os1 = os_fds os"
    using h by (simp_all add: holds_node_def)
  then have "os_nodes os' (item_path dir it) = Some n" using del ne unfolding delivers_def by fastforce
  moreover have "os_nodes os' q = os_nodes os q \<or>
      os_nodes os q = None \<and> is_dir os' q \<and> (\<exists>b \<in> set (it # its). on_the_way (item_path dir b) q)"
    if q: "q \<notin> item_path dir ` set (it # its)" for q
  proof -
    have h1: "os_nodes os1 q = os_nodes os q \<or>
        os_nodes os q = None \<and> is_dir os1 q \<and> on_the_way (item_path dir it) q"
      using holds_node_elsewhere[OF h, of q] q by simp
    have "os_nodes os' q = os_nodes os1 q \<or>
        os_nodes os1 q = None \<and> is_dir os' q \<and> (\<exists>b \<in> set its. on_the_way (item_path dir b) q)"
      using del q unfolding delivers_def by (simp del: split_paired_All)
    moreover have "is_dir os1 q \<Longrightarrow> os_nodes os' q = os_nodes os1 q \<Longrightarrow> is_dir os' q" by (simp add: is_dir_def)
    ultimately show ?thesis using h1 by auto
  qed
  ultimately show ?thesis using del n e by (simp add: delivers_def)
qed

section \<open>Records\<close>

text \<open>The entries that the processor has still to extract.\<close>

definition expects :: "u64 \<Rightarrow> part_processor_state \<Rightarrow> file_entry list \<Rightarrow> bool" where
  "expects part_len st es \<longleftrightarrow>
     map (\<lambda>x. cp_files (ps_cd_result st) ! pe_file_index x) (drop (ps_next_entry_idx st) (pf_entries (this_part st)))
       = map (metadata_of part_len) es"

definition after_files :: "part_processor_state \<Rightarrow> nat \<Rightarrow> nat \<Rightarrow> os_state \<Rightarrow> part_processor_state" where
  "after_files st k n os =
     st\<lparr>ps_os := os, ps_next_entry_idx := ps_next_entry_idx st + k,
        ps_bytes_processed := ps_bytes_processed st + of_nat n\<rparr>"

lemma after_files_fields [simp]:
  "ps_os (after_files st k n os) = os" "ps_state (after_files st k n os) = ps_state st"
  "ps_current_file (after_files st k n os) = ps_current_file st"
  "ps_output_dir (after_files st k n os) = ps_output_dir st"
  "ps_part_start_offset (after_files st k n os) = ps_part_start_offset st"
  "ps_bytes_processed (after_files st k n os) = ps_bytes_processed st + of_nat n"
  "ps_frame_buffer (after_files st k n os) = ps_frame_buffer st"
  "after_files (after_files st k n os) k' n' os' = after_files st (k + k') (n + n') os'"
  by (simp_all add: after_files_def add.assoc)

lemma extracted_after: "extracted st n os = after_files st 1 n os"
  by (simp add: extracted_def after_files_def)

lemma expects_Cons:
  assumes "expects part_len st (e # es)"
  shows "ps_next_entry_idx st < length (pf_entries (this_part st))"
    and "metadata_of part_len e
           = cp_files (ps_cd_result st) ! pe_file_index (pf_entries (this_part st) ! ps_next_entry_idx st)"
    and "expects part_len (after_files st 1 n os) es"
proof -
  let ?k = "ps_next_entry_idx st" and ?es = "pf_entries (this_part st)"
  have ne: "drop ?k ?es \<noteq> []" using assms by (auto simp: expects_def)
  then show lt: "?k < length ?es" by (metis drop_all not_le)
  have "drop ?k ?es = ?es ! ?k # drop (Suc ?k) ?es" using lt by (simp add: Cons_nth_drop_Suc)
  then show "metadata_of part_len e = cp_files (ps_cd_result st) ! pe_file_index (?es ! ?k)"
    and "expects part_len (after_files st 1 n os) es"
    using assms by (simp_all add: expects_def after_files_def)
qed

lemma settled_fields:
  assumes "ready st"
  shows "ps_state (settled st) = STATE_EXPECT_LOCAL_HEADER" "ps_current_file (settled st) = None"
    "ps_frame_buffer (settled st) = ps_frame_buffer st" "ps_output_dir (settled st) = ps_output_dir st"
  using ready_close[OF assms] by auto

text \<open>A record starts with a local header, so it finds the processor settled.\<close>

lemma record_settles:
  assumes "ready st" and "lh_signature h = ZIP_LOCAL_FILE_HEADER_SIG"
    and d: "d = entry_padding ct p need @ local_header_bytes h @ x"
  shows "process_loop zr (pre @ d @ rest) (length pre) st = process_loop zr (pre @ d @ rest) (length pre) (settled st)"
proof -
  have "\<exists>h' y. lh_signature h' = ZIP_LOCAL_FILE_HEADER_SIG \<and> d = local_header_bytes h' @ y"
  proof (cases "room p < need")
    case True
    then show ?thesis
      unfolding d entry_padding_def padding_lfh_def
      by (intro exI[of _ "padding_header ct (of_nat (room p - 44))"])
        (auto simp: padding_header_def split: prod.splits)
  next
    case False
    then show ?thesis using assms(2) d by (auto simp: entry_padding_def)
  qed
  then show ?thesis using ready_header[OF assms(1)] by force
qed

lemma metadata_item:
  assumes "entry_of it c e"
  shows "fm_filename (metadata_of part_len e) = it_name it" "fm_is_symlink (metadata_of part_len e) = is_link it"
    "fm_uncompressed_size (metadata_of part_len e) = of_nat (length c)"
    "has_mode it (restored (context_of name (metadata_of part_len e)) super a)"
    "owned_by super it (restored (context_of name (metadata_of part_len e)) super a)"
    "owned_by (os_euid os = 0) it (linked (context_of name (metadata_of part_len e)) os)"
  using assms
  by (auto simp: entry_of_def metadata_of_def has_mode_def owned_by_def restored_def linked_def context_of_def
      own_attrs_def Let_def)

text \<open>\<open>d\<close> takes the processor from \<open>st\<close> to a state in which the item is there once it is settled.\<close>

definition item_done ::
  "zstd_reader \<Rightarrow> (bytes \<Rightarrow> in_file option) \<Rightarrow> list_item \<Rightarrow> bytes \<Rightarrow> bytes \<Rightarrow> bytes \<Rightarrow> part_processor_state \<Rightarrow> bool" where
  "item_done zr fopen it pre d rest st \<longleftrightarrow>
     (\<exists>st' os' n. process_loop zr (pre @ d @ rest) (length pre) st =
        process_loop zr (pre @ d @ rest) (length pre + length d) st' \<and> ready st' \<and>
        settled st' = after_files (settled st) 1 (length d) os' \<and>
        holds_node (ps_os (settled st)) (item_file (ps_output_dir st) it) n os' \<and>
        shows_item (os_euid (ps_os (settled st)) = 0) it (item_content fopen it) n)"

lemma item_doneI:
  assumes "ready st" and "lh_signature h = ZIP_LOCAL_FILE_HEADER_SIG"
    and "d = entry_padding ct p need @ local_header_bytes h @ x"
    and "process_loop zr (pre @ d @ rest) (length pre) (settled st) =
      process_loop zr (pre @ d @ rest) (length pre + length d) st'"
    and "ready st'" and "settled st' = after_files (settled st) 1 (length d) os'"
    and "holds_node (ps_os (settled st)) (item_file (ps_output_dir st) it) n os'"
    and "shows_item (os_euid (ps_os (settled st)) = 0) it (item_content fopen it) n"
  shows "item_done zr fopen it pre d rest st"
  using record_settles[OF assms(1-3), of zr pre rest] assms(4-8) unfolding item_done_def by metis

lemma wrote_file_done:
  assumes env: "frames_fit env" "frames_readable env (compression_level w) zr"
    and wr: "wrote_file env fopen it w w' e" and data: "has_data it" and reg: "restorable fopen it"
    and e: "entry_of it (item_content fopen it) e" and len: "length (stream w') \<le> PART"
    and st: "ready st" "expects part_len (settled st) (e # es)"
    and os: "idle (ps_os (settled st))" "item_creatable (ps_os (settled st)) (ps_output_dir st) it"
    and pos: "ps_part_start_offset (settled st) + ps_bytes_processed (settled st) = of_nat (length (stream w))"
  shows "\<exists>d. stream w' = stream w @ d \<and> item_done zr fopen it pre d rest st"
proof -
  obtain inp w1 lfh tail its where o: "fopen (it_path it) = Some inp"
    and w1: "archive_inv w1" "stream w1 = stream w" "compression_level w1 = compression_level w"
    and h: "header_ok lfh tail 0 True" "header_complete lfh tail" "\<not> padding_named lfh tail"
    and its: "items_of env w1 lfh tail (content_of inp) = Some its"
    and s: "stream w' = stream w @ file_record env w1 lfh tail (content_of inp) its"
    and en: "e = file_record_entry env w1 lfh tail (st_mode (it_stat it)) (st_uid (it_stat it)) (st_gid (it_stat it))
              (content_of inp) its"
    using wr by (auto simp: wrote_file_def)
  let ?d = "content_of inp" and ?r = "file_record env w1 lfh tail (content_of inp) its"
  let ?m = "metadata_of part_len e" and ?st = "settled st" and ?name = "item_file (ps_output_dir st) it"
  have c: "item_content fopen it = ?d" using data o by (simp add: item_content_def)
  have plain: "\<not> it_is_directory it" "\<not> is_link it" using data by (simp_all add: has_data_def is_link_def)
  note m = metadata_item[OF e, where part_len = part_len]
  have z: "fm_uses_zip64_descriptor ?m = wide (of_nat (length (items_bytes its))) (of_nat (length ?d))"
    by (simp add: metadata_of_def en entry_fields)
  have os1: "quiet (ps_os ?st)" "0 \<le> os_next_fd (ps_os ?st)" "os_fds (ps_os ?st) (os_next_fd (ps_os ?st)) = None"
    using os(1) by (simp_all add: idle_def)
  note f = settled_fields[OF st(1)]
  have "\<exists>os'. process_loop zr (pre @ ?r @ rest) (length pre) ?st =
      process_loop zr (pre @ ?r @ rest) (length pre + length ?r) (extracted ?st (length ?r) os') \<and>
      holds_file (ps_os ?st) ?name ?m ?d os'"
  proof (rule file_record_extracted[OF env(1) w1(1) h its _ f(1,2) expects_Cons(1)[OF st(2)] os1 expects_Cons(2)[OF st(2)]])
    show "frames_readable env (compression_level w1) zr" using env(2) w1(3) by simp
    show "\<not> (fm_filename ?m \<noteq> [] \<and> last (fm_filename ?m) = slash)"
      using m(1) reg plain(1) by (simp add: restorable_def)
    show "length (stream w1 @ ?r) < 2 ^ 63" using w1(2) s len by simp
    show "length ?d < 2 ^ 63" using reg c by (simp add: restorable_def)
    show "creatable (ps_os ?st) ?name" using os(2) plain by (simp add: item_creatable_def)
  qed (use m plain c z pos w1(2) f(4) in simp_all)
  then obtain os' where os': "process_loop zr (pre @ ?r @ rest) (length pre) ?st =
      process_loop zr (pre @ ?r @ rest) (length pre + length ?r) (after_files ?st 1 (length ?r) os')"
    "holds_file (ps_os ?st) ?name ?m ?d os'"
    unfolding extracted_after by blast
  have done': "ready (after_files ?st 1 (length ?r) os')"
    "settled (after_files ?st 1 (length ?r) os') = after_files ?st 1 (length ?r) os'"
    using settled_expects[of "after_files ?st 1 (length ?r) os'"] f by simp_all
  have sig: "lh_signature lfh = ZIP_LOCAL_FILE_HEADER_SIG" using h(2) by (simp add: header_complete_def)
  have "item_done zr fopen it pre ?r rest st"
  proof (rule item_doneI[OF st(1) sig _ os'(1) done' holds_file_node[OF os'(2)]])
    show "?r = entry_padding (env_time env) (length (stream w1)) (entry_need (30 + length tail) 0 True) @
        local_header_bytes lfh @ tail @ file_body env (length (stream w1) + length (lead_in env w1 lfh tail)) ?d its"
      by (simp add: file_record_def)
    show "shows_item (os_euid (ps_os ?st) = 0) it (item_content fopen it)
       (Regular ?d (restored (context_of ?name ?m) (os_euid (ps_os ?st) = 0) (snd (file_at (ps_os ?st) (resolve ?name)))))"
      using plain c m(4,5) by (simp add: shows_item_def)
  qed
  with s show ?thesis by blast
qed

lemma plain_extracted:
  assumes h: "header_complete lfh tail" "\<not> padding_named lfh tail"
    and st: "ps_state st = STATE_EXPECT_LOCAL_HEADER" "ps_current_file st = None" "expects part_len st (e # es)"
    and it: "\<not> has_data it" "restorable fopen it" "entry_of it c e" "c = item_content fopen it"
    and os: "idle (ps_os st)" "item_creatable (ps_os st) (ps_output_dir st) it"
  shows "\<exists>st' os' n. process_loop zr (pre @ (local_header_bytes lfh @ tail @ c) @ rest) (length pre) st =
      process_loop zr (pre @ (local_header_bytes lfh @ tail @ c) @ rest) (length pre + (30 + length tail + length c)) st' \<and>
    ready st' \<and> settled st' = after_files st 1 (30 + length tail + length c) os' \<and>
    holds_node (ps_os st) (item_file (ps_output_dir st) it) n os' \<and> shows_item (os_euid (ps_os st) = 0) it c n"
proof -
  let ?m = "metadata_of part_len e" and ?name = "item_file (ps_output_dir st) it"
  note m = metadata_item[OF it(3), where part_len = part_len]
  note i = expects_Cons(1,2)[OF st(3)]
  have os1: "quiet (ps_os st)" "0 \<le> os_next_fd (ps_os st)" "os_fds (ps_os st) (os_next_fd (ps_os st)) = None"
    using os(1) by (simp_all add: idle_def)
  have name: "?name = ps_output_dir st @ slash # fm_filename ?m" using m(1) by simp
  have slashed: "fm_filename ?m \<noteq> [] \<and> last (fm_filename ?m) = slash \<longleftrightarrow> it_is_directory it"
    using it(2) m(1) by (auto simp: restorable_def)
  consider (dir) "it_is_directory it" | (link) "is_link it" | (empty_file) "\<not> it_is_directory it" "\<not> is_link it"
    by blast
  then show ?thesis
  proof cases
    case dir
    then have k: "\<not> is_link it" "c = []" using it(4) by (simp_all add: is_link_def item_content_def has_data_def)
    have cr: "creatable_dir (ps_os st) ?name" using os(2) dir by (simp add: item_creatable_def)
    have "\<not> fm_is_symlink ?m" "fm_filename ?m \<noteq> [] \<and> last (fm_filename ?m) = slash"
      using m(2) k slashed dir by simp_all
    from directory_extracted[OF h st(1,2) i(1) os1(1) i(2) this name cr, of zr pre rest]
    show ?thesis unfolding extracted_after k(2) using k dir m(4,5) by (fastforce simp: shows_item_def)
  next
    case link
    then have k: "\<not> it_is_directory it" "c = item_target it"
      using it(4) by (auto simp: is_link_def item_content_def has_data_def)
    have cr: "creatable_link (ps_os st) ?name" using os(2) k link by (simp add: item_creatable_def)
    have t: "c \<noteq> []" "0 \<notin> set c" "length c < 2 ^ 62" using it(2,4) link k(2) by (simp_all add: restorable_def)
    have "fm_is_symlink ?m" "\<not> (fm_filename ?m \<noteq> [] \<and> last (fm_filename ?m) = slash)"
      using m(2) k slashed link by simp_all
    from symlink_extracted[OF h st(1,2) i(1) os1(1) i(2) this m(3) t name cr, of zr pre rest]
    obtain os' where l: "process_loop zr (pre @ (local_header_bytes lfh @ tail @ c) @ rest) (length pre) st =
        process_loop zr (pre @ (local_header_bytes lfh @ tail @ c) @ rest) (length pre + (30 + length tail + length c))
          (after_files st 1 (30 + length tail + length c) os')"
      and hn: "holds_node (ps_os st) ?name (Symbolic c (linked (context_of ?name ?m) (ps_os st))) os'"
      unfolding extracted_after by blast
    have "ready (after_files st 1 (30 + length tail + length c) os')"
      "settled (after_files st 1 (30 + length tail + length c) os') = after_files st 1 (30 + length tail + length c) os'"
      using settled_expects[of "after_files st 1 (30 + length tail + length c) os'"] st(1,2) by simp_all
    moreover have "shows_item (os_euid (ps_os st) = 0) it c (Symbolic c (linked (context_of ?name ?m) (ps_os st)))"
      using link m(6) by (simp add: shows_item_def)
    ultimately show ?thesis using l hn by blast
  next
    case empty_file
    then have k: "c = []" using it(1,4) by (simp add: item_content_def)
    have cr: "creatable (ps_os st) ?name" using os(2) empty_file by (simp add: item_creatable_def)
    have "\<not> fm_is_symlink ?m" "\<not> (fm_filename ?m \<noteq> [] \<and> last (fm_filename ?m) = slash)" "fm_uncompressed_size ?m = 0"
      using m(2,3) k slashed empty_file by simp_all
    from empty_file_extracted[OF h st(1,2) i(1) os1 i(2) this name cr, of zr pre rest]
    show ?thesis unfolding extracted_after k using empty_file m(4,5) by (fastforce simp: shows_item_def)
  qed
qed

lemma after_files_advance:
  "after_files (st\<lparr>ps_bytes_processed := ps_bytes_processed st + of_nat k\<rparr>) j n os = after_files st j (k + n) os"
  by (simp add: after_files_def add.assoc)

lemma wrote_plain_done:
  assumes wr: "wrote_plain env (item_content fopen it) it w w' e" and plain: "\<not> has_data it"
    and reg: "restorable fopen it" and e: "entry_of it (item_content fopen it) e"
    and st: "ready st" "expects part_len (settled st) (e # es)"
    and os: "idle (ps_os (settled st))" "item_creatable (ps_os (settled st)) (ps_output_dir st) it"
  shows "\<exists>d. stream w' = stream w @ d \<and> item_done zr fopen it pre d rest st"
proof -
  let ?c = "item_content fopen it"
  obtain w1 lfh tail dd where w1: "archive_inv w1" "stream w1 = stream w"
    and h: "header_ok lfh tail (length ?c) dd" "header_complete lfh tail" "\<not> padding_named lfh tail"
    and s: "stream w' = stream w @
      padding_for (env_time env) w1 tail (length ?c) dd @ local_header_bytes lfh @ tail @ ?c"
    using wr by (auto simp: wrote_plain_def)
  let ?need = "entry_need (30 + length tail) (length ?c) dd"
  define pad where "pad = entry_padding (env_time env) (length (stream w1)) ?need"
  let ?h = "local_header_bytes lfh @ tail @ ?c"
  let ?st = "settled st"
  let ?st1 = "?st\<lparr>ps_bytes_processed := ps_bytes_processed ?st + of_nat (length pad)\<rparr>"
  note f = settled_fields[OF st(1)]
  have skip: "process_loop zr (pre @ pad @ ?h @ rest) (length pre) ?st =
      process_loop zr (pre @ pad @ ?h @ rest) (length pre + length pad) ?st1"
    using entry_padding_skipped[of "stream w1" ?need ?st zr pre "env_time env" "?h @ rest"] w1(1) h(1) f(1)
      expects_Cons(1)[OF st(2)]
    by (simp add: archive_inv_def header_ok_def pad_def)
  have "ps_state ?st1 = STATE_EXPECT_LOCAL_HEADER" "ps_current_file ?st1 = None" "expects part_len ?st1 (e # es)"
    "idle (ps_os ?st1)" "item_creatable (ps_os ?st1) (ps_output_dir ?st1) it"
    using f st(2) os by (simp_all add: expects_def)
  from plain_extracted[OF h(2,3) this(1-3) plain reg e refl this(4,5), of zr "pre @ pad" rest]
  obtain st' os' n where l: "process_loop zr (pre @ pad @ ?h @ rest) (length pre + length pad) ?st1 =
      process_loop zr (pre @ pad @ ?h @ rest) (length pre + length pad + (30 + length tail + length ?c)) st'"
    and r: "ready st'" "settled st' = after_files ?st1 1 (30 + length tail + length ?c) os'"
      "holds_node (ps_os ?st) (item_file (ps_output_dir st) it) n os'"
      "shows_item (os_euid (ps_os ?st) = 0) it ?c n"
    using f(4) by auto
  have sig: "lh_signature lfh = ZIP_LOCAL_FILE_HEADER_SIG" using h(2) by (simp add: header_complete_def)
  have "item_done zr fopen it pre (pad @ ?h) rest st"
    by (rule item_doneI[OF st(1) sig _ _ r(1) _ r(3,4)])
      (use skip l r(2) in \<open>simp_all add: pad_def after_files_advance add.assoc\<close>)
  with s show ?thesis unfolding pad_def by auto
qed

section \<open>All records\<close>

lemma wrote_item_done:
  assumes "frames_fit env" and "frames_readable env (compression_level w) zr"
    and "wrote_item env fopen it w w' e" and "restorable fopen it"
    and "entry_of it (item_content fopen it) e" and "length (stream w') \<le> PART"
    and "ready st" and "expects part_len (settled st) (e # es)"
    and "idle (ps_os (settled st))" and "item_creatable (ps_os (settled st)) (ps_output_dir st) it"
    and "ps_part_start_offset (settled st) + ps_bytes_processed (settled st) = of_nat (length (stream w))"
  shows "\<exists>d. stream w' = stream w @ d \<and> item_done zr fopen it pre d rest st"
proof (cases "has_data it")
  case True
  then have "wrote_file env fopen it w w' e" using assms(3) by (simp add: wrote_item_def)
  from wrote_file_done[OF assms(1,2) this True assms(4-)] show ?thesis .
next
  case False
  then have "wrote_plain env (item_content fopen it) it w w' e" using assms(3) by (simp add: wrote_item_def)
  from wrote_plain_done[OF this False assms(4,5,7-10)] show ?thesis .
qed

lemma wrote_items_done:
  assumes "wrote_items env fopen its w w' es" and "frames_fit env"
    and "frames_readable env (compression_level w) zr"
    and "\<forall>it \<in> set its. restorable fopen it" and "length (stream w') \<le> PART"
    and "list_all2 (\<lambda>it e. entry_of it (item_content fopen it) e) its es"
    and "ready st" and "expects part_len (settled st) es" and "ps_output_dir st = dir"
    and "idle (ps_os (settled st))" and "\<forall>it \<in> set its. item_creatable (ps_os (settled st)) dir it"
    and "sorted_wrt (may_follow dir) its"
    and "ps_part_start_offset (settled st) + ps_bytes_processed (settled st) = of_nat (length (stream w))"
  shows "\<exists>d st' os'. stream w' = stream w @ d \<and>
    process_loop zr (pre @ d @ rest) (length pre) st =
      process_loop zr (pre @ d @ rest) (length pre + length d) st' \<and> ready st' \<and>
    settled st' = after_files (settled st) (length es) (length d) os' \<and>
    delivers fopen dir its (ps_os (settled st)) os'"
  using assms
proof (induction arbitrary: st pre rule: wrote_items.induct)
  case (nothing w)
  then show ?case
    by (intro exI[of _ "[]"] exI[of _ st] exI[of _ "ps_os (settled st)"]) (simp add: after_files_def delivers_def)
next
  case (more it w w1 e its w' es)
  have en: "entry_of it (item_content fopen it) e" using more.prems(5) by simp
  obtain d2 where d2: "stream w' = stream w1 @ d2" using wrote_items_stream[OF more.hyps(2)] by blast
  have "length (stream w1) \<le> PART" using d2 more.prems(4) by simp
  from wrote_item_done[OF more.prems(1,2) more.hyps(1) _ en this more.prems(6,7,9) _ more.prems(12), of pre "d2 @ rest"]
    more.prems(3,8,10)
  obtain d1 where d1: "stream w1 = stream w @ d1" and done1: "item_done zr fopen it pre d1 (d2 @ rest) st" by auto
  from done1 obtain st1 os1 n where loop: "process_loop zr (pre @ d1 @ d2 @ rest) (length pre) st =
      process_loop zr (pre @ d1 @ d2 @ rest) (length pre + length d1) st1"
    and r: "ready st1" "settled st1 = after_files (settled st) 1 (length d1) os1"
    and h: "holds_node (ps_os (settled st)) (item_file dir it) n os1"
    and n: "shows_item (os_euid (ps_os (settled st)) = 0) it (item_content fopen it) n"
    using more.prems(8) by (auto simp: item_done_def)
  have lvl: "compression_level w1 = compression_level w" using wrote_item_files[OF more.hyps(1)] by simp
  have cr: "\<forall>b \<in> set its. item_creatable os1 dir b"
    using item_creatable_kept[OF h] shows_item_kind(1)[OF n] more.prems(10,11) by simp
  have out: "ps_output_dir st1 = dir"
    using settled_fields(4)[OF r(1)] settled_fields(4)[OF more.prems(6)] r(2) more.prems(8) by simp
  have pos: "ps_part_start_offset (settled st1) + ps_bytes_processed (settled st1) = of_nat (length (stream w1))"
    using more.prems(12) d1 r(2) by (simp add: add.assoc[symmetric])
  from more.IH[OF more.prems(1) _ _ more.prems(4) _ r(1) _ out, of "pre @ d1"] more.prems cr pos lvl
    expects_Cons(3)[OF more.prems(7)] idle_after[OF h more.prems(9)] r(2)
  obtain st' os' where "process_loop zr ((pre @ d1) @ d2 @ rest) (length (pre @ d1)) st1 =
      process_loop zr ((pre @ d1) @ d2 @ rest) (length (pre @ d1) + length d2) st'" "ready st'"
    "settled st' = after_files (settled st1) (length es) (length d2) os'" and del: "delivers fopen dir its os1 os'"
    using d2 by auto
  then have "process_loop zr (pre @ (d1 @ d2) @ rest) (length pre) st =
      process_loop zr (pre @ (d1 @ d2) @ rest) (length pre + length (d1 @ d2)) st' \<and> ready st' \<and>
      settled st' = after_files (settled st) (length (e # es)) (length (d1 @ d2)) os'"
    using loop r(2) by (simp add: add.assoc)
  moreover have "delivers fopen dir (it # its) (ps_os (settled st)) os'"
    using delivers_Cons[OF h n _ del] more.prems(11) by simp
  ultimately show ?case using d1 d2 by (intro exI[of _ "d1 @ d2"] exI[of _ st'] exI[of _ os']) simp
qed

end
