(* ===== verification/Boundary_Trailer.thy ===== *)
theory Boundary_Trailer
  imports Stream_Properties Directory_Roundtrip
begin

text \<open>
  Where the estimate of the part map (\<open>build_part_map\<close> in \<open>src/downloader/central_dir_parser.c\<close>) and the
  layout of the writer disagree. A file that crosses a boundary has a Start-of-Part frame there. The
  writer records the length of its frames as the compressed size, without the padding and the
  Start-of-Part frame before the descriptor, and the part map adds 30 bytes for the local header,
  without the name and the extra field. When little of the file follows the boundary, the next part
  is not told that a file continues into it, and its processor rejects the Start-of-Part frame.
\<close>

section \<open>The tail of a record from a Start-of-Part frame on\<close>

abbreviation descriptor_of :: "writer_env \<Rightarrow> bytes \<Rightarrow> item list \<Rightarrow> bytes" where
  "descriptor_of env d its \<equiv>
     data_descriptor (file_crc env d) (of_nat (length (items_bytes its))) (of_nat (length d))
       (wide (of_nat (length (items_bytes its))) (of_nat (length d)))"

abbreviation all_items :: "nat \<Rightarrow> bytes \<Rightarrow> item list \<Rightarrow> item list" where
  "all_items p d its \<equiv>
     its @ trailer_items (room (p + length (items_bytes its))) (length d)
       (if wide (of_nat (length (items_bytes its))) (of_nat (length d)) then 24 else 16)"

lemma file_record_split:
  assumes "all_items (length (stream w @ lead_in env w lfh tail)) d its = xs @ Sop k # ys"
  shows "stream w @ file_record env w lfh tail d its =
    (stream w @ lead_in env w lfh tail @ items_bytes xs) @ sop_frame (of_nat k) @ items_bytes ys @ descriptor_of env d its"
proof -
  have "items_bytes (all_items (length (stream w @ lead_in env w lfh tail)) d its) =
      items_bytes xs @ sop_frame (of_nat k) @ items_bytes ys"
    unfolding assms by simp
  then show ?thesis by (simp add: file_record_def file_body_def file_tail_def add.assoc)
qed

lemma rejects_start_of_part:
  assumes "ps_state st = STATE_INIT" and "ps_frame_buffer st = []"
    and "pf_continuing_file (this_part st) = None"
    and "ps_next_entry_idx st < length (pf_entries (this_part st))"
  shows "\<exists>st'. part_processor_process_data zr (sop_frame off @ rest) st =
    Some (Done STREAM_PROC_ERR_INVALID_FRAME st') \<and> ps_state st' = STATE_ERROR \<and> ps_os st' = ps_os st"
proof -
  let ?d = "sop_frame off @ rest"
  let ?st1 = "st\<lparr>ps_state := STATE_EXPECT_LOCAL_HEADER\<rparr>"
  let ?st2 = "?st1\<lparr>ps_state := STATE_ERROR, ps_error_code := STREAM_PROC_ERR_INVALID_FRAME\<rparr>"
  have ne: "0 < length ?d" by (simp add: sop_frame_def)
  have "process_step zr ?d 0 st = Next 0 ?st1"
    using assms(1,3) by (simp add: process_step_def step_init_def)
  moreover have "process_step zr ?d 0 ?st1 = Return STREAM_PROC_ERR_INVALID_FRAME ?st2"
    using assms(4) parse_sop_frame[of zr off rest]
    by (simp add: process_step_def step_expect_header_def with_frame_Ok frame_info_of_def return_failure_def fail_def)
  ultimately have "process_loop zr ?d 0 st = Some (Returned STREAM_PROC_ERR_INVALID_FRAME ?st2)"
    using ne by (simp add: process_loop.simps del: length_append)
  then show ?thesis
    using assms(1,2) by (simp add: part_processor_process_data_def run_loop_def)
qed

section \<open>The estimate\<close>

lemma not_spans:
  assumes "fe_local_header_offset e = of_nat pos" and "fe_compressed_size e = of_nat cs"
    and "pos + 46 + cs \<le> b" and "b < 2 ^ 64"
  shows "\<not> spans (of_nat b) (metadata_of part_len e)"
proof -
  have "(of_nat pos + 30 + of_nat cs + 16 :: u64) = of_nat (pos + 46 + cs)" by simp
  moreover have "unat (of_nat (pos + 46 + cs) :: u64) = pos + 46 + cs" "unat (of_nat b :: u64) = b"
    using assms(3,4) by (simp_all add: unat_of_nat del: of_nat_add)
  ultimately have "\<not> (of_nat pos + 30 + of_nat cs + 16 :: u64) > of_nat b"
    using assms(3) by (simp add: word_less_nat_alt del: of_nat_add)
  then show ?thesis using assms(1,2) by (simp add: spans_def metadata_of_def)
qed

section \<open>A compressor whose frame ends 60 bytes before the boundary\<close>

definition long_env :: writer_env where
  "long_env = demo_env\<lparr>env_compress_bound := (\<lambda>_. 8388502),
     env_compress := (\<lambda>cap d level. if 8388502 \<le> cap then Some (replicate 8388502 0) else None)\<rparr>"

abbreviation long_tail :: bytes where
  "long_tail \<equiv> 97 # replicate 15 0"

abbreviation long_items :: "item list" where
  "long_items \<equiv> [Frame [65, 66, 67] (replicate 8388502 0)]"

lemma long_frames_fit: "frames_fit long_env"
  by (auto simp: frames_fit_def long_env_def split: if_splits)

lemma long_no_padding: "entry_padding ct 0 (entry_need 46 0 True) = []"
  by (simp add: entry_padding_def entry_need_def room_def)

lemma long_lead: "lead_in long_env demo_writer (demo_header 8 93 1) long_tail = local_header_bytes (demo_header 8 93 1) @ long_tail"
  using long_no_padding by (simp add: demo_stream)

lemma long_items_of:
  "items_of long_env demo_writer (demo_header 8 93 1) long_tail (readable (in_rewind demo_input)) = Some long_items"
proof -
  have "room 46 = 8388562" by (simp add: room_def)
  then show ?thesis
    unfolding long_lead
    by (simp add: file_items_def demo_chunks compress_chunk_def long_env_def Let_def demo_stream
        ZSTD_CHUNK_SIZE_def frame_items_def)
qed

lemma long_all_items:
  "all_items (length (stream demo_writer @ lead_in long_env demo_writer (demo_header 8 93 1) long_tail))
     (readable (in_rewind demo_input)) long_items = (long_items @ [Pad 52]) @ Sop 3 # []"
proof -
  have "room 8388548 = 60" by (simp add: room_def)
  then show ?thesis unfolding long_lead by (simp add: demo_stream demo_readable trailer_items_def)
qed

section \<open>The property\<close>

text \<open>C6: files that end shortly after a boundary. \<open>burst_writer_add_file\<close> returned 0 and put a
  Start-of-Part frame of the file at \<open>b\<close>, and the frames that count as its compressed size end at
  most \<open>length tail - 16\<close> bytes after \<open>b\<close>, or before it (the frame belongs to the trailer of the file).
  Then the part map does not see that the file continues into the part at \<open>b\<close>, and a processor of
  that part which has entries to extract and no continuing file fails with \<open>INVALID_FRAME\<close> on the
  bytes of the archive, whatever follows them.\<close>

theorem short_tail_is_rejected:
  assumes "frames_fit env" and "archive_inv w" and "header_ok lfh tail 0 True" and "\<not> is_header_only lfh"
    and "budget (length (stream w)) (Suc (length (chunks (readable (in_rewind inp)))))"
    and "burst_writer_add_file env inp lfh tail unix_mode uid gid w = (0, w')"
    and "items_of env w lfh tail (readable (in_rewind inp)) = Some its"
    and "all_items (length (stream w @ lead_in env w lfh tail)) (readable (in_rewind inp)) its = xs @ Sop k # ys"
    and "b = length (stream w @ lead_in env w lfh tail) + length (items_bytes xs)" and "b < 2 ^ 64"
    and "length (stream w @ lead_in env w lfh tail) + length (items_bytes its) + 16 \<le> b + length tail"
  shows "\<not> spans (of_nat b) (metadata_of part_len (last (files w'))) \<and>
    (\<forall>st rest. ps_state st = STATE_INIT \<and> ps_frame_buffer st = [] \<and>
        pf_continuing_file (this_part st) = None \<and> ps_next_entry_idx st < length (pf_entries (this_part st)) \<longrightarrow>
      (\<exists>st'. part_processor_process_data zr (drop b (stream w') @ rest) st =
           Some (Done STREAM_PROC_ERR_INVALID_FRAME st')))"
proof -
  let ?d = "readable (in_rewind inp)" and ?lead = "lead_in env w lfh tail"
  let ?pos = "length (stream w) + length (padding_for (env_time env) w tail 0 True)"
  have "in_seekable inp" using add_file_seekable[OF assms(6)] assms(4) by simp
  from burst_writer_add_file_refines(1)[OF assms(1-4) this assms(5,6)] assms(7)
  have ad: "added w (file_record env w lfh tail ?d its)
      (file_record_entry env w lfh tail unix_mode uid gid ?d its) w'" by auto
  then have "last (files w') = file_record_entry env w lfh tail unix_mode uid gid ?d its"
    and s: "stream w' = stream w @ file_record env w lfh tail ?d its" by (simp_all add: added_def)
  then have "fe_local_header_offset (last (files w')) = of_nat ?pos"
    "fe_compressed_size (last (files w')) = of_nat (length (items_bytes its))"
    by (simp_all add: file_record_entry_def file_entry_done_def file_entry_end_def file_entry_start_def
        populate_entry_metadata_def)
  moreover have "?pos + 46 + length (items_bytes its) \<le> b" using assms(11) by simp
  ultimately have "\<not> spans (of_nat b) (metadata_of part_len (last (files w')))"
    using assms(10) by (rule not_spans)
  moreover have "drop b (stream w') = sop_frame (of_nat k) @ items_bytes ys @ descriptor_of env ?d its"
    unfolding s file_record_split[OF assms(8)] by (simp add: assms(9) add.assoc)
  ultimately show ?thesis
    using rejects_start_of_part by (metis append.assoc)
qed

theorem short_tail_is_rejected_witness:
  "\<exists>w' (fs :: file_metadata list) ps st st' os.
     burst_writer_add_file long_env demo_input (demo_header 8 93 1) long_tail 0 0 0 demo_writer = (0, w') \<and>
     fs = [metadata_of 8388608 (last (files w')), demo_metadata 8388648 5] \<and>
     build_part_map stable_qsort [] fs 9000000 8388608 = Ok ps \<and>
     part_processor_create 1 \<lparr>cp_files = fs, cp_parts = ps, cp_central_dir_offset = 8900000,
       cp_central_dir_size = 100, cp_is_zip64 = True\<rparr> [111] 8388608 demo_os = (Some st, os) \<and>
     part_processor_process_data stored_zstd (drop 8388608 (stream w')) st
       = Some (Done STREAM_PROC_ERR_INVALID_FRAME st')"
proof -
  let ?add = "burst_writer_add_file long_env demo_input (demo_header 8 93 1) long_tail 0 0 0"
  have ho: "header_ok (demo_header 8 93 1) long_tail 0 True" by (rule demo_header_ok) simp
  have "fst (?add demo_writer) = 0"
    using long_items_of
    by (intro burst_writer_add_file_refines(2) long_frames_fit demo_inv ho demo_not_header_only demo_budget
        demo_fault_free) (simp_all add: demo_input_def read_fails_def in_rewind_def)
  then obtain w' where w': "?add demo_writer = (0, w')" by (metis prod.collapse)
  let ?b = "8388608 :: nat" and ?e = "last (files w')"
  let ?fs = "[metadata_of 8388608 ?e, demo_metadata 8388648 5]"
  have b: "?b = length (stream demo_writer @ lead_in long_env demo_writer (demo_header 8 93 1) long_tail) +
      length (items_bytes (long_items @ [Pad 52]))"
    unfolding long_lead by (simp add: demo_stream)
  have le: "length (stream demo_writer @ lead_in long_env demo_writer (demo_header 8 93 1) long_tail) +
      length (items_bytes long_items) + 16 \<le> ?b + length long_tail"
    unfolding long_lead by (simp add: demo_stream)
  note rejected = short_tail_is_rejected[OF long_frames_fit demo_inv ho demo_not_header_only demo_budget w'
      long_items_of long_all_items b _ le]
  obtain ps where ps: "build_part_map stable_qsort [] ?fs 9000000 8388608 = Ok ps"
    using build_part_map_returns[of 8388608 stable_qsort ?fs 9000000] by auto
  have l: "length ps = 2" using build_part_map_Ok(1)[OF ps] by (simp add: number_of_parts_def)
  have "\<not> spans 8388608 (metadata_of 8388608 ?e)" using rejected[of 8388608] by simp
  moreover have "\<not> spans 8388608 (demo_metadata 8388648 5)" by (simp add: spans_def demo_metadata_def)
  ultimately have cont: "pf_continuing_file (ps ! 1) = None"
    using build_part_map_Ok(3)[OF ps, of 1] l by (simp add: continuing_file_of_def)
  have "\<lparr>pe_file_index = 1, pe_offset_in_part = 40\<rparr> \<in> set (entries_of 8388608 0 ?fs 1)"
    unfolding entries_of_set by (simp add: demo_metadata_def)
  then have "length (entries_of 8388608 0 ?fs 1) > 0" by (meson length_pos_if_in_set)
  then have ne: "0 < length (pf_entries (ps ! 1))"
    using build_part_map_Ok(3)[OF ps, of 1] l
      mset_eq_length[OF sort_entries_props(1)[OF stable.c_qsort_axioms, of "entries_of 8388608 0 ?fs 1"]]
    by simp
  let ?cd = "\<lparr>cp_files = ?fs, cp_parts = ps, cp_central_dir_offset = 8900000, cp_central_dir_size = 100,
      cp_is_zip64 = True\<rparr> :: central_dir_parse_result"
  obtain st os where st: "part_processor_create 1 ?cd [111] 8388608 demo_os = (Some st, os)"
    "ps_state st = STATE_INIT" "ps_frame_buffer st = []" "ps_next_entry_idx st = 0" "this_part st = ps ! 1"
    using l by (auto simp: part_processor_create_def demo_os_def os_alloc_def)
  obtain st' where "part_processor_process_data stored_zstd (drop ?b (stream w') @ []) st
      = Some (Done STREAM_PROC_ERR_INVALID_FRAME st')"
    using rejected[of 8388608 stored_zstd, THEN conjunct2, rule_format, of st "[]"] st cont ne by auto
  then show ?thesis using w' ps st(1) by auto
qed

end
