(* ===== verification/Fragment_Extraction.thy ===== *)
theory Fragment_Extraction
  imports Item_Extraction Boundary_Trailer
begin

text \<open>
  Files that reach over part boundaries, processed by the downloader one part at a time: at every
  boundary inside a record stands a Start-of-Part frame (\<open>record_splits\<close>), a part that begins inside a file opens
  it again and goes on at the offset of that frame, and a part that ends inside a file leaves the
  piece that it has seen, in a file of the final size.
\<close>

section \<open>Boundaries inside a record\<close>

text \<open>A Start-of-Part frame begins at \<open>b\<close>, when the items begin at \<open>p\<close>.\<close>

definition splits :: "nat \<Rightarrow> item list \<Rightarrow> nat \<Rightarrow> bool" where
  "splits p its b \<longleftrightarrow> (\<exists>xs k ys. its = xs @ Sop k # ys \<and> p + length (items_bytes xs) = b)"

lemma splits_append_left: "splits p its b \<Longrightarrow> splits p (its @ jts) b"
  unfolding splits_def by (metis append.assoc append_Cons)

lemma splits_append_right: "splits (p + length (items_bytes its)) jts b \<Longrightarrow> splits p (its @ jts) b"
  unfolding splits_def by (metis add.assoc append.assoc items_bytes_simps(3) length_append)

lemma splitsI: "its = xs @ Sop k # ys \<Longrightarrow> p + length (items_bytes xs) = b \<Longrightarrow> splits p its b"
  unfolding splits_def by blast

lemma next_boundary:
  assumes "b mod PART = 0" and "p < b" and "b < p + room p + PART"
  shows "b = p + room p"
proof -
  have "b - (p + room p) = 0 \<or> PART \<le> b - (p + room p)"
  proof (cases "p + room p \<le> b")
    case True
    have "(b - (p + room p)) mod PART = 0"
      using assms(1) room_add_full[of p] True by (metis mod_eq_dvd_iff_nat mod_0_imp_dvd dvd_imp_mod_0)
    then show ?thesis by (metis mod_less neq0_conv not_le)
  qed simp
  then have "b \<le> p + room p" using assms(3) by linarith
  moreover have "p + room p \<le> b"
    using assms(1,2) mod_add_room[of "b - p" p] by (metis le_add_diff_inverse2 add.commute less_imp_le_nat
        nat_add_left_cancel_le not_less zero_less_diff)
  ultimately show ?thesis by simp
qed


lemma frame_items_splits:
  assumes p: "p mod PART \<noteq> 0" "8 \<le> room p" and f: "length f + 48 \<le> PART"
    and b: "b mod PART = 0" "p < b" "b \<le> p + length (items_bytes (frame_items (room p) off c f))"
  shows "splits p (frame_items (room p) off c f) b"
proof -
  let ?r = "room p" and ?eof = "length c < ZSTD_CHUNK_SIZE"
  have r: "?r \<le> PART" by simp
  consider (exact) "?r = length f" "\<not> ?eof"
    | (fits) "?eof \<and> (?r = length f + 16 \<or> length f + 24 \<le> ?r) \<or> \<not> ?eof \<and> length f + 8 \<le> ?r"
    | (pad) "?eof \<and> ?r \<noteq> length f + 16 \<and> ?r < length f + 24
             \<or> \<not> ?eof \<and> ?r \<noteq> length f \<and> ?r < length f + 8" by linarith
  then show ?thesis
  proof cases
    case exact
    then have i: "frame_items ?r off c f = [Frame c f] @ Sop (off + length c) # []" by (simp add: frame_items_def)
    then have "b < p + ?r + PART" using b(3) exact by simp
    from next_boundary[OF b(1,2) this] exact show ?thesis by (intro splitsI[OF i]) simp
  next
    case fits
    then have "b < p + ?r" using b(3) frame_items_fits[OF fits] by auto
    then show ?thesis using b next_boundary[OF b(1,2)] by simp
  next
    case pad
    then have i: "frame_items ?r off c f = [Pad (?r - 8)] @ Sop off # [Frame c f]"
      using frame_items_pad[OF pad] by simp
    then have "b < p + ?r + PART" using b(3) p(2) f by simp
    from next_boundary[OF b(1,2) this] p(2) show ?thesis by (intro splitsI[OF i]) simp
  qed
qed

lemma body_items_splits:
  assumes "mid_file s" and "body_items zc (length s) off cs = Some its"
    and fit: "\<And>c f. zc c = Some f \<Longrightarrow> length f + 48 \<le> PART"
    and "b mod PART = 0" and "length s < b" and "b \<le> length s + length (items_bytes its)"
  shows "splits (length s) its b"
  using assms(1,2,5,6)
proof (induction cs arbitrary: s off its)
  case Nil
  then show ?case by simp
next
  case (Cons c cs)
  from Cons.prems(2) obtain f jts where f: "zc c = Some f"
    and jts: "body_items zc (length s + length (items_bytes (frame_items (room (length s)) off c f)))
      (off + length c) cs = Some jts"
    and its: "its = frame_items (room (length s)) off c f @ jts"
    by (auto simp: Let_def split: option.splits)
  let ?fi = "frame_items (room (length s)) off c f"
  let ?t = "s @ items_bytes ?fi"
  have mid: "mid_file ?t" using Cons.prems(1) fit[OF f] by (rule frame_items_mid)
  show ?case
  proof (cases "b \<le> length ?t")
    case True
    then have "splits (length s) ?fi b"
      using Cons.prems(1,3) fit[OF f] assms(4) by (intro frame_items_splits) (auto simp: mid_file_def)
    then show ?thesis unfolding its by (rule splits_append_left)
  next
    case False
    with Cons.IH[OF mid, of "off + length c" jts] jts its Cons.prems(4)
    have "splits (length s + length (items_bytes ?fi)) jts b" by simp
    then show ?thesis unfolding its by (rule splits_append_right)
  qed
qed

lemma trailer_items_splits:
  assumes p: "p mod PART \<noteq> 0" "8 \<le> room p" and n: "n \<le> 24"
    and b: "b mod PART = 0" "p < b" "b \<le> p + length (items_bytes (trailer_items (room p) off n)) + n"
  shows "splits p (trailer_items (room p) off n) b"
proof (cases "room p < n + 52")
  case True
  then have i: "trailer_items (room p) off n = [Pad (room p - 8)] @ Sop off # []" by (simp add: trailer_items_def)
  then have "b < p + room p + PART" using b(3) p(2) n by simp
  from next_boundary[OF b(1,2) this] p(2) show ?thesis by (intro splitsI[OF i]) simp
next
  case False
  then have "b < p + room p" using b(3) by (simp add: trailer_items_def)
  then show ?thesis using next_boundary[OF b(1,2)] by simp
qed

lemma record_splits:
  assumes w: "frames_fit env" "archive_inv w" "header_ok lfh tail 0 True"
    and its: "items_of env w lfh tail d = Some its"
    and b: "b mod PART = 0" "length (stream w @ lead_in env w lfh tail) < b"
      "b \<le> length (stream w @ file_record env w lfh tail d its)"
  shows "splits (length (stream w @ lead_in env w lfh tail)) (all_items (length (stream w @ lead_in env w lfh tail)) d its) b"
proof -
  let ?s = "stream w @ lead_in env w lfh tail"
  let ?n = "if wide (of_nat (length (items_bytes its))) (of_nat (length d)) then 24 else 16 :: nat"
  let ?q = "length ?s + length (items_bytes its)"
  have mid: "mid_file ?s" using lead_in_mid[OF w(2,3)] .
  have bi: "body_items (frame_of env (compression_level w)) (length ?s) 0 (chunks d) = Some its"
    using its by (simp add: file_items_def)
  have mid2: "mid_file (?s @ items_bytes its)" using body_items_mid[OF mid bi frames_fitD[OF w(1)]] .
  show ?thesis
  proof (cases "b \<le> ?q")
    case True
    show ?thesis
      using splits_append_left[OF body_items_splits[OF mid bi frames_fitD[OF w(1)] b(1,2) True]] .
  next
    case False
    have "length (stream w @ file_record env w lfh tail d its) =
        ?q + length (items_bytes (trailer_items (room ?q) (length d) ?n)) + ?n"
      by (simp add: file_record_def file_body_def file_tail_def)
    then have "splits ?q (trailer_items (room ?q) (length d) ?n) b"
      using mid2[unfolded mid_file_def length_append] False b[unfolded length_append]
      by (intro trailer_items_splits) (simp_all only: length_append not_le split: if_splits, simp_all)
    then show ?thesis by (rule splits_append_right)
  qed
qed

section \<open>What has been sent before a position\<close>

text \<open>The number of bytes of the file in the frames that start before \<open>b\<close>.\<close>

fun sent :: "nat \<Rightarrow> nat \<Rightarrow> item list \<Rightarrow> nat" where
  "sent b p [] = 0"
| "sent b p (it # its) =
     (if p < b then length (item_payload it) + sent b (p + length (item_bytes it)) its else 0)"

definition solid :: "item list \<Rightarrow> bool" where
  "solid its \<longleftrightarrow> (\<forall>it \<in> set its. item_bytes it \<noteq> [])"

lemma readable_solid: "list_all (item_readable zr) its \<Longrightarrow> solid its"
proof -
  have "item_readable zr it \<Longrightarrow> item_bytes it \<noteq> []" for it
  proof (cases it)
    case (Pad n)
    have "length (padding_frame n) \<noteq> 0" by simp
    then show ?thesis using Pad by (metis item_bytes.simps(2) list.size(3))
  next
    case (Sop k)
    have "length (sop_frame (of_nat k)) \<noteq> 0" by simp
    then show ?thesis using Sop by (metis item_bytes.simps(3) list.size(3))
  qed (auto simp: zstd_holds_def zstd_frame_def)
  then show "list_all (item_readable zr) its \<Longrightarrow> solid its" by (auto simp: solid_def list_all_iff)
qed

lemma sent_before: "b \<le> p \<Longrightarrow> sent b p its = 0"
  by (cases its) auto

lemma sent_mono: "b \<le> b' \<Longrightarrow> sent b p its \<le> sent b' p its"
  by (induction its arbitrary: p) auto

lemma solid_Cons [simp]: "solid (it # its) \<longleftrightarrow> 0 < length (item_bytes it) \<and> solid its"
  by (simp add: solid_def)

lemma sent_prefix:
  "solid xs \<Longrightarrow> sent (p + length (items_bytes xs)) p (xs @ ys) = length (payload xs)"
proof (induction xs arbitrary: p)
  case (Cons x xs)
  then show ?case using Cons.IH[of "p + length (item_bytes x)"] by (simp add: add.assoc)
qed (simp add: sent_before)

lemma sent_after:
  "solid its \<Longrightarrow> p + length (items_bytes its) \<le> b \<Longrightarrow> sent b p its = length (payload its)"
proof (induction its arbitrary: p)
  case (Cons x xs)
  have "0 < length (item_bytes x)" using Cons.prems(1) solid_Cons by blast
  then have "p < b" using Cons.prems(2) unfolding items_bytes_simps length_append by linarith
  then show ?case using Cons.IH[of "p + length (item_bytes x)"] Cons.prems by (simp add: add.assoc)
qed simp

lemma splits_two:
  assumes "its = xs @ Sop k # ys" and "its = xs' @ Sop k' # ys'"
    and "length (items_bytes xs) < length (items_bytes xs')"
  shows "\<exists>zs. xs' = xs @ Sop k # zs \<and> ys = zs @ Sop k' # ys'"
proof -
  have "xs @ Sop k # ys = xs' @ Sop k' # ys'" using assms(1,2) by simp
  then consider us where "xs = xs' @ us" | us where "xs' = xs @ us" "us @ Sop k' # ys' = Sop k # ys"
    by (auto simp: append_eq_append_conv2)
  then show ?thesis
  proof cases
    case 1
    then show ?thesis using assms(3) by simp
  next
    case 2
    then show ?thesis using assms(3) by (cases us) auto
  qed
qed

section \<open>One piece of a file\<close>

text \<open>A file has just been opened at some offset; the items and perhaps the descriptor follow. When the
  processor settles, the file has its final size and attributes, and the bytes of these items.\<close>

lemma piece_written:
  fixes m :: file_metadata
  assumes added: "dirs_added (parent p) os os1" and name: "p = resolve name" "snd p \<noteq> []"
    and os2: "os_nodes os2 = (os_nodes os1)(p := Some (Regular c0 a0))"
      "os_fds os2 = (os_fds os)(os_next_fd os := Some p)" "quiet os2" "os_euid os2 = os_euid os"
      "os_next_fd os2 = os_next_fd os + 1"
    and os: "0 \<le> os_next_fd os" "os_fds os (os_next_fd os) = None"
    and st1: "ps_state st1 = STATE_PROCESSING_FRAMES" "ps_os st1 = os2"
      "ps_current_file st1 = Some (at_offset ((context_of name m)\<lparr>fc_fd := os_next_fd os\<rparr>) off)"
    and m: "\<not> fm_is_symlink m" "fm_uncompressed_size m = of_nat n" "n < 2 ^ 63"
    and its: "list_all (item_readable zr) its" "sops_ok off its" "sops_aligned pos its" "off + length (payload its) \<le> n"
    and pos: "ps_part_start_offset st1 + ps_bytes_processed st1 = of_nat pos"
      "pos + length (items_bytes its) < 2 ^ 64"
  shows "\<exists>st2 os3. process_loop zr (pre @ items_bytes its @ rest) (length pre) st1 =
        process_loop zr (pre @ items_bytes its @ rest) (length pre + length (items_bytes its)) st2 \<and>
      st2\<lparr>ps_current_file := None, ps_os := os3\<rparr> =
        st1\<lparr>ps_current_file := None, ps_os := os3,
          ps_bytes_processed := ps_bytes_processed st1 + of_nat (length (items_bytes its))\<rparr> \<and>
      (\<exists>fc. ps_current_file st2 = Some fc \<and> \<not> fc_is_symlink fc \<and> fc_uses_zip64_descriptor fc = fm_uses_zip64_descriptor m) \<and>
      close_output_file st2 = Some (STREAM_PROC_SUCCESS, st2\<lparr>ps_current_file := None, ps_os := os3\<rparr>) \<and>
      holds_node os name (Regular (resize n (overwrite c0 off (payload its)))
        (restored (context_of name m) (os_euid os = 0) a0)) os3"
proof -
  let ?fd = "os_next_fd os"
  let ?fc = "(context_of name m)\<lparr>fc_fd := ?fd\<rparr>" and ?n = "length (items_bytes its)"
  have w: "writing st1 (at_offset ?fc off) p" using st1 os2 os(1) by (simp add: writing_def)
  have "off + length (payload its) < 2 ^ 63" using its(4) m(3) by simp
  from items_processed[OF w its(1-3) pos this, of pre rest]
  obtain os' where loop: "process_loop zr (pre @ items_bytes its @ rest) (length pre) st1 =
      process_loop zr (pre @ items_bytes its @ rest) (length pre + ?n)
        (moved st1 ?n (at_offset ?fc (off + length (payload its))) os')"
    and v: "visible os' = set_content p (\<lambda>c. overwrite c off (payload its)) (visible os2)" and q: "quiet os'"
    using st1(2) by auto
  let ?fc2 = "at_offset ?fc (off + length (payload its))"
  let ?st2 = "moved st1 ?n ?fc2 os'"
  let ?c = "overwrite c0 off (payload its)"
  have fds: "os_fds os' = os_fds os2"
    using v same_fds_set(2)[of "visible os2" p "\<lambda>c. overwrite c off (payload its)"]
    by (metis same_fds_def visible_fields(2))
  have nodes: "os_nodes os' = (os_nodes os1)(p := Some (Regular ?c a0))"
    using arg_cong[OF v, of os_nodes] os2(1) by (simp add: set_content_def)
  have next_fd: "os_next_fd os' = ?fd + 1"
    using arg_cong[OF v, of os_next_fd] os2(5) by (simp add: set_content_def split: option.splits node.splits)
  have euid: "os_euid os' = os_euid os"
    using arg_cong[OF v, of os_euid] os2(4) by (simp add: set_content_def split: option.splits node.splits)
  have size: "unat (of_nat n :: u64) = n" "0 \<le> sint (of_nat n :: u64)"
    using m(3) sint_of_nat_nonneg by (simp_all add: unat_of_nat)
  have ctx: "fc_expected_total_size (context_of name m) = of_nat n" "\<not> fc_is_symlink (context_of name m)"
    using m(1,2) by (simp_all add: context_of_def)
  have "os_nodes (ps_os ?st2) p = Some (Regular ?c a0)" using nodes by simp
  from close_output_file_regular[of ?st2 ?fc2, OF _ _ _ _ this]
  obtain os3 where c: "close_output_file ?st2 = Some (STREAM_PROC_SUCCESS, ?st2\<lparr>ps_current_file := None, ps_os := os3\<rparr>)"
    and os3: "os_nodes os3 = (os_nodes os1)(p := Some (Regular (resize n ?c)
          (restored (context_of name m) (os_euid os = 0) a0)))"
      "os_fds os3 = (os_fds os2)(?fd := None)" "quiet os3" "os_euid os3 = os_euid os" "os_next_fd os3 = ?fd + 1"
    using q os(1) fds os2(2) size ctx nodes euid next_fd by auto
  have "os_fds os3 = os_fds os" using os3(2) os2(2) os(2) by (simp add: fun_upd_idem)
  then have "holds_node os name (Regular (resize n ?c) (restored (context_of name m) (os_euid os = 0) a0)) os3"
    using added name os3 by (intro holds_node_over_dirs) simp_all
  moreover have "?st2\<lparr>ps_current_file := None, ps_os := os3\<rparr> = st1\<lparr>ps_current_file := None, ps_os := os3,
      ps_bytes_processed := ps_bytes_processed st1 + of_nat ?n\<rparr>"
    by (simp add: moved_def)
  moreover have "ps_current_file ?st2 = Some ?fc2 \<and> \<not> fc_is_symlink ?fc2 \<and>
      fc_uses_zip64_descriptor ?fc2 = fm_uses_zip64_descriptor m"
    using m(1) by (simp add: context_of_def)
  ultimately show ?thesis using loop c by blast
qed

text \<open>The bytes \<open>d\<close> take the processor from \<open>st\<close> to a state that settles in \<open>os'\<close>, with \<open>k\<close> more entries used.\<close>

definition leaves ::
  "zstd_reader \<Rightarrow> bytes \<Rightarrow> bytes \<Rightarrow> bytes \<Rightarrow> part_processor_state \<Rightarrow> nat \<Rightarrow> os_state \<Rightarrow> bool" where
  "leaves zr pre d rest st k os' \<longleftrightarrow>
     (\<exists>st'. process_loop zr (pre @ d @ rest) (length pre) st =
        process_loop zr (pre @ d @ rest) (length pre + length d) st' \<and> ready st' \<and>
        settled st' = after_files (settled st) k (length d) os')"

text \<open>The items of a piece, and the descriptor if the record ends with them.\<close>

lemma piece_leaves:
  fixes m :: file_metadata
  assumes added: "dirs_added (parent p) os os1" and name: "p = resolve name" "snd p \<noteq> []"
    and os2: "os_nodes os2 = (os_nodes os1)(p := Some (Regular c0 a0))"
      "os_fds os2 = (os_fds os)(os_next_fd os := Some p)" "quiet os2" "os_euid os2 = os_euid os"
      "os_next_fd os2 = os_next_fd os + 1"
    and os: "0 \<le> os_next_fd os" "os_fds os (os_next_fd os) = None"
    and st1: "ps_state st1 = STATE_PROCESSING_FRAMES" "ps_os st1 = os2"
      "ps_current_file st1 = Some (at_offset ((context_of name m)\<lparr>fc_fd := os_next_fd os\<rparr>) off)"
    and base: "st1\<lparr>ps_current_file := None, ps_state := STATE_EXPECT_LOCAL_HEADER\<rparr> = after_files st k j os2"
    and m: "\<not> fm_is_symlink m" "fm_uncompressed_size m = of_nat n" "n < 2 ^ 63"
    and its: "list_all (item_readable zr) its" "sops_ok off its" "sops_aligned pos its" "off + length (payload its) \<le> n"
    and pos: "ps_part_start_offset st1 + ps_bytes_processed st1 = of_nat pos"
      "pos + length (items_bytes its) < 2 ^ 64"
    and d: "d = items_bytes its \<or> d = items_bytes its @ data_descriptor crc cs us (fm_uses_zip64_descriptor m)"
  shows "\<exists>st' os'. process_loop zr (pre @ d @ rest) (length pre) st1 =
        process_loop zr (pre @ d @ rest) (length pre + length d) st' \<and> ready st' \<and>
      settled st' = after_files st k (j + length d) os' \<and>
      holds_node os name (Regular (resize n (overwrite c0 off (payload its)))
        (restored (context_of name m) (os_euid os = 0) a0)) os'"
proof -
  let ?n = "length (items_bytes its)"
  from d obtain tb where tb: "d = items_bytes its @ tb"
    "tb = [] \<or> tb = data_descriptor crc cs us (fm_uses_zip64_descriptor m)" by auto
  from piece_written[OF added name os2 os st1 m its pos, of pre "tb @ rest"]
  obtain st2 os3 fc where loop: "process_loop zr (pre @ items_bytes its @ tb @ rest) (length pre) st1 =
      process_loop zr (pre @ items_bytes its @ tb @ rest) (length pre + ?n) st2"
    and rec2: "st2\<lparr>ps_current_file := None, ps_os := os3\<rparr> =
      st1\<lparr>ps_current_file := None, ps_os := os3, ps_bytes_processed := ps_bytes_processed st1 + of_nat ?n\<rparr>"
    and fc: "ps_current_file st2 = Some fc" "\<not> fc_is_symlink fc"
      "fc_uses_zip64_descriptor fc = fm_uses_zip64_descriptor m"
    and c: "close_output_file st2 = Some (STREAM_PROC_SUCCESS, st2\<lparr>ps_current_file := None, ps_os := os3\<rparr>)"
    and h: "holds_node os name (Regular (resize n (overwrite c0 off (payload its)))
        (restored (context_of name m) (os_euid os = 0) a0)) os3" by blast
  have fr: "ps_state st2 = STATE_PROCESSING_FRAMES"
    using arg_cong[OF rec2, of ps_state] st1(1) by simp
  have "st2\<lparr>ps_current_file := None, ps_os := os3, ps_state := STATE_EXPECT_LOCAL_HEADER, ps_bytes_processed := b\<rparr> =
      (st1\<lparr>ps_current_file := None, ps_state := STATE_EXPECT_LOCAL_HEADER\<rparr>)\<lparr>ps_os := os3, ps_bytes_processed := b\<rparr>" for b
    using arg_cong[OF rec2, of "\<lambda>x. x\<lparr>ps_state := STATE_EXPECT_LOCAL_HEADER, ps_bytes_processed := b\<rparr>"] by simp
  then have closed: "st2\<lparr>ps_current_file := None, ps_os := os3, ps_state := STATE_EXPECT_LOCAL_HEADER,
      ps_bytes_processed := ps_bytes_processed st + of_nat (j + i)\<rparr> = after_files st k (j + i) os3" for i
    unfolding base by (simp add: after_files_def)
  have bytes: "ps_bytes_processed st1 = ps_bytes_processed st + of_nat j"
    using arg_cong[OF base, of ps_bytes_processed] by simp
  have bytes2: "ps_bytes_processed st2 = ps_bytes_processed st + of_nat (j + ?n)"
    using arg_cong[OF rec2, of ps_bytes_processed] bytes by simp
  from tb(2) show ?thesis
  proof
    assume "tb = []"
    then have "settled st2 = after_files st k (j + length d) os3"
      using closed[of ?n] c bytes2 tb(1) by (cases st2) (simp add: settled_def)
    moreover have "ready st2" using fr fc by (simp add: ready_def)
    ultimately show ?thesis using loop h tb(1) \<open>tb = []\<close> by auto
  next
    let ?z = "fm_uses_zip64_descriptor m"
    let ?st3 = "st2\<lparr>ps_current_file := None, ps_os := os3, ps_state := STATE_EXPECT_LOCAL_HEADER,
        ps_bytes_processed := ps_bytes_processed st2 + of_nat (length (data_descriptor crc cs us ?z))\<rparr>"
    assume t: "tb = data_descriptor crc cs us ?z"
    have "process_loop zr (pre @ d @ rest) (length pre) st1 = process_loop zr (pre @ d @ rest) (length pre + length d) ?st3"
      using loop descriptor_closes[OF fr fc(1,3) c, of zr "pre @ items_bytes its" crc cs us rest] t tb(1)
      by (simp add: add.assoc del: length_data_descriptor)
    moreover have "?st3 = after_files st k (j + length d) os3"
      using closed[of "length d"] bytes2 t tb(1) by (simp add: add.assoc del: length_data_descriptor)
    moreover have "ready ?st3 \<and> settled ?st3 = ?st3" by (intro settled_expects) simp_all
    ultimately show ?thesis using h by metis
  qed
qed

text \<open>A part that continues a file: the first frame is a Start-of-Part frame, which opens the file.\<close>

lemma continuing_opens:
  assumes st: "ps_state st = STATE_INIT" "ps_current_file st = None" "pf_continuing_file (this_part st) = Some i"
    and o: "open_output_file (cp_files (ps_cd_result st) ! i) (st\<lparr>ps_state := STATE_CONTINUING_FILE\<rparr>) =
      Some (STREAM_PROC_SUCCESS, st\<lparr>ps_state := STATE_CONTINUING_FILE, ps_current_file := Some fc, ps_os := os'\<rparr>)"
  shows "process_loop zr (pre @ sop_frame (of_nat k) @ rest) (length pre) st =
    process_loop zr (pre @ sop_frame (of_nat k) @ rest) (length pre + 24)
      (st\<lparr>ps_state := STATE_PROCESSING_FRAMES, ps_current_file := Some (at_offset fc k), ps_os := os',
         ps_bytes_processed := ps_bytes_processed st + 24\<rparr>)"
proof -
  let ?w = "pre @ sop_frame (of_nat k) @ rest" and ?st1 = "st\<lparr>ps_state := STATE_CONTINUING_FILE\<rparr>"
  have lt: "length pre < length ?w" by simp
  have "process_loop zr ?w (length pre) st = process_loop zr ?w (length pre) ?st1"
    using st by (intro process_loop_Next[OF lt]) (simp add: process_step_def step_init_def)
  also have "\<dots> = process_loop zr ?w (length pre + 24)
      (st\<lparr>ps_state := STATE_PROCESSING_FRAMES, ps_current_file := Some (at_offset fc k), ps_os := os',
         ps_bytes_processed := ps_bytes_processed st + 24\<rparr>)"
  proof (rule process_loop_Next[OF lt])
    have "read_le 8 (sop_frame (of_nat k) @ rest) 9 = Some (of_nat k :: u64)"
      by (simp add: sop_frame_def read_le_def)
    then have "handle_start_of_part_frame (sop_frame (of_nat k) @ rest) ?st1 = Some (STREAM_PROC_SUCCESS,
        st\<lparr>ps_state := STATE_CONTINUING_FILE, ps_current_file := Some (at_offset fc k), ps_os := os'\<rparr>)"
      using st o by (simp add: handle_start_of_part_frame_def proceed_def set_uncompressed_offset_def at_offset_def)
    then show "process_step zr ?w (length pre) ?st1 = Next (length pre + 24)
      (st\<lparr>ps_state := STATE_PROCESSING_FRAMES, ps_current_file := Some (at_offset fc k), ps_os := os',
         ps_bytes_processed := ps_bytes_processed st + 24\<rparr>)"
      using parse_sop_frame[of zr "of_nat k" rest]
      by (simp add: process_step_def step_continuing_def with_frame_Ok frame_info_of_def after_def advance_def)
  qed
  finally show ?thesis .
qed

text \<open>The settled processor before anything was processed.\<close>

lemma settled_none:
  assumes "ps_current_file st = None"
  shows "settled st = st\<lparr>ps_state := STATE_EXPECT_LOCAL_HEADER\<rparr>"
  using assms by (simp add: settled_def close_output_file_def)

lemma resumed_piece:
  assumes st: "ps_state st = STATE_INIT" "ps_current_file st = None" "pf_continuing_file (this_part st) = Some i"
    and m: "m = cp_files (ps_cd_result st) ! i" "\<not> fm_is_symlink m"
      "\<not> (fm_filename m \<noteq> [] \<and> last (fm_filename m) = slash)" "fm_uncompressed_size m = of_nat n" "n < 2 ^ 63"
    and os: "quiet (ps_os st)" "0 \<le> os_next_fd (ps_os st)" "os_fds (ps_os st) (os_next_fd (ps_os st)) = None"
    and name: "name = ps_output_dir st @ slash # fm_filename m" "creatable (ps_os st) name"
    and its: "list_all (item_readable zr) its" "sops_ok k its" "sops_aligned (pos + 24) its" "k + length (payload its) \<le> n"
    and pos: "ps_part_start_offset st + ps_bytes_processed st = of_nat pos"
      "pos + 24 + length (items_bytes its) < 2 ^ 64"
    and d: "d = sop_frame (of_nat k) @ items_bytes its \<or>
      d = sop_frame (of_nat k) @ items_bytes its @ data_descriptor crc cs us (fm_uses_zip64_descriptor m)"
  shows "\<exists>os'. leaves zr pre d rest st 0 os' \<and>
    holds_node (ps_os st) name (Regular (resize n (overwrite (fst (file_at (ps_os st) (resolve name))) k (payload its)))
      (restored (context_of name m) (os_euid (ps_os st) = 0) (snd (file_at (ps_os st) (resolve name))))) os'"
proof -
  let ?os = "ps_os st" and ?p = "resolve name"
  let ?fd = "os_next_fd ?os" and ?st0 = "st\<lparr>ps_state := STATE_CONTINUING_FILE\<rparr>"
  let ?fc = "(context_of name m)\<lparr>fc_fd := ?fd\<rparr>"
  have "snd ?p \<noteq> []" using name(2) by (simp add: creatable_def)
  obtain os1 os2 where o: "open_output_file m ?st0 = Some (STREAM_PROC_SUCCESS,
        ?st0\<lparr>ps_current_file := Some ?fc, ps_os := os2\<rparr>)"
    and added: "dirs_added (parent ?p) ?os os1"
    and os2: "os_nodes os2 = (os_nodes os1)(?p := Some (Regular (fst (file_at ?os ?p)) (snd (file_at ?os ?p))))"
      "os_fds os2 = (os_fds ?os)(?fd := Some ?p)" "quiet os2" "os_euid os2 = os_euid ?os"
      "os_next_fd os2 = ?fd + 1"
    using open_output_file_regular[of ?st0 m] st(2) os m(2,3) name unfolding Let_def by auto
  let ?st1 = "st\<lparr>ps_state := STATE_PROCESSING_FRAMES, ps_current_file := Some (at_offset ?fc k), ps_os := os2,
      ps_bytes_processed := ps_bytes_processed st + 24\<rparr>"
  from d obtain d' where d': "d = sop_frame (of_nat k) @ d'"
    "d' = items_bytes its \<or> d' = items_bytes its @ data_descriptor crc cs us (fm_uses_zip64_descriptor m)" by auto
  have l1: "process_loop zr (pre @ d @ rest) (length pre) st = process_loop zr (pre @ d @ rest) (length pre + 24) ?st1"
    using continuing_opens[OF st, where fc = ?fc and os' = os2 and pre = pre and k = k and rest = "d' @ rest"] o m(1) d'(1) by simp
  have base: "?st1\<lparr>ps_current_file := None, ps_state := STATE_EXPECT_LOCAL_HEADER\<rparr> = after_files (settled st) 0 24 os2"
    unfolding settled_none[OF st(2)] using st(2) by (cases st) (simp add: after_files_def)
  have "ps_part_start_offset ?st1 + ps_bytes_processed ?st1 = of_nat (pos + 24)"
    using pos(1) by (simp add: add.assoc[symmetric])
  from piece_leaves[OF added refl \<open>snd ?p \<noteq> []\<close> os2 os(2,3) _ _ _ base m(2,4,5) its this pos(2) d'(2), of "pre @ sop_frame (of_nat k)" rest]
  obtain st' os' where "process_loop zr (pre @ d @ rest) (length pre + 24) ?st1 =
      process_loop zr (pre @ d @ rest) (length pre + length d) st'" "ready st'"
    "settled st' = after_files (settled st) 0 (length d) os'"
    "holds_node ?os name (Regular (resize n (overwrite (fst (file_at ?os ?p)) k (payload its)))
      (restored (context_of name m) (os_euid ?os = 0) (snd (file_at ?os ?p)))) os'"
    unfolding d'(1) by (auto simp: add.assoc)
  with l1 show ?thesis unfolding leaves_def by metis
qed

text \<open>A part in which a file begins.\<close>

lemma opening_piece:
  assumes h: "header_complete lfh tail" "\<not> padding_named lfh tail"
    and st: "ps_state st = STATE_EXPECT_LOCAL_HEADER" "ps_current_file st = None"
      "ps_next_entry_idx st < length (pf_entries (this_part st))"
    and m: "m = cp_files (ps_cd_result st) ! pe_file_index (pf_entries (this_part st) ! ps_next_entry_idx st)"
      "\<not> fm_is_symlink m" "\<not> (fm_filename m \<noteq> [] \<and> last (fm_filename m) = slash)"
      "fm_uncompressed_size m = of_nat n" "n < 2 ^ 63"
    and os: "quiet (ps_os st)" "0 \<le> os_next_fd (ps_os st)" "os_fds (ps_os st) (os_next_fd (ps_os st)) = None"
    and name: "name = ps_output_dir st @ slash # fm_filename m" "creatable (ps_os st) name"
    and its: "list_all (item_readable zr) its" "sops_ok 0 its" "sops_aligned (pos + (30 + length tail)) its"
      "length (payload its) \<le> n"
    and pos: "ps_part_start_offset st + ps_bytes_processed st = of_nat pos"
      "pos + (30 + length tail) + length (items_bytes its) < 2 ^ 64"
    and d: "d = (local_header_bytes lfh @ tail) @ items_bytes its \<or>
      d = (local_header_bytes lfh @ tail) @ items_bytes its @ data_descriptor crc cs us (fm_uses_zip64_descriptor m)"
  shows "\<exists>os'. leaves zr pre d rest st 1 os' \<and>
    holds_node (ps_os st) name (Regular (resize n (overwrite (fst (file_at (ps_os st) (resolve name))) 0 (payload its)))
      (restored (context_of name m) (os_euid (ps_os st) = 0) (snd (file_at (ps_os st) (resolve name))))) os'"
proof -
  let ?os = "ps_os st" and ?p = "resolve name" and ?h = "30 + length tail"
  let ?fd = "os_next_fd ?os"
  let ?fc = "(context_of name m)\<lparr>fc_fd := ?fd\<rparr>"
  have "snd ?p \<noteq> []" using name(2) by (simp add: creatable_def)
  obtain os1 os2 where o: "open_output_file m st = Some (STREAM_PROC_SUCCESS,
        st\<lparr>ps_current_file := Some ?fc, ps_os := os2\<rparr>)"
    and added: "dirs_added (parent ?p) ?os os1"
    and os2: "os_nodes os2 = (os_nodes os1)(?p := Some (Regular (fst (file_at ?os ?p)) (snd (file_at ?os ?p))))"
      "os_fds os2 = (os_fds ?os)(?fd := Some ?p)" "quiet os2" "os_euid os2 = os_euid ?os"
      "os_next_fd os2 = ?fd + 1"
    using open_output_file_regular[OF st(2) os(1,2) m(2,3)] name unfolding Let_def by blast
  let ?st1 = "opened st ?h (at_offset ?fc 0) os2"
  from d obtain d' where d': "d = (local_header_bytes lfh @ tail) @ d'"
    "d' = items_bytes its \<or> d' = items_bytes its @ data_descriptor crc cs us (fm_uses_zip64_descriptor m)" by auto
  have l1: "process_loop zr (pre @ d @ rest) (length pre) st = process_loop zr (pre @ d @ rest) (length pre + ?h) ?st1"
    using file_header_opens[OF h st(1,3) m(1,2) o, of zr pre "d' @ rest"] d'(1) by simp
  have set: "settled st = st" using settled_expects[OF st(1,2)] by simp
  have base: "?st1\<lparr>ps_current_file := None, ps_state := STATE_EXPECT_LOCAL_HEADER\<rparr> = after_files st 1 ?h os2"
    using st(1,2) by (cases st) (simp add: after_files_def opened_def)
  have "ps_part_start_offset ?st1 + ps_bytes_processed ?st1 = of_nat (pos + ?h)"
    using pos(1) by (simp add: opened_def add.assoc[symmetric])
  from piece_leaves[OF added refl \<open>snd ?p \<noteq> []\<close> os2 os(2,3) _ _ _ base m(2,4,5) its(1-3) _ this pos(2) d'(2),
      of "pre @ local_header_bytes lfh @ tail" rest] its(4)
  obtain st' os' where "process_loop zr (pre @ d @ rest) (length pre + ?h) ?st1 =
      process_loop zr (pre @ d @ rest) (length pre + length d) st'" "ready st'"
    "settled st' = after_files st 1 (length d) os'"
    "holds_node ?os name (Regular (resize n (overwrite (fst (file_at ?os ?p)) 0 (payload its)))
      (restored (context_of name m) (os_euid ?os = 0) (snd (file_at ?os ?p)))) os'"
    unfolding d'(1) by (auto simp: add.assoc opened_def)
  with l1 show ?thesis unfolding leaves_def set by metis
qed

end
