(* ===== verification/Cd_Fetch.thy ===== *)
theory Cd_Fetch
  imports Part_Map
begin

text \<open>
  Fetching a central directory that does not fit into the tail buffer (\<open>src/downloader/cd_fetch.c\<close>,
  lines 26-301, \<open>include/cd_fetch.h\<close>) and the choice of the parts to download
  (\<open>src/downloader/parts_calculation.c\<close>). A fetched range is the list of its bytes (\<open>None\<close>: the
  pointer is NULL); the buffer that is assembled is fresh memory, so a byte that nothing was copied
  to is \<open>None\<close>.
\<close>

section \<open>Which ranges to fetch\<close>

record cd_part_range =
  cr_start :: u64
  cr_end :: u64
  cr_has_body_data :: bool
  cr_body_data_size :: u64

text \<open>The counting loop. Its variable may wrap around, so it is a partial function.\<close>

partial_function (option) count_ranges :: "u64 \<Rightarrow> u64 \<Rightarrow> u64 \<Rightarrow> nat \<Rightarrow> nat option" where
  [code]: "count_ranges part_len initial_buffer_start part_start n =
     (if part_start < initial_buffer_start
      then count_ranges part_len initial_buffer_start (part_start + part_len) (n + 1)
      else Some n)"

definition range_at :: "u64 \<Rightarrow> u64 \<Rightarrow> u64 \<Rightarrow> u64 \<Rightarrow> cd_part_range" where
  "range_at central_dir_offset part_len initial_buffer_start part_start =
     (let part_end = part_start + part_len - 1;
          part_end1 = (if part_end \<ge> initial_buffer_start then initial_buffer_start - 1 else part_end)
      in if part_start < central_dir_offset then
           let body_end = (if central_dir_offset > part_end1 + 1 then part_end1 + 1 else central_dir_offset)
           in \<lparr>cr_start = part_start, cr_end = part_end1, cr_has_body_data = True,
               cr_body_data_size = body_end - part_start\<rparr>
         else \<lparr>cr_start = part_start, cr_end = part_end1, cr_has_body_data = False,
               cr_body_data_size = 0\<rparr>)"

fun fill_ranges :: "u64 \<Rightarrow> u64 \<Rightarrow> u64 \<Rightarrow> u64 \<Rightarrow> nat \<Rightarrow> cd_part_range list" where
  "fill_ranges central_dir_offset part_len initial_buffer_start part_start 0 = []"
| "fill_ranges central_dir_offset part_len initial_buffer_start part_start (Suc n) =
     (if part_start < initial_buffer_start
      then range_at central_dir_offset part_len initial_buffer_start part_start #
           fill_ranges central_dir_offset part_len initial_buffer_start (part_start + part_len) n
      else [])"

text \<open>\<open>None\<close>: does not return. The division by a zero part size is a fault.\<close>

definition calculate_cd_fetch_ranges ::
  "bool \<Rightarrow> u64 \<Rightarrow> u64 \<Rightarrow> u64 \<Rightarrow> (unit, cd_part_range list) outcome option" where
  "calculate_cd_fetch_ranges alloc_ok central_dir_offset part_len initial_buffer_start =
     (if central_dir_offset \<ge> initial_buffer_start then Some (Ok [])
      else if part_len = 0 then Some Fault
      else
        let first_part_start = central_dir_offset div part_len * part_len
        in if first_part_start \<ge> initial_buffer_start then Some (Ok [])
           else case count_ranges part_len initial_buffer_start first_part_start 0 of
                  None \<Rightarrow> None
                | Some n \<Rightarrow>
                    if n = 0 then Some (Ok [])
                    else if \<not> alloc_ok then Some (Error ())
                    else Some (Ok (fill_ranges central_dir_offset part_len initial_buffer_start
                                     first_part_start n)))"

section \<open>Assembling the directory\<close>

record body_data_segment =
  bs_data :: bytes
  bs_archive_offset :: u64

type_synonym fresh = "8 word option list"

text \<open>\<open>memcpy(cd_buf + off, data, n)\<close>: \<open>None\<close> when it leaves the buffer.\<close>

definition copy_into :: "nat \<Rightarrow> bytes \<Rightarrow> fresh \<Rightarrow> fresh option" where
  "copy_into off data buf =
     (if off + length data \<le> length buf
      then Some (take off buf @ map Some data @ drop (off + length data) buf) else None)"

text \<open>The overlap of \<open>[src_start, src_end)\<close> with the directory is copied, if the source has it.\<close>

definition copy_overlap ::
  "u64 \<Rightarrow> u64 \<Rightarrow> u64 \<Rightarrow> u64 \<Rightarrow> bytes \<Rightarrow> fresh \<Rightarrow> fresh option" where
  "copy_overlap central_dir_offset cd_end src_start src_end src buf =
     (let cd_data_start = (if src_start < central_dir_offset then central_dir_offset else src_start);
          cd_data_end = (if src_end > cd_end then cd_end else src_end)
      in if cd_data_start < cd_data_end then
           let offset_in_range = cd_data_start - src_start;
               offset_in_cd_buf = cd_data_start - central_dir_offset;
               copy_size = cd_data_end - cd_data_start
           in if unat (offset_in_range + copy_size) \<le> length src
              then copy_into (unat offset_in_cd_buf)
                     (take (unat copy_size) (drop (unat offset_in_range) src)) buf
              else Some buf
         else Some buf)"

fun copy_ranges ::
  "u64 \<Rightarrow> u64 \<Rightarrow> cd_part_range list \<Rightarrow> bytes option list \<Rightarrow> fresh \<Rightarrow> fresh option" where
  "copy_ranges central_dir_offset cd_end (r # rs) (b # bs) buf =
     (case b of
        None \<Rightarrow> copy_ranges central_dir_offset cd_end rs bs buf
      | Some data \<Rightarrow>
          if data = [] then copy_ranges central_dir_offset cd_end rs bs buf
          else case copy_overlap central_dir_offset cd_end (cr_start r) (cr_end r + 1) data buf of
                 None \<Rightarrow> None
               | Some buf1 \<Rightarrow> copy_ranges central_dir_offset cd_end rs bs buf1)"
| "copy_ranges central_dir_offset cd_end rs bs buf = Some buf"

text \<open>The body data of the first range that has some; \<open>Some None\<close>: a pointer to missing data. A segment whose
  data is shorter than its announced size is \<open>None\<close> too; the directory then has bytes that were never set, and its
  parser, which counts reading them as a fault, comes before the use of the segment.\<close>

fun first_body :: "cd_part_range list \<Rightarrow> bytes option list \<Rightarrow> (bytes option \<times> cd_part_range) option" where
  "first_body (r # rs) (b # bs) =
     (if cr_has_body_data r \<and> cr_body_data_size r > 0 then Some (b, r) else first_body rs bs)"
| "first_body rs bs = None"

definition body_segment_of :: "bytes option \<times> cd_part_range \<Rightarrow> body_data_segment option" where
  "body_segment_of br =
     (case fst br of
        None \<Rightarrow> None
      | Some data \<Rightarrow>
          if unat (cr_body_data_size (snd br)) \<le> length data
          then Some \<lparr>bs_data = take (unat (cr_body_data_size (snd br))) data,
                     bs_archive_offset = cr_start (snd br)\<rparr>
          else None)"

definition assemble_cd_buffer ::
  "bool list \<Rightarrow> bytes \<Rightarrow> u64 \<Rightarrow> cd_part_range list \<Rightarrow> bytes option list \<Rightarrow> u64 \<Rightarrow> u64
     \<Rightarrow> (unit, fresh \<times> body_data_segment option list) outcome" where
  "assemble_cd_buffer al initial_buffer initial_start ranges range_buffers central_dir_offset
      central_dir_size =
     (if \<not> fst (next_alloc al) then Error ()
      else
        let cd_end = central_dir_offset + central_dir_size
        in case copy_ranges central_dir_offset cd_end ranges range_buffers
                  (replicate (unat central_dir_size) None) of
             None \<Rightarrow> Fault
           | Some buf1 \<Rightarrow>
               (case (if initial_buffer \<noteq> [] \<and> initial_start < cd_end
                      then copy_overlap central_dir_offset cd_end initial_start
                             (initial_start + of_nat (length initial_buffer)) initial_buffer buf1
                      else Some buf1) of
                  None \<Rightarrow> Fault
                | Some buf2 \<Rightarrow>
                    (case first_body ranges range_buffers of
                       None \<Rightarrow> Ok (buf2, [])
                     | Some br \<Rightarrow>
                         if \<not> fst (next_alloc (snd (next_alloc al))) then Error ()
                         else Ok (buf2, [body_segment_of br]))))"

definition add_tail_buffer_segment ::
  "bool \<Rightarrow> body_data_segment option list \<Rightarrow> bytes \<Rightarrow> u64 \<Rightarrow> u64
     \<Rightarrow> (unit, body_data_segment option list) outcome" where
  "add_tail_buffer_segment alloc_ok segments initial_buffer initial_start central_dir_offset =
     (if initial_start \<ge> central_dir_offset then Ok segments
      else
        let body_data_end =
              (if central_dir_offset > initial_start + of_nat (length initial_buffer)
               then initial_start + of_nat (length initial_buffer) else central_dir_offset);
            body_size = unat (body_data_end - initial_start)
        in if body_size = 0 then Ok segments
           else if \<not> alloc_ok then Error ()
           else Ok (segments @
                  [if body_size \<le> length initial_buffer
                   then Some \<lparr>bs_data = take body_size initial_buffer,
                              bs_archive_offset = initial_start\<rparr>
                   else None]))"

section \<open>Which parts to download\<close>

definition calculate_parts_to_download :: "size_t \<Rightarrow> u64 \<Rightarrow> u64 \<Rightarrow> size_t \<times> bool" where
  "calculate_parts_to_download num_parts part_len cd_start =
     (if num_parts = 0 then (0, False)
      else
        let final_part_start = (num_parts - 1) * part_len
        in if final_part_start \<ge> cd_start then (num_parts - 1, True) else (num_parts, False))"

section \<open>The ranges tile the gap\<close>

text \<open>The number of parts of length \<open>s\<close> from \<open>a\<close> on that start before \<open>b\<close>.\<close>

definition parts_before :: "nat \<Rightarrow> nat \<Rightarrow> nat \<Rightarrow> nat" where
  "parts_before s a b = (b - a + s - 1) div s"

lemma parts_before_step:
  assumes "a < b" and "0 < s"
  shows "parts_before s a b = Suc (parts_before s (a + s) b)"
proof -
  have "b - a + s - 1 = (b - a - 1) + s" using assms by simp
  then have l: "parts_before s a b = Suc ((b - a - 1) div s)"
    using assms(2) unfolding parts_before_def by (metis Suc_eq_plus1 div_add_self2 not_less0)
  have "parts_before s (a + s) b = (b - a - 1) div s"
  proof (cases "a + s < b")
    case True
    then have "b - (a + s) + s - 1 = b - a - 1" by simp
    then show ?thesis by (simp only: parts_before_def)
  next
    case False
    then show ?thesis using assms by (simp add: parts_before_def)
  qed
  then show ?thesis using l by simp
qed

lemma parts_before_done: "b \<le> a \<Longrightarrow> 0 < s \<Longrightarrow> parts_before s a b = 0"
  by (simp add: parts_before_def)

lemma parts_before_bounds:
  assumes "a < b" and "0 < s"
  shows "b \<le> a + parts_before s a b * s" and "k < parts_before s a b \<Longrightarrow> a + k * s < b"
proof -
  let ?m = "b - a + s - 1"
  have m: "?m = ?m div s * s + ?m mod s" by simp
  have "?m mod s < s" using assms(2) by simp
  then show "b \<le> a + parts_before s a b * s" using m assms(1) unfolding parts_before_def by linarith
  assume "k < parts_before s a b"
  then have "Suc k * s \<le> parts_before s a b * s" by (intro mult_le_mono1) simp
  moreover have "parts_before s a b * s \<le> ?m" unfolding parts_before_def by (rule div_times_less_eq_dividend)
  ultimately show "a + k * s < b" using assms by simp
qed

lemma count_ranges_total:
  assumes "0 < unat part_len" and "unat ibs + unat part_len \<le> 2 ^ 64"
  shows "count_ranges part_len ibs part_start n = Some (n + parts_before (unat part_len) (unat part_start) (unat ibs))"
proof (induction "unat ibs - unat part_start" arbitrary: part_start n rule: less_induct)
  case less
  show ?case
  proof (cases "part_start < ibs")
    case True
    then have lt: "unat part_start < unat ibs" by (simp add: word_less_nat_alt)
    have u: "unat (part_start + part_len) = unat part_start + unat part_len"
      using lt assms(2) by (simp add: unat_word_ariths)
    then have "unat ibs - unat (part_start + part_len) < unat ibs - unat part_start"
      using assms(1) lt by simp
    from less[OF this] show ?thesis
      using True u parts_before_step[OF lt assms(1)] by (subst count_ranges.simps) simp
  next
    case False
    then show ?thesis
      using parts_before_done[OF _ assms(1), of "unat ibs" "unat part_start"]
      by (subst count_ranges.simps) (simp add: word_less_nat_alt)
  qed
qed

lemma fill_ranges_eq:
  assumes "0 < unat part_len" and "unat ibs + unat part_len \<le> 2 ^ 64"
  shows "fill_ranges cdo part_len ibs part_start
           (parts_before (unat part_len) (unat part_start) (unat ibs))
         = map (\<lambda>k. range_at cdo part_len ibs (of_nat (unat part_start + k * unat part_len)))
             [0..<parts_before (unat part_len) (unat part_start) (unat ibs)]"
proof (induction "unat ibs - unat part_start" arbitrary: part_start rule: less_induct)
  case less
  let ?n = "\<lambda>p. parts_before (unat part_len) (unat p) (unat ibs)"
  show ?case
  proof (cases "part_start < ibs")
    case True
    then have lt: "unat part_start < unat ibs" by (simp add: word_less_nat_alt)
    have u: "unat (part_start + part_len) = unat part_start + unat part_len"
      using lt assms(2) by (simp add: unat_word_ariths)
    then have dec: "unat ibs - unat (part_start + part_len) < unat ibs - unat part_start"
      using assms(1) lt by simp
    have n: "?n part_start = Suc (?n (part_start + part_len))"
      using u parts_before_step[OF lt assms(1)] by simp
    have "[0..<Suc m] = 0 # map Suc [0..<m]" for m
      by (simp add: map_Suc_upt upt_conv_Cons del: upt_Suc)
    then show ?thesis
      unfolding n using less[OF dec] True u by (simp add: o_def algebra_simps del: upt_Suc)
  next
    case False
    then have "?n part_start = 0"
      using assms(1) by (intro parts_before_done) (simp_all add: word_less_nat_alt)
    then show ?thesis by simp
  qed
qed

text \<open>A range in numbers.\<close>

lemma range_at_nat:
  fixes cdo :: u64
  assumes a: "a < unat ibs" and s: "0 < unat part_len" "unat ibs + unat part_len \<le> 2 ^ 64"
  defines "r \<equiv> range_at cdo part_len ibs (of_nat a)"
  shows "unat (cr_start r) = a"
    and "unat (cr_end r + 1) = min (a + unat part_len) (unat ibs)"
    and "cr_has_body_data r \<longleftrightarrow> a < unat cdo"
    and "unat (cr_body_data_size r) = min (unat cdo) (min (a + unat part_len) (unat ibs)) - a"
proof -
  have lt: "a < 2 ^ 64" using a unat_u64_less[of ibs] by simp
  then have ua: "unat (of_nat a :: u64) = a" by (simp add: unat_of_nat)
  show start: "unat (cr_start r) = a"
    using ua by (simp add: r_def range_at_def Let_def)
  show body: "cr_has_body_data r \<longleftrightarrow> a < unat cdo"
    using ua by (simp add: r_def range_at_def Let_def word_less_nat_alt)
  let ?e = "of_nat a + part_len - 1 :: u64"
  have e: "unat ?e = a + unat part_len - 1"
  proof -
    have "a + unat part_len - 1 < 2 ^ 64" using a s by simp
    moreover have "?e = of_nat (a + unat part_len - 1)" using s(1) by (simp add: of_nat_diff)
    ultimately show ?thesis by (simp add: unat_of_nat del: of_nat_diff)
  qed
  have i: "unat (ibs - 1) = unat ibs - 1"
    using a by (simp add: unat_minus_one unat_gt_0[symmetric] del: unat_gt_0)
  define e1 where "e1 = (if ?e \<ge> ibs then ibs - 1 else ?e)"
  have e1: "unat e1 + 1 = min (a + unat part_len) (unat ibs)"
    using e i a s(1) by (auto simp: e1_def word_le_nat_alt min_def)
  moreover have "min (a + unat part_len) (unat ibs) < 2 ^ 64" using unat_u64_less[of ibs] by simp
  ultimately have u1: "unat (e1 + 1) = min (a + unat part_len) (unat ibs)"
    by (simp add: unat_word_ariths)
  have r: "cr_end r = e1" "cr_body_data_size r =
      (if of_nat a < cdo then (if cdo > e1 + 1 then e1 + 1 else cdo) - of_nat a else 0)"
    by (simp_all add: r_def range_at_def Let_def e1_def)
  show "unat (cr_end r + 1) = min (a + unat part_len) (unat ibs)" unfolding r by (rule u1)
  have "unat ((if cdo > e1 + 1 then e1 + 1 else cdo) - of_nat a) =
      min (unat cdo) (min (a + unat part_len) (unat ibs)) - a" if "a < unat cdo"
  proof -
    let ?m = "if cdo > e1 + 1 then e1 + 1 else cdo"
    have m: "unat ?m = min (unat cdo) (min (a + unat part_len) (unat ibs))"
      using u1 by (auto simp: word_less_nat_alt min_def)
    then have "of_nat a \<le> ?m" using that a s(1) ua by (simp add: word_le_nat_alt)
    then show ?thesis using m ua by (simp add: unat_sub)
  qed
  then show "unat (cr_body_data_size r) = min (unat cdo) (min (a + unat part_len) (unat ibs)) - a"
    unfolding r using ua by (auto simp: word_less_nat_alt)
qed

definition first_part :: "u64 \<Rightarrow> u64 \<Rightarrow> nat" where
  "first_part cdo part_len = unat cdo div unat part_len * unat part_len"

definition num_ranges :: "u64 \<Rightarrow> u64 \<Rightarrow> u64 \<Rightarrow> nat" where
  "num_ranges cdo part_len ibs = parts_before (unat part_len) (first_part cdo part_len) (unat ibs)"

lemma first_part_le: "first_part cdo part_len \<le> unat cdo"
  by (simp add: first_part_def)

lemma calculate_cd_fetch_ranges_eq:
  assumes lt: "cdo < ibs" and s: "0 < unat part_len" "unat ibs + unat part_len \<le> 2 ^ 64"
  shows "calculate_cd_fetch_ranges True cdo part_len ibs =
           Some (Ok (map (\<lambda>k. range_at cdo part_len ibs (of_nat (first_part cdo part_len + k * unat part_len)))
                       [0..<num_ranges cdo part_len ibs]))"
proof -
  let ?f = "cdo div part_len * part_len"
  have f: "unat ?f = first_part cdo part_len"
  proof -
    have "unat cdo div unat part_len * unat part_len < 2 ^ 64"
      using unat_u64_less[of cdo] div_times_less_eq_dividend[of "unat cdo" "unat part_len"]
      by (simp del: div_times_less_eq_dividend)
    then show ?thesis by (simp add: first_part_def unat_word_ariths(2) unat_div)
  qed
  have fi: "first_part cdo part_len < unat ibs"
    using lt first_part_le[of cdo part_len] by (simp add: word_less_nat_alt)
  then have "0 < num_ranges cdo part_len ibs"
    using parts_before_step[OF fi s(1)] by (simp add: num_ranges_def)
  moreover have "part_len \<noteq> 0" using s(1) by auto
  moreover have "\<not> ?f \<ge> ibs" using f fi by (simp add: word_le_nat_alt)
  ultimately show ?thesis
    using lt count_ranges_total[OF s, of ?f 0] fill_ranges_eq[OF s, of cdo ?f] f
    by (simp add: calculate_cd_fetch_ranges_def Let_def num_ranges_def)
qed

section \<open>The directory is assembled\<close>

definition archive_slice :: "bytes \<Rightarrow> nat \<Rightarrow> nat \<Rightarrow> bytes" where
  "archive_slice A a b = take (b - a) (drop a A)"

lemma length_slice: "b \<le> length A \<Longrightarrow> length (archive_slice A a b) = b - a"
  by (simp add: archive_slice_def)

lemma nth_slice: "b \<le> length A \<Longrightarrow> a + i < b \<Longrightarrow> archive_slice A a b ! i = A ! (a + i)"
  by (simp add: archive_slice_def)

lemma unat_diff:
  "unat (x :: u64) = m \<Longrightarrow> unat y = n \<Longrightarrow> n \<le> m \<Longrightarrow> unat (x - y) = m - n"
  by (simp add: unat_sub word_le_nat_alt)

lemma nth_copy_into:
  assumes "copy_into off data buf = Some buf'" and "i < length buf"
  shows "buf' ! i = (if off \<le> i \<and> i < off + length data then Some (data ! (i - off)) else buf ! i)"
  using assms by (auto simp: copy_into_def nth_append split: if_splits)

lemma length_copy_into: "copy_into off data buf = Some buf' \<Longrightarrow> length buf' = length buf"
  by (auto simp: copy_into_def split: if_splits)

text \<open>Copying the part \<open>[a, b)\<close> of the archive into the directory buffer.\<close>

lemma copy_overlap_slice:
  assumes A: "unat cdo + length buf \<le> length A" "length A < 2 ^ 63" "b \<le> length A"
    and s: "unat src_start = a" "unat src_end = b" "unat cd_end = unat cdo + length buf"
  shows "\<exists>buf'. copy_overlap cdo cd_end src_start src_end (archive_slice A a b) buf = Some buf' \<and>
           length buf' = length buf \<and>
           (\<forall>i < length buf. buf' ! i =
              (if a \<le> unat cdo + i \<and> unat cdo + i < b then Some (A ! (unat cdo + i)) else buf ! i))"
proof -
  define s1 where "s1 = (if src_start < cdo then cdo else src_start)"
  define e1 where "e1 = (if src_end > cd_end then cd_end else src_end)"
  have us: "unat s1 = max a (unat cdo)" using s by (auto simp: s1_def word_less_nat_alt max_def)
  have ue: "unat e1 = min b (unat cdo + length buf)" using s by (auto simp: e1_def word_less_nat_alt min_def)
  note defs = copy_overlap_def Let_def s1_def[symmetric] e1_def[symmetric]
  show ?thesis
  proof (cases "s1 < e1")
    case True
    then have lt: "max a (unat cdo) < min b (unat cdo + length buf)"
      using us ue by (simp only: word_less_nat_alt)
    have d1: "unat (s1 - src_start) = max a (unat cdo) - a"
      by (rule unat_diff[OF us s(1)]) simp
    have d2: "unat (s1 - cdo) = max a (unat cdo) - unat cdo"
      by (rule unat_diff[OF us refl]) simp
    have d3: "unat (e1 - s1) = min b (unat cdo + length buf) - max a (unat cdo)"
      by (rule unat_diff[OF ue us]) (use lt in simp)
    have "unat (e1 - src_start) = min b (unat cdo + length buf) - a"
      by (rule unat_diff[OF ue s(1)]) (use lt in simp)
    moreover have "s1 - src_start + (e1 - s1) = e1 - src_start" by simp
    ultimately have d4: "unat (s1 - src_start + (e1 - s1)) = min b (unat cdo + length buf) - a" by simp
    let ?data = "take (unat (e1 - s1)) (drop (unat (s1 - src_start)) (archive_slice A a b))"
    have ld: "length ?data = min b (unat cdo + length buf) - max a (unat cdo)"
      using lt A(3) by (simp add: d1 d3 length_slice)
    have nd: "?data ! i = A ! (max a (unat cdo) + i)" if "i < length ?data" for i
    proof -
      have "i < min b (unat cdo + length buf) - max a (unat cdo)" using that unfolding ld .
      then show ?thesis
        using nth_slice[OF A(3), of a "max a (unat cdo) - a + i"] lt A(3)
        by (simp add: d1 d3 length_slice)
    qed
    have fits: "unat (s1 - cdo) + length ?data \<le> length buf" unfolding ld d2 using lt by simp
    then obtain buf' where c: "copy_into (unat (s1 - cdo)) ?data buf = Some buf'"
      by (simp add: copy_into_def)
    have le: "min b (unat cdo + length buf) - a \<le> length (archive_slice A a b)"
      using A(3) by (simp add: length_slice diff_le_mono)
    have "copy_overlap cdo cd_end src_start src_end (archive_slice A a b) buf = Some buf'"
      unfolding defs if_P[OF True] d4 if_P[OF le] by (rule c)
    moreover have "buf' ! i = (if a \<le> unat cdo + i \<and> unat cdo + i < b then Some (A ! (unat cdo + i)) else buf ! i)"
      if i: "i < length buf" for i
    proof -
      have "unat (s1 - cdo) \<le> i \<and> i < unat (s1 - cdo) + length ?data \<longleftrightarrow> a \<le> unat cdo + i \<and> unat cdo + i < b"
        unfolding ld d2 using lt i by (auto simp: max_def min_def)
      moreover have "?data ! (i - unat (s1 - cdo)) = A ! (unat cdo + i)"
        if "unat (s1 - cdo) \<le> i" "i < unat (s1 - cdo) + length ?data"
      proof -
        have "i - unat (s1 - cdo) < length ?data" using that by arith
        moreover have "max a (unat cdo) + (i - unat (s1 - cdo)) = unat cdo + i" using that(1) d2 by simp
        ultimately show ?thesis using nd by metis
      qed
      ultimately show ?thesis using nth_copy_into[OF c i] by auto
    qed
    ultimately show ?thesis using length_copy_into[OF c] by blast
  next
    case False
    then have "\<not> max a (unat cdo) < min b (unat cdo + length buf)"
      using us ue by (simp only: word_less_nat_alt not_False_eq_True)
    then show ?thesis
      unfolding defs if_not_P[OF False] by (auto simp: max_def min_def split: if_splits)
  qed
qed

text \<open>All ranges of a tiling, one after the other.\<close>

definition range_holds :: "bytes \<Rightarrow> cd_part_range \<Rightarrow> bytes option \<Rightarrow> bool" where
  "range_holds A r b \<longleftrightarrow>
     unat (cr_end r + 1) \<le> length A \<and> unat (cr_start r) < unat (cr_end r + 1) \<and>
     b = Some (archive_slice A (unat (cr_start r)) (unat (cr_end r + 1)))"

abbreviation in_range :: "nat \<Rightarrow> cd_part_range \<Rightarrow> bool" where
  "in_range i r \<equiv> unat (cr_start r) \<le> i \<and> i < unat (cr_end r + 1)"

lemma copy_ranges_slices:
  assumes "list_all2 (range_holds A) rs bs" and "unat cdo + length buf \<le> length A" and "length A < 2 ^ 63"
    and "unat cd_end = unat cdo + length buf"
  shows "\<exists>buf'. copy_ranges cdo cd_end rs bs buf = Some buf' \<and> length buf' = length buf \<and>
           (\<forall>i < length buf. buf' ! i =
              (if \<exists>r \<in> set rs. in_range (unat cdo + i) r then Some (A ! (unat cdo + i)) else buf ! i))"
  using assms
proof (induction rs bs arbitrary: buf rule: list_all2_induct)
  case Nil
  then show ?case by simp
next
  case (Cons r rs b bs)
  let ?a = "unat (cr_start r)" and ?b = "unat (cr_end r + 1)"
  have b: "b = Some (archive_slice A ?a ?b)" "?b \<le> length A" "?a < ?b"
    using Cons(1) by (auto simp: range_holds_def)
  then have ne: "archive_slice A ?a ?b \<noteq> []" using length_slice[of ?b A ?a] by auto
  obtain buf1 where c: "copy_overlap cdo cd_end (cr_start r) (cr_end r + 1) (archive_slice A ?a ?b) buf = Some buf1"
    and l: "length buf1 = length buf"
    and n: "\<forall>i < length buf. buf1 ! i = (if in_range (unat cdo + i) r then Some (A ! (unat cdo + i)) else buf ! i)"
    using copy_overlap_slice[OF Cons(4,5) b(2) refl refl Cons(6)] by blast
  from Cons.IH[of buf1] Cons(4-6) l
  obtain buf' where "copy_ranges cdo cd_end rs bs buf1 = Some buf'" "length buf' = length buf1"
    "\<forall>i < length buf1. buf' ! i =
      (if \<exists>r \<in> set rs. in_range (unat cdo + i) r then Some (A ! (unat cdo + i)) else buf1 ! i)"
    by auto
  then show ?case using b(1) ne c l n by auto
qed

lemma first_body_head:
  "cr_has_body_data r \<Longrightarrow> cr_body_data_size r > 0 \<Longrightarrow> first_body (r # rs) (b # bs) = Some (b, r)"
  by simp

lemma first_body_none:
  "(\<And>r. r \<in> set rs \<Longrightarrow> \<not> cr_has_body_data r) \<Longrightarrow> first_body rs bs = None"
  by (induction rs bs rule: first_body.induct) auto

lemma assemble_copies:
  assumes "list_all2 (range_holds A) rs bs" and "unat cdo + unat cds \<le> length A" and "length A < 2 ^ 63"
    and "unat start \<le> length A"
    and "\<And>i. unat cdo \<le> i \<Longrightarrow> i < unat start \<Longrightarrow> \<exists>r \<in> set rs. in_range i r"
  shows "assemble_cd_buffer [] (drop (unat start) A) start rs bs cdo cds =
           Ok (map Some (archive_slice A (unat cdo) (unat cdo + unat cds)),
               case first_body rs bs of None \<Rightarrow> [] | Some br \<Rightarrow> [body_segment_of br])"
proof -
  let ?buf0 = "replicate (unat cds) None :: fresh"
  let ?cd_end = "cdo + cds"
  have ce: "unat ?cd_end = unat cdo + unat cds" using assms(2,3) by (simp add: unat_word_ariths)
  obtain buf1 where c: "copy_ranges cdo ?cd_end rs bs ?buf0 = Some buf1" and l: "length buf1 = unat cds"
    and n: "\<forall>i < unat cds. buf1 ! i =
      (if \<exists>r \<in> set rs. in_range (unat cdo + i) r then Some (A ! (unat cdo + i)) else ?buf0 ! i)"
    using copy_ranges_slices[OF assms(1), of cdo ?buf0 ?cd_end] assms(2,3) ce by (auto cong: if_cong)
  have end_word: "unat (start + of_nat (length (drop (unat start) A))) = length A"
    using assms(3,4) by (simp add: unat_word_ariths unat_of_nat)
  have sl: "drop (unat start) A = archive_slice A (unat start) (length A)" by (simp add: archive_slice_def)
  have "\<exists>buf2. (if drop (unat start) A \<noteq> [] \<and> start < ?cd_end
      then copy_overlap cdo ?cd_end start (start + of_nat (length (drop (unat start) A))) (drop (unat start) A) buf1
      else Some buf1) = Some buf2 \<and> length buf2 = unat cds \<and>
      (\<forall>i < unat cds. buf2 ! i = (if unat start \<le> unat cdo + i then Some (A ! (unat cdo + i)) else buf1 ! i))"
  proof (cases "drop (unat start) A \<noteq> [] \<and> start < ?cd_end")
    case True
    show ?thesis
      unfolding if_P[OF True] unfolding sl
      using copy_overlap_slice[of cdo buf1 A "length A" start "unat start"
          "start + of_nat (length (archive_slice A (unat start) (length A)))" ?cd_end]
        assms(2,3) l ce end_word unfolding sl by auto
  next
    case False
    then have "\<not> unat start \<le> unat cdo + i" if "i < unat cds" for i
      using that assms(2,4) ce by (auto simp: word_less_nat_alt)
    then show ?thesis unfolding if_not_P[OF False] using l by simp
  qed
  then obtain buf2 where b2: "(if drop (unat start) A \<noteq> [] \<and> start < ?cd_end
      then copy_overlap cdo ?cd_end start (start + of_nat (length (drop (unat start) A))) (drop (unat start) A) buf1
      else Some buf1) = Some buf2" and l2: "length buf2 = unat cds"
    and n2: "\<forall>i < unat cds. buf2 ! i = (if unat start \<le> unat cdo + i then Some (A ! (unat cdo + i)) else buf1 ! i)"
    by blast
  have "buf2 = map Some (archive_slice A (unat cdo) (unat cdo + unat cds))"
  proof (rule nth_equalityI)
    show "length buf2 = length (map Some (archive_slice A (unat cdo) (unat cdo + unat cds)))"
      using l2 assms(2) by (simp add: length_slice)
    fix i assume "i < length buf2"
    then have i: "i < unat cds" using l2 by simp
    have "buf2 ! i = Some (A ! (unat cdo + i))"
    proof (cases "unat start \<le> unat cdo + i")
      case True
      then show ?thesis using n2 i by simp
    next
      case False
      then have "\<exists>r \<in> set rs. in_range (unat cdo + i) r" using assms(5)[of "unat cdo + i"] by simp
      then show ?thesis using False n n2 i by auto
    qed
    then show "buf2 ! i = map Some (archive_slice A (unat cdo) (unat cdo + unat cds)) ! i"
      using i assms(2) by (simp add: length_slice nth_slice)
  qed
  then show ?thesis
    unfolding assemble_cd_buffer_def Let_def using c b2 by (auto split: option.splits)
qed

section \<open>The ranges and the assembled directory\<close>

text \<open>The ranges of an archive whose directory starts before the tail buffer.\<close>

definition fetched_ranges :: "u64 \<Rightarrow> u64 \<Rightarrow> u64 \<Rightarrow> cd_part_range list" where
  "fetched_ranges cdo part_len ibs =
     map (\<lambda>k. range_at cdo part_len ibs (of_nat (first_part cdo part_len + k * unat part_len)))
       [0..<num_ranges cdo part_len ibs]"

text \<open>The bytes a download of a range delivers.\<close>

definition downloaded :: "bytes \<Rightarrow> cd_part_range \<Rightarrow> bytes option" where
  "downloaded A r = Some (archive_slice A (unat (cr_start r)) (unat (cr_end r + 1)))"

lemma fetched_range_nth:
  assumes "cdo < ibs" and s: "0 < unat part_len" "unat ibs + unat part_len \<le> 2 ^ 64"
    and k: "k < num_ranges cdo part_len ibs"
  defines "r \<equiv> fetched_ranges cdo part_len ibs ! k"
    and "a \<equiv> first_part cdo part_len + k * unat part_len"
  shows "a < unat ibs" and "unat (cr_start r) = a"
    and "unat (cr_end r + 1) = min (a + unat part_len) (unat ibs)"
    and "cr_has_body_data r \<longleftrightarrow> a < unat cdo"
    and "unat (cr_body_data_size r) = min (unat cdo) (min (a + unat part_len) (unat ibs)) - a"
proof -
  have f: "first_part cdo part_len < unat ibs"
    using assms(1) first_part_le[of cdo part_len] by (simp add: word_less_nat_alt)
  show a: "a < unat ibs"
    using parts_before_bounds(2)[OF f s(1)] k unfolding a_def num_ranges_def by blast
  have r: "r = range_at cdo part_len ibs (of_nat a)"
    using k by (simp add: r_def fetched_ranges_def a_def)
  show "unat (cr_start r) = a" "unat (cr_end r + 1) = min (a + unat part_len) (unat ibs)"
    "cr_has_body_data r \<longleftrightarrow> a < unat cdo"
    "unat (cr_body_data_size r) = min (unat cdo) (min (a + unat part_len) (unat ibs)) - a"
    unfolding r by (rule range_at_nat[OF a s])+
qed

lemma first_part_bounds:
  assumes "0 < unat part_len"
  shows "first_part cdo part_len \<le> unat cdo" and "unat cdo < first_part cdo part_len + unat part_len"
proof -
  show "first_part cdo part_len \<le> unat cdo" by (rule first_part_le)
  have "unat cdo mod unat part_len < unat part_len" using assms by simp
  then show "unat cdo < first_part cdo part_len + unat part_len"
    unfolding first_part_def by (metis add_less_cancel_left div_mult_mod_eq)
qed

lemma length_fetched_ranges: "length (fetched_ranges cdo part_len ibs) = num_ranges cdo part_len ibs"
  by (simp add: fetched_ranges_def)

lemma num_ranges_bounds:
  assumes "cdo < ibs" and "0 < unat part_len"
  shows "0 < num_ranges cdo part_len ibs"
    and "unat ibs \<le> first_part cdo part_len + num_ranges cdo part_len ibs * unat part_len"
proof -
  have f: "first_part cdo part_len < unat ibs"
    using assms(1) first_part_le[of cdo part_len] by (simp add: word_less_nat_alt)
  show "0 < num_ranges cdo part_len ibs"
    using parts_before_step[OF f assms(2)] by (simp add: num_ranges_def)
  show "unat ibs \<le> first_part cdo part_len + num_ranges cdo part_len ibs * unat part_len"
    unfolding num_ranges_def by (rule parts_before_bounds(1)[OF f assms(2)])
qed

lemma fetched_ranges_cover:
  assumes "cdo < ibs" and s: "0 < unat part_len" "unat ibs + unat part_len \<le> 2 ^ 64"
    and i: "first_part cdo part_len \<le> i" "i < unat ibs"
  shows "\<exists>r \<in> set (fetched_ranges cdo part_len ibs). in_range i r"
proof -
  let ?f = "first_part cdo part_len" and ?k = "(i - first_part cdo part_len) div unat part_len"
  have le: "?k * unat part_len \<le> i - ?f" by (rule div_times_less_eq_dividend)
  have up: "i - ?f < ?k * unat part_len + unat part_len"
    using s(1) by (metis add_less_cancel_left div_mult_mod_eq mod_less_divisor)
  have "?k < num_ranges cdo part_len ibs"
  proof (rule ccontr)
    assume "\<not> ?k < num_ranges cdo part_len ibs"
    then have "num_ranges cdo part_len ibs * unat part_len \<le> ?k * unat part_len"
      by (intro mult_le_mono1) simp
    then show False using num_ranges_bounds(2)[OF assms(1) s(1)] le i by linarith
  qed
  moreover from this have "in_range i (fetched_ranges cdo part_len ibs ! ?k)"
    using fetched_range_nth(2,3)[OF assms(1) s, of ?k] le up i by linarith
  ultimately show ?thesis using length_fetched_ranges nth_mem by metis
qed

lemma downloaded_ranges_hold:
  assumes "cdo < ibs" and s: "0 < unat part_len" "unat ibs + unat part_len \<le> 2 ^ 64"
    and "unat ibs \<le> length A"
  shows "list_all2 (range_holds A) (fetched_ranges cdo part_len ibs)
           (map (downloaded A) (fetched_ranges cdo part_len ibs))"
proof (rule list_all2_all_nthI)
  fix k assume "k < length (fetched_ranges cdo part_len ibs)"
  then have k: "k < num_ranges cdo part_len ibs" by (simp add: length_fetched_ranges)
  show "range_holds A (fetched_ranges cdo part_len ibs ! k)
          (map (downloaded A) (fetched_ranges cdo part_len ibs) ! k)"
    using fetched_range_nth[OF assms(1) s k] s(1) assms(4) k
    by (simp add: range_holds_def downloaded_def length_fetched_ranges)
qed simp

lemma fetched_ranges_body:
  assumes "cdo < ibs" and s: "0 < unat part_len" "unat ibs + unat part_len \<le> 2 ^ 64"
    and "unat ibs \<le> length A"
  shows "(case first_body (fetched_ranges cdo part_len ibs)
                 (map (downloaded A) (fetched_ranges cdo part_len ibs)) of
            None \<Rightarrow> [] | Some br \<Rightarrow> [body_segment_of br]) =
         (if first_part cdo part_len = unat cdo then []
          else [Some \<lparr>bs_data = archive_slice A (first_part cdo part_len) (unat cdo),
                      bs_archive_offset = of_nat (first_part cdo part_len)\<rparr>])"
proof -
  let ?rs = "fetched_ranges cdo part_len ibs" and ?f = "first_part cdo part_len"
  note n0 = num_ranges_bounds(1)[OF assms(1) s(1)]
  note fb = first_part_bounds[OF s(1), of cdo]
  have ci: "unat cdo < unat ibs" using assms(1) by (simp add: word_less_nat_alt)
  show ?thesis
  proof (cases "?f = unat cdo")
    case True
    have "\<not> cr_has_body_data r" if r: "r \<in> set ?rs" for r
    proof -
      obtain k where "k < num_ranges cdo part_len ibs" "r = ?rs ! k"
        using r by (metis in_set_conv_nth length_fetched_ranges)
      then show ?thesis using fetched_range_nth(4)[OF assms(1) s] True by simp
    qed
    then show ?thesis using True first_body_none[of ?rs] by simp
  next
    case False
    obtain r rs where rs: "?rs = r # rs"
      using n0 length_fetched_ranges[of cdo part_len ibs] by (cases ?rs) auto
    then have r: "?rs ! 0 = r" by simp
    note nr = fetched_range_nth[OF assms(1) s n0, unfolded r]
    have body: "cr_has_body_data r" using nr(4) fb(1) False by simp
    have bsz: "unat (cr_body_data_size r) = unat cdo - ?f" using nr(5) fb ci by simp
    then have pos: "cr_body_data_size r > 0"
      using fb(1) False by (simp add: word_less_nat_alt)
    have start: "cr_start r = of_nat ?f"
      using nr(2) by (metis mult_0 add_0_right of_nat_unat ucast_id)
    let ?e = "min (?f + unat part_len) (unat ibs)"
    have d: "downloaded A r = Some (archive_slice A ?f ?e)"
      using nr(2,3) by (simp add: downloaded_def)
    have "body_segment_of (downloaded A r, r) =
        Some \<lparr>bs_data = archive_slice A ?f (unat cdo), bs_archive_offset = of_nat ?f\<rparr>"
    proof -
      have le: "unat cdo - ?f \<le> ?e - ?f" using fb ci by simp
      have "length (archive_slice A ?f ?e) = ?e - ?f" using assms(4) by (intro length_slice) simp
      then show ?thesis
        using le start unfolding body_segment_of_def d by (simp add: bsz archive_slice_def)
    qed
    then show ?thesis using False body pos rs by simp
  qed
qed


section \<open>Properties\<close>

text \<open>The ranges to fetch are aligned parts that follow one another without a gap or an
  overlap from the part holding the start of the directory up to the tail buffer, and only the first
  of them has body data: the bytes between its start and the directory.\<close>

lemma fetch_ranges_tile:
  assumes "cdo < ibs" and "0 < unat part_len" and "unat ibs + unat part_len \<le> 2 ^ 64"
  shows "\<exists>rs. calculate_cd_fetch_ranges True cdo part_len ibs = Some (Ok rs) \<and> rs \<noteq> [] \<and>
     unat (cr_start (hd rs)) \<le> unat cdo \<and> unat cdo < unat (cr_end (hd rs) + 1) \<and>
     unat (cr_body_data_size (hd rs)) = unat cdo - unat (cr_start (hd rs)) \<and>
     cr_end (last rs) + 1 = ibs \<and>
     (\<forall>k < length rs. unat (cr_start (rs ! k)) mod unat part_len = 0 \<and>
        unat (cr_start (rs ! k)) < unat (cr_end (rs ! k) + 1) \<and>
        unat (cr_end (rs ! k) + 1) \<le> unat (cr_start (rs ! k)) + unat part_len \<and>
        (Suc k < length rs \<longrightarrow> cr_start (rs ! Suc k) = cr_end (rs ! k) + 1) \<and>
        (cr_has_body_data (rs ! k) \<longrightarrow> k = 0))"
proof -
  define rs where "rs = fetched_ranges cdo part_len ibs"
  let ?f = "first_part cdo part_len" and ?n = "num_ranges cdo part_len ibs" and ?l = "unat part_len"
  note n0 = num_ranges_bounds[OF assms(1,2)]
  note nr = fetched_range_nth[OF assms, folded rs_def]
  note fb = first_part_bounds[OF assms(2), of cdo]
  have len: "length rs = ?n" by (simp add: rs_def length_fetched_ranges)
  then have ne: "rs \<noteq> []" using n0(1) by auto
  have ci: "unat cdo < unat ibs" using assms(1) by (simp add: word_less_nat_alt)
  have "calculate_cd_fetch_ranges True cdo part_len ibs = Some (Ok rs)"
    using calculate_cd_fetch_ranges_eq[OF assms] by (simp add: rs_def fetched_ranges_def)
  moreover have "unat (cr_start (hd rs)) \<le> unat cdo \<and> unat cdo < unat (cr_end (hd rs) + 1) \<and>
     unat (cr_body_data_size (hd rs)) = unat cdo - unat (cr_start (hd rs))"
    using nr[OF n0(1)] fb ci by (simp add: hd_conv_nth[OF ne])
  moreover have "cr_end (last rs) + 1 = ibs"
  proof -
    have "?f + (?n - 1) * ?l + ?l = ?f + ?n * ?l" using n0(1) by (cases ?n) auto
    then have "unat (cr_end (last rs) + 1) = unat ibs"
      using nr(3)[of "?n - 1"] n0 len by (simp add: last_conv_nth[OF ne])
    then show ?thesis by (rule word_unat_eq_iff[THEN iffD2])
  qed
  moreover have "unat (cr_start (rs ! k)) mod ?l = 0" if "k < length rs" for k
    using nr(2)[of k] that len by (simp add: first_part_def)
  moreover have "unat (cr_start (rs ! k)) < unat (cr_end (rs ! k) + 1) \<and>
      unat (cr_end (rs ! k) + 1) \<le> unat (cr_start (rs ! k)) + ?l" if "k < length rs" for k
    using nr(1-3)[of k] that len assms(2) by simp
  moreover have "cr_start (rs ! Suc k) = cr_end (rs ! k) + 1" if "Suc k < length rs" for k
  proof -
    have "unat (cr_start (rs ! Suc k)) = unat (cr_end (rs ! k) + 1)"
      using nr(1,2)[of "Suc k"] nr(3)[of k] that len by simp
    then show ?thesis by (rule word_unat_eq_iff[THEN iffD2])
  qed
  moreover have "k = 0" if "k < length rs" "cr_has_body_data (rs ! k)" for k
    using nr(4)[of k] that len fb(2) by (cases k) auto
  ultimately show ?thesis using ne by blast
qed

theorem fetch_ranges_tile_witness:
  "\<exists>rs. calculate_cd_fetch_ranges True 21 8 35 = Some (Ok rs) \<and> rs \<noteq> [] \<and>
     unat (cr_start (hd rs)) \<le> unat (21 :: u64) \<and> cr_end (last rs) + 1 = 35"
proof -
  have "(21 :: u64) < 35" "0 < unat (8 :: u64)" "unat (35 :: u64) + unat (8 :: u64) \<le> 2 ^ 64" by simp_all
  from fetch_ranges_tile[OF this] show ?thesis by blast
qed

text \<open>C26: when every fetched range and the tail buffer hold the bytes of the archive, assembling
  them gives exactly the central directory, with no byte left unset, and one body segment: the bytes
  between the first fetched part and the directory (none when the directory starts on a part
  boundary).\<close>

theorem fetched_directory_assembled:
  assumes "cdo < start" and "0 < unat part_len" and "unat start + unat part_len \<le> 2 ^ 64"
    and "unat start \<le> length A" and "unat cdo + unat cds \<le> length A" and "length A < 2 ^ 63"
  shows "\<exists>rs. calculate_cd_fetch_ranges True cdo part_len start = Some (Ok rs) \<and>
     assemble_cd_buffer [] (drop (unat start) A) start rs (map (downloaded A) rs) cdo cds =
       Ok (map Some (archive_slice A (unat cdo) (unat cdo + unat cds)),
           if first_part cdo part_len = unat cdo then []
           else [Some \<lparr>bs_data = archive_slice A (first_part cdo part_len) (unat cdo),
                       bs_archive_offset = of_nat (first_part cdo part_len)\<rparr>])"
proof -
  let ?rs = "fetched_ranges cdo part_len start"
  have "\<exists>r \<in> set ?rs. in_range i r" if "unat cdo \<le> i" "i < unat start" for i
    using fetched_ranges_cover[OF assms(1-3), of i] that first_part_le[of cdo part_len] by simp
  from assemble_copies[OF downloaded_ranges_hold[OF assms(1-4)] assms(5,6,4) this]
  show ?thesis
    using calculate_cd_fetch_ranges_eq[OF assms(1-3)] fetched_ranges_body[OF assms(1-4)]
    by (simp add: fetched_ranges_def)
qed

theorem fetched_directory_assembled_witness:
  "\<exists>rs. calculate_cd_fetch_ranges True 3 2 7 = Some (Ok rs) \<and>
     assemble_cd_buffer [] (drop (unat (7 :: u64)) [10, 11, 12, 13, 14, 15, 16, 17, 18]) 7 rs
       (map (downloaded [10, 11, 12, 13, 14, 15, 16, 17, 18]) rs) 3 5 =
       Ok (map Some [13, 14, 15, 16, 17], [Some \<lparr>bs_data = [12], bs_archive_offset = 2\<rparr>])"
  using fetched_directory_assembled[of 3 7 2 "[10, 11, 12, 13, 14, 15, 16, 17, 18]" 5]
  by (simp add: archive_slice_def first_part_def)

text \<open>\<open>calculate_parts_to_download\<close> is called by its unit test only; the downloader chooses its parts by the
  bitmap \<open>part_has_full_body_data\<close> of the part requests. Of the count and the flag it returns: together they are
  the number of parts, and the flag says that the last part starts at the directory or after it.\<close>

lemma parts_to_download_counted:
  assumes "unat num_parts * unat part_len < 2 ^ 64"
    and "calculate_parts_to_download num_parts part_len cd_start = (d, from_buffer)"
  shows "unat d + (if from_buffer then 1 else 0) = unat num_parts \<and>
    (from_buffer \<longleftrightarrow> 0 < unat num_parts \<and> unat cd_start \<le> (unat num_parts - 1) * unat part_len) \<and>
    (\<forall>i < unat num_parts. i < unat d \<longleftrightarrow> \<not> (from_buffer \<and> i = unat num_parts - 1))"
proof -
  note calc = assms(2)[unfolded calculate_parts_to_download_def Let_def]
  have m: "unat (num_parts - 1) = unat num_parts - 1" "0 < unat num_parts" if "num_parts \<noteq> 0"
    using that by (simp_all add: unat_minus_one unat_gt_0)
  have "unat ((num_parts - 1) * part_len) = (unat num_parts - 1) * unat part_len" if "num_parts \<noteq> 0"
  proof -
    have "(unat num_parts - 1) * unat part_len < 2 ^ 64"
      using assms(1) by (meson diff_le_self le_less_trans mult_le_mono1)
    then show ?thesis using m[OF that] by (simp add: unat_word_ariths(2))
  qed
  then have f: "from_buffer \<longleftrightarrow> 0 < unat num_parts \<and> unat cd_start \<le> (unat num_parts - 1) * unat part_len"
    using calc m by (auto simp: word_le_nat_alt split: if_splits)
  have d: "unat d + (if from_buffer then 1 else 0) = unat num_parts"
    using calc m by (auto split: if_splits)
  then have "\<forall>i < unat num_parts. i < unat d \<longleftrightarrow> \<not> (from_buffer \<and> i = unat num_parts - 1)"
    by (auto split: if_splits)
  with d f show ?thesis by blast
qed

end
