(* ===== verification/Record_Pieces.thy ===== *)
theory Record_Pieces
  imports Fragment_Extraction Cd_Fetch
begin

text \<open>
  The records of the writer, cut at part boundaries: the part in which a record begins, the parts
  inside it and the part in which it ends each leave their piece of the file (\<open>piece_step\<close>).
\<close>

section \<open>Ranges of the archive\<close>

lemma slice_inside:
  assumes "a \<le> x" and "y \<le> b"
  shows "archive_slice S x y = take (y - x) (drop (x - a) (archive_slice S a b))"
  using assms by (cases "x \<le> y") (auto simp: archive_slice_def drop_take min_def)

lemma slice_middle:
  assumes "archive_slice S a b = A @ B @ C" and "x = a + length A" and "y = x + length B" and "y \<le> b"
  shows "archive_slice S x y = B"
  using slice_inside[of a x y b S] assms by simp

lemma slice_append:
  assumes "a \<le> b" and "b \<le> c"
  shows "archive_slice S a c = archive_slice S a b @ archive_slice S b c"
proof -
  have "take (c - a) (drop a S) = take (b - a) (drop a S) @ take (c - b) (drop (b - a) (drop a S))"
    using assms by (metis Nat.add_diff_assoc2 le_add_diff_inverse take_add)
  then show ?thesis using assms by (simp add: archive_slice_def)
qed

lemma slice_empty [simp]: "b \<le> a \<Longrightarrow> archive_slice S a b = []"
  by (simp add: archive_slice_def)

section \<open>Records in the archive\<close>

text \<open>The record of a file with the bytes \<open>c\<close> lies at \<open>[h, t)\<close>; its items begin at \<open>q\<close>, and at every boundary
  inside the record begins a Start-of-Part frame.\<close>

definition file_at_range ::
  "zstd_reader \<Rightarrow> bytes \<Rightarrow> nat \<Rightarrow> nat \<Rightarrow> nat \<Rightarrow> item list \<Rightarrow> bytes \<Rightarrow> bool \<Rightarrow> bool" where
  "file_at_range zr S h q t all c z \<longleftrightarrow>
     (\<exists>lfh tail crc cs us. header_complete lfh tail \<and> \<not> padding_named lfh tail \<and> q = h + (30 + length tail) \<and>
        archive_slice S h t = (local_header_bytes lfh @ tail) @ items_bytes all @ data_descriptor crc cs us z) \<and>
     t = q + length (items_bytes all) + (if z then 24 else 16) \<and>
     list_all (item_readable zr) all \<and> sops_ok 0 all \<and> sops_aligned q all \<and> payload all = c \<and>
     (\<forall>b. b mod PART = 0 \<longrightarrow> h < b \<longrightarrow> b \<le> t \<longrightarrow> q < b \<and> splits q all b)"

lemma file_at_rangeE:
  assumes "file_at_range zr S h q t all c z"
  shows "\<exists>lfh tail crc cs us. header_complete lfh tail \<and> \<not> padding_named lfh tail \<and> q = h + (30 + length tail) \<and>
        archive_slice S h t = (local_header_bytes lfh @ tail) @ items_bytes all @ data_descriptor crc cs us z"
    and "t = q + length (items_bytes all) + (if z then 24 else 16)"
    and "list_all (item_readable zr) all" and "sops_ok 0 all" and "sops_aligned q all" and "payload all = c"
    and "b mod PART = 0 \<Longrightarrow> h < b \<Longrightarrow> b \<le> t \<Longrightarrow> q < b \<and> splits q all b"
  using assms unfolding file_at_range_def by (blast, simp_all)

lemma boundary_after:
  assumes "b mod PART = 0" and "h < b"
  shows "h + room h \<le> b"
  using assms mod_add_room[of "b - h" h] by (metis le_add_diff_inverse less_imp_le_nat not_le
      nat_add_left_cancel_le zero_less_diff)

lemma wrote_file_range:
  assumes wr: "wrote_file env fopen it w w' e" and env: "frames_fit env" "frames_readable env (compression_level w) zr"
    and c: "item_content fopen it = c" "has_data it" and name: "it_name it \<noteq> []" and S: "S = stream w' @ zs" "length (stream w') < 2 ^ 62"
  shows "\<exists>q all need. file_at_range zr S (unat (fe_local_header_offset e)) q (length (stream w')) all c
      (fm_uses_zip64_descriptor (metadata_of part_len e)) \<and>
    archive_slice S (length (stream w)) (unat (fe_local_header_offset e)) =
      entry_padding (env_time env) (length (stream w)) need \<and>
    length (stream w) + length (entry_padding (env_time env) (length (stream w)) need) = unat (fe_local_header_offset e) \<and>
    unat (fe_local_header_offset e) + 46 + unat (fe_compressed_size e) \<le> length (stream w') \<and>
    entry_start (stream w) \<and> need \<le> 65536"
proof -
  obtain inp w1 lfh tail its where o: "fopen (it_path it) = Some inp"
    and w1: "archive_inv w1" "stream w1 = stream w" "compression_level w1 = compression_level w"
    and h: "header_ok lfh tail 0 True" "header_complete lfh tail" "\<not> padding_named lfh tail"
    and tl: "length tail = length (it_name it) + 15"
    and its: "items_of env w1 lfh tail (content_of inp) = Some its"
    and s: "stream w' = stream w @ file_record env w1 lfh tail (content_of inp) its"
    and en: "e = file_record_entry env w1 lfh tail (st_mode (it_stat it)) (st_uid (it_stat it)) (st_gid (it_stat it))
              (content_of inp) its"
    using wr by (auto simp: wrote_file_def)
  have d: "content_of inp = c" using c o by (simp add: item_content_def)
  note its = its[unfolded d] and s = s[unfolded d] and en = en[unfolded d]
  let ?s = "stream w @ lead_in env w1 lfh tail"
  let ?need = "entry_need (30 + length tail) 0 True"
  let ?pad = "entry_padding (env_time env) (length (stream w)) ?need"
  let ?all = "all_items (length ?s) c its" and ?q = "length ?s"
  let ?z = "wide (of_nat (length (items_bytes its))) (of_nat (length c))"
  let ?h = "length (stream w) + length ?pad" and ?t = "length (stream w')"
  have lead: "lead_in env w1 lfh tail = ?pad @ local_header_bytes lfh @ tail" by (simp add: w1(2))
  have rec: "stream w' = stream w @ ?pad @ (local_header_bytes lfh @ tail) @ items_bytes ?all @ descriptor_of env c its"
    unfolding s file_record_def file_body_def file_tail_def lead by (simp add: w1(2) add.assoc)
  have t: "?t = ?q + length (items_bytes ?all) + (if ?z then 24 else 16)"
    using arg_cong[OF rec, of length] unfolding lead by simp
  have off: "unat (fe_local_header_offset e) = ?h"
    using S(2) t unfolding lead by (simp add: en entry_fields w1(2) unat_of_nat del: of_nat_add)
  have mid: "mid_file ?s" using lead_in_mid[OF w1(1) h(1)] by (simp add: w1(2))
  have bi: "body_items (frame_of env (compression_level w1)) ?q 0 (chunks c) = Some its"
    using its by (simp add: file_items_def w1(2))
  have mid2: "mid_file (?s @ items_bytes its)" using body_items_mid[OF mid bi frames_fitD[OF env(1)]] .
  have al: "sops_aligned ?q ?all"
    using body_items_aligned[OF mid bi frames_fitD[OF env(1)]] mid2[unfolded mid_file_def length_append]
    by (simp add: trailer_items_aligned del: length_append) (simp add: trailer_items_aligned)
  have rd: "list_all (item_readable zr) ?all"
    using file_items_readable[OF its] env(2) trailer_items_readable w1(3) by simp
  have es: "entry_start (stream w)" using w1(1,2) by (simp add: archive_inv_def)
  have room: "?need \<le> room ?h"
    using entry_padding_room[OF es, of ?need "env_time env"] h(1) by (simp add: header_ok_def)
  have sp: "?q < b \<and> splits ?q ?all b" if b: "b mod PART = 0" "?h < b" "b \<le> ?t" for b
  proof
    show lt: "?q < b" using boundary_after[OF b(1,2)] room unfolding lead by (simp add: entry_need_def)
    show "splits ?q ?all b"
      using record_splits[OF env(1) w1(1) h(1) its b(1)] lt b(3) s by (simp add: w1(2))
  qed
  have sl: "archive_slice S ?h ?t = (local_header_bytes lfh @ tail) @ items_bytes ?all @ descriptor_of env c its"
    unfolding S(1) archive_slice_def by (subst rec) (simp add: t lead)
  have csz: "unat (fe_compressed_size e) = length (items_bytes its)"
    using S(2) t by (simp add: en entry_fields unat_of_nat)
  have z: "fm_uses_zip64_descriptor (metadata_of part_len e) = ?z"
    by (simp add: metadata_of_def en entry_fields)
  have "payload ?all = c" "sops_ok 0 ?all"
    using body_items_payload[OF bi] body_items_sops[OF bi] by simp_all
  moreover have "?q = ?h + (30 + length tail)" unfolding lead by simp
  ultimately have "file_at_range zr S ?h ?q ?t ?all c ?z"
    unfolding file_at_range_def using h(2,3) sl t rd al sp by blast
  moreover have "archive_slice S (length (stream w)) ?h = ?pad"
    unfolding S(1) archive_slice_def by (subst rec) simp
  moreover have "?h + 46 + length (items_bytes its) \<le> ?t"
  proof -
    have "16 \<le> length tail" using tl name by (cases "it_name it") simp_all
    then show ?thesis using t unfolding lead by simp
  qed
  moreover have "?need \<le> 65536" using h(1) by (simp add: header_ok_def)
  ultimately show ?thesis unfolding off csz z using es by blast
qed

section \<open>The pieces of a file\<close>

text \<open>The node after a piece: for a file with data the bytes from \<open>lo\<close> to \<open>hi\<close> over what was there, in the final
  size; other items are there as a whole.\<close>

definition shows_piece :: "bool \<Rightarrow> list_item \<Rightarrow> bytes \<Rightarrow> bytes \<Rightarrow> nat \<Rightarrow> nat \<Rightarrow> node \<Rightarrow> bool" where
  "shows_piece super it c old lo hi n \<longleftrightarrow>
     (if has_data it
      then \<exists>a. n = Regular (resize (length c) (overwrite old lo (take (hi - lo) (drop lo c)))) a \<and>
             has_mode it a \<and> owned_by super it a
      else shows_item super it c n)"

definition piece_step ::
  "(bytes \<Rightarrow> in_file option) \<Rightarrow> bytes \<Rightarrow> os_state \<Rightarrow> list_item \<Rightarrow> nat \<Rightarrow> nat \<Rightarrow> os_state \<Rightarrow> bool" where
  "piece_step fopen dir os it lo hi os' \<longleftrightarrow>
     (\<exists>n. holds_node os (item_file dir it) n os' \<and>
        shows_piece (os_euid os = 0) it (item_content fopen it) (fst (file_at os (item_path dir it))) lo hi n)"

lemma slice_parts:
  assumes "archive_slice S h t = H @ items_bytes (xs @ Sop k # ys) @ dd"
    and "q = h + length H" and "q + length (items_bytes xs) = b" and "b \<le> t"
  shows "archive_slice S h b = H @ items_bytes xs"
    and "b + 24 + length (items_bytes ys) + length dd = t \<Longrightarrow>
      archive_slice S b t = sop_frame (of_nat k) @ items_bytes ys @ dd"
proof -
  show "archive_slice S h b = H @ items_bytes xs"
    using slice_middle[of S h t "[]" "H @ items_bytes xs" "items_bytes (Sop k # ys) @ dd" h b] assms by simp
  show "archive_slice S b t = sop_frame (of_nat k) @ items_bytes ys @ dd"
    if e: "b + 24 + length (items_bytes ys) + length dd = t"
  proof (rule slice_middle)
    show "archive_slice S h t = (H @ items_bytes xs) @ (sop_frame (of_nat k) @ items_bytes ys @ dd) @ []"
      using assms(1) by simp
    show "b = h + length (H @ items_bytes xs)" using assms(2,3) by simp
    show "t = b + length (sop_frame (of_nat k) @ items_bytes ys @ dd)" using e by simp
  qed simp
qed

lemma sent_at_split:
  assumes "list_all (item_readable zr) all" and "all = xs @ Sop k # ys" and "sops_ok 0 all"
    and "q + length (items_bytes xs) = b"
  shows "sent b q all = length (payload xs)" and "k = length (payload xs)"
    and "take (sent b q all) (payload all) = payload xs"
proof -
  have "solid xs" using readable_solid[OF assms(1)] assms(2) by (auto simp: solid_def)
  then show s: "sent b q all = length (payload xs)" using sent_prefix[of xs q] assms(2,4) by auto
  show "k = length (payload xs)" using assms(2,3) by simp
  show "take (sent b q all) (payload all) = payload xs" using s assms(2) by simp
qed

text \<open>The part in which the record begins, and the whole record when it ends there.\<close>

lemma opening_part:
  assumes r: "file_at_range zr S h q t all c (fm_uses_zip64_descriptor (metadata_of part_len e))" and t: "t < 2 ^ 62"
    and b: "b mod PART = 0" "h < b"
    and it: "has_data it" "restorable fopen it" "entry_of it c e" "c = item_content fopen it"
    and st: "ps_state st = STATE_EXPECT_LOCAL_HEADER" "ps_current_file st = None" "expects part_len st (e # es)"
    and os: "idle (ps_os st)" "item_creatable (ps_os st) (ps_output_dir st) it"
    and pos: "ps_part_start_offset st + ps_bytes_processed st = of_nat h"
  shows "\<exists>os'. leaves zr pre (archive_slice S h (min t b)) rest st 1 os' \<and>
    piece_step fopen (ps_output_dir st) (ps_os st) it 0 (sent b q all) os'"
proof -
  let ?m = "metadata_of part_len e" and ?name = "item_file (ps_output_dir st) it"
  let ?z = "fm_uses_zip64_descriptor ?m"
  obtain lfh tail crc cs us where hd: "header_complete lfh tail" "\<not> padding_named lfh tail" "q = h + (30 + length tail)"
    and sl: "archive_slice S h t = (local_header_bytes lfh @ tail) @ items_bytes all @ data_descriptor crc cs us ?z"
    using file_at_rangeE(1)[OF r] by blast
  note fr = file_at_rangeE(2-7)[OF r]
  note tq = fr(1) and rd = fr(2) and so = fr(3) and al = fr(4) and pay = fr(5)
  have sp: "b \<le> t \<Longrightarrow> splits q all b" using fr(6)[OF b] by simp
  note m = metadata_item[OF it(3), where part_len = part_len]
  have plain: "\<not> it_is_directory it" "\<not> is_link it" using it(1) by (simp_all add: has_data_def is_link_def)
  have n: "length c < 2 ^ 63" using it(2,4) by (simp add: restorable_def)
  have slashed: "\<not> (fm_filename ?m \<noteq> [] \<and> last (fm_filename ?m) = slash)"
    using m(1) it(2) plain(1) by (simp add: restorable_def)
  have os1: "quiet (ps_os st)" "0 \<le> os_next_fd (ps_os st)" "os_fds (ps_os st) (os_next_fd (ps_os st)) = None"
    using os(1) by (simp_all add: idle_def)
  have cr: "creatable (ps_os st) ?name" using os(2) plain by (simp add: item_creatable_def)
  note i = expects_Cons(1,2)[OF st(3)]
  obtain its where its: "list_all (item_readable zr) its" "sops_ok 0 its" "sops_aligned q its"
      "q + length (items_bytes its) \<le> t" "payload its = take (sent b q all) c"
    and d: "archive_slice S h (min t b) = (local_header_bytes lfh @ tail) @ items_bytes its \<or>
      archive_slice S h (min t b) = (local_header_bytes lfh @ tail) @ items_bytes its @ data_descriptor crc cs us ?z"
  proof (cases "b \<le> t")
    case True
    then obtain xs k ys where xs: "all = xs @ Sop k # ys" "q + length (items_bytes xs) = b"
      using sp by (auto simp: splits_def)
    have "archive_slice S h b = (local_header_bytes lfh @ tail) @ items_bytes xs"
      using slice_parts(1)[OF sl[unfolded xs(1)] _ xs(2) True] hd(3) by simp
    then show ?thesis
      using that[of xs] rd so al xs True sent_at_split(3)[OF rd xs(1) so xs(2)] pay by auto
  next
    case False
    then have "sent b q all = length c"
      using sent_after[OF readable_solid[OF rd], of q b] tq pay by simp
    then show ?thesis using that[of all] rd so al tq False sl pay by simp
  qed
  have "q + length (items_bytes its) < 2 ^ 64" "length (payload its) \<le> length c" using its(4,5) t by simp_all
  from opening_piece[OF hd(1,2) st(1,2) i(1,2) _ slashed _ n os1 _ cr its(1,2) _ this(2) pos _ d, of pre rest]
    m(1-3) plain(2) its(3) hd(3) this(1)
  obtain os' where os': "leaves zr pre (archive_slice S h (min t b)) rest st 1 os'"
    and hn: "holds_node (ps_os st) ?name (Regular (resize (length c)
        (overwrite (fst (file_at (ps_os st) (resolve ?name))) 0 (take (sent b q all) c)))
      (restored (context_of ?name ?m) (os_euid (ps_os st) = 0) (snd (file_at (ps_os st) (resolve ?name))))) os'"
    unfolding its(5) by auto
  have "piece_step fopen (ps_output_dir st) (ps_os st) it 0 (sent b q all) os'"
    unfolding piece_step_def shows_piece_def using hn it(1,4) m(4,5) by (auto intro!: exI[of _ "Regular x y" for x y])
  with os' show ?thesis by blast
qed

text \<open>A later part of the record.\<close>

lemma resuming_part:
  assumes r: "file_at_range zr S h q t all c (fm_uses_zip64_descriptor (metadata_of part_len e))" and t: "t < 2 ^ 62"
    and a: "a mod PART = 0" "h < a" "a < t" and b: "b mod PART = 0" "a < b"
    and it: "has_data it" "restorable fopen it" "entry_of it c e" "c = item_content fopen it"
    and st: "ps_state st = STATE_INIT" "ps_current_file st = None" "pf_continuing_file (this_part st) = Some i"
      "cp_files (ps_cd_result st) ! i = metadata_of part_len e"
    and os: "idle (ps_os st)" "item_creatable (ps_os st) (ps_output_dir st) it"
    and pos: "ps_part_start_offset st + ps_bytes_processed st = of_nat a"
  shows "\<exists>os'. leaves zr pre (archive_slice S a (min t b)) rest st 0 os' \<and>
    piece_step fopen (ps_output_dir st) (ps_os st) it (sent a q all) (sent b q all) os'"
proof -
  let ?m = "metadata_of part_len e" and ?name = "item_file (ps_output_dir st) it"
  let ?z = "fm_uses_zip64_descriptor ?m" and ?k = "sent a q all"
  obtain lfh tail crc cs us where hd: "q = h + (30 + length tail)"
    and sl: "archive_slice S h t = (local_header_bytes lfh @ tail) @ items_bytes all @ data_descriptor crc cs us ?z"
    using file_at_rangeE(1)[OF r] by blast
  note fr = file_at_rangeE(2-7)[OF r]
  note tq = fr(1) and rd = fr(2) and so = fr(3) and al = fr(4) and pay = fr(5)
  obtain xs k ys where xs: "all = xs @ Sop k # ys" "q + length (items_bytes xs) = a"
    using fr(6)[OF a(1,2)] a(3) by (auto simp: splits_def)
  note sa = sent_at_split[OF rd xs(1) so xs(2)]
  have k: "k = ?k" using sa(1,2) by simp
  have at: "a + 24 + length (items_bytes ys) + (if ?z then 24 else 16) = t" using tq xs by simp
  have sla: "archive_slice S a t = sop_frame (of_nat k) @ items_bytes ys @ data_descriptor crc cs us ?z"
    using slice_parts(2)[OF sl[unfolded xs(1)] _ xs(2)] a(3) hd at by simp
  note m = metadata_item[OF it(3), where part_len = part_len]
  have plain: "\<not> it_is_directory it" "\<not> is_link it" using it(1) by (simp_all add: has_data_def is_link_def)
  have n: "length c < 2 ^ 63" using it(2,4) by (simp add: restorable_def)
  have slashed: "\<not> (fm_filename ?m \<noteq> [] \<and> last (fm_filename ?m) = slash)"
    using m(1) it(2) plain(1) by (simp add: restorable_def)
  have os1: "quiet (ps_os st)" "0 \<le> os_next_fd (ps_os st)" "os_fds (ps_os st) (os_next_fd (ps_os st)) = None"
    using os(1) by (simp_all add: idle_def)
  have cr: "creatable (ps_os st) ?name" using os(2) plain by (simp add: item_creatable_def)
  have c: "c = payload xs @ payload ys" using pay xs(1) by simp
  obtain its where its: "list_all (item_readable zr) its" "sops_ok k its" "sops_aligned (a + 24) its"
      "a + 24 + length (items_bytes its) \<le> t" "payload its = take (sent b q all - ?k) (drop ?k c)"
    and d: "archive_slice S a (min t b) = sop_frame (of_nat k) @ items_bytes its \<or>
      archive_slice S a (min t b) = sop_frame (of_nat k) @ items_bytes its @ data_descriptor crc cs us ?z"
  proof (cases "b \<le> t")
    case True
    have "h < b" using a(2) b(2) by simp
    then obtain xs' k' ys' where xs': "all = xs' @ Sop k' # ys'" "q + length (items_bytes xs') = b"
      using fr(6)[OF b(1) _ True] by (auto simp: splits_def)
    have "length (items_bytes xs) < length (items_bytes xs')" using xs(2) xs'(2) b(2) by simp
    from splits_two[OF xs(1) xs'(1) this] obtain zs where zs: "xs' = xs @ Sop k # zs" "ys = zs @ Sop k' # ys'"
      by blast
    have lb: "b = a + length (sop_frame (of_nat k) @ items_bytes zs)" using xs(2) xs'(2) zs(1) by simp
    then have "archive_slice S a b = sop_frame (of_nat k) @ items_bytes zs"
      using slice_middle[of S a t "[]" "sop_frame (of_nat k) @ items_bytes zs"
          "items_bytes (Sop k' # ys') @ data_descriptor crc cs us ?z" a b] sla zs(2) True by simp
    moreover have "payload zs = take (sent b q all - ?k) (drop ?k c)"
      using sent_at_split(1)[OF rd xs'(1) so xs'(2)] sa(1) c zs by simp
    ultimately show ?thesis
      using that[of zs] rd so al xs zs True lb by (auto simp: add.assoc)
  next
    case False
    then have "sent b q all = length c"
      using sent_after[OF readable_solid[OF rd], of q b] tq pay by simp
    then have "payload ys = take (sent b q all - ?k) (drop ?k c)" using sa(1) c by simp
    then show ?thesis using that[of ys] rd so al xs False sla at by (auto simp: add.assoc)
  qed
  have le: "k + length (payload its) \<le> length c"
    using its(5) k sa(1) c by simp
  have "a + 24 + length (items_bytes its) < 2 ^ 64" using its(4) t by simp
  from resumed_piece[OF st(1-3) _ _ slashed _ n os1 _ cr its(1-3) le pos this d, of pre rest] m(1-3) plain(2) st(4)
  obtain os' where os': "leaves zr pre (archive_slice S a (min t b)) rest st 0 os'"
    and hn: "holds_node (ps_os st) ?name (Regular (resize (length c)
        (overwrite (fst (file_at (ps_os st) (resolve ?name))) ?k (take (sent b q all - ?k) (drop ?k c))))
      (restored (context_of ?name ?m) (os_euid (ps_os st) = 0) (snd (file_at (ps_os st) (resolve ?name))))) os'"
    unfolding its(5) k by auto
  have "piece_step fopen (ps_output_dir st) (ps_os st) it ?k (sent b q all) os'"
    unfolding piece_step_def shows_piece_def using hn it(1,4) m(4,5) by (auto intro!: exI[of _ "Regular x y" for x y])
  with os' show ?thesis by blast
qed

section \<open>Records without frames, and padding\<close>

lemma leavesI:
  assumes "process_loop zr (pre @ d @ rest) (length pre) st = process_loop zr (pre @ d @ rest) (length pre + length d) st'"
    and "ready st'" and "settled st' = after_files (settled st) k (length d) os'"
  shows "leaves zr pre d rest st k os'"
  using assms unfolding leaves_def by blast

lemma leaves_trans:
  assumes "leaves zr pre d (d' @ rest) st k os1"
    and "\<And>st1. ready st1 \<Longrightarrow> settled st1 = after_files (settled st) k (length d) os1 \<Longrightarrow>
      leaves zr (pre @ d) d' rest st1 k' os2"
  shows "leaves zr pre (d @ d') rest st (k + k') os2"
proof -
  obtain st1 where l1: "process_loop zr (pre @ d @ d' @ rest) (length pre) st =
      process_loop zr (pre @ d @ d' @ rest) (length pre + length d) st1"
    and r1: "ready st1" "settled st1 = after_files (settled st) k (length d) os1"
    using assms(1) by (auto simp: leaves_def)
  from assms(2)[OF r1] obtain st2 where "process_loop zr ((pre @ d) @ d' @ rest) (length (pre @ d)) st1 =
      process_loop zr ((pre @ d) @ d' @ rest) (length (pre @ d) + length d') st2"
    and r2: "ready st2" "settled st2 = after_files (settled st1) k' (length d') os2"
    by (auto simp: leaves_def)
  with l1 show ?thesis using r1(2) by (intro leavesI[where st' = st2]) (simp_all add: add.assoc)
qed

text \<open>A header finds the processor settled.\<close>

lemma leaves_settled:
  assumes "ready st" and "lh_signature lfh = ZIP_LOCAL_FILE_HEADER_SIG" and "d = local_header_bytes lfh @ x"
    and "leaves zr pre d rest (settled st) k os'"
  shows "leaves zr pre d rest st k os'"
proof -
  have "process_loop zr (pre @ d @ rest) (length pre) st = process_loop zr (pre @ d @ rest) (length pre) (settled st)"
    using ready_header[OF assms(1,2), of zr pre "x @ rest"] assms(3) by simp
  moreover have "settled (settled st) = settled st"
    using settled_expects settled_fields[OF assms(1)] by simp
  ultimately show ?thesis using assms(4) unfolding leaves_def by metis
qed

lemma padding_leaves:
  assumes "ready st" and "44 \<le> n" and "n \<le> 65536"
    and "ps_next_entry_idx (settled st) < length (pf_entries (this_part (settled st)))"
  shows "leaves zr pre (padding_lfh ct n) rest st 0 (ps_os (settled st))"
proof -
  let ?h = "padding_header ct (of_nat (n - 44))" and ?st = "settled st"
  let ?st1 = "?st\<lparr>ps_bytes_processed := ps_bytes_processed ?st + of_nat n\<rparr>"
  have sig: "lh_signature ?h = ZIP_LOCAL_FILE_HEADER_SIG" by (auto simp: padding_header_def split: prod.splits)
  have len: "length (padding_lfh ct n) = n" using assms(2) by simp
  note f = settled_fields[OF assms(1)]
  have "ready ?st1 \<and> settled ?st1 = ?st1" using f by (intro settled_expects) simp_all
  moreover have "settled ?st = ?st" using settled_expects f by simp
  moreover have "?st1 = after_files ?st 0 (length (padding_lfh ct n)) (ps_os ?st)"
    unfolding len by (cases "settled st") (simp add: after_files_def)
  ultimately have "leaves zr pre (padding_lfh ct n) rest ?st 0 (ps_os ?st)"
    using padding_lfh_skipped[OF assms(2) _ f(1) assms(4), of zr pre ct rest] assms(3) len
    by (intro leavesI[where st' = ?st1]) simp_all
  then show ?thesis by (intro leaves_settled[OF assms(1) sig]) (simp_all add: padding_lfh_def)
qed

lemma entry_padding_leaves:
  assumes "ready st" and "entry_start s" and "need \<le> 65536" 
    and "ps_next_entry_idx (settled st) < length (pf_entries (this_part (settled st)))"
  shows "leaves zr pre (entry_padding ct (length s) need) rest st 0 (ps_os (settled st))"
proof (cases "room (length s) < need")
  case True
  then have "entry_padding ct (length s) need = padding_lfh ct (room (length s))" by (simp add: entry_padding_def)
  moreover have "44 \<le> room (length s)" using assms(2) by (simp add: entry_start_def)
  ultimately show ?thesis using padding_leaves[OF assms(1) _ _ assms(4)] True assms(3) by simp
next
  case False
  then have "entry_padding ct (length s) need = []" by (simp add: entry_padding_def)
  moreover have "settled st = after_files (settled st) 0 0 (ps_os (settled st))"
    by (cases "settled st") (simp add: after_files_def)
  ultimately show ?thesis using assms(1) by (simp add: leavesI[where st' = st])
qed

end
