(* ===== verification/Placed_Records.thy ===== *)
theory Placed_Records
  imports Record_Pieces
begin

text \<open>
  The archive as a sequence of records with their places: where the padding before a record starts, where its
  header is and where it ends, and how much of the file has been sent before a position. A part
  leaves exactly the pieces of the records that it overlaps (\<open>part_leaves_pieces\<close>).
\<close>

section \<open>Records without frames\<close>

definition plain_at_range :: "bytes \<Rightarrow> nat \<Rightarrow> nat \<Rightarrow> bytes \<Rightarrow> bool" where
  "plain_at_range S h t c \<longleftrightarrow>
     (\<exists>lfh tail. header_complete lfh tail \<and> \<not> padding_named lfh tail \<and>
        archive_slice S h t = local_header_bytes lfh @ tail @ c \<and> t = h + (30 + length tail + length c)) \<and>
     (\<forall>b. b mod PART = 0 \<longrightarrow> h < b \<longrightarrow> t < b)"

lemma wrote_plain_range:
  assumes wr: "wrote_plain env c it w w' e" and name: "it_name it \<noteq> []"
    and S: "S = stream w' @ zs" "length (stream w') < 2 ^ 62"
  shows "\<exists>need. plain_at_range S (unat (fe_local_header_offset e)) (length (stream w')) c \<and>
    archive_slice S (length (stream w)) (unat (fe_local_header_offset e)) =
      entry_padding (env_time env) (length (stream w)) need \<and>
    length (stream w) + length (entry_padding (env_time env) (length (stream w)) need) = unat (fe_local_header_offset e) \<and>
    unat (fe_local_header_offset e) + 46 + unat (fe_compressed_size e) \<le> length (stream w') \<and>
    entry_start (stream w) \<and> need \<le> 65536"
proof -
  obtain w1 lfh tail dd where w1: "archive_inv w1" "stream w1 = stream w"
    and h: "header_ok lfh tail (length c) dd" "header_complete lfh tail" "\<not> padding_named lfh tail"
    and tl: "length tail = length (it_name it) + 15"
    and s: "stream w' = stream w @ padding_for (env_time env) w1 tail (length c) dd @ local_header_bytes lfh @ tail @ c"
    and e: "fe_local_header_offset e =
          of_nat (length (stream w) + length (padding_for (env_time env) w1 tail (length c) dd))"
      "fe_compressed_size e = of_nat (length c)"
    using wr by (auto simp: wrote_plain_def)
  let ?need = "entry_need (30 + length tail) (length c) dd"
  let ?pad = "entry_padding (env_time env) (length (stream w)) ?need"
  let ?h = "length (stream w) + length ?pad" and ?t = "length (stream w')"
  have rec: "stream w' = stream w @ ?pad @ local_header_bytes lfh @ tail @ c" using s by (simp add: w1(2))
  have t: "?t = ?h + (30 + length tail + length c)" using arg_cong[OF rec, of length] by simp
  have off: "unat (fe_local_header_offset e) = ?h" "unat (fe_compressed_size e) = length c"
    using S(2) t by (simp_all add: e w1(2) unat_of_nat del: of_nat_add)
  have es: "entry_start (stream w)" using w1(1,2) by (simp add: archive_inv_def)
  have room: "?need \<le> room ?h"
    using entry_padding_room[OF es, of ?need "env_time env"] h(1) by (simp add: header_ok_def)
  have "?t < b" if b: "b mod PART = 0" "?h < b" for b
    using boundary_after[OF b] room t by (simp add: entry_need_def)
  moreover have "archive_slice S ?h ?t = local_header_bytes lfh @ tail @ c"
    unfolding S(1) archive_slice_def by (subst rec) (simp add: t)
  ultimately have "plain_at_range S ?h ?t c" unfolding plain_at_range_def using h(2,3) t by blast
  moreover have "archive_slice S (length (stream w)) ?h = ?pad"
    unfolding S(1) archive_slice_def by (subst rec) simp
  moreover have "16 \<le> length tail" using tl name by (cases "it_name it") simp_all
  moreover have "?need \<le> 65536" using h(1) by (simp add: header_ok_def)
  ultimately show ?thesis unfolding off using es t by auto
qed

lemma plain_part:
  assumes r: "plain_at_range S h t c"
    and it: "\<not> has_data it" "restorable fopen it" "entry_of it c e" "c = item_content fopen it"
    and st: "ps_state st = STATE_EXPECT_LOCAL_HEADER" "ps_current_file st = None" "expects part_len st (e # es)"
    and os: "idle (ps_os st)" "item_creatable (ps_os st) (ps_output_dir st) it"
  shows "\<exists>os'. leaves zr pre (archive_slice S h t) rest st 1 os' \<and>
    piece_step fopen (ps_output_dir st) (ps_os st) it lo hi os'"
proof -
  obtain lfh tail where h: "header_complete lfh tail" "\<not> padding_named lfh tail"
    "archive_slice S h t = local_header_bytes lfh @ tail @ c" using r by (auto simp: plain_at_range_def)
  let ?d = "local_header_bytes lfh @ tail @ c"
  have set: "settled st = st" using settled_expects st(1,2) by simp
  have len: "length ?d = 30 + length tail + length c" by simp
  from plain_extracted[OF h(1,2) st it os, of zr pre rest]
  obtain st' os' n where l: "process_loop zr (pre @ ?d @ rest) (length pre) st =
      process_loop zr (pre @ ?d @ rest) (length pre + length ?d) st'" "ready st'"
      "settled st' = after_files st 1 (length ?d) os'"
    and n: "holds_node (ps_os st) (item_file (ps_output_dir st) it) n os'" "shows_item (os_euid (ps_os st) = 0) it c n"
    unfolding len by blast
  have "leaves zr pre ?d rest st 1 os'" using l by (intro leavesI[where st' = st']) (simp_all only: set)
  moreover have "piece_step fopen (ps_output_dir st) (ps_os st) it lo hi os'"
    unfolding piece_step_def shows_piece_def using n it(1,4) by auto
  ultimately show ?thesis unfolding h(3) by blast
qed

section \<open>Places\<close>

record place =
  pl_item :: list_item
  pl_entry :: file_entry
  pl_start :: nat
  pl_end :: nat
  pl_sent :: "nat \<Rightarrow> nat"

abbreviation pl_head :: "place \<Rightarrow> nat" where
  "pl_head c \<equiv> unat (fe_local_header_offset (pl_entry c))"

text \<open>At its place stands the record of the item, after padding that ends at a boundary.\<close>

definition placed ::
  "zstd_reader \<Rightarrow> (bytes \<Rightarrow> in_file option) \<Rightarrow> u64 \<Rightarrow> bytes \<Rightarrow> place \<Rightarrow> bool" where
  "placed zr fopen part_len S c \<longleftrightarrow>
     (let it = pl_item c; e = pl_entry c; h = pl_head c; t = pl_end c; d = item_content fopen it
      in restorable fopen it \<and> entry_of it d e \<and> t < 2 ^ 62 \<and> h + 46 + unat (fe_compressed_size e) \<le> t \<and>
         (\<exists>s ct need. length s = pl_start c \<and> entry_start s \<and> need \<le> 65536 \<and>
            archive_slice S (pl_start c) h = entry_padding ct (pl_start c) need \<and>
            pl_start c + length (entry_padding ct (pl_start c) need) = h) \<and>
         (if has_data it
          then \<exists>q all. file_at_range zr S h q t all d (fm_uses_zip64_descriptor (metadata_of part_len e)) \<and>
                 pl_sent c = (\<lambda>b. sent b q all)
          else plain_at_range S h t d \<and> pl_sent c = (\<lambda>_. 0)))"

fun places :: "zstd_reader \<Rightarrow> (bytes \<Rightarrow> in_file option) \<Rightarrow> u64 \<Rightarrow> bytes \<Rightarrow> nat \<Rightarrow> place list \<Rightarrow> nat \<Rightarrow> bool" where
  "places zr fopen part_len S x [] y \<longleftrightarrow> x = y"
| "places zr fopen part_len S x (c # cs) y \<longleftrightarrow>
     pl_start c = x \<and> placed zr fopen part_len S c \<and> places zr fopen part_len S (pl_end c) cs y"

lemma wrote_item_entry_of:
  assumes "wrote_item env fopen it w w' e" and "restorable fopen it" and "entry_ok e"
  shows "entry_of it (item_content fopen it) e"
proof -
  have "fe_uncompressed_size e = of_nat (length (item_content fopen it)) \<and>
    fe_unix_mode e = st_mode (it_stat it) \<and> fe_uid e = st_uid (it_stat it) \<and> fe_gid e = st_gid (it_stat it)"
  proof (cases "has_data it")
    case True
    then show ?thesis using assms(1) by (auto simp: wrote_item_def wrote_file_def item_content_def entry_fields)
  next
    case False
    then show ?thesis using assms(1) by (auto simp: wrote_item_def wrote_plain_def)
  qed
  then show ?thesis
    using assms wrote_item_files[OF assms(1)]
    by (auto simp: entry_of_def restorable_def is_link_def S_ISLNK_def S_IFMT_def S_IFLNK_def)
qed

lemma wrote_item_placed:
  assumes wr: "wrote_item env fopen it w w' e" and env: "frames_fit env" "frames_readable env (compression_level w) zr"
    and it: "restorable fopen it" "entry_ok e" and S: "S = stream w' @ zs" "length (stream w') < 2 ^ 62"
  shows "\<exists>f. placed zr fopen part_len S
    \<lparr>pl_item = it, pl_entry = e, pl_start = length (stream w), pl_end = length (stream w'), pl_sent = f\<rparr>"
proof -
  have name: "it_name it \<noteq> []" using it(1) by (simp add: restorable_def)
  note en = wrote_item_entry_of[OF wr it]
  show ?thesis
  proof (cases "has_data it")
    case True
    then have "wrote_file env fopen it w w' e" using wr by (simp add: wrote_item_def)
    from wrote_file_range[OF this env refl True name S, of part_len]
    obtain q all need where "file_at_range zr S (unat (fe_local_header_offset e)) q (length (stream w')) all
        (item_content fopen it) (fm_uses_zip64_descriptor (metadata_of part_len e))"
      and "archive_slice S (length (stream w)) (unat (fe_local_header_offset e)) =
        entry_padding (env_time env) (length (stream w)) need \<and>
      length (stream w) + length (entry_padding (env_time env) (length (stream w)) need) = unat (fe_local_header_offset e) \<and>
      unat (fe_local_header_offset e) + 46 + unat (fe_compressed_size e) \<le> length (stream w') \<and>
      entry_start (stream w) \<and> need \<le> 65536" by blast
    then show ?thesis
      using True en it(1) S(2) unfolding placed_def Let_def
      by (intro exI[of _ "\<lambda>b. sent b q all"]) auto
  next
    case False
    then have "wrote_plain env (item_content fopen it) it w w' e" using wr by (simp add: wrote_item_def)
    from wrote_plain_range[OF this name S]
    show ?thesis
      using False en it(1) S(2) unfolding placed_def Let_def
      by (intro exI[of _ "\<lambda>_. 0"]) auto
  qed
qed

lemma wrote_items_places:
  assumes "wrote_items env fopen its w w' es" and "frames_fit env" and "frames_readable env (compression_level w) zr"
    and "\<forall>it \<in> set its. restorable fopen it" and "\<forall>e \<in> set es. entry_ok e"
    and "S = stream w' @ zs" and "length (stream w') < 2 ^ 62"
  shows "\<exists>cs. places zr fopen part_len S (length (stream w)) cs (length (stream w')) \<and>
    map pl_item cs = its \<and> map pl_entry cs = es"
  using assms
proof (induction rule: wrote_items.induct)
  case (nothing w)
  then show ?case by (intro exI[of _ "[]"]) simp
next
  case (more it w w1 e its w' es)
  obtain d where d: "stream w' = stream w1 @ d" using wrote_items_stream[OF more.hyps(2)] by blast
  have "length (stream w1) < 2 ^ 62" using d more.prems(6) by simp
  moreover have "S = stream w1 @ d @ zs" using d more.prems(5) by simp
  ultimately obtain f where f: "placed zr fopen part_len S
      \<lparr>pl_item = it, pl_entry = e, pl_start = length (stream w), pl_end = length (stream w1), pl_sent = f\<rparr>"
    using wrote_item_placed[OF more.hyps(1) more.prems(1,2)] more.prems(3,4) by fastforce
  have "compression_level w1 = compression_level w" using wrote_item_files[OF more.hyps(1)] by simp
  with more.IH more.prems obtain cs where "places zr fopen part_len S (length (stream w1)) cs (length (stream w'))"
    "map pl_item cs = its" "map pl_entry cs = es" by auto
  with f show ?case
    by (intro exI[of _ "\<lparr>pl_item = it, pl_entry = e, pl_start = length (stream w), pl_end = length (stream w1),
        pl_sent = f\<rparr> # cs"]) simp
qed

section \<open>Places of records\<close>

lemma placedE:
  assumes "placed zr fopen part_len S c"
  shows "restorable fopen (pl_item c)" and "entry_of (pl_item c) (item_content fopen (pl_item c)) (pl_entry c)"
    and "pl_end c < 2 ^ 62" and "pl_head c < pl_end c"
    and "pl_head c + 46 + unat (fe_compressed_size (pl_entry c)) \<le> pl_end c"
  using assms by (auto simp: placed_def Let_def)

lemma placed_padding:
  assumes "placed zr fopen part_len S c"
  obtains s ct need where "length s = pl_start c" and "entry_start s" and "need \<le> 65536"
    and "archive_slice S (pl_start c) (pl_head c) = entry_padding ct (pl_start c) need"
    and "pl_start c + length (entry_padding ct (pl_start c) need) = pl_head c"
  using assms unfolding placed_def Let_def by blast

lemma placed_start:
  assumes "placed zr fopen part_len S c"
  shows "pl_start c \<le> pl_head c" and "pl_start c < pl_head c \<Longrightarrow> pl_head c = pl_start c + room (pl_start c)"
proof -
  from assms obtain s ct need where p: "length s = pl_start c" "entry_start s"
    "pl_start c + length (entry_padding ct (pl_start c) need) = pl_head c" by (rule placed_padding)
  show "pl_start c \<le> pl_head c" using p(3) by simp
  have "44 \<le> room (pl_start c)" using p(1,2) by (simp add: entry_start_def)
  then show "pl_start c < pl_head c \<Longrightarrow> pl_head c = pl_start c + room (pl_start c)"
    using p(3) by (auto simp: entry_padding_def split: if_splits)
qed

lemma placed_sent:
  assumes "placed zr fopen part_len S c"
  shows "b \<le> pl_head c \<Longrightarrow> pl_sent c b = 0" and "b \<le> b' \<Longrightarrow> pl_sent c b \<le> pl_sent c b'"
    and "has_data (pl_item c) \<Longrightarrow> pl_end c \<le> b \<Longrightarrow> pl_sent c b = length (item_content fopen (pl_item c))"
proof -
  let ?d = "item_content fopen (pl_item c)"
  have "pl_sent c = (\<lambda>_. 0)" if "\<not> has_data (pl_item c)" using assms that by (auto simp: placed_def Let_def)
  moreover have "\<exists>q all. (\<forall>b. pl_sent c b = sent b q all) \<and> pl_head c \<le> q \<and> solid all \<and>
      q + length (items_bytes all) \<le> pl_end c \<and> payload all = ?d" if d: "has_data (pl_item c)"
  proof -
    obtain q all where r: "file_at_range zr S (pl_head c) q (pl_end c) all ?d
        (fm_uses_zip64_descriptor (metadata_of part_len (pl_entry c)))" and f: "pl_sent c = (\<lambda>b. sent b q all)"
      using assms d by (auto simp: placed_def Let_def)
    show ?thesis
      using file_at_rangeE(1,2,6)[OF r] readable_solid[OF file_at_rangeE(3)[OF r]] f
      by (intro exI[of _ q] exI[of _ all]) auto
  qed
  ultimately show "b \<le> pl_head c \<Longrightarrow> pl_sent c b = 0" "b \<le> b' \<Longrightarrow> pl_sent c b \<le> pl_sent c b'"
    "has_data (pl_item c) \<Longrightarrow> pl_end c \<le> b \<Longrightarrow> pl_sent c b = length ?d"
    using sent_before sent_mono sent_after by (metis le_trans le_refl)+
qed

lemma placed_crossing:
  assumes "placed zr fopen part_len S c" and "b mod PART = 0" and "pl_head c < b" and "b < pl_end c"
  shows "has_data (pl_item c)"
proof (rule ccontr)
  assume "\<not> has_data (pl_item c)"
  then have "plain_at_range S (pl_head c) (pl_end c) (item_content fopen (pl_item c))"
    using assms(1) by (simp add: placed_def Let_def)
  then have "\<forall>b. b mod PART = 0 \<longrightarrow> pl_head c < b \<longrightarrow> pl_end c < b"
    unfolding plain_at_range_def by (rule conjunct2)
  from this[rule_format, OF assms(2,3)] have "pl_end c < b" .
  then show False using assms(4) by simp
qed

lemma places_append:
  "places zr fopen part_len S x (cs @ ds) y \<longleftrightarrow>
   (\<exists>z. places zr fopen part_len S x cs z \<and> places zr fopen part_len S z ds y)"
  by (induction cs arbitrary: x) auto

lemma places_bounds:
  assumes "places zr fopen part_len S x cs y"
  shows "x \<le> y" and "c \<in> set cs \<Longrightarrow> placed zr fopen part_len S c \<and> x \<le> pl_start c \<and> pl_end c \<le> y"
proof -
  have "x \<le> y \<and> (\<forall>c \<in> set cs. placed zr fopen part_len S c \<and> x \<le> pl_start c \<and> pl_end c \<le> y)"
    using assms
  proof (induction cs arbitrary: x)
    case (Cons c cs)
    have p: "pl_start c = x" "placed zr fopen part_len S c" using Cons.prems by simp_all
    have "x \<le> pl_end c" using placed_start(1)[OF p(2)] placedE(4)[OF p(2)] p(1) by simp
    then show ?case using Cons.IH[of "pl_end c"] Cons.prems p by fastforce
  qed simp
  then show "x \<le> y" "c \<in> set cs \<Longrightarrow> placed zr fopen part_len S c \<and> x \<le> pl_start c \<and> pl_end c \<le> y" by blast+
qed

lemma places_at:
  assumes "places zr fopen part_len S x cs y" and "x \<le> a" and "a < y"
  shows "\<exists>cs1 c cs2. cs = cs1 @ c # cs2 \<and> places zr fopen part_len S x cs1 (pl_start c) \<and>
    places zr fopen part_len S (pl_start c) (c # cs2) y \<and> pl_start c \<le> a \<and> a < pl_end c"
  using assms
proof (induction cs arbitrary: x)
  case (Cons c cs)
  show ?case
  proof (cases "a < pl_end c")
    case True
    then show ?thesis using Cons.prems by (intro exI[of _ "[]"]) auto
  next
    case False
    then obtain cs1 d cs2 where "cs = cs1 @ d # cs2" "places zr fopen part_len S (pl_end c) cs1 (pl_start d)"
      "places zr fopen part_len S (pl_start d) (d # cs2) y" "pl_start d \<le> a" "a < pl_end d"
      using Cons.IH[of "pl_end c"] Cons.prems by auto
    then show ?thesis using Cons.prems(1) by (intro exI[of _ "c # cs1"] exI[of _ d] exI[of _ cs2]) auto
  qed
qed simp

section \<open>Pieces one after the other\<close>

text \<open>Both items can be there, whichever comes first: they have different paths, and if one is on the way to
  the other, it is a directory.\<close>

definition compatible :: "bytes \<Rightarrow> list_item list \<Rightarrow> bool" where
  "compatible dir its \<longleftrightarrow>
     (\<forall>a \<in> set its. \<forall>b \<in> set its. a \<noteq> b \<longrightarrow>
        item_path dir a \<noteq> item_path dir b \<and> (on_the_way (item_path dir a) (item_path dir b) \<longrightarrow> it_is_directory b))"

definition workable :: "bytes \<Rightarrow> list_item list \<Rightarrow> os_state \<Rightarrow> bool" where
  "workable dir its os \<longleftrightarrow> idle os \<and> (\<forall>it \<in> set its. item_creatable os dir it)"

inductive applied ::
  "(bytes \<Rightarrow> in_file option) \<Rightarrow> bytes \<Rightarrow> os_state \<Rightarrow> (list_item \<times> nat \<times> nat) list \<Rightarrow> os_state \<Rightarrow> bool"
  for fopen dir where
  none: "applied fopen dir os [] os"
| step: "piece_step fopen dir os it lo hi os1 \<Longrightarrow> applied fopen dir os1 ps os' \<Longrightarrow>
    applied fopen dir os ((it, lo, hi) # ps) os'"

lemma applied_append:
  "applied fopen dir os ps os1 \<Longrightarrow> applied fopen dir os1 ps' os' \<Longrightarrow> applied fopen dir os (ps @ ps') os'"
  by (induction rule: applied.induct) (auto intro: applied.intros)

lemma applied_one: "piece_step fopen dir os it lo hi os' \<Longrightarrow> applied fopen dir os [(it, lo, hi)] os'"
  by (auto intro: applied.intros)

lemma shows_piece_kind:
  assumes "shows_piece super it c old lo hi n"
  shows "it_is_directory it \<Longrightarrow> \<exists>a. n = Directory a" and "is_link it \<Longrightarrow> \<exists>t a. n = Symbolic t a"
    and "\<not> it_is_directory it \<Longrightarrow> \<not> is_link it \<Longrightarrow> \<exists>d a. n = Regular d a"
  using assms shows_item_kind[of super it c n]
  by (auto simp: shows_piece_def has_data_def is_link_def split: if_splits)

lemma parents_of_node:
  assumes h: "holds_node os name n os'" and d: "dirs_free os (parent (resolve name))"
  shows "dirs_free os' (parent (resolve name))"
  unfolding dirs_free_def
proof (intro allI impI)
  fix k
  let ?p = "resolve name" and ?q = "(fst (parent (resolve name)), take k (snd (parent (resolve name))))"
  assume k: "k \<le> length (snd (parent ?p))" and ne: "os_nodes os' ?q \<noteq> None"
  show "is_dir os' ?q"
  proof (cases "?q = ?p")
    case True
    then have "length (snd ?p) \<le> length (snd ?p) - 1" by (metis length_butlast length_take min.cobounded1 parent_def snd_conv)
    then have "snd ?p = []" by (cases "snd ?p") simp_all
    then show ?thesis using True by (metis is_dir_def)
  next
    case False
    then have "os_nodes os' ?q = os_nodes os ?q \<or> is_dir os' ?q" using h unfolding holds_node_def by blast
    moreover have "os_nodes os ?q \<noteq> None \<longrightarrow> is_dir os ?q" using d k by (simp add: dirs_free_def)
    ultimately show ?thesis using ne by (auto simp: is_dir_def)
  qed
qed

lemma piece_step_creatable:
  assumes s: "piece_step fopen dir os a lo hi os'" and c: "item_creatable os dir b" "compatible dir its"
    and ab: "a \<in> set its" "b \<in> set its"
  shows "item_creatable os' dir b"
proof -
  obtain n where h: "holds_node os (item_file dir a) n os'"
    and n: "shows_piece (os_euid os = 0) a (item_content fopen a) (fst (file_at os (item_path dir a))) lo hi n"
    using s by (auto simp: piece_step_def)
  note kind = shows_piece_kind[OF n]
  show ?thesis
  proof (cases "a = b")
    case True
    have "os_nodes os' (item_path dir b) = Some n" using h True by (simp add: holds_node_def)
    moreover have "dirs_free os (parent (item_path dir b)) \<Longrightarrow> dirs_free os' (parent (item_path dir b))"
      using parents_of_node[OF h] True by simp
    ultimately show ?thesis
      using c(1) kind True by (auto simp: item_creatable_def creatable_def creatable_dir_def creatable_link_def split: if_splits)
  next
    case False
    then have p: "item_path dir b \<noteq> item_path dir a" "on_the_way (item_path dir a) (item_path dir b) \<longrightarrow> it_is_directory b"
      "on_the_way (item_path dir b) (item_path dir a) \<longrightarrow> it_is_directory a"
      using c(2) ab unfolding compatible_def by metis+
    have "dirs_free os (parent (item_path dir b)) \<Longrightarrow> dirs_free os' (parent (item_path dir b))"
      using dirs_free_kept[OF h] p(3) kind(1) by blast
    moreover from holds_node_elsewhere[OF h p(1)]
    have "os_nodes os' (item_path dir b) = os_nodes os (item_path dir b) \<or>
        it_is_directory b \<and> is_dir os' (item_path dir b)" using p(2) by blast
    ultimately show ?thesis
      using c(1) by (auto simp: item_creatable_def creatable_def creatable_dir_def creatable_link_def is_dir_def
          split: if_splits)
  qed
qed

lemma piece_step_workable:
  assumes "piece_step fopen dir os it lo hi os'" and "workable dir its os" and "compatible dir its" and "it \<in> set its"
  shows "workable dir its os'"
proof -
  have "idle os'" using assms(1,2) idle_after by (auto simp: piece_step_def workable_def)
  then show ?thesis
    using piece_step_creatable[OF assms(1) _ assms(3,4)] assms(2) by (simp add: workable_def)
qed

section \<open>The records of a part\<close>

text \<open>The loop consumes all of its input, and finalizing the part succeeds and leaves \<open>os'\<close>.\<close>

definition loop_ends :: "zstd_reader \<Rightarrow> bytes \<Rightarrow> nat \<Rightarrow> part_processor_state \<Rightarrow> os_state \<Rightarrow> bool" where
  "loop_ends zr work off st os' \<longleftrightarrow>
     (\<exists>st1 st2. process_loop zr work off st = Some (Completed st1) \<and>
        part_processor_finalize st1 = Done STREAM_PROC_SUCCESS st2 \<and> part_processor_destroy st2 = os')"

lemma loop_ends_ready:
  assumes "ready st" and "ps_frame_buffer st = []"
  shows "loop_ends zr work (length work) st (ps_os (settled st))"
proof -
  obtain st2 where "part_processor_finalize st = Done STREAM_PROC_SUCCESS st2" "ps_current_file st2 = None"
    "ps_os st2 = ps_os (settled st)" using settled_finalize[OF assms] by blast
  then show ?thesis
    by (simp add: loop_ends_def process_loop.simps[of _ _ "length work"] part_processor_destroy_def)
qed

lemma loop_ends_leaves:
  assumes "leaves zr pre d d' st k os1"
    and "\<And>st1. ready st1 \<Longrightarrow> settled st1 = after_files (settled st) k (length d) os1 \<Longrightarrow>
      loop_ends zr ((pre @ d) @ d') (length (pre @ d)) st1 os'"
  shows "loop_ends zr (pre @ d @ d') (length pre) st os'"
  using assms unfolding leaves_def loop_ends_def by fastforce

text \<open>After the last entry of the part the rest is ignored.\<close>

lemma loop_ends_padding:
  assumes "ready st" and "ps_frame_buffer st = []" and "44 \<le> n"
    and "length (pf_entries (this_part (settled st))) \<le> ps_next_entry_idx (settled st)"
  shows "loop_ends zr (pre @ padding_lfh ct n) (length pre) st (ps_os (settled st))"
proof -
  let ?h = "padding_header ct (of_nat (n - 44))" and ?st = "settled st" and ?w = "pre @ padding_lfh ct n"
  let ?st1 = "?st\<lparr>ps_state := STATE_DONE\<rparr>"
  note f = settled_fields[OF assms(1)]
  have sig: "lh_signature ?h = ZIP_LOCAL_FILE_HEADER_SIG" by (auto simp: padding_header_def split: prod.splits)
  have lt: "length pre < length ?w" using assms(3) by simp
  have "process_loop zr ?w (length pre) st = process_loop zr ?w (length pre) ?st"
    using ready_header[OF assms(1) sig, of zr pre] unfolding padding_lfh_def by simp
  also have "\<dots> = process_loop zr ?w (length pre) ?st1"
    using f(1) assms(4) by (intro process_loop_Next[OF lt]) (simp add: process_step_def step_expect_header_def)
  also have "\<dots> = process_loop zr ?w (length ?w) ?st1"
    by (intro process_loop_Next[OF lt]) (simp add: process_step_def)
  also have "\<dots> = Some (Completed ?st1)" by (subst process_loop.simps) simp
  finally show ?thesis
    using f(2,3) assms(2)
    by (simp add: loop_ends_def part_processor_finalize_def close_output_file_def proceed_def run_of_def
        part_processor_destroy_def)
qed

text \<open>The pieces of the records that overlap \<open>[a, b)\<close>.\<close>

definition pieces :: "nat \<Rightarrow> nat \<Rightarrow> place list \<Rightarrow> (list_item \<times> nat \<times> nat) list" where
  "pieces a b cs =
     map (\<lambda>c. (pl_item c, pl_sent c a, pl_sent c b)) (filter (\<lambda>c. pl_head c < b \<and> a < pl_end c) cs)"

definition starting :: "nat \<Rightarrow> nat \<Rightarrow> place list \<Rightarrow> file_entry list" where
  "starting a b cs = map pl_entry (filter (\<lambda>c. a \<le> pl_head c \<and> pl_head c < b) cs)"

lemma opening_placed:
  assumes p: "placed zr fopen part_len S c" and b: "b mod PART = 0" "pl_head c < b" and a: "a \<le> pl_head c"
    and st: "ready st" "expects part_len (settled st) (pl_entry c # es)"
    and os: "idle (ps_os (settled st))" "item_creatable (ps_os (settled st)) (ps_output_dir st) (pl_item c)"
    and pos: "ps_part_start_offset (settled st) + ps_bytes_processed (settled st) = of_nat (pl_head c)"
  shows "\<exists>os'. leaves zr pre (archive_slice S (pl_head c) (min (pl_end c) b)) rest st 1 os' \<and>
    piece_step fopen (ps_output_dir st) (ps_os (settled st)) (pl_item c) (pl_sent c a) (pl_sent c b) os'"
proof -
  let ?st = "settled st" and ?h = "pl_head c" and ?t = "pl_end c" and ?it = "pl_item c"
  let ?d = "item_content fopen ?it"
  note f = settled_fields[OF st(1)]
  have os': "item_creatable (ps_os ?st) (ps_output_dir ?st) ?it" using os(2) f(4) by simp
  have header: "\<exists>lfh x. lh_signature lfh = ZIP_LOCAL_FILE_HEADER_SIG \<and>
      archive_slice S ?h (min ?t b) = local_header_bytes lfh @ x"
    if "archive_slice S ?h ?t = local_header_bytes lfh @ x" "header_complete lfh tail" "?h + 30 \<le> min ?t b" for lfh x tail
  proof -
    have "archive_slice S ?h (min ?t b) = take (min ?t b - ?h) (local_header_bytes lfh @ x)"
      using slice_inside[of ?h ?h "min ?t b" ?t S] that(1) by simp
    also have "min ?t b - ?h = 30 + (min ?t b - ?h - 30)" using that(3) by linarith
    also have "take \<dots> (local_header_bytes lfh @ x) = local_header_bytes lfh @ take (min ?t b - ?h - 30) x"
      by (simp add: take_add)
    finally show ?thesis using that(2) by (auto simp: header_complete_def)
  qed
  have "\<exists>os'. leaves zr pre (archive_slice S ?h (min ?t b)) rest ?st 1 os' \<and>
      piece_step fopen (ps_output_dir st) (ps_os ?st) ?it (pl_sent c a) (pl_sent c b) os' \<and>
      (\<exists>lfh x. lh_signature lfh = ZIP_LOCAL_FILE_HEADER_SIG \<and> archive_slice S ?h (min ?t b) = local_header_bytes lfh @ x)"
  proof (cases "has_data ?it")
    case True
    then obtain q all where r: "file_at_range zr S ?h q ?t all ?d (fm_uses_zip64_descriptor (metadata_of part_len (pl_entry c)))"
      and sent: "pl_sent c = (\<lambda>b. sent b q all)"
      using p by (auto simp: placed_def Let_def)
    from file_at_rangeE(1)[OF r] obtain lfh tail x where l: "archive_slice S ?h ?t = local_header_bytes lfh @ x"
      "header_complete lfh tail" "?h + 30 \<le> q" by auto
    have "q < b" if "b \<le> ?t" using file_at_rangeE(7)[OF r b that] by simp
    moreover have "q \<le> ?t" using file_at_rangeE(2)[OF r] by simp
    ultimately have "?h + 30 \<le> min ?t b" using l(3) by (cases "b \<le> ?t") simp_all
    note hx = header[OF l(1,2) this]
    have "sent a q all = 0" using a l(3) by (intro sent_before) simp
    with opening_part[OF r placedE(3)[OF p] b True placedE(1,2)[OF p] refl f(1,2) st(2) os(1) os' pos, of pre rest]
      hx show ?thesis unfolding sent f(4) by auto
  next
    case False
    then have r: "plain_at_range S ?h ?t ?d" and sent: "pl_sent c = (\<lambda>_. 0)"
      using p by (simp_all add: placed_def Let_def)
    have tb: "min ?t b = ?t" using r b unfolding plain_at_range_def by auto
    obtain lfh tail where l: "header_complete lfh tail" "archive_slice S ?h ?t = local_header_bytes lfh @ tail @ ?d"
      "?t = ?h + (30 + length tail + length ?d)" using r unfolding plain_at_range_def by blast
    have "?h + 30 \<le> min ?t b" using l(3) tb by simp
    note hx = header[OF l(2,1) this]
    show ?thesis
      using plain_part[OF r False placedE(1,2)[OF p] refl f(1,2) st(2) os(1) os', where zr = zr and pre = pre and rest = rest] hx
      unfolding sent tb f(4) by auto
  qed
  then show ?thesis using leaves_settled[OF st(1)] by metis
qed

end
