(* ===== verification/S3_Requests.thy ===== *)
theory S3_Requests
  imports Burst_Prelude
begin

text \<open>
  Requests that collect a response in memory (\<open>src/downloader/s3_operations.c\<close>, lines 1-540): the
  HTTP message, the context of a request, its three callbacks with the parsing of the response
  headers, waiting for the end, and the three functions that use them. What the S3 client does with a
  message is an \<open>s3_answer\<close>: which callbacks it calls with which arguments, and whether the request
  ends before the time-out.
\<close>

section \<open>Decimal numbers in headers\<close>

text \<open>\<open>%llu\<close> of \<open>printf\<close>.\<close>

fun decimal :: "nat \<Rightarrow> bytes" where
  "decimal n = (if n < 10 then [of_nat (48 + n)] else decimal (n div 10) @ [of_nat (48 + n mod 10)])"

declare decimal.simps [simp del]

definition is_digit :: "u8 \<Rightarrow> bool" where
  "is_digit c \<longleftrightarrow> 48 \<le> unat c \<and> unat c \<le> 57"

definition is_space :: "u8 \<Rightarrow> bool" where
  "is_space c \<longleftrightarrow> c = 32 \<or> 9 \<le> unat c \<and> unat c \<le> 13"

definition digits_value :: "bytes \<Rightarrow> nat" where
  "digits_value ds = foldl (\<lambda>n c. n * 10 + (unat c - 48)) 0 ds"

text \<open>\<open>strtoull\<close> in base 10: blanks, a sign, digits; too large values are saturated. The result is the
  value and the rest, or \<open>None\<close> without digits. \<open>%llu\<close> of \<open>sscanf\<close> reads the same numbers.\<close>

definition scan_ull :: "bytes \<Rightarrow> (u64 \<times> bytes) option" where
  "scan_ull s =
     (let s1 = dropWhile is_space s;
          negative = (s1 \<noteq> [] \<and> hd s1 = 0x2d);
          s2 = (if s1 \<noteq> [] \<and> (hd s1 = 0x2d \<or> hd s1 = 0x2b) then tl s1 else s1);
          ds = takeWhile is_digit s2;
          n = digits_value ds
      in if ds = [] then None
         else Some (if n \<ge> 2 ^ 64 then -1 else if negative then - of_nat n else of_nat n,
                    dropWhile is_digit s2))"

definition strtoull :: "bytes \<Rightarrow> u64" where
  "strtoull s = (case scan_ull s of None \<Rightarrow> 0 | Some (n, rest) \<Rightarrow> n)"

text \<open>A literal of a \<open>sscanf\<close> format; a blank in it matches any number of blanks.\<close>

fun scan_literal :: "bytes \<Rightarrow> bytes \<Rightarrow> bytes option" where
  "scan_literal [] s = Some s"
| "scan_literal (c # cs) s =
     (if c = 32 then scan_literal cs (dropWhile is_space s)
      else case s of [] \<Rightarrow> None | d # ds \<Rightarrow> if d = c then scan_literal cs ds else None)"

text \<open>\<open>sscanf\<close> with a format of literals that each precede a \<open>%llu\<close>: the values it assigns.\<close>

fun scan_numbers :: "bytes list \<Rightarrow> bytes \<Rightarrow> u64 list" where
  "scan_numbers [] s = []"
| "scan_numbers (lit # lits) s =
     (case scan_literal lit s of
        None \<Rightarrow> []
      | Some s1 \<Rightarrow> (case scan_ull s1 of None \<Rightarrow> [] | Some (n, s2) \<Rightarrow> n # scan_numbers lits s2))"

text \<open>\<open>"bytes "\<close>, \<open>"-"\<close>, \<open>"/"\<close>, \<open>"bytes */"\<close> and \<open>"bytes="\<close>\<close>

definition range_format :: "bytes list" where
  "range_format = [[98, 121, 116, 101, 115, 32], [0x2d], [0x2f]]"

definition unsatisfied_format :: "bytes list" where
  "unsatisfied_format = [[98, 121, 116, 101, 115, 32, 0x2a, 0x2f]]"

definition range_value :: "u64 \<Rightarrow> u64 \<Rightarrow> bytes" where
  "range_value start end_incl =
     [98, 121, 116, 101, 115, 0x3d] @ decimal (unat start) @ [0x2d] @ decimal (unat end_incl)"

section \<open>The downloader and its messages\<close>

record downloader =
  dl_bucket :: bytes
  dl_key :: bytes
  dl_region :: bytes
  dl_object_size :: u64
  dl_max_concurrent_connections :: nat
  dl_max_concurrent_parts :: nat
  dl_part_size :: u64
  dl_output_dir :: bytes
  dl_profile_name :: "bytes option"

record http_request =
  rq_head :: bool
  rq_path :: bytes
  rq_host :: bytes
  rq_range :: "bytes option"

text \<open>\<open>BUCKET.s3.REGION.amazonaws.com\<close>, cut off at the size of the array.\<close>

definition host_value :: "bytes \<Rightarrow> bytes \<Rightarrow> bytes" where
  "host_value bucket region =
     strndup (bucket @ [46, 115, 51, 46] @ region @
              [46, 97, 109, 97, 122, 111, 110, 97, 119, 115, 46, 99, 111, 109]) 255"

definition object_request :: "downloader \<Rightarrow> bool \<Rightarrow> bytes option \<Rightarrow> http_request" where
  "object_request dl head_method range_header =
     \<lparr>rq_head = head_method, rq_path = 0x2f # dl_key dl, rq_host = host_value (dl_bucket dl) (dl_region dl),
      rq_range = range_header\<rparr>"

section \<open>The context and its callbacks\<close>

record get_request_context =
  gr_request_complete :: bool
  gr_buffer :: bytes
  gr_buffer_capacity :: nat
  gr_content_length :: u64
  gr_range_start :: u64
  gr_range_end :: u64
  gr_total_size :: u64
  gr_error_code :: int

definition get_request_context_new :: get_request_context where
  "get_request_context_new =
     \<lparr>gr_request_complete = False, gr_buffer = [], gr_buffer_capacity = 0, gr_content_length = 0,
      gr_range_start = 0, gr_range_end = 0, gr_total_size = 0, gr_error_code = 0\<rparr>"

text \<open>The assignments of the first \<open>sscanf\<close>, in order, as far as it got.\<close>

fun assign_range :: "u64 list \<Rightarrow> get_request_context \<Rightarrow> get_request_context" where
  "assign_range [a] ctx = ctx\<lparr>gr_range_start := a\<rparr>"
| "assign_range [a, b] ctx = ctx\<lparr>gr_range_start := a, gr_range_end := b\<rparr>"
| "assign_range [a, b, t] ctx = ctx\<lparr>gr_range_start := a, gr_range_end := b, gr_total_size := t\<rparr>"
| "assign_range _ ctx = ctx"

definition parse_content_range :: "bytes \<Rightarrow> get_request_context \<Rightarrow> get_request_context" where
  "parse_content_range value ctx =
     (let range_str = strndup value 127;
          ns = scan_numbers range_format range_str;
          ctx1 = assign_range ns ctx
      in if length ns = 3 then ctx1
         else case scan_numbers unsatisfied_format range_str of
                [t] \<Rightarrow> ctx1\<lparr>gr_total_size := t, gr_range_start := 0, gr_range_end := 0\<rparr>
              | _ \<Rightarrow> ctx1)"

definition s3_get_headers_callback ::
  "bytes option \<Rightarrow> bytes option \<Rightarrow> int \<Rightarrow> get_request_context \<Rightarrow> get_request_context" where
  "s3_get_headers_callback content_length content_range response_status ctx =
     (if response_status < 200 \<or> response_status \<ge> 300 then ctx\<lparr>gr_error_code := -1\<rparr>
      else
        let ctx1 = (case content_length of
                      None \<Rightarrow> ctx
                    | Some v \<Rightarrow> ctx\<lparr>gr_content_length := strtoull (strndup v 63)\<rparr>)
        in case content_range of None \<Rightarrow> ctx1 | Some v \<Rightarrow> parse_content_range v ctx1)"

text \<open>The capacity is doubled until it suffices.\<close>

function double_capacity :: "nat \<Rightarrow> nat \<Rightarrow> nat" where
  "double_capacity cap n = (if 0 < cap \<and> cap < n then double_capacity (cap * 2) n else cap)"
  by pat_completeness auto
termination by (relation "measure (\<lambda>(cap, n). n - cap)") auto

declare double_capacity.simps [simp del]

definition s3_get_body_callback ::
  "bool \<Rightarrow> bytes \<Rightarrow> get_request_context \<Rightarrow> bool \<times> get_request_context" where
  "s3_get_body_callback realloc_ok body ctx =
     (let new_size = length (gr_buffer ctx) + length body
      in if new_size > gr_buffer_capacity ctx then
           let new_capacity = double_capacity
                 (if gr_buffer_capacity ctx = 0 then 4096 else gr_buffer_capacity ctx * 2) new_size
           in if \<not> realloc_ok then (False, ctx\<lparr>gr_error_code := -1\<rparr>)
              else (True, ctx\<lparr>gr_buffer := gr_buffer ctx @ body, gr_buffer_capacity := new_capacity\<rparr>)
         else (True, ctx\<lparr>gr_buffer := gr_buffer ctx @ body\<rparr>))"

definition s3_get_finish_callback :: "int \<Rightarrow> get_request_context \<Rightarrow> get_request_context" where
  "s3_get_finish_callback error_code ctx =
     (if error_code \<noteq> 0 then ctx\<lparr>gr_error_code := error_code, gr_request_complete := True\<rparr>
      else ctx\<lparr>gr_request_complete := True\<rparr>)"

section \<open>A request\<close>

text \<open>What the client does. \<open>an_in_time\<close>: the finish callback runs before the time-out. Each piece of
  the body comes with the result of the allocation it may need.\<close>

record s3_answer =
  an_created :: bool
  an_status :: int
  an_content_length :: "bytes option"
  an_content_range :: "bytes option"
  an_pieces :: "(bool \<times> bytes) list"
  an_error :: int
  an_in_time :: bool

text \<open>A body callback that fails ends the body.\<close>

fun deliver :: "(bool \<times> bytes) list \<Rightarrow> get_request_context \<Rightarrow> get_request_context" where
  "deliver [] ctx = ctx"
| "deliver ((realloc_ok, body) # pieces) ctx =
     (case s3_get_body_callback realloc_ok body ctx of
        (ok, ctx1) \<Rightarrow> if ok then deliver pieces ctx1 else ctx1)"

definition answered :: "s3_answer \<Rightarrow> get_request_context \<Rightarrow> get_request_context" where
  "answered ans ctx =
     (let ctx1 = deliver (an_pieces ans)
                   (s3_get_headers_callback (an_content_length ans) (an_content_range ans) (an_status ans) ctx)
      in if an_in_time ans then s3_get_finish_callback (an_error ans) ctx1 else ctx1)"

text \<open>The wait is skipped when the request is already complete, and happens at most once.\<close>

definition wait_for_completion :: "bool \<Rightarrow> get_request_context \<Rightarrow> bool" where
  "wait_for_completion timed_out ctx =
     (let success = (if \<not> gr_request_complete ctx then \<not> timed_out else True)
      in success \<and> gr_request_complete ctx)"

text \<open>The common steps of the three functions: the context and the message are allocated, the request
  is made, the caller waits and looks at the error. \<open>None\<close>: return -1. A HEAD request has no body
  callback.\<close>

definition get_request ::
  "bool list \<Rightarrow> (http_request \<Rightarrow> s3_answer) \<Rightarrow> http_request \<Rightarrow> get_request_context option" where
  "get_request allocs client message =
     (let ans = (if rq_head message then (client message)\<lparr>an_pieces := []\<rparr> else client message)
      in if False \<in> set (take 2 allocs) then None
      else if \<not> an_created ans then None
      else
        let ctx = answered ans get_request_context_new
        in if \<not> wait_for_completion (\<not> an_in_time ans) ctx then None
           else if gr_error_code ctx \<noteq> 0 then None
           else Some ctx)"

definition burst_downloader_get_object_size ::
  "bool list \<Rightarrow> (http_request \<Rightarrow> s3_answer) \<Rightarrow> downloader \<Rightarrow> downloader option" where
  "burst_downloader_get_object_size allocs client dl =
     map_option
       (\<lambda>ctx. dl\<lparr>dl_object_size := if gr_total_size ctx > 0 then gr_total_size ctx else gr_content_length ctx\<rparr>)
       (get_request allocs client (object_request dl True None))"

definition burst_downloader_test_range_get ::
  "bool list \<Rightarrow> (http_request \<Rightarrow> s3_answer) \<Rightarrow> downloader \<Rightarrow> u64 \<Rightarrow> u64 \<Rightarrow> bytes option" where
  "burst_downloader_test_range_get allocs client dl start end_incl =
     map_option gr_buffer
       (get_request allocs client (object_request dl False (Some (range_value start end_incl))))"

text \<open>\<open>"bytes=-8388608"\<close>\<close>

definition suffix_range :: bytes where
  "suffix_range = [98, 121, 116, 101, 115, 0x3d, 0x2d] @ decimal 8388608"

text \<open>The outputs are the buffer, its start offset and the total size.\<close>

definition burst_downloader_fetch_cd_part ::
  "bool list \<Rightarrow> (http_request \<Rightarrow> s3_answer) \<Rightarrow> downloader \<Rightarrow> (bytes \<times> u64 \<times> u64) option" where
  "burst_downloader_fetch_cd_part allocs client dl =
     map_option (\<lambda>ctx. (gr_buffer ctx, gr_range_start ctx, gr_total_size ctx))
       (get_request allocs client (object_request dl False (Some suffix_range)))"

section \<open>Numbers that were printed are read back\<close>

lemma decimal_last: "10 \<le> n \<Longrightarrow> decimal n = decimal (n div 10) @ [of_nat (48 + n mod 10)]"
  by (subst decimal.simps) simp

lemma decimal_small: "n < 10 \<Longrightarrow> decimal n = [of_nat (48 + n)]"
  by (subst decimal.simps) simp

lemma unat_digit: "k < 10 \<Longrightarrow> unat (of_nat (48 + k) :: u8) = 48 + k"
  by (simp add: unat_of_nat del: of_nat_add)

lemma decimal_digits:
  "decimal n \<noteq> [] \<and> (\<forall>c \<in> set (decimal n). is_digit c) \<and> digits_value (decimal n) = n"
proof (induction n rule: less_induct)
  case (less n)
  have d: "is_digit (of_nat (48 + k))" if "k < 10" for k
    using unat_digit[OF that] that by (simp only: is_digit_def) simp
  show ?case
  proof (cases "n < 10")
    case True
    then show ?thesis
      using d[OF True] unat_digit[OF True] by (simp add: decimal_small digits_value_def del: of_nat_add)
  next
    case False
    then have "decimal n = decimal (n div 10) @ [of_nat (48 + n mod 10)]" by (intro decimal_last) simp
    moreover have "n mod 10 < 10" by simp
    moreover have "n div 10 * 10 + n mod 10 = n" by (rule div_mult_mod_eq)
    ultimately show ?thesis
      using less[of "n div 10"] False d[of "n mod 10"] unat_digit[of "n mod 10"]
      by (simp add: digits_value_def del: of_nat_add)
  qed
qed

lemma digit_not_blank: "is_digit c \<Longrightarrow> \<not> is_space c \<and> c \<noteq> 0x2d \<and> c \<noteq> 0x2b \<and> c \<noteq> 0"
  by (auto simp: is_digit_def is_space_def)

lemma decimal_split: "\<exists>d ds. decimal n = d # ds \<and> is_digit d"
  using decimal_digits[of n] by (cases "decimal n") auto

lemma skip_blanks_decimal: "dropWhile is_space (decimal n @ rest) = decimal n @ rest"
proof -
  obtain d ds where "decimal n = d # ds" "is_digit d" using decimal_split by blast
  then show ?thesis using digit_not_blank by simp
qed

lemma scan_ull_decimal:
  assumes "n < 2 ^ 64" and "rest = [] \<or> \<not> is_digit (hd rest)"
  shows "scan_ull (decimal n @ rest) = Some (of_nat n, rest)"
proof -
  have all: "takeWhile is_digit (decimal n @ rest) = decimal n" "dropWhile is_digit (decimal n @ rest) = rest"
    using decimal_digits[of n] assms(2) by (cases rest; auto simp: takeWhile_append dropWhile_append)+
  obtain d ds where d: "decimal n = d # ds" "is_digit d" using decimal_split by blast
  then have sign: "hd (decimal n @ rest) \<noteq> 0x2d" "hd (decimal n @ rest) \<noteq> 0x2b"
    using digit_not_blank[OF d(2)] by auto
  show ?thesis
    using assms(1) sign decimal_digits[of n]
    by (simp add: scan_ull_def Let_def skip_blanks_decimal all)
qed

lemma length_decimal: "n < 10 ^ k \<Longrightarrow> 0 < k \<Longrightarrow> length (decimal n) \<le> k"
proof (induction k arbitrary: n)
  case (Suc k)
  show ?case
  proof (cases "n < 10")
    case False
    then have "n div 10 < 10 ^ k" "0 < k" using Suc.prems by (cases k; simp add: less_mult_imp_div_less)+
    from Suc.IH[OF this] False show ?thesis by (simp add: decimal_last)
  qed (simp add: decimal_small)
qed simp

lemma length_decimal_u64: "n < 2 ^ 64 \<Longrightarrow> length (decimal n) \<le> 20"
  by (rule length_decimal) (auto intro: less_trans)

section \<open>Answers of a server\<close>

text \<open>\<open>"bytes START-END/TOTAL"\<close>\<close>

definition content_range :: "nat \<Rightarrow> nat \<Rightarrow> nat \<Rightarrow> bytes" where
  "content_range start end_incl size_total =
     [98, 121, 116, 101, 115, 32] @ decimal start @ [0x2d] @ decimal end_incl @ [0x2f] @ decimal size_total"

lemma strndup_content_range:
  assumes "a < 2 ^ 64" and "b < 2 ^ 64" and "t < 2 ^ 64"
  shows "strndup (content_range a b t) 127 = content_range a b t"
proof -
  have nul: "0 \<notin> set (decimal n)" for n using decimal_digits[of n] digit_not_blank by blast
  have "length (content_range a b t) \<le> 127"
    using length_decimal_u64[OF assms(1)] length_decimal_u64[OF assms(2)] length_decimal_u64[OF assms(3)]
    unfolding content_range_def length_append by simp
  then have "take 127 (content_range a b t) = content_range a b t" by (rule take_all)
  moreover have "\<forall>c \<in> set (content_range a b t). c \<noteq> 0"
    unfolding content_range_def set_append using nul by auto
  then have "takeWhile (\<lambda>b. b \<noteq> 0) (content_range a b t) = content_range a b t"
    by (simp only: takeWhile_eq_all_conv)
  ultimately show ?thesis unfolding strndup_def by simp
qed

lemma parse_content_range_ok:
  assumes "a < 2 ^ 64" and "b < 2 ^ 64" and "t < 2 ^ 64"
  shows "parse_content_range (content_range a b t) ctx =
    ctx\<lparr>gr_range_start := of_nat a, gr_range_end := of_nat b, gr_total_size := of_nat t\<rparr>"
proof -
  have s1: "scan_literal [98, 121, 116, 101, 115, 32] (content_range a b t) =
      Some (decimal a @ [0x2d] @ decimal b @ [0x2f] @ decimal t)"
    using skip_blanks_decimal by (simp add: content_range_def is_space_def)
  have s2: "scan_ull (decimal a @ [0x2d] @ decimal b @ [0x2f] @ decimal t) =
      Some (of_nat a, [0x2d] @ decimal b @ [0x2f] @ decimal t)"
    by (rule scan_ull_decimal[OF assms(1)]) (simp add: is_digit_def)
  have s3: "scan_ull (decimal b @ [0x2f] @ decimal t) = Some (of_nat b, [0x2f] @ decimal t)"
    by (rule scan_ull_decimal[OF assms(2)]) (simp add: is_digit_def)
  have s4: "scan_ull (decimal t) = Some (of_nat t, [])"
    using scan_ull_decimal[OF assms(3), of "[]"] by simp
  have "scan_numbers range_format (content_range a b t) = [of_nat a, of_nat b, of_nat t]"
    using s1 s2 s3 s4 by (simp add: range_format_def)
  then show ?thesis
    by (simp add: parse_content_range_def Let_def strndup_content_range[OF assms])
qed

lemma deliver_ok:
  "\<forall>p \<in> set pieces. fst p \<Longrightarrow>
   gr_buffer (deliver pieces ctx) = gr_buffer ctx @ concat (map snd pieces) \<and>
   gr_range_start (deliver pieces ctx) = gr_range_start ctx \<and>
   gr_total_size (deliver pieces ctx) = gr_total_size ctx \<and>
   gr_error_code (deliver pieces ctx) = gr_error_code ctx"
proof (induction pieces arbitrary: ctx)
  case (Cons p pieces)
  obtain body where p: "p = (True, body)" using Cons.prems by (cases p) auto
  obtain ctx1 where c: "s3_get_body_callback True body ctx = (True, ctx1)"
    "gr_buffer ctx1 = gr_buffer ctx @ body" "gr_range_start ctx1 = gr_range_start ctx"
    "gr_total_size ctx1 = gr_total_size ctx" "gr_error_code ctx1 = gr_error_code ctx"
    by (cases "length (gr_buffer ctx) + length body > gr_buffer_capacity ctx")
      (simp_all add: s3_get_body_callback_def Let_def)
  show ?case using Cons.IH[of ctx1] Cons.prems p c by simp
qed simp

text \<open>The answer of a conforming server to a range request for the bytes of \<open>object\<close> from \<open>a\<close> on, cut
  into any pieces, while no allocation fails.\<close>

definition conforming :: "bytes \<Rightarrow> nat \<Rightarrow> s3_answer \<Rightarrow> bool" where
  "conforming object a ans \<longleftrightarrow>
     an_created ans \<and> an_in_time ans \<and> an_error ans = 0 \<and> 200 \<le> an_status ans \<and> an_status ans < 300 \<and>
     an_content_range ans = Some (content_range a (length object - 1) (length object)) \<and>
     (\<forall>p \<in> set (an_pieces ans). fst p) \<and> concat (map snd (an_pieces ans)) = drop a object"

lemma get_request_ok:
  assumes "conforming object a (client message)" and "\<not> rq_head message"
    and "length object < 2 ^ 64" and "a \<le> length object"
  shows "\<exists>ctx. get_request [] client message = Some ctx \<and> gr_buffer ctx = drop a object \<and>
    gr_range_start ctx = of_nat a \<and> gr_total_size ctx = of_nat (length object)"
proof -
  define ans where "ans = client message"
  note assms = assms[folded ans_def]
  define ctx1 where "ctx1 = s3_get_headers_callback (an_content_length ans) (an_content_range ans)
      (an_status ans) get_request_context_new"
  have c1: "gr_buffer ctx1 = []" "gr_range_start ctx1 = of_nat a" "gr_total_size ctx1 = of_nat (length object)"
    "gr_error_code ctx1 = 0"
    using assms parse_content_range_ok[of a "length object - 1" "length object"]
    by (auto simp: ctx1_def s3_get_headers_callback_def conforming_def get_request_context_new_def Let_def
        split: option.splits)
  have pieces: "\<forall>p \<in> set (an_pieces ans). fst p" "concat (map snd (an_pieces ans)) = drop a object"
    and good: "an_created ans" "an_in_time ans" "an_error ans = 0"
    using assms(1) by (simp_all add: conforming_def)
  show ?thesis
    using deliver_ok[OF pieces(1), of ctx1] c1 pieces(2) good
    unfolding get_request_def answered_def ans_def[symmetric] ctx1_def[symmetric] Let_def
    by (simp add: assms(2) ctx1_def[symmetric] s3_get_finish_callback_def wait_for_completion_def)
qed

text \<open>The last 8 MiB of an object, or all of it.\<close>

abbreviation tail_start :: "bytes \<Rightarrow> nat" where
  "tail_start object \<equiv> length object - 8388608"

lemma fetch_cd_part_ok:
  assumes "conforming object (tail_start object) (client (object_request dl False (Some suffix_range)))"
    and "length object < 2 ^ 64"
  shows "burst_downloader_fetch_cd_part [] client dl =
    Some (drop (tail_start object) object, of_nat (tail_start object), of_nat (length object))"
  using get_request_ok[of _ _ client, OF assms(1) _ assms(2)]
  by (auto simp: burst_downloader_fetch_cd_part_def object_request_def)

end
