(* ===== verification/Part_Requests.thy ===== *)
theory Part_Requests
  imports S3_Requests Cd_Fetch Stream_Processor
begin

text \<open>
  The request of one part, and the parts that are already in memory
  (\<open>src/downloader/s3_operations.c\<close>, lines 549-720 and 805-1187): the context of a streamed request
  with its callbacks, starting a request, and \<open>burst_downloader_extract_concurrent\<close> with the parts
  whose body lies in a segment that was fetched together with the central directory. The concurrent
  phase itself is \<open>Part_Download\<close>; here its outcome is the argument \<open>downloads\<close>.

  A callback that feeds the part processor may not return or may access memory out of bounds; results
  are therefore \<open>None\<close> (does not return), \<open>Some Fault\<close>, or \<open>Some (Ok r)\<close>.
\<close>

type_synonym 'a effect = "(unit, 'a) outcome option"

section \<open>Streaming a part\<close>

datatype request_error = No_error | Stream_error stream_rc | Status_error | Client_error int

record stream_part_context =
  sp_processor :: part_processor_state
  sp_error_code :: request_error
  sp_part_index :: u32

definition stream_part_context_new :: "part_processor_state \<Rightarrow> u32 \<Rightarrow> stream_part_context" where
  "stream_part_context_new processor part_index =
     \<lparr>sp_processor = processor, sp_error_code = No_error, sp_part_index = part_index\<rparr>"

definition s3_stream_headers_callback :: "int \<Rightarrow> stream_part_context \<Rightarrow> stream_part_context" where
  "s3_stream_headers_callback response_status ctx =
     (if response_status < 200 \<or> response_status \<ge> 300 then ctx\<lparr>sp_error_code := Status_error\<rparr> else ctx)"

text \<open>The first component of the result is \<open>AWS_OP_SUCCESS\<close>.\<close>

definition s3_stream_body_callback ::
  "zstd_reader \<Rightarrow> bytes \<Rightarrow> stream_part_context \<Rightarrow> (bool \<times> stream_part_context) effect" where
  "s3_stream_body_callback zr body ctx =
     (case part_processor_process_data zr body (sp_processor ctx) of
        None \<Rightarrow> None
      | Some Crash \<Rightarrow> Some Fault
      | Some (Done rc st) \<Rightarrow>
          Some (Ok (if rc \<noteq> STREAM_PROC_SUCCESS
                    then (False, ctx\<lparr>sp_processor := st, sp_error_code := Stream_error rc\<rparr>)
                    else (True, ctx\<lparr>sp_processor := st\<rparr>))))"

text \<open>The part of the finish callback before the coordinator's mutex is taken.\<close>

definition s3_stream_finish ::
  "int \<Rightarrow> stream_part_context \<Rightarrow> (unit, stream_part_context) outcome" where
  "s3_stream_finish result_code ctx =
     (let ctx1 = (if result_code \<noteq> 0 \<and> sp_error_code ctx = No_error
                  then ctx\<lparr>sp_error_code := Client_error result_code\<rparr> else ctx)
      in if sp_error_code ctx1 = No_error then
           (case part_processor_finalize (sp_processor ctx1) of
              Crash \<Rightarrow> Fault
            | Done rc st \<Rightarrow>
                if rc \<noteq> STREAM_PROC_SUCCESS
                then Ok (ctx1\<lparr>sp_processor := st, sp_error_code := Stream_error rc\<rparr>)
                else Ok (ctx1\<lparr>sp_processor := st\<rparr>))
         else Ok ctx1)"

fun stream_pieces :: "zstd_reader \<Rightarrow> bytes list \<Rightarrow> stream_part_context \<Rightarrow> stream_part_context effect" where
  "stream_pieces zr [] ctx = Some (Ok ctx)"
| "stream_pieces zr (body # pieces) ctx =
     (case s3_stream_body_callback zr body ctx of
        Some (Ok (ok, ctx1)) \<Rightarrow> if ok then stream_pieces zr pieces ctx1 else Some (Ok ctx1)
      | Some (Error e) \<Rightarrow> Some (Error e)
      | Some Fault \<Rightarrow> Some Fault
      | None \<Rightarrow> None)"

text \<open>All callbacks of one request.\<close>

definition stream_answer ::
  "zstd_reader \<Rightarrow> s3_answer \<Rightarrow> stream_part_context \<Rightarrow> stream_part_context effect" where
  "stream_answer zr ans ctx =
     (case stream_pieces zr (map snd (an_pieces ans)) (s3_stream_headers_callback (an_status ans) ctx) of
        Some (Ok ctx1) \<Rightarrow> Some (s3_stream_finish (an_error ans) ctx1)
      | r \<Rightarrow> r)"

section \<open>Starting a request\<close>

definition part_byte_range :: "u64 \<Rightarrow> u32 \<Rightarrow> u64 \<times> u64" where
  "part_byte_range part_size part_index =
     (let start = ucast part_index * part_size in (start, start + part_size - 1))"

text \<open>The result is the context and the message for the client, or \<open>None\<close> after a failure, whose
  clean-up destroys the processor. \<open>created\<close>: the client accepted the request.\<close>

definition start_part_download_async ::
  "downloader \<Rightarrow> central_dir_parse_result \<Rightarrow> u32 \<Rightarrow> bool \<Rightarrow> os_state
     \<Rightarrow> (stream_part_context \<times> http_request) option \<times> os_state" where
  "start_part_download_async dl cd_result part_index created os =
     (case part_processor_create part_index cd_result (dl_output_dir dl) (dl_part_size dl) os of
        (None, os1) \<Rightarrow> (None, os1)
      | (Some processor, os1) \<Rightarrow>
          (case os_alloc os1 of (got_ctx, os2) \<Rightarrow>
             if \<not> got_ctx then (None, part_processor_destroy (processor\<lparr>ps_os := os2\<rparr>))
             else case os_alloc os2 of (got_message, os3) \<Rightarrow>
               if \<not> got_message then (None, part_processor_destroy (processor\<lparr>ps_os := os3\<rparr>))
               else case part_byte_range (dl_part_size dl) part_index of (start, end_incl) \<Rightarrow>
                 if \<not> created then (None, part_processor_destroy (processor\<lparr>ps_os := os3\<rparr>))
                 else (Some (stream_part_context_new (processor\<lparr>ps_os := os3\<rparr>) part_index,
                             object_request dl False (Some (range_value start end_incl))), os3)))"

section \<open>Parts that are in memory\<close>

definition segment_end :: "body_data_segment \<Rightarrow> u64" where
  "segment_end seg = bs_archive_offset seg + of_nat (length (bs_data seg))"

fun find_body_segment_for_offset :: "body_data_segment list \<Rightarrow> u64 \<Rightarrow> body_data_segment option" where
  "find_body_segment_for_offset [] off = None"
| "find_body_segment_for_offset (seg # segs) off =
     (if off \<ge> bs_archive_offset seg \<and> off < segment_end seg then Some seg
      else find_body_segment_for_offset segs off)"

text \<open>The bytes of the part before the central directory.\<close>

definition part_body :: "u64 \<Rightarrow> u64 \<Rightarrow> u64 \<Rightarrow> u64 \<times> u64" where
  "part_body part_size central_dir_offset part_index =
     (let part_start = part_index * part_size;
          part_end = part_start + part_size
      in (part_start, if part_end > central_dir_offset then central_dir_offset else part_end))"

text \<open>Processing one buffer with a fresh processor, as for a part in memory and for an archive of one
  part: nothing is fed when the buffer is empty.\<close>

definition feed_and_finalize ::
  "zstd_reader \<Rightarrow> bytes \<Rightarrow> part_processor_state \<Rightarrow> (int \<times> os_state) effect" where
  "feed_and_finalize zr data st =
     (case (if data \<noteq> [] then part_processor_process_data zr data st
            else Some (Done STREAM_PROC_SUCCESS st)) of
        None \<Rightarrow> None
      | Some Crash \<Rightarrow> Some Fault
      | Some (Done rc st1) \<Rightarrow>
          if rc \<noteq> STREAM_PROC_SUCCESS then Some (Ok (-1, part_processor_destroy st1))
          else (case part_processor_finalize st1 of
                  Crash \<Rightarrow> Some Fault
                | Done rc2 st2 \<Rightarrow>
                    Some (Ok (if rc2 = STREAM_PROC_SUCCESS then 0 else -1, part_processor_destroy st2))))"

definition process_part_with_body_data ::
  "zstd_reader \<Rightarrow> downloader \<Rightarrow> central_dir_parse_result \<Rightarrow> u32 \<Rightarrow> body_data_segment \<Rightarrow> u64
     \<Rightarrow> os_state \<Rightarrow> (int \<times> os_state) effect" where
  "process_part_with_body_data zr dl cd_result part_index segment central_dir_offset os =
     (case part_body (dl_part_size dl) central_dir_offset (ucast part_index) of (part_start, part_end) \<Rightarrow>
        if part_start \<ge> part_end then Some (Ok (0, os))
        else case part_processor_create part_index cd_result (dl_output_dir dl) (dl_part_size dl) os of
          (None, os1) \<Rightarrow> Some (Ok (-1, os1))
        | (Some processor, os1) \<Rightarrow>
            let seg_start = bs_archive_offset segment;
                seg_end = segment_end segment;
                overlap_start = (if part_start > seg_start then part_start else seg_start);
                overlap_end = (if part_end < seg_end then part_end else seg_end)
            in if overlap_start < overlap_end then
                 let offset_in_segment = unat (overlap_start - seg_start);
                     data_size = unat (overlap_end - overlap_start)
                 in if offset_in_segment + data_size > length (bs_data segment) then Some Fault
                    else feed_and_finalize zr (take data_size (drop offset_in_segment (bs_data segment))) processor
               else feed_and_finalize zr [] processor)"

section \<open>The concurrent extraction\<close>

text \<open>\<open>part_has_full_body_data[p]\<close>: some segment contains the whole body of the part.\<close>

definition part_has_full_body_data ::
  "u64 \<Rightarrow> u64 \<Rightarrow> body_data_segment list \<Rightarrow> nat \<Rightarrow> bool" where
  "part_has_full_body_data part_size central_dir_offset segs p =
     (case part_body part_size central_dir_offset (of_nat p) of (part_start, part_body_end) \<Rightarrow>
        part_start < part_body_end \<and>
        list_ex (\<lambda>seg. bs_archive_offset seg \<le> part_start \<and> segment_end seg \<ge> part_body_end) segs)"

text \<open>The loop after the downloads; it ends at the first error.\<close>

fun process_covered ::
  "zstd_reader \<Rightarrow> downloader \<Rightarrow> central_dir_parse_result \<Rightarrow> body_data_segment list \<Rightarrow> bool list \<Rightarrow> nat
     \<Rightarrow> os_state \<Rightarrow> (int \<times> os_state) effect" where
  "process_covered zr dl cd_result segs [] p os = Some (Ok (0, os))"
| "process_covered zr dl cd_result segs (covered # rest) p os =
     (if \<not> covered then process_covered zr dl cd_result segs rest (p + 1) os
      else case find_body_segment_for_offset segs (of_nat p * dl_part_size dl) of
             None \<Rightarrow> process_covered zr dl cd_result segs rest (p + 1) os
           | Some seg \<Rightarrow>
               (case process_part_with_body_data zr dl cd_result (of_nat p) seg
                       (cp_central_dir_offset cd_result) os of
                  Some (Ok (result, os1)) \<Rightarrow>
                    if result = 0 then process_covered zr dl cd_result segs rest (p + 1) os1
                    else Some (Ok (result, os1))
                | r \<Rightarrow> r))"

text \<open>\<open>downloads\<close> takes the parts with full body data to the first error code of the coordinator and the
  state of the system when the main thread has joined.\<close>

definition burst_downloader_extract_concurrent ::
  "zstd_reader \<Rightarrow> downloader \<Rightarrow> central_dir_parse_result \<Rightarrow> body_data_segment list
     \<Rightarrow> (bool list \<Rightarrow> os_state \<Rightarrow> int \<times> os_state) \<Rightarrow> os_state \<Rightarrow> (int \<times> os_state) effect" where
  "burst_downloader_extract_concurrent zr dl cd_result segs downloads os =
     (let num_parts = length (cp_parts cd_result)
      in if num_parts \<le> 1 then Some (Ok (-1, os))
         else case os_alloc os of (got_bitmap, os1) \<Rightarrow>
           if \<not> got_bitmap then Some (Ok (-1, os1))
           else
             let covered = map (part_has_full_body_data (dl_part_size dl) (cp_central_dir_offset cd_result) segs)
                             [0..<num_parts]
             in case os_alloc os1 of (got_contexts, os2) \<Rightarrow>
                  if \<not> got_contexts then Some (Ok (-1, os2))
                  else case downloads covered os2 of (result, os3) \<Rightarrow>
                    if result = 0 \<and> segs \<noteq> [] then process_covered zr dl cd_result segs covered 0 os3
                    else Some (Ok (result, os3)))"

section \<open>A part in memory is processed like its bytes in the archive\<close>

text \<open>The segments are disjoint pieces of the archive.\<close>

definition segments_of :: "bytes \<Rightarrow> body_data_segment list \<Rightarrow> bool" where
  "segments_of archive segs \<longleftrightarrow>
     (\<forall>seg \<in> set segs. unat (bs_archive_offset seg) + length (bs_data seg) \<le> length archive \<and>
        bs_data seg = take (length (bs_data seg)) (drop (unat (bs_archive_offset seg)) archive)) \<and>
     (\<forall>a \<in> set segs. \<forall>b \<in> set segs. a \<noteq> b \<longrightarrow>
        segment_end a \<le> bs_archive_offset b \<or> segment_end b \<le> bs_archive_offset a)"

lemma unat_segment_end:
  assumes "unat (bs_archive_offset seg) + length (bs_data seg) \<le> n" and "n < 2 ^ 64"
  shows "unat (segment_end seg) = unat (bs_archive_offset seg) + length (bs_data seg)"
  using assms by (simp add: segment_end_def unat_word_ariths unat_of_nat)

lemma find_body_segment_first:
  assumes "seg \<in> set segs" and "bs_archive_offset seg \<le> off" and "off < segment_end seg"
  shows "\<exists>s. find_body_segment_for_offset segs off = Some s \<and> s \<in> set segs \<and>
           bs_archive_offset s \<le> off \<and> off < segment_end s"
  using assms by (induction segs) auto

lemma find_body_segment_covering:
  assumes "segments_of archive segs" and "seg \<in> set segs" and "bs_archive_offset seg \<le> off"
    and "off < segment_end seg"
  shows "find_body_segment_for_offset segs off = Some seg"
proof -
  from find_body_segment_first[OF assms(2-4)]
  obtain s where s: "find_body_segment_for_offset segs off = Some s" "s \<in> set segs"
    "bs_archive_offset s \<le> off" "off < segment_end s" by blast
  have "s = seg"
  proof (rule ccontr)
    assume "s \<noteq> seg"
    then have "segment_end s \<le> bs_archive_offset seg \<or> segment_end seg \<le> bs_archive_offset s"
      using assms(1,2) s(2) by (auto simp: segments_of_def)
    then show False using s(3,4) assms(3,4) by (meson leD order.trans)
  qed
  then show ?thesis using s(1) by simp
qed

lemma unat_part_body:
  assumes "(p + 1) * unat part_size < 2 ^ 64"
  shows "unat (fst (part_body part_size cdo (of_nat p))) = p * unat part_size"
    and "unat (snd (part_body part_size cdo (of_nat p))) = min ((p + 1) * unat part_size) (unat cdo)"
proof -
  have le: "p * unat part_size \<le> (p + 1) * unat part_size" by simp
  show u: "unat (fst (part_body part_size cdo (of_nat p))) = p * unat part_size"
  proof (cases "unat part_size = 0")
    case True
    then show ?thesis by (simp add: part_body_def Let_def unat_eq_0)
  next
    case False
    then have "p \<le> p * unat part_size" by simp
    then have "p < 2 ^ 64" using assms le by (meson le_less_trans)
    then have "unat (of_nat p :: u64) = p" by (simp add: unat_of_nat)
    then show ?thesis
      using assms le by (simp add: part_body_def Let_def unat_word_ariths)
  qed
  have v: "unat (of_nat p * part_size) = p * unat part_size"
    using u by (simp add: part_body_def Let_def)
  have "unat (of_nat p * part_size + part_size) = (p * unat part_size + unat part_size) mod 2 ^ LENGTH(64)"
    unfolding unat_word_ariths(1) v by simp
  moreover have "(p + 1) * unat part_size = p * unat part_size + unat part_size" by simp
  ultimately have "unat (of_nat p * part_size + part_size) = (p + 1) * unat part_size"
    using assms by simp
  then show "unat (snd (part_body part_size cdo (of_nat p))) = min ((p + 1) * unat part_size) (unat cdo)"
    by (auto simp: part_body_def Let_def word_less_nat_alt)
qed

text \<open>The body of part \<open>p\<close> in the archive.\<close>

definition part_bytes :: "u64 \<Rightarrow> u64 \<Rightarrow> bytes \<Rightarrow> nat \<Rightarrow> bytes" where
  "part_bytes part_size central_dir_offset archive p =
     (let a = p * unat part_size; b = min ((p + 1) * unat part_size) (unat central_dir_offset)
      in take (b - a) (drop a archive))"

lemma segment_covers:
  assumes segs: "segments_of archive segs" and len: "length archive < 2 ^ 64"
    and ps: "(p + 1) * unat part_size < 2 ^ 64"
    and pb: "part_body part_size cdo (of_nat p) = (s, e)" "s < e"
    and seg: "seg \<in> set segs" "bs_archive_offset seg \<le> s" "e \<le> segment_end seg"
  defines "k \<equiv> unat (s - bs_archive_offset seg)"
  shows "k + unat (e - s) \<le> length (bs_data seg)"
    and "take (unat (e - s)) (drop k (bs_data seg)) = part_bytes part_size cdo archive p"
proof -
  define a where "a = p * unat part_size"
  define b where "b = min ((p + 1) * unat part_size) (unat cdo)"
  have u: "unat s = a" "unat e = b" using unat_part_body[OF ps, of cdo] pb by (simp_all add: a_def b_def)
  let ?o = "unat (bs_archive_offset seg)" and ?d = "bs_data seg"
  have d: "?o + length ?d \<le> length archive" "?d = take (length ?d) (drop ?o archive)"
    using segs seg(1) by (auto simp: segments_of_def)
  note se = unat_segment_end[OF d(1) len]
  have o: "?o \<le> a" "b \<le> ?o + length ?d" "a < b"
    using seg(2,3) pb(2) u se by (simp_all add: word_le_nat_alt word_less_nat_alt)
  have un: "k = a - ?o" "unat (e - s) = b - a"
    using seg(2) pb(2) u by (simp_all add: k_def unat_sub_if' word_le_nat_alt word_less_nat_alt)
  show "k + unat (e - s) \<le> length ?d" using o un by simp
  have "take (b - a) (drop (a - ?o) ?d) = take (b - a) (drop (a - ?o) (take (length ?d) (drop ?o archive)))"
    using d(2) by simp
  also have "\<dots> = take (b - a) (drop a archive)"
    using o by (simp add: drop_take)
  finally show "take (unat (e - s)) (drop k ?d) = part_bytes part_size cdo archive p"
    by (simp add: un part_bytes_def Let_def a_def b_def)
qed

lemma covered_part_bytes:
  assumes segs: "segments_of archive segs" and len: "length archive < 2 ^ 64"
    and ps: "(p + 1) * unat (dl_part_size dl) < 2 ^ 64" and idx: "p < 2 ^ 32"
    and cov: "part_has_full_body_data (dl_part_size dl) cdo segs p"
  shows "\<exists>seg. find_body_segment_for_offset segs (of_nat p * dl_part_size dl) = Some seg \<and>
    process_part_with_body_data zr dl cd_result (of_nat p) seg cdo os =
      (case part_processor_create (of_nat p) cd_result (dl_output_dir dl) (dl_part_size dl) os of
         (None, os1) \<Rightarrow> Some (Ok (-1, os1))
       | (Some st, os1) \<Rightarrow> feed_and_finalize zr (part_bytes (dl_part_size dl) cdo archive p) st)"
proof -
  obtain s e where pb: "part_body (dl_part_size dl) cdo (of_nat p) = (s, e)" by fastforce
  have s: "s = of_nat p * dl_part_size dl" using pb by (simp add: part_body_def Let_def)
  obtain seg where seg: "seg \<in> set segs" "bs_archive_offset seg \<le> s" "e \<le> segment_end seg" and lt: "s < e"
    using cov pb by (auto simp: part_has_full_body_data_def list_ex_iff)
  have "s < segment_end seg" using lt seg(3) by simp
  note found = find_body_segment_covering[OF segs seg(1,2) this]
  note cover = segment_covers[OF segs len ps pb lt seg]
  have ov: "(if bs_archive_offset seg < s then s else bs_archive_offset seg) = s"
    "(if e < segment_end seg then e else segment_end seg) = e"
    using seg(2,3) by auto
  have idx32: "(ucast (of_nat p :: u32) :: u64) = of_nat p"
    using idx by (simp add: unsigned_of_nat take_bit_nat_eq_self)
  show ?thesis
    using found lt cover
    by (intro exI[of _ seg])
      (auto simp: process_part_with_body_data_def idx32 pb s[symmetric] ov Let_def split: option.splits prod.splits)
qed

text \<open>The reference: every part of the list is cut out of the archive and processed with a processor
  of its own; the first failure ends it.\<close>

fun process_from_archive ::
  "zstd_reader \<Rightarrow> downloader \<Rightarrow> central_dir_parse_result \<Rightarrow> bytes \<Rightarrow> nat list \<Rightarrow> os_state
     \<Rightarrow> (int \<times> os_state) effect" where
  "process_from_archive zr dl cd archive [] os = Some (Ok (0, os))"
| "process_from_archive zr dl cd archive (p # ps) os =
     (case (case part_processor_create (of_nat p) cd (dl_output_dir dl) (dl_part_size dl) os of
              (None, os1) \<Rightarrow> Some (Ok (-1, os1))
            | (Some st, os1) \<Rightarrow>
                feed_and_finalize zr (part_bytes (dl_part_size dl) (cp_central_dir_offset cd) archive p) st) of
        Some (Ok (result, os1)) \<Rightarrow>
          if result = 0 then process_from_archive zr dl cd archive ps os1 else Some (Ok (result, os1))
      | r \<Rightarrow> r)"

lemma part_end_bound: "p < n \<Longrightarrow> n * x < 2 ^ 64 \<Longrightarrow> (p + 1) * x < (2 ^ 64 :: nat)"
  by (metis Suc_eq_plus1 Suc_leI le_less_trans mult_le_mono1)

lemma process_covered_reference:
  fixes cd :: central_dir_parse_result
  assumes "segments_of archive segs" and "length archive < 2 ^ 64"
    and "n * unat (dl_part_size dl) < 2 ^ 64" and "n \<le> 2 ^ 32"
  defines "P \<equiv> part_has_full_body_data (dl_part_size dl) (cp_central_dir_offset cd) segs"
  shows "k \<le> n \<Longrightarrow> process_covered zr dl cd segs (map P [k..<n]) k os =
    process_from_archive zr dl cd archive (filter P [k..<n]) os"
proof (induction "n - k" arbitrary: k os)
  case (Suc m)
  then have k: "k < n" "[k..<n] = k # [Suc k..<n]" by (simp_all add: upt_conv_Cons)
  have IH: "process_covered zr dl cd segs (map P [Suc k..<n]) (Suc k) os =
      process_from_archive zr dl cd archive (filter P [Suc k..<n]) os" for os
    using Suc(1)[of "Suc k"] Suc(2) k(1) by simp
  show ?case
  proof (cases "P k")
    case False
    then show ?thesis using k(2) IH by simp
  next
    case True
    have "k < 2 ^ 32" using k(1) assms(4) by simp
    from covered_part_bytes[OF assms(1,2) part_end_bound[OF k(1) assms(3)] this, of "cp_central_dir_offset cd" zr cd os]
      True
    obtain seg where "find_body_segment_for_offset segs (of_nat k * dl_part_size dl) = Some seg"
      and "process_part_with_body_data zr dl cd (of_nat k) seg (cp_central_dir_offset cd) os =
        (case part_processor_create (of_nat k) cd (dl_output_dir dl) (dl_part_size dl) os of
           (None, os1) \<Rightarrow> Some (Ok (-1, os1))
         | (Some st, os1) \<Rightarrow> feed_and_finalize zr (part_bytes (dl_part_size dl) (cp_central_dir_offset cd) archive k) st)"
      by (auto simp: P_def)
    then show ?thesis
      using k(2) True IH by (simp split: option.splits outcome.splits prod.splits)
  qed
qed simp

end
