(* ===== verification/Part_Pieces.thy ===== *)
theory Part_Pieces
  imports Placed_Records Part_Requests
begin

text \<open>
  One part of an archive of the writer, through the part processor: it leaves the pieces of exactly the
  records that overlap the part.
\<close>

section \<open>From the first record that begins in the part\<close>

lemma starting_Cons:
  "starting a b (c # cs) = (if a \<le> pl_head c \<and> pl_head c < b then [pl_entry c] else []) @ starting a b cs"
  by (simp add: starting_def)

lemma pieces_Cons:
  "pieces a b (c # cs) =
   (if pl_head c < b \<and> a < pl_end c then [(pl_item c, pl_sent c a, pl_sent c b)] else []) @ pieces a b cs"
  by (simp add: pieces_def)

lemma nothing_starts:
  assumes "places zr fopen part_len S x cs y" and "b \<le> x"
  shows "starting a b cs = []" and "pieces a b cs = []"
proof -
  have "b \<le> pl_head c" if "c \<in> set cs" for c
    using places_bounds(2)[OF assms(1) that] placed_start(1)[of zr fopen part_len S c] assms(2) by linarith
  then show "starting a b cs = []" "pieces a b cs = []"
    by (fastforce simp: starting_def pieces_def filter_empty_conv)+
qed

lemma expects_none:
  assumes "expects part_len st []"
  shows "length (pf_entries (this_part st)) \<le> ps_next_entry_idx st"
  using assms by (simp add: expects_def)

lemma records_walk:
  assumes "places zr fopen part_len S x cs y" and "a mod PART = 0" and "b mod PART = 0" and "y \<le> length S"
    and "\<forall>c \<in> set cs. a \<le> pl_head c"
    and "ready st" and "ps_frame_buffer st = []" and "ps_output_dir st = dir"
    and "expects part_len (settled st) (starting a b cs)"
    and "workable dir its (ps_os (settled st))" and "compatible dir its" and "pl_item ` set cs \<subseteq> set its"
    and "ps_part_start_offset (settled st) + ps_bytes_processed (settled st) = of_nat (max x a)"
  shows "\<exists>os'. loop_ends zr (pre @ archive_slice S (max x a) (min y b)) (length pre) st os' \<and>
    applied fopen dir (ps_os (settled st)) (pieces a b cs) os' \<and> workable dir its os'"
  using assms
proof (induction cs arbitrary: x st pre)
  case Nil
  have "archive_slice S (max x a) (min y b) = []" using Nil.prems(1) by simp
  then show ?case
    using loop_ends_ready[OF Nil.prems(6,7), of zr pre] Nil.prems(10)
    by (intro exI[of _ "ps_os (settled st)"]) (simp add: pieces_def applied.none)
next
  case (Cons c cs)
  let ?h = "pl_head c" and ?t = "pl_end c" and ?os = "ps_os (settled st)"
  have x: "pl_start c = x" and p: "placed zr fopen part_len S c" and tail: "places zr fopen part_len S ?t cs y"
    using Cons.prems(1) by simp_all
  note s = placed_start[OF p, unfolded x] and ht = placedE(4)[OF p]
  have ty: "?t \<le> y" using places_bounds(1)[OF tail] .
  have ah: "a \<le> ?h" using Cons.prems(5) by simp
  have same: "\<exists>os'. loop_ends zr (pre @ archive_slice S (max x a) (min y b)) (length pre) st os' \<and>
      applied fopen dir ?os (pieces a b (c # cs)) os' \<and> workable dir its os'"
    if "loop_ends zr (pre @ archive_slice S (max x a) (min y b)) (length pre) st ?os" "b \<le> ?h"
  proof -
    have "pieces a b (c # cs) = []"
      using that(2) nothing_starts(2)[OF tail] ht by (simp add: pieces_Cons)
    then show ?thesis using that(1) Cons.prems(10) applied.none by fastforce
  qed
  consider (beyond) "b \<le> max x a" | (padding) "max x a < b" "b \<le> ?h" | (here) "?h < b" by linarith
  then show ?case
  proof cases
    case beyond
    then have "archive_slice S (max x a) (min y b) = []" by simp
    moreover have "b \<le> ?h" using beyond s(1) ah by simp
    ultimately show ?thesis using same loop_ends_ready[OF Cons.prems(6,7), of zr pre] by simp
  next
    case padding
    then have hx: "?h = x + room x" using s(2) by simp
    have hb: "?h = b" using boundary_after[of b x] padding hx Cons.prems(3) by simp
    have ax: "a \<le> x"
    proof (rule ccontr)
      assume "\<not> a \<le> x"
      then have "x + room x \<le> a" using boundary_after[of a x] Cons.prems(2) by simp
      then show False using padding(1) hx hb by simp
    qed
    obtain s' ct need where sp: "length s' = x" "entry_start s'" "need \<le> 65536"
        "archive_slice S x ?h = entry_padding ct x need" "x + length (entry_padding ct x need) = ?h"
      using placed_padding[OF p] x by metis
    have "room x < need"
    proof (rule ccontr)
      assume "\<not> room x < need"
      then have "room x = 0" using sp(5) hx by (simp add: entry_padding_def)
      then show False using room_bounds(1)[of x] by (metis less_irrefl)
    qed
    then have pad: "archive_slice S x ?h = padding_lfh ct (room x)"
      using sp(4) by (simp add: entry_padding_def)
    have "44 \<le> room x" using sp(1,2) by (simp add: entry_start_def)
    moreover have "starting a b (c # cs) = []"
      using hb nothing_starts(1)[OF tail] ht by (simp add: starting_Cons)
    ultimately have "loop_ends zr (pre @ padding_lfh ct (room x)) (length pre) st ?os"
      using Cons.prems(9) expects_none by (intro loop_ends_padding[OF Cons.prems(6,7)]) simp_all
    moreover have "max x a = x" "min y b = ?h" using ax hb ht ty by simp_all
    ultimately show ?thesis using same pad hb by simp
  next
    case here
    obtain s' ct need where sp: "length s' = x" "entry_start s'" "need \<le> 65536"
        "archive_slice S x ?h = entry_padding ct x need" "x + length (entry_padding ct x need) = ?h"
      using placed_padding[OF p] x by metis
    have exp: "expects part_len (settled st) (pl_entry c # starting a b cs)"
      using Cons.prems(9) here ah by (simp add: starting_Cons)
    let ?d0 = "archive_slice S (max x a) ?h" and ?d1 = "archive_slice S ?h (min ?t b)"
      and ?d2 = "archive_slice S ?t (min y b)"
    have data: "archive_slice S (max x a) (min y b) = ?d0 @ ?d1 @ ?d2"
    proof (cases "?t \<le> b")
      case True
      then show ?thesis
        using slice_append[of "max x a" ?h "min y b" S] slice_append[of ?h ?t "min y b" S] s(1) ah here ht ty by simp
    next
      case False
      then show ?thesis
        using slice_append[of "max x a" ?h "min y b" S] s(1) ah here ty by simp
    qed
    have l0: "leaves zr pre ?d0 (?d1 @ ?d2) st 0 ?os \<and> max x a + length ?d0 = ?h"
    proof (cases "a \<le> x")
      case True
      have "ps_next_entry_idx (settled st) < length (pf_entries (this_part (settled st)))"
        using expects_Cons(1)[OF exp] .
      from entry_padding_leaves[OF Cons.prems(6) sp(2,3) this, of zr pre ct "?d1 @ ?d2"]
      show ?thesis using True sp(1,4,5) by (simp add: max_def)
    next
      case False
      then have "x + room x \<le> a" using boundary_after[of a x] Cons.prems(2) by simp
      then have "?h = a" using s ah False by (cases "x < ?h") simp_all
      moreover have "settled st = after_files (settled st) 0 0 ?os" by (cases "settled st") (simp add: after_files_def)
      ultimately show ?thesis using False Cons.prems(6) by (simp add: leavesI[where st' = st])
    qed
    let ?it = "pl_item c"
    have it: "?it \<in> set its" using Cons.prems(12) by simp
    have idl: "idle ?os" "item_creatable ?os dir ?it" using Cons.prems(10) it by (simp_all add: workable_def)
    obtain st1 where e1: "process_loop zr (pre @ ?d0 @ ?d1 @ ?d2) (length pre) st =
        process_loop zr (pre @ ?d0 @ ?d1 @ ?d2) (length pre + length ?d0) st1"
      and r1: "ready st1" "settled st1 = after_files (settled st) 0 (length ?d0) ?os"
      using l0 by (auto simp: leaves_def)
    have o1: "ps_output_dir st1 = dir"
      using settled_fields(4)[OF r1(1)] settled_fields(4)[OF Cons.prems(6)] r1(2) Cons.prems(8) by simp
    have p1: "ps_part_start_offset (settled st1) + ps_bytes_processed (settled st1) = of_nat ?h"
      using Cons.prems(13) l0 r1(2) by (simp add: add.assoc[symmetric] of_nat_add[symmetric] del: of_nat_add)
    have exp1: "expects part_len (settled st1) (pl_entry c # starting a b cs)"
      using exp r1(2) by (simp add: expects_def after_files_def)
    from opening_placed[OF p Cons.prems(3) here ah r1(1) exp1 _ _ p1, of "pre @ ?d0" ?d2] o1 idl r1(2)
    obtain os1 where lv: "leaves zr (pre @ ?d0) ?d1 ?d2 st1 1 os1"
      and ps: "piece_step fopen dir ?os ?it (pl_sent c a) (pl_sent c b) os1" by auto
    have w1: "workable dir its os1" using piece_step_workable[OF ps Cons.prems(10,11) it] .
    obtain st2 where e2: "process_loop zr (pre @ ?d0 @ ?d1 @ ?d2) (length pre + length ?d0) st1 =
        process_loop zr (pre @ ?d0 @ ?d1 @ ?d2) (length pre + length ?d0 + length ?d1) st2"
      and r2: "ready st2" "settled st2 = after_files (settled st1) 1 (length ?d1) os1"
      using lv by (auto simp: leaves_def)
    have o2: "ps_output_dir st2 = dir"
      using settled_fields(4)[OF r2(1)] settled_fields(4)[OF r1(1)] r2(2) o1 by simp
    have fb: "ps_frame_buffer st2 = []"
      using settled_fields(3)[OF r2(1)] settled_fields(3)[OF r1(1)] settled_fields(3)[OF Cons.prems(6)]
        r2(2) r1(2) Cons.prems(7) by simp
    have "\<exists>os2. loop_ends zr ((pre @ ?d0 @ ?d1) @ ?d2) (length (pre @ ?d0 @ ?d1)) st2 os2 \<and>
        applied fopen dir os1 (pieces a b cs) os2 \<and> workable dir its os2"
    proof (cases "?t \<le> b")
      case True
      have mt: "max ?t a = ?t" using ht ah by simp
      have "?t \<le> length S" using ty Cons.prems(4) by simp
      then have l1: "?h + length ?d1 = ?t" using True ht by (simp add: length_slice)
      have p2: "ps_part_start_offset (settled st2) + ps_bytes_processed (settled st2) = of_nat (max ?t a)"
      proof -
        have "(of_nat ?t :: u64) = of_nat ?h + of_nat (length ?d1)" using l1 by (metis of_nat_add)
        then show ?thesis unfolding mt r2(2) using p1 by (simp add: add.assoc[symmetric])
      qed
      have ex2: "expects part_len (settled st2) (starting a b cs)"
        unfolding r2(2) by (rule expects_Cons(3)[OF exp1])
      have w2: "workable dir its (ps_os (settled st2))" using w1 r2(2) by simp
      have hd: "\<forall>c \<in> set cs. a \<le> pl_head c" and sub: "pl_item ` set cs \<subseteq> set its"
        using Cons.prems(5,12) by simp_all
      from Cons.IH[OF tail Cons.prems(2-4) hd r2(1) fb o2 ex2 w2 Cons.prems(11) sub p2, of "pre @ ?d0 @ ?d1"]
      show ?thesis unfolding mt r2(2) by simp
    next
      case False
      then have "?d2 = []" "pieces a b cs = []" using nothing_starts(2)[OF tail] by simp_all
      then show ?thesis
        using loop_ends_ready[OF r2(1) fb, of zr "pre @ ?d0 @ ?d1"] r2(2) w1 by (auto intro: applied.none)
    qed
    then obtain os2 where os2: "loop_ends zr (pre @ ?d0 @ ?d1 @ ?d2) (length pre + length ?d0 + length ?d1) st2 os2"
      "applied fopen dir os1 (pieces a b cs) os2" "workable dir its os2" by (auto simp: add.assoc)
    have "loop_ends zr (pre @ ?d0 @ ?d1 @ ?d2) (length pre) st os2"
      using os2(1) unfolding loop_ends_def e1 e2 .
    moreover have "applied fopen dir ?os (pieces a b (c # cs)) os2"
      using ps os2(2) here ah ht by (auto simp: pieces_Cons intro: applied.step)
    ultimately show ?thesis using os2(3) data by auto
  qed
qed

section \<open>A whole part\<close>

text \<open>The continuing file of the part is the record that reaches over its start, if there is one.\<close>

definition continues_right :: "u64 \<Rightarrow> place list \<Rightarrow> nat \<Rightarrow> part_processor_state \<Rightarrow> bool" where
  "continues_right part_len cs a st \<longleftrightarrow>
     (case pf_continuing_file (this_part st) of
        None \<Rightarrow> \<forall>c \<in> set cs. \<not> (pl_head c < a \<and> a < pl_end c)
      | Some i \<Rightarrow> \<exists>c \<in> set cs. pl_head c < a \<and> a < pl_end c \<and> cp_files (ps_cd_result st) ! i = metadata_of part_len (pl_entry c))"

lemma before_part:
  assumes "places zr fopen part_len S x cs y" and "y \<le> a"
  shows "starting a b cs = []" and "pieces a b cs = []" and "c \<in> set cs \<Longrightarrow> pl_head c < a \<and> \<not> a < pl_end c"
proof -
  have c: "pl_head c < a \<and> \<not> a < pl_end c" if "c \<in> set cs" for c
    using places_bounds(2)[OF assms(1) that] placedE(4)[of zr fopen part_len S c] assms(2) by fastforce
  then show "c \<in> set cs \<Longrightarrow> pl_head c < a \<and> \<not> a < pl_end c" by blast
  show "starting a b cs = []" "pieces a b cs = []"
    using c by (fastforce simp: starting_def pieces_def filter_empty_conv)+
qed

lemma after_part:
  assumes "places zr fopen part_len S x cs y" and "a < x" and "c \<in> set cs"
  shows "a < pl_head c"
  using places_bounds(2)[OF assms(1,3)] placed_start(1)[of zr fopen part_len S c] assms(2) by linarith

lemma starting_append: "starting a b (cs @ ds) = starting a b cs @ starting a b ds"
  by (simp add: starting_def)

lemma pieces_append: "pieces a b (cs @ ds) = pieces a b cs @ pieces a b ds"
  by (simp add: pieces_def)

lemma part_leaves_pieces:
  assumes pl: "places zr fopen part_len S 0 cs y" and y: "y \<le> length S"
    and ab: "a mod PART = 0" "b mod PART = 0" "a < y" "a < b"
    and st: "ps_state st = STATE_INIT" "ps_current_file st = None" "ps_frame_buffer st = []" "ps_output_dir st = dir"
    and ex: "expects part_len (settled st) (starting a b cs)" and cont: "continues_right part_len cs a st"
    and os: "workable dir its (ps_os st)" "compatible dir its" "pl_item ` set cs \<subseteq> set its"
    and pos: "ps_part_start_offset st + ps_bytes_processed st = of_nat a"
  shows "\<exists>os'. feed_and_finalize zr (archive_slice S a (min y b)) st = Some (Ok (0, os')) \<and>
    applied fopen dir (ps_os st) (pieces a b cs) os' \<and> workable dir its os'"
proof -
  let ?d = "archive_slice S a (min y b)"
  have sst: "settled st = st\<lparr>ps_state := STATE_EXPECT_LOCAL_HEADER\<rparr>" using settled_none[OF st(2)] .
  have ne: "?d \<noteq> []" using ab(3,4) y by (simp add: archive_slice_def)
  obtain cs1 c cs2 where cs: "cs = cs1 @ c # cs2" and pl1: "places zr fopen part_len S 0 cs1 (pl_start c)"
    and pl2: "places zr fopen part_len S (pl_start c) (c # cs2) y" and ac: "pl_start c \<le> a" "a < pl_end c"
    using places_at[OF pl _ ab(3)] by auto
  have p: "placed zr fopen part_len S c" and tail: "places zr fopen part_len S (pl_end c) cs2 y" using pl2 by simp_all
  note b1 = before_part[OF pl1 ac(1)]
  note b2 = after_part[OF tail ac(2)]
  have st1: "starting a b cs = starting a b (c # cs2)" and ps1: "pieces a b cs = pieces a b (c # cs2)"
    using b1(1,2) by (simp_all add: cs starting_append pieces_append)
  have sub: "pl_item ` set (c # cs2) \<subseteq> set its" using os(3) by (auto simp: cs)
  have "\<exists>os'. loop_ends zr ?d 0 st os' \<and> applied fopen dir (ps_os st) (pieces a b cs) os' \<and> workable dir its os'"
  proof (cases "pl_head c < a")
    case True
    have only: "d = c" if "d \<in> set cs" "pl_head d < a" "a < pl_end d" for d
    proof -
      from that(1) cs consider "d \<in> set cs1" | "d = c" | "d \<in> set cs2" by auto
      then show ?thesis using b1(3) b2 that(2,3) by cases fastforce+
    qed
    have "\<exists>i. pf_continuing_file (this_part st) = Some i \<and> cp_files (ps_cd_result st) ! i = metadata_of part_len (pl_entry c)"
    proof (cases "pf_continuing_file (this_part st)")
      case None
      then have "\<not> (pl_head c < a \<and> a < pl_end c)" using cont cs by (simp add: continues_right_def)
      then show ?thesis using True ac(2) by simp
    next
      case (Some i)
      then obtain d where "d \<in> set cs" "pl_head d < a" "a < pl_end d"
        "cp_files (ps_cd_result st) ! i = metadata_of part_len (pl_entry d)"
        using cont by (auto simp: continues_right_def)
      then show ?thesis using Some only[of d] by simp
    qed
    then obtain i where i: "pf_continuing_file (this_part st) = Some i"
      "cp_files (ps_cd_result st) ! i = metadata_of part_len (pl_entry c)" by blast
    let ?it = "pl_item c" and ?t = "pl_end c" and ?os = "ps_os st"
    have data: "has_data ?it" using placed_crossing[OF p ab(1) True ac(2)] .
    then obtain q all where r: "file_at_range zr S (pl_head c) q ?t all (item_content fopen ?it)
        (fm_uses_zip64_descriptor (metadata_of part_len (pl_entry c)))" and sent: "pl_sent c = (\<lambda>b. sent b q all)"
      using p by (auto simp: placed_def Let_def)
    have it: "?it \<in> set its" using sub by simp
    have idl: "idle ?os" "item_creatable ?os (ps_output_dir st) ?it" using os(1) it st(4) by (simp_all add: workable_def)
    let ?d1 = "archive_slice S a (min ?t b)" and ?d2 = "archive_slice S ?t (min y b)"
    from resuming_part[OF r placedE(3)[OF p] ab(1) True ac(2) ab(2,4) data placedE(1,2)[OF p] refl st(1,2) i idl pos,
        of "[]" ?d2]
    obtain os1 where lv: "leaves zr [] ?d1 ?d2 st 0 os1"
      and ps: "piece_step fopen dir ?os ?it (pl_sent c a) (pl_sent c b) os1" unfolding sent st(4) by blast
    have ty: "?t \<le> y" using places_bounds(1)[OF tail] .
    have d: "?d = ?d1 @ ?d2"
      using slice_append[of a ?t "min y b" S] ac(2) ty by (cases "?t \<le> b") simp_all
    obtain st1 where e1: "process_loop zr ?d 0 st = process_loop zr ?d (length ?d1) st1"
      and r1: "ready st1" "settled st1 = after_files (settled st) 0 (length ?d1) os1"
      using lv d by (auto simp: leaves_def)
    have w1: "workable dir its os1" using piece_step_workable[OF ps os(1,2) it] .
    have o1: "ps_output_dir st1 = dir" "ps_frame_buffer st1 = []"
      using settled_fields(3,4)[OF r1(1)] r1(2) st(3,4) sst by simp_all
    have ex1: "expects part_len (settled st1) (starting a b cs2)"
      using ex st1 True r1(2) by (simp add: starting_Cons expects_def after_files_def)
    have "\<exists>os2. loop_ends zr (?d1 @ ?d2) (length ?d1) st1 os2 \<and> applied fopen dir os1 (pieces a b cs2) os2 \<and>
        workable dir its os2"
    proof (cases "?t \<le> b")
      case True
      have l: "a + length ?d1 = ?t" using True ac(2) ty y by (simp add: length_slice)
      have "ps_part_start_offset (settled st1) + ps_bytes_processed (settled st1) = of_nat (max ?t a)"
        using pos r1(2) sst l ac(2) by (simp add: add.assoc[symmetric] max_def) (metis of_nat_add)
      from records_walk[OF tail ab(1,2) y _ r1(1) o1(2,1) ex1 _ os(2) _ this, of ?d1] r1(2) w1 sub ac(2) b2
      show ?thesis by (simp add: max_def less_imp_le)
    next
      case False
      then have "?d2 = []" "pieces a b cs2 = []" using nothing_starts(2)[OF tail] by simp_all
      then show ?thesis
        using loop_ends_ready[OF r1(1) o1(2), of zr ?d1] r1(2) w1 by (auto intro: applied.none)
    qed
    then obtain os2 where os2: "loop_ends zr ?d (length ?d1) st1 os2" "applied fopen dir os1 (pieces a b cs2) os2"
      "workable dir its os2" unfolding d by blast
    have "loop_ends zr ?d 0 st os2" using os2(1) unfolding loop_ends_def e1 .
    moreover have "applied fopen dir ?os (pieces a b cs) os2"
      using ps os2(2) True ab(4) ac(2) by (auto simp: ps1 pieces_Cons intro: applied.step)
    ultimately show ?thesis using os2(3) by blast
  next
    case False
    have nobody: "\<not> (pl_head d < a \<and> a < pl_end d)" if "d \<in> set cs" for d
    proof -
      from that cs consider "d \<in> set cs1" | "d = c" | "d \<in> set cs2" by auto
      then show ?thesis using b1(3) b2 False by cases fastforce+
    qed
    have none: "pf_continuing_file (this_part st) = None"
      using cont nobody by (auto simp: continues_right_def split: option.splits)
    let ?st = "st\<lparr>ps_state := STATE_EXPECT_LOCAL_HEADER\<rparr>"
    have r: "ready ?st" "settled ?st = ?st" using settled_expects[of ?st] st(2) by simp_all
    have "process_loop zr ?d 0 st = process_loop zr ?d 0 ?st"
      using ne st(1) none by (intro process_loop_Next) (simp_all add: process_step_def step_init_def)
    moreover have "\<exists>os'. loop_ends zr ?d 0 ?st os' \<and> applied fopen dir (ps_os st) (pieces a b cs) os' \<and> workable dir its os'"
    proof -
      have "\<forall>d \<in> set (c # cs2). a \<le> pl_head d" using False b2 by (auto simp: less_imp_le)
      from records_walk[OF pl2 ab(1,2) y this r(1) _ _ _ _ os(2) sub, where pre = "[]"] st ex os(1) pos r(2) st1 ps1 sst ac(1)
      show ?thesis by (simp add: max_absorb2)
    qed
    ultimately show ?thesis unfolding loop_ends_def by auto
  qed
  then obtain os' where le: "loop_ends zr ?d 0 st os'" and rest: "applied fopen dir (ps_os st) (pieces a b cs) os'"
    "workable dir its os'" by blast
  from le obtain s1 s2 where "process_loop zr ?d 0 st = Some (Completed s1)"
    "part_processor_finalize s1 = Done STREAM_PROC_SUCCESS s2" "part_processor_destroy s2 = os'"
    by (auto simp: loop_ends_def)
  then have "feed_and_finalize zr ?d st = Some (Ok (0, os'))"
    using ne st(1,3) by (simp add: feed_and_finalize_def part_processor_process_data_def run_loop_def)
  with rest show ?thesis by blast
qed

end
