(* ===== verification/Tree_Paths.thy ===== *)
theory Tree_Paths
  imports Item_Extraction "HOL-Library.Sublist"
begin

text \<open>
  The items of a directory tree, as the walk of the writer lists them, under the output directory of the
  downloader: their paths, that a directory comes before what it contains, and that all of them can
  be created below a directory that is new or empty.
\<close>

section \<open>Trees\<close>

text \<open>What \<open>readdir\<close> delivers: distinct names that are not empty and have no slash.\<close>

definition entry_name :: "bytes \<Rightarrow> bool" where
  "entry_name d \<longleftrightarrow> d \<noteq> [] \<and> slash \<notin> set d \<and> \<not> dot_entry d"

fun tidy_node :: "fs_node \<Rightarrow> bool" and tidy_tree :: "(bytes \<times> fs_node) list \<Rightarrow> bool" where
  "tidy_node (Node st listing link) = (case listing of None \<Rightarrow> True | Some es \<Rightarrow> tidy_tree es)"
| "tidy_tree [] = True"
| "tidy_tree ((d_name, node) # es) =
     ((dot_entry d_name \<or> entry_name d_name \<and> d_name \<notin> fst ` set es \<and> tidy_node node) \<and> tidy_tree es)"

text \<open>The path of an item relative to the root.\<close>

abbreviation item_parts :: "list_item \<Rightarrow> bytes list" where
  "item_parts it \<equiv> components (it_name it)"

text \<open>The shape of a listed name: a last component, with a slash after it for directories.\<close>

definition listed :: "list_item \<Rightarrow> bool" where
  "listed it \<longleftrightarrow>
     (\<exists>y d. it_name it = y @ d @ (if it_is_directory it then [slash] else []) \<and> (y = [] \<or> last y = slash) \<and>
        entry_name d) \<and>
     (it_is_directory it \<longrightarrow> \<not> S_ISLNK (st_mode (it_stat it))) \<and> 0 \<notin> set (item_target it)"

text \<open>The list is in pre-order: nothing comes after what it contains, and only directories contain something.\<close>

definition pre_ordered :: "list_item list \<Rightarrow> bool" where
  "pre_ordered =
     sorted_wrt (\<lambda>a b. \<not> prefix (item_parts b) (item_parts a) \<and>
       (prefix (item_parts a) (item_parts b) \<longrightarrow> it_is_directory a))"

lemma entry_name_parts: "entry_name d \<Longrightarrow> components d = [d]"
  by (intro components_one) (auto simp: entry_name_def dot_entry_def)

lemma joined_parts:
  "entry_name d \<Longrightarrow> components (if p \<noteq> [] then join_path p d else d) = components p @ [d]"
  by (simp add: join_path_def components_append entry_name_parts)

definition joined :: "bytes \<Rightarrow> bool" where
  "joined name \<longleftrightarrow> (\<exists>y d. name = y @ d \<and> (y = [] \<or> last y = slash) \<and> entry_name d)"

lemma joined_join:
  assumes "entry_name d"
  shows "joined (if p \<noteq> [] then join_path p d else d)"
  unfolding joined_def using assms
  by (intro exI[of _ "if p \<noteq> [] then p @ [slash] else []"] exI[of _ d]) (simp add: join_path_def)

lemma target_buf_NUL: "0 \<notin> set (target_buf t)"
  by (auto simp: target_buf_def strndup_def dest: set_takeWhileD)

lemma pre_ordered_Cons:
  "pre_ordered (a # its) \<longleftrightarrow>
   (\<forall>b \<in> set its. \<not> prefix (item_parts b) (item_parts a) \<and>
      (prefix (item_parts a) (item_parts b) \<longrightarrow> it_is_directory a)) \<and> pre_ordered its"
  by (simp add: pre_ordered_def)

definition below :: "bytes list \<Rightarrow> list_item list \<Rightarrow> bool" where
  "below p its \<longleftrightarrow> (\<forall>it \<in> set its. prefix p (item_parts it))"

definition strictly_below :: "bytes list \<Rightarrow> bytes set \<Rightarrow> list_item list \<Rightarrow> bool" where
  "strictly_below p ds its \<longleftrightarrow> (\<forall>it \<in> set its. \<exists>d \<in> ds. \<exists>t. item_parts it = p @ d # t)"

lemma node_and_tree_items:
  "tidy_node node \<Longrightarrow> joined name \<Longrightarrow>
     (\<forall>it \<in> set (node_items path name node). listed it) \<and> below (components name) (node_items path name node) \<and>
     pre_ordered (node_items path name node)"
  "tidy_tree es \<Longrightarrow>
     (\<forall>it \<in> set (tree_items path name es). listed it) \<and>
     strictly_below (components name) (fst ` set es) (tree_items path name es) \<and>
     pre_ordered (tree_items path name es)"
proof (induction path name node and path name es rule: node_items_tree_items.induct)
  case (1 path name listing link)
  then show ?case by (simp add: below_def pre_ordered_def)
next
  case (2 path name st listing link)
  let ?dir = "\<lparr>it_path = path, it_name = join_path name [], it_target = None, it_stat = st, it_is_directory = True\<rparr>"
  obtain y d where yd: "name = y @ d" "y = [] \<or> last y = slash" "entry_name d"
    using "2.prems"(2) by (auto simp: joined_def)
  have one: "listed \<lparr>it_path = path, it_name = name, it_target = t, it_stat = st, it_is_directory = False\<rparr>"
    if "t = None \<or> (\<exists>l. t = Some (target_buf l))" for t
    using yd that target_buf_NUL by (auto simp: listed_def item_target_def)
  show ?case
  proof (cases "S_ISDIR (st_mode st)")
    case False
    then have "\<exists>t. node_items path name (Node (Some st) listing link) \<in>
        {[], [\<lparr>it_path = path, it_name = name, it_target = t, it_stat = st, it_is_directory = False\<rparr>]} \<and>
        (t = None \<or> (\<exists>l. t = Some (target_buf l)))"
      by (cases link) auto
    then obtain t where "node_items path name (Node (Some st) listing link) \<in>
        {[], [\<lparr>it_path = path, it_name = name, it_target = t, it_stat = st, it_is_directory = False\<rparr>]}"
      "t = None \<or> (\<exists>l. t = Some (target_buf l))" by blast
    with one[of t] show ?thesis by (auto simp only: insert_iff empty_iff below_def pre_ordered_def list.set ball_simps
      sorted_wrt.simps list_item.simps prefix_order.order_refl)
  next
    case True
    have "listed ?dir"
      using yd True by (auto simp: listed_def item_target_def join_path_def S_ISDIR_def S_ISLNK_def)
    moreover have "item_parts ?dir = components name" by (simp add: join_path_def)
    moreover have "(\<forall>it \<in> set its. listed it) \<and> strictly_below (components name) (fst ` set es) its \<and> pre_ordered its"
      if "listing = Some es" "its = tree_items path name es" for es its
      using 2 that True by simp
    ultimately show ?thesis
      using True
      by (cases listing) (fastforce simp: below_def strictly_below_def pre_ordered_Cons pre_ordered_def)+
  qed
next
  case (3 dir p)
  then show ?case by (simp add: strictly_below_def pre_ordered_def)
next
  case (4 dir p d_name node es)
  let ?its = "tree_items dir p es"
  have rest: "\<forall>it \<in> set ?its. listed it" "strictly_below (components p) (fst ` set es) ?its" "pre_ordered ?its"
    using 4 by simp_all
  show ?case
  proof (cases "dot_entry d_name")
    case True
    then show ?thesis using rest by (auto simp: strictly_below_def)
  next
    case False
    let ?name = "if p \<noteq> [] then join_path p d_name else d_name"
    let ?nis = "node_items (join_path dir d_name) ?name node"
    have d: "entry_name d_name" "d_name \<notin> fst ` set es" "tidy_node node" using 4(3) False by simp_all
    have n: "\<forall>it \<in> set ?nis. listed it" "below (components p @ [d_name]) ?nis" "pre_ordered ?nis"
      using 4(1)[OF False d(3) joined_join[OF d(1)]] joined_parts[OF d(1)] by simp_all
    have "\<not> prefix (item_parts b) (item_parts a) \<and> \<not> prefix (item_parts a) (item_parts b)"
      if ab: "a \<in> set ?nis" "b \<in> set ?its" for a b
    proof -
      obtain t where "item_parts a = components p @ d_name # t"
        using n(2) ab(1) by (force simp: below_def prefix_def)
      moreover obtain e t' where "e \<in> fst ` set es" "item_parts b = components p @ e # t'"
        using rest(2) ab(2) unfolding strictly_below_def by blast
      ultimately show ?thesis using d(2) by auto
    qed
    then have "pre_ordered (?nis @ ?its)"
      using n(3) rest(3) by (simp add: pre_ordered_def sorted_wrt_append)
    moreover have "strictly_below (components p) (fst ` set ((d_name, node) # es)) (?nis @ ?its)"
      using n(2) rest(2) by (force simp: below_def strictly_below_def prefix_def)
    ultimately show ?thesis using n(1) rest(1) False by auto
  qed
qed

section \<open>Paths under the output directory\<close>

definition out_path :: "bytes \<Rightarrow> path" where
  "out_path dir = resolve (dir @ [slash])"

text \<open>The output directory can be made, and nothing exists below it.\<close>

definition fresh_output :: "os_state \<Rightarrow> bytes \<Rightarrow> bool" where
  "fresh_output os dir \<longleftrightarrow>
     dirs_free os (out_path dir) \<and>
     (\<forall>c cs. os_nodes os (fst (out_path dir), snd (out_path dir) @ c # cs) = None)"

lemma item_path_eq: "item_path dir it = (fst (out_path dir), snd (out_path dir) @ item_parts it)"
proof -
  have "components (item_file dir it) = components dir @ item_parts it" by (rule components_append)
  moreover have "components (dir @ [slash]) = components dir" by simp
  moreover have "fst (item_path dir it) = fst (resolve (dir @ [slash]))" by (cases dir) (simp_all add: resolve_def)
  ultimately show ?thesis by (simp add: out_path_def prod_eq_iff)
qed

lemma on_the_way_prefix: "on_the_way (r, xs) (r, ys) \<longleftrightarrow> prefix ys xs"
proof -
  have "ys = take (length ys) xs \<longleftrightarrow> prefix ys xs"
    by (metis append_eq_conv_conj prefix_def)
  then show ?thesis by (simp add: on_the_way_def)
qed

lemma pre_ordered_may_follow: "pre_ordered its \<Longrightarrow> sorted_wrt (may_follow dir) its"
  unfolding pre_ordered_def
  by (erule sorted_wrt_mono_rel[rotated]) (simp add: may_follow_def item_path_eq on_the_way_prefix)

lemma strip_slashes_name:
  assumes "entry_name d"
  shows "strip_slashes (x @ slash # d @ (if b then [slash] else [])) = x @ slash # d"
proof -
  have "rev d \<noteq> []" using assms by (simp add: entry_name_def)
  moreover have "hd (rev d) \<noteq> slash" using assms list.set_sel(1)[OF calculation] by (auto simp: entry_name_def)
  ultimately have "dropWhile (\<lambda>b. b = slash) (rev d @ y) = rev d @ y" for y by (cases "rev d") auto
  then show ?thesis by (simp add: strip_slashes_def)
qed

lemma listed_not_dot:
  assumes "listed it"
  shows "\<not> dot_named (item_file dir it)" and "item_parts it \<noteq> []"
proof -
  obtain y d where yd: "it_name it = y @ d @ (if it_is_directory it then [slash] else [])"
    "y = [] \<or> last y = slash" "entry_name d" using assms by (auto simp: listed_def)
  obtain x where x: "dir @ slash # y = x @ [slash]"
  proof (cases "y = []")
    case False
    then have "y = butlast y @ [slash]" using yd(2) by (metis append_butlast_last_id)
    then show ?thesis using that[of "dir @ slash # butlast y"] by simp
  qed (use that[of dir] in simp)
  have "item_file dir it = x @ slash # d @ (if it_is_directory it then [slash] else [])"
    using x yd(1) by (metis append.assoc append_Cons append_Nil)
  then have "takeWhile (\<lambda>b. b \<noteq> slash) (rev (strip_slashes (item_file dir it))) = rev d"
    using strip_slashes_name[OF yd(3)] yd(3) by (auto simp: entry_name_def takeWhile_tail)
  moreover have "rev d \<noteq> [dot]" using yd(3) by (auto simp: entry_name_def dot_entry_def)
  ultimately show "\<not> dot_named (item_file dir it)" by (simp add: dot_named_def)
  have "components (y @ d @ (if it_is_directory it then [slash] else [])) = components y @ [d]"
    using components_prefix[OF yd(2), of "d @ (if it_is_directory it then [slash] else [])"] entry_name_parts[OF yd(3)]
    by simp
  then show "item_parts it \<noteq> []" using yd(1) by simp
qed

lemma listed_creatable:
  assumes f: "fresh_output os dir" and it: "listed it"
  shows "item_creatable os dir it"
proof -
  let ?r = "fst (out_path dir)" and ?o = "snd (out_path dir)" and ?p = "item_path dir it"
  obtain c cs where cs: "item_parts it = c # cs" using listed_not_dot(2)[OF it] by (cases "item_parts it") auto
  then have p: "?p = (?r, ?o @ c # cs)" by (simp add: item_path_eq)
  have none: "os_nodes os ?p = None" using f p by (simp add: fresh_output_def)
  have "dirs_free os (parent ?p)"
    unfolding dirs_free_def
  proof (intro allI impI)
    fix k
    assume k: "k \<le> length (snd (parent ?p))"
      and ne: "os_nodes os (fst (parent ?p), take k (snd (parent ?p))) \<noteq> None"
    have q: "(fst (parent ?p), take k (snd (parent ?p))) = (?r, take k (?o @ butlast (c # cs)))"
      by (simp add: p parent_def butlast_append)
    show "is_dir os (fst (parent ?p), take k (snd (parent ?p)))"
    proof (cases "k \<le> length ?o")
      case True
      then show ?thesis using f ne unfolding q by (auto simp: fresh_output_def dirs_free_def)
    next
      case False
      have "k \<le> length ?o + length cs" using k by (simp add: p parent_def)
      then obtain c' cs' where "take (k - length ?o) (butlast (c # cs)) = c' # cs'"
        using False by (cases "take (k - length ?o) (butlast (c # cs))") (auto split: if_splits)
      then have "take k (?o @ butlast (c # cs)) = ?o @ c' # cs'" using False by simp
      then show ?thesis using f ne unfolding q by (simp add: fresh_output_def)
    qed
  qed
  moreover have "components (item_file dir it) \<noteq> []" using p by (metis snd_conv append_is_Nil_conv list.distinct(1))
  ultimately show ?thesis
    using none listed_not_dot(1)[OF it] by (simp add: item_creatable_def creatable_def creatable_dir_def creatable_link_def)
qed

lemma listed_restorable:
  assumes "listed it" and "item_ready env fopen level it"
    and "st_mode (it_stat it) < 0x10000" and "it_name it \<noteq> PADDING_LFH_FILENAME"
    and "length (item_content fopen it) < 0xFFFFFFFF"
  shows "restorable fopen it"
proof -
  obtain y d where yd: "it_name it = y @ d @ (if it_is_directory it then [slash] else [])" "entry_name d"
    using assms(1) by (auto simp: listed_def)
  have "0 \<notin> set (it_name it)" using assms(2) by (simp add: item_ready_def)
  moreover have "d \<noteq> []" "last d \<noteq> slash" using yd(2) last_in_set by (fastforce simp: entry_name_def)+
  moreover have "is_link it \<longrightarrow> item_target it \<noteq> []"
    using assms(2) by (auto simp: item_ready_def entry_ready_def is_link_def)
  ultimately show ?thesis
    using assms yd(1) by (auto simp: restorable_def listed_def)
qed

end
