(* ===== verification/Parts_Delivered.thy ===== *)
theory Parts_Delivered
  imports Part_Pieces Tree_Paths
begin

text \<open>
  The pieces that the parts of an archive leave, together: pieces of other parts and other items are kept
  whatever the order, so that after all parts every item is there (\<open>applied_delivers\<close>).
\<close>

section \<open>Pieces are kept\<close>

text \<open>The item is there, of a file with data at least the bytes from \<open>lo\<close> to \<open>hi\<close>.\<close>

definition there ::
  "(bytes \<Rightarrow> in_file option) \<Rightarrow> bytes \<Rightarrow> os_state \<Rightarrow> list_item \<Rightarrow> nat \<Rightarrow> nat \<Rightarrow> bool" where
  "there fopen dir os it lo hi \<longleftrightarrow>
     (\<exists>n. os_nodes os (item_path dir it) = Some n \<and>
        (if has_data it
         then \<exists>d a. n = Regular d a \<and> length d = length (item_content fopen it) \<and>
                (\<forall>i. lo \<le> i \<longrightarrow> i < hi \<longrightarrow> i < length d \<longrightarrow> d ! i = item_content fopen it ! i) \<and>
                has_mode it a \<and> owned_by (os_euid os = 0) it a
         else shows_item (os_euid os = 0) it (item_content fopen it) n))"

lemma length_resize [simp]: "length (resize n c) = n"
  by (simp add: resize_def)

lemma nth_resize: "i < n \<Longrightarrow> resize n c ! i = (if i < length c then c ! i else 0)"
  by (auto simp: resize_def nth_append)

lemma nth_overwrite:
  assumes "i < length (overwrite c off d)"
  shows "overwrite c off d ! i =
    (if off \<le> i \<and> i < off + length d then d ! (i - off) else if i < length c then c ! i else 0)"
  using assms by (cases "d = []") (auto simp: overwrite_def nth_append min_def)

lemma length_overwritten: "d \<noteq> [] \<Longrightarrow> length (overwrite c off d) = max (length c) (off + length d)"
  by (auto simp: overwrite_def min_def max_def)

lemma piece_content:
  fixes c :: bytes
  defines "new \<equiv> \<lambda>old lo hi. resize (length c) (overwrite old lo (take (hi - lo) (drop lo c)))"
  shows "lo \<le> i \<Longrightarrow> i < hi \<Longrightarrow> i < length c \<Longrightarrow> new old lo hi ! i = c ! i"
    and "length old = length c \<Longrightarrow> i < length c \<Longrightarrow> old ! i = c ! i \<Longrightarrow> new old lo hi ! i = c ! i"
proof -
  let ?x = "take (hi - lo) (drop lo c)"
  show "new old lo hi ! i = c ! i" if i: "lo \<le> i" "i < hi" "i < length c"
  proof -
    have ne: "?x \<noteq> []" using i by simp
    have "i < length (overwrite old lo ?x)" using i unfolding length_overwritten[OF ne] by auto
    then show ?thesis using i by (auto simp: new_def nth_resize nth_overwrite min_def)
  qed
  show "new old lo hi ! i = c ! i" if o: "length old = length c" "i < length c" "old ! i = c ! i"
  proof (cases "?x = []")
    case True
    then have "overwrite old lo ?x = old" by (simp add: overwrite_def)
    then show ?thesis using o by (simp add: new_def nth_resize)
  next
    case False
    have "i < length (overwrite old lo ?x)" using o unfolding length_overwritten[OF False] by simp
    then show ?thesis using o by (auto simp: new_def nth_resize nth_overwrite)
  qed
qed

lemma piece_step_there:
  assumes "piece_step fopen dir os it lo hi os'"
  shows "there fopen dir os' it lo hi"
proof -
  obtain n where n: "holds_node os (item_file dir it) n os'"
    "shows_piece (os_euid os = 0) it (item_content fopen it) (fst (file_at os (item_path dir it))) lo hi n"
    using assms by (auto simp: piece_step_def)
  have e: "os_nodes os' (item_path dir it) = Some n" "os_euid os' = os_euid os" using n(1) by (simp_all add: holds_node_def)
  show ?thesis
    using n(2) e piece_content(1)[of lo _ hi "item_content fopen it"]
    by (auto simp: there_def shows_piece_def split: if_splits)
qed

lemma piece_step_keeps:
  assumes s: "piece_step fopen dir os a lo hi os'" and t: "there fopen dir os b lo' hi'"
    and c: "compatible dir its" "a \<in> set its" "b \<in> set its"
  shows "there fopen dir os' b lo' hi'"
proof -
  obtain n where n: "holds_node os (item_file dir a) n os'"
    "shows_piece (os_euid os = 0) a (item_content fopen a) (fst (file_at os (item_path dir a))) lo hi n"
    using s by (auto simp: piece_step_def)
  have e: "os_nodes os' (item_path dir a) = Some n" "os_euid os' = os_euid os" using n(1) by (simp_all add: holds_node_def)
  show ?thesis
  proof (cases "a = b")
    case False
    then have p: "item_path dir b \<noteq> item_path dir a" using c unfolding compatible_def by metis
    have "os_nodes os (item_path dir b) \<noteq> None" using t by (auto simp: there_def)
    then have "os_nodes os' (item_path dir b) = os_nodes os (item_path dir b)"
      using holds_node_elsewhere[OF n(1) p] by auto
    then show ?thesis using t e(2) unfolding there_def by (simp only:)
  next
    case True
    show ?thesis
    proof (cases "has_data b")
      case False
      then show ?thesis using n(2) e True by (simp add: there_def shows_piece_def)
    next
      case data: True
      let ?c = "item_content fopen b"
      obtain d x where d: "os_nodes os (item_path dir b) = Some (Regular d x)" "length d = length ?c"
        "\<forall>i. lo' \<le> i \<longrightarrow> i < hi' \<longrightarrow> i < length d \<longrightarrow> d ! i = ?c ! i"
        using t data by (auto simp: there_def)
      have "fst (file_at os (item_path dir b)) = d" using d(1) by (simp add: file_at_def)
      then obtain y where y: "n = Regular (resize (length ?c) (overwrite d lo (take (hi - lo) (drop lo ?c)))) y"
        "has_mode b y" "owned_by (os_euid os = 0) b y" using n(2) True data by (auto simp: shows_piece_def)
      then show ?thesis
        using data e True d(2,3) piece_content(2)[OF d(2)] by (auto simp: there_def)
    qed
  qed
qed

lemma applied_keeps:
  assumes "applied fopen dir os ps os'" and "compatible dir its" and "fst ` set ps \<subseteq> set its" and "b \<in> set its"
    and "there fopen dir os b lo hi"
  shows "there fopen dir os' b lo hi"
  using assms
proof (induction rule: applied.induct)
  case (step os it l h os1 ps os')
  then show ?case using piece_step_keeps[OF step.hyps(1) step.prems(4,1)] by simp
qed simp

lemma applied_there:
  assumes "applied fopen dir os ps os'" and "compatible dir its" and "fst ` set ps \<subseteq> set its"
    and "(it, lo, hi) \<in> set ps"
  shows "there fopen dir os' it lo hi"
  using assms
proof (induction rule: applied.induct)
  case (step os a l h os1 ps os')
  show ?case
  proof (cases "(it, lo, hi) = (a, l, h)")
    case True
    have "there fopen dir os1 a l h" using piece_step_there[OF step.hyps(1)] .
    then have "there fopen dir os' a l h" using applied_keeps[OF step.hyps(2) step.prems(1)] step.prems(2) by auto
    then show ?thesis using True by simp
  next
    case False
    then show ?thesis using step by auto
  qed
qed simp

section \<open>Nothing else changes\<close>

definition grown :: "bytes \<Rightarrow> list_item list \<Rightarrow> os_state \<Rightarrow> os_state \<Rightarrow> bool" where
  "grown dir its os os' \<longleftrightarrow>
     (\<forall>q. q \<notin> item_path dir ` set its \<longrightarrow>
        os_nodes os' q = os_nodes os q \<or>
        os_nodes os q = None \<and> is_dir os' q \<and> (\<exists>it \<in> set its. on_the_way (item_path dir it) q)) \<and>
     os_fds os' = os_fds os \<and> os_euid os' = os_euid os"

lemma grown_trans:
  assumes "grown dir its os os1" and "grown dir its os1 os2"
  shows "grown dir its os os2"
proof -
  have "os_nodes os2 q = os_nodes os q \<or>
      os_nodes os q = None \<and> is_dir os2 q \<and> (\<exists>it \<in> set its. on_the_way (item_path dir it) q)"
    if q: "q \<notin> item_path dir ` set its" for q
  proof -
    have "os_nodes os1 q = os_nodes os q \<or>
        os_nodes os q = None \<and> is_dir os1 q \<and> (\<exists>it \<in> set its. on_the_way (item_path dir it) q)"
      using assms(1) q unfolding grown_def by blast
    moreover have "os_nodes os2 q = os_nodes os1 q \<or>
        os_nodes os1 q = None \<and> is_dir os2 q \<and> (\<exists>it \<in> set its. on_the_way (item_path dir it) q)"
      using assms(2) q unfolding grown_def by blast
    moreover have "is_dir os1 q \<Longrightarrow> os_nodes os2 q = os_nodes os1 q \<Longrightarrow> is_dir os2 q" by (simp add: is_dir_def)
    ultimately show ?thesis by metis
  qed
  then show ?thesis using assms by (simp add: grown_def)
qed

lemma applied_grown:
  assumes "applied fopen dir os ps os'" and "fst ` set ps \<subseteq> set its"
  shows "grown dir its os os'"
  using assms
proof (induction rule: applied.induct)
  case (none os)
  then show ?case by (simp add: grown_def)
next
  case (step os it lo hi os1 ps os')
  obtain n where n: "holds_node os (item_file dir it) n os1" using step.hyps(1) by (auto simp: piece_step_def)
  have it: "it \<in> set its" using step.prems by simp
  have "os_nodes os1 q = os_nodes os q \<or>
      os_nodes os q = None \<and> is_dir os1 q \<and> (\<exists>it \<in> set its. on_the_way (item_path dir it) q)"
    if "q \<notin> item_path dir ` set its" for q
  proof -
    have "q \<noteq> item_path dir it" using that it by blast
    from holds_node_elsewhere[OF n this] show ?thesis using it by blast
  qed
  then have "grown dir its os os1" using n by (simp add: grown_def holds_node_def)
  then show ?case using step by (auto intro: grown_trans)
qed

text \<open>The pieces cover every item.\<close>

definition covers :: "(bytes \<Rightarrow> in_file option) \<Rightarrow> list_item list \<Rightarrow> (list_item \<times> nat \<times> nat) list \<Rightarrow> bool" where
  "covers fopen its ps \<longleftrightarrow>
     (\<forall>it \<in> set its. (\<exists>lo hi. (it, lo, hi) \<in> set ps) \<and>
        (has_data it \<longrightarrow> (\<forall>i < length (item_content fopen it). \<exists>lo hi. (it, lo, hi) \<in> set ps \<and> lo \<le> i \<and> i < hi)))"

lemma applied_delivers:
  assumes ap: "applied fopen dir os ps os'" and c: "compatible dir its" and its: "fst ` set ps \<subseteq> set its"
    and cov: "covers fopen its ps" and w: "workable dir its os'"
  shows "delivers fopen dir its os os'"
proof -
  have g: "grown dir its os os'" using applied_grown[OF ap its] .
  have "\<exists>n. os_nodes os' (item_path dir it) = Some n \<and> shows_item (os_euid os = 0) it (item_content fopen it) n"
    if it: "it \<in> set its" for it
  proof -
    let ?c = "item_content fopen it"
    have e: "os_euid os' = os_euid os" using g by (simp add: grown_def)
    obtain lo hi where "(it, lo, hi) \<in> set ps" using cov it by (auto simp: covers_def)
    from applied_there[OF ap c its this]
    obtain n where n: "os_nodes os' (item_path dir it) = Some n"
      and t: "if has_data it then \<exists>d a. n = Regular d a \<and> length d = length ?c \<and> has_mode it a \<and> owned_by (os_euid os = 0) it a
        else shows_item (os_euid os = 0) it ?c n"
      unfolding there_def e by (auto split: if_splits)
    show ?thesis
    proof (cases "has_data it")
      case False
      then show ?thesis using n t by simp
    next
      case True
      then obtain d a where d: "n = Regular d a" "length d = length ?c" "has_mode it a" "owned_by (os_euid os = 0) it a"
        using t by auto
      have "d ! i = ?c ! i" if i: "i < length d" for i
      proof -
        obtain lo hi where p: "(it, lo, hi) \<in> set ps" "lo \<le> i" "i < hi"
          using cov it True i d(2) unfolding covers_def by metis
        then show ?thesis using applied_there[OF ap c its p(1)] n d(1) True i by (auto simp: there_def)
      qed
      then have "d = ?c" using d(2) by (intro nth_equalityI) auto
      then show ?thesis using n d True by (auto simp: shows_item_def has_data_def is_link_def)
    qed
  qed
  then show ?thesis using g w by (simp add: delivers_def grown_def workable_def)
qed

section \<open>All parts together\<close>

lemma pre_ordered_compatible:
  assumes "pre_ordered its"
  shows "compatible dir its"
proof -
  have "item_path dir a \<noteq> item_path dir b \<and>
      (on_the_way (item_path dir a) (item_path dir b) \<longrightarrow> it_is_directory b) \<and>
      (on_the_way (item_path dir b) (item_path dir a) \<longrightarrow> it_is_directory a)"
    if "i < j" "j < length its" "a = its ! i" "b = its ! j" for i j a b
    using assms that unfolding pre_ordered_def sorted_wrt_iff_nth_less
    by (fastforce simp: item_path_eq on_the_way_prefix)
  then show ?thesis
    unfolding compatible_def by (metis in_set_conv_nth nat_neq_iff)
qed

text \<open>The pieces of parts of length \<open>n\<close>, in any order and any number of times, cover everything if every part
  before the end is among them.\<close>

lemma parts_cover:
  assumes pl: "places zr fopen part_len S 0 cs y" and n: "0 < n" and js: "{p. p * n < y} \<subseteq> set js"
  shows "covers fopen (map pl_item cs) (concat (map (\<lambda>p. pieces (p * n) ((p + 1) * n) cs) js))"
proof -
  have piece: "(pl_item c, pl_sent c (p * n), pl_sent c ((p + 1) * n)) \<in>
      set (concat (map (\<lambda>p. pieces (p * n) ((p + 1) * n) cs) js))"
    if "c \<in> set cs" "p * n < pl_end c" "pl_head c < (p + 1) * n" for c p
  proof -
    have "p * n < y" using places_bounds(2)[OF pl that(1)] that(2) by simp
    then show ?thesis using js that by (auto simp: pieces_def)
  qed
  have "(\<exists>lo hi. (it, lo, hi) \<in> set (concat (map (\<lambda>p. pieces (p * n) ((p + 1) * n) cs) js))) \<and>
      (has_data it \<longrightarrow> (\<forall>i < length (item_content fopen it). \<exists>lo hi.
         (it, lo, hi) \<in> set (concat (map (\<lambda>p. pieces (p * n) ((p + 1) * n) cs) js)) \<and> lo \<le> i \<and> i < hi))"
    if "it \<in> pl_item ` set cs" for it
  proof -
    obtain c where c: "c \<in> set cs" "it = pl_item c" using \<open>it \<in> _\<close> by blast
    have p: "placed zr fopen part_len S c" using places_bounds(2)[OF pl c(1)] by simp
    note sent = placed_sent[OF p]
    let ?q = "pl_head c div n"
    have q: "?q * n \<le> pl_head c" "pl_head c < (?q + 1) * n" using n by (simp, simp add: dividend_less_div_times)
    have "?q * n < pl_end c" using q(1) placedE(4)[OF p] by (rule le_less_trans)
    from piece[OF c(1) this q(2)] have "(it, pl_sent c (?q * n), pl_sent c ((?q + 1) * n)) \<in>
        set (concat (map (\<lambda>p. pieces (p * n) ((p + 1) * n) cs) js))"
      unfolding c(2) .
    moreover have "\<exists>lo hi. (it, lo, hi) \<in> set (concat (map (\<lambda>p. pieces (p * n) ((p + 1) * n) cs) js)) \<and> lo \<le> i \<and> i < hi"
      if d: "has_data it" "i < length (item_content fopen it)" for i
    proof -
      let ?P = "\<lambda>p. i < pl_sent c (p * n)"
      have "?P (pl_end c)" using sent(3)[of "pl_end c * n"] d c(2) n by simp
      moreover have "\<not> ?P 0" using sent(1)[of 0] by simp
      ultimately obtain p where p: "\<not> ?P p" "?P (Suc p)" using ex_least_nat_less[of ?P "pl_end c"] by blast
      have p2: "i < pl_sent c ((p + 1) * n)" using p(2) by simp
      have "p * n < pl_end c"
      proof (rule ccontr)
        assume "\<not> p * n < pl_end c"
        then show False using sent(3)[of "p * n"] p(1) d c(2) by simp
      qed
      moreover have "pl_head c < (p + 1) * n"
      proof (rule ccontr)
        assume "\<not> pl_head c < (p + 1) * n"
        then show False using sent(1)[of "(p + 1) * n"] p2 by (simp only: not_less)
      qed
      ultimately have "(it, pl_sent c (p * n), pl_sent c ((p + 1) * n)) \<in>
          set (concat (map (\<lambda>p. pieces (p * n) ((p + 1) * n) cs) js))"
        using piece[OF c(1)] unfolding c(2) by blast
      then show ?thesis using p(1) p2 by (intro exI conjI) (simp_all only: not_less)
    qed
    ultimately show ?thesis by blast
  qed
  then show ?thesis unfolding covers_def by simp
qed

end
