(* ===== verification/Worker_Pool.thy ===== *)
theory Worker_Pool
  imports Burst_Prelude
begin

text \<open>
  The interface of the concurrent coordinators of the downloader: one main thread starts requests,
  the callbacks of the S3 client start further ones, and the main thread sleeps on a condition
  variable until none is left. A coordinator is a step relation whose steps are the sections that
  hold its mutex and the actions between them; any interleaving of the threads is a run. The laws
  are an invariant, progress and a well-founded order; the consequences are proved here once and
  obtained by interpretation.
\<close>

locale worker_pool =
  fixes start :: "'s \<Rightarrow> bool"
    and step :: "'s \<Rightarrow> 's \<Rightarrow> bool"
    and joined :: "'s \<Rightarrow> bool"
    and inv :: "'s \<Rightarrow> bool"
    and order :: "('s \<times> 's) set"
  assumes inv_start: "start s \<Longrightarrow> inv s"
    and inv_step: "inv s \<Longrightarrow> step s s' \<Longrightarrow> inv s'"
    and progress: "inv s \<Longrightarrow> \<not> joined s \<Longrightarrow> \<exists>s'. step s s'"
    and wf_order: "wf order"
    and decreasing: "inv s \<Longrightarrow> step s s' \<Longrightarrow> (s', s) \<in> order"
begin

lemma inv_run: "step\<^sup>*\<^sup>* s s' \<Longrightarrow> inv s \<Longrightarrow> inv s'"
  by (induction rule: rtranclp_induct) (auto intro: inv_step)

lemma inv_reachable: "start s0 \<Longrightarrow> step\<^sup>*\<^sup>* s0 s \<Longrightarrow> inv s"
  using inv_run inv_start by blast

text \<open>Every run can be continued until the main thread has joined the others.\<close>

lemma inv_joins: "inv s \<Longrightarrow> \<exists>s'. step\<^sup>*\<^sup>* s s' \<and> joined s'"
  using wf_order
proof (induction s rule: wf_induct_rule)
  case (less s)
  show ?case
  proof (cases "joined s")
    case False
    then obtain s1 where s1: "step s s1" using progress less.prems by blast
    with less.IH[of s1] less.prems obtain s' where "step\<^sup>*\<^sup>* s1 s'" "joined s'"
      using decreasing inv_step by blast
    with s1 show ?thesis by (meson converse_rtranclp_into_rtranclp)
  qed blast
qed

lemma reachable_joins: "start s0 \<Longrightarrow> step\<^sup>*\<^sup>* s0 s \<Longrightarrow> \<exists>s'. step\<^sup>*\<^sup>* s s' \<and> joined s'"
  using inv_joins inv_reachable by blast

text \<open>There is no infinite run, so every maximal run reaches such a state.\<close>

lemma no_infinite_run: "start (run 0) \<Longrightarrow> \<exists>i. \<not> step (run i) (run (Suc i))"
proof (rule ccontr)
  assume s: "start (run 0)" and "\<nexists>i. \<not> step (run i) (run (Suc i))"
  then have st: "step (run i) (run (Suc i))" for i by blast
  have inv: "inv (run i)" for i
    by (induction i) (use s st in \<open>auto intro: inv_start inv_step\<close>)
  have "(run (Suc i), run i) \<in> order" for i using decreasing[OF inv st] .
  then show False using wf_order unfolding wf_iff_no_infinite_down_chain by blast
qed

end

text \<open>A pool in which nothing can happen any more once the main thread has joined: the coordinator,
  a local variable of the main thread, is not used after its function has returned.\<close>

locale quiet_pool = worker_pool +
  assumes quiet: "inv s \<Longrightarrow> joined s \<Longrightarrow> \<not> step s s'"
begin

lemma joined_is_final: "start s0 \<Longrightarrow> step\<^sup>*\<^sup>* s0 s \<Longrightarrow> joined s \<longleftrightarrow> (\<nexists>s'. step s s')"
  using inv_reachable progress quiet by blast

end

end
