(* ===== verification/Part_Download.thy ===== *)
theory Part_Download
  imports Worker_Pool Part_Requests "HOL-Library.Multiset"
begin

text \<open>
  The coordinator of the concurrent part downloads (\<open>src/downloader/s3_operations.c\<close>, lines 577-608,
  700-800 and 1085-1150): the main thread launches requests up to the limit of concurrent parts, and
  the callback of a request that has finished launches the next one.

  \<^item> A step is a section of code that holds the mutex, or the part of a thread between two such
    sections. The S3 client is the environment: it answers a request with any error code (the code
    that the callbacks of the part and the client have stored in the context), in any order, and a
    launch may fail.
  \<^item> \<open>dc_part_contexts\<close> tells which of the pointers is not NULL. \<open>dr_started\<close> and \<open>dr_completed\<close> are
    the history: the parts that were requested and the parts whose callback found no error.
  \<^item> Counters are natural numbers; the invariant shows that none of them is decreased at zero.
  \<^item> The main thread is \<open>Choosing\<close> at the head of its loop with the local variable \<open>part_idx\<close>,
    \<open>Launching\<close> a part without the mutex, \<open>Waiting\<close> (\<open>True\<close>: about to test \<open>parts_in_flight\<close>,
    \<open>False\<close>: asleep), or has \<open>Joined\<close>. A spurious wake-up only repeats the test.
\<close>

section \<open>The coordinator\<close>

record download_coordinator =
  dc_max_concurrent :: nat
  dc_parts_in_flight :: nat
  dc_next_part_to_start :: nat
  dc_parts_to_download :: nat
  dc_parts_completed :: nat
  dc_cancel_requested :: bool
  dc_first_error_code :: int
  dc_part_contexts :: "bool list"

definition new_coordinator :: "nat \<Rightarrow> bool list \<Rightarrow> download_coordinator" where
  "new_coordinator max_concurrent covered =
     \<lparr>dc_max_concurrent = max_concurrent, dc_parts_in_flight = 0, dc_next_part_to_start = 0,
      dc_parts_to_download = length (filter Not covered), dc_parts_completed = 0,
      dc_cancel_requested = False, dc_first_error_code = 0,
      dc_part_contexts = replicate (length covered) False\<rparr>"

text \<open>The main loop: the next part without buffered data, if the limit allows one more.\<close>

definition skip_covered :: "bool list \<Rightarrow> nat \<Rightarrow> nat" where
  "skip_covered covered part_idx = part_idx + length (takeWhile id (drop part_idx covered))"

definition choose_part :: "bool list \<Rightarrow> nat \<Rightarrow> download_coordinator \<Rightarrow> nat option" where
  "choose_part covered part_idx c =
     (if dc_parts_in_flight c < dc_max_concurrent c \<and> part_idx < length covered then
        let p = skip_covered covered part_idx
        in if p \<ge> length covered then None else Some p
      else None)"

definition launch_section :: "nat \<Rightarrow> download_coordinator \<Rightarrow> download_coordinator" where
  "launch_section p c =
     c\<lparr>dc_parts_in_flight := dc_parts_in_flight c + 1, dc_next_part_to_start := p + 1\<rparr>"

text \<open>\<open>start_part_download_async\<close> stores the context; a later failure sets it back to NULL, an
  earlier one (\<open>stored = False\<close>) has not touched it.\<close>

definition context_stored :: "nat \<Rightarrow> download_coordinator \<Rightarrow> download_coordinator" where
  "context_stored p c = c\<lparr>dc_part_contexts := (dc_part_contexts c)[p := True]\<rparr>"

definition context_dropped :: "bool \<Rightarrow> nat \<Rightarrow> download_coordinator \<Rightarrow> download_coordinator" where
  "context_dropped stored p c =
     (if stored then c\<lparr>dc_part_contexts := (dc_part_contexts c)[p := False]\<rparr> else c)"

definition launch_failed_section :: "download_coordinator \<Rightarrow> download_coordinator" where
  "launch_failed_section c =
     c\<lparr>dc_parts_in_flight := dc_parts_in_flight c - 1, dc_cancel_requested := True,
       dc_first_error_code := -1\<rparr>"

text \<open>The finish callback: error handling, then the next part if there is one. The limit of the index
  is the \<open>number\<close> of parts to download.\<close>

definition record_result :: "int \<Rightarrow> download_coordinator \<Rightarrow> download_coordinator" where
  "record_result error_code c =
     (if error_code \<noteq> 0 then
        if \<not> dc_cancel_requested c
        then c\<lparr>dc_cancel_requested := True, dc_first_error_code := error_code\<rparr>
        else c
      else c\<lparr>dc_parts_completed := dc_parts_completed c + 1\<rparr>)"

definition finish_section ::
  "int \<Rightarrow> download_coordinator \<Rightarrow> nat option \<times> download_coordinator" where
  "finish_section error_code c =
     (let c1 = record_result error_code (c\<lparr>dc_parts_in_flight := dc_parts_in_flight c - 1\<rparr>)
      in if \<not> dc_cancel_requested c1 \<and> dc_next_part_to_start c1 < dc_parts_to_download c1
         then (Some (dc_next_part_to_start c1),
               c1\<lparr>dc_next_part_to_start := dc_next_part_to_start c1 + 1,
                  dc_parts_in_flight := dc_parts_in_flight c1 + 1\<rparr>)
         else (None, c1))"

definition next_failed_section :: "download_coordinator \<Rightarrow> download_coordinator" where
  "next_failed_section c =
     (let c1 = c\<lparr>dc_parts_in_flight := dc_parts_in_flight c - 1\<rparr>
      in if \<not> dc_cancel_requested c1
         then c1\<lparr>dc_cancel_requested := True, dc_first_error_code := -1\<rparr> else c1)"

section \<open>The threads\<close>

datatype activity = Requested nat | Starting nat

datatype main_thread = Choosing nat | Launching nat | Waiting bool | Joined

record download_run =
  dr_coord :: download_coordinator
  dr_main :: main_thread
  dr_active :: "activity multiset"
  dr_started :: "nat list"
  dr_completed :: "nat list"

definition notify :: "bool \<Rightarrow> main_thread \<Rightarrow> main_thread" where
  "notify b m = (if b \<and> m = Waiting False then Waiting True else m)"

definition launching :: "nat option \<Rightarrow> activity multiset" where
  "launching q = (case q of None \<Rightarrow> {#} | Some p \<Rightarrow> {#Starting p#})"

definition start_download :: "nat \<Rightarrow> bool list \<Rightarrow> download_run" where
  "start_download max_concurrent covered =
     \<lparr>dr_coord = new_coordinator max_concurrent covered, dr_main = Choosing 0, dr_active = {#},
      dr_started = [], dr_completed = []\<rparr>"

text \<open>The main thread holds the mutex from the end of its loop to its wait; here these are separate steps, so that
  the relation has some interleavings more than the program, and what holds for all of them holds for it.\<close>

inductive download_step :: "bool list \<Rightarrow> download_run \<Rightarrow> download_run \<Rightarrow> bool" for covered where
  main_launches:
    "dr_main s = Choosing i \<Longrightarrow> choose_part covered i (dr_coord s) = Some p \<Longrightarrow>
     download_step covered s (s\<lparr>dr_coord := launch_section p (dr_coord s), dr_main := Launching p\<rparr>)"
| main_has_launched:
    "dr_main s = Launching p \<Longrightarrow>
     download_step covered s
       (s\<lparr>dr_coord := context_stored p (dr_coord s), dr_main := Choosing (p + 1),
          dr_active := add_mset (Requested p) (dr_active s), dr_started := dr_started s @ [p]\<rparr>)"
| main_launch_fails:
    "dr_main s = Launching p \<Longrightarrow>
     download_step covered s
       (s\<lparr>dr_coord := launch_failed_section (context_dropped stored p (dr_coord s)),
          dr_main := Waiting True\<rparr>)"
| main_stops:
    "dr_main s = Choosing i \<Longrightarrow> choose_part covered i (dr_coord s) = None \<Longrightarrow>
     download_step covered s (s\<lparr>dr_main := Waiting True\<rparr>)"
| main_sleeps:
    "dr_main s = Waiting True \<Longrightarrow> dc_parts_in_flight (dr_coord s) > 0 \<Longrightarrow>
     download_step covered s (s\<lparr>dr_main := Waiting False\<rparr>)"
| main_joins:
    "dr_main s = Waiting True \<Longrightarrow> dc_parts_in_flight (dr_coord s) = 0 \<Longrightarrow>
     download_step covered s (s\<lparr>dr_main := Joined\<rparr>)"
| request_finishes:
    "Requested p \<in># dr_active s \<Longrightarrow> finish_section e (dr_coord s) = (q, c) \<Longrightarrow>
     download_step covered s
       (s\<lparr>dr_coord := c, dr_main := notify (q = None \<and> dc_parts_in_flight c = 0) (dr_main s),
          dr_active := launching q + (dr_active s - {#Requested p#}),
          dr_completed := (if e = 0 then dr_completed s @ [p] else dr_completed s)\<rparr>)"
| callback_has_launched:
    "Starting p \<in># dr_active s \<Longrightarrow>
     download_step covered s
       (s\<lparr>dr_coord := context_stored p (dr_coord s),
          dr_active := add_mset (Requested p) (dr_active s - {#Starting p#}),
          dr_started := dr_started s @ [p]\<rparr>)"
| callback_launch_fails:
    "Starting p \<in># dr_active s \<Longrightarrow>
     c = next_failed_section (context_dropped stored p (dr_coord s)) \<Longrightarrow>
     download_step covered s
       (s\<lparr>dr_coord := c, dr_main := notify (dc_parts_in_flight c = 0) (dr_main s),
          dr_active := dr_active s - {#Starting p#}\<rparr>)"

section \<open>The invariant\<close>

fun main_part :: "main_thread \<Rightarrow> nat option" where
  "main_part (Launching p) = Some p"
| "main_part m = None"

fun activity_part :: "activity \<Rightarrow> nat" where
  "activity_part (Requested p) = p"
| "activity_part (Starting p) = p"

definition busy_threads :: "download_run \<Rightarrow> nat" where
  "busy_threads s = size (dr_active s) + (case main_part (dr_main s) of None \<Rightarrow> 0 | Some p \<Rightarrow> 1)"

definition download_inv :: "bool list \<Rightarrow> download_run \<Rightarrow> bool" where
  "download_inv covered s \<longleftrightarrow>
     dc_parts_in_flight (dr_coord s) = busy_threads s \<and>
     busy_threads s \<le> dc_max_concurrent (dr_coord s) \<and>
     (dr_main s = Waiting False \<longrightarrow> 0 < busy_threads s) \<and>
     (dr_main s = Joined \<longrightarrow> busy_threads s = 0) \<and>
     dc_parts_to_download (dr_coord s) \<le> length covered \<and>
     length (dc_part_contexts (dr_coord s)) = length covered \<and>
     (\<forall>a \<in># dr_active s. activity_part a < length covered) \<and>
     (\<forall>p. dr_main s = Launching p \<longrightarrow> p < length covered) \<and>
     (dc_cancel_requested (dr_coord s) \<longleftrightarrow> dc_first_error_code (dr_coord s) \<noteq> 0)"

lemma download_inv_start: "download_inv covered (start_download m covered)"
  by (simp add: download_inv_def start_download_def new_coordinator_def busy_threads_def)

lemma choose_part_Some:
  assumes "choose_part covered i c = Some p"
  shows "dc_parts_in_flight c < dc_max_concurrent c" and "i \<le> p" and "p < length covered"
    and "\<not> covered ! p" and "\<And>q. i \<le> q \<Longrightarrow> q < p \<Longrightarrow> covered ! q"
proof -
  let ?t = "takeWhile id (drop i covered)"
  have p: "p = i + length ?t" and lt: "p < length covered" and "i < length covered"
    and "dc_parts_in_flight c < dc_max_concurrent c"
    using assms by (auto simp: choose_part_def skip_covered_def Let_def split: if_splits)
  then show "dc_parts_in_flight c < dc_max_concurrent c" "i \<le> p" "p < length covered" by simp_all
  have "length ?t < length (drop i covered)" using p lt by simp
  then have "\<not> id (drop i covered ! length ?t)" by (rule nth_length_takeWhile)
  then show "\<not> covered ! p" using p lt by simp
  fix q assume q: "i \<le> q" "q < p"
  then have "?t ! (q - i) \<in> set ?t" using p by (intro nth_mem) simp
  then have "?t ! (q - i)" by (auto dest: set_takeWhileD)
  moreover have "?t ! (q - i) = covered ! q"
    using q p lt by (simp add: takeWhile_nth)
  ultimately show "covered ! q" by simp
qed

lemma choose_part_None:
  assumes "choose_part covered i c = None" and "i \<le> q" and "q < length covered" and "\<not> covered ! q"
  shows "dc_max_concurrent c \<le> dc_parts_in_flight c"
proof (rule ccontr)
  let ?t = "takeWhile id (drop i covered)"
  assume "\<not> dc_max_concurrent c \<le> dc_parts_in_flight c"
  then have "length covered \<le> i + length ?t"
    using assms by (auto simp: choose_part_def skip_covered_def Let_def split: if_splits)
  moreover have "length ?t \<le> length (drop i covered)" by (rule length_takeWhile_le)
  ultimately have "length ?t = length (drop i covered)" using assms(2,3) by simp
  then have "?t = drop i covered" by (metis takeWhile_eq_take take_all order_refl)
  then have "\<forall>x \<in> set (drop i covered). x" by (metis id_apply set_takeWhileD)
  moreover have "covered ! q \<in> set (drop i covered)"
    using assms(2,3) nth_mem[of "q - i" "drop i covered"] by simp
  ultimately show False using assms(4) by blast
qed

lemmas section_defs = launch_section_def context_stored_def context_dropped_def
  launch_failed_section_def record_result_def next_failed_section_def

lemma finish_section_cases:
  assumes "finish_section e c = (q, c')"
  shows "dc_max_concurrent c' = dc_max_concurrent c"
    and "dc_parts_to_download c' = dc_parts_to_download c"
    and "dc_part_contexts c' = dc_part_contexts c"
    and "dc_parts_in_flight c' = dc_parts_in_flight c - 1 + size (launching q)"
    and "dc_cancel_requested c' \<longleftrightarrow> dc_cancel_requested c \<or> e \<noteq> 0"
    and "dc_first_error_code c' =
      (if e \<noteq> 0 \<and> \<not> dc_cancel_requested c then e else dc_first_error_code c)"
    and "q = Some p \<Longrightarrow> p = dc_next_part_to_start c \<and> p < dc_parts_to_download c \<and>
      dc_next_part_to_start c' = p + 1 \<and> \<not> dc_cancel_requested c'"
    and "q = None \<Longrightarrow> dc_next_part_to_start c' = dc_next_part_to_start c \<and>
      (dc_cancel_requested c' \<or> dc_parts_to_download c \<le> dc_next_part_to_start c)"
  using assms
  by (auto simp: finish_section_def Let_def record_result_def launching_def split: if_splits)

lemma launching_parts: "a \<in># launching q \<Longrightarrow> q = Some (activity_part a)"
  by (auto simp: launching_def split: option.splits)

lemma size_launching: "size (launching q) = (if q = None then 0 else 1)"
  by (simp add: launching_def split: option.split)

lemma main_part_notify: "main_part (notify b m) = main_part m"
  by (simp add: notify_def)

lemma main_part_None: "main_part m = None \<longleftrightarrow> (\<forall>p. m \<noteq> Launching p)"
  by (cases m) auto

lemma notify_cases:
  "notify b m = Launching p \<longleftrightarrow> m = Launching p" "notify b m = Joined \<longleftrightarrow> m = Joined"
  "notify b m = Choosing i \<longleftrightarrow> m = Choosing i"
  "notify b m = Waiting False \<longleftrightarrow> m = Waiting False \<and> \<not> b"
  by (auto simp: notify_def)

lemma size_remove:
  assumes "a \<in># M"
  shows "0 < size M" and "size (M - {#a#}) = size M - 1"
proof -
  show "0 < size M" using assms by (metis empty_iff gr0I set_mset_empty size_eq_0_iff_empty)
  show "size (M - {#a#}) = size M - 1" using assms by (rule size_Diff_singleton)
qed

lemma download_inv_step: "download_step covered s s' \<Longrightarrow> download_inv covered s \<Longrightarrow> download_inv covered s'"
proof (induction rule: download_step.induct)
  case (main_launches s i p)
  then show ?case using choose_part_Some[OF main_launches(2)]
    by (simp add: download_inv_def busy_threads_def section_defs)
next
  case (main_has_launched s p)
  then show ?case by (simp add: download_inv_def busy_threads_def section_defs)
next
  case (main_launch_fails s p stored)
  then show ?case by (simp add: download_inv_def busy_threads_def section_defs)
next
  case (main_stops s i)
  then show ?case by (simp add: download_inv_def busy_threads_def)
next
  case (main_sleeps s)
  then show ?case by (simp add: download_inv_def busy_threads_def)
next
  case (main_joins s)
  then show ?case by (simp add: download_inv_def busy_threads_def)
next
  case (request_finishes p s e q c)
  note fin = finish_section_cases[OF request_finishes(2)]
  note sz = size_remove[OF request_finishes(1)]
  have "activity_part a < length covered" if "a \<in># launching q" for a
    using fin(7)[OF launching_parts[OF that]] request_finishes(3) by (simp add: download_inv_def)
  then show ?case
    using request_finishes(3) fin(1-6) sz
    unfolding download_inv_def busy_threads_def
    by (cases q) (auto simp: main_part_notify notify_cases size_launching
        split: option.splits dest!: in_diffD)
next
  case (callback_has_launched p s)
  note sz = size_remove[OF callback_has_launched(1)]
  have "p < length covered" using callback_has_launched by (force simp: download_inv_def)
  then show ?case
    using callback_has_launched sz
    by (auto simp: download_inv_def busy_threads_def section_defs dest: in_diffD)
next
  case (callback_launch_fails p s c stored)
  note sz = size_remove[OF callback_launch_fails(1)]
  show ?case
    using callback_launch_fails sz
    by (auto simp: download_inv_def busy_threads_def section_defs Let_def main_part_notify notify_cases
        dest: in_diffD)
qed

section \<open>Every run ends with the main thread joined\<close>

fun activity_weight :: "activity \<Rightarrow> nat" where
  "activity_weight (Requested p) = 1"
| "activity_weight (Starting p) = 2"

fun main_rank :: "nat \<Rightarrow> main_thread \<Rightarrow> nat" where
  "main_rank n (Choosing i) = 2 * (n - i) + 2"
| "main_rank n (Launching p) = 2 * (n - p) + 1"
| "main_rank n m = 0"

fun wait_rank :: "main_thread \<Rightarrow> nat" where
  "wait_rank (Waiting b) = (if b then 2 else 1)"
| "wait_rank m = 0"

text \<open>What a run still has to do: the main loop first, then the parts left to the callbacks, then
  the active requests, then the wait.\<close>

definition download_order :: "bool list \<Rightarrow> (download_run \<times> download_run) set" where
  "download_order covered =
     inv_image (less_than <*lex*> less_than <*lex*> less_than <*lex*> less_than)
       (\<lambda>s. (main_rank (length covered) (dr_main s),
             dc_parts_to_download (dr_coord s) - dc_next_part_to_start (dr_coord s),
             sum_mset (image_mset activity_weight (dr_active s)), wait_rank (dr_main s)))"

lemma wf_download_order: "wf (download_order covered)"
  by (simp add: download_order_def wf_lex_prod)

lemma weight_remove:
  "a \<in># M \<Longrightarrow> sum_mset (image_mset activity_weight M)
     = activity_weight a + sum_mset (image_mset activity_weight (M - {#a#}))"
  by (metis image_mset_add_mset insert_DiffM sum_mset.add_mset)

lemma main_rank_notify: "main_rank n (notify b m) = main_rank n m"
  by (simp add: notify_def)

lemma download_step_decreases:
  "download_step covered s s' \<Longrightarrow> download_inv covered s \<Longrightarrow> (s', s) \<in> download_order covered"
proof (induction rule: download_step.induct)
  case (main_launches s i p)
  then have "length covered - p \<le> length covered - i"
    using choose_part_Some(2)[OF main_launches(2)] by (intro diff_le_mono2)
  then have "2 * (length covered - p) < Suc (2 * (length covered - i))" by linarith
  then show ?case using main_launches(1) by (simp add: download_order_def)
next
  case (request_finishes p s e q c)
  note fin = finish_section_cases[OF request_finishes(2)]
  show ?case
  proof (cases q)
    case None
    then show ?thesis
      using fin(2,8) weight_remove[OF request_finishes(1)]
      by (simp add: download_order_def main_rank_notify launching_def)
  next
    case (Some x)
    then show ?thesis using fin(2) fin(7)[OF Some] by (auto simp: download_order_def main_rank_notify)
  qed
next
  case (callback_has_launched p s)
  then show ?case
    using weight_remove[OF callback_has_launched(1)] by (simp add: download_order_def section_defs)
next
  case (callback_launch_fails p s c stored)
  then show ?case
    using weight_remove[OF callback_launch_fails(1)]
    by (simp add: download_order_def section_defs Let_def main_rank_notify)
qed (auto simp: download_order_def download_inv_def)

lemma download_progress:
  assumes "download_inv covered s" and "dr_main s \<noteq> Joined"
  shows "\<exists>s'. download_step covered s s'"
proof (cases "dr_main s")
  case (Choosing i)
  then show ?thesis
    by (cases "choose_part covered i (dr_coord s)") (blast intro: main_launches main_stops)+
next
  case (Launching p)
  then show ?thesis by (blast intro: main_has_launched)
next
  case (Waiting b)
  show ?thesis
  proof (cases b)
    case True
    then show ?thesis using Waiting main_sleeps main_joins by (metis neq0_conv)
  next
    case False
    then have "dr_active s \<noteq> {#}"
      using assms(1) Waiting by (auto simp: download_inv_def busy_threads_def)
    then obtain a where a: "a \<in># dr_active s" by blast
    show ?thesis
    proof (cases a)
      case (Requested p)
      obtain q c where "finish_section 0 (dr_coord s) = (q, c)" by fastforce
      then show ?thesis using a Requested by (blast intro: request_finishes)
    next
      case (Starting p)
      then show ?thesis using a by (blast intro: callback_has_launched)
    qed
  qed
qed (use assms in simp)

lemma joined_quiet:
  assumes "download_inv covered s" and "dr_main s = Joined"
  shows "\<not> download_step covered s s'"
proof -
  have "dr_active s = {#}" using assms by (simp add: download_inv_def busy_threads_def)
  then show ?thesis using assms(2) by (auto elim: download_step.cases)
qed

interpretation downloads: quiet_pool "\<lambda>s. s = start_download m covered" "download_step covered"
    "\<lambda>s. dr_main s = Joined" "download_inv covered" "download_order covered" for m covered
  by unfold_locales
    (use download_inv_start download_inv_step download_progress wf_download_order
      download_step_decreases joined_quiet in blast)+

section \<open>Every part is downloaded\<close>

text \<open>The parts below \<open>a\<close> are not buffered, and their number is not more than the number of parts to
  download. Between the choice and the end of its request a part is held by a thread.\<close>

definition held :: "nat \<Rightarrow> download_run \<Rightarrow> bool" where
  "held p s \<longleftrightarrow> p \<in> set (dr_completed s) \<or> Requested p \<in># dr_active s \<or> Starting p \<in># dr_active s
     \<or> dr_main s = Launching p"

fun main_index :: "nat \<Rightarrow> main_thread \<Rightarrow> nat" where
  "main_index n (Choosing i) = i"
| "main_index n (Launching p) = p"
| "main_index n m = 0"

definition complete_inv :: "bool list \<Rightarrow> nat \<Rightarrow> download_run \<Rightarrow> bool" where
  "complete_inv covered a s \<longleftrightarrow>
     dc_parts_to_download (dr_coord s) = length (filter Not covered) \<and>
     0 < dc_max_concurrent (dr_coord s) \<and>
     (\<not> dc_cancel_requested (dr_coord s) \<longrightarrow>
        (\<forall>p < a. p < dc_next_part_to_start (dr_coord s) \<or> p < main_index a (dr_main s) \<longrightarrow> held p s) \<and>
        ((\<exists>b. dr_main s = Waiting b) \<or> dr_main s = Joined \<longrightarrow>
           dr_active s \<noteq> {#} \<or> dc_parts_to_download (dr_coord s) \<le> dc_next_part_to_start (dr_coord s)
           \<or> (\<forall>p < a. held p s)))"

lemma complete_inv_start: "0 < m \<Longrightarrow> complete_inv covered a (start_download m covered)"
  by (simp add: complete_inv_def start_download_def new_coordinator_def)

lemma failed_cancels [simp]:
  "dc_cancel_requested (launch_failed_section c)" "dc_cancel_requested (next_failed_section c)"
  by (simp_all add: section_defs Let_def)

lemma in_remove_other: "a \<noteq> b \<Longrightarrow> a \<in># M - {#b#} \<longleftrightarrow> a \<in># M"
  by (simp add: in_diff_count)

lemma held_step:
  "download_step covered s s' \<Longrightarrow> \<not> dc_cancel_requested (dr_coord s') \<Longrightarrow> held p s \<Longrightarrow> held p s'"
proof (induction rule: download_step.induct)
  case (request_finishes r s e q c)
  then have "e = 0" using finish_section_cases(5)[OF request_finishes(2)] by simp
  then show ?case
    using request_finishes(4) by (cases "p = r") (auto simp: held_def notify_cases in_remove_other)
next
  case (callback_has_launched r s)
  then show ?case by (cases "p = r") (auto simp: held_def in_remove_other)
qed (auto simp: held_def)

lemma cancel_step:
  "download_step covered s s' \<Longrightarrow> dc_cancel_requested (dr_coord s) \<Longrightarrow> dc_cancel_requested (dr_coord s')"
  by (induction rule: download_step.induct)
    (auto simp: launch_section_def context_stored_def finish_section_cases(5))

lemma complete_inv_step:
  assumes "download_step covered s s'" and "download_inv covered s" and "complete_inv covered a s"
    and low: "a \<le> length covered" "\<And>p. p < a \<Longrightarrow> \<not> covered ! p"
  shows "complete_inv covered a s'"
proof (cases "dc_cancel_requested (dr_coord s')")
  case True
  show ?thesis
    using assms(1) True assms(3)
    by (cases rule: download_step.cases)
      (auto simp: complete_inv_def section_defs Let_def finish_section_cases(1,2))
next
  case False
  then have nc: "\<not> dc_cancel_requested (dr_coord s)" using cancel_step[OF assms(1)] by blast
  note held = held_step[OF assms(1) False]
  have ci: "dc_parts_to_download (dr_coord s) = length (filter Not covered)"
    "0 < dc_max_concurrent (dr_coord s)"
    "p < a \<Longrightarrow> p < dc_next_part_to_start (dr_coord s) \<or> p < main_index a (dr_main s) \<Longrightarrow> held p s"
    "(\<exists>b. dr_main s = Waiting b) \<or> dr_main s = Joined \<Longrightarrow> dr_active s \<noteq> {#} \<or>
       dc_parts_to_download (dr_coord s) \<le> dc_next_part_to_start (dr_coord s) \<or> (\<forall>p < a. held p s)" for p
    using assms(3) nc by (auto simp: complete_inv_def)
  from assms(1) show ?thesis
  proof (cases rule: download_step.cases)
    case (main_launches i p)
    have "held r s'" if "r < a" "r \<le> p" for r
    proof (cases "r = p")
      case True
      then show ?thesis using main_launches by (simp add: held_def)
    next
      case False
      then have "r < i"
        using that low(2) choose_part_Some(5)[OF main_launches(3), of r] by (meson leI le_neq_implies_less)
      then show ?thesis using ci(3)[of r] that main_launches(2) held by simp
    qed
    then show ?thesis using main_launches ci(1,2) by (simp add: complete_inv_def launch_section_def)
  next
    case (main_has_launched p)
    have "held r s'" if "r < a" "r < dc_next_part_to_start (dr_coord s) \<or> r < p + 1" for r
    proof (cases "r = p")
      case True
      then show ?thesis using main_has_launched by (simp add: held_def)
    next
      case False
      then show ?thesis using ci(3)[of r] that main_has_launched(2) held by auto
    qed
    then show ?thesis using main_has_launched ci(1,2) by (simp add: complete_inv_def context_stored_def)
  next
    case (main_stops i)
    have "dr_active s' \<noteq> {#} \<or> (\<forall>p < a. held p s')"
    proof (cases "a \<le> i")
      case True
      then show ?thesis using ci(3) main_stops(2) held by auto
    next
      case False
      then have "dc_max_concurrent (dr_coord s) \<le> dc_parts_in_flight (dr_coord s)"
        using choose_part_None[OF main_stops(3), of i] low by simp
      then show ?thesis
        using assms(2) ci(2) main_stops by (auto simp: download_inv_def busy_threads_def)
    qed
    moreover have "held p s'" if "p < a" "p < dc_next_part_to_start (dr_coord s)" for p
      using ci(3)[of p] that held by blast
    ultimately show ?thesis using main_stops ci(1,2) by (auto simp: complete_inv_def)
  next
    case (request_finishes p e q c)
    note fin = finish_section_cases[OF request_finishes(3)]
    have "held r s'" if "r < a" "r < dc_next_part_to_start c \<or> r < main_index a (dr_main s')" for r
    proof (cases "q = Some r")
      case True
      then show ?thesis using request_finishes by (simp add: held_def launching_def)
    next
      case False
      then have "r < dc_next_part_to_start (dr_coord s) \<or> r < main_index a (dr_main s)"
        using that fin(7,8) request_finishes
        by (cases q; cases "dr_main s") (auto simp: notify_def split: if_splits)
      then show ?thesis using ci(3) that(1) held by blast
    qed
    moreover have "dr_active s' \<noteq> {#} \<or> dc_parts_to_download c \<le> dc_next_part_to_start c \<or> (\<forall>p < a. held p s')"
      using fin(2,7,8) False request_finishes by (cases q) (auto simp: launching_def)
    ultimately show ?thesis using request_finishes ci(1,2) fin(1,2) by (auto simp: complete_inv_def)
  next
    case (callback_has_launched p)
    then show ?thesis using ci held by (auto simp: complete_inv_def context_stored_def)
  next
    case (callback_launch_fails p c stored)
    then show ?thesis using False by simp
  next
    case (main_launch_fails p stored)
    then show ?thesis using False by simp
  next
    case main_sleeps
    then show ?thesis using ci held by (auto simp: complete_inv_def)
  next
    case main_joins
    then show ?thesis using ci held by (auto simp: complete_inv_def)
  qed
qed

section \<open>Properties\<close>

text \<open>C29: the concurrent downloads end. There is no infinite interleaving, every interleaving can be
  continued until the main thread has joined, no wake-up is lost, and once the main thread has
  joined no thread uses the coordinator any more.\<close>

theorem downloads_end:
  "(\<forall>s. (download_step covered)\<^sup>*\<^sup>* (start_download m covered) s \<longrightarrow>
      (\<exists>s'. (download_step covered)\<^sup>*\<^sup>* s s' \<and> dr_main s' = Joined) \<and>
      (dr_main s = Joined \<longleftrightarrow> (\<nexists>s'. download_step covered s s'))) \<and>
   (\<forall>run. run 0 = start_download m covered \<longrightarrow> (\<exists>i. \<not> download_step covered (run i) (run (Suc i))))"
  using downloads.reachable_joins[OF refl] downloads.joined_is_final[OF refl] downloads.no_infinite_run
  by blast

theorem downloads_end_witness:
  "\<exists>s. (download_step [False, False])\<^sup>*\<^sup>* (start_download 1 [False, False]) s \<and> dr_main s = Joined"
  using downloads_end[of "[False, False]" 1] by blast

text \<open>C30: \<open>parts_in_flight\<close> counts exactly the requests and launches that are under way and never
  exceeds the limit; all part numbers that are used are inside the arrays; the first error is
  recorded exactly when the download is cancelled.\<close>

theorem downloads_counted:
  assumes "(download_step covered)\<^sup>*\<^sup>* (start_download m covered) s"
  shows "dc_parts_in_flight (dr_coord s) = busy_threads s \<and> busy_threads s \<le> m \<and>
     (\<forall>a \<in># dr_active s. activity_part a < length (dc_part_contexts (dr_coord s))) \<and>
     (\<forall>p. dr_main s = Launching p \<longrightarrow> p < length (dc_part_contexts (dr_coord s))) \<and>
     (dc_cancel_requested (dr_coord s) \<longleftrightarrow> dc_first_error_code (dr_coord s) \<noteq> 0)"
proof -
  have "dc_max_concurrent (dr_coord s) = m"
    using assms
    by (induction rule: rtranclp_induct)
      (auto simp: start_download_def new_coordinator_def section_defs Let_def finish_section_cases(1)
        elim!: download_step.cases)
  with downloads.inv_reachable[OF refl assms] show ?thesis by (simp add: download_inv_def)
qed

text \<open>The parts below \<open>a\<close> are not buffered.\<close>

lemma low_parts_downloaded:
  assumes "(download_step covered)\<^sup>*\<^sup>* (start_download m covered) s" and "dr_main s = Joined"
    and "dc_first_error_code (dr_coord s) = 0" and "0 < m"
    and "a \<le> length covered" and "\<And>p. p < a \<Longrightarrow> \<not> covered ! p"
  shows "{..<a} \<subseteq> set (dr_completed s)"
proof -
  have "complete_inv covered a s"
    using assms(1)
  proof (induction rule: rtranclp_induct)
    case base
    show ?case using assms(4) by (rule complete_inv_start)
  next
    case (step s s')
    then show ?case using complete_inv_step downloads.inv_reachable[OF refl] assms(5,6) by blast
  qed
  moreover have inv: "download_inv covered s" using downloads.inv_reachable[OF refl assms(1)] .
  moreover have "a \<le> length (filter Not covered)"
  proof -
    have "filter Not (take a covered) = take a covered"
      using assms(5,6) by (auto simp: filter_id_conv in_set_conv_nth)
    then have "length (filter Not (take a covered)) = a" using assms(5) by simp
    moreover have "filter Not covered = filter Not (take a covered) @ filter Not (drop a covered)"
      by (metis append_take_drop_id filter_append)
    ultimately show ?thesis by simp
  qed
  ultimately have "\<forall>p < a. held p s"
    using assms(2,3) by (auto simp: complete_inv_def download_inv_def busy_threads_def)
  moreover have "dr_active s = {#}" using inv assms(2) by (simp add: download_inv_def busy_threads_def)
  ultimately show ?thesis using assms(2) by (auto simp: held_def)
qed

text \<open>The segments that were fetched with the directory end where it begins or later.\<close>

definition segments_reach :: "u64 \<Rightarrow> body_data_segment list \<Rightarrow> bool" where
  "segments_reach central_dir_offset segs \<longleftrightarrow> (\<forall>seg \<in> set segs. central_dir_offset \<le> segment_end seg)"

lemma fetched_segment_reaches:
  assumes "a \<le> unat cdo" and "unat cdo \<le> length A"
  shows "segments_reach cdo [\<lparr>bs_data = archive_slice A a (unat cdo), bs_archive_offset = of_nat a\<rparr>]"
  using assms by (simp add: segments_reach_def segment_end_def archive_slice_def of_nat_diff)

lemma tail_segment_reaches:
  assumes "add_tail_buffer_segment ok [] buffer start cdo = Ok (map Some segs)"
    and "unat start + length buffer < 2 ^ 64" and "unat cdo \<le> unat start + length buffer"
  shows "segments_reach cdo segs"
proof -
  have "\<not> start + of_nat (length buffer) < cdo"
    using assms(2,3) by (simp add: word_less_nat_alt unat_word_ariths unat_of_nat)
  then have "segs = [] \<or> start < cdo \<and> segs = [\<lparr>bs_data = take (unat (cdo - start)) buffer, bs_archive_offset = start\<rparr>]"
    using assms(1) by (auto simp: add_tail_buffer_segment_def Let_def map_eq_Cons_conv split: if_splits)
  moreover have "start < cdo \<Longrightarrow> unat (cdo - start) \<le> length buffer"
    using assms(3) by (simp add: unat_sub word_le_nat_alt word_less_nat_alt)
  ultimately show ?thesis by (auto simp: segments_reach_def segment_end_def min_absorb2)
qed

lemma covered_from_there_on:
  assumes reach: "segments_reach cdo segs" and size: "n * unat part_size < 2 ^ 64"
    and q: "part_has_full_body_data part_size cdo segs q" "q \<le> p" and p: "p < n" "p * unat part_size < unat cdo"
  shows "part_has_full_body_data part_size cdo segs p"
proof -
  let ?b = "\<lambda>r. part_body part_size cdo (of_nat r)"
  have u: "unat (fst (?b r)) = r * unat part_size"
    "unat (snd (?b r)) = min ((r + 1) * unat part_size) (unat cdo)" if "r \<le> p" for r
  proof -
    have "(r + 1) * unat part_size \<le> n * unat part_size" using that p(1) by (intro mult_le_mono1) simp
    then have "(r + 1) * unat part_size < 2 ^ 64" using size by (rule le_less_trans)
    from unat_part_body[OF this] show "unat (fst (?b r)) = r * unat part_size"
      "unat (snd (?b r)) = min ((r + 1) * unat part_size) (unat cdo)" .
  qed
  obtain seg where seg: "seg \<in> set segs" "bs_archive_offset seg \<le> fst (?b q)" and lt: "fst (?b q) < snd (?b q)"
    using q(1) by (auto simp: part_has_full_body_data_def list_ex_iff split: prod.splits)
  have "0 < unat part_size" using lt u[OF q(2)] by (cases "unat part_size = 0") (simp_all add: word_less_nat_alt)
  then have "fst (?b p) < snd (?b p)" using u[of p] p(2) by (simp add: word_less_nat_alt)
  moreover have "fst (?b q) \<le> fst (?b p)" using u(1) q(2) by (simp add: word_le_nat_alt)
  then have "bs_archive_offset seg \<le> fst (?b p)" using seg(2) by simp
  moreover have "snd (?b p) \<le> cdo" using u(2)[of p] by (simp add: word_le_nat_alt)
  then have "snd (?b p) \<le> segment_end seg" using reach seg(1) by (auto simp: segments_reach_def)
  ultimately show ?thesis
    using seg(1) by (auto simp: part_has_full_body_data_def list_ex_iff split: prod.splits)
qed

text \<open>C28: no part is missing. Let the bitmap be that of \<open>burst_downloader_extract_concurrent\<close> for segments that
  reach the directory, as the two kinds of segments of the program do (\<open>fetched_segment_reaches\<close>,
  \<open>tail_segment_reaches\<close>). When the concurrent downloads end without an error, in any interleaving, every part
  that holds some bytes before the directory has been requested and completed, or its whole body is in a segment and it is
  processed from there. Parts that lie entirely in the directory are not claimed: they are marked as not
  buffered, and the code requests them or not.\<close>

theorem all_parts_downloaded:
  fixes n :: nat and part_size cdo :: u64 and segs :: "body_data_segment list"
  defines "covered \<equiv> map (part_has_full_body_data part_size cdo segs) [0..<n]"
  assumes "(download_step covered)\<^sup>*\<^sup>* (start_download m covered) s" and "dr_main s = Joined"
    and "dc_first_error_code (dr_coord s) = 0" and "0 < m"
    and "segments_reach cdo segs" and "n * unat part_size < 2 ^ 64"
    and "p < n" and "p * unat part_size < unat cdo"
  shows "p \<in> set (dr_completed s) \<or> covered ! p"
proof (rule disjCI)
  assume p: "\<not> covered ! p"
  have low: "\<not> covered ! q" if "q < p + 1" for q
    using p covered_from_there_on[OF assms(6,7), of q p] that assms(8,9) by (auto simp: covered_def)
  have "p + 1 \<le> length covered" using assms(8) by (simp add: covered_def)
  from low_parts_downloaded[OF assms(2-5) this low] show "p \<in> set (dr_completed s)" by auto
qed

section \<open>Concrete runs\<close>

lemmas run_defs = start_download_def new_coordinator_def choose_part_def skip_covered_def
  finish_section_def section_defs launching_def notify_def busy_threads_def

lemma steps_then: "r\<^sup>*\<^sup>* a b \<Longrightarrow> r b c \<Longrightarrow> r\<^sup>*\<^sup>* a c"
  by (rule rtranclp.rtrancl_into_rtrancl)

text \<open>One part, downloaded without an error.\<close>

lemma single_part_run:
  "\<exists>s. (download_step [False])\<^sup>*\<^sup>* (start_download 1 [False]) s \<and> dr_main s = Joined \<and>
     dc_first_error_code (dr_coord s) = 0 \<and> dr_completed s = [0]"
proof -
  define s0 where "s0 = start_download 1 [False]"
  define s1 where "s1 = s0\<lparr>dr_coord := launch_section 0 (dr_coord s0), dr_main := Launching 0\<rparr>"
  define s2 where "s2 = s1\<lparr>dr_coord := context_stored 0 (dr_coord s1), dr_main := Choosing (0 + 1),
    dr_active := add_mset (Requested 0) (dr_active s1), dr_started := dr_started s1 @ [0]\<rparr>"
  define s3 where "s3 = s2\<lparr>dr_main := Waiting True\<rparr>"
  define c where "c = snd (finish_section 0 (dr_coord s3))"
  define s4 where "s4 = s3\<lparr>dr_coord := c, dr_main := notify (None = (None :: nat option) \<and> dc_parts_in_flight c = 0) (dr_main s3),
    dr_active := launching None + (dr_active s3 - {#Requested 0#}),
    dr_completed := (if (0 :: int) = 0 then dr_completed s3 @ [0] else dr_completed s3)\<rparr>"
  define s5 where "s5 = s4\<lparr>dr_main := Joined\<rparr>"
  note defs = s5_def s4_def c_def s3_def s2_def s1_def s0_def run_defs Let_def
  have "(download_step [False])\<^sup>*\<^sup>* s0 s1"
    unfolding s1_def by (rule r_into_rtranclp, rule main_launches[where i = 0]) (simp_all add: defs)
  then have "(download_step [False])\<^sup>*\<^sup>* s0 s2"
    unfolding s2_def by (rule steps_then, intro main_has_launched) (simp add: defs)
  then have "(download_step [False])\<^sup>*\<^sup>* s0 s3"
    unfolding s3_def by (rule steps_then, intro main_stops[where i = 1]) (simp_all add: defs)
  then have "(download_step [False])\<^sup>*\<^sup>* s0 s4"
    unfolding s4_def by (rule steps_then, intro request_finishes) (simp_all add: defs)
  then have "(download_step [False])\<^sup>*\<^sup>* s0 s5"
    unfolding s5_def by (rule steps_then, intro main_joins) (simp_all add: defs)
  then show ?thesis unfolding s0_def by (rule exI[of _ s5, OF conjI]) (simp add: defs)
qed

text \<open>Three parts: the body of the second one is buffered, the third one lies in the directory. The callback of the
  first part requests the second one.\<close>

lemma buffered_part_run:
  "\<exists>s. (download_step [False, True, False])\<^sup>*\<^sup>* (start_download 1 [False, True, False]) s \<and> dr_main s = Joined \<and>
     dc_first_error_code (dr_coord s) = 0 \<and> dr_started s = [0, 1] \<and> dr_completed s = [0, 1]"
proof -
  let ?R = "download_step [False, True, False]"
  define s0 where "s0 = start_download 1 [False, True, False]"
  define s1 where "s1 = s0\<lparr>dr_coord := launch_section 0 (dr_coord s0), dr_main := Launching 0\<rparr>"
  define s2 where "s2 = s1\<lparr>dr_coord := context_stored 0 (dr_coord s1), dr_main := Choosing (0 + 1),
    dr_active := add_mset (Requested 0) (dr_active s1), dr_started := dr_started s1 @ [0]\<rparr>"
  define s3 where "s3 = s2\<lparr>dr_main := Waiting True\<rparr>"
  define c where "c = snd (finish_section 0 (dr_coord s3))"
  define s4 where "s4 = s3\<lparr>dr_coord := c, dr_main := notify (Some (1 :: nat) = None \<and> dc_parts_in_flight c = 0) (dr_main s3),
    dr_active := launching (Some 1) + (dr_active s3 - {#Requested 0#}),
    dr_completed := (if (0 :: int) = 0 then dr_completed s3 @ [0] else dr_completed s3)\<rparr>"
  define s5 where "s5 = s4\<lparr>dr_coord := context_stored 1 (dr_coord s4),
    dr_active := add_mset (Requested 1) (dr_active s4 - {#Starting 1#}), dr_started := dr_started s4 @ [1]\<rparr>"
  define d where "d = snd (finish_section 0 (dr_coord s5))"
  define s6 where "s6 = s5\<lparr>dr_coord := d, dr_main := notify (None = (None :: nat option) \<and> dc_parts_in_flight d = 0) (dr_main s5),
    dr_active := launching None + (dr_active s5 - {#Requested 1#}),
    dr_completed := (if (0 :: int) = 0 then dr_completed s5 @ [1] else dr_completed s5)\<rparr>"
  define s7 where "s7 = s6\<lparr>dr_main := Joined\<rparr>"
  note defs = s7_def s6_def d_def s5_def s4_def c_def s3_def s2_def s1_def s0_def run_defs Let_def
  have "?R\<^sup>*\<^sup>* s0 s1"
    unfolding s1_def by (rule r_into_rtranclp, rule main_launches[where i = 0]) (simp_all add: defs)
  then have "?R\<^sup>*\<^sup>* s0 s2"
    unfolding s2_def by (rule steps_then, intro main_has_launched) (simp add: defs)
  then have "?R\<^sup>*\<^sup>* s0 s3"
    unfolding s3_def by (rule steps_then, intro main_stops[where i = 1]) (simp_all add: defs)
  then have "?R\<^sup>*\<^sup>* s0 s4"
    unfolding s4_def by (rule steps_then, intro request_finishes) (simp_all add: defs)
  then have "?R\<^sup>*\<^sup>* s0 s5"
    unfolding s5_def by (rule steps_then, intro callback_has_launched) (simp add: defs)
  then have "?R\<^sup>*\<^sup>* s0 s6"
    unfolding s6_def by (rule steps_then, intro request_finishes) (simp_all add: defs)
  then have "?R\<^sup>*\<^sup>* s0 s7"
    unfolding s7_def by (rule steps_then, intro main_joins) (simp_all add: defs)
  then show ?thesis unfolding s0_def by (rule exI[of _ s7, OF conjI]) (simp add: defs)
qed

theorem all_parts_downloaded_witness:
  "\<exists>s. (download_step [False, True, False])\<^sup>*\<^sup>* (start_download 1 [False, True, False]) s \<and> dr_main s = Joined \<and>
     [False, True, False] = map (part_has_full_body_data 2 4 [\<lparr>bs_data = [7, 8], bs_archive_offset = 2\<rparr>]) [0..<3] \<and>
     0 \<in> set (dr_completed s)"
proof -
  let ?segs = "[\<lparr>bs_data = [7, 8], bs_archive_offset = 2\<rparr>] :: body_data_segment list"
  have cov: "map (part_has_full_body_data 2 4 ?segs) [0..<3] = [False, True, False]"
    by (simp add: upt_rec part_has_full_body_data_def part_body_def segment_end_def)
  obtain s where s: "(download_step [False, True, False])\<^sup>*\<^sup>* (start_download 1 [False, True, False]) s" "dr_main s = Joined"
    "dc_first_error_code (dr_coord s) = 0" using buffered_part_run by blast
  have "segments_reach 4 ?segs" by (simp add: segments_reach_def segment_end_def)
  then have "0 \<in> set (dr_completed s) \<or> [False, True, False] ! 0"
    using all_parts_downloaded[of 2 4 ?segs 3 1 s 0] s unfolding cov by simp
  then show ?thesis using s cov by auto
qed

theorem downloads_counted_witness:
  "\<exists>s. (download_step [False])\<^sup>*\<^sup>* (start_download 1 [False]) s \<and> dr_main s = Joined \<and>
     dc_parts_in_flight (dr_coord s) = busy_threads s \<and> busy_threads s \<le> 1"
  using single_part_run downloads_counted[of "[False]" 1] by blast

text \<open>The callback of part 0 runs while the main thread is still in its loop.\<close>

lemma same_part_requested_twice:
  "\<exists>s. (download_step [False, False, False])\<^sup>*\<^sup>* (start_download 2 [False, False, False]) s \<and>
     dr_active s = {#Requested 1, Requested 1#} \<and> dr_started s = [0, 1, 1]"
proof -
  let ?R = "download_step [False, False, False]"
  define s0 where "s0 = start_download 2 [False, False, False]"
  define s1 where "s1 = s0\<lparr>dr_coord := launch_section 0 (dr_coord s0), dr_main := Launching 0\<rparr>"
  define s2 where "s2 = s1\<lparr>dr_coord := context_stored 0 (dr_coord s1), dr_main := Choosing (0 + 1),
    dr_active := add_mset (Requested 0) (dr_active s1), dr_started := dr_started s1 @ [0]\<rparr>"
  define c where "c = snd (finish_section 0 (dr_coord s2))"
  define s3 where "s3 = s2\<lparr>dr_coord := c, dr_main := notify (Some (1 :: nat) = None \<and> dc_parts_in_flight c = 0) (dr_main s2),
    dr_active := launching (Some 1) + (dr_active s2 - {#Requested 0#}),
    dr_completed := (if (0 :: int) = 0 then dr_completed s2 @ [0] else dr_completed s2)\<rparr>"
  define s4 where "s4 = s3\<lparr>dr_coord := launch_section 1 (dr_coord s3), dr_main := Launching 1\<rparr>"
  define s5 where "s5 = s4\<lparr>dr_coord := context_stored 1 (dr_coord s4), dr_main := Choosing (1 + 1),
    dr_active := add_mset (Requested 1) (dr_active s4), dr_started := dr_started s4 @ [1]\<rparr>"
  define s6 where "s6 = s5\<lparr>dr_coord := context_stored 1 (dr_coord s5),
    dr_active := add_mset (Requested 1) (dr_active s5 - {#Starting 1#}), dr_started := dr_started s5 @ [1]\<rparr>"
  note defs = s6_def s5_def s4_def s3_def c_def s2_def s1_def s0_def run_defs Let_def
  have "?R\<^sup>*\<^sup>* s0 s1"
    unfolding s1_def by (rule r_into_rtranclp, rule main_launches[where i = 0]) (simp_all add: defs)
  then have "?R\<^sup>*\<^sup>* s0 s2"
    unfolding s2_def by (rule steps_then, intro main_has_launched) (simp add: defs)
  then have "?R\<^sup>*\<^sup>* s0 s3"
    unfolding s3_def by (rule steps_then, intro request_finishes) (simp_all add: defs)
  then have "?R\<^sup>*\<^sup>* s0 s4"
    unfolding s4_def by (rule steps_then, intro main_launches[where i = 1]) (simp_all add: defs)
  then have "?R\<^sup>*\<^sup>* s0 s5"
    unfolding s5_def by (rule steps_then, intro main_has_launched) (simp add: defs)
  then have "?R\<^sup>*\<^sup>* s0 s6"
    unfolding s6_def by (rule steps_then, intro callback_has_launched) (simp add: defs)
  then show ?thesis
    unfolding s0_def by (rule exI[of _ s6, OF conjI]) (simp add: defs)
qed

text \<open>C31: two threads may download the same part. A callback that runs while the main thread is
  still in its loop takes the part that the main thread launches next: two requests for part 1 are
  under way at once. Even without that, the callback compares an index with the number of parts to
  download, so it may request a part whose body is already buffered.\<close>

theorem downloads_not_exclusive:
  "(\<exists>s. (download_step [False, False, False])\<^sup>*\<^sup>* (start_download 2 [False, False, False]) s \<and>
      dr_active s = {#Requested 1, Requested 1#} \<and> dr_started s = [0, 1, 1]) \<and>
   (\<exists>s. (download_step [False, True, False])\<^sup>*\<^sup>* (start_download 1 [False, True, False]) s \<and>
      dr_started s = [0, 1])"
  using same_part_requested_twice buffered_part_run by blast

end
