(* ===== verification/Range_Fetch.thy ===== *)
theory Range_Fetch
  imports Part_Download Stream_Processor
begin

text \<open>
  Fetching the ranges of a large central directory (\<open>src/downloader/cd_fetch.c\<close>, lines 311-700):
  the callbacks that collect the body of one response, and the coordinator of
  \<open>burst_downloader_fetch_cd_ranges\<close>. The conventions are those of the part downloads; both the main
  thread and the callbacks take the next range from \<open>next_range_to_start\<close> under the mutex. \<open>answer\<close>
  gives the bytes that a request without an error delivers (the S3 object is the environment).
\<close>

section \<open>Collecting a response\<close>

record cd_range_fetch_context =
  rx_buffer :: bytes
  rx_buffer_capacity :: nat
  rx_error_code :: int

definition new_range_context :: cd_range_fetch_context where
  "new_range_context = \<lparr>rx_buffer = [], rx_buffer_capacity = 0, rx_error_code = 0\<rparr>"

text \<open>\<open>got\<close> is the answer of \<open>realloc\<close>, if it is called; \<open>False\<close> is returned for \<open>AWS_OP_ERR\<close>. The sizes
  are natural numbers: the capacity stays below twice the number of bytes, see below.\<close>

definition cd_range_body_callback ::
  "bool \<Rightarrow> bytes \<Rightarrow> cd_range_fetch_context \<Rightarrow> bool \<times> cd_range_fetch_context" where
  "cd_range_body_callback got body ctx =
     (let new_size = length (rx_buffer ctx) + length body
      in if new_size > rx_buffer_capacity ctx then
           let new_capacity =
                 grow_capacity (if rx_buffer_capacity ctx = 0 then 4096 else rx_buffer_capacity ctx * 2)
                   new_size
           in if \<not> got then (False, ctx\<lparr>rx_error_code := -1\<rparr>)
              else (True, ctx\<lparr>rx_buffer_capacity := new_capacity, rx_buffer := rx_buffer ctx @ body\<rparr>)
         else (True, ctx\<lparr>rx_buffer := rx_buffer ctx @ body\<rparr>))"

definition cd_range_headers_callback :: "int \<Rightarrow> cd_range_fetch_context \<Rightarrow> cd_range_fetch_context" where
  "cd_range_headers_callback response_status ctx =
     (if response_status < 200 \<or> response_status \<ge> 300 then ctx\<lparr>rx_error_code := -1\<rparr> else ctx)"

definition cd_range_result :: "int \<Rightarrow> cd_range_fetch_context \<Rightarrow> cd_range_fetch_context" where
  "cd_range_result result_code ctx =
     (if result_code \<noteq> 0 \<and> rx_error_code ctx = 0 then ctx\<lparr>rx_error_code := result_code\<rparr> else ctx)"

section \<open>The coordinator\<close>

record cd_fetch_coordinator =
  rf_max_concurrent :: nat
  rf_total_ranges :: nat
  rf_next_range_to_start :: nat
  rf_ranges_in_flight :: nat
  rf_ranges_completed :: nat
  rf_buffers :: "bytes option list"
  rf_contexts :: "bool list"
  rf_cancel_requested :: bool
  rf_first_error_code :: int

definition new_fetch_coordinator :: "nat \<Rightarrow> nat \<Rightarrow> cd_fetch_coordinator" where
  "new_fetch_coordinator max_concurrent n =
     \<lparr>rf_max_concurrent = max_concurrent, rf_total_ranges = n, rf_next_range_to_start = 0,
      rf_ranges_in_flight = 0, rf_ranges_completed = 0, rf_buffers = replicate n None,
      rf_contexts = replicate n False, rf_cancel_requested = False, rf_first_error_code = 0\<rparr>"

definition take_range :: "cd_fetch_coordinator \<Rightarrow> cd_fetch_coordinator" where
  "take_range c =
     c\<lparr>rf_next_range_to_start := rf_next_range_to_start c + 1,
       rf_ranges_in_flight := rf_ranges_in_flight c + 1\<rparr>"

definition range_context_stored :: "nat \<Rightarrow> cd_fetch_coordinator \<Rightarrow> cd_fetch_coordinator" where
  "range_context_stored i c = c\<lparr>rf_contexts := (rf_contexts c)[i := True]\<rparr>"

definition range_context_dropped :: "bool \<Rightarrow> nat \<Rightarrow> cd_fetch_coordinator \<Rightarrow> cd_fetch_coordinator" where
  "range_context_dropped stored i c =
     (if stored then c\<lparr>rf_contexts := (rf_contexts c)[i := False]\<rparr> else c)"

definition range_launch_failed :: "cd_fetch_coordinator \<Rightarrow> cd_fetch_coordinator" where
  "range_launch_failed c =
     c\<lparr>rf_ranges_in_flight := rf_ranges_in_flight c - 1, rf_cancel_requested := True,
       rf_first_error_code := -1\<rparr>"

definition store_range :: "int \<Rightarrow> nat \<Rightarrow> bytes \<Rightarrow> cd_fetch_coordinator \<Rightarrow> cd_fetch_coordinator" where
  "store_range error_code i data c =
     (if error_code \<noteq> 0 then
        if \<not> rf_cancel_requested c
        then c\<lparr>rf_cancel_requested := True, rf_first_error_code := error_code\<rparr>
        else c
      else c\<lparr>rf_buffers := (rf_buffers c)[i := Some data],
             rf_ranges_completed := rf_ranges_completed c + 1\<rparr>)"

definition range_finish_section ::
  "int \<Rightarrow> nat \<Rightarrow> bytes \<Rightarrow> cd_fetch_coordinator \<Rightarrow> nat option \<times> cd_fetch_coordinator" where
  "range_finish_section error_code i data c =
     (let c1 = store_range error_code i data (c\<lparr>rf_ranges_in_flight := rf_ranges_in_flight c - 1\<rparr>)
      in if \<not> rf_cancel_requested c1 \<and> rf_next_range_to_start c1 < rf_total_ranges c1
         then (Some (rf_next_range_to_start c1), take_range c1)
         else (None, c1))"

definition range_next_failed :: "cd_fetch_coordinator \<Rightarrow> cd_fetch_coordinator" where
  "range_next_failed c =
     (let c1 = c\<lparr>rf_ranges_in_flight := rf_ranges_in_flight c - 1\<rparr>
      in if \<not> rf_cancel_requested c1
         then c1\<lparr>rf_cancel_requested := True, rf_first_error_code := -1\<rparr> else c1)"

datatype range_main = Range_loop | Range_launching nat | Range_waiting bool | Range_joined

record fetch_run =
  fr_coord :: cd_fetch_coordinator
  fr_main :: range_main
  fr_active :: "activity multiset"
  fr_completed :: "nat list"
  fr_failed :: "nat list"

definition wake :: "bool \<Rightarrow> range_main \<Rightarrow> range_main" where
  "wake b m = (if b \<and> m = Range_waiting False then Range_waiting True else m)"

definition start_fetch :: "nat \<Rightarrow> nat \<Rightarrow> fetch_run" where
  "start_fetch max_concurrent n =
     \<lparr>fr_coord = new_fetch_coordinator max_concurrent n, fr_main = Range_loop,
      fr_active = {#}, fr_completed = [], fr_failed = []\<rparr>"

inductive fetch_step :: "(nat \<Rightarrow> bytes) \<Rightarrow> fetch_run \<Rightarrow> fetch_run \<Rightarrow> bool" for answer where
  main_takes:
    "fr_main s = Range_loop \<Longrightarrow>
     rf_ranges_in_flight (fr_coord s) < rf_max_concurrent (fr_coord s) \<and>
     rf_next_range_to_start (fr_coord s) < rf_total_ranges (fr_coord s) \<Longrightarrow>
     fetch_step answer s
       (s\<lparr>fr_coord := take_range (fr_coord s),
          fr_main := Range_launching (rf_next_range_to_start (fr_coord s))\<rparr>)"
| main_started:
    "fr_main s = Range_launching i \<Longrightarrow>
     fetch_step answer s
       (s\<lparr>fr_coord := range_context_stored i (fr_coord s), fr_main := Range_loop,
          fr_active := add_mset (Requested i) (fr_active s)\<rparr>)"
| main_start_fails:
    "fr_main s = Range_launching i \<Longrightarrow>
     fetch_step answer s
       (s\<lparr>fr_coord := range_launch_failed (range_context_dropped stored i (fr_coord s)),
          fr_main := Range_waiting True, fr_failed := fr_failed s @ [i]\<rparr>)"
| main_leaves_loop:
    "fr_main s = Range_loop \<Longrightarrow>
     \<not> (rf_ranges_in_flight (fr_coord s) < rf_max_concurrent (fr_coord s) \<and>
        rf_next_range_to_start (fr_coord s) < rf_total_ranges (fr_coord s)) \<Longrightarrow>
     fetch_step answer s (s\<lparr>fr_main := Range_waiting True\<rparr>)"
| main_waits:
    "fr_main s = Range_waiting True \<Longrightarrow> rf_ranges_in_flight (fr_coord s) > 0 \<Longrightarrow>
     fetch_step answer s (s\<lparr>fr_main := Range_waiting False\<rparr>)"
| main_returns:
    "fr_main s = Range_waiting True \<Longrightarrow> rf_ranges_in_flight (fr_coord s) = 0 \<Longrightarrow>
     fetch_step answer s (s\<lparr>fr_main := Range_joined\<rparr>)"
| range_finishes:
    "Requested i \<in># fr_active s \<Longrightarrow> range_finish_section e i (answer i) (fr_coord s) = (q, c) \<Longrightarrow>
     fetch_step answer s
       (s\<lparr>fr_coord := c, fr_main := wake (q = None \<and> rf_ranges_in_flight c = 0) (fr_main s),
          fr_active := launching q + (fr_active s - {#Requested i#}),
          fr_completed := (if e = 0 then fr_completed s @ [i] else fr_completed s),
          fr_failed := (if e = 0 then fr_failed s else fr_failed s @ [i])\<rparr>)"
| next_started:
    "Starting i \<in># fr_active s \<Longrightarrow>
     fetch_step answer s
       (s\<lparr>fr_coord := range_context_stored i (fr_coord s),
          fr_active := add_mset (Requested i) (fr_active s - {#Starting i#})\<rparr>)"
| next_start_fails:
    "Starting i \<in># fr_active s \<Longrightarrow>
     c = range_next_failed (range_context_dropped stored i (fr_coord s)) \<Longrightarrow>
     fetch_step answer s
       (s\<lparr>fr_coord := c, fr_main := wake (rf_ranges_in_flight c = 0) (fr_main s),
          fr_active := fr_active s - {#Starting i#}, fr_failed := fr_failed s @ [i]\<rparr>)"

text \<open>What \<open>burst_downloader_fetch_cd_ranges\<close> hands to its caller: nothing after an error.\<close>

definition fetched_buffers :: "fetch_run \<Rightarrow> bytes option list option" where
  "fetched_buffers s = (if rf_first_error_code (fr_coord s) \<noteq> 0 then None else Some (rf_buffers (fr_coord s)))"

section \<open>The invariant\<close>

fun launched_range :: "range_main \<Rightarrow> nat multiset" where
  "launched_range (Range_launching i) = {#i#}"
| "launched_range m = {#}"

definition fetch_counts :: "nat \<Rightarrow> fetch_run \<Rightarrow> bool" where
  "fetch_counts n s \<longleftrightarrow>
     rf_ranges_in_flight (fr_coord s) = size (fr_active s) + size (launched_range (fr_main s)) \<and>
     rf_ranges_in_flight (fr_coord s) \<le> rf_max_concurrent (fr_coord s) \<and>
     (fr_main s = Range_waiting False \<longrightarrow> 0 < rf_ranges_in_flight (fr_coord s)) \<and>
     (fr_main s = Range_joined \<longrightarrow> rf_ranges_in_flight (fr_coord s) = 0) \<and>
     rf_total_ranges (fr_coord s) = n \<and> rf_next_range_to_start (fr_coord s) \<le> n \<and>
     length (rf_buffers (fr_coord s)) = n \<and> length (rf_contexts (fr_coord s)) = n"

text \<open>The ranges that were taken are exactly the active, finished and failed ones, each once.\<close>

definition fetch_claims :: "fetch_run \<Rightarrow> bool" where
  "fetch_claims s \<longleftrightarrow>
     image_mset activity_part (fr_active s) + launched_range (fr_main s) + mset (fr_completed s)
       + mset (fr_failed s) = mset [0..<rf_next_range_to_start (fr_coord s)]"

definition fetch_results :: "(nat \<Rightarrow> bytes) \<Rightarrow> nat \<Rightarrow> fetch_run \<Rightarrow> bool" where
  "fetch_results answer n s \<longleftrightarrow>
     (rf_cancel_requested (fr_coord s) \<longleftrightarrow> rf_first_error_code (fr_coord s) \<noteq> 0) \<and>
     (fr_failed s \<noteq> [] \<longrightarrow> rf_cancel_requested (fr_coord s)) \<and>
     (\<forall>i \<in> set (fr_completed s). i < n \<and> rf_buffers (fr_coord s) ! i = Some (answer i)) \<and>
     ((\<exists>b. fr_main s = Range_waiting b) \<or> fr_main s = Range_joined \<longrightarrow>
        rf_max_concurrent (fr_coord s) = 0 \<or> rf_cancel_requested (fr_coord s) \<or> fr_active s \<noteq> {#}
          \<or> n \<le> rf_next_range_to_start (fr_coord s))"

definition fetch_inv :: "(nat \<Rightarrow> bytes) \<Rightarrow> nat \<Rightarrow> fetch_run \<Rightarrow> bool" where
  "fetch_inv answer n s \<longleftrightarrow> fetch_counts n s \<and> fetch_claims s \<and> fetch_results answer n s"

lemma fetch_inv_start: "fetch_inv answer n (start_fetch m n)"
  by (simp add: fetch_inv_def fetch_counts_def fetch_claims_def fetch_results_def start_fetch_def
      new_fetch_coordinator_def)

lemmas range_section_defs = take_range_def range_context_stored_def range_context_dropped_def
  range_launch_failed_def store_range_def range_next_failed_def

lemma wake_cases:
  "launched_range (wake b m) = launched_range m" "wake b m = Range_joined \<longleftrightarrow> m = Range_joined"
  "wake b m = Range_waiting False \<longleftrightarrow> m = Range_waiting False \<and> \<not> b"
  "(\<exists>d. wake b m = Range_waiting d) \<longleftrightarrow> (\<exists>d. m = Range_waiting d)"
  by (auto simp: wake_def)

lemma range_finish_cases:
  assumes "range_finish_section e i d c = (q, c')"
  shows "rf_max_concurrent c' = rf_max_concurrent c" and "rf_total_ranges c' = rf_total_ranges c"
    and "rf_contexts c' = rf_contexts c"
    and "rf_ranges_in_flight c' = rf_ranges_in_flight c - 1 + size (launching q)"
    and "rf_cancel_requested c' \<longleftrightarrow> rf_cancel_requested c \<or> e \<noteq> 0"
    and "rf_first_error_code c' =
      (if e \<noteq> 0 \<and> \<not> rf_cancel_requested c then e else rf_first_error_code c)"
    and "rf_buffers c' = (if e = 0 then (rf_buffers c)[i := Some d] else rf_buffers c)"
    and "q = None \<and> rf_next_range_to_start c' = rf_next_range_to_start c \<and>
           (rf_cancel_requested c' \<or> rf_total_ranges c \<le> rf_next_range_to_start c)
       \<or> q = Some (rf_next_range_to_start c) \<and> rf_next_range_to_start c < rf_total_ranges c \<and>
         rf_next_range_to_start c' = Suc (rf_next_range_to_start c)"
  using assms
  by (auto simp: range_finish_section_def Let_def store_range_def take_range_def launching_def
      split: if_splits)

lemma parts_remove:
  assumes "a \<in># M"
  shows "image_mset activity_part M = add_mset (activity_part a) (image_mset activity_part (M - {#a#}))"
  using assms by (metis image_mset_add_mset insert_DiffM)

lemma parts_launching: "image_mset activity_part (launching q) = (case q of None \<Rightarrow> {#} | Some i \<Rightarrow> {#i#})"
  by (simp add: launching_def split: option.split)

lemma claimed_range:
  assumes "fetch_counts n s" and "fetch_claims s" and "a \<in># fr_active s"
  shows "activity_part a < n"
proof -
  have "activity_part a \<in># mset [0..<rf_next_range_to_start (fr_coord s)]"
    using assms(2) parts_remove[OF assms(3)] unfolding fetch_claims_def
    by (metis union_iff union_single_eq_member)
  then show ?thesis using assms(1) by (simp add: fetch_counts_def)
qed

lemma fetch_counts_step: "fetch_step answer s s' \<Longrightarrow> fetch_counts n s \<Longrightarrow> fetch_counts n s'"
proof (induction rule: fetch_step.induct)
  case (range_finishes i s e q c)
  show ?case
    using range_finishes(3) range_finish_cases[OF range_finishes(2)] size_remove[OF range_finishes(1)]
    by (cases q) (auto simp: fetch_counts_def wake_cases size_launching)
next
  case (next_started i s)
  show ?case
    using next_started size_remove[OF next_started(1)]
    by (auto simp: fetch_counts_def range_section_defs)
next
  case (next_start_fails i s c stored)
  show ?case
    using next_start_fails size_remove[OF next_start_fails(1)]
    by (auto simp: fetch_counts_def range_section_defs Let_def wake_cases)
qed (auto simp: fetch_counts_def range_section_defs)

lemma fetch_claims_step: "fetch_step answer s s' \<Longrightarrow> fetch_claims s \<Longrightarrow> fetch_claims s'"
proof (induction rule: fetch_step.induct)
  case (range_finishes i s e q c)
  show ?case
    using range_finishes(3) range_finish_cases(8)[OF range_finishes(2)] parts_remove[OF range_finishes(1)]
    by (cases q) (auto simp: fetch_claims_def wake_cases parts_launching)
next
  case (next_started i s)
  show ?case
    using next_started parts_remove[OF next_started(1)]
    by (simp add: fetch_claims_def range_section_defs)
next
  case (next_start_fails i s c stored)
  show ?case
    using next_start_fails parts_remove[OF next_start_fails(1)]
    by (simp add: fetch_claims_def range_section_defs Let_def wake_cases)
qed (auto simp: fetch_claims_def range_section_defs)

lemma fetch_results_step:
  "fetch_step answer s s' \<Longrightarrow> fetch_inv answer n s \<Longrightarrow> fetch_results answer n s'"
proof (induction rule: fetch_step.induct)
  case (range_finishes i s e q c)
  have i: "i < n" using claimed_range[OF _ _ range_finishes(1)] range_finishes(3) by (simp add: fetch_inv_def)
  have len: "length (rf_buffers (fr_coord s)) = n" "rf_total_ranges (fr_coord s) = n"
    using range_finishes(3) by (simp_all add: fetch_inv_def fetch_counts_def)
  note fin = range_finish_cases[OF range_finishes(2)]
  have res: "fetch_results answer n s" using range_finishes(3) by (simp add: fetch_inv_def)
  have "launching q + M = {#} \<Longrightarrow> rf_cancel_requested c \<or> n \<le> rf_next_range_to_start c" for M
    using fin(8) len by (auto simp: launching_def)
  then show ?case
    using res fin(1,5,6,7) i len unfolding fetch_results_def
    by (auto simp: wake_cases nth_list_update split: if_splits)
qed (auto simp: fetch_inv_def fetch_results_def fetch_counts_def range_section_defs Let_def wake_cases)

section \<open>Every run ends\<close>

fun range_main_weight :: "range_main \<Rightarrow> nat" where
  "range_main_weight Range_loop = 1"
| "range_main_weight (Range_launching i) = 3"
| "range_main_weight m = 0"

fun range_wait_rank :: "range_main \<Rightarrow> nat" where
  "range_wait_rank (Range_waiting b) = (if b then 2 else 1)"
| "range_wait_rank m = 0"

definition fetch_order :: "nat \<Rightarrow> (fetch_run \<times> fetch_run) set" where
  "fetch_order n =
     inv_image (less_than <*lex*> less_than <*lex*> less_than)
       (\<lambda>s. (n - rf_next_range_to_start (fr_coord s),
             sum_mset (image_mset activity_weight (fr_active s)) + range_main_weight (fr_main s),
             range_wait_rank (fr_main s)))"

lemma range_main_weight_wake: "range_main_weight (wake b m) = range_main_weight m"
  by (simp add: wake_def)

lemma fetch_step_decreases:
  "fetch_step answer s s' \<Longrightarrow> fetch_counts n s \<Longrightarrow> (s', s) \<in> fetch_order n"
proof (induction rule: fetch_step.induct)
  case (range_finishes i s e q c)
  show ?case
    using range_finishes(3) range_finish_cases(8)[OF range_finishes(2)] weight_remove[OF range_finishes(1)]
    by (auto simp: fetch_order_def fetch_counts_def launching_def range_main_weight_wake)
next
  case (next_started i s)
  show ?case
    using weight_remove[OF next_started(1)] by (simp add: fetch_order_def range_section_defs)
next
  case (next_start_fails i s c stored)
  show ?case
    using next_start_fails(2) weight_remove[OF next_start_fails(1)]
    by (simp add: fetch_order_def range_section_defs Let_def range_main_weight_wake)
qed (auto simp: fetch_order_def fetch_counts_def range_section_defs)

lemma fetch_inv_step: "fetch_inv answer n s \<Longrightarrow> fetch_step answer s s' \<Longrightarrow> fetch_inv answer n s'"
  using fetch_counts_step fetch_claims_step fetch_results_step unfolding fetch_inv_def by blast

lemma fetch_progress:
  assumes "fetch_counts n s" and "fr_main s \<noteq> Range_joined"
  shows "\<exists>s'. fetch_step answer s s'"
proof (cases "fr_main s")
  case Range_loop
  then show ?thesis by (metis main_takes main_leaves_loop)
next
  case (Range_launching i)
  then show ?thesis by (blast intro: main_started)
next
  case (Range_waiting b)
  show ?thesis
  proof (cases b)
    case True
    then show ?thesis using Range_waiting main_waits main_returns by (metis neq0_conv)
  next
    case False
    then have "fr_active s \<noteq> {#}" using assms(1) Range_waiting by (auto simp: fetch_counts_def)
    then obtain a where a: "a \<in># fr_active s" by blast
    show ?thesis
    proof (cases a)
      case (Requested i)
      obtain q c where "range_finish_section 0 i (answer i) (fr_coord s) = (q, c)" by fastforce
      then show ?thesis using a Requested by (blast intro: range_finishes)
    next
      case (Starting i)
      then show ?thesis using a by (blast intro: next_started)
    qed
  qed
qed (use assms in simp)

lemma fetch_quiet:
  assumes "fetch_counts n s" and "fr_main s = Range_joined"
  shows "\<not> fetch_step answer s s'"
proof -
  have "fr_active s = {#}" using assms by (auto simp: fetch_counts_def)
  then show ?thesis using assms(2) by (auto elim: fetch_step.cases)
qed

interpretation fetches: quiet_pool "\<lambda>s. s = start_fetch m n" "fetch_step answer"
    "\<lambda>s. fr_main s = Range_joined" "fetch_inv answer n" "fetch_order n" for answer m n
proof unfold_locales
  show "fetch_inv answer n s" if "s = start_fetch m n" for s using that fetch_inv_start by simp
  show "fetch_inv answer n s'" if "fetch_inv answer n s" "fetch_step answer s s'" for s s'
    using that by (rule fetch_inv_step)
  show "\<exists>s'. fetch_step answer s s'" if "fetch_inv answer n s" "fr_main s \<noteq> Range_joined" for s
    using that fetch_progress unfolding fetch_inv_def by blast
  show "wf (fetch_order n)" by (simp add: fetch_order_def wf_lex_prod)
  show "(s', s) \<in> fetch_order n" if "fetch_inv answer n s" "fetch_step answer s s'" for s s'
    using that fetch_step_decreases by (simp add: fetch_inv_def)
  show "\<not> fetch_step answer s s'" if "fetch_inv answer n s" "fr_main s = Range_joined" for s s'
    using that fetch_quiet unfolding fetch_inv_def by blast
qed

section \<open>Properties\<close>

lemma fetch_max: "(fetch_step answer)\<^sup>*\<^sup>* (start_fetch m n) s \<Longrightarrow> rf_max_concurrent (fr_coord s) = m"
  by (induction rule: rtranclp_induct)
    (auto simp: start_fetch_def new_fetch_coordinator_def range_section_defs Let_def range_finish_cases(1)
      elim!: fetch_step.cases)

lemma all_ranges_completed:
  assumes "(fetch_step answer)\<^sup>*\<^sup>* (start_fetch m n) s" and "fr_main s = Range_joined"
    and "rf_first_error_code (fr_coord s) = 0" and "0 < m"
  shows "mset (fr_completed s) = mset [0..<n]" and "rf_buffers (fr_coord s) = map (\<lambda>i. Some (answer i)) [0..<n]"
proof -
  have inv: "fetch_counts n s" "fetch_claims s" "fetch_results answer n s"
    using fetches.inv_reachable[OF refl assms(1)] by (auto simp: fetch_inv_def)
  have act: "fr_active s = {#}" using inv(1) assms(2) by (auto simp: fetch_counts_def)
  have "\<not> rf_cancel_requested (fr_coord s)" using inv(3) assms(3) by (simp add: fetch_results_def)
  then have "fr_failed s = []" "n \<le> rf_next_range_to_start (fr_coord s)"
    using inv(3) act assms(2,4) fetch_max[OF assms(1)] by (auto simp: fetch_results_def)
  then show c: "mset (fr_completed s) = mset [0..<n]"
    using inv(1,2) act assms(2) by (simp add: fetch_counts_def fetch_claims_def)
  have "set (fr_completed s) = {0..<n}" using mset_eq_setD[OF c] by simp
  then show "rf_buffers (fr_coord s) = map (\<lambda>i. Some (answer i)) [0..<n]"
    using inv(1,3) by (intro nth_equalityI) (auto simp: fetch_counts_def fetch_results_def)
qed

text \<open>C32: the ranges of the directory are fetched exactly once. There is no infinite interleaving, and every
  interleaving can be continued until the main thread returns, after which nothing happens any more; it then either
  reports an error, or every range has been requested exactly once and its bytes are in its place of the result.\<close>

theorem ranges_fetched_once:
  assumes "0 < m"
  shows "(\<forall>s. (fetch_step answer)\<^sup>*\<^sup>* (start_fetch m n) s \<longrightarrow>
      (\<exists>s'. (fetch_step answer)\<^sup>*\<^sup>* s s' \<and> fr_main s' = Range_joined) \<and>
      (fr_main s = Range_joined \<longleftrightarrow> (\<nexists>s'. fetch_step answer s s')) \<and>
      (fr_main s = Range_joined \<longrightarrow>
        fetched_buffers s = None \<and> rf_first_error_code (fr_coord s) \<noteq> 0 \<or>
        fetched_buffers s = Some (map (\<lambda>i. Some (answer i)) [0..<n]) \<and>
        mset (fr_completed s) = mset [0..<n])) \<and>
    (\<forall>run. run 0 = start_fetch m n \<longrightarrow> (\<exists>i. \<not> fetch_step answer (run i) (run (Suc i))))"
proof (intro conjI allI impI)
  fix s assume s: "(fetch_step answer)\<^sup>*\<^sup>* (start_fetch m n) s"
  show "\<exists>s'. (fetch_step answer)\<^sup>*\<^sup>* s s' \<and> fr_main s' = Range_joined" by (rule fetches.reachable_joins[OF refl s])
  show "fr_main s = Range_joined \<longleftrightarrow> (\<nexists>s'. fetch_step answer s s')" by (rule fetches.joined_is_final[OF refl s])
  show "fetched_buffers s = None \<and> rf_first_error_code (fr_coord s) \<noteq> 0 \<or>
      fetched_buffers s = Some (map (\<lambda>i. Some (answer i)) [0..<n]) \<and> mset (fr_completed s) = mset [0..<n]"
    if "fr_main s = Range_joined"
    using all_ranges_completed[OF s that _ assms] by (auto simp: fetched_buffers_def)
next
  fix run :: "nat \<Rightarrow> fetch_run"
  assume "run 0 = start_fetch m n"
  then show "\<exists>i. \<not> fetch_step answer (run i) (run (Suc i))" by (rule fetches.no_infinite_run)
qed

theorem ranges_fetched_once_witness:
  "\<exists>s. (fetch_step (\<lambda>i. [of_nat i]))\<^sup>*\<^sup>* (start_fetch 2 3) s \<and> fr_main s = Range_joined \<and>
     (fetched_buffers s = None \<or> fetched_buffers s = Some [Some [0], Some [1], Some [2]])"
proof -
  let ?R = "fetch_step (\<lambda>i. [of_nat i])"
  have two: "0 < (2 :: nat)" by simp
  note once = conjunct1[OF ranges_fetched_once[OF two, of "\<lambda>i. [of_nat i]" 3], rule_format]
  obtain s where s: "?R\<^sup>*\<^sup>* (start_fetch 2 3) s" "fr_main s = Range_joined"
    using conjunct1[OF once[OF rtranclp.rtrancl_refl]] by fast
  have "fetched_buffers s = None \<or>
      fetched_buffers s = Some (map (\<lambda>i. Some [of_nat i :: u8]) [0..<3])"
    using once[OF s(1)] s(2) by fast
  moreover have "map (\<lambda>i. Some [of_nat i :: u8]) [0..<3] = [Some [0], Some [1], Some [2]]"
    by (simp add: upt_rec)
  ultimately show ?thesis using s by metis
qed

section \<open>The body of a response\<close>

text \<open>The pieces of a response, each with the answer that \<open>realloc\<close> gives if it is called. The client ends the
  request when the callback returns \<open>AWS_OP_ERR\<close>.\<close>

fun collect ::
  "(bool \<times> bytes) list \<Rightarrow> cd_range_fetch_context \<Rightarrow> bool \<times> cd_range_fetch_context" where
  "collect [] ctx = (True, ctx)"
| "collect ((got, body) # pieces) ctx =
     (case cd_range_body_callback got body ctx of
        (True, ctx1) \<Rightarrow> collect pieces ctx1
      | (False, ctx1) \<Rightarrow> (False, ctx1))"

lemma grow_capacity_bounds: "0 < cap \<Longrightarrow> n \<le> grow_capacity cap n \<and> grow_capacity cap n \<le> max cap (2 * n)"
proof (induction cap n rule: grow_capacity.induct)
  case (1 cap n)
  then show ?case by (subst (1 2) grow_capacity.simps) (auto simp: not_less)
qed

text \<open>The bytes fit into the allocation, which is at most twice as large, or one page.\<close>

definition sized :: "cd_range_fetch_context \<Rightarrow> bool" where
  "sized ctx \<longleftrightarrow> length (rx_buffer ctx) \<le> rx_buffer_capacity ctx \<and>
     rx_buffer_capacity ctx \<le> max 4096 (2 * length (rx_buffer ctx))"

lemma body_callback_cases:
  assumes "sized ctx" and "cd_range_body_callback got body ctx = (ok, ctx1)"
  shows "sized ctx1" and "ok \<Longrightarrow> rx_buffer ctx1 = rx_buffer ctx @ body \<and> rx_error_code ctx1 = rx_error_code ctx"
    and "\<not> ok \<Longrightarrow> \<not> got \<and> rx_buffer ctx1 = rx_buffer ctx \<and> rx_error_code ctx1 = -1"
  using assms grow_capacity_bounds[of "if rx_buffer_capacity ctx = 0 then 4096 else rx_buffer_capacity ctx * 2"
      "length (rx_buffer ctx) + length body"]
  by (auto simp: sized_def cd_range_body_callback_def Let_def split: if_splits)

lemma collect_cases:
  "sized ctx \<Longrightarrow> collect pieces ctx = (ok, ctx1) \<Longrightarrow> sized ctx1 \<and>
     (if ok then rx_buffer ctx1 = rx_buffer ctx @ concat (map snd pieces) \<and> rx_error_code ctx1 = rx_error_code ctx
      else \<exists>k < length pieces. \<not> fst (pieces ! k) \<and> rx_error_code ctx1 = -1 \<and>
        rx_buffer ctx1 = rx_buffer ctx @ concat (map snd (take k pieces)))"
proof (induction pieces arbitrary: ctx)
  case (Cons piece pieces)
  obtain got body where p: "piece = (got, body)" by fastforce
  obtain b ctx2 where c: "cd_range_body_callback got body ctx = (b, ctx2)" by fastforce
  note one = body_callback_cases[OF Cons.prems(1) c]
  show ?case
  proof (cases b)
    case False
    then have "\<not> ok" "ctx1 = ctx2" using Cons.prems(2) p c by simp_all
    then show ?thesis using one False p by (auto intro!: exI[of _ 0])
  next
    case True
    then have "collect pieces ctx2 = (ok, ctx1)" using Cons.prems(2) p c by simp
    from Cons.IH[OF one(1) this] one(2)[OF True] show ?thesis
      by (auto simp: p intro: exI[of _ "Suc k" for k] split: if_splits)
  qed
qed auto


end
