(* ===== verification/Parser_Safety.thy ===== *)
theory Parser_Safety
  imports Directory_Roundtrip
begin

text \<open>
  Memory safety of the central directory parser on arbitrary, also malicious, input: which entry
  points never read outside their buffer, and the inputs on which the two unchecked sums of the C
  code wrap around.
\<close>

section \<open>Where a read can leave the buffer\<close>

lemma parse_central_directory_safe:
  assumes "part_len \<noteq> 0" and "length buffer < 2 ^ 64"
  shows "parse_central_directory al buffer off off n cd_size part_len \<noteq> Fault"
proof -
  have "unat cd_size \<le> length buffer" if "\<not> of_nat (length buffer) < cd_size"
    using that assms(2) by (simp add: word_less_nat_alt unat_of_nat)
  then show ?thesis
    using parse_entries_safe[OF _ assms(1)] by (simp add: parse_central_directory_def)
qed

lemma build_part_map_safe: "part_len \<noteq> 0 \<Longrightarrow> build_part_map qs al fs archive_len part_len \<noteq> Fault"
  by (simp add: build_part_map_def Let_def)

text \<open>The offset of the ZIP64 end record in the buffer, as the code computes it from the locator.\<close>

definition eocd64_buffer_offset :: "bytes \<Rightarrow> u64 \<Rightarrow> zip64_end_central_dir_locator \<Rightarrow> u64" where
  "eocd64_buffer_offset buffer archive_len locator =
     loc_eocd64_offset locator - (archive_len - of_nat (length buffer))"

lemma parse_zip64_eocd_fault:
  assumes "length buffer < 2 ^ 63"
  shows "parse_zip64_eocd buffer off = Fault \<longleftrightarrow> 2 ^ 64 \<le> unat off + 56 \<and> unat off + 56 - 2 ^ 64 \<le> length buffer"
proof -
  have len: "unat (of_nat (length buffer) :: u64) = length buffer" using assms by (simp add: unat_of_nat)
  have "parse_zip64_eocd buffer off = Fault \<longleftrightarrow>
      unat (off + 56) \<le> length buffer \<and> length buffer < unat off + 56"
    by (auto simp: parse_zip64_eocd_def bind_outcome_Fault_iff word_less_nat_alt len not_less split: if_splits)
  moreover have "unat (off + 56) = (if unat off + 56 < 2 ^ 64 then unat off + 56 else unat off + 56 - 2 ^ 64)"
    using unat_plus_if'[of off 56] by simp
  ultimately show ?thesis using assms by auto
qed

lemma parse_eocd_safe: "parse_eocd buffer off \<noteq> Fault"
  by (auto simp: parse_eocd_def bind_outcome_Fault_iff split: if_splits)

section \<open>Properties\<close>

text \<open>C22: whatever the bytes and the sizes are, \<open>central_dir_parse_from_cd_buffer\<close> never reads outside
  the buffer it is given: it returns a result or one of its error codes.\<close>

theorem parse_from_cd_buffer_safe:
  assumes "part_len \<noteq> 0" and "length cd_buffer < 2 ^ 64"
  shows "central_dir_parse_from_cd_buffer qs plan cd_buffer cd_offset cd_size archive_len part_len z \<noteq> Fault"
  using parse_central_directory_safe[OF assms] build_part_map_safe[OF assms(1)]
  by (auto simp: central_dir_parse_from_cd_buffer_def Let_def bind_outcome_Fault_iff)

theorem parse_from_cd_buffer_safe_witness:
  "central_dir_parse_from_cd_buffer stable_qsort ([], []) [0x50, 0x4b, 1, 2, 0xff] 0 5 5 8388608 False \<noteq> Fault"
  by (rule parse_from_cd_buffer_safe) simp_all

text \<open>C23: \<open>central_dir_parse_eocd_only\<close> reads outside its buffer in exactly one case: before the end record
  that it finds stands a ZIP64 locator (the 20 bytes at \<open>l\<close>), the offset in this locator is not before
  the buffer, the sum \<open>eocd64_offset + 56\<close> of the bounds check wraps around 64 bits, and the wrapped sum is not
  larger than the buffer, so that the check passes. On every other buffer it returns a result or one of its error codes.\<close>

theorem eocd_only_fault_needs_wrap:
  assumes "length buffer < 2 ^ 63"
  shows "central_dir_parse_eocd_only buffer archive_len want = Fault \<longleftrightarrow>
    (\<exists>e l. find_eocd buffer = Ok (e, True, l) \<and>
       (let locator = zip64_locator_of_bytes (take 20 (drop l buffer));
            off = eocd64_buffer_offset buffer archive_len locator
        in \<not> loc_eocd64_offset locator < archive_len - of_nat (length buffer) \<and>
           2 ^ 64 \<le> unat off + 56 \<and> unat off + 56 - 2 ^ 64 \<le> length buffer))"
proof -
  define wraps where "wraps l \<longleftrightarrow> (let locator = zip64_locator_of_bytes (take 20 (drop l buffer));
            off = eocd64_buffer_offset buffer archive_len locator
        in \<not> loc_eocd64_offset locator < archive_len - of_nat (length buffer) \<and>
           2 ^ 64 \<le> unat off + 56 \<and> unat off + 56 - 2 ^ 64 \<le> length buffer)" for l
  have loc: "locate_central_dir buffer archive_len (e, z, l) = Fault \<longleftrightarrow> z \<and> wraps l"
    if "find_eocd buffer = Ok (e, z, l)" for e z l
  proof (cases z)
    case True
    have "\<not> length buffer < l + 20" using find_eocd_Ok[OF that] True by simp
    then show ?thesis
      using True parse_zip64_eocd_fault[OF assms]
      by (simp add: wraps_def locate_central_dir_def bind_outcome_Fault_iff eocd64_buffer_offset_def
          read_struct_def read_bytes_def Let_def)
  qed (simp add: locate_central_dir_def bind_outcome_Fault_iff parse_eocd_safe)
  have "central_dir_parse_eocd_only buffer archive_len want = Fault \<longleftrightarrow>
      (\<exists>e z l. find_eocd buffer = Ok (e, z, l) \<and> locate_central_dir buffer archive_len (e, z, l) = Fault)"
  proof (cases "find_eocd buffer")
    case (Ok found)
    obtain e z l where f: "found = (e, z, l)" by (cases found)
    have "parse_burst_comment buffer e \<noteq> Fault"
      using parse_burst_comment_safe find_eocd_Ok(1)[OF Ok[unfolded f]] by blast
    moreover have "buffer \<noteq> []" using Ok by (auto simp: find_eocd_def)
    ultimately show ?thesis
      by (auto simp: central_dir_parse_eocd_only_def Ok f bind_outcome_Fault_iff split: if_splits prod.splits)
  qed (auto simp: central_dir_parse_eocd_only_def find_eocd_safe)
  then show ?thesis unfolding wraps_def[symmetric] by (auto simp: loc)
qed

text \<open>A 42-byte buffer: a locator with the offset \<open>2 ^ 64 - 56\<close> and an end record.\<close>

definition wrapping_archive :: bytes where
  "wrapping_archive =
     zip64_locator_bytes \<lparr>loc_signature = ZIP_ZIP64_END_CENTRAL_DIR_LOCATOR_SIG, loc_disk_with_eocd64 = 0,
       loc_eocd64_offset = 0xFFFFFFFFFFFFFFC8, loc_total_disks = 1\<rparr> @
     end_central_dir_bytes (end_central_dir_of 0 0 0)"

lemma wrapping_archive_found:
  "find_eocd wrapping_archive = Ok (20, True, 0)"
  "loc_eocd64_offset (zip64_locator_of_bytes (take 20 wrapping_archive)) = 0xFFFFFFFFFFFFFFC8"
proof -
  have len: "length wrapping_archive = 42" by (simp add: wrapping_archive_def)
  have "(read_int 4 wrapping_archive 20 :: (cd_error, u32) outcome) = Ok ZIP_END_CENTRAL_DIR_SIG"
    "(read_int 4 wrapping_archive 0 :: (cd_error, u32) outcome) = Ok ZIP_ZIP64_END_CENTRAL_DIR_LOCATOR_SIG"
    by (simp_all add: wrapping_archive_def reads end_central_dir_bytes_def end_central_dir_of_def
        zip64_locator_bytes_def)
  moreover from this have "search_eocd wrapping_archive (Suc (42 - 22)) = Ok 20"
    by (subst search_eocd.simps) simp
  ultimately show "find_eocd wrapping_archive = Ok (20, True, 0)"
    unfolding find_eocd_def len by simp
  show "loc_eocd64_offset (zip64_locator_of_bytes (take 20 wrapping_archive)) = 0xFFFFFFFFFFFFFFC8"
    by (simp add: wrapping_archive_def)
qed

theorem eocd_only_fault_needs_wrap_witness:
  "central_dir_parse_eocd_only wrapping_archive 42 False = Fault"
proof -
  have "length wrapping_archive = 42" by (simp add: wrapping_archive_def)
  then show ?thesis
    using eocd_only_fault_needs_wrap[of wrapping_archive 42 False] wrapping_archive_found
    by (auto simp: eocd64_buffer_offset_def Let_def)
qed

text \<open>The extra field of an entry of \<open>2^32 - 1\<close> bytes has no size, but the reader looks for one.\<close>

lemma boundary_body:
  assumes "fe_uncompressed_size e = 0xFFFFFFFF" and "0xFFFFFFFF < fe_local_header_offset e"
  shows "parse_zip64_body
           (zip64_payload (fe_compressed_size e) (fe_uncompressed_size e) (fe_local_header_offset e))
           (central_header_of e n) (narrow_out e) =
    Ok (False, if fe_compressed_size e > 0xFFFFFFFF then fe_local_header_offset e else fe_compressed_size e,
        if fe_compressed_size e > 0xFFFFFFFF then fe_compressed_size e else fe_local_header_offset e, 0xFFFFFFFF)"
proof -
  let ?c = "fe_compressed_size e" and ?o = "fe_local_header_offset e"
  have sat: "clamp32 (0xFFFFFFFF :: u64) = 0xFFFFFFFF" "clamp32 ?o = 0xFFFFFFFF"
    using assms(2) by (simp_all add: clamp32_def)
  show ?thesis
  proof (cases "?c > 0xFFFFFFFF")
    case True
    then have "clamp32 ?c = 0xFFFFFFFF" by (simp add: clamp32_def)
    then show ?thesis
      using True assms sat zip64_value_take[of "[]" ?c "le64 ?o"] zip64_value_take[of "le64 ?c" ?o "[]"]
      by (simp add: parse_zip64_body_def zip64_payload_def narrow_out_def)
        (simp add: zip64_value_def)
  next
    case False
    then show ?thesis
      using assms sat zip64_value_take[of "[]" ?o "[]"] ucast_clamp32[OF False]
      by (cases "clamp32 ?c = 0xFFFFFFFF")
        (simp_all add: parse_zip64_body_def zip64_payload_def narrow_out_def zip64_value_skip zip64_value_def)
  qed
qed

lemma boundary_metadata:
  assumes "fe_uncompressed_size e = 0xFFFFFFFF" and "0xFFFFFFFF < fe_local_header_offset e" and "part_len \<noteq> 0"
  shows "\<exists>m. entry_metadata (central_header_of e (length (cdfh_extra e))) (fe_filename e) (cdfh_extra e) part_len = Ok m \<and>
    fm_local_header_offset m = 0xFFFFFFFF \<and>
    fm_uncompressed_size m =
      (if fe_compressed_size e > 0xFFFFFFFF then fe_compressed_size e else fe_local_header_offset e)"
proof -
  let ?h = "central_header_of e (length (cdfh_extra e))"
  have z: "need_zip64 e" using assms(2) by (simp add: need_zip64_def)
  obtain c where "parse_zip64_extra_field (cdfh_extra e) ?h (narrow_out e) = Ok (False, c,
      if fe_compressed_size e > 0xFFFFFFFF then fe_compressed_size e else fe_local_header_offset e, 0xFFFFFFFF)"
    using z parse_zip64_field[OF z, of ?h "narrow_out e"] boundary_body[OF assms(1,2)]
    by (auto simp: cdfh_extra_def parse_zip64_skip_unix)
  moreover have "parse_unix_extra_field (cdfh_extra e) a b = Ok (True, fe_uid e, fe_gid e)" for a b
    unfolding cdfh_extra_def by (rule parse_unix_extra_field_roundtrip) simp
  moreover have "(ucast (ch_compressed_size ?h), ucast (ch_uncompressed_size ?h),
      ucast (ch_local_header_offset ?h)) = narrow_out e" by (simp add: narrow_out_def)
  ultimately show ?thesis
    unfolding entry_metadata_def Let_def using cdfh_extra_pos[of e] assms(3)
    by (simp del: bind_outcome_Ok_iff)
qed

text \<open>C24: an entry of exactly \<open>2^32 - 1\<close> bytes whose header is beyond 4 GiB does not survive the round
  trip, wherever it stands in the directory: the writer stores no size in the ZIP64 field, the reader takes the
  saturated 32-bit size as a sign that the size comes first. It takes the next value for the size (the
  offset, or the compressed size when that has 64 bits), and \<open>2^32 - 1\<close> for the offset of the header, which is
  never right.\<close>

theorem boundary_size_misread:
  assumes "fe_uncompressed_size e = 0xFFFFFFFF" and "0xFFFFFFFF < fe_local_header_offset e"
    and "length (fe_filename e) < 65536" and "part_len \<noteq> 0"
  shows "\<exists>m. parse_entries (Suc n) [] (pre @ cdfh_bytes e @ post) (length pre)
             (length pre + length (cdfh_bytes e) + k) part_len acc =
           parse_entries n [] (pre @ cdfh_bytes e @ post) (length pre + length (cdfh_bytes e))
             (length pre + length (cdfh_bytes e) + k) part_len (acc @ [m]) \<and>
    fm_local_header_offset m = 0xFFFFFFFF \<and> fm_local_header_offset m \<noteq> fe_local_header_offset e \<and>
    fm_uncompressed_size m =
      (if fe_compressed_size e > 0xFFFFFFFF then fe_compressed_size e else fe_local_header_offset e) \<and>
    fm_uncompressed_size m \<noteq> fe_uncompressed_size e"
proof -
  from boundary_metadata[OF assms(1,2,4)] obtain m where
    "entry_metadata (central_header_of e (length (cdfh_extra e))) (fe_filename e) (cdfh_extra e) part_len = Ok m"
    and f: "fm_local_header_offset m = 0xFFFFFFFF" "fm_uncompressed_size m =
      (if fe_compressed_size e > 0xFFFFFFFF then fe_compressed_size e else fe_local_header_offset e)" by blast
  note at = parse_entries_at[OF assms(3) this(1)]
  show ?thesis
    by (intro exI[of _ m] conjI at) (use f assms(1,2) in auto)
qed

text \<open>A file of 4 GiB - 1 bytes at an offset beyond 4 GiB, alone in a directory.\<close>

definition boundary_entry :: file_entry where
  "boundary_entry = empty_entry\<lparr>fe_uncompressed_size := 0xFFFFFFFF, fe_local_header_offset := 0x123456789\<rparr>"

theorem boundary_size_misread_witness:
  "\<exists>m. parse_entries 1 [] (cdfh_bytes boundary_entry) 0 (length (cdfh_bytes boundary_entry)) 8388608 [] = Ok [m] \<and>
     fm_uncompressed_size m = 0x123456789 \<and> fm_local_header_offset m = 0xFFFFFFFF"
proof -
  have "fe_uncompressed_size boundary_entry = 0xFFFFFFFF" "0xFFFFFFFF < fe_local_header_offset boundary_entry"
    "length (fe_filename boundary_entry) < 65536" "(8388608 :: u64) \<noteq> 0"
    by (simp_all add: boundary_entry_def empty_entry_def)
  from boundary_size_misread[OF this, of 0 "[]" "[]" 0 "[]"]
  obtain m where "parse_entries 1 [] (cdfh_bytes boundary_entry) 0 (length (cdfh_bytes boundary_entry)) 8388608 [] = Ok [m]"
    and "fm_local_header_offset m = 0xFFFFFFFF" "fm_uncompressed_size m =
      (if fe_compressed_size boundary_entry > 0xFFFFFFFF then fe_compressed_size boundary_entry
       else fe_local_header_offset boundary_entry)"
    unfolding One_nat_def parse_entries.simps(1) append_Nil append_Nil2 list.size(3) add_0 add_0_right by blast
  then show ?thesis by (intro exI[of _ m]) (simp add: boundary_entry_def empty_entry_def)
qed

end
