(* ===== verification/Hybrid_Queues.thy ===== *)
theory Hybrid_Queues
  imports Range_Fetch Parser_Safety
begin

text \<open>
  The hybrid download (\<open>src/downloader/cd_fetch.c\<close>, lines 794-985): while the rest of a large central
  directory is fetched, parts are downloaded whose files are known from the entries in the tail
  buffer. This theory holds the sequential functions: the queue of these early parts, the queue of
  the remaining parts, and the assembly of the directory from the fetched ranges. \<open>None\<close> is a write
  outside the array of a queue.
\<close>

section \<open>Early parts\<close>

definition UINT32_MAX :: u32 where "UINT32_MAX = 0xFFFFFFFF"

definition part_start_of :: "u64 \<Rightarrow> u32 \<Rightarrow> u64" where
  "part_start_of part_len part_idx = ucast part_idx * part_len"

text \<open>The first part whose first known file is certainly its first file; \<open>prev\<close> is the part of the
  file before.\<close>

fun first_safe_part :: "u64 \<Rightarrow> u32 option \<Rightarrow> file_metadata list \<Rightarrow> u32" where
  "first_safe_part part_len prev [] = UINT32_MAX"
| "first_safe_part part_len prev (f # fs) =
     (if fm_local_header_offset f = part_start_of part_len (fm_part_index f) then fm_part_index f
      else if (case prev of None \<Rightarrow> False | Some q \<Rightarrow> fm_part_index f > q) then fm_part_index f
      else first_safe_part part_len (Some (fm_part_index f)) fs)"

fun queue_early_parts ::
  "u64 \<Rightarrow> u64 \<Rightarrow> nat \<Rightarrow> u32 \<Rightarrow> u32 \<Rightarrow> u32 list \<Rightarrow> file_metadata list \<Rightarrow> u32 list option" where
  "queue_early_parts part_len initial_start max_parts safe last_queued queue [] = Some queue"
| "queue_early_parts part_len initial_start max_parts safe last_queued queue (f # fs) =
     (let part_idx = fm_part_index f
      in if part_idx \<ge> safe \<and> part_idx \<noteq> last_queued then
           if part_start_of part_len part_idx \<ge> initial_start
           then queue_early_parts part_len initial_start max_parts safe part_idx queue fs
           else if length queue \<ge> max_parts then None
           else queue_early_parts part_len initial_start max_parts safe part_idx (queue @ [part_idx]) fs
         else queue_early_parts part_len initial_start max_parts safe last_queued queue fs)"

definition build_early_part_queue ::
  "u64 \<Rightarrow> u64 \<Rightarrow> nat \<Rightarrow> file_metadata list \<Rightarrow> u32 list option" where
  "build_early_part_queue part_len initial_start max_parts fs =
     (if fs = [] then Some []
      else
        let safe = first_safe_part part_len None fs
        in if safe = UINT32_MAX then Some []
           else queue_early_parts part_len initial_start max_parts safe UINT32_MAX [] fs)"

section \<open>The remaining parts\<close>

definition part_body_end :: "u64 \<Rightarrow> u64 \<Rightarrow> nat \<Rightarrow> u64" where
  "part_body_end part_len cd_offset p =
     (let part_end = of_nat p * part_len + part_len
      in if part_end > cd_offset then cd_offset else part_end)"

text \<open>A segment whose bytes are missing (\<open>None\<close>) covers nothing.\<close>

definition segment_covers :: "u64 \<Rightarrow> u64 \<Rightarrow> body_data_segment option \<Rightarrow> bool" where
  "segment_covers a b seg =
     (case seg of
        None \<Rightarrow> False
      | Some sg \<Rightarrow> bs_archive_offset sg \<le> a \<and> bs_archive_offset sg + of_nat (length (bs_data sg)) \<ge> b)"

definition part_needed :: "u64 \<Rightarrow> u64 \<Rightarrow> body_data_segment option list \<Rightarrow> nat \<Rightarrow> bool" where
  "part_needed part_len cd_offset segments p =
     (let part_start = of_nat p * part_len; part_end = part_body_end part_len cd_offset p
      in \<not> list_ex (segment_covers part_start part_end) segments \<and> part_start < part_end)"

definition build_late_part_queue ::
  "u64 \<Rightarrow> u64 \<Rightarrow> body_data_segment option list \<Rightarrow> bool list \<Rightarrow> nat \<Rightarrow> nat list" where
  "build_late_part_queue part_len cd_offset segments dispatched num_parts =
     filter (\<lambda>p. \<not> dispatched ! p \<and> part_needed part_len cd_offset segments p) [0..<num_parts]"

section \<open>The full directory\<close>

record hybrid_config =
  hy_part_size :: u64
  hy_archive_size :: u64
  hy_is_zip64 :: bool
  hy_initial_buffer :: bytes
  hy_initial_start :: u64
  hy_cd_ranges :: "cd_part_range list"

text \<open>The buffer that was assembled is read as a whole, so a byte that was never set is a fault.\<close>

definition hybrid_assemble_and_parse_cd ::
  "qsort_fun \<Rightarrow> bool list \<Rightarrow> bool \<Rightarrow> bool \<Rightarrow> alloc_plan \<Rightarrow> hybrid_config \<Rightarrow> bytes option list
     \<Rightarrow> (unit, central_dir_parse_result \<times> body_data_segment option list) outcome" where
  "hybrid_assemble_and_parse_cd qs al1 al2 al3 plan cfg cd_buffers =
     (case central_dir_parse_eocd_only (hy_initial_buffer cfg) (hy_archive_size cfg) False of
        Error e \<Rightarrow> Error ()
      | Fault \<Rightarrow> Fault
      | Ok info \<Rightarrow>
          (case assemble_cd_buffer al1 (hy_initial_buffer cfg) (hy_initial_start cfg) (hy_cd_ranges cfg)
                  cd_buffers (eo_central_dir_offset info) (eo_central_dir_size info) of
             Error e \<Rightarrow> Error ()
           | Fault \<Rightarrow> Fault
           | Ok (cd, segs) \<Rightarrow>
               (case add_tail_buffer_segment al2 segs (hy_initial_buffer cfg) (hy_initial_start cfg)
                       (eo_central_dir_offset info) of
                  Error e \<Rightarrow> Error ()
                | Fault \<Rightarrow> Fault
                | Ok segs2 \<Rightarrow>
                    if \<not> al3 then Error ()
                    else if None \<in> set cd then Fault
                    else
                      (case central_dir_parse_from_cd_buffer qs plan (map the cd)
                              (eo_central_dir_offset info) (eo_central_dir_size info)
                              (hy_archive_size cfg) (hy_part_size cfg) (eo_is_zip64 info) of
                         Error e \<Rightarrow> Error ()
                       | Fault \<Rightarrow> Fault
                       | Ok full_cd \<Rightarrow> Ok (full_cd, segs2)))))"

section \<open>Early parts have complete metadata\<close>

text \<open>The entries of the central directory in the order of the archive, with their part numbers.\<close>

definition in_archive_order :: "u64 \<Rightarrow> file_metadata list \<Rightarrow> bool" where
  "in_archive_order part_len fs \<longleftrightarrow>
     sorted_wrt (\<lambda>f g. unat (fm_local_header_offset f) < unat (fm_local_header_offset g)) fs \<and>
     (\<forall>f \<in> set fs. unat (fm_part_index f) = unat (fm_local_header_offset f) div unat part_len \<and>
        fm_part_index f \<noteq> UINT32_MAX)"

lemma in_archive_order_nth:
  assumes "in_archive_order part_len fs" and "i < j" and "j < length fs"
  shows "unat (fm_local_header_offset (fs ! i)) < unat (fm_local_header_offset (fs ! j))"
    and "fm_part_index (fs ! i) \<le> fm_part_index (fs ! j)"
proof -
  show lt: "unat (fm_local_header_offset (fs ! i)) < unat (fm_local_header_offset (fs ! j))"
    using assms by (simp add: in_archive_order_def sorted_wrt_iff_nth_less)
  have "fs ! i \<in> set fs" "fs ! j \<in> set fs" using assms(2,3) by auto
  then show "fm_part_index (fs ! i) \<le> fm_part_index (fs ! j)"
    using assms(1) lt by (simp add: in_archive_order_def word_le_nat_alt div_le_mono)
qed

lemma in_archive_order_drop: "in_archive_order part_len fs \<Longrightarrow> in_archive_order part_len (drop j fs)"
  by (auto simp: in_archive_order_def sorted_wrt_drop dest: in_set_dropD)

lemma unat_part_start: "unat part_len < 2 ^ 32 \<Longrightarrow> unat (part_start_of part_len p) = unat p * unat part_len"
proof -
  assume l: "unat part_len < 2 ^ 32"
  have "unat p * unat part_len \<le> (2 ^ 32 - 1) * (2 ^ 32 - 1)"
    using l unat_u32_less[of p] by (intro mult_le_mono) auto
  then have "unat p * unat part_len < 2 ^ 64" by (rule le_less_trans) simp
  then show ?thesis by (simp add: part_start_of_def unat_word_ariths(2) unsigned_ucast_eq take_bit_nat_eq_self)
qed

lemma first_safe_part_cases:
  assumes "first_safe_part part_len prev fs = s" and "s \<noteq> UINT32_MAX"
  shows "\<exists>i < length fs. fm_part_index (fs ! i) = s \<and>
     (fm_local_header_offset (fs ! i) = part_start_of part_len s \<or>
      (\<exists>q < s. if i = 0 then prev = Some q else fm_part_index (fs ! (i - 1)) = q))"
  using assms
proof (induction part_len prev fs rule: first_safe_part.induct)
  case (2 part_len prev f fs)
  show ?case
  proof (cases "fm_local_header_offset f = part_start_of part_len (fm_part_index f) \<or>
      (\<exists>q. prev = Some q \<and> fm_part_index f > q)")
    case True
    then have "fm_part_index f = s" using 2(2) by (auto split: if_splits)
    then show ?thesis using True by (intro exI[of _ 0]) auto
  next
    case False
    then have ne: "\<not> (case prev of None \<Rightarrow> False | Some q \<Rightarrow> fm_part_index f > q)"
      "fm_local_header_offset f \<noteq> part_start_of part_len (fm_part_index f)"
      by (auto split: option.splits)
    then have "first_safe_part part_len (Some (fm_part_index f)) fs = s" using 2(2) by simp
    from 2(1)[OF ne(2,1) this 2(3)] obtain i where i: "i < length fs" "fm_part_index (fs ! i) = s"
      "fm_local_header_offset (fs ! i) = part_start_of part_len s \<or>
       (\<exists>q < s. if i = 0 then Some (fm_part_index f) = Some q else fm_part_index (fs ! (i - 1)) = q)"
      by blast
    then show ?thesis by (intro exI[of _ "Suc i"]) (cases i; auto)
  qed
qed simp

lemma queue_early_parts_mem:
  "queue_early_parts part_len start m safe lq q0 fs = Some q \<Longrightarrow> p \<in> set q \<Longrightarrow>
     p \<in> set q0 \<or> p \<ge> safe \<and> part_start_of part_len p < start \<and> (\<exists>f \<in> set fs. fm_part_index f = p)"
proof (induction part_len start m safe lq q0 fs rule: queue_early_parts.induct)
  case (2 part_len start m safe lq q0 f fs)
  then show ?case
    by (simp add: Let_def split: if_splits) (fastforce simp: not_le)+
qed simp

text \<open>In archive order the queue is strictly increasing, and it never leaves its array.\<close>

lemma increasing_length:
  assumes "sorted_wrt (<) q" and "\<And>x. x \<in> set q \<Longrightarrow> unat (x :: u32) < m"
  shows "length q \<le> m"
proof -
  have "distinct q" using assms(1) by (induction q) auto
  then have "length q = card (unat ` set q)"
    by (simp add: card_image distinct_card inj_on_def word_unat_eq_iff)
  also have "\<dots> \<le> card {..<m}" using assms(2) by (intro card_mono) auto
  finally show ?thesis by simp
qed

lemma queue_early_parts_fits:
  assumes "unat part_len < 2 ^ 32" and "0 < unat part_len" and "unat start \<le> m * unat part_len"
    and "sorted_wrt (\<lambda>f g. fm_part_index f \<le> fm_part_index g) fs"
    and "sorted_wrt (<) q0" and "\<And>x. x \<in> set q0 \<Longrightarrow> x \<le> lq \<and> part_start_of part_len x < start"
    and "q0 = [] \<or> (\<forall>f \<in> set fs. lq \<le> fm_part_index f)"
  shows "\<exists>q. queue_early_parts part_len start m safe lq q0 fs = Some q \<and> sorted_wrt (<) q"
  using assms
proof (induction part_len start m safe lq q0 fs rule: queue_early_parts.induct)
  case (2 part_len start m safe lq q0 f fs)
  let ?p = "fm_part_index f"
  note prems = 2(4-10)
  have later: "\<forall>g \<in> set fs. ?p \<le> fm_part_index g" and srt: "sorted_wrt (\<lambda>f g. fm_part_index f \<le> fm_part_index g) fs"
    using prems(4) by simp_all
  have below: "x \<le> ?p" if "x \<in> set q0" for x using prems(6)[OF that] prems(7) that by force
  show ?case
  proof (cases "?p \<ge> safe \<and> ?p \<noteq> lq")
    case new: True
    have less: "x < ?p" if "x \<in> set q0" for x
      using prems(6)[OF that] prems(7) that new by force
    show ?thesis
    proof (cases "part_start_of part_len ?p \<ge> start")
      case tail: True
      from 2(1)[OF refl new tail prems(1-3) srt prems(5)] below prems(6) later
      show ?thesis using new tail by (simp add: Let_def)
    next
      case early: False
      let ?q = "q0 @ [?p]"
      have inc: "sorted_wrt (<) ?q" using prems(5) less by (simp add: sorted_wrt_append)
      have st: "x \<le> ?p \<and> part_start_of part_len x < start" if "x \<in> set ?q" for x
        using that below prems(6) early by auto
      have "unat x < m" if "x \<in> set ?q" for x
      proof -
        have "unat (part_start_of part_len x) < unat start" using st[OF that] by (simp add: word_less_nat_alt)
        then have "unat x * unat part_len < m * unat part_len"
          using prems(3) unat_part_start[OF prems(1), of x] by linarith
        then show ?thesis by simp
      qed
      then have "length ?q \<le> m" by (rule increasing_length[OF inc])
      then have len: "\<not> length q0 \<ge> m" by simp
      from 2(2)[OF refl new early len prems(1-3) srt inc] st later
      show ?thesis using new early len by (simp add: Let_def)
    qed
  next
    case False
    from 2(3)[OF refl False prems(1-3) srt prems(5,6)] prems(7)
    show ?thesis using False by (auto simp: Let_def)
  qed
qed simp

lemma order_parts_sorted:
  assumes "in_archive_order part_len fs"
  shows "sorted_wrt (\<lambda>f g. fm_part_index f \<le> fm_part_index g) fs"
  unfolding sorted_wrt_iff_nth_less using in_archive_order_nth(2)[OF assms] by blast

text \<open>The files before the first safe part are in earlier parts, also those not in the tail buffer.\<close>

lemma first_safe_part_bound:
  assumes ord: "in_archive_order part_len fs" and "unat part_len < 2 ^ 32"
    and s: "first_safe_part part_len None (drop j fs) = s" "s \<noteq> UINT32_MAX" and "i < j"
    and "j < length fs"
  shows "fm_part_index (fs ! i) < s"
    and "\<exists>f \<in> set (drop j fs). fm_local_header_offset f = part_start_of part_len s \<and> fm_part_index f = s
           \<or> fm_part_index f < s"
proof -
  from first_safe_part_cases[OF s] obtain k where k: "k < length (drop j fs)"
    "fm_part_index (drop j fs ! k) = s"
    "fm_local_header_offset (drop j fs ! k) = part_start_of part_len s \<or>
     0 < k \<and> fm_part_index (drop j fs ! (k - 1)) < s"
    by (auto split: if_splits)
  have jk: "j + k < length fs" using k(1) by simp
  have "fm_part_index (fs ! i) < s \<and>
    (\<exists>f \<in> set (drop j fs). fm_local_header_offset f = part_start_of part_len s \<and> fm_part_index f = s
       \<or> fm_part_index f < s)"
    using k(3)
  proof
    assume b: "fm_local_header_offset (drop j fs ! k) = part_start_of part_len s"
    have "unat (fm_local_header_offset (fs ! i)) < unat s * unat part_len"
      using in_archive_order_nth(1)[OF ord, of i "j + k"] assms(5) jk b k(1)
        unat_part_start[OF assms(2), of s] by simp
    moreover have "unat (fm_part_index (fs ! i)) = unat (fm_local_header_offset (fs ! i)) div unat part_len"
      using ord assms(5,6) by (simp add: in_archive_order_def)
    ultimately have "fm_part_index (fs ! i) < s"
      by (simp add: word_less_nat_alt less_mult_imp_div_less)
    then show ?thesis using b k(1,2) nth_mem by blast
  next
    assume p: "0 < k \<and> fm_part_index (drop j fs ! (k - 1)) < s"
    moreover have "fm_part_index (fs ! i) \<le> fm_part_index (drop j fs ! (k - 1))"
      using in_archive_order_nth(2)[OF ord, of i "j + (k - 1)"] assms(5) jk by simp
    moreover have "drop j fs ! (k - 1) \<in> set (drop j fs)" using k(1) by (intro nth_mem) simp
    ultimately show ?thesis by force
  qed
  then show "fm_part_index (fs ! i) < s"
    and "\<exists>f \<in> set (drop j fs). fm_local_header_offset f = part_start_of part_len s \<and> fm_part_index f = s
           \<or> fm_part_index f < s" by blast+
qed

text \<open>C34: early parts. When the directory is in the order of the archive (as the writer makes it; for another order the
  queue may outgrow its array, \<open>early_queue_overflow\<close>) and the tail buffer holds
  its entries from number \<open>j\<close> on, building the queue of early parts stays inside its array; the
  queue is strictly increasing and holds only parts that start before the tail buffer. No entry
  that is not yet known lies in such a part, and the file before the first one of the part is known,
  unless a file starts exactly with the part.\<close>

theorem early_parts_known:
  assumes "in_archive_order part_len fs" and "0 < unat part_len" and "unat part_len < 2 ^ 32"
    and "j < length fs" and "unat start \<le> m * unat part_len"
  shows "\<exists>q. build_early_part_queue part_len start m (drop j fs) = Some q \<and> sorted_wrt (<) q \<and>
     (\<forall>p \<in> set q. part_start_of part_len p < start \<and> (\<forall>i < j. fm_part_index (fs ! i) < p) \<and>
        (0 < j \<longrightarrow> (\<exists>f \<in> set (drop j fs).
           fm_local_header_offset f = part_start_of part_len p \<or> fm_part_index f < p)))"
proof (cases "first_safe_part part_len None (drop j fs) = UINT32_MAX")
  case True
  then show ?thesis by (simp add: build_early_part_queue_def Let_def)
next
  case False
  let ?s = "first_safe_part part_len None (drop j fs)"
  note ord = in_archive_order_drop[OF assms(1), of j]
  obtain q where q: "queue_early_parts part_len start m ?s UINT32_MAX [] (drop j fs) = Some q" "sorted_wrt (<) q"
    using queue_early_parts_fits[OF assms(3,2,5) order_parts_sorted[OF ord], of "[]"] by auto
  have b: "build_early_part_queue part_len start m (drop j fs) = Some q"
    using q(1) False assms(4) by (simp add: build_early_part_queue_def Let_def)
  have "part_start_of part_len p < start \<and> (\<forall>i < j. fm_part_index (fs ! i) < p) \<and>
      (0 < j \<longrightarrow> (\<exists>f \<in> set (drop j fs).
         fm_local_header_offset f = part_start_of part_len p \<or> fm_part_index f < p))"
    if p: "p \<in> set q" for p
  proof -
    have ps: "p \<ge> ?s" "part_start_of part_len p < start"
      using queue_early_parts_mem[OF q(1) p] by auto
    note bound = first_safe_part_bound[OF assms(1,3) refl False _ assms(4)]
    have "fm_part_index (fs ! i) < p" if "i < j" for i using bound(1)[OF that] ps(1) by (rule less_le_trans)
    moreover have "\<exists>f \<in> set (drop j fs). fm_local_header_offset f = part_start_of part_len p \<or> fm_part_index f < p"
      if "0 < j" using bound(2)[OF that] ps(1) by force
    ultimately show ?thesis using ps(2) by blast
  qed
  then show ?thesis using b q(2) by blast
qed

text \<open>A file of a directory, for the examples.\<close>

definition example_file :: "u64 \<Rightarrow> file_metadata" where
  "example_file off =
     \<lparr>fm_filename = [0x61], fm_local_header_offset = off, fm_compressed_size = 0, fm_uncompressed_size = 0,
      fm_crc32 = 0, fm_compression_method = 93, fm_part_index = ucast (off div 8388608), fm_unix_mode = 0,
      fm_uid = 0, fm_gid = 0, fm_has_unix_mode = False, fm_has_unix_extra = False, fm_is_symlink = False,
      fm_uses_zip64_descriptor = False\<rparr>"

theorem early_parts_known_witness:
  "\<exists>q. build_early_part_queue 8388608 16777216 3
         (drop 1 [example_file 5, example_file 100, example_file 8388700, example_file 16777300]) = Some q
     \<and> sorted_wrt (<) q \<and> (\<forall>p \<in> set q. part_start_of 8388608 p < 16777216)"
proof -
  let ?fs = "[example_file 5, example_file 100, example_file 8388700, example_file 16777300]"
  have "in_archive_order 8388608 ?fs" by (simp add: in_archive_order_def example_file_def UINT32_MAX_def)
  from early_parts_known[OF this, of 1 16777216 3] show ?thesis by auto
qed

text \<open>A directory that is not in the order of the archive overflows the array of the queue: its size is
  the number of parts, but a part is queued again whenever another one came between.\<close>

lemma early_queue_overflow:
  "build_early_part_queue 8388608 16777216 3
     [example_file 0, example_file 8388608, example_file 0, example_file 8388608] = None"
  by (simp add: build_early_part_queue_def example_file_def part_start_of_def UINT32_MAX_def Let_def)

lemma late_queue_mem:
  "p \<in> set (build_late_part_queue part_len cd_offset segs dispatched n) \<longleftrightarrow>
     p < n \<and> \<not> dispatched ! p \<and> part_needed part_len cd_offset segs p"
  by (auto simp: build_late_part_queue_def)

end
