(* ===== verification/Hybrid_Requests.thy ===== *)
theory Hybrid_Requests
  imports Part_Requests Hybrid_Queues
begin

text \<open>
  The requests of the hybrid coordinator and the parts that it processes from memory when it has
  finished (\<open>src/downloader/cd_fetch.c\<close>, lines 1002-1090, 1131-1200, 1310-1490 and 1604-1679). The
  contexts are those of the other coordinators, and so are the callbacks that collect or stream a
  body; \<open>Hybrid_Coordinator\<close> has the threads.
\<close>

section \<open>Ranges of the directory\<close>

definition hybrid_cd_range_body_callback ::
  "bool \<Rightarrow> bytes \<Rightarrow> cd_range_fetch_context \<Rightarrow> bool \<times> cd_range_fetch_context" where
  "hybrid_cd_range_body_callback realloc_ok body ctx =
     (let new_size = length (rx_buffer ctx) + length body
      in if new_size > rx_buffer_capacity ctx then
           let new_capacity = double_capacity
                 (if rx_buffer_capacity ctx = 0 then 4096 else rx_buffer_capacity ctx * 2) new_size
           in if \<not> realloc_ok then (False, ctx\<lparr>rx_error_code := -1\<rparr>)
              else (True, ctx\<lparr>rx_buffer := rx_buffer ctx @ body, rx_buffer_capacity := new_capacity\<rparr>)
         else (True, ctx\<lparr>rx_buffer := rx_buffer ctx @ body\<rparr>))"

definition hybrid_cd_range_headers_callback :: "int \<Rightarrow> cd_range_fetch_context \<Rightarrow> cd_range_fetch_context" where
  "hybrid_cd_range_headers_callback response_status ctx =
     (if response_status < 200 \<or> response_status \<ge> 300 then ctx\<lparr>rx_error_code := -1\<rparr> else ctx)"

text \<open>The context and the message are allocated, then the client is asked; the result is the message,
  or \<open>None\<close> for -1. The function of the range coordinator and that of the hybrid one differ in the
  array that holds the context.\<close>

definition start_range_fetch_async ::
  "downloader \<Rightarrow> bool list \<Rightarrow> bool \<Rightarrow> cd_part_range \<Rightarrow> http_request option" where
  "start_range_fetch_async dl plan created r =
     (if False \<in> set (take 2 plan) then None
      else if \<not> created then None
      else Some (object_request dl False (Some (range_value (cr_start r) (cr_end r)))))"

definition hybrid_start_cd_range_fetch ::
  "downloader \<Rightarrow> bool list \<Rightarrow> bool \<Rightarrow> cd_part_range \<Rightarrow> http_request option" where
  "hybrid_start_cd_range_fetch dl plan created r =
     (if False \<in> set (take 2 plan) then None
      else if \<not> created then None
      else Some (object_request dl False (Some (range_value (cr_start r) (cr_end r)))))"

section \<open>Parts\<close>

definition hybrid_part_body_callback ::
  "zstd_reader \<Rightarrow> bytes \<Rightarrow> stream_part_context \<Rightarrow> (bool \<times> stream_part_context) effect" where
  "hybrid_part_body_callback zr body ctx =
     (case part_processor_process_data zr body (sp_processor ctx) of
        None \<Rightarrow> None
      | Some Crash \<Rightarrow> Some Fault
      | Some (Done rc st) \<Rightarrow>
          Some (Ok (if rc \<noteq> STREAM_PROC_SUCCESS
                    then (False, ctx\<lparr>sp_processor := st, sp_error_code := Stream_error rc\<rparr>)
                    else (True, ctx\<lparr>sp_processor := st\<rparr>))))"

definition hybrid_part_headers_callback :: "int \<Rightarrow> stream_part_context \<Rightarrow> stream_part_context" where
  "hybrid_part_headers_callback response_status ctx =
     (if response_status < 200 \<or> response_status \<ge> 300 then ctx\<lparr>sp_error_code := Status_error\<rparr> else ctx)"

definition hybrid_part_finish_record ::
  "int \<Rightarrow> stream_part_context \<Rightarrow> (unit, stream_part_context) outcome" where
  "hybrid_part_finish_record result_code ctx =
     (let ctx1 = (if result_code \<noteq> 0 \<and> sp_error_code ctx = No_error
                  then ctx\<lparr>sp_error_code := Client_error result_code\<rparr> else ctx)
      in if sp_error_code ctx1 \<noteq> No_error then Ok ctx1
         else case part_processor_finalize (sp_processor ctx1) of
                Crash \<Rightarrow> Fault
              | Done rc st \<Rightarrow>
                  Ok (if rc \<noteq> STREAM_PROC_SUCCESS
                      then ctx1\<lparr>sp_processor := st, sp_error_code := Stream_error rc\<rparr>
                      else ctx1\<lparr>sp_processor := st\<rparr>))"

text \<open>Early parts use the directory that was parsed from the tail, late parts the whole one.\<close>

definition hybrid_start_part_download ::
  "downloader \<Rightarrow> bool \<Rightarrow> central_dir_parse_result \<Rightarrow> central_dir_parse_result \<Rightarrow> u32 \<Rightarrow> bool \<Rightarrow> os_state
     \<Rightarrow> (stream_part_context \<times> http_request) option \<times> os_state" where
  "hybrid_start_part_download dl cd_complete full_cd partial_cd part_index created os =
     (let cd = (if cd_complete then full_cd else partial_cd)
      in case part_processor_create part_index cd (dl_output_dir dl) (dl_part_size dl) os of
           (None, os1) \<Rightarrow> (None, os1)
         | (Some processor, os1) \<Rightarrow>
             (case os_alloc os1 of (got_ctx, os2) \<Rightarrow>
                if \<not> got_ctx then (None, part_processor_destroy (processor\<lparr>ps_os := os2\<rparr>))
                else
                  let start = ucast part_index * dl_part_size dl;
                      end_incl = start + dl_part_size dl - 1
                  in case os_alloc os2 of (got_message, os3) \<Rightarrow>
                       if \<not> got_message \<or> \<not> created
                       then (None, part_processor_destroy (processor\<lparr>ps_os := os3\<rparr>))
                       else (Some (stream_part_context_new (processor\<lparr>ps_os := os3\<rparr>) part_index,
                                   object_request dl False (Some (range_value start end_incl))), os3)))"

section \<open>Parts in memory\<close>

text \<open>The first segment that covers the body of the part.\<close>

fun covering_segment :: "u64 \<Rightarrow> u64 \<Rightarrow> body_data_segment list \<Rightarrow> body_data_segment option" where
  "covering_segment part_start part_end [] = None"
| "covering_segment part_start part_end (seg # segs) =
     (if bs_archive_offset seg \<le> part_start \<and> segment_end seg \<ge> part_end then Some seg
      else covering_segment part_start part_end segs)"

definition hybrid_process_part ::
  "zstd_reader \<Rightarrow> downloader \<Rightarrow> central_dir_parse_result \<Rightarrow> body_data_segment list \<Rightarrow> nat \<Rightarrow> os_state
     \<Rightarrow> (int \<times> os_state) effect" where
  "hybrid_process_part zr dl full_cd segs p os =
     (case part_body (dl_part_size dl) (cp_central_dir_offset full_cd) (of_nat p) of (part_start, part_end) \<Rightarrow>
        if part_start \<ge> part_end then Some (Ok (0, os))
        else case covering_segment part_start part_end segs of
          None \<Rightarrow> Some (Ok (0, os))
        | Some seg \<Rightarrow>
            (case part_processor_create (of_nat p) full_cd (dl_output_dir dl) (dl_part_size dl) os of
               (None, os1) \<Rightarrow> Some (Ok (-1, os1))
             | (Some processor, os1) \<Rightarrow>
                 let offset_in_seg = unat (part_start - bs_archive_offset seg);
                     data_size = unat (part_end - part_start)
                 in if offset_in_seg + data_size > length (bs_data seg) then Some Fault
                    else feed_and_finalize zr (take data_size (drop offset_in_seg (bs_data seg))) processor))"

text \<open>The loop over the parts that were not downloaded; it returns at the first error.\<close>

fun hybrid_process_buffered ::
  "zstd_reader \<Rightarrow> downloader \<Rightarrow> central_dir_parse_result \<Rightarrow> body_data_segment list \<Rightarrow> bool list \<Rightarrow> nat
     \<Rightarrow> os_state \<Rightarrow> (int \<times> os_state) effect" where
  "hybrid_process_buffered zr dl full_cd segs [] p os = Some (Ok (0, os))"
| "hybrid_process_buffered zr dl full_cd segs (complete # rest) p os =
     (if complete then hybrid_process_buffered zr dl full_cd segs rest (p + 1) os
      else case hybrid_process_part zr dl full_cd segs p os of
             Some (Ok (result, os1)) \<Rightarrow>
               if result = 0 then hybrid_process_buffered zr dl full_cd segs rest (p + 1) os1
               else Some (Ok (result, os1))
           | r \<Rightarrow> r)"

text \<open>What the threads have left when nothing is in flight any more.\<close>

record hybrid_end =
  he_cancel_requested :: bool
  he_first_error_code :: int
  he_full_cd :: "central_dir_parse_result option"
  he_body_segments :: "body_data_segment list"
  he_part_complete :: "bool list"
  he_os :: os_state

definition hybrid_coordinator_end :: "zstd_reader \<Rightarrow> downloader \<Rightarrow> hybrid_end \<Rightarrow> (int \<times> os_state) effect" where
  "hybrid_coordinator_end zr dl he =
     (if he_cancel_requested he then Some (Ok (he_first_error_code he, he_os he))
      else case he_full_cd he of
             None \<Rightarrow> Some (Ok (0, he_os he))
           | Some full_cd \<Rightarrow>
               if he_body_segments he \<noteq> []
               then hybrid_process_buffered zr dl full_cd (he_body_segments he)
                      (take (length (cp_parts full_cd)) (he_part_complete he)) 0 (he_os he)
               else Some (Ok (0, he_os he)))"

section \<open>Parts in memory are processed from their bytes in the archive\<close>

lemma covering_segment_Some:
  "covering_segment a b segs = Some seg \<Longrightarrow> seg \<in> set segs \<and> bs_archive_offset seg \<le> a \<and> b \<le> segment_end seg"
  by (induction segs) (auto split: if_splits)

lemma covering_segment_None:
  "covering_segment a b segs = None \<longleftrightarrow> \<not> list_ex (\<lambda>seg. bs_archive_offset seg \<le> a \<and> segment_end seg \<ge> b) segs"
  by (induction segs) auto

lemma hybrid_part_bytes:
  assumes segs: "segments_of archive segs" and len: "length archive < 2 ^ 64"
    and ps: "(p + 1) * unat (dl_part_size dl) < 2 ^ 64"
  shows "hybrid_process_part zr dl cd segs p os =
    (if part_has_full_body_data (dl_part_size dl) (cp_central_dir_offset cd) segs p
     then case part_processor_create (of_nat p) cd (dl_output_dir dl) (dl_part_size dl) os of
            (None, os1) \<Rightarrow> Some (Ok (-1, os1))
          | (Some st, os1) \<Rightarrow>
              feed_and_finalize zr (part_bytes (dl_part_size dl) (cp_central_dir_offset cd) archive p) st
     else Some (Ok (0, os)))"
proof -
  let ?P = "part_has_full_body_data (dl_part_size dl) (cp_central_dir_offset cd) segs p"
  obtain s e where pb: "part_body (dl_part_size dl) (cp_central_dir_offset cd) (of_nat p) = (s, e)" by fastforce
  show ?thesis
  proof (cases ?P)
    case True
    then have lt: "s < e" and "covering_segment s e segs \<noteq> None"
      by (auto simp: part_has_full_body_data_def pb covering_segment_None)
    then obtain seg where c: "covering_segment s e segs = Some seg" by blast
    have seg: "seg \<in> set segs" "bs_archive_offset seg \<le> s" "e \<le> segment_end seg"
      using covering_segment_Some[OF c] by simp_all
    note cover = segment_covers[OF segs len ps pb lt seg]
    show ?thesis
      using True lt c cover by (auto simp: hybrid_process_part_def pb Let_def split: option.splits prod.splits)
  next
    case False
    then have "e \<le> s \<or> covering_segment s e segs = None"
      by (auto simp: part_has_full_body_data_def pb covering_segment_None)
    then show ?thesis using False by (auto simp: hybrid_process_part_def pb)
  qed
qed

lemma hybrid_buffered_reference:
  fixes cd :: central_dir_parse_result
  assumes "segments_of archive segs" and "length archive < 2 ^ 64"
    and "length complete * unat (dl_part_size dl) < 2 ^ 64"
  defines "P \<equiv> part_has_full_body_data (dl_part_size dl) (cp_central_dir_offset cd) segs"
  shows "k \<le> length complete \<Longrightarrow> hybrid_process_buffered zr dl cd segs (drop k complete) k os =
    process_from_archive zr dl cd archive (filter (\<lambda>p. \<not> complete ! p \<and> P p) [k..<length complete]) os"
proof (induction "length complete - k" arbitrary: k os)
  case (Suc m)
  then have k: "k < length complete" "[k..<length complete] = k # [Suc k..<length complete]"
    "drop k complete = complete ! k # drop (Suc k) complete"
    by (simp_all add: upt_conv_Cons Cons_nth_drop_Suc)
  have IH: "hybrid_process_buffered zr dl cd segs (drop (Suc k) complete) (Suc k) os =
      process_from_archive zr dl cd archive (filter (\<lambda>p. \<not> complete ! p \<and> P p) [Suc k..<length complete]) os" for os
    using Suc(1)[of "Suc k"] Suc(2) k(1) by simp
  show ?case
    using k(2,3) IH hybrid_part_bytes[OF assms(1,2) part_end_bound[OF k(1) assms(3)], of zr cd os]
    by (auto simp: P_def split: option.splits outcome.splits prod.splits)
qed simp

text \<open>C37: parts in memory. Whenever the segments that were fetched with the central directory are pieces of
  the archive, both ways to process them (after the concurrent downloads, and at the end of the
  hybrid coordinator) agree with the reference that cuts the body of each covered part out of the
  archive and processes the parts in order until the first failure; no segment is read outside its
  bytes. The hybrid way leaves out the parts that were downloaded.\<close>

theorem buffered_parts_from_archive:
  fixes cd :: central_dir_parse_result
  assumes "segments_of archive segs" and "length archive < 2 ^ 64"
    and "n * unat (dl_part_size dl) < 2 ^ 64" and "n \<le> 2 ^ 32" and "length complete = n"
  defines "P \<equiv> part_has_full_body_data (dl_part_size dl) (cp_central_dir_offset cd) segs"
  shows "process_covered zr dl cd segs (map P [0..<n]) 0 os =
           process_from_archive zr dl cd archive (filter P [0..<n]) os \<and>
         hybrid_process_buffered zr dl cd segs complete 0 os =
           process_from_archive zr dl cd archive (filter (\<lambda>p. \<not> complete ! p \<and> P p) [0..<n]) os"
  using process_covered_reference[OF assms(1-4), where cd = cd and k = 0 and zr = zr and os = os]
    hybrid_buffered_reference[OF assms(1,2), where complete = complete and dl = dl and k = 0 and zr = zr
      and cd = cd and os = os] assms(3,5)
  by (simp add: P_def)

text \<open>Two parts of two bytes before the directory; the first was downloaded.\<close>

theorem buffered_parts_from_archive_witness:
  "\<forall>zr os. hybrid_process_buffered zr
     \<lparr>dl_bucket = [98], dl_key = [107], dl_region = [114], dl_object_size = 5, dl_max_concurrent_connections = 0,
      dl_max_concurrent_parts = 8, dl_part_size = 2, dl_output_dir = [111], dl_profile_name = None\<rparr>
     \<lparr>cp_files = [], cp_parts = [], cp_central_dir_offset = 4, cp_central_dir_size = 1, cp_is_zip64 = True\<rparr>
     [\<lparr>bs_data = [1, 2, 3, 4], bs_archive_offset = 0\<rparr>] [True, False] 0 os =
   process_from_archive zr
     \<lparr>dl_bucket = [98], dl_key = [107], dl_region = [114], dl_object_size = 5, dl_max_concurrent_connections = 0,
      dl_max_concurrent_parts = 8, dl_part_size = 2, dl_output_dir = [111], dl_profile_name = None\<rparr>
     \<lparr>cp_files = [], cp_parts = [], cp_central_dir_offset = 4, cp_central_dir_size = 1, cp_is_zip64 = True\<rparr>
     [1, 2, 3, 4, 5] [1] os"
proof -
  let ?segs = "[\<lparr>bs_data = [1, 2, 3, 4], bs_archive_offset = 0\<rparr>] :: body_data_segment list"
  let ?dl = "\<lparr>dl_bucket = [98], dl_key = [107], dl_region = [114], dl_object_size = 5,
      dl_max_concurrent_connections = 0, dl_max_concurrent_parts = 8, dl_part_size = 2, dl_output_dir = [111],
      dl_profile_name = None\<rparr> :: downloader"
  let ?cd = "\<lparr>cp_files = [], cp_parts = [], cp_central_dir_offset = 4, cp_central_dir_size = 1, cp_is_zip64 = True\<rparr>
      :: central_dir_parse_result"
  have segs: "segments_of [1, 2, 3, 4, 5] ?segs" by (simp add: segments_of_def)
  have P: "part_has_full_body_data 2 4 ?segs 1" by (simp add: part_has_full_body_data_def part_body_def segment_end_def)
  have "[0..<2] = [0, 1 :: nat]" by (simp add: upt_rec)
  then have "filter (\<lambda>p. \<not> [True, False] ! p \<and> part_has_full_body_data 2 4 ?segs p) [0..<2] = [1]"
    using P by simp
  with buffered_parts_from_archive[OF segs, where n = 2 and dl = ?dl and complete = "[True, False]" and cd = ?cd] show ?thesis
    by simp
qed

end
