(* ===== verification/S3_Client.thy ===== *)
theory S3_Client
  imports S3_Requests "HOL-Library.Sublist"
begin

text \<open>
  The S3 client (\<open>src/downloader/s3_client.c\<close>): the objects of the AWS SDK that the downloader creates
  one after the other, the chain of credentials providers, and the clean-up, on failure and at the
  end. The SDK enters with its answers: every constructor returns an object or NULL. What was
  created and released is recorded, so that leaks and double releases are visible.
\<close>

section \<open>The SDK\<close>

text \<open>The credentials providers, in the order of their priority.\<close>

datatype provider_kind =
    Env_provider | Sso_provider | Process_provider | Profile_provider | Web_identity_provider
  | Ecs_provider | Imds_provider

record client_config =
  cc_region :: bytes
  cc_max_active_connections :: nat
  cc_memory_limit :: u64
  cc_part_size :: u64
  cc_throughput_gbps :: nat
  cc_read_backpressure :: bool

text \<open>The objects, each with the pointers its options hold (\<open>None\<close> is NULL).\<close>

datatype sdk_object =
    Event_loop_group
  | Host_resolver "sdk_object option" nat
  | Client_bootstrap "sdk_object option" "sdk_object option"
  | Tls_options
  | Tls_ctx "sdk_object option"
  | Provider provider_kind "bytes option" "sdk_object option list"
  | Provider_chain "sdk_object list"
  | Signing_config bytes "sdk_object option" bool
  | S3_client client_config "sdk_object option" "sdk_object option"

datatype sdk_event = Created sdk_object | Released sdk_object | Library_init | Library_clean_up

text \<open>The answers of the constructors that can fail (an empty list: all succeed), and what has happened.\<close>

record sdk =
  sdk_answers :: "bool list"
  sdk_log :: "sdk_event list"

definition log_event :: "sdk_event \<Rightarrow> sdk \<Rightarrow> sdk" where
  "log_event e s = s\<lparr>sdk_log := sdk_log s @ [e]\<rparr>"

text \<open>The pointer is not NULL exactly if the constructor succeeds.\<close>

definition sdk_new :: "sdk_object \<Rightarrow> sdk \<Rightarrow> sdk_object option \<times> sdk" where
  "sdk_new x s =
     (let s1 = s\<lparr>sdk_answers := snd (next_alloc (sdk_answers s))\<rparr>
      in if fst (next_alloc (sdk_answers s)) then (Some x, log_event (Created x) s1) else (None, s1))"

definition sdk_release :: "sdk_object \<Rightarrow> sdk \<Rightarrow> sdk" where
  "sdk_release x s = log_event (Released x) s"

section \<open>The pointers of the downloader\<close>

record aws_handles =
  h_event_loop_group :: "sdk_object option"
  h_host_resolver :: "sdk_object option"
  h_client_bootstrap :: "sdk_object option"
  h_credentials_provider :: "sdk_object option"
  h_s3_client :: "sdk_object option"
  h_tls_ctx :: "sdk_object option"

definition no_handles :: aws_handles where
  "no_handles =
     \<lparr>h_event_loop_group = None, h_host_resolver = None, h_client_bootstrap = None,
      h_credentials_provider = None, h_s3_client = None, h_tls_ctx = None\<rparr>"

text \<open>\<open>if (p) release(p);\<close>\<close>

definition release_if :: "sdk_object option \<Rightarrow> sdk \<Rightarrow> sdk" where
  "release_if p s = (case p of None \<Rightarrow> s | Some x \<Rightarrow> sdk_release x s)"

definition s3_client_cleanup :: "aws_handles \<Rightarrow> sdk \<Rightarrow> aws_handles \<times> sdk" where
  "s3_client_cleanup h s =
     (no_handles,
      log_event Library_clean_up
        (release_if (h_event_loop_group h)
          (release_if (h_host_resolver h)
            (release_if (h_client_bootstrap h)
              (release_if (h_tls_ctx h)
                (release_if (h_credentials_provider h)
                  (release_if (h_s3_client h) s)))))))"

section \<open>Initialisation\<close>

text \<open>\<open>getenv("AWS_PROFILE")\<close> is an argument.\<close>

definition profile_to_use :: "bytes option \<Rightarrow> bytes option \<Rightarrow> bytes" where
  "profile_to_use profile_name aws_profile =
     (case profile_name of
        Some p \<Rightarrow> p
      | None \<Rightarrow> (case aws_profile of Some p \<Rightarrow> p | None \<Rightarrow> [100, 101, 102, 97, 117, 108, 116]))"

definition all_providers :: "bytes \<Rightarrow> aws_handles \<Rightarrow> sdk_object list" where
  "all_providers profile h =
     [Provider Env_provider None [],
      Provider Sso_provider (Some profile) [h_client_bootstrap h, h_tls_ctx h],
      Provider Process_provider (Some profile) [],
      Provider Profile_provider (Some profile) [h_client_bootstrap h, h_tls_ctx h],
      Provider Web_identity_provider None [h_client_bootstrap h, h_tls_ctx h],
      Provider Ecs_provider None [h_client_bootstrap h, h_tls_ctx h],
      Provider Imds_provider None [h_client_bootstrap h]]"

text \<open>The constructors are called one after the other; the pointers that are not NULL are kept.\<close>

fun new_providers :: "sdk_object list \<Rightarrow> sdk \<Rightarrow> sdk_object list \<times> sdk" where
  "new_providers [] s = ([], s)"
| "new_providers (p # ps) s =
     (case sdk_new p s of
        (got, s1) \<Rightarrow>
          (case new_providers ps s1 of
             (qs, s2) \<Rightarrow> (case got of None \<Rightarrow> qs | Some q \<Rightarrow> q # qs, s2)))"

fun release_all :: "sdk_object list \<Rightarrow> sdk \<Rightarrow> sdk" where
  "release_all [] s = s"
| "release_all (p # ps) s = release_all ps (sdk_release p s)"

definition client_config_of :: "downloader \<Rightarrow> client_config" where
  "client_config_of dl =
     \<lparr>cc_region = dl_region dl, cc_max_active_connections = dl_max_concurrent_connections dl,
      cc_memory_limit = 1024 * 1024 * 1024, cc_part_size = dl_part_size dl, cc_throughput_gbps = 10,
      cc_read_backpressure = False\<rparr>"

text \<open>\<open>goto error_cleanup\<close>\<close>

definition init_failed :: "aws_handles \<Rightarrow> sdk \<Rightarrow> int \<times> aws_handles \<times> sdk" where
  "init_failed h s = (-1, s3_client_cleanup h s)"

text \<open>From the signing configuration on.\<close>

definition init_client :: "downloader \<Rightarrow> aws_handles \<Rightarrow> sdk \<Rightarrow> int \<times> aws_handles \<times> sdk" where
  "init_client dl h s =
     (case sdk_new (Signing_config (dl_region dl) (h_credentials_provider h) False) s of
        (None, s1) \<Rightarrow> init_failed h s1
      | (Some signing_config, s1) \<Rightarrow>
          (case sdk_new (S3_client (client_config_of dl) (h_client_bootstrap h) (Some signing_config)) s1 of
             (None, s2) \<Rightarrow> init_failed h (sdk_release signing_config s2)
           | (Some client, s2) \<Rightarrow> (0, h\<lparr>h_s3_client := Some client\<rparr>, sdk_release signing_config s2)))"

text \<open>The providers and their chain.\<close>

definition init_credentials ::
  "downloader \<Rightarrow> bytes option \<Rightarrow> aws_handles \<Rightarrow> sdk \<Rightarrow> int \<times> aws_handles \<times> sdk" where
  "init_credentials dl aws_profile h s =
     (case new_providers (all_providers (profile_to_use (dl_profile_name dl) aws_profile) h) s of
        (providers, s1) \<Rightarrow>
          if providers = [] then init_failed h s1
          else case sdk_new (Provider_chain providers) s1 of
            (chain, s2) \<Rightarrow>
              let s3 = release_all providers s2;
                  h1 = h\<lparr>h_credentials_provider := chain\<rparr>
              in if chain = None then init_failed h1 s3 else init_client dl h1 s3)"

definition s3_client_init ::
  "downloader \<Rightarrow> bytes option \<Rightarrow> aws_handles \<Rightarrow> sdk \<Rightarrow> int \<times> aws_handles \<times> sdk" where
  "s3_client_init dl aws_profile h s0 =
     (case sdk_new Event_loop_group (log_event Library_init s0) of
        (elg, s1) \<Rightarrow>
          let h1 = h\<lparr>h_event_loop_group := elg\<rparr>
          in if elg = None then init_failed h1 s1
          else case sdk_new (Host_resolver elg 8) s1 of
            (resolver, s2) \<Rightarrow>
              let h2 = h1\<lparr>h_host_resolver := resolver\<rparr>
              in if resolver = None then init_failed h2 s2
              else case sdk_new (Client_bootstrap elg resolver) s2 of
                (bootstrap, s3) \<Rightarrow>
                  let h3 = h2\<lparr>h_client_bootstrap := bootstrap\<rparr>
                  in if bootstrap = None then init_failed h3 s3
                  else case sdk_new (Tls_ctx (Some Tls_options)) (log_event (Created Tls_options) s3) of
                    (tls, s4) \<Rightarrow>
                      let h4 = h3\<lparr>h_tls_ctx := tls\<rparr>;
                          s5 = sdk_release Tls_options s4
                      in if tls = None then init_failed h4 s5
                         else init_credentials dl aws_profile h4 s5)"

section \<open>What is live\<close>

text \<open>The pointers an object is created with.\<close>

fun needs :: "sdk_object \<Rightarrow> sdk_object option list" where
  "needs Event_loop_group = []"
| "needs (Host_resolver e n) = [e]"
| "needs (Client_bootstrap e r) = [e, r]"
| "needs Tls_options = []"
| "needs (Tls_ctx t) = [t]"
| "needs (Provider k p ps) = ps"
| "needs (Provider_chain ps) = map Some ps"
| "needs (Signing_config r c d) = [c]"
| "needs (S3_client c b g) = [b, g]"

text \<open>The objects that were created and not yet released, the newest first. \<open>None\<close> if an object is
  created with a pointer that is NULL or to a released object, if it is created twice, or if an
  object is released that is not live. The calls that start and end the library are in the log but not judged:
  after a failed \<open>s3_client_init\<close> the second clean-up ends the library once more, which the SDK permits.\<close>

fun replay :: "sdk_event list \<Rightarrow> sdk_object list \<Rightarrow> sdk_object list option" where
  "replay [] live = Some live"
| "replay (Created x # es) live =
     (if x \<notin> set live \<and> set (needs x) \<subseteq> Some ` set live then replay es (x # live) else None)"
| "replay (Released x # es) live = (if x \<in> set live then replay es (remove1 x live) else None)"
| "replay (Library_init # es) live = replay es live"
| "replay (Library_clean_up # es) live = replay es live"

lemma replay_append: "replay (es @ fs) live = Option.bind (replay es live) (replay fs)"
  by (induction es live rule: replay.induct) auto

text \<open>The state in which exactly \<open>live\<close> is live, from a log that started with nothing.\<close>

definition holds_live :: "sdk \<Rightarrow> sdk_object list \<Rightarrow> bool" where
  "holds_live s live \<longleftrightarrow> replay (sdk_log s) [] = Some live"

lemma holds_live_init: "holds_live s live \<Longrightarrow> holds_live (log_event Library_init s) live"
  by (simp add: holds_live_def log_event_def replay_append)

lemma holds_live_clean_up: "holds_live s live \<Longrightarrow> holds_live (log_event Library_clean_up s) live"
  by (simp add: holds_live_def log_event_def replay_append)

lemma holds_live_Created:
  "holds_live s live \<Longrightarrow> x \<notin> set live \<Longrightarrow> set (needs x) \<subseteq> Some ` set live \<Longrightarrow>
   holds_live (log_event (Created x) s) (x # live)"
  by (simp add: holds_live_def log_event_def replay_append)

lemma holds_live_release:
  "holds_live s live \<Longrightarrow> x \<in> set live \<Longrightarrow> holds_live (sdk_release x s) (remove1 x live)"
  by (simp add: holds_live_def log_event_def sdk_release_def replay_append)

lemma sdk_new_live:
  assumes "sdk_new x s = (p, s')" and "holds_live s live" and "x \<notin> set live"
    and "set (needs x) \<subseteq> Some ` set live"
  shows "p = None \<and> holds_live s' live \<or> p = Some x \<and> holds_live s' (x # live)"
  using assms holds_live_Created[of "s\<lparr>sdk_answers := a\<rparr>" live x for a]
  by (auto simp: sdk_new_def Let_def holds_live_def split: if_splits)

lemma subseq_set: "subseq xs ys \<Longrightarrow> set xs \<subseteq> set ys"
  by (induction rule: list_emb.induct) auto

lemma subseq_distinct: "subseq xs ys \<Longrightarrow> distinct ys \<Longrightarrow> distinct xs"
  by (induction rule: list_emb.induct) (auto dest: subseq_set)

lemma new_providers_live:
  assumes "new_providers ps s = (qs, s')" and "holds_live s live" and "distinct ps"
    and "set ps \<inter> set live = {}" and "\<forall>p \<in> set ps. set (needs p) \<subseteq> Some ` set live"
  shows "subseq qs ps \<and> holds_live s' (rev qs @ live)"
  using assms
proof (induction ps arbitrary: s live qs s')
  case Nil
  then show ?case by simp
next
  case (Cons p ps)
  obtain got s1 where new: "sdk_new p s = (got, s1)" by fastforce
  obtain rs s2 where rest: "new_providers ps s1 = (rs, s2)" by fastforce
  have res: "qs = (case got of None \<Rightarrow> rs | Some q \<Rightarrow> q # rs)" "s' = s2"
    using Cons.prems(1) new rest by simp_all
  from sdk_new_live[OF new Cons.prems(2)] Cons.prems(4,5)
  consider (no) "got = None" "holds_live s1 live" | (yes) "got = Some p" "holds_live s1 (p # live)"
    by auto
  then show ?case
  proof cases
    case no
    with Cons.IH[OF rest no(2)] Cons.prems res show ?thesis by auto
  next
    case yes
    have "\<forall>q \<in> set ps. set (needs q) \<subseteq> Some ` set (p # live)" using Cons.prems(5) by auto
    with Cons.IH[OF rest yes(2)] Cons.prems res yes show ?thesis by auto
  qed
qed

lemma release_all_live:
  assumes "holds_live s (newer @ rev ps @ live)" and "distinct (newer @ rev ps @ live)"
  shows "holds_live (release_all ps s) (newer @ live)"
  using assms
proof (induction ps arbitrary: s)
  case (Cons p ps)
  have "holds_live (sdk_release p s) (remove1 p (newer @ rev (p # ps) @ live))"
    using Cons.prems by (intro holds_live_release) auto
  moreover have "remove1 p (newer @ rev (p # ps) @ live) = newer @ rev ps @ live"
    using Cons.prems(2) by (simp add: remove1_append remove1_idem)
  ultimately show ?case using Cons by simp
qed simp

text \<open>The objects the pointers of the downloader hold, the newest first.\<close>

definition held :: "aws_handles \<Rightarrow> sdk_object list" where
  "held h =
     concat (map (\<lambda>p. case p of None \<Rightarrow> [] | Some x \<Rightarrow> [x])
       [h_s3_client h, h_credentials_provider h, h_tls_ctx h, h_client_bootstrap h, h_host_resolver h,
        h_event_loop_group h])"

lemma release_if_live:
  "holds_live s ((case p of None \<Rightarrow> [] | Some x \<Rightarrow> [x]) @ live) \<Longrightarrow> holds_live (release_if p s) live"
  using holds_live_release[of s "case p of None \<Rightarrow> [] | Some x \<Rightarrow> x # live"]
  by (cases p) (auto simp: release_if_def dest: holds_live_release)

lemma cleanup_live:
  assumes "holds_live s (held h)"
  shows "fst (s3_client_cleanup h s) = no_handles \<and> holds_live (snd (s3_client_cleanup h s)) []"
proof -
  have "holds_live
      (release_if (h_event_loop_group h)
        (release_if (h_host_resolver h)
          (release_if (h_client_bootstrap h)
            (release_if (h_tls_ctx h)
              (release_if (h_credentials_provider h) (release_if (h_s3_client h) s)))))) []"
    using assms by (intro release_if_live) (simp add: held_def)
  then show ?thesis by (simp add: s3_client_cleanup_def holds_live_clean_up)
qed


section \<open>The client is complete or nothing is left\<close>

text \<open>The pointers of a downloader that is initialised.\<close>

definition connected :: "downloader \<Rightarrow> bytes \<Rightarrow> sdk_object list \<Rightarrow> aws_handles \<Rightarrow> bool" where
  "connected dl profile providers h \<longleftrightarrow>
     h_event_loop_group h = Some Event_loop_group \<and>
     h_host_resolver h = Some (Host_resolver (h_event_loop_group h) 8) \<and>
     h_client_bootstrap h = Some (Client_bootstrap (h_event_loop_group h) (h_host_resolver h)) \<and>
     h_tls_ctx h = Some (Tls_ctx (Some Tls_options)) \<and>
     subseq providers (all_providers profile h) \<and> providers \<noteq> [] \<and>
     h_credentials_provider h = Some (Provider_chain providers) \<and>
     h_s3_client h =
       Some (S3_client (client_config_of dl) (h_client_bootstrap h)
         (Some (Signing_config (dl_region dl) (h_credentials_provider h) False)))"

text \<open>What every phase of the initialisation keeps to.\<close>

definition init_outcome :: "downloader \<Rightarrow> bytes \<Rightarrow> int \<times> aws_handles \<times> sdk \<Rightarrow> bool" where
  "init_outcome dl profile r =
     (case r of (rc, h, s) \<Rightarrow>
        holds_live s (held h) \<and>
        (rc = -1 \<and> h = no_handles \<or> rc = 0 \<and> (\<exists>providers. connected dl profile providers h)))"

lemma init_failed_outcome: "holds_live s (held h) \<Longrightarrow> init_outcome dl profile (init_failed h s)"
  using cleanup_live[of s h] by (auto simp: init_failed_def init_outcome_def held_def no_handles_def)

lemma all_providers_update:
  "all_providers profile (h\<lparr>h_s3_client := p\<rparr>) = all_providers profile h"
  "all_providers profile (h\<lparr>h_credentials_provider := p\<rparr>) = all_providers profile h"
  by (simp_all add: all_providers_def)

lemma init_client_outcome:
  assumes live: "holds_live s (held h)"
    and ready: "h_event_loop_group h = Some Event_loop_group"
      "h_host_resolver h = Some (Host_resolver (h_event_loop_group h) 8)"
      "h_client_bootstrap h = Some (Client_bootstrap (h_event_loop_group h) (h_host_resolver h))"
      "h_tls_ctx h = Some (Tls_ctx (Some Tls_options))"
      "subseq providers (all_providers profile h)" "providers \<noteq> []"
      "h_credentials_provider h = Some (Provider_chain providers)" "h_s3_client h = None"
  shows "init_outcome dl profile (init_client dl h s)"
proof -
  define g where "g = Signing_config (dl_region dl) (h_credentials_provider h) False"
  define c where "c = S3_client (client_config_of dl) (h_client_bootstrap h) (Some g)"
  obtain p s1 where new: "sdk_new g s = (p, s1)" by fastforce
  obtain q s2 where new2: "sdk_new c s1 = (q, s2)" by fastforce
  have held: "held h = [Provider_chain providers, Tls_ctx (Some Tls_options),
      Client_bootstrap (h_event_loop_group h) (h_host_resolver h),
      Host_resolver (h_event_loop_group h) 8, Event_loop_group]"
    by (simp add: held_def ready)
  have g: "g \<notin> set (held h)" "set (needs g) \<subseteq> Some ` set (held h)"
    by (simp_all add: g_def held ready)
  have c: "c \<notin> set (g # held h)" "set (needs c) \<subseteq> Some ` set (g # held h)"
    by (simp_all add: c_def g_def held ready)
  from sdk_new_live[OF new live g] consider (no) "p = None" "holds_live s1 (held h)"
    | (yes) "p = Some g" "holds_live s1 (g # held h)" by blast
  then show ?thesis
  proof cases
    case no
    with new show ?thesis by (simp add: init_client_def init_failed_outcome flip: g_def)
  next
    case yes
    from sdk_new_live[OF new2 yes(2) c] consider (none) "q = None" "holds_live s2 (g # held h)"
      | (some) "q = Some c" "holds_live s2 (c # g # held h)" by blast
    then show ?thesis
    proof cases
      case none
      then have "holds_live (sdk_release g s2) (held h)"
        using holds_live_release[of s2 "g # held h" g] by simp
      with none new new2 yes show ?thesis
        by (simp add: init_client_def init_failed_outcome flip: g_def c_def)
    next
      case some
      have "c \<noteq> g" using c(1) by simp
      with some have "holds_live (sdk_release g s2) (c # held h)"
        using holds_live_release[of s2 "c # g # held h" g] by simp
      moreover have "held (h\<lparr>h_s3_client := Some c\<rparr>) = c # held h"
        by (simp add: held_def ready)
      moreover have "connected dl profile providers (h\<lparr>h_s3_client := Some c\<rparr>)"
        using ready by (simp add: connected_def all_providers_update c_def g_def)
      moreover have "init_client dl h s = (0, h\<lparr>h_s3_client := Some c\<rparr>, sdk_release g s2)"
        using some(1) new new2 yes(1) by (simp add: init_client_def flip: g_def c_def)
      ultimately show ?thesis by (auto simp: init_outcome_def)
    qed
  qed
qed


lemma init_credentials_outcome:
  assumes live: "holds_live s (held h)"
    and ready: "h_event_loop_group h = Some Event_loop_group"
      "h_host_resolver h = Some (Host_resolver (h_event_loop_group h) 8)"
      "h_client_bootstrap h = Some (Client_bootstrap (h_event_loop_group h) (h_host_resolver h))"
      "h_tls_ctx h = Some (Tls_ctx (Some Tls_options))"
      "h_credentials_provider h = None" "h_s3_client h = None"
  shows "init_outcome dl (profile_to_use (dl_profile_name dl) aws_profile) (init_credentials dl aws_profile h s)"
proof -
  define profile where "profile = profile_to_use (dl_profile_name dl) aws_profile"
  define all where "all = all_providers profile h"
  obtain qs s1 where provs: "new_providers all s = (qs, s1)" by fastforce
  define c where "c = Provider_chain qs"
  obtain p s2 where new: "sdk_new c s1 = (p, s2)" by fastforce
  have held: "held h = [Tls_ctx (Some Tls_options),
      Client_bootstrap (h_event_loop_group h) (h_host_resolver h),
      Host_resolver (h_event_loop_group h) 8, Event_loop_group]"
    by (simp add: held_def ready)
  have "distinct all" "set all \<inter> set (held h) = {}" "\<forall>p \<in> set all. set (needs p) \<subseteq> Some ` set (held h)"
    by (simp_all add: all_def all_providers_def held ready)
  note new_providers_live[OF provs live this]
  then have sub: "subseq qs all" and live1: "holds_live s1 (rev qs @ held h)" by simp_all
  have dist: "distinct (rev qs @ held h)"
    using \<open>distinct all\<close> \<open>set all \<inter> set (held h) = {}\<close> subseq_set[OF sub] subseq_distinct[OF sub]
    by (auto simp: held)
  show ?thesis
  proof (cases "qs = []")
    case True
    with provs live1 show ?thesis
      by (simp add: init_credentials_def init_failed_outcome flip: profile_def all_def)
  next
    case False
    have new_c: "c \<notin> set (rev qs @ held h)"
      using subseq_set[OF sub] by (auto simp: c_def held all_def all_providers_def ready)
    moreover have "set (needs c) \<subseteq> Some ` set (rev qs @ held h)" by (auto simp: c_def)
    ultimately consider (none) "p = None" "holds_live s2 (rev qs @ held h)"
      | (some) "p = Some c" "holds_live s2 (c # rev qs @ held h)"
      using sdk_new_live[OF new live1] by blast
    then show ?thesis
    proof cases
      case none
      then have "holds_live (release_all qs s2) (held h)" using release_all_live[of s2 "[]"] dist by simp
      moreover have "h\<lparr>h_credentials_provider := None\<rparr> = h" using ready(5) by simp
      ultimately show ?thesis using none provs new False
        by (simp add: init_credentials_def init_failed_outcome flip: profile_def all_def c_def)
    next
      case some
      define h1 where "h1 = h\<lparr>h_credentials_provider := Some c\<rparr>"
      have "held h1 = c # held h" by (simp add: h1_def held_def ready)
      moreover have "holds_live (release_all qs s2) (c # held h)"
        using release_all_live[of s2 "[c]" qs "held h"] some(2) new_c dist by simp
      ultimately have "init_outcome dl profile (init_client dl h1 (release_all qs s2))"
        using sub False ready
        by (intro init_client_outcome[where providers = qs])
          (simp_all add: h1_def c_def all_def all_providers_update)
      with some provs new False show ?thesis
        by (simp add: init_credentials_def flip: profile_def all_def c_def h1_def)
    qed
  qed
qed


lemma sdk_new_pointer:
  assumes "sdk_new x s = (p, s')" and "holds_live s live" and "x \<notin> set live"
    and "set (needs x) \<subseteq> Some ` set live"
  shows "holds_live s' ((case p of None \<Rightarrow> [] | Some y \<Rightarrow> [y]) @ live)" and "p = None \<or> p = Some x"
  using sdk_new_live[OF assms] by auto

lemma s3_client_init_outcome:
  assumes "holds_live s0 []"
  shows "init_outcome dl (profile_to_use (dl_profile_name dl) aws_profile)
    (s3_client_init dl aws_profile no_handles s0)"
proof -
  obtain p1 s1 where new1: "sdk_new Event_loop_group (log_event Library_init s0) = (p1, s1)" by fastforce
  obtain p2 s2 where new2: "sdk_new (Host_resolver p1 8) s1 = (p2, s2)" by fastforce
  obtain p3 s3 where new3: "sdk_new (Client_bootstrap p1 p2) s2 = (p3, s3)" by fastforce
  obtain p4 s4 where new4:
    "sdk_new (Tls_ctx (Some Tls_options)) (log_event (Created Tls_options) s3) = (p4, s4)" by fastforce
  define h1 where "h1 = no_handles\<lparr>h_event_loop_group := p1\<rparr>"
  define h2 where "h2 = h1\<lparr>h_host_resolver := p2\<rparr>"
  define h3 where "h3 = h2\<lparr>h_client_bootstrap := p3\<rparr>"
  define h4 where "h4 = h3\<lparr>h_tls_ctx := p4\<rparr>"
  note defs = h1_def h2_def h3_def h4_def no_handles_def held_def
  have 1: "holds_live s1 (held h1)" "p1 = None \<or> p1 = Some Event_loop_group"
    using sdk_new_pointer[OF new1 holds_live_init[OF assms]] by (simp_all add: defs)
  have 2: "holds_live s2 (held h2)" "p2 = None \<or> p2 = Some (Host_resolver p1 8)" if "p1 \<noteq> None"
    using that sdk_new_pointer[OF new2 1(1)] 1(2) by (auto simp: defs)
  have 3: "holds_live s3 (held h3)" "p3 = None \<or> p3 = Some (Client_bootstrap p1 p2)"
    if "p1 \<noteq> None" "p2 \<noteq> None"
    using that sdk_new_pointer[OF new3 2(1)] 1(2) 2(2) by (auto simp: defs)
  have 4: "holds_live (sdk_release Tls_options s4) (held h4)" "p4 = None \<or> p4 = Some (Tls_ctx (Some Tls_options))"
    if p: "p1 \<noteq> None" "p2 \<noteq> None" "p3 \<noteq> None"
  proof -
    have held3: "held h3 = [Client_bootstrap p1 p2, Host_resolver p1 8, Event_loop_group]"
      using p 1(2) 2(2) 3(2) by (auto simp: defs)
    have "holds_live (log_event (Created Tls_options) s3) (Tls_options # held h3)"
      using 3(1) p by (intro holds_live_Created) (auto simp: held3)
    note new = sdk_new_pointer[OF new4 this]
    show p4: "p4 = None \<or> p4 = Some (Tls_ctx (Some Tls_options))" using new(2) by (simp add: held3)
    have "holds_live s4 ((case p4 of None \<Rightarrow> [] | Some y \<Rightarrow> [y]) @ Tls_options # held h3)"
      using new(1) by (simp add: held3)
    from holds_live_release[OF this, of Tls_options]
    have "holds_live (sdk_release Tls_options s4) ((case p4 of None \<Rightarrow> [] | Some y \<Rightarrow> [y]) @ held h3)"
      using p4 by auto
    moreover have "held h4 = (case p4 of None \<Rightarrow> [] | Some y \<Rightarrow> [y]) @ held h3" by (simp add: defs)
    ultimately show "holds_live (sdk_release Tls_options s4) (held h4)" by simp
  qed
  have 5: "init_outcome dl (profile_to_use (dl_profile_name dl) aws_profile)
      (init_credentials dl aws_profile h4 (sdk_release Tls_options s4))"
    if p: "p1 \<noteq> None" "p2 \<noteq> None" "p3 \<noteq> None" "p4 \<noteq> None"
    using p 1 2 3 4 by (intro init_credentials_outcome) (auto simp: defs)
  have "s3_client_init dl aws_profile no_handles s0 =
      (if p1 = None then init_failed h1 s1 else if p2 = None then init_failed h2 s2
       else if p3 = None then init_failed h3 s3
       else if p4 = None then init_failed h4 (sdk_release Tls_options s4)
       else init_credentials dl aws_profile h4 (sdk_release Tls_options s4))"
    by (simp only: s3_client_init_def new1 new2 new3 new4 Let_def prod.case flip: h1_def h2_def h3_def h4_def)
  then show ?thesis using 1 2 3 4 5 by (simp add: init_failed_outcome)
qed

end
