(* ===== verification/Downloader_Main.thy ===== *)
theory Downloader_Main
  imports Hybrid_Requests S3_Client
begin

text \<open>
  The downloader command (\<open>src/downloader/main.c\<close>): its options, the path for archives of one part,
  and \<open>burst_downloader_extract\<close>, which fetches the tail, finds and fetches the central directory and
  chooses between the three ways to extract. What runs concurrently (\<open>Range_Fetch\<close>, \<open>Part_Download\<close>,
  \<open>Hybrid_Coordinator\<close>) enters with its outcome, and the S3 client with its answers. Output on the
  terminal and profiling are left out.
\<close>

section \<open>Options\<close>

text \<open>What \<open>getopt_long\<close> returns; numbers are results of \<open>atoi\<close>.\<close>

datatype download_option =
    Bucket bytes | Key bytes | Region bytes | Output_dir bytes | Connections int
  | Max_concurrent int | Part_size_mib int | Profile bytes | Help | Unknown

record download_config =
  cfg_bucket :: "bytes option"
  cfg_key :: "bytes option"
  cfg_region :: "bytes option"
  cfg_output_dir :: "bytes option"
  cfg_profile :: "bytes option"
  cfg_connections :: int
  cfg_max_concurrent_parts :: int
  cfg_part_size :: u64

definition default_config :: download_config where
  "default_config =
     \<lparr>cfg_bucket = None, cfg_key = None, cfg_region = None, cfg_output_dir = None, cfg_profile = None,
      cfg_connections = 0, cfg_max_concurrent_parts = 8, cfg_part_size = 8 * 1024 * 1024\<rparr>"

text \<open>\<open>Inl\<close>: the exit status. The counts are stored in a \<open>size_t\<close>, so negative numbers are too large.\<close>

fun parse_download_options :: "download_option list \<Rightarrow> download_config \<Rightarrow> int + download_config" where
  "parse_download_options [] c = Inr c"
| "parse_download_options (Bucket s # opts) c = parse_download_options opts (c\<lparr>cfg_bucket := Some s\<rparr>)"
| "parse_download_options (Key s # opts) c = parse_download_options opts (c\<lparr>cfg_key := Some s\<rparr>)"
| "parse_download_options (Region s # opts) c = parse_download_options opts (c\<lparr>cfg_region := Some s\<rparr>)"
| "parse_download_options (Output_dir s # opts) c = parse_download_options opts (c\<lparr>cfg_output_dir := Some s\<rparr>)"
| "parse_download_options (Profile s # opts) c = parse_download_options opts (c\<lparr>cfg_profile := Some s\<rparr>)"
| "parse_download_options (Connections n # opts) c =
     (if n < 0 \<or> n > 256 then Inl 1 else parse_download_options opts (c\<lparr>cfg_connections := n\<rparr>))"
| "parse_download_options (Max_concurrent n # opts) c =
     (if n < 1 \<or> n > 128 then Inl 1 else parse_download_options opts (c\<lparr>cfg_max_concurrent_parts := n\<rparr>))"
| "parse_download_options (Part_size_mib n # opts) c =
     (if n < 8 \<or> n > 64 \<or> n mod 8 \<noteq> 0 then Inl 1
      else parse_download_options opts (c\<lparr>cfg_part_size := of_int n * 1024 * 1024\<rparr>))"
| "parse_download_options (Help # opts) c = Inl 0"
| "parse_download_options (Unknown # opts) c = Inl 1"

text \<open>The strings are freed; what is left to see are the objects of the SDK.\<close>

definition burst_downloader_destroy :: "aws_handles \<Rightarrow> sdk \<Rightarrow> sdk" where
  "burst_downloader_destroy h s = snd (s3_client_cleanup h s)"

text \<open>The structure and the copies of its strings; \<open>Error\<close> tells whether the structure was allocated.
  The copy of the profile, the last allocation, is not checked.\<close>

definition new_downloader :: "bool list \<Rightarrow> download_config \<Rightarrow> (bool, downloader) outcome" where
  "new_downloader plan c =
     (case (cfg_bucket c, cfg_key c, cfg_region c, cfg_output_dir c) of
        (Some bucket, Some key, Some region, Some output_dir) \<Rightarrow>
          if \<not> fst (next_alloc plan) then Error False
          else if False \<in> set (take 5 plan) then Error True
          else Ok \<lparr>dl_bucket = bucket, dl_key = key, dl_region = region, dl_object_size = 0,
                   dl_max_concurrent_connections = nat (cfg_connections c),
                   dl_max_concurrent_parts = nat (cfg_max_concurrent_parts c),
                   dl_part_size = cfg_part_size c, dl_output_dir = output_dir,
                   dl_profile_name = (if False \<in> set (drop 5 plan) then None else cfg_profile c)\<rparr>
      | _ \<Rightarrow> Error False)"

text \<open>The client on top; \<open>None\<close> is NULL.\<close>

definition burst_downloader_create ::
  "bool list \<Rightarrow> bytes option \<Rightarrow> download_config \<Rightarrow> sdk \<Rightarrow> (downloader \<times> aws_handles) option \<times> sdk" where
  "burst_downloader_create plan aws_profile c s =
     (case new_downloader plan c of
        Ok dl \<Rightarrow>
          (case s3_client_init dl aws_profile no_handles s of
             (rc, h, s1) \<Rightarrow>
               if rc \<noteq> 0 then (None, burst_downloader_destroy h s1) else (Some (dl, h), s1))
      | Error allocated \<Rightarrow> (None, if allocated then burst_downloader_destroy no_handles s else s)
      | Fault \<Rightarrow> (None, s))"

section \<open>Archives of one part\<close>

definition process_single_part_archive ::
  "zstd_reader \<Rightarrow> downloader \<Rightarrow> central_dir_parse_result \<Rightarrow> bytes \<Rightarrow> os_state \<Rightarrow> (int \<times> os_state) effect" where
  "process_single_part_archive zr dl cd_result buffer os =
     (case part_processor_create 0 cd_result (dl_output_dir dl) (dl_part_size dl) os of
        (None, os1) \<Rightarrow> Some (Ok (-1, os1))
      | (Some processor, os1) \<Rightarrow>
          let data_end = min (unat (cp_central_dir_offset cd_result)) (length buffer)
          in feed_and_finalize zr (take data_end buffer) processor)"

section \<open>Extraction\<close>

text \<open>The answers of the environment: the client's answer to the first request, the results of
  allocations, the outcome of the concurrent fetch of ranges, of the concurrent downloads and of the
  hybrid coordinator (\<open>None\<close>: it could not be created).\<close>

record extract_env =
  ex_client :: "http_request \<Rightarrow> s3_answer"
  ex_request_allocs :: "bool list"
  ex_qsort :: qsort_fun
  ex_partial_allocs :: alloc_plan
  ex_ranges_alloc :: bool
  ex_assemble_allocs :: "bool list"
  ex_parse_allocs :: alloc_plan
  ex_tail_alloc :: bool
  ex_fetch_ranges :: "cd_part_range list \<Rightarrow> bytes option list option"
  ex_hybrid :: "central_dir_parse_result \<Rightarrow> cd_part_range list \<Rightarrow> os_state \<Rightarrow> hybrid_end option"
  ex_downloads :: "bool list \<Rightarrow> os_state \<Rightarrow> int \<times> os_state"

text \<open>The tail buffer with its place in the object, and what the end records say.\<close>

record tail_info =
  ti_buffer :: bytes
  ti_start :: u64
  ti_object_size :: u64
  ti_eocd :: eocd_info

text \<open>From the bytes of the directory on. A segment without its data is a fault when it is used.\<close>

definition extract_parsed ::
  "zstd_reader \<Rightarrow> extract_env \<Rightarrow> downloader \<Rightarrow> tail_info \<Rightarrow> bytes \<Rightarrow> body_data_segment option list
     \<Rightarrow> os_state \<Rightarrow> (int \<times> os_state) effect" where
  "extract_parsed zr env dl ti cd_data segs os =
     (case central_dir_parse_from_cd_buffer (ex_qsort env) (ex_parse_allocs env) cd_data
             (eo_central_dir_offset (ti_eocd ti)) (eo_central_dir_size (ti_eocd ti)) (ti_object_size ti)
             (dl_part_size dl) (eo_is_zip64 (ti_eocd ti)) of
        Fault \<Rightarrow> Some Fault
      | Error e \<Rightarrow> Some (Ok (-1, os))
      | Ok cd_result \<Rightarrow>
          if length (cp_parts cd_result) \<le> 1 then process_single_part_archive zr dl cd_result (ti_buffer ti) os
          else (case add_tail_buffer_segment (ex_tail_alloc env) segs (ti_buffer ti) (ti_start ti)
                       (cp_central_dir_offset cd_result) of
                  Fault \<Rightarrow> Some Fault
                | Error e \<Rightarrow> Some (Ok (-1, os))
                | Ok segs1 \<Rightarrow>
                    if None \<in> set segs1 then Some Fault
                    else burst_downloader_extract_concurrent zr dl cd_result (map the segs1)
                           (ex_downloads env) os))"

text \<open>The directory lies in the tail: the pointer into the buffer must stay inside.\<close>

definition extract_from_tail ::
  "zstd_reader \<Rightarrow> extract_env \<Rightarrow> downloader \<Rightarrow> tail_info \<Rightarrow> os_state \<Rightarrow> (int \<times> os_state) effect" where
  "extract_from_tail zr env dl ti os =
     (let cd_offset_in_buffer = unat (eo_central_dir_offset (ti_eocd ti) - ti_start ti)
      in if cd_offset_in_buffer > length (ti_buffer ti) then Some Fault
         else extract_parsed zr env dl ti (drop cd_offset_in_buffer (ti_buffer ti)) [] os)"

definition extract_sequential ::
  "zstd_reader \<Rightarrow> extract_env \<Rightarrow> downloader \<Rightarrow> tail_info \<Rightarrow> cd_part_range list \<Rightarrow> os_state
     \<Rightarrow> (int \<times> os_state) effect" where
  "extract_sequential zr env dl ti cd_ranges os =
     (if cd_ranges = [] then extract_from_tail zr env dl ti os
      else case ex_fetch_ranges env cd_ranges of
             None \<Rightarrow> Some (Ok (-1, os))
           | Some range_buffers \<Rightarrow>
               (case assemble_cd_buffer (ex_assemble_allocs env) (ti_buffer ti) (ti_start ti) cd_ranges
                       range_buffers (eo_central_dir_offset (ti_eocd ti)) (eo_central_dir_size (ti_eocd ti)) of
                  Fault \<Rightarrow> Some Fault
                | Error e \<Rightarrow> Some (Ok (-1, os))
                | Ok (cd, segs) \<Rightarrow>
                    if None \<in> set cd then Some Fault
                    else extract_parsed zr env dl ti (map the cd) segs os))"

definition extract_large_directory ::
  "zstd_reader \<Rightarrow> extract_env \<Rightarrow> downloader \<Rightarrow> tail_info \<Rightarrow> os_state \<Rightarrow> (int \<times> os_state) effect" where
  "extract_large_directory zr env dl ti os =
     (let cd_offset = eo_central_dir_offset (ti_eocd ti);
          first = eo_first_cdfh_offset_in_tail (ti_eocd ti)
      in case calculate_cd_fetch_ranges (ex_ranges_alloc env) cd_offset (dl_part_size dl) (ti_start ti) of
           None \<Rightarrow> None
         | Some Fault \<Rightarrow> Some Fault
         | Some (Error e) \<Rightarrow> Some (Ok (-1, os))
         | Some (Ok cd_ranges) \<Rightarrow>
             if first \<noteq> 0 \<and> first \<noteq> BURST_EOCD_NO_CDFH_IN_TAIL \<and> cd_ranges \<noteq> [] then
               (case central_dir_parse_partial (ex_qsort env) (ex_partial_allocs env) (ti_buffer ti) (ti_start ti)
                       cd_offset first (ti_object_size ti) (dl_part_size dl) (eo_is_zip64 (ti_eocd ti)) of
                  Fault \<Rightarrow> Some Fault
                | Error e \<Rightarrow> extract_sequential zr env dl ti cd_ranges os
                | Ok partial_cd \<Rightarrow>
                    if cp_files partial_cd = [] then extract_sequential zr env dl ti cd_ranges os
                    else (case ex_hybrid env partial_cd cd_ranges os of
                            None \<Rightarrow> extract_sequential zr env dl ti cd_ranges os
                          | Some he \<Rightarrow> hybrid_coordinator_end zr dl he))
             else extract_sequential zr env dl ti cd_ranges os)"

definition burst_downloader_extract ::
  "zstd_reader \<Rightarrow> extract_env \<Rightarrow> downloader \<Rightarrow> os_state \<Rightarrow> (int \<times> os_state) effect" where
  "burst_downloader_extract zr env dl os =
     (case burst_downloader_fetch_cd_part (ex_request_allocs env) (ex_client env) dl of
        None \<Rightarrow> Some (Ok (-1, os))
      | Some (initial_buffer, initial_start, object_size) \<Rightarrow>
          (case central_dir_parse_eocd_only initial_buffer object_size True of
             Fault \<Rightarrow> Some Fault
           | Error e \<Rightarrow> Some (Ok (-1, os))
           | Ok info \<Rightarrow>
               let ti = \<lparr>ti_buffer = initial_buffer, ti_start = initial_start,
                         ti_object_size = object_size, ti_eocd = info\<rparr>
               in if eo_central_dir_offset info < initial_start
                  then extract_large_directory zr env dl ti os
                  else extract_from_tail zr env dl ti os))"

text \<open>The profile of the environment replaces a missing one; the result is the exit status. The
  missing arguments are those the creation of the downloader would refuse.\<close>

definition downloader_main ::
  "zstd_reader \<Rightarrow> extract_env \<Rightarrow> download_option list \<Rightarrow> bytes option \<Rightarrow> bool list \<Rightarrow> os_state \<Rightarrow> sdk
     \<Rightarrow> (int \<times> os_state \<times> sdk) effect" where
  "downloader_main zr env opts aws_profile plan os s =
     (case parse_download_options opts default_config of
        Inl status \<Rightarrow> Some (Ok (status, os, s))
      | Inr c \<Rightarrow>
          if cfg_bucket c = None \<or> cfg_key c = None \<or> cfg_region c = None \<or> cfg_output_dir c = None
          then Some (Ok (1, os, s))
          else
            (case burst_downloader_create plan aws_profile
                    (c\<lparr>cfg_profile := (if cfg_profile c = None then aws_profile else cfg_profile c)\<rparr>) s of
               (None, s1) \<Rightarrow> Some (Ok (1, os, s1))
             | (Some (dl, h), s1) \<Rightarrow>
                 (case burst_downloader_extract zr env dl os of
                    Some (Ok (result, os1)) \<Rightarrow>
                      Some (Ok (if result = 0 then 0 else 1, os1, burst_downloader_destroy h s1))
                  | Some (Error e) \<Rightarrow> Some (Error e)
                  | Some Fault \<Rightarrow> Some Fault
                  | None \<Rightarrow> None)))"

lemma parse_download_options_status: "parse_download_options opts c = Inl code \<Longrightarrow> code = 0 \<or> code = 1"
  by (induction opts c rule: parse_download_options.induct) (auto split: if_splits)

section \<open>The objects of the SDK\<close>

lemma destroy_live: "holds_live s (held h) \<Longrightarrow> holds_live (burst_downloader_destroy h s) []"
  by (simp add: burst_downloader_destroy_def cleanup_live)

lemma held_no_handles: "held no_handles = []"
  by (simp add: held_def no_handles_def)

lemma create_live:
  assumes "burst_downloader_create plan aws_profile c s = (r, s')" and "holds_live s []"
  shows "case r of None \<Rightarrow> holds_live s' []
    | Some (dl, h) \<Rightarrow> holds_live s' (held h) \<and>
        (\<exists>providers. connected dl (profile_to_use (dl_profile_name dl) aws_profile) providers h)"
proof (cases "new_downloader plan c")
  case (Ok dl)
  obtain rc h s1 where init: "s3_client_init dl aws_profile no_handles s = (rc, h, s1)"
    by (cases "s3_client_init dl aws_profile no_handles s") auto
  have "init_outcome dl (profile_to_use (dl_profile_name dl) aws_profile) (rc, h, s1)"
    using s3_client_init_outcome[OF assms(2), of dl aws_profile] init by simp
  with assms Ok init destroy_live[of s1 h] show ?thesis
    by (cases "rc = 0") (auto simp: burst_downloader_create_def init_outcome_def)
qed (use assms destroy_live[of s no_handles] in
  \<open>auto simp: burst_downloader_create_def held_no_handles split: if_splits\<close>)

text \<open>C38: The client of the downloader is complete or nothing of it is left, whatever the SDK answers to
  the calls that create its objects. If \<open>burst_downloader_create\<close> succeeds, then the objects that are live are exactly
  the six the downloader points to, each created from the ones before, the chain of credentials holds
  those providers that could be created, in the order of their priority and at least one, and the
  client has the configuration of the downloader. If it fails, everything that was created has been
  released. In no case is an object released twice, or created from a pointer that is NULL or to a
  released object. Destroying the downloader releases the rest, the newest object first.\<close>

theorem client_complete_or_released:
  assumes "burst_downloader_create plan aws_profile c s = (r, s')" and "holds_live s []"
  shows "case r of None \<Rightarrow> holds_live s' []
    | Some (dl, h) \<Rightarrow>
        holds_live s' (held h) \<and> length (held h) = 6 \<and>
        (\<exists>providers. connected dl (profile_to_use (dl_profile_name dl) aws_profile) providers h) \<and>
        sdk_log (burst_downloader_destroy h s') = sdk_log s' @ map Released (held h) @ [Library_clean_up]"
proof (cases r)
  case None
  with create_live[OF assms] show ?thesis by simp
next
  case (Some p)
  moreover obtain dl h where "p = (dl, h)" by fastforce
  moreover have "length (held h) = 6 \<and>
      sdk_log (burst_downloader_destroy h s') = sdk_log s' @ map Released (held h) @ [Library_clean_up]"
    if "connected dl profile providers h" for profile providers
    using that by (simp add: connected_def held_def burst_downloader_destroy_def s3_client_cleanup_def
        release_if_def sdk_release_def log_event_def)
  ultimately show ?thesis using create_live[OF assms] by auto
qed

text \<open>With all allocations successful and an SDK that cannot create the SSO provider only.\<close>

theorem client_complete_or_released_witness:
  "let c = default_config\<lparr>cfg_bucket := Some [98], cfg_key := Some [107], cfg_region := Some [114],
             cfg_output_dir := Some [111]\<rparr>;
       r = burst_downloader_create [] None c \<lparr>sdk_answers = [True, True, True, True, True, False], sdk_log = []\<rparr>
   in \<exists>dl h. fst r = Some (dl, h) \<and> length (held h) = 6 \<and> holds_live (snd r) (held h)"
proof -
  define c where "c = default_config\<lparr>cfg_bucket := Some [98], cfg_key := Some [107], cfg_region := Some [114],
             cfg_output_dir := Some [111]\<rparr>"
  define s where "s = \<lparr>sdk_answers = [True, True, True, True, True, False], sdk_log = []\<rparr>"
  have "fst (burst_downloader_create [] None c s) \<noteq> None" unfolding c_def s_def by code_simp
  moreover have "holds_live s []" by (simp add: s_def holds_live_def)
  note client_complete_or_released[OF surjective_pairing this, of "[]" None c]
  ultimately show ?thesis by (auto simp: Let_def simp flip: c_def s_def)
qed

text \<open>C39: The downloader leaves nothing of the SDK behind: however its options are, whichever
  allocations and constructors fail and whatever the extraction returns, when \<open>main\<close> returns every
  object that was created for the client has been released exactly once, and its status is 0, which it
  is after a successful extraction or for the help, or 1.\<close>

theorem downloader_main_releases:
  assumes "downloader_main zr env opts aws_profile plan os s = Some (Ok (status, os', s'))"
    and "holds_live s []"
  shows "holds_live s' [] \<and> (status = 0 \<or> status = 1)"
proof (cases "parse_download_options opts default_config")
  case (Inl code)
  then show ?thesis using assms parse_download_options_status[OF Inl] by (auto simp: downloader_main_def)
next
  case (Inr c)
  define c' where "c' = c\<lparr>cfg_profile := (if cfg_profile c = None then aws_profile else cfg_profile c)\<rparr>"
  obtain r s1 where create: "burst_downloader_create plan aws_profile c' s = (r, s1)" by fastforce
  from create_live[OF create assms(2)] show ?thesis
    using assms Inr create destroy_live[of s1]
    by (auto simp: downloader_main_def simp flip: c'_def split: option.splits outcome.splits if_splits)
qed

text \<open>The client is created, with two providers missing, and then refuses the first request.\<close>

definition refusing_env :: extract_env where
  "refusing_env =
     \<lparr>ex_client = (\<lambda>message. \<lparr>an_created = False, an_status = 0, an_content_length = None,
        an_content_range = None, an_pieces = [], an_error = 0, an_in_time = True\<rparr>),
      ex_request_allocs = [], ex_qsort = (\<lambda>_ xs. xs), ex_partial_allocs = ([], []), ex_ranges_alloc = True,
      ex_assemble_allocs = [], ex_parse_allocs = ([], []), ex_tail_alloc = True,
      ex_fetch_ranges = (\<lambda>_. None), ex_hybrid = (\<lambda>_ _ _. None), ex_downloads = (\<lambda>_ os. (0, os))\<rparr>"

lemma refusing_env_extract: "burst_downloader_extract zr refusing_env dl os = Some (Ok (-1, os))"
  by (simp add: burst_downloader_extract_def burst_downloader_fetch_cd_part_def get_request_def refusing_env_def)

theorem downloader_main_releases_witness:
  "\<forall>zr os. \<exists>s'.
     downloader_main zr refusing_env [Bucket [98], Key [107], Region [114], Output_dir [111]] None [] os
       \<lparr>sdk_answers = [True, True, True, True, False, False], sdk_log = []\<rparr> = Some (Ok (1, os, s'))
     \<and> length (sdk_log s') = 28 \<and> holds_live s' []"
proof (intro allI)
  fix zr os
  define c where "c = default_config\<lparr>cfg_bucket := Some [98], cfg_key := Some [107], cfg_region := Some [114],
             cfg_output_dir := Some [111]\<rparr>"
  define s where "s = \<lparr>sdk_answers = [True, True, True, True, False, False], sdk_log = []\<rparr>"
  have "(case burst_downloader_create [] None c s of
      (None, s1) \<Rightarrow> False | (Some (dl, h), s1) \<Rightarrow> length (sdk_log (burst_downloader_destroy h s1)) = 28)"
    unfolding c_def s_def by code_simp
  then obtain dl h s1 where create: "burst_downloader_create [] None c s = (Some (dl, h), s1)"
    and log: "length (sdk_log (burst_downloader_destroy h s1)) = 28"
    by (auto split: prod.splits option.splits)
  have parse: "parse_download_options [Bucket [98], Key [107], Region [114], Output_dir [111]] default_config = Inr c"
    by (simp add: c_def)
  have "cfg_profile c = None" and args: "cfg_bucket c \<noteq> None" "cfg_key c \<noteq> None" "cfg_region c \<noteq> None"
    "cfg_output_dir c \<noteq> None"
    by (simp_all add: c_def default_config_def)
  then have profile: "c\<lparr>cfg_profile := (if cfg_profile c = None then None else cfg_profile c)\<rparr> = c" by simp
  have main:
    "downloader_main zr refusing_env [Bucket [98], Key [107], Region [114], Output_dir [111]] None [] os s =
      Some (Ok (1, os, burst_downloader_destroy h s1))"
    by (simp only: downloader_main_def parse sum.case args simp_thms if_False profile create
        refusing_env_extract prod.case option.case outcome.case) simp
  moreover have "holds_live s []" by (simp add: s_def holds_live_def)
  ultimately show "\<exists>s'. downloader_main zr refusing_env [Bucket [98], Key [107], Region [114], Output_dir [111]]
      None [] os \<lparr>sdk_answers = [True, True, True, True, False, False], sdk_log = []\<rparr> = Some (Ok (1, os, s'))
      \<and> length (sdk_log s') = 28 \<and> holds_live s' []"
    using downloader_main_releases[OF main] log by (auto simp flip: s_def)
qed

end
