(* ===== verification/Archive_Extraction.thy ===== *)
theory Archive_Extraction
  imports Downloader_Main Tree_Paths
begin

text \<open>
  The two programs together: an archive of at most 8 MiB that the writer command has made of a directory is
  fetched and extracted by the downloader. The records are followed through the central directory,
  the part map and the part processor of the only part, which leaves the whole tree under the output
  directory.
\<close>

section \<open>The part map of a small archive\<close>

lemma sort_entries_sorted:
  assumes "qsort_ok qs" and "sorted_wrt (<) (map pe_offset_in_part xs)"
  shows "sort_entries qs xs = xs"
proof -
  note p = sort_entries_props[OF assms(1), of xs]
  have s: "sorted (map pe_offset_in_part xs)" "distinct (map pe_offset_in_part xs)"
    using assms(2) by (simp_all add: strict_sorted_iff)
  have "set (sort_entries qs xs) = set xs" using p(1) by (metis mset_eq_setD)
  moreover have "distinct (map pe_offset_in_part (sort_entries qs xs))"
    using s(2) p(1) by (metis mset_map mset_eq_imp_distinct_iff)
  moreover have "inj_on pe_offset_in_part (set (sort_entries qs xs) \<union> set xs)"
    using s(2) calculation(1) by (simp add: distinct_map)
  ultimately show ?thesis
    using map_sorted_distinct_set_unique[OF _ p(2) _ s] by blast
qed

lemma entries_of_all:
  assumes "\<forall>f \<in> set fs. fm_part_index f = 0 \<and> fm_local_header_offset f < part_len"
  shows "entries_of part_len i fs 0 =
    map (\<lambda>(k, f). \<lparr>pe_file_index = k, pe_offset_in_part = fm_local_header_offset f\<rparr>) (enumerate i fs)"
proof -
  have f: "fm_part_index (snd p) = 0 \<and> fm_local_header_offset (snd p) < part_len" if "p \<in> set (enumerate i fs)" for p
  proof -
    have "snd p \<in> set (map snd (enumerate i fs))" using that unfolding set_map by blast
    then have "snd p \<in> set fs" by (simp only: map_snd_enumerate)
    then show ?thesis using assms by blast
  qed
  then have "filter (\<lambda>(k, f). unat (fm_part_index f) = 0) (enumerate i fs) = enumerate i fs"
    by (intro filter_True) (auto simp: unat_eq_0)
  moreover have "fm_local_header_offset (snd p) mod part_len = fm_local_header_offset (snd p)"
    if "p \<in> set (enumerate i fs)" for p
    using f[OF that] by (simp add: mod_word_less)
  ultimately show ?thesis by (auto simp: entries_of_def)
qed

lemma enumerate_files:
  "map (\<lambda>x. fs ! pe_file_index x)
     (map (\<lambda>(k, f). \<lparr>pe_file_index = k, pe_offset_in_part = fm_local_header_offset f\<rparr>) (enumerate 0 fs)) = fs"
  by (rule nth_equalityI) (simp_all add: nth_enumerate_eq)

lemma one_part:
  assumes "0 < n" and "n \<le> PART" and "PART \<le> unat part_len" and "unat part_len < 2 ^ 63"
  shows "number_of_parts (of_nat n) part_len = 1"
proof -
  have "unat (of_nat n + part_len - 1) = n + unat part_len - 1"
  proof -
    have "unat (of_nat n + part_len) = n + unat part_len"
      using assms by (simp add: unat_word_ariths unat_of_nat)
    moreover have "1 \<le> (of_nat n + part_len :: u64)"
      using calculation assms(1) by (simp add: word_le_nat_alt)
    ultimately show ?thesis by (simp add: unat_sub)
  qed
  moreover have "(n + unat part_len - 1) div unat part_len = 1"
    using assms by (intro div_nat_eqI) auto
  ultimately show ?thesis by (simp add: number_of_parts_def unat_div Let_def)
qed

lemma one_part_map:
  assumes qs: "qsort_ok qs" and off: "offsets_in 0 n es" and n: "n \<le> m" "0 < m" "m \<le> PART"
    and part: "PART \<le> unat part_len" "unat part_len < 2 ^ 63"
    and map: "build_part_map qs [] (map (metadata_of part_len) es) (of_nat m) part_len = Ok ps"
  shows "length ps = 1" and "pf_continuing_file (ps ! 0) = None"
    and "map (\<lambda>x. map (metadata_of part_len) es ! pe_file_index x) (pf_entries (ps ! 0)) = map (metadata_of part_len) es"
proof -
  let ?fs = "map (metadata_of part_len) es"
  let ?en = "map (\<lambda>(k, f). \<lparr>pe_file_index = k, pe_offset_in_part = fm_local_header_offset f\<rparr>) (enumerate 0 ?fs)"
  show len: "length ps = 1" using build_part_map_Ok(1)[OF map] one_part[OF n(2,3) part] by simp
  have ps: "ps ! 0 = \<lparr>pf_entries = sort_entries qs (entries_of part_len 0 ?fs 0),
      pf_continuing_file = continuing_file_of ?fs part_len 0\<rparr>"
    using build_part_map_Ok(3)[OF map, of 0] len by simp
  have "fe_local_header_offset e < part_len" if "e \<in> set es" for e
    using off that n part by (fastforce simp: offsets_in_def word_less_nat_alt)
  moreover from this have "fe_local_header_offset e div part_len = 0" if "e \<in> set es" for e
    using that by (simp add: div_word_less)
  ultimately have en: "entries_of part_len 0 ?fs 0 = ?en"
    by (intro entries_of_all) (auto simp: metadata_of_def)
  have "map pe_offset_in_part ?en = map fe_local_header_offset es"
    by (rule nth_equalityI) (simp_all add: nth_enumerate_eq metadata_of_def)
  moreover have "sorted_wrt (<) (map fe_local_header_offset es)"
    using off by (simp add: offsets_in_def sorted_wrt_map word_less_nat_alt)
  ultimately have "sorted_wrt (<) (map pe_offset_in_part ?en)" by (simp only:)
  from sort_entries_sorted[OF qs this] ps en enumerate_files[of ?fs]
  show "map (\<lambda>x. ?fs ! pe_file_index x) (pf_entries (ps ! 0)) = ?fs" "pf_continuing_file (ps ! 0) = None"
    by (simp_all add: continuing_file_of_def)
qed

section \<open>One buffer, one processor\<close>

lemma part_processor_create_quiet:
  assumes "quiet os" and "length (cp_parts cd) = 1"
  shows "\<exists>st. part_processor_create 0 cd dir part_len os = (Some st, os) \<and> ps_state st = STATE_INIT \<and>
    ps_part_index st = 0 \<and> ps_part_start_offset st = 0 \<and> ps_cd_result st = cd \<and> ps_output_dir st = dir \<and>
    ps_current_file st = None \<and> ps_frame_buffer st = [] \<and> ps_next_entry_idx st = 0 \<and>
    ps_bytes_processed st = 0 \<and> ps_os st = os"
  using assms by (simp add: part_processor_create_def)

lemma feed_and_finalize_whole:
  assumes st: "ps_state st = STATE_INIT" "ps_frame_buffer st = []"
    and cont: "pf_continuing_file (this_part st) = None" and ne: "data \<noteq> []"
    and loop: "process_loop zr data 0 (st\<lparr>ps_state := STATE_EXPECT_LOCAL_HEADER\<rparr>) =
      process_loop zr data (length data) st'"
    and ready: "ready st'" "ps_frame_buffer st' = []"
  shows "feed_and_finalize zr data st = Some (Ok (0, ps_os (settled st')))"
proof -
  have "process_loop zr data 0 st = process_loop zr data 0 (st\<lparr>ps_state := STATE_EXPECT_LOCAL_HEADER\<rparr>)"
    using st(1) cont ne by (intro process_loop_Next) (simp_all add: process_step_def step_init_def)
  also have "\<dots> = Some (Completed st')"
    using loop by (simp add: process_loop.simps[of _ _ "length data"])
  finally have "part_processor_process_data zr data st = Some (Done STREAM_PROC_SUCCESS st')"
    using st by (simp add: part_processor_process_data_def run_loop_def)
  moreover obtain st2 where "part_processor_finalize st' = Done STREAM_PROC_SUCCESS st2" "ps_current_file st2 = None"
    "ps_os st2 = ps_os (settled st')" using settled_finalize[OF ready] by blast
  ultimately show ?thesis using ne by (simp add: feed_and_finalize_def part_processor_destroy_def)
qed

lemma single_part_extracts:
  assumes wr: "wrote_items env fopen its w w' es" "its \<noteq> []" "stream w = []"
    and env: "frames_fit env" "frames_readable env (compression_level w) zr"
    and reg: "\<forall>it \<in> set its. restorable fopen it \<and> length (it_name it) < 65536"
    and len: "length (stream w') \<le> m" "m \<le> PART" and qs: "qsort_ok qs"
    and part: "PART \<le> unat (dl_part_size dl)" "unat (dl_part_size dl) < 2 ^ 63"
    and map: "build_part_map qs [] (map (metadata_of (dl_part_size dl)) es) (of_nat m) (dl_part_size dl) = Ok ps"
    and cd: "cp_files cd = map (metadata_of (dl_part_size dl)) es" "cp_parts cd = ps"
      "cp_central_dir_offset cd = of_nat (length (stream w'))"
    and os: "idle os" "\<forall>it \<in> set its. item_creatable os (dl_output_dir dl) it"
      "sorted_wrt (may_follow (dl_output_dir dl)) its"
  shows "\<exists>os'. process_single_part_archive zr dl cd (stream w' @ rest) os = Some (Ok (0, os')) \<and>
    delivers fopen (dl_output_dir dl) its os os'"
proof -
  let ?s = "stream w'"
  have s: "length ?s \<le> PART" using len by simp
  from wrote_items_entries[OF wr(1) reg s] wr(3)
  have en: "list_all2 (\<lambda>it e. entry_of it (item_content fopen it) e) its es"
    and off: "offsets_in 0 (length ?s) es" by simp_all
  have "es \<noteq> []" using en wr(2) by auto
  then obtain e where "e \<in> set es" by (meson list.set_sel(1))
  then have ne: "0 < length ?s" using off by (auto simp: offsets_in_def)
  note pm = one_part_map[OF qs off len(1) _ len(2) part map]
  have m: "0 < m" using ne len(1) by (rule less_le_trans)
  obtain st where st: "part_processor_create 0 cd (dl_output_dir dl) (dl_part_size dl) os = (Some st, os)"
    "ps_state st = STATE_INIT" "ps_part_index st = 0" "ps_part_start_offset st = 0" "ps_cd_result st = cd"
    "ps_output_dir st = dl_output_dir dl" "ps_current_file st = None" "ps_frame_buffer st = []"
    "ps_next_entry_idx st = 0" "ps_bytes_processed st = 0" "ps_os st = os"
    using part_processor_create_quiet[of os cd] os(1) pm(1)[OF m] cd(2) by (auto simp: idle_def)
  let ?st = "st\<lparr>ps_state := STATE_EXPECT_LOCAL_HEADER\<rparr>"
  have rs: "ready ?st" "settled ?st = ?st" using settled_expects[of ?st] st(7) by simp_all
  have "expects (dl_part_size dl) (settled ?st) es"
    using pm(3)[OF m] st cd(1,2) rs(2) by (simp add: expects_def)
  from wrote_items_done[OF wr(1) env _ s en rs(1) this, of "dl_output_dir dl" "[]" "[]"] rs(2) st reg os wr(3)
  obtain st' os' where loop: "process_loop zr ?s 0 ?st = process_loop zr ?s (length ?s) st'" and r: "ready st'"
    and fin: "settled st' = after_files ?st (length es) (length ?s) os'"
    and del: "delivers fopen (dl_output_dir dl) its os os'" by auto
  have "ps_frame_buffer st' = []" using settled_fields(3)[OF r] fin st(8) by simp
  from feed_and_finalize_whole[OF st(2,8) _ _ loop r this] ne pm(2)[OF m] st(3,5) cd(2) fin
  have "feed_and_finalize zr ?s st = Some (Ok (0, os'))" by auto
  moreover have "take (min (unat (cp_central_dir_offset cd)) (length (?s @ rest))) (?s @ rest) = ?s"
    using cd(3) s by (simp add: unat_of_nat)
  ultimately show ?thesis using st(1) del by (simp add: process_single_part_archive_def)
qed

section \<open>From the tree to the extracted tree\<close>

lemma written_directory_ok:
  assumes "list_all2 (\<lambda>it e. entry_of it (item_content fopen it) e) its es"
  shows "directory_ok es"
  using assms by (auto simp: directory_ok_def entry_of_def list_all2_conv_all_nth in_set_conv_nth)

text \<open>The client answers the first request with the last 8 MiB of the object; nothing fails to be
  allocated on the way to the part processor.\<close>

definition serves :: "extract_env \<Rightarrow> downloader \<Rightarrow> bytes \<Rightarrow> bool" where
  "serves x dl archive \<longleftrightarrow>
     conforming archive (tail_start archive) (ex_client x (object_request dl False (Some suffix_range))) \<and>
     ex_request_allocs x = [] \<and> ex_parse_allocs x = ([], []) \<and> qsort_ok (ex_qsort x)"

lemma extract_small:
  assumes len: "length (s @ central_directory es) + 106 \<le> PART" and es: "directory_ok es"
    and x: "serves x dl (s @ central_directory es @ end_records n (length s) (length (central_directory es)) f)"
    and part: "PART \<le> unat (dl_part_size dl)" "unat (dl_part_size dl) < 2 ^ 63"
  defines "archive \<equiv> s @ central_directory es @ end_records n (length s) (length (central_directory es)) f"
  shows "\<exists>ps cd. build_part_map (ex_qsort x) [] (map (metadata_of (dl_part_size dl)) es) (of_nat (length archive))
        (dl_part_size dl) = Ok ps \<and>
    cp_files cd = map (metadata_of (dl_part_size dl)) es \<and> cp_parts cd = ps \<and>
    cp_central_dir_offset cd = of_nat (length s) \<and>
    (length ps \<le> 1 \<longrightarrow> burst_downloader_extract zr x dl os = process_single_part_archive zr dl cd archive os)"
proof -
  let ?c = "length (central_directory es)" and ?L = "dl_part_size dl"
  let ?er = "end_records n (length s) ?c f"
  have al: "length archive = length s + ?c + 106" by (simp add: archive_def)
  have L: "?L \<noteq> 0" using part(1) by auto
  obtain ps where ps: "build_part_map (ex_qsort x) [] (map (metadata_of ?L) es) (of_nat (length archive)) ?L = Ok ps"
    using build_part_map_returns[OF L] by blast
  have t0: "tail_start archive = 0" using len al by simp
  have fetch: "burst_downloader_fetch_cd_part (ex_request_allocs x) (ex_client x) dl =
      Some (archive, 0, of_nat (length archive))"
    using fetch_cd_part_ok[of archive "ex_client x" dl] x len al t0 by (simp add: serves_def archive_def)
  let ?info = "\<lparr>eo_central_dir_offset = of_nat (length s), eo_central_dir_size = of_nat ?c,
      eo_num_entries = Some (of_nat n), eo_is_zip64 = True, eo_first_cdfh_offset_in_tail = f AND 0xFFFFFF\<rparr> :: eocd_info"
  let ?ti = "\<lparr>ti_buffer = archive, ti_start = 0, ti_object_size = of_nat (length archive), ti_eocd = ?info\<rparr>"
  let ?cd = "\<lparr>cp_files = map (metadata_of ?L) es, cp_parts = ps, cp_central_dir_offset = of_nat (length s),
      cp_central_dir_size = of_nat ?c, cp_is_zip64 = True\<rparr>"
  have eocd: "central_dir_parse_eocd_only archive (of_nat (length archive)) True = Ok ?info"
    using eocd_only_writer[of "length s" ?c "s @ central_directory es" n f True] len al
    by (simp add: archive_def add.assoc)
  have parse: "central_dir_parse_from_cd_buffer (ex_qsort x) ([], []) (drop (length s) archive)
      (of_nat (length s)) (of_nat ?c) (of_nat (length archive)) ?L True = Ok ?cd"
    using from_cd_buffer_writer[OF es L _ _ ps, of ?er] len by (simp add: archive_def)
  have u: "unat (of_nat (length s) :: u64) = length s" using len by (simp add: unat_of_nat)
  have "burst_downloader_extract zr x dl os = extract_parsed zr x dl ?ti (drop (length s) archive) [] os"
    using fetch eocd u al by (simp add: burst_downloader_extract_def extract_from_tail_def Let_def)
  moreover have "extract_parsed zr x dl ?ti (drop (length s) archive) [] os =
      process_single_part_archive zr dl ?cd archive os" if "length ps \<le> 1"
    using parse x that by (simp add: extract_parsed_def serves_def)
  ultimately show ?thesis using ps by (intro exI[of _ ps] exI[of _ ?cd]) simp
qed

lemma write_archive_wrote:
  assumes env: "frames_fit env" and list: "list_allocs l = []" "\<not> dangling l" "items l \<noteq> []"
    and its: "\<forall>it \<in> set (items l). item_ready env fopen level it \<and> restorable fopen it"
    and bud: "budget 0 (items_cost fopen (items l))"
  shows "\<exists>w w1 w' es n first.
     write_archive env fopen level (Some \<lparr>out_written = [], out_limits = []\<rparr>) l = Exit 0 (Some w') \<and>
     stream w = [] \<and> compression_level w = level \<and> wrote_items env fopen (items l) w w1 es \<and> files w' = es \<and>
     out_written (output_file w') = stream w1 @ central_directory es @
       end_records n (length (stream w1)) (length (central_directory es)) first"
proof -
  obtain w where w: "burst_writer_create \<lparr>out_written = [], out_limits = []\<rparr> level [] = Some w"
    by (simp add: burst_writer_create_def)
  have inv: "archive_inv w" using create_archive_inv[OF w] by simp
  have f: "fault_free w" "compression_level w = level" "files w = []" "stream w = []"
    using w by (auto simp: burst_writer_create_def fault_free_def stream_def)
  from process_entries_wrote[OF env inv f(1), of "items l" fopen 0] its bud f
  obtain w1 es where w1: "process_entries env fopen (items l) 0 w = (int (length (items l)), w1)"
    "archive_inv w1" "fault_free w1" "files w1 = es" "wrote_items env fopen (items l) w w1 es" by auto
  have wf: "writer_wf w1" using w1(2) by (simp add: archive_inv_def)
  obtain w' where fin: "burst_writer_finalize w1 = (0, w')" and "finalized w1 w'"
    using burst_writer_finalize_refines(2)[OF wf w1(3)] by blast
  then have "files w' = es" using w1(4) by (simp add: finalized_def)
  moreover have "write_archive env fopen level (Some \<lparr>out_written = [], out_limits = []\<rparr>) l = Exit 0 (Some w')"
    using w w1(1) fin list by (simp add: write_archive_def quit_def file_list_destroy_def)
  ultimately show ?thesis using f(2,4) w1(5) finalized_bytes[OF wf fin, unfolded w1(4)] by blast
qed

lemma items_are_extracted:
  assumes env: "frames_fit env" "frames_readable env level zr"
    and wr: "wrote_items env fopen its w w1 es" "its \<noteq> []" "stream w = []" "compression_level w = level"
    and its: "\<forall>it \<in> set its. item_ready env fopen level it \<and> restorable fopen it"
    and a: "archive = stream w1 @ central_directory es @
       end_records n (length (stream w1)) (length (central_directory es)) first" "length archive \<le> PART"
    and x: "serves x dl archive" and part: "PART \<le> unat (dl_part_size dl)" "unat (dl_part_size dl) < 2 ^ 63"
    and os: "idle os" "\<forall>it \<in> set its. item_creatable os (dl_output_dir dl) it"
      "sorted_wrt (may_follow (dl_output_dir dl)) its"
  shows "\<exists>os'. burst_downloader_extract zr x dl os = Some (Ok (0, os')) \<and>
           delivers fopen (dl_output_dir dl) its os os'"
proof -
  let ?s = "stream w1" and ?c = "length (central_directory es)"
  have len: "length (?s @ central_directory es) + 106 \<le> PART" using a by simp
  have names: "\<forall>it \<in> set its. restorable fopen it \<and> length (it_name it) < 65536"
    using its by (auto simp: item_ready_def)
  have "length ?s \<le> PART" using len by simp
  from wrote_items_entries[OF wr(1) names this] have dir: "directory_ok es"
    by (intro written_directory_ok) auto
  obtain ps cd where ps: "build_part_map (ex_qsort x) [] (map (metadata_of (dl_part_size dl)) es)
      (of_nat (length archive)) (dl_part_size dl) = Ok ps"
    and cd: "cp_files cd = map (metadata_of (dl_part_size dl)) es" "cp_parts cd = ps"
      "cp_central_dir_offset cd = of_nat (length ?s)"
    and run: "length ps \<le> 1 \<longrightarrow> burst_downloader_extract zr x dl os = process_single_part_archive zr dl cd archive os"
    using extract_small[OF len dir x[unfolded a(1)] part, of zr os] unfolding a(1) by blast
  have "length ps = 1"
    using build_part_map_Ok(1)[OF ps] one_part[OF _ a(2) part] a(1) by simp
  moreover have "\<exists>os'. process_single_part_archive zr dl cd (?s @ central_directory es @ end_records n (length ?s) ?c first) os
      = Some (Ok (0, os')) \<and> delivers fopen (dl_output_dir dl) its os os'"
    using single_part_extracts[OF wr(1-3) env(1) _ names _ a(2) _ part ps cd os] env(2) wr(4) x a(1)
    by (simp add: serves_def)
  ultimately show ?thesis using run unfolding a(1) by simp
qed

text \<open>C1: the two programs together. The writer command runs on a directory whose subdirectories can be opened and
  whose entries are ready, in an environment where no allocation and no write fails. It exits with
  0; and if the archive has at most 8 MiB and a server answers the downloader's first request with
  it, cut into any pieces, then the downloader, with a new or empty output directory, returns 0, and
  the whole tree is there: every directory, every file with exactly its bytes, every link with its
  target, with their permissions and, for the superuser, their owners. Nothing else has changed
  except directories made on the way, and no descriptor is left open.\<close>

theorem archive_is_extracted:
  assumes "frames_fit env" and "frames_readable env level zr"
    and "parse_options opts None 3 = Inr (Some path, level)"
    and "opendir node = Some es" and "tidy_tree es" and "tree_opens es" and "tree_items root [] es \<noteq> []"
    and "\<forall>it \<in> set (tree_items root [] es). item_ready env fopen level it \<and> st_mode (it_stat it) < 0x10000 \<and>
           it_name it \<noteq> PADDING_LFH_FILENAME \<and> length (item_content fopen it) < 0xFFFFFFFF"
    and "budget 0 (items_cost fopen (tree_items root [] es))"
    and "PART \<le> unat (dl_part_size dl)" and "unat (dl_part_size dl) < 2 ^ 63"
    and "idle os" and "fresh_output os (dl_output_dir dl)"
  shows "\<exists>w'. writer_main env fopen opts True [(root, node)] (Some \<lparr>out_written = [], out_limits = []\<rparr>) []
             = Exit 0 (Some w') \<and>
           (\<forall>x. length (out_written (output_file w')) \<le> PART \<longrightarrow> serves x dl (out_written (output_file w')) \<longrightarrow>
             (\<exists>os'. burst_downloader_extract zr x dl os = Some (Ok (0, os')) \<and>
                delivers fopen (dl_output_dir dl) (tree_items root [] es) os os'))"
proof -
  let ?its = "tree_items root [] es"
  have tree: "\<forall>it \<in> set ?its. listed it" "pre_ordered ?its"
    using node_and_tree_items(2)[OF assms(5), of root "[]"] by auto
  have its: "\<forall>it \<in> set ?its. item_ready env fopen level it \<and> restorable fopen it"
    using tree(1) assms(8) listed_restorable by blast
  obtain l0 where l0: "file_list_create [] = Some l0" by (simp add: file_list_create_def)
  from collected_create[OF l0 assms(6,4), of root]
  obtain l where l: "collect_files_recursive root [] node l0 = (0, l)" "items l = ?its" "list_allocs l = []"
    "\<not> dangling l" by blast
  from write_archive_wrote[OF assms(1) l(3,4), of fopen level] l(2) its assms(7,9)
  obtain w w1 w' fs n first where run: "write_archive env fopen level (Some \<lparr>out_written = [], out_limits = []\<rparr>) l
      = Exit 0 (Some w')" and w: "stream w = []" "compression_level w = level" "wrote_items env fopen ?its w w1 fs"
    and a: "out_written (output_file w') = stream w1 @ central_directory fs @
       end_records n (length (stream w1)) (length (central_directory fs)) first" by auto
  have "writer_main env fopen opts True [(root, node)] (Some \<lparr>out_written = [], out_limits = []\<rparr>) []
      = Exit 0 (Some w')"
    using run l(1,2) assms(7) by (simp add: writer_main_def assms(3) l0 collect_files_def)
  moreover have "\<exists>os'. burst_downloader_extract zr x dl os = Some (Ok (0, os')) \<and>
      delivers fopen (dl_output_dir dl) ?its os os'"
    if "length (out_written (output_file w')) \<le> PART" "serves x dl (out_written (output_file w'))" for x
    using items_are_extracted[OF assms(1,2) w(3) assms(7) w(1,2) its a that assms(10-12)]
      listed_creatable[OF assms(13)] tree pre_ordered_may_follow by blast
  ultimately show ?thesis by blast
qed

text \<open>The tree of \<open>Writer_Main\<close> (a directory, a file in it and a link), a client that answers in one piece, and
  an empty file system.\<close>

definition demo_extract :: "bytes \<Rightarrow> extract_env" where
  "demo_extract archive =
     \<lparr>ex_client = (\<lambda>message. \<lparr>an_created = True, an_status = 206, an_content_length = None,
        an_content_range = Some (content_range 0 (length archive - 1) (length archive)),
        an_pieces = [(True, archive)], an_error = 0, an_in_time = True\<rparr>),
      ex_request_allocs = [], ex_qsort = stable_qsort, ex_partial_allocs = ([], []), ex_ranges_alloc = True,
      ex_assemble_allocs = [], ex_parse_allocs = ([], []), ex_tail_alloc = True,
      ex_fetch_ranges = (\<lambda>_. None), ex_hybrid = (\<lambda>_ _ _. None), ex_downloads = (\<lambda>_ os. (0, os))\<rparr>"

definition demo_downloader :: downloader where
  "demo_downloader =
     \<lparr>dl_bucket = [98], dl_key = [107], dl_region = [114], dl_object_size = 0, dl_max_concurrent_connections = 0,
      dl_max_concurrent_parts = 8, dl_part_size = 8388608, dl_output_dir = [111], dl_profile_name = None\<rparr>"

lemma demo_serves:
  assumes "length archive \<le> PART"
  shows "serves (demo_extract archive) demo_downloader archive"
proof -
  have "qsort_ok stable_qsort" by (rule stable.c_qsort_axioms)
  then show ?thesis using assms by (simp add: serves_def demo_extract_def conforming_def)
qed

lemma demo_record_length:
  assumes wr: "wrote_file stored_env (\<lambda>_. Some demo_input) it w w' e" and len: "length (stream w) + 200000 \<le> PART"
  shows "length (stream w') \<le> length (stream w) + 66000"
proof -
  obtain w1 lfh tail its where s1: "stream w1 = stream w" and ho: "header_ok lfh tail 0 True"
    and its: "items_of stored_env w1 lfh tail (content_of demo_input) = Some its"
    and s: "stream w' = stream w @ file_record stored_env w1 lfh tail (content_of demo_input) its"
    using wr by (auto simp: wrote_file_def)
  have tail: "length tail \<le> 65438" using ho by (simp add: header_ok_def entry_need_def)
  have room: "room p = PART - p" if "p < PART" for p using that by (simp add: room_def)
  have "length (stream w1) < PART" using s1 len by simp
  note r = room[OF this]
  have "\<not> PART - length (stream w1) < entry_need (30 + length tail) 0 True"
    using s1 len tail unfolding entry_need_def by simp
  then have pad: "padding_for ct w1 tail 0 True = []" for ct by (simp add: entry_padding_def r)
  have "file_items stored_env (compression_level w1) (length (stream w) + (30 + length tail))
      (content_of demo_input) = Some its"
    using its[unfolded pad] s1 by simp
  moreover have "35 \<le> 8388578 - (length (stream w) + length tail)" using len tail by linarith
  ultimately have "its = [Frame [65, 66, 67] (stored_frame [65, 66, 67])]"
    using len tail
    by (simp add: file_items_def demo_chunks compress_chunk_def stored_env_def demo_env_def Let_def
        ZSTD_CHUNK_SIZE_def frame_items_def room)
  moreover have "file_record stored_env w1 lfh tail (content_of demo_input) its =
      (local_header_bytes lfh @ tail) @ file_body stored_env (length (stream w) + (30 + length tail))
        (content_of demo_input) its"
    unfolding file_record_def pad by (simp add: s1)
  moreover have "\<not> room (length (stream w) + (30 + length tail) + 11) < 76"
    using len tail by (subst room) linarith+
  ultimately show ?thesis
    using s tail by (simp add: file_body_def file_tail_def trailer_items_def add.assoc)
qed

lemma demo_plain_length:
  assumes wr: "wrote_plain env c it w w' e" and len: "length (stream w) + 200000 \<le> PART"
  shows "length (stream w') \<le> length (stream w) + 66000"
proof -
  obtain w1 lfh tail dd where s1: "stream w1 = stream w" and ho: "header_ok lfh tail (length c) dd"
    and s: "stream w' = stream w @ padding_for (env_time env) w1 tail (length c) dd @ local_header_bytes lfh @ tail @ c"
    using wr by (auto simp: wrote_plain_def)
  have need: "entry_need (30 + length tail) (length c) dd \<le> 65536" using ho by (simp add: header_ok_def)
  have "room (length (stream w1)) = PART - length (stream w1)"
    using s1 len by (simp add: room_def)
  then have "\<not> room (length (stream w1)) < entry_need (30 + length tail) (length c) dd"
    using need s1 len by simp
  then have pad: "padding_for ct w1 tail (length c) dd = []" for ct by (simp add: entry_padding_def)
  show ?thesis using need unfolding s pad by (simp add: entry_need_def split: if_splits)
qed

lemma demo_item_length:
  assumes "wrote_item stored_env (\<lambda>_. Some demo_input) it w w' e" and "length (stream w) + 200000 \<le> PART"
  shows "length (stream w') \<le> length (stream w) + 66000"
  using assms demo_record_length demo_plain_length by (auto simp: wrote_item_def split: if_splits)

lemma demo_items_fine:
  "\<forall>it \<in> set demo_items. restorable (\<lambda>_. Some demo_input) it \<and> length (it_name it) < 400"
  by (simp add: restorable_def is_link_def has_data_def item_content_def item_target_def demo_readable demo_stat_def
      S_ISLNK_def PADDING_LFH_FILENAME_def)

lemma demo_archive_length:
  assumes "wrote_items stored_env (\<lambda>_. Some demo_input) demo_items w w1 es" and "stream w = []"
  shows "length (stream w1 @ central_directory es) \<le> 300000"
proof -
  let ?f = "\<lambda>_. Some demo_input" and ?a = "demo_items ! 0" and ?b = "demo_items ! 1" and ?c = "demo_items ! 2"
  obtain u v e1 e2 e3 where i: "wrote_item stored_env ?f ?a w u e1" "wrote_item stored_env ?f ?b u v e2"
    "wrote_item stored_env ?f ?c v w1 e3" and es: "es = [e1, e2, e3]"
    using assms(1) by (auto elim!: wrote_items.cases)
  have l1: "length (stream u) \<le> 66000" using demo_item_length[OF i(1)] assms(2) by simp
  then have l2: "length (stream v) \<le> 132000" using demo_item_length[OF i(2)] by simp
  then have l3: "length (stream w1) \<le> 198000" using demo_item_length[OF i(3)] by simp
  have small: "length (cdfh_bytes e) \<le> 500"
    if "wrote_item stored_env ?f it y z e" "it \<in> set demo_items" "length (stream z) \<le> PART" for it y z e
  proof -
    have r: "restorable ?f it" "length (it_name it) < 400" using demo_items_fine that(2) by blast+
    then have "entry_of it (item_content ?f it) e"
      using wrote_item_entry[OF that(1) r(1) _ that(3)] by auto
    then have "entry_ok e" "fe_filename e = it_name it" by (simp_all add: entry_of_def)
    then show ?thesis using r(2) length_cdfh_extra[of e] by (simp add: length_cdfh_ok)
  qed
  have "length (central_directory es) \<le> 3 * 500"
    using small[OF i(1)] small[OF i(2)] small[OF i(3)] l1 l2 l3 by (simp add: es central_directory_def)
  with l3 show ?thesis by simp
qed

lemma demo_tree_fine:
  "opendir (Node (Some demo_stat) (Some demo_tree) None) = Some demo_tree" "tidy_tree demo_tree" "tree_opens demo_tree"
  "tree_items [116] [] demo_tree \<noteq> []"
  unfolding demo_tree_items
  by (simp_all add: demo_tree_def demo_stat_def dot_entry_def entry_name_def S_ISDIR_def)

lemma demo_budget_items: "budget 0 (items_cost (\<lambda>_. Some demo_input) demo_items)"
  by (simp add: items_cost_def entry_cost_def demo_chunks budget_def)

lemma stored_items_ready: "\<forall>it \<in> set demo_items. item_ready stored_env (\<lambda>_. Some demo_input) 3 it"
proof -
  have "\<forall>c \<in> set (chunks [65, 66, 67]). \<exists>f. frame_of stored_env level c = Some f" for level
    using demo_chunks[unfolded demo_readable]
    by (simp add: compress_chunk_def stored_env_def ZSTD_CHUNK_SIZE_def demo_env_def)
  then show ?thesis
    using demo_file_ready(1,2)
    by (simp add: item_ready_def entry_ready_def item_target_def demo_stat_def S_ISLNK_def demo_readable)
qed

lemma demo_run_length:
  assumes "writer_main stored_env (\<lambda>_. Some demo_input) [Opt_output [122]] True
       [([116], Node (Some demo_stat) (Some demo_tree) None)] (Some \<lparr>out_written = [], out_limits = []\<rparr>) []
       = Exit 0 (Some w')"
  shows "length (out_written (output_file w')) \<le> PART"
proof -
  let ?node = "Node (Some demo_stat) (Some demo_tree) None" and ?f = "\<lambda>_. Some demo_input"
  obtain l0 where l0: "file_list_create [] = Some l0" by (simp add: file_list_create_def)
  from collected_create[OF l0 demo_tree_fine(3,1), of "[116]"]
  obtain l where l: "collect_files_recursive [116] [] ?node l0 = (0, l)" "items l = demo_items" "list_allocs l = []"
    "\<not> dangling l" unfolding demo_tree_items by blast
  have ready: "\<forall>it \<in> set (items l). item_ready stored_env ?f 3 it \<and> restorable ?f it"
    using stored_items_ready demo_items_fine unfolding l(2) by blast
  have ne: "items l \<noteq> []" unfolding l(2) by simp
  from write_archive_wrote[OF stored_frames_fit l(3,4) ne ready demo_budget_items[folded l(2)]]
  obtain w w1 w2 es n first where r: "write_archive stored_env ?f 3 (Some \<lparr>out_written = [], out_limits = []\<rparr>) l
      = Exit 0 (Some w2)" and w: "stream w = []" "wrote_items stored_env ?f demo_items w w1 es"
    and a: "out_written (output_file w2) = stream w1 @ central_directory es @
       end_records n (length (stream w1)) (length (central_directory es)) first"
    unfolding l(2) by blast
  have "w2 = w'" using assms r l(1) ne by (simp add: writer_main_def l0 collect_files_def)
  then show ?thesis using a demo_archive_length[OF w(2,1)] by simp
qed

lemma demo_delivered:
  assumes del: "delivers (\<lambda>_. Some demo_input) [111] demo_items demo_os os'"
  shows "\<exists>a b c. os_nodes os' (False, [[111], [97]]) = Some (Directory a) \<and>
    os_nodes os' (False, [[111], [97], [98]]) = Some (Regular [65, 66, 67] b) \<and>
    os_nodes os' (False, [[111], [99]]) = Some (Symbolic [97] c)"
proof -
  let ?f = "\<lambda>_. Some demo_input"
  have node: "\<exists>n. os_nodes os' (item_path [111] it) = Some n \<and> shows_item (os_euid demo_os = 0) it (item_content ?f it) n"
    if "it \<in> set demo_items" for it
    using del that unfolding delivers_def by blast
  let ?a = "demo_items ! 0" and ?b = "demo_items ! 1" and ?c = "demo_items ! 2"
  have kinds: "it_is_directory ?a" "\<not> it_is_directory ?b" "\<not> is_link ?b" "is_link ?c"
    "item_content ?f ?b = [65, 66, 67]" "item_content ?f ?c = [97]"
    by (simp_all add: is_link_def demo_stat_def S_ISLNK_def item_content_def has_data_def item_target_def demo_readable)
  have paths: "item_path [111] ?a = (False, [[111], [97]])" "item_path [111] ?b = (False, [[111], [97], [98]])"
    "item_path [111] ?c = (False, [[111], [99]])" by (simp_all add: resolve_def)
  have "?a \<in> set demo_items" "?b \<in> set demo_items" "?c \<in> set demo_items" by simp_all
  note there = this[THEN node, unfolded kinds paths]
  have "\<exists>a. os_nodes os' (False, [[111], [97]]) = Some (Directory a)"
    using there(1) shows_item_kind(1)[OF _ kinds(1)] by blast
  moreover have "\<exists>b. os_nodes os' (False, [[111], [97], [98]]) = Some (Regular [65, 66, 67] b)"
    using there(2) shows_item_kind(3)[OF _ kinds(2,3)] by blast
  moreover have "\<exists>c. os_nodes os' (False, [[111], [99]]) = Some (Symbolic [97] c)"
    using there(3) shows_item_kind(2)[OF _ kinds(4)] by blast
  ultimately show ?thesis by blast
qed

theorem archive_is_extracted_witness:
  "\<exists>w'. writer_main stored_env (\<lambda>_. Some demo_input) [Opt_output [122]] True
       [([116], Node (Some demo_stat) (Some demo_tree) None)] (Some \<lparr>out_written = [], out_limits = []\<rparr>) []
       = Exit 0 (Some w') \<and>
     (\<exists>os' a b c. burst_downloader_extract stored_zstd (demo_extract (out_written (output_file w'))) demo_downloader demo_os
         = Some (Ok (0, os')) \<and>
       os_nodes os' (False, [[111], [97]]) = Some (Directory a) \<and>
       os_nodes os' (False, [[111], [97], [98]]) = Some (Regular [65, 66, 67] b) \<and>
       os_nodes os' (False, [[111], [99]]) = Some (Symbolic [97] c))"
proof -
  let ?f = "\<lambda>_. Some demo_input" and ?node = "Node (Some demo_stat) (Some demo_tree) None" and ?dir = "[111]"
  have opts: "parse_options [Opt_output [122]] None 3 = Inr (Some [122], 3)" by simp
  have its: "\<forall>it \<in> set (tree_items [116] [] demo_tree). item_ready stored_env ?f 3 it \<and>
      st_mode (it_stat it) < 0x10000 \<and> it_name it \<noteq> PADDING_LFH_FILENAME \<and> length (item_content ?f it) < 0xFFFFFFFF"
    using stored_items_ready demo_items_fine unfolding demo_tree_items restorable_def by blast
  have part: "PART \<le> unat (dl_part_size demo_downloader)" "unat (dl_part_size demo_downloader) < 2 ^ 63"
    by (simp_all add: demo_downloader_def)
  have dir: "dl_output_dir demo_downloader = ?dir" by (simp add: demo_downloader_def)
  have os: "idle demo_os" "fresh_output demo_os (dl_output_dir demo_downloader)"
    by (simp_all add: idle_def quiet_def demo_os_def fresh_output_def dirs_free_def)
  from archive_is_extracted[OF stored_frames_fit stored_readable opts demo_tree_fine its
      demo_budget_items[folded demo_tree_items] part os]
  obtain w' where run: "writer_main stored_env ?f [Opt_output [122]] True [([116], ?node)]
      (Some \<lparr>out_written = [], out_limits = []\<rparr>) [] = Exit 0 (Some w')"
    and ex: "length (out_written (output_file w')) \<le> PART \<Longrightarrow> serves x demo_downloader (out_written (output_file w')) \<Longrightarrow>
      \<exists>os'. burst_downloader_extract stored_zstd x demo_downloader demo_os = Some (Ok (0, os')) \<and>
        delivers ?f ?dir demo_items demo_os os'" for x
    unfolding demo_tree_items dir by blast
  have len: "length (out_written (output_file w')) \<le> PART" by (rule demo_run_length[OF run])
  obtain os' where os': "burst_downloader_extract stored_zstd (demo_extract (out_written (output_file w')))
      demo_downloader demo_os = Some (Ok (0, os'))" and del: "delivers ?f ?dir demo_items demo_os os'"
    using ex[OF len demo_serves[OF len]] by blast
  with run demo_delivered[OF del] show ?thesis by blast
qed

end
