(* ===== verification/Archive_Parts.thy ===== *)
theory Archive_Parts
  imports Parts_Delivered Archive_Extraction
begin

text \<open>
  Archives of any number of parts: the part map that the downloader builds of the directory of the writer, and
  the extraction of all parts, one at a time in any order.
\<close>

section \<open>The part map of an archive\<close>

lemma map_snd_filter: "map snd (filter (\<lambda>(k, x). P x) ps) = filter P (map snd ps)"
  by (induction ps) auto

lemma enumerate_nth: "(k, x) \<in> set (enumerate 0 xs) \<Longrightarrow> xs ! k = x"
  by (auto simp: in_set_enumerate_eq)

lemma enumerate_set: "(k, x) \<in> set (enumerate 0 xs) \<Longrightarrow> x \<in> set xs"
  by (auto simp: in_set_enumerate_eq)

lemma sorted_wrt_enumerate: "sorted_wrt R xs \<Longrightarrow> sorted_wrt (\<lambda>a b. R (snd a) (snd b)) (enumerate n xs)"
  by (simp add: sorted_wrt_iff_nth_less nth_enumerate_eq)

lemma part_of_offset:
  assumes "unat off < 2 ^ 55" and "PART \<le> unat part_len"
  shows "unat (ucast (off div part_len) :: u32) = unat off div unat (part_len :: u64)"
proof -
  have "unat off div unat part_len \<le> unat off div PART" using assms(2) by (intro div_le_mono2) simp_all
  also have "\<dots> < 2 ^ 32" using assms(1) by (simp add: less_mult_imp_div_less)
  finally show ?thesis by (simp add: unat_div unsigned_ucast_eq take_bit_nat_eq_self)
qed

lemma part_entries:
  assumes qs: "qsort_ok qs" and sorted: "sorted_wrt (<) (map (\<lambda>e. unat (fe_local_header_offset e)) es)"
    and small: "\<forall>e \<in> set es. unat (fe_local_header_offset e) < 2 ^ 55" and part: "PART \<le> unat part_len"
    and map: "build_part_map qs [] (map (metadata_of part_len) es) archive_len part_len = Ok ps" and j: "j < length ps"
  shows "map (\<lambda>x. map (metadata_of part_len) es ! pe_file_index x) (pf_entries (ps ! j)) =
    map (metadata_of part_len) (filter (\<lambda>e. unat (fe_local_header_offset e) div unat part_len = j) es)"
proof -
  let ?fs = "map (metadata_of part_len) es" and ?n = "unat part_len"
  let ?off = "\<lambda>f. unat (fm_local_header_offset f)"
  let ?P = "\<lambda>f. ?off f div ?n = j"
  let ?en = "filter (\<lambda>(k, f). ?P f) (enumerate 0 ?fs)"
  let ?mk = "\<lambda>(k, f). \<lparr>pe_file_index = k, pe_offset_in_part = fm_local_header_offset f mod part_len\<rparr>"
  have idx: "unat (fm_part_index f) = ?off f div ?n" if "f \<in> set ?fs" for f
    using that small part_of_offset[OF _ part] by (auto simp: metadata_of_def)
  have "filter (\<lambda>(k, f). unat (fm_part_index f) = j) (enumerate 0 ?fs) = ?en"
    by (intro filter_cong refl) (clarify, simp only: prod.case idx[OF enumerate_set])
  then have en: "entries_of part_len 0 ?fs j = map ?mk ?en" by (simp add: entries_of_def)
  have "sorted_wrt (\<lambda>a b. ?off a < ?off b) ?fs" using sorted by (simp add: sorted_wrt_map metadata_of_def)
  then have "sorted_wrt (\<lambda>a b. ?off (snd a) < ?off (snd b)) ?en" by (intro sorted_wrt_filter sorted_wrt_enumerate)
  then have "sorted_wrt (\<lambda>a b. pe_offset_in_part (?mk a) < pe_offset_in_part (?mk b)) ?en"
  proof (rule sorted_wrt_mono_rel[rotated])
    fix a b assume "a \<in> set ?en" "b \<in> set ?en" "?off (snd a) < ?off (snd b)"
    moreover have "?off (snd x) = j * ?n + ?off (snd x) mod ?n" if "x \<in> set ?en" for x
      using that by (auto simp: mult.commute)
    ultimately have "?off (snd a) mod ?n < ?off (snd b) mod ?n" by (metis nat_add_left_cancel_less)
    then show "pe_offset_in_part (?mk a) < pe_offset_in_part (?mk b)"
      by (simp add: case_prod_unfold word_less_nat_alt unat_mod)
  qed
  then have "sorted_wrt (<) (map pe_offset_in_part (map ?mk ?en))" by (simp add: sorted_wrt_map)
  then have "pf_entries (ps ! j) = map ?mk ?en"
    using build_part_map_Ok(3)[OF map j] sort_entries_sorted[OF qs] en by simp
  moreover have "map (\<lambda>x. ?fs ! pe_file_index x) (map ?mk ?en) = map snd ?en"
    using enumerate_nth by (auto simp: in_set_enumerate_eq)
  moreover have "map snd ?en = filter ?P ?fs" unfolding map_snd_filter by simp
  moreover have "filter ?P ?fs = map (metadata_of part_len) (filter (\<lambda>e. unat (fe_local_header_offset e) div ?n = j) es)"
    by (simp add: filter_map o_def metadata_of_def)
  ultimately show ?thesis by metis
qed

lemma places_sorted:
  "places zr fopen part_len S x cs y \<Longrightarrow> sorted_wrt (<) (map (\<lambda>e. unat (fe_local_header_offset e)) (map pl_entry cs))"
proof (induction cs arbitrary: x)
  case (Cons c cs)
  have p: "placed zr fopen part_len S c" and tail: "places zr fopen part_len S (pl_end c) cs y" using Cons.prems by simp_all
  have "pl_head c < pl_head d" if "d \<in> set cs" for d
    using after_part[OF tail placedE(4)[OF p] that] .
  then show ?case using Cons.IH[OF tail] by simp
qed simp

lemma starting_part:
  assumes "0 < n"
  shows "starting (j * n) ((j + 1) * n) cs = filter (\<lambda>e. unat (fe_local_header_offset e) div n = j) (map pl_entry cs)"
proof -
  have "j * n \<le> h \<and> h < (j + 1) * n \<longleftrightarrow> h div n = j" for h
    using assms by (metis Suc_eq_plus1 dividend_less_div_times div_nat_eqI div_times_less_eq_dividend mult.commute mult_Suc)
  then show ?thesis by (simp add: starting_def filter_map o_def)
qed

text \<open>The part map knows the continuing file, or the part begins with a local header.\<close>

definition boundaries_seen :: "u64 \<Rightarrow> central_dir_parse_result \<Rightarrow> bytes \<Rightarrow> bool" where
  "boundaries_seen part_len cd archive \<longleftrightarrow>
     (\<forall>p. 0 < p \<longrightarrow> p * unat part_len < unat (cp_central_dir_offset cd) \<longrightarrow>
        pf_continuing_file (cp_parts cd ! p) = None \<longrightarrow>
        take 4 (drop (p * unat part_len) archive) = le32 ZIP_LOCAL_FILE_HEADER_SIG)"

lemma spans_place:
  assumes "placed zr fopen part_len S c" and "a < 2 ^ 62"
  shows "spans (of_nat a) (metadata_of part_len (pl_entry c)) \<longleftrightarrow>
    pl_head c < a \<and> a < pl_head c + 46 + unat (fe_compressed_size (pl_entry c))"
proof -
  note p = placedE(3,5)[OF assms(1)]
  let ?e = "pl_entry c"
  have "unat (fe_local_header_offset ?e + 30 + fe_compressed_size ?e + 16) =
      pl_head c + 46 + unat (fe_compressed_size ?e)"
    using p by (simp add: unat_word_ariths)
  moreover have "unat (of_nat a :: u64) = a" using assms(2) by (simp add: unat_of_nat)
  ultimately show ?thesis by (simp add: spans_def metadata_of_def word_less_nat_alt Let_def)
qed

lemma crossing_bytes:
  assumes p: "placed zr fopen part_len S c" and a: "a mod PART = 0" "pl_head c < a" "a < pl_end c"
  shows "take 4 (drop a S) \<noteq> le32 ZIP_LOCAL_FILE_HEADER_SIG"
proof -
  obtain q all where r: "file_at_range zr S (pl_head c) q (pl_end c) all (item_content fopen (pl_item c))
      (fm_uses_zip64_descriptor (metadata_of part_len (pl_entry c)))"
    using p placed_crossing[OF p a] by (auto simp: placed_def Let_def)
  let ?z = "fm_uses_zip64_descriptor (metadata_of part_len (pl_entry c))"
  obtain lfh tail crc cs us where hd: "q = pl_head c + (30 + length tail)"
    and sl: "archive_slice S (pl_head c) (pl_end c) =
      (local_header_bytes lfh @ tail) @ items_bytes all @ data_descriptor crc cs us ?z"
    using file_at_rangeE(1)[OF r] by blast
  obtain xs k ys where xs: "all = xs @ Sop k # ys" "q + length (items_bytes xs) = a"
    using file_at_rangeE(7)[OF r a(1,2)] a(3) by (auto simp: splits_def)
  have "a + 24 + length (items_bytes ys) + length (data_descriptor crc cs us ?z) = pl_end c"
    using file_at_rangeE(2)[OF r] xs by simp
  from slice_parts(2)[OF sl[unfolded xs(1)] _ xs(2) _ this] a(3) hd
  have "archive_slice S a (pl_end c) = sop_frame (of_nat k) @ items_bytes ys @ data_descriptor crc cs us ?z" by simp
  moreover have "4 \<le> pl_end c - a" using \<open>a + 24 + _ + _ = pl_end c\<close> by simp
  then have "take 4 (drop a S) = take 4 (archive_slice S a (pl_end c))" by (simp add: archive_slice_def min_absorb1)
  ultimately have "take 4 (drop a S) = le32 BURST_MAGIC_NUMBER" by (simp add: sop_frame_def)
  moreover have "le32 BURST_MAGIC_NUMBER \<noteq> le32 ZIP_LOCAL_FILE_HEADER_SIG" by code_simp
  ultimately show ?thesis by simp
qed

lemma continuing_place:
  assumes pl: "places zr fopen part_len S 0 cs y" and j: "j * unat part_len = a" "a < 2 ^ 62" "a mod PART = 0"
    and map: "build_part_map qs [] (map (metadata_of part_len) (map pl_entry cs)) archive_len part_len = Ok ps"
    and st: "this_part st = ps ! j" "j < length ps" "cp_files (ps_cd_result st) = map (metadata_of part_len) (map pl_entry cs)"
    and seen: "0 < j \<longrightarrow> pf_continuing_file (ps ! j) = None \<longrightarrow> take 4 (drop a S) = le32 ZIP_LOCAL_FILE_HEADER_SIG"
  shows "continues_right part_len cs a st"
proof -
  let ?fs = "map (metadata_of part_len) (map pl_entry cs)"
  have cont: "pf_continuing_file (this_part st) = continuing_file_of ?fs part_len j"
    using build_part_map_Ok(3)[OF map st(2)] st(1) by simp
  have start: "of_nat j * part_len = of_nat a" using j(1) by (metis of_nat_mult of_nat_unat ucast_id)
  show ?thesis
  proof (cases "continuing_file_of ?fs part_len j")
    case None
    have "\<not> (pl_head c < a \<and> a < pl_end c)" if "c \<in> set cs" for c
      using crossing_bytes[OF _ j(3), of zr fopen part_len S c] places_bounds(2)[OF pl that] seen None cont st(1) j(1)
      by (cases "j = 0") auto
    then show ?thesis using None cont by (simp add: continues_right_def)
  next
    case (Some i)
    then have "find_spanning (of_nat a) 0 ?fs = Some i" by (simp add: continuing_file_of_def start split: if_splits)
    then have i: "i < length cs" "spans (of_nat a) (?fs ! i)" by (auto simp: find_spanning_Some)
    have p: "placed zr fopen part_len S (cs ! i)" using places_bounds(2)[OF pl] i(1) by simp
    have "pl_head (cs ! i) < a \<and> a < pl_end (cs ! i)"
      using spans_place[OF p j(2)] i placedE(5)[OF p] by auto
    then show ?thesis using Some cont st(3) i(1) by (auto simp: continues_right_def intro!: bexI[of _ "cs ! i"])
  qed
qed

lemma enough_parts:
  assumes "j * unat part_len < n" and "n < 2 ^ 55" and "0 < unat part_len" and "unat part_len < 2 ^ 63"
  shows "j < number_of_parts (of_nat n) part_len"
proof -
  let ?m = "unat part_len"
  have "unat (of_nat n + part_len) = n + ?m" using assms by (simp add: unat_word_ariths unat_of_nat)
  moreover from this have "1 \<le> (of_nat n + part_len :: u64)" using assms(3) by (simp add: word_le_nat_alt)
  ultimately have "unat (of_nat n + part_len - 1) = n + ?m - 1" by (simp add: unat_sub)
  moreover have "j < (n + ?m - 1) div ?m"
  proof -
    have "(j + 1) * ?m \<le> n + ?m - 1" using assms(1) by simp
    then have "j + 1 \<le> (n + ?m - 1) div ?m" using assms(3) by (simp add: less_eq_div_iff_mult_less_eq)
    then show ?thesis by simp
  qed
  ultimately show ?thesis by (simp add: number_of_parts_def unat_div Let_def)
qed

section \<open>All parts\<close>

lemma part_processed:
  assumes pl: "places zr fopen (dl_part_size dl) archive 0 cs y"
    and a: "y \<le> length archive" "length archive < 2 ^ 55"
    and part: "unat (dl_part_size dl) mod PART = 0" "0 < unat (dl_part_size dl)" "unat (dl_part_size dl) < 2 ^ 62"
    and qs: "qsort_ok qs"
    and map: "build_part_map qs [] (map (metadata_of (dl_part_size dl)) (map pl_entry cs)) (of_nat (length archive))
      (dl_part_size dl) = Ok ps"
    and cd: "cp_files cd = map (metadata_of (dl_part_size dl)) (map pl_entry cs)" "cp_parts cd = ps"
      "cp_central_dir_offset cd = of_nat y"
    and seen: "boundaries_seen (dl_part_size dl) cd archive"
    and j: "j * unat (dl_part_size dl) < y"
    and os: "workable dir its os" "compatible dir its" "pl_item ` set cs \<subseteq> set its" "dl_output_dir dl = dir"
  shows "\<exists>st os'. part_processor_create (of_nat j) cd dir (dl_part_size dl) os = (Some st, os) \<and>
    feed_and_finalize zr (part_bytes (dl_part_size dl) (cp_central_dir_offset cd) archive j) st = Some (Ok (0, os')) \<and>
    applied fopen dir os (pieces (j * unat (dl_part_size dl)) ((j + 1) * unat (dl_part_size dl)) cs) os' \<and>
    workable dir its os'"
proof -
  let ?L = "dl_part_size dl" and ?n = "unat (dl_part_size dl)"
  let ?a = "j * ?n" and ?b = "(j + 1) * ?n"
  have PL: "PART \<le> ?n" using part(1,2) by (metis mod_less not_le neq0_conv)
  have uy: "unat (of_nat y :: u64) = y" using a by (simp add: unat_of_nat)
  have jn: "j \<le> ?a" using part(2) by simp
  have "j * PART \<le> ?a" using PL by simp
  then have "j * PART < 2 ^ 55" using j a by linarith
  then have j32: "j < 2 ^ 32" by simp
  then have uj: "unat (of_nat j :: u32) = j" by (simp add: unat_of_nat)
  have jl: "j < length ps"
    using build_part_map_Ok(1)[OF map] enough_parts[of j ?L "length archive"] j a part(2,3) by simp
  have q: "quiet os" using os(1) by (simp add: workable_def idle_def)
  obtain st where st: "part_processor_create (of_nat j) cd dir ?L os = (Some st, os)"
    "ps_state st = STATE_INIT" "ps_current_file st = None" "ps_frame_buffer st = []" "ps_output_dir st = dir"
    "ps_os st = os" "ps_cd_result st = cd" "ps_part_index st = of_nat j" "ps_next_entry_idx st = 0"
    "ps_part_start_offset st = ucast (of_nat j :: u32) * ?L" "ps_bytes_processed st = 0"
    using q jl cd(2) uj by (auto simp: part_processor_create_def)
  have tp: "this_part st = ps ! j" using st(7,8) cd(2) uj by simp
  have sorted: "sorted_wrt (<) (map (\<lambda>e. unat (fe_local_header_offset e)) (map pl_entry cs))"
    using places_sorted[OF pl] .
  have "\<forall>e \<in> set (map pl_entry cs). unat (fe_local_header_offset e) < 2 ^ 55"
  proof
    fix e assume "e \<in> set (map pl_entry cs)"
    then obtain c where c: "c \<in> set cs" "e = pl_entry c" by auto
    have "pl_head c < y" using places_bounds(2)[OF pl c(1)] placedE(4)[of zr fopen ?L archive c] by linarith
    then show "unat (fe_local_header_offset e) < 2 ^ 55" using a c(2) by simp
  qed
  note en = part_entries[OF qs sorted this PL map jl]
  have "settled st = st\<lparr>ps_state := STATE_EXPECT_LOCAL_HEADER\<rparr>" using settled_none[OF st(3)] .
  then have ex: "expects ?L (settled st) (starting ?a ?b cs)"
    using en st(7,9) tp cd(1) uj st(8) cd(2) unfolding starting_part[OF part(2)] by (simp add: expects_def)
  have ma: "?a mod PART = 0" "?b mod PART = 0" using part(1) by (metis mod_mult_right_eq mult_0_right mod_0)+
  have "?a < 2 ^ 62" using j a by simp
  moreover have "take 4 (drop ?a archive) = le32 ZIP_LOCAL_FILE_HEADER_SIG"
    if "0 < j" "pf_continuing_file (ps ! j) = None"
    using seen that j cd(2,3) uy unfolding boundaries_seen_def by simp
  ultimately have cont: "continues_right ?L cs ?a st"
    using continuing_place[OF pl refl _ ma(1) map tp jl] st(7) cd(1) by simp
  have ab: "?a < ?b" using part(2) by simp
  have "ps_part_start_offset st + ps_bytes_processed st = of_nat ?a"
  proof -
    have "(ucast (of_nat j :: u32) :: u64) = of_nat j" using j32 by (simp add: word_unat_eq_iff unat_of_nat unsigned_ucast_eq take_bit_nat_eq_self)
    then show ?thesis using st(10,11) by (metis add.right_neutral of_nat_mult of_nat_unat ucast_id)
  qed
  from part_leaves_pieces[OF pl a(1) ma j ab st(2-5) ex cont _ os(2,3) this] os(1) st(6)
  obtain os' where os': "feed_and_finalize zr (archive_slice archive ?a (min y ?b)) st = Some (Ok (0, os'))"
    "applied fopen dir os (pieces ?a ?b cs) os'" "workable dir its os'" by auto
  have "part_bytes ?L (cp_central_dir_offset cd) archive j = archive_slice archive ?a (min y ?b)"
    using cd(3) uy by (simp add: part_bytes_def archive_slice_def Let_def min.commute drop_take min_def)
  with st(1) os' show ?thesis by auto
qed


lemma parts_processed:
  assumes pl: "places zr fopen (dl_part_size dl) archive 0 cs y"
    and a: "y \<le> length archive" "length archive < 2 ^ 55"
    and part: "unat (dl_part_size dl) mod PART = 0" "0 < unat (dl_part_size dl)" "unat (dl_part_size dl) < 2 ^ 62"
    and qs: "qsort_ok qs"
    and map: "build_part_map qs [] (map (metadata_of (dl_part_size dl)) (map pl_entry cs)) (of_nat (length archive))
      (dl_part_size dl) = Ok ps"
    and cd: "cp_files cd = map (metadata_of (dl_part_size dl)) (map pl_entry cs)" "cp_parts cd = ps"
      "cp_central_dir_offset cd = of_nat y"
    and seen: "boundaries_seen (dl_part_size dl) cd archive"
    and c: "compatible (dl_output_dir dl) its" "pl_item ` set cs \<subseteq> set its"
  shows "\<forall>j \<in> set js. j * unat (dl_part_size dl) < y \<Longrightarrow> workable (dl_output_dir dl) its os \<Longrightarrow>
    \<exists>os'. process_from_archive zr dl cd archive js os = Some (Ok (0, os')) \<and>
      applied fopen (dl_output_dir dl) os
        (concat (map (\<lambda>p. pieces (p * unat (dl_part_size dl)) ((p + 1) * unat (dl_part_size dl)) cs) js)) os' \<and>
      workable (dl_output_dir dl) its os'"
proof (induction js arbitrary: os)
  case Nil
  then show ?case by (auto intro: applied.intros)
next
  case (Cons j js)
  from Cons.prems(1) have j: "j * unat (dl_part_size dl) < y" and js: "\<forall>j \<in> set js. j * unat (dl_part_size dl) < y"
    by simp_all
  from part_processed[OF pl a part qs map cd seen j Cons.prems(2) c refl]
  obtain st os1 where st: "part_processor_create (of_nat j) cd (dl_output_dir dl) (dl_part_size dl) os = (Some st, os)"
    "feed_and_finalize zr (part_bytes (dl_part_size dl) (cp_central_dir_offset cd) archive j) st = Some (Ok (0, os1))"
    "applied fopen (dl_output_dir dl) os
       (pieces (j * unat (dl_part_size dl)) ((j + 1) * unat (dl_part_size dl)) cs) os1"
    "workable (dl_output_dir dl) its os1" by blast
  from Cons.IH[OF js st(4)] st show ?case by (auto intro: applied_append)
qed

lemma items_in_parts:
  assumes wr: "wrote_items env fopen its w w1 es" "stream w = []"
    and env: "frames_fit env" "frames_readable env (compression_level w) zr"
    and its: "\<forall>it \<in> set its. restorable fopen it" and es: "directory_ok es"
    and a: "archive = stream w1 @ central_directory es @
       end_records n (length (stream w1)) (length (central_directory es)) first" "length archive < 2 ^ 55"
    and part: "unat (dl_part_size dl) mod PART = 0" "0 < unat (dl_part_size dl)" "unat (dl_part_size dl) < 2 ^ 62"
    and qs: "qsort_ok qs"
    and parse: "central_dir_parse qs ([], []) archive (of_nat (length archive)) (dl_part_size dl) = Ok cd"
    and seen: "boundaries_seen (dl_part_size dl) cd archive"
    and os: "workable (dl_output_dir dl) its os" "compatible (dl_output_dir dl) its"
    and js: "set js = {p. p * unat (dl_part_size dl) < unat (cp_central_dir_offset cd)}"
  shows "\<exists>os'. process_from_archive zr dl cd archive js os = Some (Ok (0, os')) \<and>
    delivers fopen (dl_output_dir dl) its os os'"
proof -
  let ?s = "stream w1" and ?c = "length (central_directory es)" and ?L = "dl_part_size dl"
  let ?er = "end_records n (length ?s) ?c first"
  have len: "length archive = length ?s + ?c + 106" by (simp add: a(1))
  have L: "?L \<noteq> 0" using part(2) by auto
  obtain ps where ps: "build_part_map qs [] (map (metadata_of ?L) es) (of_nat (length archive)) ?L = Ok ps"
    and cd: "cp_files cd = map (metadata_of ?L) es" "cp_parts cd = ps" "cp_central_dir_offset cd = of_nat (length ?s)"
    using central_dir_parse_writer[OF es L, of "length ?s" ?s qs n first, folded a(1) len] a(2) parse by auto
  have u: "unat (cp_central_dir_offset cd) = length ?s" using a(2) len cd(3) by (simp add: unat_of_nat)
  have "\<forall>e \<in> set es. entry_ok e" using es by (simp add: directory_ok_def)
  from wrote_items_places[OF wr(1) env its this a(1), of ?L] a(2) len wr(2)
  obtain cs where cs: "places zr fopen ?L archive 0 cs (length ?s)" "map pl_item cs = its" "map pl_entry cs = es"
    by auto
  have "pl_item ` set cs \<subseteq> set its" using cs(2) by auto
  from parts_processed[OF cs(1) _ a(2) part qs ps[folded cs(3)] cd[folded cs(3)] seen os(2) this _ os(1), of js] js u len
  obtain os' where os': "process_from_archive zr dl cd archive js os = Some (Ok (0, os'))"
    and ap: "applied fopen (dl_output_dir dl) os
       (concat (map (\<lambda>p. pieces (p * unat ?L) ((p + 1) * unat ?L) cs) js)) os'" and w: "workable (dl_output_dir dl) its os'"
    by auto
  have "fst ` set (concat (map (\<lambda>p. pieces (p * unat ?L) ((p + 1) * unat ?L) cs) js)) \<subseteq> set its"
    using cs(2) by (auto simp: pieces_def)
  moreover have "covers fopen its (concat (map (\<lambda>p. pieces (p * unat ?L) ((p + 1) * unat ?L) cs) js))"
    using parts_cover[OF cs(1) part(2), of js] js u cs(2) by simp
  ultimately show ?thesis using applied_delivers[OF ap os(2) _ _ w] os' by blast
qed


section \<open>An archive of three parts\<close>

text \<open>Frames that are padded to almost a part, and a reader for them. The archive of the demonstration tree then has a
  boundary inside the file and another one, after padding, at the header of the link.\<close>

definition wide_size :: nat where
  "wide_size = 8388500"

definition wide_frame :: "bytes \<Rightarrow> bytes" where
  "wide_frame d = stored_frame d @ replicate (wide_size - 8 - length d) 0"

definition wide_zstd :: zstd_reader where
  "wide_zstd = stored_zstd\<lparr>
     zr_find_frame_size := (\<lambda>b. if length b < wide_size then ZSTD_error_srcSize_wrong else ZSTD_size (of_nat wide_size)),
     zr_decompress := (\<lambda>cap f. if unat (field f 4 4 :: u32) \<le> cap
       then Some (take (unat (field f 4 4 :: u32)) (drop 8 f)) else None)\<rparr>"

definition wide_env :: writer_env where
  "wide_env = demo_env\<lparr>
     env_compress := (\<lambda>cap d level. if wide_size \<le> cap \<and> length d + 8 \<le> wide_size then Some (wide_frame d) else None),
     env_compress_bound := (\<lambda>n. wide_size)\<rparr>"

lemma length_wide_frame: "length d + 8 \<le> wide_size \<Longrightarrow> length (wide_frame d) = wide_size"
  by (simp add: wide_frame_def)

lemma wide_holds:
  assumes "length d \<le> MAX_EXTENT_SIZE"
  shows "zstd_holds wide_zstd d (wide_frame d)"
proof -
  have d: "length d + 8 \<le> wide_size" "length d < 2 ^ 32"
    using assms by (simp_all add: MAX_EXTENT_SIZE_def wide_size_def)
  note len = length_wide_frame[OF d(1)]
  have f: "unat (field (wide_frame d @ rest) 4 4 :: u32) = length d" for rest
    using stored_frame_field[OF d(2)] by (simp add: wide_frame_def)
  have content: "(ucast (field (wide_frame d @ rest) 4 4 :: u32) :: u64) = of_nat (length d)" for rest
    using f[of rest] d(2) by (simp add: word_unat_eq_iff unat_of_nat)
  have dr: "take (length d) (drop 8 (wide_frame d)) = d" by (simp add: wide_frame_def stored_frame_def)
  have magic: "take 4 (wide_frame d) = le32 ZSTD_MAGIC_NUMBER" by (simp add: wide_frame_def stored_frame_def)
  have "zstd_frame wide_zstd d (wide_frame d)"
    using content magic len by (auto simp: zstd_frame_def wide_zstd_def stored_zstd_def wide_size_def)
  then show ?thesis
    using assms f[of "[]"] dr by (simp add: zstd_holds_def wide_zstd_def stored_zstd_def)
qed

lemma wide_frames_fit: "frames_fit wide_env"
  using length_wide_frame by (auto simp: frames_fit_def wide_env_def wide_size_def)

lemma wide_readable: "frames_readable wide_env level wide_zstd"
  by (auto simp: frames_readable_def compress_chunk_def wide_env_def ZSTD_CHUNK_SIZE_def MAX_EXTENT_SIZE_def
      split: if_splits intro!: wide_holds)

lemma wide_frame_of: "frame_of wide_env level [65, 66, 67] = Some (wide_frame [65, 66, 67])"
  by (simp add: compress_chunk_def wide_env_def wide_size_def)

lemma wide_items_ready: "\<forall>it \<in> set demo_items. item_ready wide_env (\<lambda>_. Some demo_input) 3 it"
  using demo_file_ready(1,2) demo_chunks[unfolded demo_readable] wide_frame_of
  by (simp add: item_ready_def entry_ready_def item_target_def demo_stat_def S_ISLNK_def demo_readable)

lemma wrote_plain_at:
  assumes "wrote_plain env c it w w' e"
  shows "\<exists>lfh tail pad. stream w' = stream w @ pad @ local_header_bytes lfh @ tail @ c \<and>
    length tail = length (it_name it) + 15 \<and> lh_signature lfh = ZIP_LOCAL_FILE_HEADER_SIG \<and>
    fe_local_header_offset e = of_nat (length (stream w) + length pad) \<and> fe_compressed_size e = of_nat (length c) \<and>
    (room (length (stream w)) < length (it_name it) + length c + 89 \<longrightarrow> length pad = room (length (stream w))) \<and>
    (length (it_name it) + length c + 113 \<le> room (length (stream w)) \<longrightarrow> pad = [])"
proof -
  obtain w1 lfh tail dd where w1: "archive_inv w1" "stream w1 = stream w" and h: "header_ok lfh tail (length c) dd"
    and t: "length tail = length (it_name it) + 15"
    and s: "stream w' = stream w @ padding_for (env_time env) w1 tail (length c) dd @ local_header_bytes lfh @ tail @ c"
    and e: "fe_local_header_offset e =
          of_nat (length (stream w) + length (padding_for (env_time env) w1 tail (length c) dd))"
      "fe_compressed_size e = of_nat (length c)"
    using assms by (auto simp: wrote_plain_def)
  let ?r = "room (length (stream w))" and ?pad = "padding_for (env_time env) w1 tail (length c) dd"
  have "44 \<le> ?r" using w1 by (simp add: archive_inv_def entry_start_def)
  then have "?r < length (it_name it) + length c + 89 \<Longrightarrow> length ?pad = ?r"
    using t w1(2) by (simp add: entry_padding_def entry_need_def length_padding_lfh)
  moreover have "length (it_name it) + length c + 113 \<le> ?r \<Longrightarrow> ?pad = []"
    using t w1(2) by (simp add: entry_padding_def entry_need_def)
  ultimately show ?thesis
    using s t e h unfolding header_ok_def
    by (intro exI[of _ lfh] exI[of _ tail] exI[of _ ?pad]) simp
qed

lemma wide_record:
  assumes wr: "wrote_file wide_env (\<lambda>_. Some demo_input) it w w' e" and w: "length (stream w) = 47"
    and name: "length (it_name it) = 3"
  shows "length (stream w') = 16777148" and "fe_local_header_offset e = 47" and "fe_compressed_size e = 16777037"
    and "fe_uncompressed_size e = 3" and "fe_unix_mode e = st_mode (it_stat it)"
proof -
  obtain w1 lfh tail its where s1: "stream w1 = stream w" and t: "length tail = length (it_name it) + 15"
    and its: "items_of wide_env w1 lfh tail (content_of demo_input) = Some its"
    and s: "stream w' = stream w @ file_record wide_env w1 lfh tail (content_of demo_input) its"
    and e: "e = file_record_entry wide_env w1 lfh tail (st_mode (it_stat it)) (st_uid (it_stat it)) (st_gid (it_stat it))
              (content_of demo_input) its"
    using wr by (auto simp: wrote_file_def)
  have pad: "padding_for ct w1 tail 0 True = []" for ct
    using s1 w t name by (simp add: entry_padding_def entry_need_def room_def)
  have q: "length (stream w1) + length (lead_in wide_env w1 lfh tail) = 95" unfolding pad using s1 w t name by simp
  have len: "length (wide_frame [65, 66, 67]) = 8388500"
    using length_wide_frame[of "[65, 66, 67]"] by (simp add: wide_size_def)
  have "frame_items (room 95) 0 [65, 66, 67] (wide_frame [65, 66, 67]) =
      [Pad 8388505, Sop 0, Frame [65, 66, 67] (wide_frame [65, 66, 67])]"
    using len by (simp add: frame_items_def Let_def room_def ZSTD_CHUNK_SIZE_def)
  then have "its = [Pad 8388505, Sop 0, Frame [65, 66, 67] (wide_frame [65, 66, 67])]"
    using its unfolding q file_items_def demo_chunks by (simp add: wide_frame_of)
  then have n: "length (items_bytes its) = 16777037" using len by simp
  have c: "length (content_of demo_input) = 3" by (simp add: demo_readable)
  have "length (file_record wide_env w1 lfh tail (content_of demo_input) its) = 48 + 16777037 + 16"
    unfolding file_record_def file_body_def file_tail_def q n c pad
    using t name n s1 w by (simp add: trailer_items_def room_def)
  then show "length (stream w') = 16777148" using s w by simp
  show "fe_local_header_offset e = 47" "fe_compressed_size e = 16777037" "fe_uncompressed_size e = 3"
    "fe_unix_mode e = st_mode (it_stat it)"
    using s1 w n c pad[unfolded s1 w] by (simp_all add: e entry_fields)
qed

lemma wide_archive:
  assumes wr: "wrote_items wide_env (\<lambda>_. Some demo_input) demo_items w w1 es" and w: "stream w = []"
  shows "length (stream w1) = 16777263" and "take 4 (drop 16777216 (stream w1)) = le32 ZIP_LOCAL_FILE_HEADER_SIG"
    and "\<exists>e \<in> set es. fe_local_header_offset e = 47 \<and> fe_compressed_size e = 16777037"
    and "directory_ok es" and "length (central_directory es) \<le> 1500"
proof -
  let ?f = "\<lambda>_. Some demo_input" and ?a = "demo_items ! 0" and ?b = "demo_items ! 1" and ?c = "demo_items ! 2"
  obtain u v e1 e2 e3 where i: "wrote_item wide_env ?f ?a w u e1" "wrote_item wide_env ?f ?b u v e2"
    "wrote_item wide_env ?f ?c v w1 e3" and es: "es = [e1, e2, e3]"
    using wr by (auto elim!: wrote_items.cases)
  have kinds: "\<not> has_data ?a" "has_data ?b" "\<not> has_data ?c" "item_content ?f ?a = []" "item_content ?f ?c = [97]"
    "length (item_content ?f ?b) = 3"
    by (simp_all add: has_data_def demo_stat_def S_ISLNK_def item_content_def is_link_def item_target_def demo_readable)
  have p1: "wrote_plain wide_env [] ?a w u e1" using i(1) kinds(1,4) by (simp add: wrote_item_def)
  from wrote_plain_at[OF this] w
  have u: "length (stream u) = 47" "fe_local_header_offset e1 = 0" "fe_compressed_size e1 = 0"
    by (auto simp: room_def)
  have f2: "wrote_file wide_env ?f ?b u v e2" using i(2) kinds(2) by (simp add: wrote_item_def)
  note v = wide_record[OF f2 u(1)]
  have p3: "wrote_plain wide_env [97] ?c v w1 e3" using i(3) kinds(3,5) by (simp add: wrote_item_def)
  have r: "room (length (stream v)) = 68" using v(1) by (simp add: room_def)
  from wrote_plain_at[OF p3, unfolded r] obtain lfh tail pad where
    s: "stream w1 = stream v @ pad @ local_header_bytes lfh @ tail @ [97]" "length tail = 16" "length pad = 68"
    and l: "lh_signature lfh = ZIP_LOCAL_FILE_HEADER_SIG"
    and o3: "fe_local_header_offset e3 = of_nat (length (stream v) + length pad)" "fe_compressed_size e3 = 1" by auto
  show len: "length (stream w1) = 16777263" using s v(1) by simp
  show "take 4 (drop 16777216 (stream w1)) = le32 ZIP_LOCAL_FILE_HEADER_SIG"
    using s v(1) l by (simp add: local_header_bytes_def)
  show "\<exists>e \<in> set es. fe_local_header_offset e = 47 \<and> fe_compressed_size e = 16777037"
    using v es by simp
  have usz: "fe_uncompressed_size e1 = 0" "fe_uncompressed_size e3 = 1" using p1 p3 by (auto simp: wrote_plain_def)
  have mode: "fe_unix_mode e1 = 0x41ED" "fe_unix_mode e3 = 0xA1FF"
    using p1 p3 by (auto simp: wrote_plain_def demo_stat_def)
  have names: "fe_filename e1 = [97, 0x2f]" "fe_filename e2 = [97, 0x2f, 98]" "fe_filename e3 = [99]"
    using wrote_item_files[OF i(1)] wrote_item_files[OF i(2)] wrote_item_files[OF i(3)] by simp_all
  have "entry_ok e1" "entry_ok e2" "entry_ok e3"
    using u v o3 s(3) usz mode names by (simp_all add: entry_ok_def no_ambiguous_size_def demo_stat_def)
  then show dir: "directory_ok es" by (simp add: directory_ok_def es)
  have small: "length (cdfh_bytes e) \<le> 500" if "e \<in> set es" for e
    using that names dir length_cdfh_extra[of e] by (auto simp: es directory_ok_def length_cdfh_ok)
  show "length (central_directory es) \<le> 1500"
    using small[of e1] small[of e2] small[of e3] by (simp add: es central_directory_def)
qed

lemma wide_boundaries:
  assumes es: "directory_ok es" "\<exists>e \<in> set es. fe_local_header_offset e = 47 \<and> fe_compressed_size e = 16777037"
    and len: "length s = 16777263" "length (central_directory es) \<le> 1500"
    and lfh: "take 4 (drop 16777216 s) = le32 ZIP_LOCAL_FILE_HEADER_SIG"
    and a: "archive = s @ central_directory es @ end_records n (length s) (length (central_directory es)) first"
  shows "\<exists>cd. central_dir_parse qs ([], []) archive (of_nat (length archive)) 8388608 = Ok cd \<and>
    boundaries_seen 8388608 cd archive \<and> cp_central_dir_offset cd = 16777263"
proof -
  let ?L = "8388608 :: u64" and ?fs = "map (metadata_of 8388608) es"
  have al: "length s + length (central_directory es) + 106 = length archive" by (simp add: a)
  then have short: "length archive < 2 ^ 63" using len by simp
  obtain ps where ps: "build_part_map qs [] ?fs (of_nat (length archive)) ?L = Ok ps"
    and p: "central_dir_parse qs ([], []) archive (of_nat (length archive)) ?L =
      Ok \<lparr>cp_files = ?fs, cp_parts = ps, cp_central_dir_offset = of_nat (length s),
          cp_central_dir_size = of_nat (length (central_directory es)), cp_is_zip64 = True\<rparr>"
    using central_dir_parse_writer[OF es(1), of ?L "length s" s qs n first, folded a, unfolded al] short by auto
  have "1 < number_of_parts (of_nat (length archive)) ?L"
    by (rule enough_parts) (use al len in simp_all)
  then have "1 < length ps" using build_part_map_Ok(1)[OF ps] by simp
  then have "pf_continuing_file (ps ! 1) = find_spanning ?L 0 ?fs"
    using build_part_map_Ok(3)[OF ps] by (simp add: continuing_file_of_def)
  moreover obtain e where "e \<in> set es" "fe_local_header_offset e = 47" "fe_compressed_size e = 16777037"
    using es(2) by blast
  then have "\<not> (\<forall>f \<in> set ?fs. \<not> spans ?L f)" by (auto simp: spans_def metadata_of_def Let_def intro!: bexI[of _ e])
  ultimately have one: "pf_continuing_file (ps ! 1) \<noteq> None" using find_spanning_None[of ?L 0 ?fs] by simp
  have two: "take 4 (drop 16777216 archive) = le32 ZIP_LOCAL_FILE_HEADER_SIG" using lfh len by (simp add: a)
  have "take 4 (drop (p * 8388608) archive) = le32 ZIP_LOCAL_FILE_HEADER_SIG"
    if "0 < p" "p * 8388608 < 16777263" "pf_continuing_file (ps ! p) = None" for p
  proof -
    have "p = 1 \<or> p = 2" using that(1,2) by arith
    then show ?thesis using one two that(3) by auto
  qed
  then show ?thesis using p len by (simp add: boundaries_seen_def)
qed

abbreviation wide_run :: main_result where
  "wide_run \<equiv> writer_main wide_env (\<lambda>_. Some demo_input) [Opt_output [122]] True
     [([116], Node (Some demo_stat) (Some demo_tree) None)] (Some \<lparr>out_written = [], out_limits = []\<rparr>) []"

lemma wide_run_archive:
  assumes "wide_run = Exit 0 (Some w')"
  defines "archive \<equiv> out_written (output_file w')"
  shows "directory_ok (files w') \<and> length archive < 2 ^ 55 \<and>
    (\<exists>cd. central_dir_parse stable_qsort ([], []) archive (of_nat (length archive)) 8388608 = Ok cd \<and>
       boundaries_seen 8388608 cd archive \<and> cp_central_dir_offset cd = 16777263)"
proof -
  let ?node = "Node (Some demo_stat) (Some demo_tree) None" and ?f = "\<lambda>_. Some demo_input"
  obtain l0 where l0: "file_list_create [] = Some l0" by (simp add: file_list_create_def)
  from collected_create[OF l0 demo_tree_fine(3,1), of "[116]"]
  obtain l where l: "collect_files_recursive [116] [] ?node l0 = (0, l)" "items l = demo_items" "list_allocs l = []"
    "\<not> dangling l" unfolding demo_tree_items by blast
  have ready: "\<forall>it \<in> set (items l). item_ready wide_env ?f 3 it \<and> restorable ?f it"
    using wide_items_ready demo_items_fine unfolding l(2) by blast
  have ne: "items l \<noteq> []" unfolding l(2) by simp
  from write_archive_wrote[OF wide_frames_fit l(3,4) ne ready demo_budget_items[folded l(2)]]
  obtain w w1 w2 es n first where r: "write_archive wide_env ?f 3 (Some \<lparr>out_written = [], out_limits = []\<rparr>) l
      = Exit 0 (Some w2)" and w: "stream w = []" "wrote_items wide_env ?f demo_items w w1 es" and f: "files w2 = es"
    and a: "out_written (output_file w2) = stream w1 @ central_directory es @
       end_records n (length (stream w1)) (length (central_directory es)) first"
    unfolding l(2) by blast
  have "w2 = w'" using assms(1) r l(1) ne by (simp add: writer_main_def l0 collect_files_def)
  note a = a[unfolded this, folded archive_def] and f = f[unfolded this]
  note wa = wide_archive[OF w(2,1)]
  have "length archive < 2 ^ 55" using wa(1,5) by (simp add: a)
  then show ?thesis using wide_boundaries[OF wa(4,3,1,5,2) a, of stable_qsort] wa(4) f by blast
qed


end
