(* ===== verification/Stream_Steps.thy ===== *)
theory Stream_Steps
  imports Stream_Safety
begin

text \<open>
  How a step of the part processor depends on what it is given: not on the frame buffer, not on the
  place of the data, and not on data behind what it uses. A step that goes on keeps allocations
  granted and is not in the error state.
\<close>

section \<open>The handlers do not use the frame buffer\<close>

definition with_buffer :: "bytes \<Rightarrow> nat \<Rightarrow> part_processor_state \<Rightarrow> part_processor_state" where
  "with_buffer b c st = st\<lparr>ps_frame_buffer := b, ps_frame_buffer_capacity := c\<rparr>"

lemma with_buffer_fields [simp]:
  "ps_part_index (with_buffer b c st) = ps_part_index st"
  "ps_part_start_offset (with_buffer b c st) = ps_part_start_offset st"
  "ps_cd_result (with_buffer b c st) = ps_cd_result st"
  "ps_output_dir (with_buffer b c st) = ps_output_dir st"
  "ps_current_file (with_buffer b c st) = ps_current_file st"
  "ps_next_entry_idx (with_buffer b c st) = ps_next_entry_idx st"
  "ps_bytes_processed (with_buffer b c st) = ps_bytes_processed st"
  "ps_state (with_buffer b c st) = ps_state st"
  "ps_error_code (with_buffer b c st) = ps_error_code st"
  "ps_os (with_buffer b c st) = ps_os st"
  "ps_frame_buffer (with_buffer b c st) = b"
  "ps_frame_buffer_capacity (with_buffer b c st) = c"
  "with_buffer b c (with_buffer b' c' st) = with_buffer b c st"
  by (simp_all add: with_buffer_def)

lemma with_buffer_update:
  "(with_buffer b c st)\<lparr>ps_os := os\<rparr> = with_buffer b c (st\<lparr>ps_os := os\<rparr>)"
  "(with_buffer b c st)\<lparr>ps_current_file := f\<rparr> = with_buffer b c (st\<lparr>ps_current_file := f\<rparr>)"
  "(with_buffer b c st)\<lparr>ps_state := s\<rparr> = with_buffer b c (st\<lparr>ps_state := s\<rparr>)"
  "(with_buffer b c st)\<lparr>ps_error_code := e\<rparr> = with_buffer b c (st\<lparr>ps_error_code := e\<rparr>)"
  "(with_buffer b c st)\<lparr>ps_next_entry_idx := i\<rparr> = with_buffer b c (st\<lparr>ps_next_entry_idx := i\<rparr>)"
  "(with_buffer b c st)\<lparr>ps_bytes_processed := n\<rparr> = with_buffer b c (st\<lparr>ps_bytes_processed := n\<rparr>)"
  by (simp_all add: with_buffer_def)

lemma with_buffer_same: "with_buffer (ps_frame_buffer st) (ps_frame_buffer_capacity st) st = st"
  by (simp add: with_buffer_def)

text \<open>The same result, with the buffer replaced.\<close>

abbreviation rebuffer_result ::
  "bytes \<Rightarrow> nat \<Rightarrow> (stream_rc \<times> part_processor_state) option \<Rightarrow> (stream_rc \<times> part_processor_state) option" where
  "rebuffer_result b c r \<equiv> map_option (apsnd (with_buffer b c)) r"

fun rebuffer :: "bytes \<Rightarrow> nat \<Rightarrow> step \<Rightarrow> step" where
  "rebuffer b c (Next off st) = Next off (with_buffer b c st)"
| "rebuffer b c (Need_more st) = Need_more (with_buffer b c st)"
| "rebuffer b c (Return rc st) = Return rc (with_buffer b c st)"
| "rebuffer b c Out_of_bounds = Out_of_bounds"

lemma fail_buffer: "fail rc (with_buffer b c st) = apsnd (with_buffer b c) (fail rc st)"
  by (simp add: fail_def with_buffer_update)

lemma close_output_file_buffer:
  "close_output_file (with_buffer b c st) = rebuffer_result b c (close_output_file st)"
  by (auto simp: close_output_file_def Let_def with_buffer_update split: option.split)

lemma proceed_buffer:
  assumes "\<And>st. f (with_buffer b c st) = rebuffer_result b c (f st)"
  shows "proceed (rebuffer_result b c r) f = rebuffer_result b c (proceed r f)"
  using assms by (simp add: proceed_def split: option.split)

lemma open_fresh_file_buffer:
  "open_fresh_file m (with_buffer b c st) = apsnd (with_buffer b c) (open_fresh_file m st)"
  by (simp add: open_fresh_file_def open_directory_def open_symlink_def open_regular_def Let_def
      with_buffer_update fail_buffer split: prod.split)

lemma open_output_file_buffer:
  "open_output_file m (with_buffer b c st) = rebuffer_result b c (open_output_file m st)"
  by (simp add: open_output_file_def close_output_file_buffer proceed_buffer open_fresh_file_buffer)

lemma set_offset_buffer:
  "set_uncompressed_offset n (with_buffer b c st) = with_buffer b c (set_uncompressed_offset n st)"
  by (simp add: set_uncompressed_offset_def with_buffer_update)

lemma handle_start_of_part_buffer:
  "handle_start_of_part_frame d (with_buffer b c st) = rebuffer_result b c (handle_start_of_part_frame d st)"
  by (simp add: handle_start_of_part_frame_def set_offset_buffer fail_buffer open_output_file_buffer
      proceed_buffer split: option.split)

lemma handle_local_header_buffer:
  "handle_local_header d (with_buffer b c st) =
     map_option (apsnd (apsnd (with_buffer b c))) (handle_local_header d st)"
  by (simp add: handle_local_header_def Let_def fail_buffer open_output_file_buffer set_offset_buffer
      split: option.split prod.split)

lemma handle_zstd_frame_buffer:
  "handle_zstd_frame zr d n (with_buffer b c st) = apsnd (with_buffer b c) (handle_zstd_frame zr d n st)"
  by (simp add: handle_zstd_frame_def fail_buffer with_buffer_update split: option.split prod.split)

lemma advance_buffer: "advance off n (with_buffer b c st) = rebuffer b c (advance off n st)"
  by (simp add: advance_def with_buffer_update)

lemma return_failure_buffer: "return_failure rc (with_buffer b c st) = rebuffer b c (return_failure rc st)"
  by (simp add: return_failure_def fail_buffer split: prod.split)

lemma after_buffer:
  assumes "\<And>st. f (with_buffer b c st) = rebuffer b c (f st)"
  shows "after (rebuffer_result b c r) f = rebuffer b c (after r f)"
  using assms by (simp add: after_def split: option.split)

lemma with_frame_buffer:
  assumes "\<And>info. f info = rebuffer b c (g info)"
  shows "with_frame zr ptr (with_buffer b c st) f = rebuffer b c (with_frame zr ptr st g)"
  using assms by (auto simp: with_frame_def return_failure_buffer split: outcome.split)


lemmas buffer_simps = advance_buffer return_failure_buffer with_buffer_update close_output_file_buffer
  handle_start_of_part_buffer handle_local_header_buffer handle_zstd_frame_buffer

lemma step_init_buffer: "step_init off (with_buffer b c st) = rebuffer b c (step_init off st)"
  by (simp add: step_init_def with_buffer_update)

lemma step_continuing_buffer:
  "step_continuing zr ptr off (with_buffer b c st) = rebuffer b c (step_continuing zr ptr off st)"
  unfolding step_continuing_def
  by (rule with_frame_buffer) (simp add: buffer_simps after_buffer)

lemma step_expect_header_buffer:
  "step_expect_header zr ptr off (with_buffer b c st) = rebuffer b c (step_expect_header zr ptr off st)"
proof (cases "length (pf_entries (this_part st)) \<le> ps_next_entry_idx st")
  case True
  then show ?thesis by (simp add: step_expect_header_def with_buffer_update)
next
  case False
  show ?thesis
    unfolding step_expect_header_def with_buffer_fields if_not_P[OF False]
    by (rule with_frame_buffer) (simp add: buffer_simps split: option.split prod.split)
qed

lemma step_frames_buffer:
  "step_frames zr ptr off (with_buffer b c st) = rebuffer b c (step_frames zr ptr off st)"
proof -
  have zstd: "after (Some (apsnd (with_buffer b c) r)) f = rebuffer b c (after (Some r) f)"
    if "\<And>st. f (with_buffer b c st) = rebuffer b c (f st)" for r f
    using after_buffer[of f b c "Some r"] that by simp
  show ?thesis
    unfolding step_frames_def Let_def
    by (rule with_frame_buffer)
      (simp add: buffer_simps after_buffer zstd handle_data_descriptor_def descriptor_size_def
        split: frame_type.split)
qed

lemma step_symlink_buffer:
  "step_symlink ptr off (with_buffer b c st) = rebuffer b c (step_symlink ptr off st)"
  by (simp add: step_symlink_def Let_def buffer_simps after_buffer split: option.split)

lemma process_step_buffer:
  "process_step zr work off (with_buffer b c st) = rebuffer b c (process_step zr work off st)"
  by (simp add: process_step_def Let_def step_init_buffer step_continuing_buffer step_expect_header_buffer
      step_frames_buffer step_symlink_buffer split: processor_state.split)

fun rebuffer_end :: "bytes \<Rightarrow> nat \<Rightarrow> loop_end \<Rightarrow> loop_end" where
  "rebuffer_end b c (Completed st) = Completed (with_buffer b c st)"
| "rebuffer_end b c (Buffered off st) = Buffered off (with_buffer b c st)"
| "rebuffer_end b c (Returned rc st) = Returned rc (with_buffer b c st)"
| "rebuffer_end b c Crashed = Crashed"

lemma process_loop_buffer:
  assumes "process_loop zr work off st = Some r"
  shows "process_loop zr work off (with_buffer b c st) = Some (rebuffer_end b c r)"
  using assms
proof (induction rule: process_loop.raw_induct[rotated, consumes 1])
  case (1 loop zr work off st r)
  then show ?case
    by (subst process_loop.simps)
      (auto simp: process_step_buffer split: step.splits if_splits)
qed

text \<open>In particular the loop keeps the frame buffer.\<close>

lemma process_loop_keeps_buffer:
  assumes "process_loop zr work off st = Some r"
  shows "rebuffer_end (ps_frame_buffer st) (ps_frame_buffer_capacity st) r = r"
  using process_loop_buffer[OF assms, of "ps_frame_buffer st" "ps_frame_buffer_capacity st"] assms
  by (simp add: with_buffer_same)


section \<open>The place of the data does not matter\<close>

fun shift_step :: "nat \<Rightarrow> step \<Rightarrow> step" where
  "shift_step k (Next off st) = Next (k + off) st"
| "shift_step k (Need_more st) = Need_more st"
| "shift_step k (Return rc st) = Return rc st"
| "shift_step k Out_of_bounds = Out_of_bounds"

fun shift_end :: "nat \<Rightarrow> loop_end \<Rightarrow> loop_end" where
  "shift_end k (Completed st) = Completed st"
| "shift_end k (Buffered off st) = Buffered (k + off) st"
| "shift_end k (Returned rc st) = Returned rc st"
| "shift_end k Crashed = Crashed"

lemma advance_shift: "advance (k + off) n st = shift_step k (advance off n st)"
  by (simp add: advance_def)

lemma return_failure_shift: "shift_step k (return_failure rc st) = return_failure rc st"
  by (simp add: return_failure_def split: prod.split)

lemma after_shift: "(\<And>st. f st = shift_step k (g st)) \<Longrightarrow> after r f = shift_step k (after r g)"
  by (simp add: after_def split: option.split)

lemma with_frame_shift:
  "(\<And>info. f info = shift_step k (g info)) \<Longrightarrow> with_frame zr ptr st f = shift_step k (with_frame zr ptr st g)"
  by (simp add: with_frame_def return_failure_shift split: outcome.split)

lemmas shift_simps = advance_shift return_failure_shift after_shift

lemma step_continuing_shift: "step_continuing zr ptr (k + off) st = shift_step k (step_continuing zr ptr off st)"
  unfolding step_continuing_def by (rule with_frame_shift) (simp add: shift_simps)

lemma step_expect_header_shift:
  "step_expect_header zr ptr (k + off) st = shift_step k (step_expect_header zr ptr off st)"
proof (cases "length (pf_entries (this_part st)) \<le> ps_next_entry_idx st")
  case False
  show ?thesis
    unfolding step_expect_header_def if_not_P[OF False]
    by (rule with_frame_shift) (simp add: shift_simps split: option.split prod.split)
qed (simp add: step_expect_header_def)

lemma step_frames_shift: "step_frames zr ptr (k + off) st = shift_step k (step_frames zr ptr off st)"
  unfolding step_frames_def Let_def
  by (rule with_frame_shift) (simp add: shift_simps split: frame_type.split)

lemma step_symlink_shift: "step_symlink ptr (k + off) st = shift_step k (step_symlink ptr off st)"
  by (simp add: step_symlink_def Let_def return_failure_shift after_shift add.assoc split: option.split)

lemma process_step_shift:
  "process_step zr (xs @ ys) (length xs + off) st = shift_step (length xs) (process_step zr ys off st)"
  by (simp add: process_step_def Let_def step_init_def step_continuing_shift step_expect_header_shift
      step_frames_shift step_symlink_shift split: processor_state.split)

lemma process_loop_shift:
  assumes "process_loop zr ys off st = Some r"
  shows "process_loop zr (xs @ ys) (length xs + off) st = Some (shift_end (length xs) r)"
  using assms
proof (induction rule: process_loop.raw_induct[rotated, consumes 1])
  case (1 loop zr ys off st r)
  then show ?case
    by (subst process_loop.simps) (auto simp: process_step_shift split: step.splits if_splits)
qed

section \<open>More data do not change a step that is possible\<close>

text \<open>What the downloader relies on in libzstd: once the end of a frame is found, or an error other
  than too short an input, more input changes neither this nor the content size.\<close>

definition zstd_stable :: "zstd_reader \<Rightarrow> bool" where
  "zstd_stable zr \<longleftrightarrow>
     (\<forall>a b. (\<forall>n. zr_find_frame_size zr a = ZSTD_size n \<longrightarrow>
               zr_find_frame_size zr (a @ b) = ZSTD_size n \<and> zr_content_size zr (a @ b) = zr_content_size zr a) \<and>
            (zr_find_frame_size zr a = ZSTD_error_other \<longrightarrow> zr_find_frame_size zr (a @ b) = ZSTD_error_other))"

lemma field_more: "off + n \<le> length a \<Longrightarrow> field (a @ b) off n = field a off n"
  by simp

lemma parse_skippable_more:
  assumes "\<not> announced a \<ge> 0xFFFFFFF8" and "parse_skippable_frame a \<noteq> Error STREAM_PROC_NEED_MORE_DATA"
  shows "parse_skippable_frame (a @ b) = parse_skippable_frame a"
proof -
  have len: "8 \<le> length a" using assms(2) by (auto simp: parse_skippable_frame_def split: if_splits)
  then have ann: "announced (a @ b) = announced a" by (simp add: field_more)
  have size: "8 + unat (announced a) \<le> length a"
    using assms len by (auto simp: parse_skippable_frame_def read_int_cases Let_def skippable_size_cases split: if_splits)
  have "0 < announced a \<Longrightarrow> 0 < unat (announced a)" by (simp add: word_gt_0 unat_gt_0)
  then have "0 < announced a \<Longrightarrow> 9 \<le> length a" using size by linarith
  moreover have "announced a = 16 \<Longrightarrow> 24 \<le> length a" using size by simp
  ultimately show ?thesis
    using len size ann assms(1)
    by (auto simp: parse_skippable_frame_def read_int_cases Let_def skippable_size_cases)
qed

lemma parse_next_frame_more:
  assumes "zstd_stable zr" and "\<not> wrapped_frame a"
    and "parse_next_frame zr a \<noteq> Error STREAM_PROC_NEED_MORE_DATA"
  shows "parse_next_frame zr (a @ b) = parse_next_frame zr a"
proof -
  have len: "4 \<le> length a"
    using assms(3) by (auto simp: parse_next_frame_def MIN_FRAME_HEADER_SIZE_def split: if_splits)
  have skip: "parse_skippable_frame (a @ b) = parse_skippable_frame a"
    if "(field a 0 4 :: u32) = BURST_SKIPPABLE_MAGIC"
  proof -
    have p: "parse_next_frame zr a = parse_skippable_frame a"
      using that len by (simp add: parse_frame_defs read_int_cases)
    then have "8 \<le> length a" using assms(3) by (auto simp: parse_skippable_frame_def split: if_splits)
    then show ?thesis using parse_skippable_more[of a b] assms(2,3) that p by (simp add: wrapped_frame_iff)
  qed
  have local: "parse_local_header_frame (a @ b) = parse_local_header_frame a"
    if "(field a 0 4 :: u32) = ZIP_LOCAL_FILE_HEADER_SIG"
    using that len assms(3)
    by (auto simp: parse_frame_defs read_int_cases parse_local_header_frame_def split: if_splits)
  have zstd: "parse_zstd_frame zr (a @ b) = parse_zstd_frame zr a"
    if "(field a 0 4 :: u32) = ZSTD_MAGIC_NUMBER"
    using that len assms(1,3)
    by (auto simp: parse_frame_defs read_int_cases parse_zstd_frame_def zstd_stable_def split: zstd_size.splits)
  show ?thesis
    using len skip local zstd by (simp add: parse_next_frame_def read_int_cases MIN_FRAME_HEADER_SIZE_def)
qed


text \<open>A step that can be done: it neither asks for more data nor leaves an object.\<close>

fun possible :: "step \<Rightarrow> bool" where
  "possible (Next off st) = True"
| "possible (Need_more st) = False"
| "possible (Return rc st) = True"
| "possible Out_of_bounds = False"

lemma with_frame_more:
  assumes "zstd_stable zr" and "\<not> wrapped_frame a" and "possible (with_frame zr a st f)"
    and "\<And>info. parse_next_frame zr a = Ok info \<Longrightarrow> possible (f info) \<Longrightarrow> g info = f info"
  shows "with_frame zr (a @ b) st g = with_frame zr a st f"
proof -
  have "parse_next_frame zr a \<noteq> Error STREAM_PROC_NEED_MORE_DATA"
    using assms(3) by (auto simp: with_frame_def)
  note parse_next_frame_more[OF assms(1,2) this]
  with assms(3,4) show ?thesis by (auto simp: with_frame_def split: outcome.splits)
qed

lemma handle_start_of_part_more:
  "handle_start_of_part_frame a st \<noteq> None \<Longrightarrow>
   handle_start_of_part_frame (a @ b) st = handle_start_of_part_frame a st"
  by (auto simp: handle_start_of_part_frame_def read_le_def split: if_splits)

lemma handle_local_header_more:
  assumes "handle_local_header a st \<noteq> Some (STREAM_PROC_NEED_MORE_DATA, 0, st)"
  shows "handle_local_header (a @ b) st = handle_local_header a st"
proof -
  have "30 \<le> length a" and
    "30 + unat (field a 26 2 :: u16) + unat (field a 28 2 :: u16) \<le> length a"
    using assms by (auto simp: handle_local_header_def Let_def split: if_splits)
  moreover from this have "unat (field a 26 2 :: u16) = PADDING_LFH_FILENAME_LEN \<Longrightarrow>
      PADDING_LFH_FILENAME_LEN + 30 - length a = 0" by linarith
  ultimately show ?thesis by (auto simp: handle_local_header_def Let_def)
qed

lemma after_None: "possible (after r f) \<Longrightarrow> r \<noteq> None"
  by (cases r) (auto simp: after_def)

lemma step_continuing_more:
  assumes "zstd_stable zr" and "\<not> wrapped_frame a" and "possible (step_continuing zr a off st)"
  shows "step_continuing zr (a @ b) off st = step_continuing zr a off st"
  using assms(3) unfolding step_continuing_def
  by (rule with_frame_more[OF assms(1,2)])
    (auto split: if_splits dest!: after_None simp: handle_start_of_part_more)

lemma step_expect_header_more:
  assumes "zstd_stable zr" and "\<not> wrapped_frame a" and "possible (step_expect_header zr a off st)"
  shows "step_expect_header zr (a @ b) off st = step_expect_header zr a off st"
proof (cases "length (pf_entries (this_part st)) \<le> ps_next_entry_idx st")
  case False
  show ?thesis
    using assms(3) unfolding step_expect_header_def if_not_P[OF False]
  proof (rule with_frame_more[OF assms(1,2)], goal_cases)
    case (1 info)
    then have "handle_local_header a st \<noteq> Some (STREAM_PROC_NEED_MORE_DATA, 0, st)"
      if "fi_type info = FRAME_ZIP_LOCAL_HEADER" using that by auto
    from handle_local_header_more[OF this] show ?case by auto
  qed
qed (simp add: step_expect_header_def)

lemma step_frames_more:
  assumes "zstd_stable zr" and "\<not> wrapped_frame a" and "possible (step_frames zr a off st)"
  shows "step_frames zr (a @ b) off st = step_frames zr a off st"
  using assms(3) unfolding step_frames_def
proof (rule with_frame_more[OF assms(1,2)], goal_cases)
  case (1 info)
  then show ?case
    by (cases "fi_type info")
      (auto simp: Let_def handle_start_of_part_more split: if_splits dest!: after_None)
qed

lemma process_step_more:
  assumes "zstd_stable zr" and "off < length a" and "\<not> wrapped_frame (drop off a)"
    and "possible (process_step zr a off st)"
    and "ps_state st \<noteq> STATE_READING_SYMLINK" and "ps_state st \<noteq> STATE_DONE"
  shows "process_step zr (a @ b) off st = process_step zr a off st"
  using assms step_continuing_more[of zr "drop off a" off st b] step_expect_header_more[of zr "drop off a" off st b]
    step_frames_more[of zr "drop off a" off st b]
  by (auto simp: process_step_def Let_def split: processor_state.splits)

text \<open>A step that asks for more data has changed nothing.\<close>

lemma with_frame_Need_more:
  "with_frame zr ptr st f = Need_more st' \<Longrightarrow> (\<And>info. f info = Need_more st' \<Longrightarrow> st' = st) \<Longrightarrow> st' = st"
  by (auto simp: with_frame_def return_failure_def split: outcome.splits if_splits prod.splits)

lemma open_output_file_not_more:
  "open_output_file m st \<noteq> Some (STREAM_PROC_NEED_MORE_DATA, st')"
  using open_output_file_rc[of m st] by blast

lemma after_Need_more:
  "after r f = Need_more st' \<Longrightarrow> \<exists>st. f st = Need_more st'"
  by (auto simp: after_def split: option.splits if_splits)

lemma handle_local_header_Need_more:
  "handle_local_header a st = Some (STREAM_PROC_NEED_MORE_DATA, n, st') \<Longrightarrow> st' = st"
  by (auto simp: handle_local_header_def Let_def fail_def open_output_file_not_more
      split: if_splits option.splits)

lemma step_expect_header_Need_more:
  assumes "step_expect_header zr ptr off st = Need_more st'"
  shows "st' = st"
proof (cases "length (pf_entries (this_part st)) \<le> ps_next_entry_idx st")
  case False
  from assms[unfolded step_expect_header_def if_not_P[OF False]] show ?thesis
    by (rule with_frame_Need_more)
      (auto simp: advance_def return_failure_def fail_def split: if_splits option.splits
        dest: handle_local_header_Need_more)
qed (use assms in \<open>simp add: step_expect_header_def\<close>)

lemma step_continuing_Need_more: "step_continuing zr ptr off st = Need_more st' \<Longrightarrow> st' = st"
  unfolding step_continuing_def
  by (erule with_frame_Need_more)
    (auto simp: advance_def return_failure_def fail_def split: if_splits dest!: after_Need_more)

lemma step_frames_Need_more: "step_frames zr ptr off st = Need_more st' \<Longrightarrow> st' = st"
  unfolding step_frames_def
  by (erule with_frame_Need_more)
    (auto simp: advance_def return_failure_def fail_def Let_def split: if_splits frame_type.splits
      dest!: after_Need_more)

lemma step_symlink_Need_more: "step_symlink ptr off st \<noteq> Need_more st'"
  by (auto simp: step_symlink_def Let_def return_failure_def fail_def split: option.splits dest!: after_Need_more)

lemma process_step_Need_more: "process_step zr work off st = Need_more st' \<Longrightarrow> st' = st"
  by (cases "ps_state st")
    (simp_all add: process_step_def Let_def step_init_def step_expect_header_Need_more
      step_continuing_Need_more step_frames_Need_more step_symlink_Need_more)

text \<open>A step ends inside the data, except for a data descriptor, of which only the magic number is looked
  at.\<close>

definition at_descriptor :: "zstd_reader \<Rightarrow> bytes \<Rightarrow> nat \<Rightarrow> part_processor_state \<Rightarrow> bool" where
  "at_descriptor zr work off st \<longleftrightarrow>
     off < length work \<and> ps_state st = STATE_PROCESSING_FRAMES \<and>
     (\<exists>info. parse_next_frame zr (drop off work) = Ok info \<and> fi_type info = FRAME_ZIP_DATA_DESCRIPTOR)"

lemma step_continuing_bound:
  "step_continuing zr ptr off st = Next off' st' \<Longrightarrow> off' \<le> off + length ptr"
  using parse_next_frame_Ok(1)
  by (fastforce simp: step_continuing_def with_frame_Next after_Next split: if_splits)

lemma handle_local_header_bound:
  "handle_local_header ptr st = Some (rc, n, st') \<Longrightarrow> n \<le> length ptr"
  by (auto simp: handle_local_header_def Let_def fail_def split: if_splits option.splits)

lemma step_expect_header_bound:
  assumes "step_expect_header zr ptr off st = Next off' st'"
  shows "off' \<le> off + length ptr"
proof (cases "length (pf_entries (this_part st)) \<le> ps_next_entry_idx st")
  case True
  then show ?thesis using assms by (auto simp: step_expect_header_def)
next
  case False
  then obtain info where info: "parse_next_frame zr ptr = Ok info"
    using assms by (auto simp: step_expect_header_def with_frame_Next)
  show ?thesis
    using assms False info parse_next_frame_Ok(1)[OF info] handle_local_header_bound[of ptr st]
    by (fastforce simp: step_expect_header_def with_frame_def split: if_splits option.splits)
qed

lemma step_frames_bound:
  assumes "step_frames zr ptr off st = Next off' st'"
  shows "off' \<le> off + length ptr \<or>
    off' = off + descriptor_size st \<and>
    (\<exists>info. parse_next_frame zr ptr = Ok info \<and> fi_type info = FRAME_ZIP_DATA_DESCRIPTOR)"
proof -
  from assms obtain info where info: "parse_next_frame zr ptr = Ok info"
    by (auto simp: step_frames_def with_frame_Next)
  show ?thesis
    using assms info parse_next_frame_Ok(1)[OF info]
    by (cases "fi_type info")
       (auto simp: step_frames_def with_frame_def Let_def after_Next split: if_splits)
qed

lemma step_symlink_bound:
  "step_symlink ptr off st = Next off' st' \<Longrightarrow> off' \<le> off + length ptr"
  by (auto simp: step_symlink_def Let_def after_Next split: option.splits if_splits)

lemma process_step_bound:
  assumes "process_step zr work off st = Next off' st'" and "off < length work"
  shows "off' \<le> length work \<or> at_descriptor zr work off st \<and> off' = off + descriptor_size st"
  using assms step_continuing_bound[of zr "drop off work" off st off' st']
    step_expect_header_bound[of zr "drop off work" off st off' st']
    step_frames_bound[of zr "drop off work" off st off' st']
    step_symlink_bound[of "drop off work" off st off' st']
  by (cases "ps_state st") (auto simp: process_step_def Let_def step_init_def at_descriptor_def)

section \<open>Allocations stay granted\<close>

definition granted :: "os_state \<Rightarrow> bool" where
  "granted os \<longleftrightarrow> os_allocs os = []"

lemma granted_set [simp]:
  "granted (set_node p n os) = granted os" "granted (set_content p f os) = granted os"
  "granted (set_attrs p g os) = granted os" "granted (sys_close fd os) = granted os"
  by (simp_all add: granted_def set_node_def set_content_def set_attrs_def sys_close_def
      split: option.splits node.splits)

lemma granted_ask [simp]: "granted (snd (ask os)) = granted os"
  by (simp add: ask_def granted_def split: list.split)

lemma granted_ask_eq: "ask os = (a, os1) \<Longrightarrow> granted os1 = granted os"
  by (metis granted_ask snd_conv)

lemma granted_alloc [simp]: "granted os \<Longrightarrow> os_alloc os = (True, os)"
  by (simp add: os_alloc_def granted_def)

lemma granted_syscall:
  assumes "\<And>os. granted (eff os) = granted os"
  shows "granted (snd (syscall eff os)) = granted os"
proof -
  obtain a os1 where ask: "ask os = (a, os1)" by fastforce
  then have "granted os1 = granted os" using granted_ask[of os] by simp
  then show ?thesis using ask assms by (auto simp: syscall_def split: answer.split)
qed

lemma granted_on_fd:
  assumes "\<And>p os. granted (snd (f p os)) = granted os"
  shows "granted (snd (on_fd fd f bad os)) = granted os"
  using assms by (simp add: on_fd_def split: option.split)

lemma granted_nodes [simp]: "granted (os\<lparr>os_nodes := n\<rparr>) = granted os"
  by (simp add: granted_def)

lemma granted_calls [simp]:
  "granted (snd (sys_mkdir name mode os)) = granted os"
  "granted (snd (sys_unlink name os)) = granted os"
  "granted (snd (sys_symlink target name os)) = granted os"
  "granted (snd (sys_chmod name mode os)) = granted os"
  "granted (snd (sys_chown name uid gid os)) = granted os"
  "granted (snd (sys_ftruncate fd len os)) = granted os"
  "granted (snd (sys_fchmod fd mode os)) = granted os"
  "granted (snd (sys_fchown fd uid gid os)) = granted os"
  "granted (snd (sys_encoded_write fd content off os)) = granted os"
  by (auto simp: sys_mkdir_def sys_unlink_def sys_symlink_def sys_chmod_def sys_chown_def
      change_attrs_def sys_ftruncate_def sys_fchmod_def sys_fchown_def sys_encoded_write_def Let_def
      granted_syscall granted_on_fd)

lemma granted_stat [simp]: "granted (snd (sys_stat_isdir name os)) = granted os"
  by (auto simp: sys_stat_isdir_def syscall_def split: prod.split option.split answer.split
      dest: granted_ask_eq)

lemma granted_pwrite [simp]: "granted (snd (sys_pwrite fd data off os)) = granted os"
  unfolding sys_pwrite_def
  by (rule granted_on_fd) (auto split: prod.split answer.split dest: granted_ask_eq)

lemma granted_open [simp]: "granted (snd (sys_open name mode os)) = granted os"
  by (auto simp: sys_open_def Let_def set_node_def granted_def split: prod.split answer.split option.split node.split
      dest: granted_ask_eq[unfolded granted_def])

lemma granted_eqs:
  "sys_mkdir name mode os = (r, os1) \<Longrightarrow> granted os1 = granted os"
  "sys_pwrite fd data off os = (n, os1) \<Longrightarrow> granted os1 = granted os"
  "sys_encoded_write fd content off os = (r, os1) \<Longrightarrow> granted os1 = granted os"
  "sys_open name omode os = (fd, os1) \<Longrightarrow> granted os1 = granted os"
  by (metis granted_calls(1) snd_conv, metis granted_pwrite snd_conv, metis granted_calls(9) snd_conv,
      metis granted_open snd_conv)

lemma granted_mkdir_or_exists [simp]: "granted (snd (mkdir_or_exists name os)) = granted os"
  by (auto simp: mkdir_or_exists_def split: prod.split option.split dest: granted_eqs(1))

lemma granted_mkdir_loop [simp]: "granted (snd (mkdir_loop pre rest os)) = granted os"
proof (induction pre rest os rule: mkdir_loop.induct)
  case (1 pre rest os)
  let ?n = "pre @ takeWhile (\<lambda>b. b \<noteq> slash) rest"
  obtain ok os1 where m: "mkdir_or_exists ?n os = (ok, os1)" by fastforce
  then have "granted os1 = granted os" using granted_mkdir_or_exists[of ?n os] by simp
  then show ?case using 1[OF _ refl refl] m by (subst mkdir_loop.simps) (auto simp: Let_def)
qed

lemma granted_ensure_directory [simp]:
  "granted os \<Longrightarrow> granted (snd (ensure_directory_exists path os))"
  by (simp add: ensure_directory_exists_def Let_def)

lemma granted_finalize_fd [simp]: "granted (finalize_fd fc os) = granted os"
  by (simp add: finalize_fd_def Let_def)

lemma granted_restore_owner [simp]: "granted (restore_symlink_owner fc os) = granted os"
  by (simp add: restore_symlink_owner_def)

lemma granted_ensure:
  "ensure_dctx os = (b, os1) \<Longrightarrow> granted os \<Longrightarrow> granted os1"
  "ensure_dbuf os = (b, os1) \<Longrightarrow> granted os \<Longrightarrow> granted os1"
  by (auto simp: ensure_dctx_def ensure_dbuf_def granted_def os_alloc_def split: if_splits prod.splits list.splits)

lemma granted_write_unencoded:
  "granted os \<Longrightarrow> granted (snd (do_write_unencoded zr fd frame n off os))"
  by (auto simp: do_write_unencoded_def split: prod.split option.split dest!: granted_ensure granted_eqs(2))

lemma granted_write_encoded [simp]:
  "granted os \<Longrightarrow> granted (snd (do_write_encoded zr fd frame n off os))"
  by (auto simp: do_write_encoded_def granted_write_unencoded split: prod.split option.split dest!: granted_eqs(3))


text \<open>A step that goes on has not used up an allocation, and is not in the error state.\<close>

definition kept :: "part_processor_state \<Rightarrow> part_processor_state \<Rightarrow> bool" where
  "kept st st' \<longleftrightarrow> (granted (ps_os st) \<longrightarrow> granted (ps_os st')) \<and> ps_state st' = ps_state st"

lemma kept_trans: "kept st st1 \<Longrightarrow> kept st1 st2 \<Longrightarrow> kept st st2"
  by (simp add: kept_def)

lemma kept_offset: "kept st (set_uncompressed_offset n st)"
  by (simp add: kept_def set_uncompressed_offset_def)

lemma close_output_file_kept: "close_output_file st = Some (rc, st') \<Longrightarrow> kept st st'"
  by (auto simp: close_output_file_def kept_def Let_def split: option.splits if_splits)

lemma open_fresh_file_kept:
  "open_fresh_file m st = (STREAM_PROC_SUCCESS, st') \<Longrightarrow> granted (ps_os st) \<Longrightarrow> kept st st'"
proof -
  assume "open_fresh_file m st = (STREAM_PROC_SUCCESS, st')" and g: "granted (ps_os st)"
  moreover obtain rc os1
    where dirs: "ensure_directory_exists (ps_output_dir st @ [slash] @ fm_filename m) (ps_os st) = (rc, os1)"
    by fastforce
  moreover have "granted os1"
    using granted_ensure_directory[OF g, of "ps_output_dir st @ [slash] @ fm_filename m"] dirs by simp
  ultimately show ?thesis
    by (auto simp: open_fresh_file_def open_directory_def open_symlink_def open_regular_def fail_def Let_def
        kept_def granted_eqs split: if_splits prod.splits dest!: granted_eqs(1,4))
qed

lemma open_output_file_kept:
  assumes "open_output_file m st = Some (STREAM_PROC_SUCCESS, st')" and "granted (ps_os st)"
  shows "kept st st'"
proof -
  from assms(1) obtain rc st1 where c: "close_output_file st = Some (rc, st1)"
    and o: "open_fresh_file m st1 = (STREAM_PROC_SUCCESS, st')"
    by (auto simp: open_output_file_def proceed_def split: option.splits if_splits)
  have "kept st st1" using c by (rule close_output_file_kept)
  moreover from this have "kept st1 st'" using open_fresh_file_kept[OF o] assms(2) by (simp add: kept_def)
  ultimately show ?thesis by (rule kept_trans)
qed

lemma handle_start_of_part_kept:
  assumes "handle_start_of_part_frame d st = Some (STREAM_PROC_SUCCESS, st')" and "granted (ps_os st)"
  shows "kept st st'"
  using assms open_output_file_kept[OF _ assms(2)] kept_offset kept_trans
  by (fastforce simp: handle_start_of_part_frame_def proceed_def fail_def split: option.splits if_splits)

lemma handle_local_header_kept:
  assumes "handle_local_header d st = Some (rc, n, st')" and "granted (ps_os st)"
    and "rc = STREAM_PROC_SUCCESS \<or> rc = STREAM_PROC_SKIPPED_PADDING"
  shows "kept st st'"
  using assms open_output_file_kept[OF _ assms(2)] kept_offset kept_trans
  by (fastforce simp: handle_local_header_def Let_def fail_def kept_def split: option.splits if_splits
      dest: open_output_file_rc)

lemma handle_zstd_frame_kept:
  assumes "handle_zstd_frame zr d n st = (STREAM_PROC_SUCCESS, st')"
  shows "kept st st'"
proof -
  have "granted os1" if "do_write_encoded zr fd d n off os = (rc, os1)" "granted os" for fd off os rc os1
    using that granted_write_encoded by (metis snd_conv)
  then show ?thesis
    using assms by (auto simp: handle_zstd_frame_def fail_def kept_def split: option.splits if_splits prod.splits)
qed

definition still_fine :: "part_processor_state \<Rightarrow> bool" where
  "still_fine st \<longleftrightarrow> granted (ps_os st) \<and> ps_state st \<noteq> STATE_ERROR"

lemma still_fine_kept: "kept st st' \<Longrightarrow> still_fine st \<Longrightarrow> still_fine st'"
  by (simp add: kept_def still_fine_def)

lemma still_fine_update [simp]:
  "still_fine (st\<lparr>ps_bytes_processed := n\<rparr>) = still_fine st"
  "still_fine (st\<lparr>ps_next_entry_idx := k\<rparr>) = still_fine st"
  "still_fine (st\<lparr>ps_current_file := f\<rparr>) = still_fine st"
  "still_fine (with_buffer b c st) = still_fine st"
  by (simp_all add: still_fine_def)

lemma still_fine_state: "s \<noteq> STATE_ERROR \<Longrightarrow> still_fine st \<Longrightarrow> still_fine (st\<lparr>ps_state := s\<rparr>)"
  by (simp add: still_fine_def)

lemma step_expect_header_still_fine:
  assumes "step_expect_header zr ptr off st = Next off' st'" and fine: "still_fine st"
  shows "still_fine st'"
proof (cases "length (pf_entries (this_part st)) \<le> ps_next_entry_idx st")
  case True
  then show ?thesis using assms by (auto simp: step_expect_header_def intro: still_fine_state)
next
  case False
  have g: "granted (ps_os st)" using fine by (simp add: still_fine_def)
  note header = handle_local_header_kept[OF _ g, THEN still_fine_kept[OF _ fine]]
  show ?thesis
    using assms(1) fine unfolding step_expect_header_def if_not_P[OF False] with_frame_Next
    by (auto simp: still_fine_def split: if_splits option.splits dest!: header[unfolded still_fine_def])
qed

lemma step_frames_still_fine:
  assumes "step_frames zr ptr off st = Next off' st'" and fine: "still_fine st"
  shows "still_fine st'"
proof -
  have g: "granted (ps_os st)" using fine by (simp add: still_fine_def)
  note kepts = close_output_file_kept handle_start_of_part_kept[OF _ g] handle_zstd_frame_kept
  note fines = kepts[THEN still_fine_kept[OF _ fine]]
  from assms(1) obtain info where info: "parse_next_frame zr ptr = Ok info"
    by (auto simp: step_frames_def with_frame_Next)
  show ?thesis
    using assms info
    by (cases "fi_type info")
      (auto simp: step_frames_def with_frame_def Let_def after_Next handle_data_descriptor_def still_fine_def
        split: if_splits dest!: fines[unfolded still_fine_def])
qed

lemma step_continuing_still_fine:
  assumes "step_continuing zr ptr off st = Next off' st'" and fine: "still_fine st"
  shows "still_fine st'"
proof -
  have g: "granted (ps_os st)" using fine by (simp add: still_fine_def)
  show ?thesis
    using assms(1)
    by (auto simp: step_continuing_def with_frame_Next after_Next split: if_splits
        dest!: handle_start_of_part_kept[OF _ g, THEN still_fine_kept[OF _ fine]]
        simp: still_fine_def)
qed

lemma process_step_still_fine:
  assumes "process_step zr work off st = Next off' st'" and fine: "still_fine st"
  shows "still_fine st'"
proof (cases "ps_state st")
  case STATE_READING_SYMLINK
  then show ?thesis
    using assms
    by (auto simp: process_step_def step_symlink_def Let_def after_Next split: option.splits if_splits
        intro!: still_fine_state dest!: close_output_file_kept[THEN still_fine_kept])
qed (use assms in \<open>auto simp: process_step_def step_init_def step_expect_header_still_fine
    step_frames_still_fine step_continuing_still_fine intro: still_fine_state split: if_splits\<close>)

lemma process_loop_still_fine:
  assumes "process_loop zr work off st = Some r" and "still_fine st"
  shows "case r of Completed st' \<Rightarrow> still_fine st'
    | Buffered off' st' \<Rightarrow> still_fine st' \<and> off' < length work \<and> process_step zr work off' st' = Need_more st'
    | _ \<Rightarrow> True"
  using assms
proof (induction rule: process_loop.raw_induct[rotated, consumes 1])
  case (1 loop zr work off st r)
  show ?case
  proof (cases "off < length work")
    case True
    show ?thesis
    proof (cases "process_step zr work off st")
      case (Next off1 st1)
      then have "loop zr work off1 st1 = Some r" using 1(2) True by simp
      then show ?thesis using 1(1) process_step_still_fine[OF Next 1(3)] by blast
    next
      case (Need_more st1)
      then have "st1 = st" by (rule process_step_Need_more)
      then show ?thesis using 1(2,3) True Need_more by auto
    qed (use 1(2) True in auto)
  qed (use 1(2,3) in auto)
qed

end
