(* ===== verification/Chunked_Stream.thy ===== *)
theory Chunked_Stream
  imports Stream_Properties Part_Requests Stream_Steps
begin

text \<open>
  The pieces in which a part arrives do not matter: the bytes that the part processor could not yet
  use wait in its frame buffer, and the calls for the pieces of a stream lead to the same files and
  the same result as one call for the stream in one piece.
\<close>

section \<open>One cut\<close>

text \<open>The positions and states that the loop goes through.\<close>

inductive reaches :: "zstd_reader \<Rightarrow> bytes \<Rightarrow> nat \<Rightarrow> part_processor_state \<Rightarrow> nat \<Rightarrow> part_processor_state \<Rightarrow> bool"
  for zr work where
  here: "reaches zr work off st off st"
| go_on: "off < length work \<Longrightarrow> process_step zr work off st = Next off1 st1 \<Longrightarrow>
    reaches zr work off1 st1 off' st' \<Longrightarrow> reaches zr work off st off' st'"

text \<open>A cut at \<open>c\<close> leaves every data descriptor the loop comes to whole, or leaves less than its magic
  number before the cut.\<close>

definition uncut :: "zstd_reader \<Rightarrow> bytes \<Rightarrow> nat \<Rightarrow> part_processor_state \<Rightarrow> nat \<Rightarrow> bool" where
  "uncut zr work off st c \<longleftrightarrow>
     (\<forall>off' st'. reaches zr work off st off' st' \<longrightarrow> at_descriptor zr work off' st' \<longrightarrow>
        c < off' + 4 \<or> off' + descriptor_size st' \<le> c)"

text \<open>From the second position on, the loop has the same result, and no more positions.\<close>

definition leads :: "zstd_reader \<Rightarrow> bytes \<Rightarrow> nat \<Rightarrow> part_processor_state \<Rightarrow> nat \<Rightarrow> part_processor_state \<Rightarrow> bool" where
  "leads zr work off st off' st' \<longleftrightarrow>
     process_loop zr work off st = process_loop zr work off' st' \<and>
     (\<forall>c. uncut zr work off st c \<longrightarrow> uncut zr work off' st' c)"

lemma leads_refl: "leads zr work off st off st"
  by (simp add: leads_def)

lemma leads_trans:
  "leads zr work off st off1 st1 \<Longrightarrow> leads zr work off1 st1 off2 st2 \<Longrightarrow> leads zr work off st off2 st2"
  by (simp add: leads_def)

lemma leads_step:
  assumes "process_step zr work off st = Next off1 st1" and "off < length work"
  shows "leads zr work off st off1 st1"
  using assms reaches.go_on[OF assms(2,1)]
  by (auto simp: leads_def uncut_def process_loop.simps[of zr work off st])

text \<open>Two positions with the same next step, the second of which is not at a descriptor.\<close>

lemma leads_same_step:
  assumes "process_step zr work off st = process_step zr work off1 st1"
    and "off < length work" and "off1 < length work" and "ps_state st1 \<noteq> STATE_PROCESSING_FRAMES"
    and "\<And>st'. process_step zr work off1 st1 \<noteq> Need_more st'"
  shows "leads zr work off st off1 st1"
proof -
  have "uncut zr work off1 st1 c" if "uncut zr work off st c" for c
    unfolding uncut_def
  proof (intro allI impI)
    fix off' st'
    assume r: "reaches zr work off1 st1 off' st'" and d: "at_descriptor zr work off' st'"
    from r show "c < off' + 4 \<or> off' + descriptor_size st' \<le> c"
    proof cases
      case here
      with d assms(4) show ?thesis by (simp add: at_descriptor_def)
    next
      case (go_on off2 st2)
      then have "reaches zr work off st off' st'" using assms(1,2) reaches.go_on by metis
      with that d show ?thesis by (auto simp: uncut_def)
    qed
  qed
  moreover have "process_loop zr work off st = process_loop zr work off1 st1"
    using assms(1-3,5)
    by (simp add: process_loop.simps[of zr work off st] process_loop.simps[of zr work off1 st1] split: step.split)
  ultimately show ?thesis by (simp add: leads_def)
qed


text \<open>A link whose target is cut: the bytes before the cut are kept, and the rest follows.\<close>

definition link_taken :: "file_context \<Rightarrow> bytes \<Rightarrow> nat \<Rightarrow> nat \<Rightarrow> part_processor_state \<Rightarrow> step" where
  "link_taken fc buf n off st =
     (let st1 = st\<lparr>ps_current_file := Some (fc\<lparr>fc_symlink_buffer := Some buf\<rparr>),
                   ps_bytes_processed := ps_bytes_processed st + of_nat n\<rparr>
      in if of_nat (length buf) \<ge> fc_expected_total_size fc
         then after (close_output_file st1) (\<lambda>st2. Next (off + n) (st2\<lparr>ps_state := STATE_EXPECT_LOCAL_HEADER\<rparr>))
         else Next (off + n) st1)"

lemma step_symlink_taken:
  assumes "ps_current_file st = Some fc" and "fc_symlink_buffer fc = Some buf"
    and "n = min (length ptr) (unat (fc_expected_total_size fc - of_nat (length buf)))"
    and "length buf + n \<le> unat (fc_symlink_buffer_size fc)"
  shows "step_symlink ptr off st = link_taken fc (buf @ take n ptr) n off st"
proof -
  have "\<not> (0 < n \<and> unat (fc_symlink_buffer_size fc) < length (buf @ take n ptr))"
    using assms(3,4) by simp
  then show ?thesis by (simp only: step_symlink_def assms(1,2) option.case Let_def if_False link_taken_def flip: assms(3))
qed

lemma step_symlink_cut:
  assumes "processor_inv fds0 st" and "ps_state st = STATE_READING_SYMLINK"
    and "step_symlink ptr off st = Next off1 st1"
  shows "step_symlink (ptr @ b) off st = Next off1 st1 \<or>
    off1 = off + length ptr \<and> ps_state st1 = STATE_READING_SYMLINK \<and>
    step_symlink (ptr @ b) off st = step_symlink b off1 st1"
proof -
  from assms(3) obtain fc buf where fc: "ps_current_file st = Some fc" "fc_symlink_buffer fc = Some buf"
    by (auto simp: step_symlink_def split: option.splits)
  define need where "need = unat (fc_expected_total_size fc - of_nat (length buf))"
  have ok: "length buf \<le> unat (fc_expected_total_size fc)"
    "unat (fc_symlink_buffer_size fc) = unat (fc_expected_total_size fc) + 1"
    using assms(1) fc by (auto simp: processor_inv_def context_ok_def)
  have u: "unat (of_nat k :: u64) = k" if "k \<le> unat (fc_expected_total_size fc)" for k
    using that unat_u64_less[of "fc_expected_total_size fc"] by (simp add: unat_of_nat)
  have need: "need = unat (fc_expected_total_size fc) - length buf"
    using ok by (simp add: need_def unat_sub word_le_nat_alt u)
  have taken: "step_symlink xs off st = link_taken fc (buf @ take (min (length xs) need) xs) (min (length xs) need) off st"
    for xs
    by (rule step_symlink_taken[OF fc]) (use ok need in \<open>simp_all flip: need_def\<close>)
  show ?thesis
  proof (cases "need \<le> length ptr")
    case True
    then show ?thesis using assms(3) taken[of ptr] taken[of "ptr @ b"] by simp
  next
    case False
    define fc1 where "fc1 = fc\<lparr>fc_symlink_buffer := Some (buf @ ptr)\<rparr>"
    have len: "length buf + length ptr < unat (fc_expected_total_size fc)" using False need by simp
    then have "\<not> fc_expected_total_size fc \<le> of_nat (length (buf @ ptr))"
      by (simp add: word_le_nat_alt u del: of_nat_add)
    then have st1: "off1 = off + length ptr"
      "st1 = st\<lparr>ps_current_file := Some fc1, ps_bytes_processed := ps_bytes_processed st + of_nat (length ptr)\<rparr>"
      using assms(3) taken[of ptr] False by (simp_all add: link_taken_def Let_def fc1_def)
    define k where "k = min (length b) (need - length ptr)"
    have "unat (fc_expected_total_size fc1 - of_nat (length (buf @ ptr))) = need - length ptr"
      using len need by (simp add: fc1_def unat_sub word_le_nat_alt u del: of_nat_add)
    then have "k = min (length b) (unat (fc_expected_total_size fc1 - of_nat (length (buf @ ptr))))"
      by (simp add: k_def)
    moreover have "length (buf @ ptr) + k \<le> unat (fc_symlink_buffer_size fc1)"
      using ok(2) len need min.cobounded2[of "length b" "need - length ptr"] unfolding k_def fc1_def by simp
    ultimately have "step_symlink b off1 st1 = link_taken fc1 ((buf @ ptr) @ take k b) k off1 st1"
      by (intro step_symlink_taken) (simp_all add: st1 fc1_def)
    moreover have "min (length (ptr @ b)) need = length ptr + k" using False by (auto simp: k_def min_def)
    then have "step_symlink (ptr @ b) off st = link_taken fc (buf @ ptr @ take k b) (length ptr + k) off st"
      using taken[of "ptr @ b"] by simp
    ultimately show ?thesis
      using assms(2) by (simp add: link_taken_def Let_def st1 fc1_def add.assoc)
  qed
qed


lemma process_step_Next_cases:
  assumes "process_step zr a off st = Next off1 st1" and "off < length a"
    and "zstd_stable zr" and "no_wrapped_frames a" and "processor_inv fds0 st"
  shows "process_step zr (a @ b) off st = Next off1 st1 \<or>
    off1 = length a \<and> ps_state st1 \<in> {STATE_READING_SYMLINK, STATE_DONE} \<and>
    (b \<noteq> [] \<longrightarrow> process_step zr (a @ b) off st = process_step zr (a @ b) off1 st1)"
proof (cases "ps_state st = STATE_READING_SYMLINK \<or> ps_state st = STATE_DONE")
  case True
  then show ?thesis
    using assms step_symlink_cut[OF assms(5), of "drop off a" off off1 st1 b]
    by (auto simp: process_step_def)
next
  case False
  moreover have "\<not> wrapped_frame (drop off a)" using assms(2,4) by (simp add: no_wrapped_frames_def)
  ultimately show ?thesis using process_step_more[OF assms(3,2), of st b] assms(1) by simp
qed

lemma process_step_leads:
  assumes "process_step zr a off st = Next off1 st1" and "off < length a"
    and "zstd_stable zr" and "no_wrapped_frames a" and "processor_inv fds0 st"
  shows "leads zr (a @ b) off st off1 st1"
  using process_step_Next_cases[OF assms, of b]
proof
  assume "process_step zr (a @ b) off st = Next off1 st1"
  with assms(2) show ?thesis by (intro leads_step) simp_all
next
  assume same: "off1 = length a \<and> ps_state st1 \<in> {STATE_READING_SYMLINK, STATE_DONE} \<and>
    (b \<noteq> [] \<longrightarrow> process_step zr (a @ b) off st = process_step zr (a @ b) off1 st1)"
  show ?thesis
  proof (cases "b = []")
    case True
    then show ?thesis using assms(1,2) by (intro leads_step) simp_all
  next
    case False
    moreover have "process_step zr (a @ b) off1 st1 \<noteq> Need_more st'" for st'
      using same by (auto simp: process_step_def step_symlink_Need_more)
    ultimately show ?thesis using same assms(2) by (intro leads_same_step) auto
  qed
qed

lemma step_symlink_Return: "step_symlink ptr off st = Return rc st' \<Longrightarrow> step_symlink ptr1 off1 st = Return rc st'"
  by (auto simp: step_symlink_def Let_def after_def split: option.splits if_splits dest: close_output_file_rc)

lemma descriptor_inside:
  assumes "zstd_stable zr" and "no_wrapped_frames a" and "at_descriptor zr a off st"
    and "uncut zr (a @ b) off st (length a)"
  shows "off + descriptor_size st \<le> length a"
proof -
  from assms(3) obtain info where off: "off < length a" and frames: "ps_state st = STATE_PROCESSING_FRAMES"
    and info: "parse_next_frame zr (drop off a) = Ok info" "fi_type info = FRAME_ZIP_DATA_DESCRIPTOR"
    by (auto simp: at_descriptor_def)
  have "parse_next_frame zr (drop off a @ b) = Ok info"
    using parse_next_frame_more[of zr "drop off a" b] assms(1,2) off info(1) by (simp add: no_wrapped_frames_def)
  then have "at_descriptor zr (a @ b) off st" using off frames info(2) by (simp add: at_descriptor_def)
  moreover have "off + 4 \<le> length a" using info(1) off by (rule_tac ccontr) (simp add: parse_short)
  ultimately show ?thesis using assms(4) reaches.here[of zr "a @ b" off st] unfolding uncut_def by fastforce
qed

text \<open>The loop on the bytes before the cut has gone part of the way.\<close>

lemma process_loop_leads:
  assumes "process_loop zr a off st = Some r" and "off \<le> length a" and "uncut zr (a @ b) off st (length a)"
    and "zstd_stable zr" and "no_wrapped_frames a" and "processor_inv fds0 st"
  shows "case r of
      Completed st' \<Rightarrow> leads zr (a @ b) off st (length a) st'
    | Buffered off' st' \<Rightarrow> off' < length a \<and> leads zr (a @ b) off st off' st'
    | Returned rc st' \<Rightarrow> process_loop zr (a @ b) off st = Some (Returned rc st')
    | Crashed \<Rightarrow> False"
  using assms
proof (induction arbitrary: fds0 rule: process_loop.raw_induct[rotated, consumes 1])
  case (1 loop zr a off st r)
  have nw: "\<not> wrapped_frame (drop off a)" if "off < length a"
    using that 1(6) by (simp add: no_wrapped_frames_def)
  show ?case
  proof (cases "off < length a")
    case False
    then have "off = length a" using 1(3) by simp
    then show ?thesis using 1(2) by (auto simp: leads_refl)
  next
    case True
    show ?thesis
    proof (cases "process_step zr a off st")
      case (Next off1 st1)
      note leads = process_step_leads[OF Next True 1(5,6,7), of b]
      have inv: "processor_inv fds0 st1"
        using process_step_safe[OF 1(7), of off a zr] nw[OF True] Next by simp
      have "off1 \<le> length a"
        using process_step_bound[OF Next True] descriptor_inside[OF 1(5,6) _ 1(4)] by auto
      moreover have "uncut zr (a @ b) off1 st1 (length a)" using leads 1(4) by (simp add: leads_def)
      moreover have "loop zr a off1 st1 = Some r" using 1(2) True Next by simp
      ultimately have "case r of
          Completed st' \<Rightarrow> leads zr (a @ b) off1 st1 (length a) st'
        | Buffered off' st' \<Rightarrow> off' < length a \<and> leads zr (a @ b) off1 st1 off' st'
        | Returned rc st' \<Rightarrow> process_loop zr (a @ b) off1 st1 = Some (Returned rc st')
        | Crashed \<Rightarrow> False"
        using 1(1)[of zr a off1 st1 r] 1(5,6) inv by blast
      then show ?thesis
        using leads leads_trans[OF leads] by (auto simp: leads_def split: loop_end.splits)
    next
      case (Need_more st1)
      then have "st1 = st" by (rule process_step_Need_more)
      then show ?thesis using 1(2) True Need_more by (auto simp: leads_refl)
    next
      case (Return rc st1)
      then have "process_step zr (a @ b) off st = Return rc st1"
        using process_step_more[OF 1(5) True nw[OF True], of st b]
        by (cases "ps_state st") (auto simp: process_step_def dest: step_symlink_Return)
      then show ?thesis using 1(2) True Return by (subst process_loop.simps) auto
    next
      case Out_of_bounds
      then show ?thesis using process_step_safe[OF 1(7), of off a zr] nw[OF True] by simp
    qed
  qed
qed


section \<open>One call\<close>

text \<open>The state without its buffer.\<close>

abbreviation bare :: "part_processor_state \<Rightarrow> part_processor_state" where
  "bare st \<equiv> with_buffer [] 0 st"

lemma bare_eq: "bare st1 = bare st \<Longrightarrow> st1 = with_buffer (ps_frame_buffer st1) (ps_frame_buffer_capacity st1) st"
  by (metis with_buffer_fields(13) with_buffer_same)

lemma bare_fields:
  assumes "bare st1 = bare st"
  shows "ps_state st1 = ps_state st" and "ps_os st1 = ps_os st" and "still_fine st1 = still_fine st"
    and "processor_inv fds0 st1 = processor_inv fds0 st"
proof -
  have "processor_inv fds0 (bare x) = processor_inv fds0 x" for x by (simp add: with_buffer_def)
  then show "processor_inv fds0 st1 = processor_inv fds0 st" by (metis assms)
  show "ps_state st1 = ps_state st" "ps_os st1 = ps_os st" "still_fine st1 = still_fine st"
    using arg_cong[OF assms, of ps_state] arg_cong[OF assms, of ps_os] by (simp_all add: still_fine_def)
qed

text \<open>A call that ends with \<open>rc\<close> in the state \<open>st'\<close> has done what the loop does on the bytes.\<close>

fun agrees :: "bytes \<Rightarrow> loop_end \<Rightarrow> stream_rc \<Rightarrow> part_processor_state \<Rightarrow> bool" where
  "agrees work (Completed st) rc st' \<longleftrightarrow> rc = STREAM_PROC_SUCCESS \<and> bare st' = bare st \<and> ps_frame_buffer st' = []"
| "agrees work (Buffered off st) rc st' \<longleftrightarrow>
     rc = STREAM_PROC_SUCCESS \<and> bare st' = bare st \<and> ps_frame_buffer st' = drop off work"
| "agrees work (Returned rc0 st) rc st' \<longleftrightarrow> rc = rc0 \<and> rc \<noteq> STREAM_PROC_SUCCESS \<and> bare st' = bare st"
| "agrees work Crashed rc st' \<longleftrightarrow> False"

lemma agrees_rebuffer: "agrees work (rebuffer_end b c r) rc st' = agrees work r rc st'"
  by (cases r) simp_all

lemma agrees_shift: "agrees (xs @ ys) (shift_end (length xs) r) rc st' = agrees ys r rc st'"
  by (cases r) simp_all

lemma agrees_same:
  assumes "agrees work r rc1 st1" and "agrees work r rc2 st2"
  shows "rc1 = rc2 \<and> bare st1 = bare st2 \<and>
    (rc1 = STREAM_PROC_SUCCESS \<longrightarrow> ps_frame_buffer st1 = ps_frame_buffer st2)"
  using assms by (cases r) simp_all

lemma agrees_inv:
  assumes "safe_end fds0 r" and "agrees work r rc st'"
  shows "processor_inv fds0 st'"
proof (cases r)
  case (Completed s)
  then show ?thesis using assms bare_fields(4)[of st' s] by simp
next
  case (Buffered off s)
  then show ?thesis using assms bare_fields(4)[of st' s] by simp
next
  case (Returned rc0 s)
  then show ?thesis using assms bare_fields(4)[of st' s] by simp
qed (use assms in simp)

text \<open>Bytes are kept for later only where the next step needs more.\<close>

definition waiting :: "zstd_reader \<Rightarrow> part_processor_state \<Rightarrow> bool" where
  "waiting zr st \<longleftrightarrow>
     ps_frame_buffer st \<noteq> [] \<longrightarrow> process_step zr (ps_frame_buffer st) 0 st = Need_more st"

lemma run_loop_agrees:
  assumes loop: "process_loop zr work 0 st = Some r" and fine: "still_fine st" and safe: "safe_end fds0 r"
    and buf: "\<not> u \<Longrightarrow> ps_frame_buffer st = []"
  shows "\<exists>rc st'. run_loop zr u work st = Some (Done rc st') \<and> agrees work r rc st'"
proof (cases r)
  case (Completed st1)
  moreover have "ps_frame_buffer st1 = []" if "\<not> u"
    using process_loop_keeps_buffer[OF loop] Completed buf[OF that]
    by (metis loop_end.inject(1) rebuffer_end.simps(1) with_buffer_fields(11))
  ultimately show ?thesis using loop by (auto simp: run_loop_def with_buffer_def)
next
  case (Buffered off st1)
  then have "granted (ps_os st1)" using process_loop_still_fine[OF loop fine] by (simp add: still_fine_def)
  with Buffered show ?thesis using loop
    by (auto simp: run_loop_def buffer_remaining_def Let_def with_buffer_def)
qed (use loop safe in \<open>auto simp: run_loop_def\<close>)

lemma with_buffer_grown:
  "st\<lparr>ps_frame_buffer_capacity := c, ps_frame_buffer := b\<rparr> = with_buffer b c st"
  "st\<lparr>ps_frame_buffer := b\<rparr> = with_buffer b (ps_frame_buffer_capacity st) st"
  by (cases st, simp add: with_buffer_def)+

lemma append_to_buffer_granted:
  assumes "granted (ps_os st)"
  shows "\<exists>cap. append_to_buffer p st = (True, with_buffer (ps_frame_buffer st @ p) cap st)"
proof (cases "ps_frame_buffer_capacity st < length (ps_frame_buffer st) + length p")
  case True
  then show ?thesis using assms unfolding append_to_buffer_def Let_def by (auto simp: with_buffer_grown(1))
next
  case False
  then show ?thesis unfolding append_to_buffer_def Let_def by (auto simp: with_buffer_grown(2))
qed

lemma process_data_agrees:
  assumes loop: "process_loop zr (ps_frame_buffer st @ p) 0 st = Some r" and fine: "still_fine st"
    and safe: "safe_end fds0 r" and idle: "ps_state st = STATE_DONE \<Longrightarrow> ps_frame_buffer st = []"
  shows "\<exists>rc st'. part_processor_process_data zr p st = Some (Done rc st') \<and>
    agrees (ps_frame_buffer st @ p) r rc st'"
proof (cases "ps_frame_buffer st = []")
  case True
  have "process_loop zr p 0 st = Some (Completed st)" if "ps_state st = STATE_DONE"
    using that by (auto simp: process_loop.simps[of zr p 0] process_loop.simps[of zr p "length p"] process_step_def)
  then have "part_processor_process_data zr p st = run_loop zr False p st"
    using True fine by (auto simp: part_processor_process_data_def run_loop_def still_fine_def)
  then show ?thesis using run_loop_agrees[OF _ fine safe, of zr p False] loop True by auto
next
  case False
  have "granted (ps_os st)" using fine by (simp add: still_fine_def)
  then have "\<exists>cap. append_to_buffer p st = (True, with_buffer (ps_frame_buffer st @ p) cap st)"
    using append_to_buffer_granted by blast
  then obtain cap where app: "append_to_buffer p st = (True, with_buffer (ps_frame_buffer st @ p) cap st)"
    by blast
  let ?st = "with_buffer (ps_frame_buffer st @ p) cap st"
  have "part_processor_process_data zr p st = run_loop zr True (ps_frame_buffer st @ p) ?st"
    using False fine idle app by (auto simp: part_processor_process_data_def still_fine_def)
  moreover have "safe_end fds0 (rebuffer_end (ps_frame_buffer st @ p) cap r)"
    using safe by (cases r) (simp_all add: with_buffer_def)
  then have "\<exists>rc st'. run_loop zr True (ps_frame_buffer st @ p) ?st = Some (Done rc st') \<and>
      agrees (ps_frame_buffer st @ p) (rebuffer_end (ps_frame_buffer st @ p) cap r) rc st'"
    using process_loop_buffer[OF loop] fine by (intro run_loop_agrees) simp_all
  ultimately show ?thesis by (simp add: agrees_rebuffer)
qed


section \<open>All pieces\<close>

fun process_pieces :: "zstd_reader \<Rightarrow> bytes list \<Rightarrow> part_processor_state \<Rightarrow> run option" where
  "process_pieces zr [] st = Some (Done STREAM_PROC_SUCCESS st)"
| "process_pieces zr (p # ps) st =
     (case part_processor_process_data zr p st of
        Some (Done rc st1) \<Rightarrow>
          if rc = STREAM_PROC_SUCCESS then process_pieces zr ps st1 else Some (Done rc st1)
      | r \<Rightarrow> r)"

text \<open>Where the pieces are cut, if they begin at \<open>n\<close>.\<close>

fun cuts :: "nat \<Rightarrow> bytes list \<Rightarrow> nat list" where
  "cuts n [] = []"
| "cuts n [p] = []"
| "cuts n (p # q # ps) = (n + length p) # cuts (n + length p) (q # ps)"

lemma cuts_shift: "cuts (m + n) ps = map ((+) m) (cuts n ps)"
  by (induction n ps rule: cuts.induct) (simp_all add: add.assoc)

lemma reaches_shift:
  "reaches zr ys off st off' st' \<Longrightarrow> reaches zr (xs @ ys) (length xs + off) st (length xs + off') st'"
  by (induction rule: reaches.induct) (auto intro: reaches.intros simp: process_step_shift)

lemma at_descriptor_shift: "at_descriptor zr (xs @ ys) (length xs + off) st = at_descriptor zr ys off st"
  by (simp add: at_descriptor_def)

lemma uncut_shift:
  assumes "uncut zr (xs @ ys) (length xs + off) st (length xs + c)"
  shows "uncut zr ys off st c"
  unfolding uncut_def
proof (intro allI impI)
  fix off' st'
  assume r: "reaches zr ys off st off' st'" and d: "at_descriptor zr ys off' st'"
  from assms[unfolded uncut_def, rule_format, OF reaches_shift[OF r]] d
  show "c < off' + 4 \<or> off' + descriptor_size st' \<le> c" by (simp add: at_descriptor_shift)
qed

lemma reaches_buffer:
  "reaches zr work off st off' st' \<Longrightarrow> reaches zr work off (with_buffer b c st) off' (with_buffer b c st')"
  by (induction rule: reaches.induct) (auto intro: reaches.intros simp: process_step_buffer)

lemma at_descriptor_buffer: "at_descriptor zr work off (with_buffer b c st) = at_descriptor zr work off st"
  by (simp add: at_descriptor_def)

lemma descriptor_size_buffer: "descriptor_size (with_buffer b c st) = descriptor_size st"
  by (simp add: descriptor_size_def)

lemma uncut_buffer:
  assumes "uncut zr work off st k" and "bare st1 = bare st"
  shows "uncut zr work off st1 k"
  unfolding uncut_def
proof (intro allI impI)
  fix off' st'
  let ?orig = "with_buffer (ps_frame_buffer st) (ps_frame_buffer_capacity st)"
  assume "reaches zr work off st1 off' st'" and d: "at_descriptor zr work off' st'"
  from reaches_buffer[OF this(1), of "ps_frame_buffer st" "ps_frame_buffer_capacity st"]
  have "reaches zr work off st off' (?orig st')" using bare_eq[OF assms(2)[symmetric]] by simp
  then have "k < off' + 4 \<or> off' + descriptor_size (?orig st') \<le> k"
    using assms(1) d unfolding uncut_def by (meson at_descriptor_buffer)
  then show "k < off' + 4 \<or> off' + descriptor_size st' \<le> k" by (simp only: descriptor_size_buffer)
qed

lemma no_wrapped_drop: "no_wrapped_frames work \<Longrightarrow> no_wrapped_frames (drop k work)"
  by (simp add: no_wrapped_frames_def)

lemma no_wrapped_take: "no_wrapped_frames (xs @ ys) \<Longrightarrow> no_wrapped_frames xs"
  unfolding no_wrapped_frames_def
proof (intro allI impI)
  fix i
  assume "\<forall>i < length (xs @ ys). \<not> wrapped_frame (drop i (xs @ ys))" and i: "i < length xs"
  then have "\<not> wrapped_frame (drop i xs @ ys)" by (metis append_take_drop_id drop_append length_append
      less_imp_le_nat trans_less_add1 diff_is_0_eq drop_0)
  then show "\<not> wrapped_frame (drop i xs)" using i by (auto simp: wrapped_frame_iff)
qed


text \<open>What a call that succeeds leaves: the position the loop has come to, with the bytes from there on
  in the buffer.\<close>

lemma process_data_leads:
  assumes a: "a = ps_frame_buffer st @ p"
    and loop: "process_loop zr a 0 st = Some r" and fine: "still_fine st" and inv: "processor_inv fds0 st"
    and call: "part_processor_process_data zr p st = Some (Done STREAM_PROC_SUCCESS st1)"
    and agr: "agrees a r STREAM_PROC_SUCCESS st1"
    and zr: "zstd_stable zr" and nw: "no_wrapped_frames a" and cut: "uncut zr (a @ b) 0 st (length a)"
  obtains off s where "off \<le> length a" and "leads zr (a @ b) 0 st off s" and "bare st1 = bare s"
    and "ps_frame_buffer st1 = drop off a" and "still_fine st1" and "processor_inv fds0 st1"
    and "waiting zr st1" and "ps_state st1 = STATE_DONE \<Longrightarrow> ps_frame_buffer st1 = []"
proof -
  note leads = process_loop_leads[OF loop _ cut zr nw inv]
  note still = process_loop_still_fine[OF loop fine]
  note safe = process_loop_safe[OF loop nw inv]
  show thesis
  proof (cases r)
    case (Completed s)
    then have b: "bare st1 = bare s" "ps_frame_buffer st1 = []" using agr by simp_all
    show thesis
      using leads still safe Completed b bare_fields[OF b(1)]
      by (intro that[of "length a" s]) (simp_all add: waiting_def)
  next
    case (Buffered off s)
    then have b: "bare st1 = bare s" "ps_frame_buffer st1 = drop off a" using agr by simp_all
    have "process_step zr (drop off a) 0 s = Need_more s"
      using process_step_shift[of zr "take off a" "drop off a" 0 s] still Buffered
      by (cases "process_step zr (drop off a) 0 s") auto
    then have "process_step zr (drop off a) 0 st1 = Need_more st1"
      using bare_eq[OF b(1)] process_step_buffer[of zr "drop off a" 0 "ps_frame_buffer st1"
        "ps_frame_buffer_capacity st1" s] by simp
    then have w: "waiting zr st1" by (simp add: waiting_def b(2))
    have "ps_state s \<noteq> STATE_DONE" using still Buffered by (auto simp: process_step_def)
    then show thesis
      using leads still safe Buffered b bare_fields[OF b(1)] w
      by (intro that[of off s]) simp_all
  qed (use agr in auto)
qed

lemma process_pieces_agrees:
  assumes "process_loop zr (ps_frame_buffer st @ concat pieces) 0 st = Some r"
    and "still_fine st" and "processor_inv fds0 st" and "waiting zr st"
    and "ps_state st = STATE_DONE \<Longrightarrow> ps_frame_buffer st = []"
    and "zstd_stable zr" and "zstd_sizes_ok zr" and "no_wrapped_frames (ps_frame_buffer st @ concat pieces)"
    and "\<forall>c \<in> set (cuts (length (ps_frame_buffer st)) pieces).
        uncut zr (ps_frame_buffer st @ concat pieces) 0 st c"
  shows "\<exists>rc st'. process_pieces zr pieces st = Some (Done rc st') \<and>
    agrees (ps_frame_buffer st @ concat pieces) r rc st'"
  using assms
proof (induction pieces arbitrary: st r)
  case Nil
  show ?case
  proof (cases "ps_frame_buffer st = []")
    case True
    then show ?thesis using Nil.prems(1) by (auto simp: process_loop.simps)
  next
    case False
    then show ?thesis using Nil.prems(1,4)
      by (auto simp: waiting_def process_loop.simps[of zr "ps_frame_buffer st"])
  qed
next
  case (Cons p ps)
  define a where "a = ps_frame_buffer st @ p"
  define b where "b = concat ps"
  have W: "ps_frame_buffer st @ concat (p # ps) = a @ b" by (simp add: a_def b_def)
  note prems = Cons.prems[unfolded W]
  have nw: "no_wrapped_frames a" using prems(8) by (rule no_wrapped_take)
  obtain ra where ra: "process_loop zr a 0 st = Some ra"
    using process_loop_returns[OF nw prems(7)] by blast
  have safe: "safe_end fds0 ra" using process_loop_safe[OF ra nw prems(3)] .
  obtain rc st1 where call: "part_processor_process_data zr p st = Some (Done rc st1)"
    and agr: "agrees a ra rc st1"
    using process_data_agrees[of zr st p ra fds0] ra prems(2,5) safe unfolding a_def by blast
  show ?case
  proof (cases "ps = []")
    case True
    then show ?thesis using call agr ra prems(1) by (auto simp: b_def a_def)
  next
    case False
    then have cutlist: "cuts (length (ps_frame_buffer st)) (p # ps) = length a # cuts (length a) ps"
      by (cases ps) (simp_all add: a_def)
    then have cut: "uncut zr (a @ b) 0 st (length a)" using prems(9) by simp
    show ?thesis
    proof (cases "rc = STREAM_PROC_SUCCESS")
      case False
      then obtain s where "ra = Returned rc s" "bare st1 = bare s" using agr by (cases ra) auto
      moreover from this have "r = Returned rc s"
        using process_loop_leads[OF ra _ cut prems(6) nw prems(3)] prems(1) by simp
      ultimately show ?thesis using call False by (auto simp: W)
    next
      case True
      note agr = agr[unfolded True] and call = call[unfolded True]
      obtain off s where off: "off \<le> length a" and leads: "leads zr (a @ b) 0 st off s"
        and bare: "bare st1 = bare s" and buf: "ps_frame_buffer st1 = drop off a"
        and st1: "still_fine st1" "processor_inv fds0 st1" "waiting zr st1"
          "ps_state st1 = STATE_DONE \<Longrightarrow> ps_frame_buffer st1 = []"
        using process_data_leads[OF a_def ra prems(2,3) call agr prems(6) nw cut] by blast
      define w where "w = drop off a @ b"
      have split: "a @ b = take off a @ w" and len: "length (take off a) = off" using off by (simp_all add: w_def)
      have nww: "no_wrapped_frames w" using no_wrapped_drop[OF prems(8), of off] off by (simp add: w_def)
      obtain r0 where r0: "process_loop zr w 0 s = Some r0"
        using process_loop_returns[OF nww prems(7)] by blast
      have "process_loop zr (a @ b) off s = Some (shift_end off r0)"
        using process_loop_shift[OF r0, of "take off a"] by (simp only: len add_0_right flip: split)
      then have r: "r = shift_end off r0" using leads prems(1) by (simp add: leads_def)
      have loop1: "process_loop zr w 0 st1 =
          Some (rebuffer_end (ps_frame_buffer st1) (ps_frame_buffer_capacity st1) r0)"
        using process_loop_buffer[OF r0] bare_eq[OF bare] by metis
      have "uncut zr w 0 st1 c" if c: "c \<in> set (cuts (length a - off) ps)" for c
      proof -
        have "off + c \<in> set (cuts (length a) ps)"
          using c cuts_shift[of off "length a - off" ps] off by (auto simp: image_iff)
        then have "uncut zr (a @ b) off s (off + c)" using prems(9) cutlist leads by (simp add: leads_def)
        then have "uncut zr w 0 s c"
          using uncut_shift[of zr "take off a" w 0 s c] by (simp only: len add_0_right split)
        then show ?thesis using bare by (rule uncut_buffer)
      qed
      with Cons.IH[of st1] loop1 st1 prems(6,7) nww
      have "\<exists>rc st'. process_pieces zr ps st1 = Some (Done rc st') \<and> agrees w r0 rc st'"
        by (simp add: agrees_rebuffer w_def b_def buf)
      moreover have "agrees (take off a @ w) (shift_end off r0) rc st' = agrees w r0 rc st'" for rc st'
        using agrees_shift[of "take off a" w r0] by (simp only: len)
      ultimately show ?thesis using call unfolding W split r by auto
    qed
  qed
qed


lemma stream_pieces_process:
  assumes "process_pieces zr pieces (sp_processor ctx) = Some (Done rc st)"
  shows "stream_pieces zr pieces ctx = Some (Ok (if rc = STREAM_PROC_SUCCESS then ctx\<lparr>sp_processor := st\<rparr>
    else ctx\<lparr>sp_processor := st, sp_error_code := Stream_error rc\<rparr>))"
  using assms
proof (induction pieces arbitrary: ctx)
  case (Cons p ps)
  then obtain rc1 st1 where call: "part_processor_process_data zr p (sp_processor ctx) = Some (Done rc1 st1)"
    by (auto split: option.splits run.splits)
  with Cons.prems Cons.IH[of "ctx\<lparr>sp_processor := st1\<rparr>"] show ?case
    by (auto simp: s3_stream_body_callback_def split: if_splits)
qed simp

lemma finalize_bare:
  assumes "bare st1 = bare st" and "ps_frame_buffer st1 = ps_frame_buffer st" and "processor_inv fds0 st"
  obtains rc s1 s where "part_processor_finalize st1 = Done rc s1" and "part_processor_finalize st = Done rc s"
    and "bare s1 = bare s"
proof -
  obtain rc s where close: "close_output_file st = Some (rc, s)" and h: "handled fds0 st rc s"
    using safe_close[OF assms(3)] by (auto simp: safe_handler_def)
  let ?wb = "with_buffer (ps_frame_buffer st1) (ps_frame_buffer_capacity st1)"
  have "close_output_file st1 = Some (rc, ?wb s)"
    using close_output_file_buffer[of "ps_frame_buffer st1" "ps_frame_buffer_capacity st1" st] close bare_eq[OF assms(1)]
    by simp
  moreover have "ps_frame_buffer (?wb s) = ps_frame_buffer s"
    using h assms(2) by (simp add: handled_def)
  moreover have "rc = STREAM_PROC_SUCCESS" using close by (rule close_output_file_rc)
  ultimately have ends:
    "part_processor_finalize st1 = (if ps_frame_buffer s \<noteq> [] then run_of (fail STREAM_PROC_ERR_UNEXPECTED_EOF (?wb s))
       else Done STREAM_PROC_SUCCESS ((?wb s)\<lparr>ps_state := STATE_DONE\<rparr>))"
    "part_processor_finalize st = (if ps_frame_buffer s \<noteq> [] then run_of (fail STREAM_PROC_ERR_UNEXPECTED_EOF s)
       else Done STREAM_PROC_SUCCESS (s\<lparr>ps_state := STATE_DONE\<rparr>))"
    using close by (simp_all add: part_processor_finalize_def proceed_def run_of_def)
  show thesis
  proof (cases "ps_frame_buffer s = []")
    case True
    with ends have "part_processor_finalize st1 = Done STREAM_PROC_SUCCESS ((?wb s)\<lparr>ps_state := STATE_DONE\<rparr>)"
      "part_processor_finalize st = Done STREAM_PROC_SUCCESS (s\<lparr>ps_state := STATE_DONE\<rparr>)" by simp_all
    then show thesis by (rule that) (simp add: with_buffer_update)
  next
    case False
    with ends have
      "part_processor_finalize st1 = Done STREAM_PROC_ERR_UNEXPECTED_EOF
         ((?wb s)\<lparr>ps_state := STATE_ERROR, ps_error_code := STREAM_PROC_ERR_UNEXPECTED_EOF\<rparr>)"
      "part_processor_finalize st = Done STREAM_PROC_ERR_UNEXPECTED_EOF
         (s\<lparr>ps_state := STATE_ERROR, ps_error_code := STREAM_PROC_ERR_UNEXPECTED_EOF\<rparr>)"
      by (simp_all add: run_of_def fail_def)
    then show thesis by (rule that) (simp add: with_buffer_update)
  qed
qed

lemma stream_finish_bare:
  assumes "bare (sp_processor c1) = bare (sp_processor c)" and "sp_error_code c1 = sp_error_code c"
    and "sp_error_code c = No_error \<Longrightarrow> ps_frame_buffer (sp_processor c1) = ps_frame_buffer (sp_processor c)"
    and "processor_inv fds0 (sp_processor c)"
  shows "\<exists>d1 d. s3_stream_finish code c1 = Ok d1 \<and> s3_stream_finish code c = Ok d \<and>
    sp_error_code d1 = sp_error_code d \<and> bare (sp_processor d1) = bare (sp_processor d)"
proof (cases "code = 0 \<and> sp_error_code c = No_error")
  case True
  obtain rc s1 s where "part_processor_finalize (sp_processor c1) = Done rc s1"
    "part_processor_finalize (sp_processor c) = Done rc s" "bare s1 = bare s"
    using finalize_bare[OF assms(1) assms(3)[OF True[THEN conjunct2]] assms(4)] by blast
  then show ?thesis using True assms(2) by (simp add: s3_stream_finish_def Let_def)
next
  case False
  then show ?thesis using assms(1,2) by (auto simp: s3_stream_finish_def Let_def)
qed

section \<open>The pieces of a part do not matter\<close>

text \<open>The same answer, with the body in one piece.\<close>

definition in_one_piece :: "s3_answer \<Rightarrow> s3_answer" where
  "in_one_piece ans = ans\<lparr>an_pieces := [(True, concat (map snd (an_pieces ans)))]\<rparr>"

text \<open>C8: streaming is equivalent to processing the part at once. However the S3 client cuts the body of a
  part, all callbacks of its request together end with the same error code, the same state of the processor, and
  the same files, descriptors and remaining answers of the operating system as if the body had come in
  one piece. Calls to the operating system may fail at any point; what is required is that the
  frame buffer can grow, that no skippable frame has an overflowing size, and that no cut lies
  inside a data descriptor behind its magic number (the one item the code consumes without
  looking whether it is complete).\<close>

theorem pieces_do_not_matter:
  assumes "processor_inv fds0 (sp_processor ctx)" and "ps_state (sp_processor ctx) \<noteq> STATE_ERROR"
    and "ps_frame_buffer (sp_processor ctx) = []" and "os_allocs (ps_os (sp_processor ctx)) = []"
    and "zstd_stable zr" and "zstd_sizes_ok zr" and "no_wrapped_frames (concat (map snd (an_pieces ans)))"
    and "\<forall>c \<in> set (cuts 0 (map snd (an_pieces ans))).
      uncut zr (concat (map snd (an_pieces ans))) 0 (sp_processor ctx) c"
  shows "\<exists>c1 c2. stream_answer zr ans ctx = Some (Ok c1) \<and> stream_answer zr (in_one_piece ans) ctx = Some (Ok c2) \<and>
    sp_error_code c1 = sp_error_code c2 \<and> bare (sp_processor c1) = bare (sp_processor c2) \<and>
    ps_os (sp_processor c1) = ps_os (sp_processor c2)"
proof -
  define ctx1 where "ctx1 = s3_stream_headers_callback (an_status ans) ctx"
  have p: "sp_processor ctx1 = sp_processor ctx" by (simp add: ctx1_def s3_stream_headers_callback_def)
  let ?work = "concat (map snd (an_pieces ans))"
  have fine: "still_fine (sp_processor ctx)" using assms(2,4) by (simp add: still_fine_def granted_def)
  obtain r where r: "process_loop zr ?work 0 (sp_processor ctx) = Some r"
    using process_loop_returns[OF assms(7,6)] by blast
  have run: "\<exists>rc st. process_pieces zr ps (sp_processor ctx) = Some (Done rc st) \<and> agrees ?work r rc st"
    if "concat ps = ?work" "\<forall>c \<in> set (cuts 0 ps). uncut zr ?work 0 (sp_processor ctx) c" for ps
    using process_pieces_agrees[of zr "sp_processor ctx" ps r fds0] that r fine assms(1,3,5-7)
    by (simp add: waiting_def)
  obtain rc1 st1 where 1: "process_pieces zr (map snd (an_pieces ans)) (sp_processor ctx) = Some (Done rc1 st1)"
    "agrees ?work r rc1 st1" using run assms(8) by blast
  obtain rc2 st2 where 2: "process_pieces zr [?work] (sp_processor ctx) = Some (Done rc2 st2)"
    "agrees ?work r rc2 st2" using run[of "[?work]"] by auto
  have same: "rc1 = rc2" "bare st1 = bare st2" "rc1 = STREAM_PROC_SUCCESS \<Longrightarrow> ps_frame_buffer st1 = ps_frame_buffer st2"
    using agrees_same[OF 1(2) 2(2)] by blast+
  have "processor_inv fds0 st2"
    using process_loop_safe[OF r assms(7,1)] 2(2) by (rule agrees_inv)
  define c where "c = (\<lambda>st. if rc1 = STREAM_PROC_SUCCESS then ctx1\<lparr>sp_processor := st\<rparr>
      else ctx1\<lparr>sp_processor := st, sp_error_code := Stream_error rc1\<rparr>)"
  have "\<exists>d1 d. s3_stream_finish (an_error ans) (c st1) = Ok d1 \<and> s3_stream_finish (an_error ans) (c st2) = Ok d \<and>
      sp_error_code d1 = sp_error_code d \<and> bare (sp_processor d1) = bare (sp_processor d)"
    using same \<open>processor_inv fds0 st2\<close>
    by (intro stream_finish_bare[of "c st1" "c st2" fds0]) (simp_all add: c_def split: if_splits)
  then obtain d1 d where d: "s3_stream_finish (an_error ans) (c st1) = Ok d1"
    "s3_stream_finish (an_error ans) (c st2) = Ok d"
    "sp_error_code d1 = sp_error_code d" "bare (sp_processor d1) = bare (sp_processor d)" by blast
  have "stream_pieces zr (map snd (an_pieces ans)) ctx1 = Some (Ok (c st1))"
    using stream_pieces_process[of zr _ ctx1] 1(1) by (simp add: p c_def)
  moreover have "stream_pieces zr [?work] ctx1 = Some (Ok (c st2))"
    using stream_pieces_process[of zr "[?work]" ctx1] 2(1) same(1) by (simp only: p c_def)
  ultimately have "stream_answer zr ans ctx = Some (Ok d1)" "stream_answer zr (in_one_piece ans) ctx = Some (Ok d)"
    using d(1,2) by (simp_all add: stream_answer_def in_one_piece_def flip: ctx1_def)
  then show ?thesis using d(3,4) bare_fields(2)[OF d(4)] by blast
qed


lemma reaches_Next:
  "process_step zr work off st = Next off1 st1 \<Longrightarrow> off < length work \<Longrightarrow>
   reaches zr work off st off' st' \<longleftrightarrow> off' = off \<and> st' = st \<or> reaches zr work off1 st1 off' st'"
  by (subst reaches.simps) auto

lemma reaches_end: "\<not> off < length work \<Longrightarrow> reaches zr work off st off' st' \<longleftrightarrow> off' = off \<and> st' = st"
  by (subst reaches.simps) auto

lemma stored_stable: "zstd_stable stored_zstd"
  by (auto simp: zstd_stable_def stored_zstd_def split: if_splits)

text \<open>The central directory arrives where a header could stand, cut inside its magic number.\<close>

definition demo_answer :: s3_answer where
  "demo_answer =
     \<lparr>an_created = True, an_status = 206, an_content_length = None, an_content_range = None,
      an_pieces = [(True, [0x50, 0x4B]), (True, []), (True, [0x01, 0x02, 7]), (True, [8])],
      an_error = 0, an_in_time = True\<rparr>"

theorem pieces_do_not_matter_witness:
  "\<exists>c1 c2. stream_answer stored_zstd demo_answer (stream_part_context_new (demo_part (demo_meta [97] 3 False)) 0)
       = Some (Ok c1) \<and>
     stream_answer stored_zstd (in_one_piece demo_answer)
       (stream_part_context_new (demo_part (demo_meta [97] 3 False)) 0) = Some (Ok c2) \<and>
     sp_error_code c1 = sp_error_code c2 \<and> bare (sp_processor c1) = bare (sp_processor c2) \<and>
     ps_os (sp_processor c1) = ps_os (sp_processor c2)"
proof -
  let ?st = "demo_part (demo_meta [97] 3 False)"
  let ?d = "[0x50, 0x4B, 0x01, 0x02, 7, 8] :: bytes"
  have data: "concat (map snd (an_pieces demo_answer)) = ?d" by (simp add: demo_answer_def)
  have inv: "processor_inv (\<lambda>_. None) ?st" by (rule demo_part_inv) (simp add: demo_meta_def)
  have nw: "no_wrapped_frames ?d" by (auto simp: no_wrapped_frames_def wrapped_frame_iff)
  have "le_word [0x50, 0x4B, 0x01, 0x02] = (0x02014B50 :: u32)" by code_simp
  then have parse: "parse_next_frame stored_zstd ?d = Ok (frame_info_of FRAME_ZIP_CENTRAL_DIRECTORY 0)"
    by (simp add: parse_frame_defs read_int_cases)
  let ?st1 = "?st\<lparr>ps_state := STATE_EXPECT_LOCAL_HEADER\<rparr>" and ?st2 = "?st\<lparr>ps_state := STATE_DONE\<rparr>"
  have step1: "process_step stored_zstd ?d 0 ?st = Next 0 ?st1"
    by (simp add: process_step_def step_init_def demo_part_def demo_cd_def)
  have step2: "process_step stored_zstd ?d 0 ?st1 = Next 0 ?st2"
    using parse by (simp add: process_step_def step_expect_header_def with_frame_def frame_info_of_def
        demo_part_def demo_cd_def)
  have step3: "process_step stored_zstd ?d 0 ?st2 = Next 6 ?st2" by (simp add: process_step_def)
  have "ps_state s \<noteq> STATE_PROCESSING_FRAMES" if "reaches stored_zstd ?d 0 ?st off s" for off s
    using that by (auto simp: reaches_Next[OF step1] reaches_Next[OF step2] reaches_Next[OF step3] reaches_end)
      (simp add: demo_part_def)
  then have "\<forall>c \<in> set (cuts 0 (map snd (an_pieces demo_answer))). uncut stored_zstd ?d 0 ?st c"
    by (auto simp: uncut_def at_descriptor_def)
  then show ?thesis
    using pieces_do_not_matter[of "\<lambda>_. None" "stream_part_context_new ?st 0" stored_zstd demo_answer]
      inv stored_stable stored_sizes_ok nw
    unfolding data by (simp add: stream_part_context_new_def demo_part_def demo_os_def)
qed

end
