(* ===== verification/Untrusted_Input.thy ===== *)
theory Untrusted_Input
  imports Chunked_Stream Parser_Safety
begin

text \<open>
  The downloader on arbitrary input. What the parser returns for any bytes is well-formed: it refers
  to files and parts that exist. The part processors that are created from it satisfy their
  invariant, so that a part can be streamed from an untrusted server without an access outside an
  object, whatever the operating system answers.
\<close>

section \<open>Directories\<close>

text \<open>The part index of a file has 32 bits: it is the part its header lies in, unless the offset is not below
  \<open>2^32\<close> parts.\<close>

definition header_placed :: "u64 \<Rightarrow> file_metadata \<Rightarrow> bool" where
  "header_placed part_len f \<longleftrightarrow>
     (let off = unat (fm_local_header_offset f); n = unat part_len; p = unat (fm_part_index f)
      in p = off div n mod 2 ^ 32 \<and> (off < 2 ^ 32 * n \<longrightarrow> p * n \<le> off \<and> off < (p + 1) * n))"

lemma placed_header:
  assumes "fm_part_index f = ucast (fm_local_header_offset f div part_len)"
  shows "header_placed part_len f"
proof -
  let ?off = "unat (fm_local_header_offset f)" and ?n = "unat part_len" and ?p = "unat (fm_part_index f)"
  have p: "?p = ?off div ?n mod 2 ^ 32"
    using assms by (simp add: unsigned_ucast_eq unat_div take_bit_eq_mod)
  have "?p * ?n \<le> ?off \<and> ?off < (?p + 1) * ?n" if "?off < 2 ^ 32 * ?n"
  proof -
    have n: "0 < ?n" using that by (cases "?n = 0") simp_all
    have "?off div ?n < 2 ^ 32" using that by (simp add: less_mult_imp_div_less)
    then have "?p = ?off div ?n" using p by simp
    then show ?thesis using n dividend_less_div_times[OF n, of ?off] by simp
  qed
  then show ?thesis using p unfolding header_placed_def Let_def by blast
qed

text \<open>The result of a parse: the number of parts that the code computes from the length of the archive, files with
  part indices, and parts that list exactly the files with their index, once and in order; a part is continued by a
  file that starts before it.\<close>

definition part_typed :: "u64 \<Rightarrow> file_metadata list \<Rightarrow> nat \<Rightarrow> part_files \<Rightarrow> bool" where
  "part_typed part_len fs p pt \<longleftrightarrow>
     (\<forall>e \<in> set (pf_entries pt).
        pe_file_index e < length fs \<and> unat (fm_part_index (fs ! pe_file_index e)) = p \<and>
        pe_offset_in_part e = fm_local_header_offset (fs ! pe_file_index e) mod part_len) \<and>
     (\<forall>i < length fs. unat (fm_part_index (fs ! i)) = p \<longrightarrow> i \<in> pe_file_index ` set (pf_entries pt)) \<and>
     distinct (map pe_file_index (pf_entries pt)) \<and> sorted (map pe_offset_in_part (pf_entries pt)) \<and>
     (\<forall>i. pf_continuing_file pt = Some i \<longrightarrow>
        0 < p \<and> i < length fs \<and> fm_local_header_offset (fs ! i) < of_nat p * part_len)"

definition directory_typed :: "u64 \<Rightarrow> u64 \<Rightarrow> central_dir_parse_result \<Rightarrow> bool" where
  "directory_typed archive_len part_len cd \<longleftrightarrow>
     length (cp_parts cd) = number_of_parts archive_len part_len \<and>
     (\<forall>f \<in> set (cp_files cd). header_placed part_len f) \<and>
     (\<forall>p < length (cp_parts cd). part_typed part_len (cp_files cd) p (cp_parts cd ! p))"

lemma entry_metadata_part_index:
  "entry_metadata header name extra part_len = Ok m \<Longrightarrow>
   fm_part_index m = ucast (fm_local_header_offset m div part_len)"
  by (auto simp: entry_metadata_def Let_def split: if_splits)

lemma parse_entries_part_indices:
  "parse_entries n al buffer ptr cd_end part_len acc = Ok fs \<Longrightarrow> part_indices_ok part_len acc \<Longrightarrow>
   part_indices_ok part_len fs"
proof (induction n arbitrary: al ptr acc)
  case (Suc n)
  have ext: "part_indices_ok part_len (acc @ [m])" if "entry_metadata header name extra part_len = Ok m"
    for header name extra m
    using Suc.prems(2) entry_metadata_part_index[OF that] by (simp add: part_indices_ok_def)
  from Suc.prems(1) have "fs = acc \<or> (\<exists>header name extra m al' ptr'.
      entry_metadata header name extra part_len = Ok m \<and>
      parse_entries n al' buffer ptr' cd_end part_len (acc @ [m]) = Ok fs)"
    by (simp add: Let_def del: One_nat_def split: if_splits) blast+
  then show ?case using Suc.IH Suc.prems(2) ext by blast
qed simp

lemma build_part_map_typed:
  assumes "qsort_ok qs" and "build_part_map qs al fs archive_len part_len = Ok ps" and "p < length ps"
  shows "part_typed part_len fs p (ps ! p)"
proof -
  have ps: "ps ! p = \<lparr>pf_entries = sort_entries qs (entries_of part_len 0 fs p),
           pf_continuing_file = continuing_file_of fs part_len p\<rparr>"
    using build_part_map_Ok(3)[OF assms(2,3)] .
  note srt = sort_entries_props[OF assms(1), of "entries_of part_len 0 fs p"]
  have "mset (map pe_file_index (pf_entries (ps ! p))) = mset (map pe_file_index (entries_of part_len 0 fs p))"
    using srt(1) ps by simp
  then have "distinct (map pe_file_index (pf_entries (ps ! p)))"
    using entries_of_distinct mset_eq_imp_distinct_iff by blast
  moreover have "i \<in> pe_file_index ` set (entries_of part_len 0 fs p)"
    if "i < length fs" "unat (fm_part_index (fs ! i)) = p" for i
  proof -
    let ?e = "\<lparr>pe_file_index = i, pe_offset_in_part = fm_local_header_offset (fs ! i) mod part_len\<rparr>"
    have "?e \<in> set (entries_of part_len 0 fs p)" unfolding entries_of_set using that by simp
    then show ?thesis by (rule rev_image_eqI) simp
  qed
  moreover have "set (pf_entries (ps ! p)) = set (entries_of part_len 0 fs p)"
    using mset_eq_setD[OF srt(1)] ps by simp
  ultimately show ?thesis
    using srt(2) ps entries_of_set[of _ part_len fs p]
    by (auto simp: part_typed_def continuing_file_of_def find_spanning_Some spans_def Let_def split: if_splits)
qed

lemma parsed_typed:
  assumes "qsort_ok qs"
    and "central_dir_parse_from_cd_buffer qs plan cd_buffer cd_offset cd_size archive_len part_len z = Ok cd"
  shows "directory_typed archive_len part_len cd"
proof -
  from assms(2) obtain n fs ps where
    fs: "parse_central_directory (fst plan) cd_buffer cd_offset cd_offset n cd_size part_len = Ok fs"
    and ps: "build_part_map qs (snd plan) fs archive_len part_len = Ok ps"
    and cd: "cp_files cd = fs" "cp_parts cd = ps"
    by (auto simp: central_dir_parse_from_cd_buffer_def Let_def split: if_splits)
  have "part_indices_ok part_len fs"
    using fs parse_entries_part_indices[of _ _ _ _ _ part_len "[]" fs]
    by (auto simp: parse_central_directory_def Let_def part_indices_ok_def split: if_splits)
  then show ?thesis
    using build_part_map_typed[OF assms(1) ps] build_part_map_Ok(1)[OF ps] placed_header
    by (simp add: directory_typed_def cd part_indices_ok_def)
qed

text \<open>C40: the parser returns well-formed directories only. Whatever the bytes, sizes, allocations and the
  order that \<open>qsort\<close> gives to equal elements are, a result of \<open>central_dir_parse_from_cd_buffer\<close> has the
  number of parts that the code computes from the length of the archive. The index of a file is the number of
  the part that its header lies in, modulo \<open>2^32\<close>: the code truncates it, so it is that part exactly when the offset is
  below \<open>2^32\<close> parts. Every part lists exactly the files with its index, each once, sorted by
  the offset of the header in its part, and the continuing file of a part exists and starts before the part.\<close>

theorem parsed_directory_typed:
  assumes "qsort_ok qs"
    and "central_dir_parse_from_cd_buffer qs plan cd_buffer cd_offset cd_size archive_len part_len z = Ok cd"
  shows "directory_typed archive_len part_len cd"
  using assms by (rule parsed_typed)


text \<open>The directory that the writer makes for one file.\<close>

lemma demo_directory:
  "\<exists>cd. central_dir_parse_from_cd_buffer stable_qsort ([], [])
      (central_directory [empty_entry] @ end_records 1 0 (length (central_directory [empty_entry])) 0)
      0 (of_nat (length (central_directory [empty_entry]))) 200 8388608 True = Ok cd \<and>
    cp_files cd = [metadata_of 8388608 empty_entry]"
proof -
  have "directory_ok [empty_entry]" by (simp add: directory_ok_def entry_ok_def no_ambiguous_size_def empty_entry_def)
  moreover obtain ps where "build_part_map stable_qsort [] (map (metadata_of 8388608) [empty_entry]) 200 8388608 = Ok ps"
    using build_part_map_returns[of 8388608] by fastforce
  moreover have "end_records 1 0 (length (central_directory [empty_entry])) 0 \<noteq> []"
    by (metis length_end_records list.size(3) zero_neq_numeral)
  ultimately show ?thesis
    using from_cd_buffer_writer[of "[empty_entry]" 8388608 "end_records 1 0 (length (central_directory [empty_entry])) 0"
        stable_qsort 200 ps 0 True] length_empty_cdfh
    by simp
qed

theorem parsed_directory_typed_witness:
  "\<exists>cd. central_dir_parse_from_cd_buffer stable_qsort ([], [])
      (central_directory [empty_entry] @ end_records 1 0 (length (central_directory [empty_entry])) 0)
      0 (of_nat (length (central_directory [empty_entry]))) 200 8388608 True = Ok cd \<and>
    directory_typed 200 8388608 cd"
  using demo_directory parsed_directory_typed[OF stable.c_qsort_axioms] by blast

section \<open>Streaming a part\<close>

definition no_oversized_link :: "central_dir_parse_result \<Rightarrow> bool" where
  "no_oversized_link cd \<longleftrightarrow>
     list_all (\<lambda>m. \<not> (fm_is_symlink m \<and> fm_uncompressed_size m = 0xFFFFFFFFFFFFFFFF)) (cp_files cd)"

lemma typed_part_map_ok:
  assumes "directory_typed archive_len part_len cd" and "no_oversized_link cd"
  shows "part_map_ok cd"
  using assms
  by (fastforce simp: directory_typed_def part_typed_def part_map_ok_def no_oversized_link_def list_all_iff
      in_set_conv_nth[of _ "cp_parts cd"])

text \<open>New descriptors are larger than all that are open.\<close>

definition fds_below :: "os_state \<Rightarrow> bool" where
  "fds_below os \<longleftrightarrow> 0 \<le> os_next_fd os \<and> (\<forall>k. os_fds os k \<noteq> None \<longrightarrow> k < os_next_fd os)"

lemma created_inv:
  assumes "part_processor_create p cd dir part_size os = (Some st, os1)" and "part_map_ok cd" and "fds_below os"
  shows "processor_inv (os_fds os) st \<and> ps_frame_buffer st = [] \<and> ps_state st = STATE_INIT \<and> os1 = ps_os st"
proof -
  have same: "same_fds os (ps_os st)"
    using assms(1)
    by (auto simp: part_processor_create_def split: if_splits prod.splits
        dest!: os_alloc_same_fds intro: same_fds_trans)
  then have "descriptors_ok (os_fds os) None (ps_os st)"
    using assms(3) by (simp add: descriptors_ok_def fds_below_def same_fds_def)
  then show ?thesis
    using assms(1,2)
    by (auto simp: part_processor_create_def processor_inv_def split: if_splits prod.splits)
qed

text \<open>What waits in the buffer after a call is the rest of what was there.\<close>

lemma run_loop_rest:
  assumes "run_loop zr u work st = Some (Done STREAM_PROC_SUCCESS st')" and "no_wrapped_frames work"
    and "processor_inv fds0 st" and "\<not> u \<Longrightarrow> ps_frame_buffer st = []"
  shows "\<exists>k. ps_frame_buffer st' = drop k work"
proof -
  from assms(1) obtain r where loop: "process_loop zr work 0 st = Some r"
    by (auto simp: run_loop_def split: option.splits)
  note safe = process_loop_safe[OF loop assms(2,3)]
  have nil: "drop (length work) work = []" by simp
  show ?thesis
  proof (cases r)
    case (Completed s)
    then have "ps_frame_buffer s = ps_frame_buffer st"
      using process_loop_keeps_buffer[OF loop] by (metis loop_end.inject(1) rebuffer_end.simps(1) with_buffer_fields(11))
    then have "ps_frame_buffer st' = []" using assms(1,4) loop Completed by (auto simp: run_loop_def split: if_splits)
    with nil show ?thesis by metis
  next
    case (Buffered off s)
    then have "ps_frame_buffer st' = drop off work"
      using assms(1) loop
      by (auto simp: run_loop_def buffer_remaining_def run_of_def fail_def Let_def split: if_splits prod.splits)
    then show ?thesis by blast
  qed (use assms(1) loop safe in \<open>auto simp: run_loop_def\<close>)
qed

lemma process_data_rest:
  assumes "part_processor_process_data zr data st = Some (Done STREAM_PROC_SUCCESS st')"
    and "no_wrapped_frames (ps_frame_buffer st @ data)" and "processor_inv fds0 st"
    and "ps_state st \<noteq> STATE_DONE"
  shows "\<exists>k. ps_frame_buffer st' = drop k (ps_frame_buffer st @ data)"
proof -
  have "ps_state st \<noteq> STATE_ERROR" using assms(1,3) by (auto simp: part_processor_process_data_def processor_inv_def)
  show ?thesis
  proof (cases "ps_frame_buffer st = []")
    case True
    then show ?thesis
      using assms \<open>ps_state st \<noteq> STATE_ERROR\<close> run_loop_rest[of zr False data st st' fds0]
      by (simp add: part_processor_process_data_def)
  next
    case False
    obtain ok st1 where app: "append_to_buffer data st = (ok, st1)" by fastforce
    have inv1: "processor_inv fds0 st1"
      using app assms(3) inv_os[OF assms(3) os_alloc_same_fds]
      by (auto simp: append_to_buffer_def Let_def split: if_splits prod.splits)
    have ok: ok
      using app assms False \<open>ps_state st \<noteq> STATE_ERROR\<close>
      by (auto simp: part_processor_process_data_def run_of_def fail_def split: if_splits)
    then have "ps_frame_buffer st1 = ps_frame_buffer st @ data"
      using append_to_buffer_frame_buffer[of data st st1] app by simp
    then show ?thesis
      using assms app ok False \<open>ps_state st \<noteq> STATE_ERROR\<close> inv1 run_loop_rest[of zr True _ st1 st' fds0]
      by (simp add: part_processor_process_data_def del: drop_append)
  qed
qed

lemma stream_pieces_safe:
  assumes "processor_inv fds0 (sp_processor ctx)" and "zstd_sizes_ok zr"
    and "ps_state (sp_processor ctx) = STATE_DONE \<or>
      no_wrapped_frames (ps_frame_buffer (sp_processor ctx) @ concat pieces)"
  shows "\<exists>ctx'. stream_pieces zr pieces ctx = Some (Ok ctx') \<and> processor_inv fds0 (sp_processor ctx')"
  using assms
proof (induction pieces arbitrary: ctx)
  case (Cons p ps)
  let ?st = "sp_processor ctx"
  show ?case
  proof (cases "ps_state ?st = STATE_DONE")
    case True
    then show ?thesis
      using Cons.IH[of ctx] Cons.prems by (simp add: s3_stream_body_callback_def part_processor_process_data_def)
  next
    case False
    then have nw: "no_wrapped_frames ((ps_frame_buffer ?st @ p) @ concat ps)" using Cons.prems(3) by simp
    obtain rc st' where call: "part_processor_process_data zr p ?st = Some (Done rc st')"
      and inv: "processor_inv fds0 st'"
      using process_data_outcome[OF Cons.prems(1,2) no_wrapped_take[OF nw]] by blast
    show ?thesis
    proof (cases "rc = STREAM_PROC_SUCCESS")
      case True
      then obtain k where "ps_frame_buffer st' = drop k (ps_frame_buffer ?st @ p)"
        using process_data_rest[OF _ no_wrapped_take[OF nw] Cons.prems(1) False] call by blast
      then have "ps_frame_buffer st' @ concat ps
          = drop (min k (length (ps_frame_buffer ?st @ p))) ((ps_frame_buffer ?st @ p) @ concat ps)"
        by (simp add: min_def)
      then have "no_wrapped_frames (ps_frame_buffer st' @ concat ps)" using no_wrapped_drop[OF nw] by metis
      then show ?thesis
        using Cons.IH[of "ctx\<lparr>sp_processor := st'\<rparr>"] call inv True Cons.prems(2)
        by (simp add: s3_stream_body_callback_def)
    qed (use call inv in \<open>simp add: s3_stream_body_callback_def\<close>)
  qed
qed simp


lemma finalize_inv:
  assumes "processor_inv fds0 st"
  shows "\<exists>rc st'. part_processor_finalize st = Done rc st' \<and> processor_inv fds0 st'"
proof -
  obtain rc s where close: "close_output_file st = Some (rc, s)" and h: "handled fds0 st rc s"
    using safe_close[OF assms] by (auto simp: safe_handler_def)
  note inv = handled_inv[OF h]
  show ?thesis
    using close close_output_file_rc[OF close] inv_fail[OF inv, of STREAM_PROC_ERR_UNEXPECTED_EOF] inv_state[OF inv, of STATE_DONE]
    by (auto simp: part_processor_finalize_def proceed_def run_of_def split: prod.split)
qed

lemma stream_finish_safe:
  assumes "processor_inv fds0 (sp_processor ctx)"
  shows "\<exists>ctx'. s3_stream_finish code ctx = Ok ctx' \<and> processor_inv fds0 (sp_processor ctx')"
  using assms finalize_inv[OF assms] by (auto simp: s3_stream_finish_def Let_def)

lemma destroy_closes:
  "processor_inv fds0 st \<Longrightarrow> os_fds (part_processor_destroy st) = fds0"
  by (auto simp: processor_inv_def descriptors_ok_def part_processor_destroy_def sys_close_def
      split: option.splits if_splits)

text \<open>C9: a part of an untrusted archive can be processed safely. Let the directory be the result of parsing
  arbitrary bytes and the answer to the request of a part be arbitrary bytes in arbitrary pieces. Then
  for every part, all callbacks of the request return without an access outside an object, for every
  answer of the operating system; the processor keeps its invariant, and once it is
  destroyed exactly the descriptors that were open before are open. Excluded are links that announce \<open>2^64 - 1\<close> bytes and
  skippable frames whose size wraps around, for which the code is wrong.\<close>

theorem untrusted_part_is_safe:
  assumes "qsort_ok qs"
    and "central_dir_parse_from_cd_buffer qs plan cd_buffer cd_offset cd_size archive_len part_len z = Ok cd"
    and "no_oversized_link cd" and "fds_below os"
    and "part_processor_create p cd dir part_size os = (Some st, os1)"
    and "zstd_sizes_ok zr" and "no_wrapped_frames (concat (map snd (an_pieces ans)))"
  shows "\<exists>ctx'. stream_answer zr ans (stream_part_context_new st p) = Some (Ok ctx') \<and>
    processor_inv (os_fds os) (sp_processor ctx') \<and>
    os_fds (part_processor_destroy (sp_processor ctx')) = os_fds os"
proof -
  have "directory_typed archive_len part_len cd" using parsed_typed[OF assms(1,2)] .
  then have st: "processor_inv (os_fds os) st" "ps_frame_buffer st = []"
    using created_inv[OF assms(5) typed_part_map_ok assms(4)] assms(3) by blast+
  define ctx where "ctx = s3_stream_headers_callback (an_status ans) (stream_part_context_new st p)"
  have "sp_processor ctx = st"
    by (simp add: ctx_def s3_stream_headers_callback_def stream_part_context_new_def)
  then obtain ctx1 where 1: "stream_pieces zr (map snd (an_pieces ans)) ctx = Some (Ok ctx1)"
    "processor_inv (os_fds os) (sp_processor ctx1)"
    using stream_pieces_safe[of "os_fds os" ctx zr] st assms(6,7) by auto
  obtain ctx' where "s3_stream_finish (an_error ans) ctx1 = Ok ctx'"
    "processor_inv (os_fds os) (sp_processor ctx')" using stream_finish_safe[OF 1(2)] by blast
  then show ?thesis using 1 destroy_closes by (auto simp: stream_answer_def simp flip: ctx_def)
qed

theorem untrusted_part_is_safe_witness:
  "\<exists>cd st ctx'. central_dir_parse_from_cd_buffer stable_qsort ([], [])
      (central_directory [empty_entry] @ end_records 1 0 (length (central_directory [empty_entry])) 0)
      0 (of_nat (length (central_directory [empty_entry]))) 200 8388608 True = Ok cd \<and>
    part_processor_create 0 cd [111] 8388608 demo_os = (Some st, demo_os) \<and>
    stream_answer stored_zstd demo_answer (stream_part_context_new st 0) = Some (Ok ctx') \<and>
    os_fds (part_processor_destroy (sp_processor ctx')) = os_fds demo_os"
proof -
  obtain cd where cd: "central_dir_parse_from_cd_buffer stable_qsort ([], [])
      (central_directory [empty_entry] @ end_records 1 0 (length (central_directory [empty_entry])) 0)
      0 (of_nat (length (central_directory [empty_entry]))) 200 8388608 True = Ok cd"
    and fs: "cp_files cd = [metadata_of 8388608 empty_entry]" using demo_directory by blast
  have "length (cp_parts cd) = 1"
    using parsed_typed[OF stable.c_qsort_axioms cd] by (simp add: directory_typed_def number_of_parts_def)
  then obtain st where st: "part_processor_create 0 cd [111] 8388608 demo_os = (Some st, demo_os)"
    by (simp add: part_processor_create_def demo_os_def os_alloc_def)
  have "no_oversized_link cd" by (simp add: no_oversized_link_def fs metadata_of_def empty_entry_def)
  moreover have "fds_below demo_os" by (simp add: fds_below_def demo_os_def)
  moreover have "no_wrapped_frames (concat (map snd (an_pieces demo_answer)))"
    by (auto simp: no_wrapped_frames_def wrapped_frame_iff demo_answer_def)
  ultimately show ?thesis
    using untrusted_part_is_safe[OF stable.c_qsort_axioms cd _ _ st stored_sizes_ok] cd st by blast
qed

end
