(* ===== verification/Hybrid_Coordinator.thy ===== *)
theory Hybrid_Coordinator
  imports Hybrid_Queues
begin

text \<open>
  The hybrid coordinator (\<open>src/downloader/cd_fetch.c\<close>, lines 987-1305 and 1500-1600): ranges of the
  central directory and early parts are fetched at the same time; when all ranges are there, the
  directory is assembled and parsed and the remaining parts are queued.

  \<^item> A step is a section that holds the mutex or an action outside it. The mutex is released while a
    request is launched (\<open>Launch\<close>) and while the directory is assembled (\<open>Assembling\<close>); a callback
    that has launched a request acquires the mutex again afterwards (\<open>Relock\<close>).
  \<^item> \<open>hc_early_queue\<close> and \<open>hc_late_queue\<close> are what is left of the queues, from \<open>early_queue_next\<close> and
    \<open>late_queue_next\<close> on. \<open>answer\<close> gives the bytes of a range, \<open>assembled\<close> the result of
    \<open>hybrid_assemble_and_parse_cd\<close> on the collected buffers (\<open>None\<close> when it fails).
  \<^item> Contexts, messages and the destruction of the coordinator are left out.
\<close>

section \<open>The coordinator\<close>

datatype work = Range nat | Part nat

record hybrid_download_coordinator =
  hc_max_concurrent :: nat
  hc_part_size :: u64
  hc_cd_ranges_total :: nat
  hc_cd_ranges_dispatched :: nat
  hc_cd_ranges_completed :: nat
  hc_cd_complete :: bool
  hc_cd_buffers :: "bytes option list"
  hc_num_parts :: nat
  hc_cd_offset :: u64
  hc_body_segments :: "body_data_segment option list"
  hc_part_dispatched :: "bool list"
  hc_part_complete :: "bool list"
  hc_early_queue :: "nat list"
  hc_late_queue :: "nat list"
  hc_in_flight :: nat
  hc_cancel_requested :: bool
  hc_first_error_code :: int

definition hybrid_coordinator_create ::
  "nat \<Rightarrow> hybrid_config \<Rightarrow> nat \<Rightarrow> file_metadata list \<Rightarrow> hybrid_download_coordinator option" where
  "hybrid_coordinator_create max_concurrent cfg partial_parts partial_files =
     (let max_parts = unat ((hy_archive_size cfg + hy_part_size cfg - 1) div hy_part_size cfg)
      in case build_early_part_queue (hy_part_size cfg) (hy_initial_start cfg) max_parts partial_files of
           None \<Rightarrow> None
         | Some queue \<Rightarrow> Some
             \<lparr>hc_max_concurrent = max_concurrent, hc_part_size = hy_part_size cfg,
              hc_cd_ranges_total = length (hy_cd_ranges cfg), hc_cd_ranges_dispatched = 0,
              hc_cd_ranges_completed = 0, hc_cd_complete = False,
              hc_cd_buffers = replicate (length (hy_cd_ranges cfg)) None, hc_num_parts = partial_parts,
              hc_cd_offset = 0, hc_body_segments = [],
              hc_part_dispatched = replicate max_parts False, hc_part_complete = replicate max_parts False,
              hc_early_queue = map unat queue, hc_late_queue = [], hc_in_flight = 0,
              hc_cancel_requested = False, hc_first_error_code = 0\<rparr>)"

text \<open>The next part of a queue that has not been dispatched; the others are dropped.\<close>

fun pop_part :: "bool list \<Rightarrow> nat list \<Rightarrow> nat option \<times> nat list" where
  "pop_part dispatched [] = (None, [])"
| "pop_part dispatched (p # ps) =
     (if dispatched ! p then pop_part dispatched ps else (Some p, ps))"

definition dispatch_part :: "nat \<Rightarrow> hybrid_download_coordinator \<Rightarrow> hybrid_download_coordinator" where
  "dispatch_part p c =
     c\<lparr>hc_part_dispatched := (hc_part_dispatched c)[p := True], hc_in_flight := hc_in_flight c + 1\<rparr>"

definition hybrid_dispatch_next ::
  "hybrid_download_coordinator \<Rightarrow> work option \<times> hybrid_download_coordinator" where
  "hybrid_dispatch_next c =
     (if hc_cancel_requested c then (None, c)
      else if hc_in_flight c \<ge> hc_max_concurrent c then (None, c)
      else if hc_cd_ranges_dispatched c < hc_cd_ranges_total c then
        (Some (Range (hc_cd_ranges_dispatched c)),
         c\<lparr>hc_cd_ranges_dispatched := hc_cd_ranges_dispatched c + 1, hc_in_flight := hc_in_flight c + 1\<rparr>)
      else
        case pop_part (hc_part_dispatched c) (hc_early_queue c) of
          (Some p, rest) \<Rightarrow> (Some (Part p), dispatch_part p (c\<lparr>hc_early_queue := rest\<rparr>))
        | (None, rest) \<Rightarrow>
            let c1 = c\<lparr>hc_early_queue := rest\<rparr>
            in if hc_cd_complete c1 then
                 (case pop_part (hc_part_dispatched c1) (hc_late_queue c1) of
                    (Some p, rest2) \<Rightarrow> (Some (Part p), dispatch_part p (c1\<lparr>hc_late_queue := rest2\<rparr>))
                  | (None, rest2) \<Rightarrow> (None, c1\<lparr>hc_late_queue := rest2\<rparr>))
               else (None, c1))"

definition hybrid_launch_failed :: "hybrid_download_coordinator \<Rightarrow> hybrid_download_coordinator" where
  "hybrid_launch_failed c =
     c\<lparr>hc_in_flight := hc_in_flight c - 1, hc_cancel_requested := True, hc_first_error_code := -1\<rparr>"

definition hybrid_note_error ::
  "int \<Rightarrow> hybrid_download_coordinator \<Rightarrow> hybrid_download_coordinator" where
  "hybrid_note_error error_code c =
     (if \<not> hc_cancel_requested c
      then c\<lparr>hc_cancel_requested := True, hc_first_error_code := error_code\<rparr> else c)"

text \<open>The finish callback of a range up to the point where the directory is complete (\<open>True\<close>: the
  mutex is released and the directory is assembled).\<close>

definition hybrid_cd_range_finish ::
  "int \<Rightarrow> nat \<Rightarrow> bytes \<Rightarrow> hybrid_download_coordinator \<Rightarrow> bool \<times> hybrid_download_coordinator" where
  "hybrid_cd_range_finish error_code i data c =
     (let c1 = c\<lparr>hc_in_flight := hc_in_flight c - 1\<rparr>
      in if error_code \<noteq> 0 then (False, hybrid_note_error error_code c1)
         else
           let c2 = c1\<lparr>hc_cd_buffers := (hc_cd_buffers c1)[i := Some data],
                       hc_cd_ranges_completed := hc_cd_ranges_completed c1 + 1\<rparr>
           in (hc_cd_ranges_completed c2 = hc_cd_ranges_total c2 \<and> \<not> hc_cd_complete c2, c2))"

definition hybrid_directory_done ::
  "(central_dir_parse_result \<times> body_data_segment option list) option
     \<Rightarrow> hybrid_download_coordinator \<Rightarrow> hybrid_download_coordinator" where
  "hybrid_directory_done result c =
     (case result of
        None \<Rightarrow> c\<lparr>hc_cancel_requested := True, hc_first_error_code := -1\<rparr>
      | Some (full_cd, segs) \<Rightarrow>
          c\<lparr>hc_num_parts := length (cp_parts full_cd), hc_cd_offset := cp_central_dir_offset full_cd,
            hc_body_segments := segs, hc_cd_complete := True,
            hc_late_queue := build_late_part_queue (hc_part_size c) (cp_central_dir_offset full_cd) segs
              (hc_part_dispatched c) (length (cp_parts full_cd))\<rparr>)"

definition hybrid_part_finish ::
  "int \<Rightarrow> nat \<Rightarrow> hybrid_download_coordinator \<Rightarrow> hybrid_download_coordinator" where
  "hybrid_part_finish error_code p c =
     (let c1 = c\<lparr>hc_in_flight := hc_in_flight c - 1,
                 hc_part_complete := (hc_part_complete c)[p := True]\<rparr>
      in if error_code \<noteq> 0 then hybrid_note_error error_code c1 else c1)"

section \<open>The threads\<close>

datatype hybrid_activity = Busy work | Launch work | Assembling | Relock

datatype hybrid_main =
    Batch
  | Batch_launch work nat
  | Batch_relock nat
  | Main_waiting bool
  | Main_joined

record hybrid_run =
  hr_coord :: hybrid_download_coordinator
  hr_main :: hybrid_main
  hr_active :: "hybrid_activity multiset"

definition hybrid_notify :: "bool \<Rightarrow> hybrid_main \<Rightarrow> hybrid_main" where
  "hybrid_notify b m = (if b \<and> m = Main_waiting False then Main_waiting True else m)"

text \<open>The end of a callback: one more work item, or the signal when nothing is in flight.\<close>

definition callback_end ::
  "hybrid_download_coordinator \<Rightarrow> hybrid_activity multiset \<Rightarrow> hybrid_main \<Rightarrow> hybrid_run" where
  "callback_end c active m =
     (case hybrid_dispatch_next c of
        (Some w, c') \<Rightarrow> \<lparr>hr_coord = c', hr_main = m, hr_active = add_mset (Launch w) active\<rparr>
      | (None, c') \<Rightarrow>
          \<lparr>hr_coord = c', hr_main = hybrid_notify (hc_in_flight c' = 0) m, hr_active = active\<rparr>)"

text \<open>\<open>assembled\<close> is what \<open>hybrid_assemble_and_parse_cd\<close> returns: a parameter, since its arguments do not change during
  the run. The properties hold for all results, or for those that fit to the parts of the archive.\<close>

inductive hybrid_step ::
  "(nat \<Rightarrow> bytes) \<Rightarrow> (bytes option list \<Rightarrow> (central_dir_parse_result \<times> body_data_segment option list) option)
     \<Rightarrow> hybrid_run \<Rightarrow> hybrid_run \<Rightarrow> bool" for answer assembled where
  batch_dispatches:
    "hr_main s = Batch \<Longrightarrow>
     hc_in_flight (hr_coord s) < hc_max_concurrent (hr_coord s) \<and> \<not> hc_cancel_requested (hr_coord s) \<Longrightarrow>
     hybrid_dispatch_next (hr_coord s) = (Some w, c) \<Longrightarrow>
     hybrid_step answer assembled s
       (s\<lparr>hr_coord := c, hr_main := Batch_launch w (hc_in_flight (hr_coord s))\<rparr>)"
| batch_idle:
    "hr_main s = Batch \<Longrightarrow>
     hc_in_flight (hr_coord s) < hc_max_concurrent (hr_coord s) \<and> \<not> hc_cancel_requested (hr_coord s) \<Longrightarrow>
     hybrid_dispatch_next (hr_coord s) = (None, c) \<Longrightarrow>
     hybrid_step answer assembled s (s\<lparr>hr_coord := c, hr_main := Main_waiting True\<rparr>)"
| batch_full:
    "hr_main s = Batch \<Longrightarrow>
     \<not> (hc_in_flight (hr_coord s) < hc_max_concurrent (hr_coord s) \<and> \<not> hc_cancel_requested (hr_coord s)) \<Longrightarrow>
     hybrid_step answer assembled s (s\<lparr>hr_main := Main_waiting True\<rparr>)"
| batch_launched:
    "hr_main s = Batch_launch w prev \<Longrightarrow>
     hybrid_step answer assembled s
       (s\<lparr>hr_main := Batch_relock prev, hr_active := add_mset (Busy w) (hr_active s)\<rparr>)"
| batch_launch_fails:
    "hr_main s = Batch_launch w prev \<Longrightarrow>
     hybrid_step answer assembled s
       (s\<lparr>hr_coord := hybrid_launch_failed (hr_coord s), hr_main := Batch_relock prev\<rparr>)"
| batch_continues:
    "hr_main s = Batch_relock prev \<Longrightarrow>
     hybrid_step answer assembled s
       (s\<lparr>hr_main := (if hc_in_flight (hr_coord s) = prev then Main_waiting True else Batch)\<rparr>)"
| hybrid_sleeps:
    "hr_main s = Main_waiting True \<Longrightarrow> hc_in_flight (hr_coord s) > 0 \<Longrightarrow>
     hybrid_step answer assembled s (s\<lparr>hr_main := Main_waiting False\<rparr>)"
| hybrid_returns:
    "hr_main s = Main_waiting True \<Longrightarrow> hc_in_flight (hr_coord s) = 0 \<Longrightarrow>
     hybrid_step answer assembled s (s\<lparr>hr_main := Main_joined\<rparr>)"
| range_done:
    "Busy (Range i) \<in># hr_active s \<Longrightarrow>
     hybrid_cd_range_finish e i (answer i) (hr_coord s) = (False, c) \<Longrightarrow>
     hybrid_step answer assembled s (callback_end c (hr_active s - {#Busy (Range i)#}) (hr_main s))"
| last_range_done:
    "Busy (Range i) \<in># hr_active s \<Longrightarrow>
     hybrid_cd_range_finish e i (answer i) (hr_coord s) = (True, c) \<Longrightarrow>
     hybrid_step answer assembled s
       (s\<lparr>hr_coord := c, hr_active := add_mset Assembling (hr_active s - {#Busy (Range i)#})\<rparr>)"
| directory_done:
    "Assembling \<in># hr_active s \<Longrightarrow>
     result = assembled (hc_cd_buffers (hr_coord s)) \<or> result = None \<Longrightarrow>
     hybrid_step answer assembled s
       (callback_end (hybrid_directory_done result (hr_coord s)) (hr_active s - {#Assembling#}) (hr_main s))"
| part_done:
    "Busy (Part p) \<in># hr_active s \<Longrightarrow>
     hybrid_step answer assembled s
       (callback_end (hybrid_part_finish e p (hr_coord s)) (hr_active s - {#Busy (Part p)#}) (hr_main s))"
| callback_launched:
    "Launch w \<in># hr_active s \<Longrightarrow>
     hybrid_step answer assembled s
       (s\<lparr>hr_active := add_mset Relock (add_mset (Busy w) (hr_active s - {#Launch w#}))\<rparr>)"
| callback_launch_fails:
    "Launch w \<in># hr_active s \<Longrightarrow> c = hybrid_launch_failed (hr_coord s) \<Longrightarrow>
     hybrid_step answer assembled s
       \<lparr>hr_coord = c, hr_main = hybrid_notify (hc_in_flight c = 0) (hr_main s),
        hr_active = hr_active s - {#Launch w#}\<rparr>"
| callback_relocks:
    "Relock \<in># hr_active s \<Longrightarrow>
     hybrid_step answer assembled s
       (s\<lparr>hr_main := hybrid_notify (hc_in_flight (hr_coord s) = 0) (hr_main s),
          hr_active := hr_active s - {#Relock#}\<rparr>)"

definition start_hybrid :: "hybrid_download_coordinator \<Rightarrow> hybrid_run" where
  "start_hybrid c = \<lparr>hr_coord = c, hr_main = Batch, hr_active = {#}\<rparr>"

section \<open>The invariant\<close>

fun is_range :: "work \<Rightarrow> bool" where
  "is_range (Range i) = True"
| "is_range (Part p) = False"

fun activity_work :: "hybrid_activity \<Rightarrow> work multiset" where
  "activity_work (Busy w) = {#w#}"
| "activity_work (Launch w) = {#w#}"
| "activity_work a = {#}"

fun main_work :: "hybrid_main \<Rightarrow> work multiset" where
  "main_work (Batch_launch w prev) = {#w#}"
| "main_work m = {#}"

definition active_work :: "hybrid_activity multiset \<Rightarrow> work multiset" where
  "active_work M = sum_mset (image_mset activity_work M)"

definition works :: "hybrid_run \<Rightarrow> work multiset" where
  "works s = active_work (hr_active s) + main_work (hr_main s)"

definition no_work :: "hybrid_download_coordinator \<Rightarrow> bool" where
  "no_work c \<longleftrightarrow> hc_cd_ranges_total c \<le> hc_cd_ranges_dispatched c \<and> hc_early_queue c = [] \<and>
     (hc_cd_complete c \<longrightarrow> hc_late_queue c = [])"

text \<open>The coordinator with the work \<open>W\<close> under way; \<open>a\<close>: the directory is being assembled.\<close>

definition coord_counts :: "hybrid_download_coordinator \<Rightarrow> work multiset \<Rightarrow> bool" where
  "coord_counts c W \<longleftrightarrow>
     hc_in_flight c = size W \<and> hc_in_flight c \<le> hc_max_concurrent c \<and> 0 < hc_max_concurrent c \<and>
     hc_cd_ranges_dispatched c \<le> hc_cd_ranges_total c \<and>
     length (hc_part_complete c) = length (hc_part_dispatched c) \<and>
     (\<forall>p \<in> set (hc_early_queue c) \<union> set (hc_late_queue c). p < length (hc_part_dispatched c)) \<and>
     (\<forall>p. Part p \<in># W \<longrightarrow> p < length (hc_part_dispatched c))"

definition coord_results :: "hybrid_download_coordinator \<Rightarrow> work multiset \<Rightarrow> bool \<Rightarrow> bool" where
  "coord_results c W a \<longleftrightarrow>
     (\<not> hc_cancel_requested c \<longrightarrow>
        hc_cd_ranges_completed c + size (filter_mset is_range W) = hc_cd_ranges_dispatched c \<and>
        (hc_cd_ranges_completed c = hc_cd_ranges_total c \<longrightarrow> hc_cd_complete c \<or> a) \<and>
        (\<forall>p < length (hc_part_dispatched c).
           hc_part_dispatched c ! p \<longrightarrow> hc_part_complete c ! p \<or> Part p \<in># W)) \<and>
     (hc_cd_complete c \<longrightarrow> hc_num_parts c \<le> length (hc_part_dispatched c) \<and>
        (\<forall>p < hc_num_parts c. part_needed (hc_part_size c) (hc_cd_offset c) (hc_body_segments c) p \<longrightarrow>
           hc_part_dispatched c ! p \<or> p \<in> set (hc_late_queue c)))"

definition at_rest :: "hybrid_run \<Rightarrow> bool" where
  "at_rest s \<longleftrightarrow> works s = {#} \<and> Assembling \<notin># hr_active s \<and> hr_main s \<noteq> Batch \<and>
     \<not> hc_cancel_requested (hr_coord s)"

definition hybrid_inv :: "hybrid_run \<Rightarrow> bool" where
  "hybrid_inv s \<longleftrightarrow>
     coord_counts (hr_coord s) (works s) \<and>
     coord_results (hr_coord s) (works s) (Assembling \<in># hr_active s) \<and>
     (at_rest s \<longrightarrow> no_work (hr_coord s))"

lemma pop_part_cases:
  assumes "pop_part d ps = (r, rest)"
  shows "set rest \<subseteq> set ps" and "r = None \<Longrightarrow> rest = []" and "r = Some p \<Longrightarrow> p \<in> set ps \<and> \<not> d ! p"
    and "q \<in> set ps \<Longrightarrow> q \<in> set rest \<or> d ! q \<or> r = Some q"
  using assms by (induction d ps arbitrary: r rest rule: pop_part.induct) (auto split: if_splits)

definition new_work :: "work option \<Rightarrow> work multiset" where
  "new_work r = (case r of None \<Rightarrow> {#} | Some w \<Rightarrow> {#w#})"

lemma dispatch_part_keeps:
  assumes "coord_counts c W" and "coord_results c W a" and "p < length (hc_part_dispatched c)"
    and "hc_in_flight c < hc_max_concurrent c"
  shows "coord_counts (dispatch_part p c) (add_mset (Part p) W)"
    and "coord_results (dispatch_part p c) (add_mset (Part p) W) a"
  using assms by (auto simp: coord_counts_def coord_results_def dispatch_part_def nth_list_update)

lemma smaller_early_queue:
  assumes "set rest \<subseteq> set (hc_early_queue c)"
  shows "coord_counts c W \<Longrightarrow> coord_counts (c\<lparr>hc_early_queue := rest\<rparr>) W"
    and "coord_results c W a \<Longrightarrow> coord_results (c\<lparr>hc_early_queue := rest\<rparr>) W a"
  using assms by (auto simp: coord_counts_def coord_results_def)

text \<open>The late queue may lose a part that is dispatched, or that is dispatched now.\<close>

lemma dispatch_keeps:
  assumes "hybrid_dispatch_next c = (r, c')" and J: "coord_counts c W" "coord_results c W a"
  shows "coord_counts c' (W + new_work r)" and "coord_results c' (W + new_work r) a"
    and "hc_cancel_requested c' = hc_cancel_requested c"
    and "hc_in_flight c' = hc_in_flight c + size (new_work r)"
    and "r = None \<Longrightarrow> \<not> hc_cancel_requested c \<Longrightarrow> hc_in_flight c < hc_max_concurrent c \<Longrightarrow> no_work c'"
proof -
  let ?goal = "coord_counts c' (W + new_work r) \<and> coord_results c' (W + new_work r) a \<and>
    hc_cancel_requested c' = hc_cancel_requested c \<and> hc_in_flight c' = hc_in_flight c + size (new_work r) \<and>
    (r = None \<longrightarrow> \<not> hc_cancel_requested c \<longrightarrow> hc_in_flight c < hc_max_concurrent c \<longrightarrow> no_work c')"
  have ?goal
  proof (cases "hc_cancel_requested c \<or> hc_in_flight c \<ge> hc_max_concurrent c")
    case True
    then have "r = None" "c' = c"
      using assms(1) unfolding hybrid_dispatch_next_def by (cases "hc_cancel_requested c"; simp)+
    then show ?thesis using J True by (auto simp: new_work_def)
  next
    case run: False
    show ?thesis
    proof (cases "hc_cd_ranges_dispatched c < hc_cd_ranges_total c")
      case True
      then show ?thesis
        using assms(1) run J
        by (auto simp: hybrid_dispatch_next_def new_work_def coord_counts_def coord_results_def)
    next
      case ranges: False
      obtain r1 rest where pop: "pop_part (hc_part_dispatched c) (hc_early_queue c) = (r1, rest)" by fastforce
      note p1 = pop_part_cases[OF pop]
      let ?c1 = "c\<lparr>hc_early_queue := rest\<rparr>"
      note J1 = smaller_early_queue[OF p1(1)] 
      show ?thesis
      proof (cases r1)
        case (Some p)
        then have res: "r = Some (Part p)" "c' = dispatch_part p ?c1"
          using assms(1) run ranges pop by (auto simp: hybrid_dispatch_next_def)
        have "p < length (hc_part_dispatched ?c1)" using p1(3)[OF Some] J(1) by (auto simp: coord_counts_def)
        with dispatch_part_keeps[OF J1(1)[OF J(1)] J1(2)[OF J(2)]] run show ?thesis
          unfolding res by (simp add: new_work_def dispatch_part_def)
      next
        case early: None
        show ?thesis
        proof (cases "hc_cd_complete c")
          case False
          then have res: "r = None" "c' = ?c1"
            using assms(1) run ranges pop early by (auto simp: hybrid_dispatch_next_def)
          show ?thesis
            unfolding res using J1(1)[OF J(1)] J1(2)[OF J(2)] p1(2)[OF early] False ranges
            by (simp add: new_work_def no_work_def)
        next
          case True
          obtain r2 rest2 where pop2: "pop_part (hc_part_dispatched c) (hc_late_queue c) = (r2, rest2)" by fastforce
          note p2 = pop_part_cases[OF pop2]
          let ?c2 = "?c1\<lparr>hc_late_queue := rest2\<rparr>"
          have cnt: "coord_counts ?c2 W" using J1(1)[OF J(1)] p2(1) by (auto simp: coord_counts_def)
          show ?thesis
          proof (cases r2)
            case None
            then have res: "r = None" "c' = ?c2"
              using assms(1) run ranges pop early True pop2 by (auto simp: hybrid_dispatch_next_def Let_def)
            have "coord_results ?c2 W a"
              using J1(2)[OF J(2)] p2(4) None by (auto simp: coord_results_def)
            then show ?thesis
              unfolding res using cnt p1(2)[OF early] p2(2)[OF None] ranges
              by (simp add: new_work_def no_work_def)
          next
            case (Some p)
            then have res: "r = Some (Part p)" "c' = dispatch_part p ?c2"
              using assms(1) run ranges pop early True pop2 by (auto simp: hybrid_dispatch_next_def Let_def)
            have p: "p < length (hc_part_dispatched c)" using p2(3)[OF Some] J(1) by (auto simp: coord_counts_def)
            have "coord_results (dispatch_part p ?c2) (add_mset (Part p) W) a"
              using J1(2)[OF J(2)] p2(4) Some p
              by (auto simp: coord_results_def dispatch_part_def nth_list_update)
            moreover have "coord_counts (dispatch_part p ?c2) (add_mset (Part p) W)"
              using cnt p run by (auto simp: coord_counts_def dispatch_part_def)
            ultimately show ?thesis unfolding res by (simp add: new_work_def dispatch_part_def)
          qed
        qed
      qed
    qed
  qed
  then show "coord_counts c' (W + new_work r)" "coord_results c' (W + new_work r) a"
    "hc_cancel_requested c' = hc_cancel_requested c" "hc_in_flight c' = hc_in_flight c + size (new_work r)"
    "r = None \<Longrightarrow> \<not> hc_cancel_requested c \<Longrightarrow> hc_in_flight c < hc_max_concurrent c \<Longrightarrow> no_work c'"
    by blast+
qed

lemma active_work_add [simp]: "active_work (add_mset x M) = activity_work x + active_work M"
  by (simp add: active_work_def)

lemma active_work_remove: "x \<in># M \<Longrightarrow> active_work M = activity_work x + active_work (M - {#x#})"
  by (metis active_work_add insert_DiffM)

lemma main_work_notify [simp]: "main_work (hybrid_notify b m) = main_work m"
  by (simp add: hybrid_notify_def)

lemma notify_Batch [simp]: "hybrid_notify b m = Batch \<longleftrightarrow> m = Batch"
  by (simp add: hybrid_notify_def)

lemma callback_end_inv:
  assumes "coord_counts c (active_work M + main_work m)"
    and "coord_results c (active_work M + main_work m) (Assembling \<in># M)"
  shows "hybrid_inv (callback_end c M m)"
proof -
  obtain r c' where d: "hybrid_dispatch_next c = (r, c')" by fastforce
  note keeps = dispatch_keeps[OF d assms]
  show ?thesis
  proof (cases r)
    case (Some w)
    then show ?thesis
      using d keeps(1,2)
      by (simp add: callback_end_def hybrid_inv_def works_def at_rest_def new_work_def union_ac)
  next
    case None
    have "no_work c'" if "active_work M + main_work m = {#}" "\<not> hc_cancel_requested c'"
      using keeps(3,5) None that assms(1) by (auto simp: coord_counts_def)
    then show ?thesis
      using d keeps(1,2) None
      by (auto simp: callback_end_def hybrid_inv_def works_def at_rest_def new_work_def)
  qed
qed

lemma range_finish_keeps:
  assumes "hybrid_cd_range_finish e i d c = (f, c')"
    and "coord_counts c (add_mset (Range i) W)" and "coord_results c (add_mset (Range i) W) a"
  shows "coord_counts c' W" and "coord_results c' W (a \<or> f)"
  using assms
  by (auto simp: hybrid_cd_range_finish_def Let_def hybrid_note_error_def coord_counts_def coord_results_def
      split: if_splits)

lemma part_finish_keeps:
  assumes "coord_counts c (add_mset (Part p) W)" and "coord_results c (add_mset (Part p) W) a"
  shows "coord_counts (hybrid_part_finish e p c) W" and "coord_results (hybrid_part_finish e p c) W a"
  using assms
  by (auto simp: hybrid_part_finish_def Let_def hybrid_note_error_def coord_counts_def coord_results_def
      nth_list_update split: if_splits)

lemma launch_failed_keeps:
  assumes "coord_counts c (add_mset w W)" and "coord_results c (add_mset w W) a"
  shows "coord_counts (hybrid_launch_failed c) W" and "coord_results (hybrid_launch_failed c) W a"
  using assms by (auto simp: hybrid_launch_failed_def coord_counts_def coord_results_def)

lemma launch_failed_cancels [simp]: "hc_cancel_requested (hybrid_launch_failed c)"
  by (simp add: hybrid_launch_failed_def)

lemma directory_done_keeps:
  assumes "coord_counts c W" and "coord_results c W a"
    and fits: "\<And>cd segs. result = Some (cd, segs) \<Longrightarrow> length (cp_parts cd) \<le> length (hc_part_dispatched c)"
  shows "coord_counts (hybrid_directory_done result c) W"
    and "coord_results (hybrid_directory_done result c) W b"
proof -
  show "coord_counts (hybrid_directory_done result c) W"
    using assms(1) fits
    by (fastforce simp: hybrid_directory_done_def coord_counts_def late_queue_mem split: option.splits prod.splits)
  show "coord_results (hybrid_directory_done result c) W b"
    using assms(2) fits
    by (auto simp: hybrid_directory_done_def coord_results_def late_queue_mem split: option.splits prod.splits)
qed

text \<open>The arrays are as long as the number of parts that a parsed directory can have.\<close>

definition directory_fits ::
  "nat \<Rightarrow> (bytes option list \<Rightarrow> (central_dir_parse_result \<times> body_data_segment option list) option) \<Rightarrow> bool" where
  "directory_fits n assembled \<longleftrightarrow>
     (\<forall>bufs cd segs. assembled bufs = Some (cd, segs) \<longrightarrow> length (cp_parts cd) \<le> n)"

lemma hybrid_inv_step:
  assumes "hybrid_step answer assembled s s'" and inv: "hybrid_inv s"
    and fits: "directory_fits (length (hc_part_dispatched (hr_coord s))) assembled"
  shows "hybrid_inv s'"
proof -
  note J = inv[unfolded hybrid_inv_def works_def]
  note J1 = conjunct1[OF J] and J2 = conjunct1[OF conjunct2[OF J]]
  from assms(1) show ?thesis
  proof (cases rule: hybrid_step.cases)
    case (batch_dispatches w c)
    with dispatch_keeps[OF batch_dispatches(4) J1 J2] show ?thesis
      by (simp add: hybrid_inv_def works_def at_rest_def new_work_def)
  next
    case (batch_idle c)
    with dispatch_keeps[OF batch_idle(4) J1 J2] show ?thesis
      by (auto simp: hybrid_inv_def works_def at_rest_def new_work_def)
  next
    case batch_full
    then show ?thesis
      using J by (auto simp: hybrid_inv_def works_def at_rest_def coord_counts_def)
  next
    case (batch_launched w prev)
    then show ?thesis using J by (simp add: hybrid_inv_def works_def at_rest_def)
  next
    case (batch_launch_fails w prev)
    then have W: "active_work (hr_active s) + main_work (hr_main s) = add_mset w (active_work (hr_active s))"
      by simp
    show ?thesis
      using launch_failed_keeps[OF J1[unfolded W] J2[unfolded W]] batch_launch_fails
      by (simp add: hybrid_inv_def works_def at_rest_def)
  next
    case (batch_continues prev)
    then show ?thesis using J by (auto simp: hybrid_inv_def works_def at_rest_def)
  next
    case hybrid_sleeps
    then show ?thesis using J by (auto simp: hybrid_inv_def works_def at_rest_def)
  next
    case hybrid_returns
    then show ?thesis using J by (auto simp: hybrid_inv_def works_def at_rest_def)
  next
    case (range_done i e c)
    have W: "active_work (hr_active s) + main_work (hr_main s) =
        add_mset (Range i) (active_work (hr_active s - {#Busy (Range i)#}) + main_work (hr_main s))"
      using active_work_remove[OF range_done(2)] by simp
    have "Assembling \<in># hr_active s - {#Busy (Range i)#} \<longleftrightarrow> Assembling \<in># hr_active s"
      by (rule in_remove_other) simp
    then show ?thesis
      using range_finish_keeps[OF range_done(3) J1[unfolded W] J2[unfolded W]] unfolding range_done(1)
      by (intro callback_end_inv) auto
  next
    case (last_range_done i e c)
    have W: "active_work (hr_active s) + main_work (hr_main s) =
        add_mset (Range i) (active_work (hr_active s - {#Busy (Range i)#}) + main_work (hr_main s))"
      using active_work_remove[OF last_range_done(2)] by simp
    show ?thesis
      using range_finish_keeps[OF last_range_done(3) J1[unfolded W] J2[unfolded W]] unfolding last_range_done(1)
      by (simp add: hybrid_inv_def works_def at_rest_def)
  next
    case (directory_done result)
    have W: "active_work (hr_active s) = active_work (hr_active s - {#Assembling#})"
      using active_work_remove[OF directory_done(2)] by simp
    have "length (cp_parts cd) \<le> length (hc_part_dispatched (hr_coord s))" if "result = Some (cd, segs)" for cd segs
      using that directory_done(3) fits unfolding directory_fits_def by (metis option.distinct(1))
    then show ?thesis
      using directory_done_keeps[OF J1[unfolded W] J2[unfolded W]] unfolding directory_done(1)
      by (intro callback_end_inv) blast+
  next
    case (part_done p e)
    have W: "active_work (hr_active s) + main_work (hr_main s) =
        add_mset (Part p) (active_work (hr_active s - {#Busy (Part p)#}) + main_work (hr_main s))"
      using active_work_remove[OF part_done(2)] by simp
    have "Assembling \<in># hr_active s - {#Busy (Part p)#} \<longleftrightarrow> Assembling \<in># hr_active s"
      by (rule in_remove_other) simp
    then show ?thesis
      using part_finish_keeps[OF J1[unfolded W] J2[unfolded W]] unfolding part_done(1)
      by (intro callback_end_inv) auto
  next
    case (callback_launched w)
    have "Assembling \<in># hr_active s - {#Launch w#} \<longleftrightarrow> Assembling \<in># hr_active s"
      by (rule in_remove_other) simp
    then show ?thesis
      using J callback_launched active_work_remove[OF callback_launched(2)]
      by (simp add: hybrid_inv_def works_def at_rest_def)
  next
    case (callback_launch_fails w c)
    have W: "active_work (hr_active s) + main_work (hr_main s) =
        add_mset w (active_work (hr_active s - {#Launch w#}) + main_work (hr_main s))"
      using active_work_remove[OF callback_launch_fails(2)] by simp
    have "Assembling \<in># hr_active s - {#Launch w#} \<longleftrightarrow> Assembling \<in># hr_active s"
      by (rule in_remove_other) simp
    then show ?thesis
      using launch_failed_keeps[OF J1[unfolded W] J2[unfolded W]] unfolding callback_launch_fails(1,3)
      by (simp add: hybrid_inv_def works_def at_rest_def)
  next
    case callback_relocks
    have "Assembling \<in># hr_active s - {#Relock#} \<longleftrightarrow> Assembling \<in># hr_active s"
      by (rule in_remove_other) simp
    then show ?thesis
      using J callback_relocks active_work_remove[OF callback_relocks(2)]
      by (auto simp: hybrid_inv_def works_def at_rest_def)
  qed
qed

lemma dispatch_length:
  "hybrid_dispatch_next c = (r, c') \<Longrightarrow> length (hc_part_dispatched c') = length (hc_part_dispatched c)"
  by (auto simp: hybrid_dispatch_next_def Let_def dispatch_part_def split: if_splits prod.splits option.splits)

lemma callback_end_length:
  "length (hc_part_dispatched (hr_coord (callback_end c M m))) = length (hc_part_dispatched c)"
  using dispatch_length[of c] by (auto simp: callback_end_def split: prod.splits option.splits)

lemma hybrid_step_length:
  "hybrid_step answer assembled s s' \<Longrightarrow>
   length (hc_part_dispatched (hr_coord s')) = length (hc_part_dispatched (hr_coord s))"
proof (induction rule: hybrid_step.induct)
  case (range_done i s e c)
  then show ?case
    by (auto simp: callback_end_length hybrid_cd_range_finish_def Let_def hybrid_note_error_def split: if_splits)
next
  case (last_range_done i s e c)
  then show ?case
    by (auto simp: hybrid_cd_range_finish_def Let_def hybrid_note_error_def split: if_splits)
qed (auto simp: callback_end_length dispatch_length hybrid_launch_failed_def hybrid_directory_done_def
    hybrid_part_finish_def Let_def hybrid_note_error_def split: option.splits prod.splits)

lemma hybrid_inv_reachable:
  assumes "(hybrid_step answer assembled)\<^sup>*\<^sup>* (start_hybrid c) s" and "hybrid_inv (start_hybrid c)"
    and "directory_fits (length (hc_part_dispatched c)) assembled"
  shows "hybrid_inv s" and "length (hc_part_dispatched (hr_coord s)) = length (hc_part_dispatched c)"
proof -
  have "hybrid_inv s \<and> length (hc_part_dispatched (hr_coord s)) = length (hc_part_dispatched c)"
    using assms(1)
  proof (induction rule: rtranclp_induct)
    case base
    then show ?case using assms(2) by (simp add: start_hybrid_def)
  next
    case (step s s')
    then show ?case using hybrid_inv_step[of answer assembled s s'] hybrid_step_length assms(3) by simp
  qed
  then show "hybrid_inv s" "length (hc_part_dispatched (hr_coord s)) = length (hc_part_dispatched c)" by auto
qed

text \<open>A fresh coordinator: every early part lies inside the arrays, because it starts before the tail
  buffer, which ends with the archive.\<close>

lemma part_inside:
  fixes part_len :: u64
  assumes "0 < unat part_len" and "unat part_len < 2 ^ 32" and "unat archive + unat part_len < 2 ^ 64"
    and "part_start_of part_len p < start" and "unat start \<le> unat archive"
  shows "unat p < unat ((archive + part_len - 1) div part_len)"
proof -
  let ?l = "unat part_len"
  have "unat (archive + part_len - 1) = unat archive + ?l - 1"
  proof -
    have "archive + part_len - 1 = of_nat (unat archive + ?l - 1)" using assms(1) by (simp add: of_nat_diff)
    then show ?thesis using assms(3) by (simp add: unat_of_nat del: of_nat_diff)
  qed
  then have m: "unat ((archive + part_len - 1) div part_len) = (unat archive + ?l - 1) div ?l"
    by (simp add: unat_div)
  have "unat p * ?l < unat archive"
    using assms(4,5) unat_part_start[OF assms(2), of p] by (simp add: word_less_nat_alt)
  then have "Suc (unat p) * ?l \<le> unat archive + ?l - 1" using assms(1) by simp
  then have "Suc (unat p) \<le> (unat archive + ?l - 1) div ?l"
    using assms(1) by (simp only: less_eq_div_iff_mult_less_eq)
  then show ?thesis unfolding m by simp
qed

lemma early_queue_start:
  assumes "build_early_part_queue part_len start m fs = Some q" and "p \<in> set q"
  shows "part_start_of part_len p < start"
  using assms queue_early_parts_mem[of part_len start m _ _ "[]" fs q p]
  by (auto simp: build_early_part_queue_def Let_def split: if_splits)

lemma hybrid_inv_create:
  assumes "hybrid_coordinator_create mc cfg np fs = Some c" and "0 < mc" and "hy_cd_ranges cfg \<noteq> []"
    and "0 < unat (hy_part_size cfg)" and "unat (hy_part_size cfg) < 2 ^ 32"
    and "unat (hy_archive_size cfg) + unat (hy_part_size cfg) < 2 ^ 64"
    and "unat (hy_initial_start cfg) \<le> unat (hy_archive_size cfg)"
  shows "hybrid_inv (start_hybrid c)"
proof -
  let ?m = "unat ((hy_archive_size cfg + hy_part_size cfg - 1) div hy_part_size cfg)"
  obtain q where q: "build_early_part_queue (hy_part_size cfg) (hy_initial_start cfg) ?m fs = Some q"
    using assms(1) by (auto simp: hybrid_coordinator_create_def Let_def split: option.splits)
  have "unat p < ?m" if "p \<in> set q" for p
    using part_inside[OF assms(4-6) early_queue_start[OF q that] assms(7)] .
  then show ?thesis
    using assms(1,2,3) q
    by (auto simp: hybrid_coordinator_create_def Let_def start_hybrid_def hybrid_inv_def works_def
        active_work_def coord_counts_def coord_results_def at_rest_def)
qed

section \<open>Properties\<close>

text \<open>C35: the hybrid download is complete. When the main thread has returned, no callback is left and
  nothing was cancelled, the directory has been assembled, and every part that holds body data and
  is not covered by a buffered segment has been downloaded.\<close>

theorem hybrid_downloads_complete:
  assumes "hybrid_coordinator_create mc cfg np fs = Some c" and "0 < mc" and "hy_cd_ranges cfg \<noteq> []"
    and "0 < unat (hy_part_size cfg)" and "unat (hy_part_size cfg) < 2 ^ 32"
    and "unat (hy_archive_size cfg) + unat (hy_part_size cfg) < 2 ^ 64"
    and "unat (hy_initial_start cfg) \<le> unat (hy_archive_size cfg)"
    and "directory_fits (length (hc_part_dispatched c)) assembled"
    and "(hybrid_step answer assembled)\<^sup>*\<^sup>* (start_hybrid c) s"
    and "hr_main s = Main_joined" and "hr_active s = {#}" and "\<not> hc_cancel_requested (hr_coord s)"
  shows "hc_cd_complete (hr_coord s) \<and>
    (\<forall>p < hc_num_parts (hr_coord s).
       part_needed (hc_part_size (hr_coord s)) (hc_cd_offset (hr_coord s)) (hc_body_segments (hr_coord s)) p
       \<longrightarrow> hc_part_complete (hr_coord s) ! p)"
proof -
  have inv: "hybrid_inv s"
    using hybrid_inv_reachable(1)[OF assms(9) hybrid_inv_create[OF assms(1-7)] assms(8)] .
  have W: "works s = {#}" using assms(10,11) by (simp add: works_def active_work_def)
  then have "no_work (hr_coord s)" using inv assms(10-12) by (simp add: hybrid_inv_def at_rest_def)
  moreover have "hc_cd_ranges_dispatched (hr_coord s) \<le> hc_cd_ranges_total (hr_coord s)"
    using inv by (simp add: hybrid_inv_def coord_counts_def)
  ultimately show ?thesis
    using inv W assms(11,12) by (auto simp: hybrid_inv_def coord_results_def no_work_def)
qed

text \<open>One range, one early part, two requests at a time.\<close>

definition demo_config :: hybrid_config where
  "demo_config =
     \<lparr>hy_part_size = 8388608, hy_archive_size = 25165824, hy_is_zip64 = True, hy_initial_buffer = [],
      hy_initial_start = 16777216,
      hy_cd_ranges = [\<lparr>cr_start = 8388608, cr_end = 16777215, cr_has_body_data = True, cr_body_data_size = 1\<rparr>]\<rparr>"

definition demo_hybrid :: hybrid_download_coordinator where
  "demo_hybrid =
     \<lparr>hc_max_concurrent = 2, hc_part_size = 8388608, hc_cd_ranges_total = 1, hc_cd_ranges_dispatched = 0,
      hc_cd_ranges_completed = 0, hc_cd_complete = False, hc_cd_buffers = [None], hc_num_parts = 3,
      hc_cd_offset = 0, hc_body_segments = [], hc_part_dispatched = [False, False, False],
      hc_part_complete = [False, False, False], hc_early_queue = [0], hc_late_queue = [], hc_in_flight = 0,
      hc_cancel_requested = False, hc_first_error_code = 0\<rparr>"

lemma demo_hybrid_create:
  "hybrid_coordinator_create 2 demo_config 3 [example_file 0, example_file 16777216] = Some demo_hybrid"
proof -
  have "replicate 3 False = [False, False, False]" by (simp add: numeral_3_eq_3)
  then show ?thesis
    by (simp add: hybrid_coordinator_create_def demo_config_def demo_hybrid_def build_early_part_queue_def
        example_file_def part_start_of_def UINT32_MAX_def Let_def)
qed

text \<open>Both requests are launched and the range has arrived: the directory is being assembled.\<close>

definition demo_assembling :: "bytes \<Rightarrow> hybrid_run" where
  "demo_assembling data =
     \<lparr>hr_coord = demo_hybrid\<lparr>hc_cd_ranges_dispatched := 1, hc_cd_ranges_completed := 1,
        hc_cd_buffers := [Some data], hc_part_dispatched := [True, False, False], hc_early_queue := [],
        hc_in_flight := 1\<rparr>,
      hr_main = Main_waiting True, hr_active = {#Assembling, Busy (Part 0)#}\<rparr>"

lemma demo_reaches_assembling:
  "(hybrid_step answer assembled)\<^sup>*\<^sup>* (start_hybrid demo_hybrid) (demo_assembling (answer 0))"
proof -
  let ?R = "hybrid_step answer assembled"
  define s0 where "s0 = start_hybrid demo_hybrid"
  define c1 where "c1 = demo_hybrid\<lparr>hc_cd_ranges_dispatched := 1, hc_in_flight := 1\<rparr>"
  define c2 where "c2 = c1\<lparr>hc_part_dispatched := [True, False, False], hc_early_queue := [], hc_in_flight := 2\<rparr>"
  define s1 where "s1 = s0\<lparr>hr_coord := c1, hr_main := Batch_launch (Range 0) (hc_in_flight (hr_coord s0))\<rparr>"
  define s2 where "s2 = s1\<lparr>hr_main := Batch_relock 0, hr_active := add_mset (Busy (Range 0)) (hr_active s1)\<rparr>"
  define s3 where "s3 = s2\<lparr>hr_main := (if hc_in_flight (hr_coord s2) = 0 then Main_waiting True else Batch)\<rparr>"
  define s4 where "s4 = s3\<lparr>hr_coord := c2, hr_main := Batch_launch (Part 0) (hc_in_flight (hr_coord s3))\<rparr>"
  define s5 where "s5 = s4\<lparr>hr_main := Batch_relock 1, hr_active := add_mset (Busy (Part 0)) (hr_active s4)\<rparr>"
  define s6 where "s6 = s5\<lparr>hr_main := (if hc_in_flight (hr_coord s5) = 1 then Main_waiting True else Batch)\<rparr>"
  define s7 where "s7 = s6\<lparr>hr_main := Main_waiting True\<rparr>"
  define c3 where "c3 = snd (hybrid_cd_range_finish 0 0 (answer 0) c2)"
  define s8 where "s8 = s7\<lparr>hr_coord := c3, hr_active := add_mset Assembling (hr_active s7 - {#Busy (Range 0)#})\<rparr>"
  note defs = s8_def c3_def s7_def s6_def s5_def s4_def s3_def s2_def s1_def s0_def c2_def c1_def
    start_hybrid_def demo_hybrid_def hybrid_dispatch_next_def hybrid_cd_range_finish_def dispatch_part_def Let_def
  have "?R\<^sup>*\<^sup>* s0 s1"
    unfolding s1_def by (rule r_into_rtranclp, rule batch_dispatches) (simp_all add: defs)
  then have "?R\<^sup>*\<^sup>* s0 s2"
    unfolding s2_def by (rule steps_then, intro batch_launched) (simp add: defs)
  then have "?R\<^sup>*\<^sup>* s0 s3"
    unfolding s3_def by (rule steps_then, intro batch_continues) (simp add: defs)
  then have "?R\<^sup>*\<^sup>* s0 s4"
    unfolding s4_def by (rule steps_then, intro batch_dispatches) (simp_all add: defs)
  then have "?R\<^sup>*\<^sup>* s0 s5"
    unfolding s5_def by (rule steps_then, intro batch_launched) (simp add: defs)
  then have "?R\<^sup>*\<^sup>* s0 s6"
    unfolding s6_def by (rule steps_then, intro batch_continues) (simp add: defs)
  then have "?R\<^sup>*\<^sup>* s0 s7"
    unfolding s7_def by (rule steps_then, intro batch_full) (simp_all add: defs)
  then have "?R\<^sup>*\<^sup>* s0 s8"
    unfolding s8_def by (rule steps_then, intro last_range_done[where i = 0 and e = 0]) (simp_all add: defs)
  moreover have "s8 = demo_assembling (answer 0)" by (simp add: demo_assembling_def defs)
  ultimately show ?thesis by (simp add: s0_def)
qed

text \<open>C36: the hybrid coordinator may return too early. While the directory is assembled, the mutex is
  free and its thread is not counted: when the early part finishes in that window, the main thread
  returns without an error, with the directory still being assembled and parts never requested, and
  its caller destroys the coordinator that the callback is going to use.\<close>

theorem hybrid_returns_early:
  "\<exists>s. (hybrid_step answer assembled)\<^sup>*\<^sup>* (start_hybrid demo_hybrid) s \<and>
     hr_main s = Main_joined \<and> \<not> hc_cancel_requested (hr_coord s) \<and>
     hr_active s = {#Assembling#} \<and> \<not> hc_cd_complete (hr_coord s) \<and>
     hc_part_dispatched (hr_coord s) = [True, False, False]"
proof -
  let ?R = "hybrid_step answer assembled"
  define s8 where "s8 = demo_assembling (answer 0)"
  define s9 where "s9 = callback_end (hybrid_part_finish 0 0 (hr_coord s8)) (hr_active s8 - {#Busy (Part 0)#}) (hr_main s8)"
  define s10 where "s10 = s9\<lparr>hr_main := Main_joined\<rparr>"
  note defs = s10_def s9_def s8_def demo_assembling_def callback_end_def hybrid_part_finish_def
    hybrid_dispatch_next_def hybrid_notify_def demo_hybrid_def Let_def
  have "?R\<^sup>*\<^sup>* (start_hybrid demo_hybrid) s8" unfolding s8_def by (rule demo_reaches_assembling)
  then have "?R\<^sup>*\<^sup>* (start_hybrid demo_hybrid) s9"
    unfolding s9_def by (rule steps_then, intro part_done) (simp add: s8_def demo_assembling_def)
  then have "?R\<^sup>*\<^sup>* (start_hybrid demo_hybrid) s10"
    unfolding s10_def by (rule steps_then, intro hybrid_returns) (simp_all add: defs)
  then show ?thesis by (rule exI[of _ s10, OF conjI]) (simp add: defs)
qed

text \<open>The same run with the directory assembled first.\<close>

definition demo_directory :: "central_dir_parse_result \<times> body_data_segment option list" where
  "demo_directory =
     (\<lparr>cp_files = [], cp_parts = [\<lparr>pf_entries = [], pf_continuing_file = None\<rparr>], cp_central_dir_offset = 100,
       cp_central_dir_size = 0, cp_is_zip64 = True\<rparr>, [])"

lemma demo_hybrid_completes:
  "\<exists>s. (hybrid_step (\<lambda>i. []) (\<lambda>bufs. Some demo_directory))\<^sup>*\<^sup>* (start_hybrid demo_hybrid) s \<and>
     hr_main s = Main_joined \<and> hr_active s = {#} \<and> \<not> hc_cancel_requested (hr_coord s)"
proof -
  let ?R = "hybrid_step (\<lambda>i. []) (\<lambda>bufs. Some demo_directory)"
  define s8 where "s8 = demo_assembling []"
  define s9 where "s9 = callback_end (hybrid_directory_done (Some demo_directory) (hr_coord s8))
    (hr_active s8 - {#Assembling#}) (hr_main s8)"
  define s10 where "s10 = callback_end (hybrid_part_finish 0 0 (hr_coord s9)) (hr_active s9 - {#Busy (Part 0)#}) (hr_main s9)"
  define s11 where "s11 = s10\<lparr>hr_main := Main_joined\<rparr>"
  note defs = s11_def s10_def s9_def s8_def demo_assembling_def callback_end_def hybrid_part_finish_def
    hybrid_dispatch_next_def hybrid_notify_def demo_hybrid_def Let_def hybrid_directory_done_def
    demo_directory_def build_late_part_queue_def
  have "?R\<^sup>*\<^sup>* (start_hybrid demo_hybrid) s8" unfolding s8_def using demo_reaches_assembling[of "\<lambda>i. []"] by simp
  then have "?R\<^sup>*\<^sup>* (start_hybrid demo_hybrid) s9"
    unfolding s9_def by (rule steps_then, intro directory_done) (simp_all add: s8_def demo_assembling_def)
  then have "?R\<^sup>*\<^sup>* (start_hybrid demo_hybrid) s10"
    unfolding s10_def by (rule steps_then, intro part_done) (simp add: defs)
  then have "?R\<^sup>*\<^sup>* (start_hybrid demo_hybrid) s11"
    unfolding s11_def by (rule steps_then, intro hybrid_returns) (simp_all add: defs)
  then show ?thesis by (rule exI[of _ s11, OF conjI]) (simp add: defs)
qed

theorem hybrid_downloads_complete_witness:
  "\<exists>s. (hybrid_step (\<lambda>i. []) (\<lambda>bufs. Some demo_directory))\<^sup>*\<^sup>* (start_hybrid demo_hybrid) s \<and>
     hc_cd_complete (hr_coord s)"
proof -
  obtain s where s: "(hybrid_step (\<lambda>i. []) (\<lambda>bufs. Some demo_directory))\<^sup>*\<^sup>* (start_hybrid demo_hybrid) s"
    "hr_main s = Main_joined" "hr_active s = {#}" "\<not> hc_cancel_requested (hr_coord s)"
    using demo_hybrid_completes by blast
  have "directory_fits (length (hc_part_dispatched demo_hybrid)) (\<lambda>bufs. Some demo_directory)"
    by (simp add: directory_fits_def demo_directory_def demo_hybrid_def)
  from hybrid_downloads_complete[OF demo_hybrid_create _ _ _ _ _ _ this s] s(1) show ?thesis
    by (auto simp: demo_config_def)
qed

end
