(* ===== verification/Spec2Isabelle.thy ===== *)
theory Spec2Isabelle
  imports Archive_Parts Boundary_Trailer Directory_Roundtrip Untrusted_Input Hybrid_Coordinator
begin

text \<open>
  The BURST archive tools: a verification library for the writer and the downloader.

  A BURST archive is a ZIP file whose file data are Zstandard frames and whose layout respects 8 MiB
  boundaries: at every boundary stands either a local file header or a Start-of-Part frame, so that
  each part can be extracted without the parts before it. The writer (\<open>src/writer/\<close>) produces such
  archives; the downloader (\<open>src/downloader/\<close>) fetches the end of the archive from S3, reads the central
  directory, fetches the parts concurrently and extracts each part as its bytes arrive.

  \<^bold>\<open>Writer.\<close>
  \<^item> \<open>Zip_Structures\<close> (\<open>zip_structures.h\<close>, \<open>zip_structures.c\<close>): the packed records and their byte layout.
  \<^item> \<open>Writer_Core\<close> (\<open>burst_writer.c\<close>, \<open>compression.c\<close>): \<open>struct burst_writer\<close>, its buffered output with short
    writes and failing allocations, the list of entries. The locales \<open>byte_sink\<close> and \<open>live_byte_sink\<close> are what
    the writer of the records relies on: bytes are appended, or the call fails.
  \<^item> \<open>Alignment\<close> (\<open>alignment.h\<close>, \<open>alignment.c\<close>): the decision for the next frame, padding and Start-of-Part
    frames.
  \<^item> \<open>Burst_Writer\<close>: \<open>burst_writer_add_file\<close>, \<open>burst_writer_add_symlink\<close>, \<open>burst_writer_add_directory\<close> and
    \<open>burst_writer_finalize\<close>. \<open>Writer_Body\<close>, \<open>Writer_Spec\<close> and \<open>Writer_Final\<close> specify them by pure functions of
    the write position (\<open>body_items\<close>, \<open>file_record\<close>, \<open>archive_tail\<close>) and prove that the operations refine them;
    \<open>Writer_Properties\<close> has the consequences.
  \<^item> \<open>Entry_Processor\<close> (\<open>entry_processor.c\<close>) builds the local headers, \<open>Writer_Main\<close> (\<open>main.c\<close>) has the list of files, the
    walk over the directories and the run of the command.

  \<^bold>\<open>Reading the directory.\<close>
  \<^item> \<open>Central_Dir_Parser\<close>, \<open>Part_Map\<close> (\<open>central_dir_parser.c\<close>): end records, entries, extra fields, and the map from
    parts to the files in them. \<open>qsort\<close> is an argument with the contract \<open>c_qsort\<close>.
  \<^item> \<open>Directory_Roundtrip\<close>: what the writer appends is read back; \<open>Parser_Safety\<close>: arbitrary input is never
    read outside the buffer, with the exceptions stated there.

  \<^bold>\<open>Extracting a part.\<close>
  \<^item> \<open>Frame_Parser\<close> (\<open>frame_parser.c\<close>), \<open>Btrfs_Writer\<close> (\<open>btrfs_writer.c\<close>), \<open>Stream_Processor\<close> (\<open>stream_processor.c\<close>): the state
    machine with its seven states, over the file system of \<open>Posix\<close>, whose calls may fail as a plan says.
  \<^item> \<open>Stream_Safety\<close>, \<open>Output_Files\<close>, \<open>File_Extraction\<close>, \<open>Stream_Properties\<close>: the loop ends and is memory safe for every
    sequence of answers of the system, errors are permanent, and a file of the writer is restored.
  \<^item> \<open>Stream_Steps\<close>, \<open>Chunked_Stream\<close>: the handlers depend on the bytes and not on how they are cut, so the pieces
    in which a part arrives do not matter.
  \<^item> \<open>Untrusted_Input\<close>: a directory of arbitrary bytes that the parser accepts has the shape that the processor
    relies on, and its parts can be processed on arbitrary bytes without an access outside an object.

  \<^bold>\<open>Fetching.\<close>
  \<^item> \<open>S3_Requests\<close> (\<open>s3_operations.c\<close>): messages, response headers, and the requests that wait for their end.
  \<^item> \<open>Cd_Fetch\<close> (\<open>cd_fetch.c\<close>): which ranges are missing and how the directory is assembled from them; also
    \<open>calculate_parts_to_download\<close> (\<open>parts_calculation.c\<close>), which only its unit test calls.
  \<^item> \<open>Range_Fetch\<close>, \<open>Part_Download\<close>, \<open>Hybrid_Queues\<close>, \<open>Hybrid_Coordinator\<close> (\<open>cd_fetch.c\<close>, \<open>s3_operations.c\<close>):
    the three coordinators as step relations. A step is a section under the mutex, a request that
    is started between two sections, or a wake-up; every interleaving of the main thread and the
    callbacks is a run. \<open>Worker_Pool\<close> has the laws that give termination and the absence of lost
    wake-ups, interpreted by the first two.
  \<^item> \<open>Part_Requests\<close>, \<open>Hybrid_Requests\<close>: the callbacks and requests of parts, and the parts that are processed from
    memory. \<open>S3_Client\<close> (\<open>s3_client.c\<close>): the objects of the SDK, with a log of what is created and released.
    \<open>Downloader_Main\<close> (\<open>main.c\<close>): options and \<open>burst_downloader_extract\<close>, which composes all of it.

  \<^bold>\<open>Both programs.\<close>
  \<^item> \<open>Entry_Extraction\<close> has what the part processor makes of directories, empty files and links; \<open>Archive_Records\<close> follows
    the items of the writer's list into the archive, \<open>Item_Extraction\<close> from there into the file system, and
    \<open>Tree_Paths\<close> shows that the items of a tree can be created one after the other. \<open>Archive_Extraction\<close> composes
    the two commands for archives of one part.
  \<^item> Archives of many parts: \<open>Fragment_Extraction\<close> follows the part processor through a fragment of a file that begins or
    ends at a boundary; \<open>Record_Pieces\<close> and \<open>Placed_Records\<close> cut the records of the writer at the boundaries and say
    which bytes of which item a part holds (\<open>pieces\<close>); \<open>Part_Pieces\<close> shows that a part leaves exactly its pieces,
    \<open>Parts_Delivered\<close> that the pieces of all parts make the items, in any order, and \<open>Archive_Parts\<close> composes this
    with the part map and the commands.
  \<^item> \<open>Boundary_Trailer\<close> has the archives of the writer that the part map of the downloader misjudges.

  \<^bold>\<open>Conventions.\<close> Integers are words of their width, \<open>size_t\<close> has 64 bits; offsets wrap around as in C.
  Results are \<open>outcome\<close>s: \<open>Ok\<close>, \<open>Error\<close> with the code, or \<open>Fault\<close> for an access outside an object; a handler
  of the part processor returns \<open>None\<close>, and the loop \<open>Crash\<close>, for the latter. The environment is explicit:
  lists of results of allocations (an empty list grants all), limits of \<open>fwrite\<close>, answers of system calls, the
  functions of libzstd and the S3 client. Functions that a section does not look into are arguments.

  \<^bold>\<open>Bounds and termination.\<close> The loop of the part processor is a \<open>partial_function\<close>, so that not returning is
  the value \<open>None\<close>; it is shown to return unless the data hold a skippable frame whose size wraps around,
  and not to return for such a frame. \<open>parse_entries\<close> counts down the number of entries that the code
  reads at most. The other loops are structural or have a measure. \<open>budget p n\<close> says that
  \<open>n\<close> chunks of at most two parts each end before \<open>2 ^ 62\<close>, which keeps all offsets of the writer in range; archives of
  any practical size satisfy it. The composition of both programs is proved for whole directory trees:
  from the command to the files in archives of one part (8 MiB), and for larger archives part by part, in any order but one
  at a time, whenever the part map sees the boundaries; when it does not, \<open>Boundary_Trailer\<close> shows that the part is
  rejected. That every part is requested is the subject of the coordinators, and that the pieces in which
  its bytes arrive do not matter that of \<open>Chunked_Stream\<close>.

  \<^bold>\<open>Not modelled.\<close> \<open>profiling.c\<close> only counts and prints, and libzstd, the AWS SDK and the
  kernel are not part of the sources: what the proofs need of them are named hypotheses. Output on the
  terminal, \<open>getopt\<close>, usage texts, functions that only free memory and \<open>is_btrfs_filesystem\<close>, which selects a message, are left
  out, and so are the tests and scripts. In \<open>Posix\<close> the component \<open>..\<close> and symbolic links inside a path are
  not followed, and permissions are recorded but not enforced (a refusal is an answer of the plan).
\<close>

section \<open>Properties of finished archives\<close>

text \<open>The end records. From any suffix of a finished archive that contains its end records, the
  downloader reads back where the central directory starts, its size, the number of entries and
  the offset that the writer stored in the comment.\<close>

lemma end_records_roundtrip:
  assumes "writer_wf w" and "burst_writer_finalize w = (0, w')" and "names_fit (files w)"
    and "archive_size (length (stream w)) (files w) < 2 ^ 62"
    and "k \<le> length (stream w) + length (central_directory (files w))"
  shows "central_dir_parse_eocd_only (drop k (out_written (output_file w')))
           (of_nat (length (out_written (output_file w')))) True
       = Ok \<lparr>eo_central_dir_offset = of_nat (length (stream w)),
             eo_central_dir_size = of_nat (length (central_directory (files w))),
             eo_num_entries = Some (of_nat (num_files w)), eo_is_zip64 = True,
             eo_first_cdfh_offset_in_tail =
               find_first_cdfh_in_tail w (of_nat (length (stream w)))
                 (of_nat (archive_size (length (stream w)) (files w)))\<rparr>"
proof -
  let ?p = "length (stream w)" and ?cd = "central_directory (files w)"
  let ?f = "find_first_cdfh_in_tail w (of_nat ?p) (of_nat (archive_size ?p (files w)))"
  let ?er = "end_records (num_files w) ?p (length ?cd) ?f"
  have out: "out_written (output_file w') = stream w @ ?cd @ ?er" using finalized_bytes[OF assms(1,2)] .
  have len: "length (out_written (output_file w')) = ?p + length ?cd + 106" unfolding out by simp
  have "drop k (out_written (output_file w')) = drop k (stream w @ ?cd) @ ?er"
    unfolding out using assms(5) by simp
  then show ?thesis
    unfolding len
    using eocd_only_writer[of ?p "length ?cd" "drop k (stream w @ ?cd)" "num_files w" ?f True]
      first_cdfh_24_bits[OF assms(3,4)] assms(4)
    by (simp add: archive_size_def)
qed

text \<open>C5: the central directory. From any suffix of a finished archive that contains the central
  directory, the downloader parses exactly the entries that the writer recorded, with their 64-bit
  sizes and offsets, modes, owners and part numbers, in the same order, and builds the part map of
  these entries. The archive is smaller than \<open>2^62\<close> bytes, and the entries satisfy \<open>directory_ok\<close>: names have less than
  \<open>2^16\<close> bytes, modes fit into 16 bits, and no size and no offset is exactly \<open>2^32 - 1\<close>, the value that marks a ZIP64
  field. The last condition is needed: the writer stores this value as it is, and the reader takes it for the marker, so that
  such an entry may be misread (see \<open>Parser_Safety\<close>). Names are read up to their first NUL.\<close>

theorem central_directory_roundtrip:
  assumes "writer_wf w" and "burst_writer_finalize w = (0, w')" and "directory_ok (files w)"
    and "archive_size (length (stream w)) (files w) < 2 ^ 62"
    and "k \<le> length (stream w)" and "part_len \<noteq> 0"
  shows "\<exists>r. central_dir_parse qs ([], []) (drop k (out_written (output_file w')))
               (of_nat (length (out_written (output_file w')))) part_len = Ok r
           \<and> cp_files r = map (metadata_of part_len) (files w)
           \<and> cp_central_dir_offset r = of_nat (length (stream w)) \<and> cp_is_zip64 r
           \<and> build_part_map qs [] (cp_files r) (of_nat (length (out_written (output_file w')))) part_len
             = Ok (cp_parts r)"
proof -
  let ?p = "length (stream w)" and ?cd = "central_directory (files w)"
  let ?f = "find_first_cdfh_in_tail w (of_nat ?p) (of_nat (archive_size ?p (files w)))"
  let ?er = "end_records (num_files w) ?p (length ?cd) ?f"
  have out: "out_written (output_file w') = stream w @ ?cd @ ?er" using finalized_bytes[OF assms(1,2)] .
  have len: "length (out_written (output_file w')) = ?p + length ?cd + 106" unfolding out by simp
  have dr: "drop k (out_written (output_file w')) = drop k (stream w) @ ?cd @ ?er"
    unfolding out using assms(5) by simp
  have "?p + length ?cd + 106 < 2 ^ 63" using assms(4) by (simp add: archive_size_def)
  from central_dir_parse_writer[OF assms(3,6) this, of "drop k (stream w)" qs "num_files w" ?f]
  show ?thesis unfolding len dr by auto
qed

text \<open>A writer whose directory is given and that has written nothing else.\<close>

definition demo_with :: "file_entry list \<Rightarrow> burst_writer" where
  "demo_with es = demo_writer\<lparr>files := es\<rparr>"

lemma demo_with_view:
  "writer_wf (demo_with es)" "fault_free (demo_with es)" "stream (demo_with es) = []" "files (demo_with es) = es"
  by (simp_all add: demo_with_def demo_writer_def writer_wf_def fault_free_def stream_def buffer_used_def
      WRITE_BUFFER_SIZE_def)

lemma demo_with_finalize: "\<exists>w'. burst_writer_finalize (demo_with es) = (0, w')"
  using burst_writer_finalize_refines(2)[OF demo_with_view(1,2)] by blast

lemma empty_entry_ok: "entry_ok empty_entry"
  by (simp add: entry_ok_def no_ambiguous_size_def empty_entry_def)

theorem central_directory_roundtrip_witness:
  "\<exists>w' r. burst_writer_finalize (demo_with [empty_entry]) = (0, w') \<and>
     central_dir_parse stable_qsort ([], []) (out_written (output_file w'))
       (of_nat (length (out_written (output_file w')))) 8388608 = Ok r
     \<and> cp_files r = [metadata_of 8388608 empty_entry]"
proof -
  obtain w' where w': "burst_writer_finalize (demo_with [empty_entry]) = (0, w')"
    using demo_with_finalize by blast
  have "archive_size (length (stream (demo_with [empty_entry]))) (files (demo_with [empty_entry])) < 2 ^ 62"
    by (simp add: archive_size_def demo_with_view length_empty_cdfh)
  with central_directory_roundtrip[OF demo_with_view(1) w', of 0 8388608 stable_qsort] w' show ?thesis
    by (auto simp: demo_with_view directory_ok_def empty_entry_ok)
qed

text \<open>C14: the partial directory. When the central directory starts before the last 8 MiB and a header
  starts inside them, the offset from the comment makes the downloader parse exactly the entries
  from the first header in the tail on; when none starts there, the comment says so. As for the whole directory, the
  archive is smaller than \<open>2^62\<close> bytes and the entries satisfy \<open>directory_ok\<close>: names have less than \<open>2^16\<close> bytes, modes
  fit into 16 bits, and no size and no offset is exactly \<open>2^32 - 1\<close> (such an entry may be misread).\<close>

theorem partial_directory_roundtrip:
  assumes "writer_wf w" and "burst_writer_finalize w = (0, w')" and "directory_ok (files w)"
    and "archive_size (length (stream w)) (files w) < 2 ^ 62"
    and "PART < archive_size (length (stream w)) (files w)"
    and "length (stream w) < archive_size (length (stream w)) (files w) - PART"
    and "\<not> part_len < BURST_BASE_PART_SIZE" and "part_len mod BURST_BASE_PART_SIZE = 0"
  defines "ts \<equiv> length (out_written (output_file w')) - PART"
    and "first \<equiv> find_first_cdfh_in_tail w (of_nat (length (stream w)))
                   (of_nat (archive_size (length (stream w)) (files w)))"
  shows "(\<forall>j < length (files w). cdfh_pos (length (stream w)) (files w) j < ts)
           \<and> first = BURST_EOCD_NO_CDFH_IN_TAIL
       \<or> (\<exists>j < length (files w). (\<forall>i < j. cdfh_pos (length (stream w)) (files w) i < ts)
           \<and> ts \<le> cdfh_pos (length (stream w)) (files w) j
           \<and> (\<exists>r. central_dir_parse_partial qs ([], []) (drop ts (out_written (output_file w')))
                     (of_nat ts) (of_nat (length (stream w))) first
                     (of_nat (length (out_written (output_file w')))) part_len True = Ok r
               \<and> cp_files r = map (metadata_of part_len) (drop j (files w))))"
proof -
  let ?p = "length (stream w)" and ?es = "files w" and ?cd = "central_directory (files w)"
  let ?er = "end_records (num_files w) ?p (length ?cd) first"
  let ?size = "archive_size ?p ?es"
  have out: "out_written (output_file w') = stream w @ ?cd @ ?er"
    using finalized_bytes[OF assms(1,2)] by (simp add: first_def)
  have len: "length (out_written (output_file w')) = ?size" unfolding out by (simp add: archive_size_def)
  have ts: "ts = ?size - PART" by (simp add: ts_def len)
  have parse: "\<exists>r. central_dir_parse_partial qs ([], []) (drop ts (out_written (output_file w')))
        (of_nat ts) (of_nat ?p) first (of_nat ?size) part_len True = Ok r
      \<and> cp_files r = map (metadata_of part_len) (drop j ?es)"
    if j: "j < length ?es" "ts \<le> cdfh_pos ?p ?es j" "unat first = cdfh_pos ?p ?es j - ts" for j
  proof -
    let ?pre = "drop ts (stream w @ central_directory (take j ?es))"
    have "?cd = central_directory (take j ?es) @ central_directory (drop j ?es)"
      by (metis append_take_drop_id central_directory_Cons(3))
    then have out2: "out_written (output_file w')
        = (stream w @ central_directory (take j ?es)) @ central_directory (drop j ?es) @ ?er"
      unfolding out by simp
    have pos: "cdfh_pos ?p ?es j = length (stream w @ central_directory (take j ?es))"
      by (simp add: cdfh_pos_def)
    have dr: "drop ts (out_written (output_file w')) = ?pre @ central_directory (drop j ?es) @ ?er"
      unfolding out2 using j(2) pos by simp
    have "length ?pre + length (central_directory (drop j ?es)) + 106 < 2 ^ 63"
      using len[unfolded out2] assms(4) j(2) pos by simp
    moreover have "directory_ok (drop j ?es)"
      using assms(3) by (auto simp: directory_ok_def dest: in_set_dropD)
    moreover have "unat first = length ?pre" using j(3) pos by simp
    ultimately show ?thesis
      using central_dir_parse_partial_writer[OF _ _ assms(7,8), of "drop j ?es" ?pre first] j(1)
      unfolding dr by fastforce
  qed
  from find_first_cdfh_cases[OF directory_ok_names[OF assms(3)] assms(4,5,6)] parse
  show ?thesis unfolding len ts first_def Let_def by blast
qed

theorem partial_directory_roundtrip_witness:
  "\<exists>w' j r. burst_writer_finalize (demo_with big_directory) = (0, w') \<and> j < 200000 \<and>
     central_dir_parse_partial stable_qsort ([], []) (drop 3811498 (out_written (output_file w')))
       (of_nat (length (out_written (output_file w')) - PART)) (of_nat 0)
       (find_first_cdfh_in_tail (demo_with big_directory) (of_nat 0) (of_nat 12200106))
       (of_nat (length (out_written (output_file w')))) 8388608 True = Ok r
     \<and> cp_files r = map (metadata_of 8388608) (drop j big_directory)"
proof -
  let ?w = "demo_with big_directory"
  obtain w' where w': "burst_writer_finalize ?w = (0, w')" using demo_with_finalize by blast
  have v: "length (stream ?w) = 0" "files ?w = big_directory" by (simp_all add: demo_with_view)
  have size: "archive_size (length (stream ?w)) (files ?w) = 12200106"
    unfolding v by (rule big_directory_size)
  have len: "length (out_written (output_file w')) = 12200106"
    using finalized_bytes[OF demo_with_view(1) w'] size by (simp add: archive_size_def demo_with_view)
  have ok: "directory_ok (files ?w)" unfolding v by (auto simp: directory_ok_def empty_entry_ok)
  have nt: "\<not> (\<forall>j < length big_directory. cdfh_pos 0 big_directory j < length (out_written (output_file w')) - PART)"
    using big_directory_tail unfolding len .
  have "archive_size (length (stream ?w)) (files ?w) < 2 ^ 62" "PART < archive_size (length (stream ?w)) (files ?w)"
    "length (stream ?w) < archive_size (length (stream ?w)) (files ?w) - PART"
    "\<not> (8388608 :: u64) < BURST_BASE_PART_SIZE" "(8388608 :: u64) mod BURST_BASE_PART_SIZE = 0"
    unfolding size by (simp_all add: v BURST_BASE_PART_SIZE_def)
  note t = partial_directory_roundtrip[OF demo_with_view(1) w' ok this, of stable_qsort]
  have "\<exists>j < length big_directory. \<exists>r. central_dir_parse_partial stable_qsort ([], [])
      (drop (length (out_written (output_file w')) - PART) (out_written (output_file w')))
      (of_nat (length (out_written (output_file w')) - PART)) (of_nat 0)
      (find_first_cdfh_in_tail ?w (of_nat 0) (of_nat 12200106))
      (of_nat (length (out_written (output_file w')))) 8388608 True = Ok r
      \<and> cp_files r = map (metadata_of 8388608) (drop j big_directory)"
    using t nt unfolding v big_directory_size by blast
  then show ?thesis using w' by (auto simp: len)
qed

end
